(* ===== verification/Prelude.thy ===== *)
theory Prelude
  imports Main "HOL-Library.Word" "HOL-Library.Multiset"
begin

text \<open>
  Shared vocabulary of the development: the machine types of the C sources, the outcome of a
  C call, and the list, word and modular-arithmetic lemmas the components use.

  A C call ends in one of three ways, and \<open>outcome\<close> has one constructor for each: it returns a
  value (\<open>Ret\<close>), it does something the C program must never do (\<open>Fault\<close>, with the reason: a
  failed \<^verbatim>\<open>assert\<close>, a NULL or dangling pointer, an access outside an object, a read of
  indeterminate memory), or it waits for another thread and does not return (\<open>Block\<close>: a
  \<^verbatim>\<open>sem_wait\<close> on a zero semaphore, a \<^verbatim>\<open>pthread_cond_wait\<close>). Every error code, early return
  and \<^verbatim>\<open>goto err\<close> of the sources is a value under \<open>Ret\<close>.
\<close>

section \<open>Machine types\<close>

type_synonym byte = "8 word"
type_synonym u32 = "32 word"
type_synonym u64 = "64 word"

section \<open>Outcomes of C calls\<close>

datatype fault =
    Assert_Failed
  | Null_Deref
  | Out_Of_Bounds
  | Use_After_Free
  | Double_Free
  | Indeterminate
  | Bad_Cast
  | Stack_Escape
  | Bad_Free

datatype 'a outcome = Ret 'a | Fault fault | Block

primrec bindo :: "'a outcome \<Rightarrow> ('a \<Rightarrow> 'b outcome) \<Rightarrow> 'b outcome" where
  "bindo (Ret x) f = f x"
| "bindo (Fault e) f = Fault e"
| "bindo Block f = Block"

definition asserto :: "bool \<Rightarrow> unit outcome" where
  "asserto b = (if b then Ret () else Fault Assert_Failed)"

text \<open>Dereferencing a pointer that may be NULL.\<close>

definition derefo :: "'a option \<Rightarrow> 'a outcome" where
  "derefo p = (case p of None \<Rightarrow> Fault Null_Deref | Some x \<Rightarrow> Ret x)"

text \<open>The congruence rule lets \<^theory_text>\<open>function\<close> see that the continuation runs only on a returned value.\<close>

lemma bindo_cong [fundef_cong]:
  "m = m' \<Longrightarrow> (\<And>x. m' = Ret x \<Longrightarrow> f x = f' x) \<Longrightarrow> bindo m f = bindo m' f'"
  by (cases m') auto

text \<open>Running a fallible action over a list, left to right.\<close>

primrec foldo :: "('a \<Rightarrow> 's \<Rightarrow> 's outcome) \<Rightarrow> 'a list \<Rightarrow> 's \<Rightarrow> 's outcome" where
  "foldo f [] s = Ret s"
| "foldo f (x # xs) s = bindo (f x s) (foldo f xs)"

named_theorems outcome_simps "unfolding rules of the outcome combinators"

lemma asserto_simps [simp, outcome_simps]:
  "asserto True = Ret ()" "asserto False = Fault Assert_Failed"
  by (simp_all add: asserto_def)

lemma asserto_Ret_iff [simp]: "asserto b = Ret u \<longleftrightarrow> b"
  by (simp add: asserto_def)

lemma derefo_simps [simp, outcome_simps]:
  "derefo None = Fault Null_Deref" "derefo (Some x) = Ret x"
  by (simp_all add: derefo_def)

lemma bindo_Ret_iff:
  "bindo m f = Ret y \<longleftrightarrow> (\<exists>x. m = Ret x \<and> f x = Ret y)"
  by (cases m) auto

lemma bindo_RetE [elim]:
  assumes "bindo m f = Ret y"
  obtains x where "m = Ret x" "f x = Ret y"
  using assms by (cases m) auto

lemma bindo_assoc: "bindo (bindo m f) g = bindo m (\<lambda>x. bindo (f x) g)"
  by (cases m) auto

lemma bindo_Ret_right [simp]: "bindo m Ret = m"
  by (cases m) simp_all

lemma foldo_Nil_fun [simp]: "foldo f [] = Ret"
  by (rule ext) simp

lemma foldo_append: "foldo f (xs @ ys) s = bindo (foldo f xs s) (foldo f ys)"
  by (induction xs arbitrary: s) (auto simp: bindo_assoc intro: bindo_cong)

section \<open>Integers\<close>

text \<open>The remainder of C, which takes the sign of the dividend.\<close>

definition c_rem :: "int \<Rightarrow> int \<Rightarrow> int" where
  "c_rem a b = (if a \<ge> 0 then a mod \<bar>b\<bar> else - (- a mod \<bar>b\<bar>))"

lemma c_rem_nonneg [simp]: "0 \<le> a \<Longrightarrow> 0 \<le> b \<Longrightarrow> c_rem a b = a mod b"
  by (simp add: c_rem_def)

section \<open>Words\<close>

lemma unat_ucast_32_64 [simp]: "unat (ucast (x :: u32) :: u64) = unat x"
proof -
  have "unat x < 2 ^ 64"
    using unsigned_less [of x, where ?'a = nat] by simp
  then show ?thesis
    by (simp add: unsigned_ucast_eq take_bit_nat_eq_self_iff)
qed

lemma unat_lt_32: "unat (x :: u32) < 4294967296"
  using unsigned_less [of x, where ?'a = nat] by simp

lemma unat_lt_64: "unat (x :: u64) < 18446744073709551616"
  using unsigned_less [of x, where ?'a = nat] by simp

lemma unat_plus_small:
  assumes "unat (a :: 'a :: len word) + unat b < 2 ^ LENGTH('a)"
  shows "unat (a + b) = unat a + unat b"
  using assms by (simp add: unat_word_ariths)

lemma unat_minus_ge:
  "unat (b :: 'a :: len word) \<le> unat a \<Longrightarrow> unat (a - b) = unat a - unat b"
  by (simp add: unat_sub_if')

lemma unat_mult_small:
  assumes "unat (a :: 'a :: len word) * unat b < 2 ^ LENGTH('a)"
  shows "unat (a * b) = unat a * unat b"
  using assms by (simp add: unat_word_ariths)

lemma unat_of_nat_small:
  "n < 2 ^ LENGTH('a) \<Longrightarrow> unat (of_nat n :: 'a :: len word) = n"
  by (simp add: unsigned_of_nat take_bit_nat_eq_self)

section \<open>Copying between byte buffers\<close>

text \<open>
  \<^verbatim>\<open>memcpy(dst + d, src + s, n)\<close> on buffers that are the whole C objects: an access outside
  either object is a fault.
\<close>

definition memcpy :: "'a list \<Rightarrow> nat \<Rightarrow> 'a list \<Rightarrow> nat \<Rightarrow> nat \<Rightarrow> 'a list outcome" where
  "memcpy dst d src s n =
     (if d + n \<le> length dst \<and> s + n \<le> length src
      then Ret (take d dst @ take n (drop s src) @ drop (d + n) dst)
      else Fault Out_Of_Bounds)"

lemma memcpy_ok [simp]:
  "d + n \<le> length dst \<Longrightarrow> s + n \<le> length src \<Longrightarrow>
   memcpy dst d src s n = Ret (take d dst @ take n (drop s src) @ drop (d + n) dst)"
  by (simp add: memcpy_def)

lemma length_memcpy: "memcpy dst d src s n = Ret out \<Longrightarrow> length out = length dst"
  by (auto simp: memcpy_def split: if_splits)

section \<open>Chunks of a list\<close>

text \<open>The items of size \<open>k\<close> a byte string is made of, in order, and their number.\<close>

definition chunk :: "nat \<Rightarrow> 'a list \<Rightarrow> nat \<Rightarrow> 'a list" where
  "chunk k xs i = take k (drop (i * k) xs)"

definition chunks :: "nat \<Rightarrow> 'a list \<Rightarrow> nat \<Rightarrow> 'a list list" where
  "chunks k xs n = map (chunk k xs) [0..<n]"

lemma length_chunks [simp]: "length (chunks k xs n) = n"
  by (simp add: chunks_def)

lemma nth_chunks [simp]: "i < n \<Longrightarrow> chunks k xs n ! i = chunk k xs i"
  by (simp add: chunks_def)

lemma length_chunk:
  assumes "i < n" "n * k \<le> length xs"
  shows "length (chunk k xs i) = k"
proof -
  have "Suc i * k \<le> n * k"
    using assms(1) by (intro mult_le_mono1) simp
  with assms(2) show ?thesis
    by (simp add: chunk_def)
qed

lemma chunk_drop: "chunk k (drop (j * k) xs) i = chunk k xs (j + i)"
  by (simp add: chunk_def add_mult_distrib add.commute)

lemma chunks_drop: "chunks k (drop (j * k) xs) n = drop j (chunks k xs (j + n))"
  by (rule nth_equalityI) (simp_all add: chunk_drop)

lemma chunk_take:
  assumes "i < n"
  shows "chunk k (take (n * k) xs) i = chunk k xs i"
proof -
  have "Suc i * k \<le> n * k"
    using assms by (intro mult_le_mono1) simp
  then have "k \<le> n * k - i * k"
    by simp
  then show ?thesis
    by (simp add: chunk_def drop_take min_def)
qed

lemma chunk_cong:
  assumes "\<And>j. j < k \<Longrightarrow> i * k + j < length xs \<and> i * k + j < length ys \<and>
    xs ! (i * k + j) = ys ! (i * k + j)"
  shows "chunk k xs i = chunk k ys i"
proof (cases k)
  case 0
  then show ?thesis by (simp add: chunk_def)
next
  case (Suc m)
  have "i * k + k \<le> length xs" "i * k + k \<le> length ys"
    using assms [of m] Suc by auto
  then show ?thesis
    unfolding chunk_def using assms
    by (intro nth_equalityI) auto
qed

text \<open>Copying \<open>n\<close> items to item position \<open>d\<close>, seen item by item.\<close>

lemma slice_append_left: "p + k \<le> length xs \<Longrightarrow> take k (drop p (xs @ ys)) = take k (drop p xs)"
  by simp

lemma slice_append_right:
  "length xs \<le> p \<Longrightarrow> take k (drop p (xs @ ys)) = take k (drop (p - length xs) ys)"
  by simp

lemma slice_take: "p + k \<le> n \<Longrightarrow> take k (drop p (take n xs)) = take k (drop p xs)"
  by (simp add: drop_take min_def)

lemma item_end_le: "i < (n :: nat) \<Longrightarrow> i * k + k \<le> n * k"
  using mult_le_mono1 [of "Suc i" n k] by simp

lemma chunk_copied:
  assumes "(d + n) * k \<le> length dst" "(s + n) * k \<le> length src" "d \<le> j" "j < d + n"
  shows "chunk k (take (d * k) dst @ take (n * k) (drop (s * k) src) @ drop ((d + n) * k) dst) j
    = chunk k src (s + (j - d))"
proof -
  define i where "i = j - d"
  have i: "j = d + i" "i < n"
    using assms(3,4) by (simp_all add: i_def)
  have len: "length (take (d * k) dst) = d * k" "length (take (n * k) (drop (s * k) src)) = n * k"
    using assms(1,2) by (simp_all add: add_mult_distrib)
  have e: "i * k + k \<le> n * k"
    using i(2) by (rule item_end_le)
  have p: "j * k - length (take (d * k) dst) = i * k" "length (take (d * k) dst) \<le> j * k"
    unfolding len by (simp_all add: i add_mult_distrib)
  show ?thesis
    unfolding chunk_def slice_append_right [OF p(2)] p(1)
    using e len(2) slice_take [OF e, of "drop (s * k) src"]
    by (subst slice_append_left) (simp_all add: i_def [symmetric] add_mult_distrib add.commute)
qed

lemma chunk_kept_before:
  assumes "(d + n) * k \<le> length dst" "j < d"
  shows "chunk k (take (d * k) dst @ ys) j = chunk k dst j"
proof -
  have e: "j * k + k \<le> d * k"
    using assms(2) by (rule item_end_le)
  moreover have "d * k \<le> length dst"
    using assms(1) by (simp add: add_mult_distrib)
  ultimately show ?thesis
    unfolding chunk_def by (subst slice_append_left) (simp_all add: slice_take)
qed

lemma chunk_kept_after:
  assumes "(d + n) * k \<le> length dst" "(s + n) * k \<le> length src" "d + n \<le> j"
  shows "chunk k (take (d * k) dst @ take (n * k) (drop (s * k) src) @ drop ((d + n) * k) dst) j
    = chunk k dst j"
proof -
  define i where "i = j - (d + n)"
  have i: "j = d + n + i"
    using assms(3) by (simp add: i_def)
  have len: "length (take (d * k) dst @ take (n * k) (drop (s * k) src)) = (d + n) * k"
    using assms(1,2) by (simp add: add_mult_distrib)
  show ?thesis
    unfolding chunk_def append_assoc [symmetric]
    by (subst slice_append_right) (simp_all only: len, simp_all add: i add_mult_distrib ac_simps)
qed

lemma length_concat_const: "\<forall>x \<in> set xs. length x = k \<Longrightarrow> length (concat xs) = length xs * k"
  by (induction xs) auto

lemma chunk_append_Suc: "length x = k \<Longrightarrow> chunk k (x @ ys) (Suc i) = chunk k ys i"
  by (simp add: chunk_def)

lemma chunks_concat:
  assumes "\<forall>x \<in> set xs. length x = k"
  shows "chunks k (concat xs) (length xs) = xs"
  using assms
proof (induction xs)
  case (Cons x xs)
  then have x: "length x = k" and IH: "chunks k (concat xs) (length xs) = xs"
    by simp_all
  show ?case
  proof (rule nth_equalityI)
    fix i
    assume "i < length (chunks k (concat (x # xs)) (length (x # xs)))"
    then show "chunks k (concat (x # xs)) (length (x # xs)) ! i = (x # xs) ! i"
      using x IH nth_chunks [of _ "length xs" k "concat xs"]
      by (cases i) (simp_all add: chunk_append_Suc, simp_all add: chunk_def)
  qed simp
qed (simp add: chunks_def)

lemma concat_chunks:
  "n * k \<le> length xs \<Longrightarrow> concat (chunks k xs n) = take (n * k) xs"
proof (induction n)
  case (Suc n)
  have "n * k \<le> length xs"
    using Suc.prems by simp
  moreover have "take (n * k) xs @ chunk k xs n = take (n * k + k) xs"
    by (simp only: chunk_def take_add)
  ultimately show ?case
    using Suc.IH by (simp add: chunks_def add.commute)
qed (simp add: chunks_def)

section \<open>Windows of a ring\<close>

text \<open>
  Absolute positions \<open>a\<close> and \<open>b\<close> at most one lap apart share a slot only when they are equal:
  the fact behind every ring of the program.
\<close>

lemma mod_window_inj:
  assumes "a mod n = b mod n" "a \<le> b" "b < a + n"
  shows "a = (b :: nat)"
proof -
  have "n dvd b - a"
    using assms(1,2) by (metis mod_eq_dvd_iff_nat)
  moreover have "b - a < n"
    using assms(2,3) by simp
  ultimately have "b - a = 0"
    by (metis dvd_imp_le neq0_conv not_less)
  with assms(2) show ?thesis by simp
qed

lemma mod_add_wrap:
  assumes "a < n" "b \<le> n"
  shows "(a + b) mod n = (if a + b < n then a + b else a + b - (n :: nat))"
proof (cases "a + b < n")
  case False
  then have "(a + b) mod n = (a + b - n) mod n"
    by (simp add: le_mod_geq)
  also have "\<dots> = a + b - n"
    using assms by simp
  finally show ?thesis
    using False by simp
qed simp

end
