(* ===== verification/Ring_Buffer.thy ===== *)
theory Ring_Buffer
  imports Prelude "HOL-Library.Sublist"
begin

text \<open>
  The audio ring buffer of \<^verbatim>\<open>stratusd/Common/src/ringBuffer.c\<close>: fixed-size items in a byte
  array, two 32-bit positions, a 32-bit count, a mutex and a condition variable. Positions and
  counts stay 32-bit words and byte offsets 64-bit words (\<^verbatim>\<open>size_t\<close>), so that the wrap-around
  of the C arithmetic is part of the model; \<^verbatim>\<open>memcpy\<close> faults outside its objects.

  The mutex is the flag \<open>rb_lock\<close>; \<open>rb_signals\<close> and \<open>rb_broadcasts\<close> count the calls of
  \<^verbatim>\<open>pthread_cond_signal\<close> and \<^verbatim>\<open>pthread_cond_broadcast\<close>. A call of \<open>ring_buffer_wait_read\<close> that
  would sleep on the condition variable is \<open>Block\<close>; the step relation \<open>reader_step\<close> takes the
  sleeping, waking and re-checking apart.

  The abstract view is the list of unread items (\<open>ring_items\<close>), and the contract of the
  component is the locale \<open>lossy_queue\<close>: a write appends and keeps the newest items that fit.
\<close>

section \<open>State and operations\<close>

record ring_buffer =
  rb_buffer :: "byte list"
  rb_capacity :: u32
  rb_item_size :: u64
  rb_read_pos :: u32
  rb_write_pos :: u32
  rb_items_available :: u32
  rb_closed :: bool
  rb_lock :: bool
  rb_signals :: nat
  rb_broadcasts :: nat

definition mutex_lock :: "ring_buffer \<Rightarrow> ring_buffer outcome" where
  "mutex_lock ring = (if rb_lock ring then Block else Ret (ring\<lparr>rb_lock := True\<rparr>))"

definition mutex_unlock :: "ring_buffer \<Rightarrow> ring_buffer" where
  "mutex_unlock ring = ring\<lparr>rb_lock := False\<rparr>"

definition ring_buffer_items_free :: "ring_buffer \<Rightarrow> u32" where
  "ring_buffer_items_free ring = rb_capacity ring - rb_items_available ring"

definition ring_buffer_drop_oldest_locked :: "ring_buffer \<Rightarrow> u32 \<Rightarrow> ring_buffer" where
  "ring_buffer_drop_oldest_locked ring items =
     (let items = (if items > rb_items_available ring then rb_items_available ring else items)
      in if items = 0 then ring
         else ring\<lparr>rb_read_pos := (rb_read_pos ring + items) mod rb_capacity ring,
                   rb_items_available := rb_items_available ring - items\<rparr>)"

text \<open>A pointer into a byte object is the object and a \<^verbatim>\<open>size_t\<close> offset.\<close>

definition ring_buffer_copy_items ::
    "byte list \<Rightarrow> u64 \<Rightarrow> byte list \<Rightarrow> u64 \<Rightarrow> u32 \<Rightarrow> u64 \<Rightarrow> byte list outcome" where
  "ring_buffer_copy_items dst d src s items item_size =
     memcpy dst (unat d) src (unat s) (unat (ucast items * item_size))"

text \<open>The copies of \<open>ring_buffer_read_locked\<close> once the number of items to read is known, and the
  whole function.\<close>

definition ring_read_copy ::
    "ring_buffer \<Rightarrow> byte list \<Rightarrow> u32 \<Rightarrow> (ring_buffer \<times> byte list) outcome" where
  "ring_read_copy ring dst items_to_read =
     (let first_chunk = rb_capacity ring - rb_read_pos ring;
          first_chunk_items = (if first_chunk > items_to_read then items_to_read else first_chunk);
          second_chunk_items = items_to_read - first_chunk_items;
          isz = rb_item_size ring
      in bindo (ring_buffer_copy_items dst 0 (rb_buffer ring)
                  (ucast (rb_read_pos ring) * isz) first_chunk_items isz) (\<lambda>dst.
         bindo (if second_chunk_items > 0
                then ring_buffer_copy_items dst (ucast first_chunk_items * isz)
                       (rb_buffer ring) 0 second_chunk_items isz
                else Ret dst) (\<lambda>dst.
         Ret (ring\<lparr>rb_read_pos := (rb_read_pos ring + items_to_read) mod rb_capacity ring,
                   rb_items_available := rb_items_available ring - items_to_read\<rparr>, dst))))"

definition ring_buffer_read_locked ::
    "ring_buffer \<Rightarrow> byte list option \<Rightarrow> u32 \<Rightarrow> (u32 \<times> ring_buffer \<times> byte list option) outcome"
where
  "ring_buffer_read_locked ring data items =
     (case data of
        None \<Rightarrow> Ret (0, ring, data)
      | Some dst \<Rightarrow>
          if items = 0 then Ret (0, ring, data)
          else let items_to_read =
                     (if items > rb_items_available ring then rb_items_available ring else items)
               in if items_to_read = 0 then Ret (0, ring, data)
                  else bindo (ring_read_copy ring dst items_to_read) (\<lambda>(ring, dst).
                       Ret (items_to_read, ring, Some dst)))"

text \<open>
  \<open>calloc_ok\<close>, \<open>malloc_ok\<close>, \<open>mutex_ok\<close> and \<open>cond_ok\<close> say which of the four calls succeed;
  \<open>junk\<close> is what \<^verbatim>\<open>malloc\<close> leaves in the block. The size of the block is the wrapped product.
\<close>

definition ring_buffer_init ::
    "bool \<Rightarrow> bool \<Rightarrow> bool \<Rightarrow> bool \<Rightarrow> (nat \<Rightarrow> byte) \<Rightarrow> u32 \<Rightarrow> u64 \<Rightarrow> ring_buffer option" where
  "ring_buffer_init calloc_ok malloc_ok mutex_ok cond_ok junk capacity item_size =
     (if capacity = 0 \<or> item_size = 0 then None
      else if \<not> calloc_ok then None
      else if \<not> malloc_ok then None
      else if \<not> mutex_ok then None
      else if \<not> cond_ok then None
      else Some \<lparr>rb_buffer = map junk [0..<unat (ucast capacity * item_size)],
                 rb_capacity = capacity, rb_item_size = item_size,
                 rb_read_pos = 0, rb_write_pos = 0, rb_items_available = 0,
                 rb_closed = False, rb_lock = False, rb_signals = 0, rb_broadcasts = 0\<rparr>)"

text \<open>
  The body of \<open>ring_buffer_write\<close> in the order of the source: how many input items to skip and to
  write, room made by dropping the oldest unread items, and the two copies with the updates of
  position, count and condition variable.
\<close>

definition ring_write_clamp :: "ring_buffer \<Rightarrow> u32 \<Rightarrow> u32 \<times> u32" where
  "ring_write_clamp ring items =
     (if items > rb_capacity ring then (items - rb_capacity ring, rb_capacity ring)
      else (0, items))"

definition ring_write_make_room :: "ring_buffer \<Rightarrow> u32 \<Rightarrow> ring_buffer" where
  "ring_write_make_room ring items_to_write =
     (if items_to_write > ring_buffer_items_free ring
      then ring_buffer_drop_oldest_locked ring (items_to_write - ring_buffer_items_free ring)
      else ring)"

definition ring_write_copy :: "ring_buffer \<Rightarrow> byte list \<Rightarrow> u32 \<Rightarrow> u32 \<Rightarrow> ring_buffer outcome" where
  "ring_write_copy ring data items_to_skip items_to_write =
     (let isz = rb_item_size ring;
          src = ucast items_to_skip * isz;
          first_chunk = rb_capacity ring - rb_write_pos ring;
          first_chunk_items = (if first_chunk > items_to_write then items_to_write else first_chunk);
          second_chunk_items = items_to_write - first_chunk_items
      in bindo (ring_buffer_copy_items (rb_buffer ring)
                  (ucast (rb_write_pos ring) * isz) data src first_chunk_items isz) (\<lambda>b.
         bindo (if second_chunk_items > 0
                then ring_buffer_copy_items b 0 data
                       (src + ucast first_chunk_items * isz) second_chunk_items isz
                else Ret b) (\<lambda>b.
         Ret (ring\<lparr>rb_buffer := b,
                   rb_write_pos := (rb_write_pos ring + items_to_write) mod rb_capacity ring,
                   rb_items_available := rb_items_available ring + items_to_write,
                   rb_signals := Suc (rb_signals ring)\<rparr>))))"

definition ring_buffer_write ::
    "ring_buffer option \<Rightarrow> byte list option \<Rightarrow> u32 \<Rightarrow> (u32 \<times> ring_buffer option) outcome" where
  "ring_buffer_write ring0 data0 items =
     (case (ring0, data0) of
        (Some ring, Some data) \<Rightarrow>
          if items = 0 then Ret (0, ring0)
          else bindo (mutex_lock ring) (\<lambda>ring.
            if rb_closed ring then Ret (0, Some (mutex_unlock ring))
            else (case ring_write_clamp ring items of (items_to_skip, items_to_write) \<Rightarrow>
              bindo (ring_write_copy (ring_write_make_room ring items_to_write) data
                       items_to_skip items_to_write) (\<lambda>ring.
              Ret (items_to_write, Some (mutex_unlock ring)))))
      | _ \<Rightarrow> Ret (0, ring0))"

text \<open>The \<^verbatim>\<open>while\<close> around \<^verbatim>\<open>pthread_cond_wait\<close>: with nothing to read and not closed, the thread
  sleeps.\<close>

definition ring_buffer_wait_read ::
    "ring_buffer option \<Rightarrow> byte list option \<Rightarrow> u32 \<Rightarrow>
     (u32 \<times> ring_buffer option \<times> byte list option) outcome" where
  "ring_buffer_wait_read ring0 data items =
     (case (ring0, data) of
        (Some ring, Some _) \<Rightarrow>
          if items = 0 then Ret (0, ring0, data)
          else bindo (mutex_lock ring) (\<lambda>ring.
            if rb_items_available ring = 0 \<and> \<not> rb_closed ring then Block
            else bindo (ring_buffer_read_locked ring data items) (\<lambda>(n, ring, dst).
                 Ret (n, Some (mutex_unlock ring), dst)))
      | _ \<Rightarrow> Ret (0, ring0, data))"

definition ring_buffer_close :: "ring_buffer option \<Rightarrow> ring_buffer option outcome" where
  "ring_buffer_close ring0 =
     (case ring0 of
        None \<Rightarrow> Ret None
      | Some ring \<Rightarrow>
          bindo (mutex_lock ring) (\<lambda>ring.
            Ret (Some (mutex_unlock
              (ring\<lparr>rb_closed := True, rb_broadcasts := Suc (rb_broadcasts ring)\<rparr>)))))"

section \<open>Representation invariant and abstract view\<close>

text \<open>
  The bound on the capacity is what keeps \<^verbatim>\<open>read_pos + items\<close> below \<open>2 ^ 32\<close>; the byte size must
  not have wrapped in \<^verbatim>\<open>ring_buffer_init\<close>.
\<close>

abbreviation ring_cap :: "ring_buffer \<Rightarrow> nat" where "ring_cap r \<equiv> unat (rb_capacity r)"
abbreviation ring_isz :: "ring_buffer \<Rightarrow> nat" where "ring_isz r \<equiv> unat (rb_item_size r)"
abbreviation ring_rpos :: "ring_buffer \<Rightarrow> nat" where "ring_rpos r \<equiv> unat (rb_read_pos r)"
abbreviation ring_wpos :: "ring_buffer \<Rightarrow> nat" where "ring_wpos r \<equiv> unat (rb_write_pos r)"
abbreviation ring_avail :: "ring_buffer \<Rightarrow> nat" where "ring_avail r \<equiv> unat (rb_items_available r)"

definition ring_wf :: "ring_buffer \<Rightarrow> bool" where
  "ring_wf r \<longleftrightarrow> 0 < ring_cap r \<and> ring_cap r \<le> 2 ^ 31 \<and> 0 < ring_isz r \<and>
     ring_cap r * ring_isz r < 2 ^ 64 \<and> length (rb_buffer r) = ring_cap r * ring_isz r \<and>
     ring_rpos r < ring_cap r \<and> ring_avail r \<le> ring_cap r \<and>
     ring_wpos r = (ring_rpos r + ring_avail r) mod ring_cap r"

definition ring_items :: "ring_buffer \<Rightarrow> byte list list" where
  "ring_items r =
     map (\<lambda>i. chunk (ring_isz r) (rb_buffer r) ((ring_rpos r + i) mod ring_cap r))
       [0..<ring_avail r]"

definition lossy_append :: "nat \<Rightarrow> 'a list \<Rightarrow> 'a list \<Rightarrow> 'a list" where
  "lossy_append cap xs ys = drop (length xs + length ys - cap) (xs @ ys)"

lemma length_ring_items [simp]: "length (ring_items r) = ring_avail r"
  by (simp add: ring_items_def)

lemma nth_ring_items:
  "i < ring_avail r \<Longrightarrow>
   ring_items r ! i = chunk (ring_isz r) (rb_buffer r) ((ring_rpos r + i) mod ring_cap r)"
  by (simp add: ring_items_def)

lemma ring_wfD:
  assumes "ring_wf r"
  shows "0 < ring_cap r" "ring_cap r \<le> 2147483648" "0 < ring_isz r"
    "ring_cap r * ring_isz r < 18446744073709551616"
    "length (rb_buffer r) = ring_cap r * ring_isz r" "ring_rpos r < ring_cap r"
    "ring_avail r \<le> ring_cap r" "ring_wpos r = (ring_rpos r + ring_avail r) mod ring_cap r"
    "ring_wpos r < ring_cap r"
  using assms by (simp_all add: ring_wf_def)

text \<open>No position overflows: the sums the code takes modulo the capacity are exact.\<close>

lemma ring_advance:
  assumes "ring_wf r" "unat p < ring_cap r" "unat n \<le> ring_cap r"
  shows "unat ((p + n) mod rb_capacity r) = (unat p + unat n) mod ring_cap r"
proof -
  have "unat p + unat n < 2 ^ LENGTH(32)"
    using assms ring_wfD(2) [OF assms(1)] by simp
  then show ?thesis
    by (simp add: unat_mod_distrib unat_plus_small)
qed

text \<open>Byte offsets do not overflow either.\<close>

lemma ring_offset:
  fixes n :: u32
  assumes "ring_wf r" "unat n \<le> ring_cap r"
  shows "unat (ucast n * rb_item_size r) = unat n * ring_isz r"
proof -
  have "unat n * ring_isz r \<le> ring_cap r * ring_isz r"
    using assms(2) by (rule mult_le_mono1)
  then have "unat n * ring_isz r < 2 ^ LENGTH(64)"
    using le_less_trans [OF _ ring_wfD(4) [OF assms(1)]] by simp
  then show ?thesis
    by (subst unat_mult_small) simp_all
qed

section \<open>Dropping the oldest items\<close>

lemma drop_oldest_frame [simp]:
  "rb_buffer (ring_buffer_drop_oldest_locked r n) = rb_buffer r"
  "rb_capacity (ring_buffer_drop_oldest_locked r n) = rb_capacity r"
  "rb_item_size (ring_buffer_drop_oldest_locked r n) = rb_item_size r"
  "rb_write_pos (ring_buffer_drop_oldest_locked r n) = rb_write_pos r"
  "rb_closed (ring_buffer_drop_oldest_locked r n) = rb_closed r"
  "rb_lock (ring_buffer_drop_oldest_locked r n) = rb_lock r"
  "rb_signals (ring_buffer_drop_oldest_locked r n) = rb_signals r"
  "rb_broadcasts (ring_buffer_drop_oldest_locked r n) = rb_broadcasts r"
  by (simp_all add: ring_buffer_drop_oldest_locked_def Let_def)

lemma drop_oldest_avail:
  assumes "unat n \<le> ring_avail r"
  shows "ring_avail (ring_buffer_drop_oldest_locked r n) = ring_avail r - unat n"
  using assms
  by (auto simp: ring_buffer_drop_oldest_locked_def Let_def word_less_nat_alt unat_minus_ge)

lemma drop_oldest_rpos:
  assumes "ring_wf r" "unat n \<le> ring_avail r"
  shows "ring_rpos (ring_buffer_drop_oldest_locked r n) = (ring_rpos r + unat n) mod ring_cap r"
proof -
  have "unat n \<le> ring_cap r"
    using assms ring_wfD(7) by (meson le_trans)
  then show ?thesis
    using assms ring_advance [OF assms(1) ring_wfD(6) [OF assms(1)]] ring_wfD(6) [OF assms(1)]
    by (auto simp: ring_buffer_drop_oldest_locked_def Let_def word_less_nat_alt)
qed

lemma drop_oldest_wf:
  assumes "ring_wf r" "unat n \<le> ring_avail r"
  shows "ring_wf (ring_buffer_drop_oldest_locked r n)"
proof -
  have "((ring_rpos r + unat n) mod ring_cap r + (ring_avail r - unat n)) mod ring_cap r
      = (ring_rpos r + ring_avail r) mod ring_cap r"
    using assms(2) mod_add_left_eq [of "ring_rpos r + unat n" "ring_cap r" "ring_avail r - unat n"]
    by simp
  then show ?thesis
    using ring_wfD [OF assms(1)]
    by (simp add: ring_wf_def drop_oldest_rpos [OF assms] drop_oldest_avail [OF assms(2)])
qed

lemma drop_oldest_items:
  assumes "ring_wf r" "unat n \<le> ring_avail r"
  shows "ring_items (ring_buffer_drop_oldest_locked r n) = drop (unat n) (ring_items r)"
proof (rule nth_equalityI)
  fix i
  assume "i < length (ring_items (ring_buffer_drop_oldest_locked r n))"
  then have i: "unat n + i < ring_avail r"
    using assms(2) by (simp add: drop_oldest_avail)
  have "((ring_rpos r + unat n) mod ring_cap r + i) mod ring_cap r
      = (ring_rpos r + (unat n + i)) mod ring_cap r"
    by (simp add: mod_add_left_eq add.assoc)
  then show "ring_items (ring_buffer_drop_oldest_locked r n) ! i = drop (unat n) (ring_items r) ! i"
    using i assms by (simp add: nth_ring_items drop_oldest_avail drop_oldest_rpos)
qed (simp add: drop_oldest_avail assms)

section \<open>Writing\<close>

text \<open>
  What the two \<^verbatim>\<open>memcpy\<close> calls of a write do to the array, at the level of item positions:
  \<open>n\<close> items from position \<open>skip\<close> of the input go to \<open>n\<close> consecutive slots of the ring from \<open>wp\<close>.
\<close>

definition ring_fill :: "nat \<Rightarrow> nat \<Rightarrow> nat \<Rightarrow> nat \<Rightarrow> nat \<Rightarrow> 'a list \<Rightarrow> 'a list \<Rightarrow> 'a list" where
  "ring_fill k cap wp n skip buf data =
     (let f = min (cap - wp) n;
          b = take (wp * k) buf @ take (f * k) (drop (skip * k) data) @ drop ((wp + f) * k) buf
      in if n - f > 0
         then take (0 * k) b @ take ((n - f) * k) (drop ((skip + f) * k) data) @
              drop ((0 + (n - f)) * k) b
         else b)"

lemma ring_fill_parts:
  fixes k cap wp n skip :: nat and buf data :: "'a list"
  defines "f \<equiv> min (cap - wp) n"
  defines "b \<equiv> take (wp * k) buf @ take (f * k) (drop (skip * k) data) @ drop ((wp + f) * k) buf"
  assumes buf: "length buf = cap * k" and wp: "wp < cap" and n: "n \<le> cap"
    and data: "(skip + n) * k \<le> length data"
  shows "(wp + f) * k \<le> length buf" "(skip + f) * k \<le> length data" "length b = cap * k"
    "(0 + (n - f)) * k \<le> length b" "(skip + f + (n - f)) * k \<le> length data"
    "ring_fill k cap wp n skip buf data =
      (if n - f > 0 then take (0 * k) b @ take ((n - f) * k) (drop ((skip + f) * k) data) @
         drop ((0 + (n - f)) * k) b else b)"
proof -
  have f: "f \<le> n" "wp + f \<le> cap" "n - f \<le> cap"
    using n wp by (auto simp: f_def)
  show 1: "(wp + f) * k \<le> length buf"
    unfolding buf using f(2) by (rule mult_le_mono1)
  have "(skip + f) * k \<le> (skip + n) * k"
    using f(1) by (intro mult_le_mono1) simp
  then show 2: "(skip + f) * k \<le> length data"
    using data by (rule le_trans)
  show 3: "length b = cap * k"
    using 1 2 by (simp add: b_def buf add_mult_distrib)
  show "(0 + (n - f)) * k \<le> length b"
    unfolding 3 using f(3) by (intro mult_le_mono1) simp
  show "(skip + f + (n - f)) * k \<le> length data"
    using data f(1) by (simp add: add.assoc)
qed (simp add: ring_fill_def f_def b_def Let_def)

lemma length_ring_fill:
  assumes "length buf = cap * k" "wp < cap" "n \<le> cap" "(skip + n) * k \<le> length data"
  shows "length (ring_fill k cap wp n skip buf data) = cap * k"
proof -
  define f where "f = min (cap - wp) n"
  define b where
    "b = take (wp * k) buf @ take (f * k) (drop (skip * k) data) @ drop ((wp + f) * k) buf"
  note parts = ring_fill_parts [OF assms, folded f_def, folded b_def]
  have "(skip + f) * k + (n - f) * k \<le> length data"
    using parts(5) by (simp only: add_mult_distrib [of "skip + f"])
  then have "(n - f) * k \<le> length data - (skip + f) * k"
    by (intro add_le_imp_le_diff) (simp only: add.commute)
  then show ?thesis
    unfolding parts(6) using parts(3,4) by simp
qed

lemma ring_fill_new:
  assumes buf: "length buf = cap * k" and wp: "wp < cap" and n: "n \<le> cap"
    and data: "(skip + n) * k \<le> length data" and i: "i < n"
  shows "chunk k (ring_fill k cap wp n skip buf data) ((wp + i) mod cap) = chunk k data (skip + i)"
proof -
  define f where "f = min (cap - wp) n"
  note parts = ring_fill_parts [OF buf wp n data, folded f_def]
  have f: "f \<le> cap - wp" "n - f \<le> wp" "n - f > 0 \<Longrightarrow> f = cap - wp"
    using n wp by (auto simp: f_def)
  show ?thesis
  proof (cases "i < f")
    case True
    then have m: "(wp + i) mod cap = wp + i"
      using f(1) wp by simp
    show ?thesis
      unfolding parts(6) m
      using True f(2) chunk_copied [OF parts(1,2), of "wp + i"]
        chunk_kept_after [OF parts(4,5), of "wp + i"] by simp
  next
    case False
    then have f4: "f = cap - wp" and n0: "n - f > 0"
      using f(3) i by auto
    then have m: "(wp + i) mod cap = i - f"
      using False wp n i mod_add_wrap [of wp cap i] by auto
    show ?thesis
      unfolding parts(6) m using n0 False i chunk_copied [OF parts(4,5), of "i - f"] by simp
  qed
qed

lemma ring_fill_old:
  assumes buf: "length buf = cap * k" and wp: "wp < cap" and n: "n \<le> cap"
    and data: "(skip + n) * k \<le> length data" and i: "n \<le> i" "i < cap"
  shows "chunk k (ring_fill k cap wp n skip buf data) ((wp + i) mod cap)
    = chunk k buf ((wp + i) mod cap)"
proof -
  define f where "f = min (cap - wp) n"
  define j where "j = (wp + i) mod cap"
  note parts = ring_fill_parts [OF buf wp n data, folded f_def]
  have j: "n - f \<le> j" "j < wp \<or> wp + f \<le> j"
    using mod_add_wrap [OF wp, of i] i n by (auto simp: j_def f_def min_def split: if_splits)
  show ?thesis
    unfolding j_def [symmetric] parts(6)
    using j chunk_kept_after [OF parts(4,5), of j] chunk_kept_before [OF parts(1)]
      chunk_kept_after [OF parts(1,2), of j] by auto
qed

lemma write_copies:
  fixes n :: u32
  assumes wf: "ring_wf r" and buf: "length buf = ring_cap r * ring_isz r"
    and n: "unat n \<le> ring_cap r"
    and skip: "(unat skip + unat n) * ring_isz r \<le> length data" "length data < 2 ^ 64"
  defines "f \<equiv> (if rb_capacity r - rb_write_pos r > n then n else rb_capacity r - rb_write_pos r)"
  shows "bindo (ring_buffer_copy_items buf (ucast (rb_write_pos r) * rb_item_size r) data
             (ucast (skip :: u32) * rb_item_size r) f (rb_item_size r)) (\<lambda>b.
           bindo (if n - f > 0
                  then ring_buffer_copy_items b 0 data
                    (ucast skip * rb_item_size r + ucast f * rb_item_size r) (n - f)
                    (rb_item_size r)
                  else Ret b) g)
         = g (ring_fill (ring_isz r) (ring_cap r) (ring_wpos r) (unat n) (unat skip) buf data)"
proof -
  let ?k = "ring_isz r" and ?c = "ring_cap r" and ?w = "ring_wpos r"
  have wp: "?w < ?c"
    using ring_wfD(9) [OF wf] .
  have cw: "unat (rb_capacity r - rb_write_pos r) = ?c - ?w"
    using wp by (simp add: unat_minus_ge)
  then have f: "unat f = min (?c - ?w) (unat n)"
    by (auto simp: f_def word_less_nat_alt)
  then have nf: "unat (n - f) = unat n - unat f" and fle: "unat f \<le> ?c" "unat (n - f) \<le> ?c"
    using n by (simp_all add: unat_minus_ge)
  have gt: "n - f > 0 \<longleftrightarrow> unat n - unat f > 0"
    using nf by (simp add: word_less_nat_alt)
  note parts = ring_fill_parts [OF buf wp n skip(1), folded f]
  have s1: "(unat skip + unat f) * ?k < 2 ^ 64"
    using parts(2) skip(2) by simp
  then have s2: "unat skip * ?k + unat f * ?k < 2 ^ 64"
    by (simp add: add_mult_distrib)
  then have s3: "unat (ucast skip * rb_item_size r) = unat skip * ?k"
    by (subst unat_mult_small) simp_all
  have s4: "unat (ucast skip * rb_item_size r + ucast f * rb_item_size r)
      = (unat skip + unat f) * ?k"
    using s2 ring_offset [OF wf fle(1)] s3 by (subst unat_plus_small) (simp_all add: add_mult_distrib)
  show ?thesis
    unfolding ring_buffer_copy_items_def s3 s4 gt ring_offset [OF wf fle(1)]
      ring_offset [OF wf fle(2)] ring_offset [OF wf less_imp_le [OF wp]] nf
    using parts(1-5) unfolding parts(6) add_mult_distrib
    by (simp add: add.assoc)
qed

definition ring_written :: "ring_buffer \<Rightarrow> byte list \<Rightarrow> nat \<Rightarrow> u32 \<Rightarrow> ring_buffer" where
  "ring_written r data skip n =
     r\<lparr>rb_buffer := ring_fill (ring_isz r) (ring_cap r) (ring_wpos r) (unat n) skip
                      (rb_buffer r) data,
       rb_write_pos := (rb_write_pos r + n) mod rb_capacity r,
       rb_items_available := rb_items_available r + n,
       rb_signals := Suc (rb_signals r)\<rparr>"

lemma ring_write_copy_ok:
  assumes wf: "ring_wf r" and room: "ring_avail r + unat n \<le> ring_cap r"
    and data: "(unat skip + unat n) * ring_isz r \<le> length data" "length data < 2 ^ 64"
  shows "ring_write_copy r data skip n = Ret (ring_written r data (unat skip) n)"
proof -
  have "unat n \<le> ring_cap r"
    using room by simp
  from write_copies [OF wf ring_wfD(5) [OF wf] this data] show ?thesis
    unfolding ring_write_copy_def ring_written_def Let_def by (rule trans) simp
qed

lemma ring_written_frame [simp]:
  "rb_capacity (ring_written r data skip n) = rb_capacity r"
  "rb_item_size (ring_written r data skip n) = rb_item_size r"
  "rb_read_pos (ring_written r data skip n) = rb_read_pos r"
  "rb_closed (ring_written r data skip n) = rb_closed r"
  "rb_lock (ring_written r data skip n) = rb_lock r"
  "rb_signals (ring_written r data skip n) = Suc (rb_signals r)"
  "rb_broadcasts (ring_written r data skip n) = rb_broadcasts r"
  by (simp_all add: ring_written_def)

lemma ring_written_avail:
  assumes "ring_wf r" "ring_avail r + unat n \<le> ring_cap r"
  shows "ring_avail (ring_written r data skip n) = ring_avail r + unat n"
proof -
  have "ring_avail r + unat n < 2 ^ LENGTH(32)"
    using assms(2) ring_wfD(2) [OF assms(1)] by simp
  then show ?thesis
    by (simp add: ring_written_def unat_plus_small)
qed

lemma ring_written_wf:
  assumes wf: "ring_wf r" and room: "ring_avail r + unat n \<le> ring_cap r"
    and data: "(skip + unat n) * ring_isz r \<le> length data"
  shows "ring_wf (ring_written r data skip n)"
proof -
  have n: "unat n \<le> ring_cap r"
    using room by simp
  have "ring_wpos (ring_written r data skip n) = (ring_wpos r + unat n) mod ring_cap r"
    using ring_advance [OF wf ring_wfD(9) [OF wf] n] by (simp add: ring_written_def)
  also have "\<dots> = (ring_rpos r + (ring_avail r + unat n)) mod ring_cap r"
    by (simp add: ring_wfD(8) [OF wf] mod_add_left_eq add.assoc)
  finally show ?thesis
    using ring_wfD [OF wf] room ring_written_avail [OF wf room]
      length_ring_fill [OF ring_wfD(5) [OF wf] ring_wfD(9) [OF wf] n data]
    by (simp add: ring_wf_def) (simp add: ring_written_def)
qed

lemma ring_written_items:
  assumes wf: "ring_wf r" and room: "ring_avail r + unat n \<le> ring_cap r"
    and data: "(skip + unat n) * ring_isz r \<le> length data"
  shows "ring_items (ring_written r data skip n) =
    ring_items r @ drop skip (chunks (ring_isz r) data (skip + unat n))"
proof (rule nth_equalityI)
  let ?r = "ring_written r data skip n" and ?c = "ring_cap r"
  fix i
  assume "i < length (ring_items ?r)"
  then have i: "i < ring_avail r + unat n"
    by (simp add: ring_written_avail [OF wf room])
  have n: "unat n \<le> ?c"
    using room by simp
  note fill = ring_wfD(5) [OF wf] ring_wfD(9) [OF wf] n data
  have buf: "rb_buffer ?r = ring_fill (ring_isz r) ?c (ring_wpos r) (unat n) skip (rb_buffer r) data"
    by (simp add: ring_written_def)
  show "ring_items ?r ! i =
      (ring_items r @ drop skip (chunks (ring_isz r) data (skip + unat n))) ! i"
  proof (cases "i < ring_avail r")
    case True
    let ?d = "?c - ring_avail r + i"
    have "(ring_wpos r + ?d) mod ?c = (ring_rpos r + ring_avail r + ?d) mod ?c"
      by (simp add: ring_wfD(8) [OF wf] mod_add_left_eq)
    also have "ring_rpos r + ring_avail r + ?d = ring_rpos r + i + ?c"
      using ring_wfD(7) [OF wf] by simp
    finally have slot: "(ring_wpos r + ?d) mod ?c = (ring_rpos r + i) mod ?c"
      by simp
    have "unat n \<le> ?d" "?d < ?c"
      using room True ring_wfD(7) [OF wf] by auto
    from ring_fill_old [OF fill this] show ?thesis
      using True i by (simp add: nth_ring_items ring_written_avail [OF wf room] buf slot nth_append)
  next
    case False
    let ?d = "i - ring_avail r"
    have "(ring_wpos r + ?d) mod ?c = (ring_rpos r + ring_avail r + ?d) mod ?c"
      by (simp add: ring_wfD(8) [OF wf] mod_add_left_eq)
    then have slot: "(ring_wpos r + ?d) mod ?c = (ring_rpos r + i) mod ?c"
      using False by simp
    have "?d < unat n"
      using False i by simp
    from ring_fill_new [OF fill this, unfolded slot] show ?thesis
      using False i by (simp add: nth_ring_items ring_written_avail [OF wf room] buf nth_append)
  qed
qed (simp add: ring_written_avail [OF wf room])

lemma ring_wf_lock [simp]: "ring_wf (r\<lparr>rb_lock := l\<rparr>) = ring_wf r"
  by (simp add: ring_wf_def)

lemma ring_items_lock [simp]: "ring_items (r\<lparr>rb_lock := l\<rparr>) = ring_items r"
  by (simp add: ring_items_def)

lemma make_room_frame [simp]:
  "rb_buffer (ring_write_make_room r n) = rb_buffer r"
  "rb_capacity (ring_write_make_room r n) = rb_capacity r"
  "rb_item_size (ring_write_make_room r n) = rb_item_size r"
  "rb_closed (ring_write_make_room r n) = rb_closed r"
  "rb_lock (ring_write_make_room r n) = rb_lock r"
  "rb_signals (ring_write_make_room r n) = rb_signals r"
  "rb_broadcasts (ring_write_make_room r n) = rb_broadcasts r"
  by (simp_all add: ring_write_make_room_def)

lemma make_room:
  assumes wf: "ring_wf r" and n: "unat n \<le> ring_cap r"
  shows "ring_wf (ring_write_make_room r n)"
    and "ring_items (ring_write_make_room r n) =
      drop (ring_avail r + unat n - ring_cap r) (ring_items r)"
    and "ring_avail (ring_write_make_room r n) + unat n \<le> ring_cap r"
proof -
  have free: "unat (ring_buffer_items_free r) = ring_cap r - ring_avail r"
    using ring_wfD(7) [OF wf] by (simp add: ring_buffer_items_free_def unat_minus_ge)
  define d where "d = n - ring_buffer_items_free r"
  have d: "unat d = unat n - (ring_cap r - ring_avail r)" if "n > ring_buffer_items_free r"
    using that free by (simp add: d_def word_less_nat_alt unat_minus_ge)
  have dle: "unat d \<le> ring_avail r" if "n > ring_buffer_items_free r"
    using d [OF that] n by simp
  show "ring_wf (ring_write_make_room r n)"
    using wf dle drop_oldest_wf [OF wf] by (simp add: ring_write_make_room_def flip: d_def)
  show "ring_items (ring_write_make_room r n) =
      drop (ring_avail r + unat n - ring_cap r) (ring_items r)"
    using d dle drop_oldest_items [OF wf] free ring_wfD(7) [OF wf]
    by (auto simp: ring_write_make_room_def word_less_nat_alt add.commute simp flip: d_def)
  show "ring_avail (ring_write_make_room r n) + unat n \<le> ring_cap r"
    using d dle drop_oldest_avail [of d r] free ring_wfD(7) [OF wf] n
    by (auto simp: ring_write_make_room_def word_less_nat_alt simp flip: d_def)
qed

lemma lossy_append_clamped:
  assumes "length xs \<le> cap" "length ys = skip + n" "n \<le> cap" "skip = length ys - cap"
  shows "drop (length xs + n - cap) xs @ drop skip ys = lossy_append cap xs ys"
  using assms by (cases "length ys \<le> cap") (auto simp: lossy_append_def)

lemma clampE:
  fixes items :: u32
  obtains skip n where "ring_write_clamp r items = (skip, n)"
    "unat n = min (unat items) (ring_cap r)" "unat skip = unat items - ring_cap r"
  by (cases "items > rb_capacity r")
    (auto simp: ring_write_clamp_def word_less_nat_alt unat_minus_ge)

text \<open>
  Writing to an open ring: the number of items copied, the mutex released, one signal, the
  invariant kept and exactly the newest items that fit retained.
\<close>

lemma ring_buffer_write_ok:
  assumes wf: "ring_wf r" and opn: "\<not> rb_closed r" and lock: "\<not> rb_lock r" and it: "items \<noteq> 0"
    and data: "unat items * ring_isz r \<le> length data" "length data < 2 ^ 64"
  obtains n r' where "ring_buffer_write (Some r) (Some data) items = Ret (n, Some r')"
    "unat n = min (unat items) (ring_cap r)" "ring_wf r'" "\<not> rb_lock r'" "\<not> rb_closed r'"
    "rb_capacity r' = rb_capacity r" "rb_item_size r' = rb_item_size r"
    "rb_signals r' = Suc (rb_signals r)" "rb_broadcasts r' = rb_broadcasts r"
    "ring_items r' =
       lossy_append (ring_cap r) (ring_items r) (chunks (ring_isz r) data (unat items))"
proof -
  define r0 where "r0 = r\<lparr>rb_lock := True\<rparr>"
  have r0: "ring_wf r0" "rb_capacity r0 = rb_capacity r" "rb_item_size r0 = rb_item_size r"
    "rb_closed r0 = rb_closed r" "ring_items r0 = ring_items r" "ring_avail r0 = ring_avail r"
    "rb_signals r0 = rb_signals r" "rb_broadcasts r0 = rb_broadcasts r"
    using wf by (simp_all add: r0_def)
  obtain skip n where clamp: "ring_write_clamp r0 items = (skip, n)"
    and n: "unat n = min (unat items) (ring_cap r)" and skip: "unat skip = unat items - ring_cap r"
    using clampE [of r0 items] by (metis r0(2))
  have sum: "unat skip + unat n = unat items"
    using n skip by auto
  define r1 where "r1 = ring_write_make_room r0 n"
  have nle: "unat n \<le> ring_cap r0"
    by (simp add: n r0)
  note room = make_room [OF r0(1) nle, folded r1_def]
  have r1: "rb_capacity r1 = rb_capacity r" "rb_item_size r1 = rb_item_size r"
    by (simp_all add: r1_def r0)
  have d: "(unat skip + unat n) * ring_isz r1 \<le> length data"
    using data(1) by (simp add: sum r1)
  have room3: "ring_avail r1 + unat n \<le> ring_cap r1"
    using room(3) by (simp add: r1 r0)
  define r2 where "r2 = ring_written r1 data (unat skip) n"
  have copy: "ring_write_copy r1 data skip n = Ret r2"
    unfolding r2_def by (rule ring_write_copy_ok [OF room(1) room3 d data(2)])
  have "ring_buffer_write (Some r) (Some data) items = Ret (n, Some (r2\<lparr>rb_lock := False\<rparr>))"
    using opn lock it clamp copy
    by (simp add: ring_buffer_write_def mutex_lock_def mutex_unlock_def r1_def r0_def)
  moreover have "ring_wf r2"
    unfolding r2_def by (rule ring_written_wf [OF room(1) room3 d])
  moreover have "ring_items r2 =
      lossy_append (ring_cap r) (ring_items r) (chunks (ring_isz r) data (unat items))"
    unfolding r2_def ring_written_items [OF room(1) room3 d] room(2) sum r1 r0
    by (subst lossy_append_clamped [symmetric, of _ _ _ "unat skip" "unat n"])
      (use ring_wfD(7) [OF wf] n skip in simp_all)
  moreover have "\<not> rb_closed r2"
    using opn by (simp add: r2_def r1_def r0)
  ultimately show ?thesis
    using n that [of n "r2\<lparr>rb_lock := False\<rparr>"]
    by (simp add: r2_def r1_def r0)
qed

section \<open>Reading\<close>

definition ring_drain :: "nat \<Rightarrow> nat \<Rightarrow> nat \<Rightarrow> nat \<Rightarrow> 'a list \<Rightarrow> 'a list \<Rightarrow> 'a list" where
  "ring_drain k cap rp n buf dst =
     (let f = min (cap - rp) n;
          d = take (0 * k) dst @ take (f * k) (drop (rp * k) buf) @ drop ((0 + f) * k) dst
      in if n - f > 0
         then take (f * k) d @ take ((n - f) * k) (drop (0 * k) buf) @ drop ((f + (n - f)) * k) d
         else d)"

lemma ring_drain_parts:
  fixes k cap rp n :: nat and buf dst :: "'a list"
  defines "f \<equiv> min (cap - rp) n"
  defines "d \<equiv> take (0 * k) dst @ take (f * k) (drop (rp * k) buf) @ drop ((0 + f) * k) dst"
  assumes buf: "length buf = cap * k" and rp: "rp < cap" and n: "n \<le> cap"
    and dst: "n * k \<le> length dst"
  shows "(0 + f) * k \<le> length dst" "(rp + f) * k \<le> length buf" "length d = length dst"
    "(f + (n - f)) * k \<le> length d" "(0 + (n - f)) * k \<le> length buf"
    "ring_drain k cap rp n buf dst =
      (if n - f > 0 then take (f * k) d @ take ((n - f) * k) (drop (0 * k) buf) @
         drop ((f + (n - f)) * k) d else d)"
proof -
  have f: "f \<le> n" "rp + f \<le> cap" "n - f \<le> cap"
    using n rp by (auto simp: f_def)
  show 2: "(rp + f) * k \<le> length buf" "(0 + (n - f)) * k \<le> length buf"
    unfolding buf using f by (intro mult_le_mono1; simp)+
  have "f * k \<le> n * k"
    using f(1) by (rule mult_le_mono1)
  then show 1: "(0 + f) * k \<le> length dst"
    unfolding add_0 using dst by (rule le_trans)
  show 3: "length d = length dst"
    using 1 2(1) by (simp add: d_def add_mult_distrib)
  show "(f + (n - f)) * k \<le> length d"
    using dst f(1) by (simp add: 3)
qed (simp add: ring_drain_def f_def d_def Let_def)

lemma length_ring_drain:
  assumes "length buf = cap * k" "rp < cap" "n \<le> cap" "n * k \<le> length dst"
  shows "length (ring_drain k cap rp n buf dst) = length dst"
proof -
  define f where "f = min (cap - rp) n"
  define d where
    "d = take (0 * k) dst @ take (f * k) (drop (rp * k) buf) @ drop ((0 + f) * k) dst"
  note parts = ring_drain_parts [OF assms, folded f_def, folded d_def]
  have "f * k + (n - f) * k \<le> length d" and e: "f * k + (n - f) * k = (f + (n - f)) * k"
    using parts(4) by (simp_all only: add_mult_distrib)
  then show ?thesis
    unfolding parts(6) e [symmetric] using parts(3,5) by auto
qed

lemma ring_drain_items:
  assumes buf: "length buf = cap * k" and rp: "rp < cap" and n: "n \<le> cap"
    and dst: "n * k \<le> length dst" and i: "i < n"
  shows "chunk k (ring_drain k cap rp n buf dst) i = chunk k buf ((rp + i) mod cap)"
proof -
  define f where "f = min (cap - rp) n"
  note parts = ring_drain_parts [OF buf rp n dst, folded f_def]
  have f: "f \<le> cap - rp" "n - f > 0 \<Longrightarrow> f = cap - rp"
    by (auto simp: f_def)
  show ?thesis
  proof (cases "i < f")
    case True
    then have m: "(rp + i) mod cap = rp + i"
      using f(1) rp by simp
    show ?thesis
      unfolding parts(6) m
      using True chunk_copied [OF parts(1,2), of i] chunk_kept_before [OF parts(4) True] by simp
  next
    case False
    then have "f = cap - rp" and n0: "n - f > 0"
      using f(2) i by auto
    then have m: "(rp + i) mod cap = i - f"
      using False rp n i mod_add_wrap [of rp cap i] by auto
    show ?thesis
      unfolding parts(6) m using n0 False i chunk_copied [OF parts(4,5), of i] by simp
  qed
qed

lemma ring_read_copy_ok:
  assumes wf: "ring_wf r" and n: "unat n \<le> ring_avail r"
    and dst: "unat n * ring_isz r \<le> length dst"
  shows "ring_read_copy r dst n =
    Ret (r\<lparr>rb_read_pos := (rb_read_pos r + n) mod rb_capacity r,
           rb_items_available := rb_items_available r - n\<rparr>,
         ring_drain (ring_isz r) (ring_cap r) (ring_rpos r) (unat n) (rb_buffer r) dst)"
proof -
  let ?k = "ring_isz r" and ?c = "ring_cap r" and ?p = "ring_rpos r"
  define f where
    "f = (if rb_capacity r - rb_read_pos r > n then n else rb_capacity r - rb_read_pos r)"
  have rp: "?p < ?c" and nc: "unat n \<le> ?c"
    using ring_wfD(6,7) [OF wf] n by auto
  have "unat (rb_capacity r - rb_read_pos r) = ?c - ?p"
    using rp by (simp add: unat_minus_ge)
  then have f: "unat f = min (?c - ?p) (unat n)"
    by (auto simp: f_def word_less_nat_alt)
  then have nf: "unat (n - f) = unat n - unat f" and fle: "unat f \<le> ?c" "unat (n - f) \<le> ?c"
    using nc by (simp_all add: unat_minus_ge)
  have gt: "n - f > 0 \<longleftrightarrow> unat n - unat f > 0"
    using nf by (simp add: word_less_nat_alt)
  note parts = ring_drain_parts [OF ring_wfD(5) [OF wf] rp nc dst, folded f]
  show ?thesis
    unfolding ring_read_copy_def Let_def f_def [symmetric] ring_buffer_copy_items_def gt
      ring_offset [OF wf fle(1)] ring_offset [OF wf fle(2)] ring_offset [OF wf less_imp_le [OF rp]] nf
    using parts(1-5) unfolding parts(6) add_mult_distrib
    by (simp add: add.assoc)
qed

lemma ring_read_state:
  assumes wf: "ring_wf r" and n: "unat n \<le> ring_avail r"
  defines "r' \<equiv> r\<lparr>rb_read_pos := (rb_read_pos r + n) mod rb_capacity r,
                  rb_items_available := rb_items_available r - n\<rparr>"
  shows "ring_wf r'" "ring_items r' = drop (unat n) (ring_items r)"
proof -
  have "r' = ring_buffer_drop_oldest_locked r n \<or> n = 0"
    using n by (simp add: r'_def ring_buffer_drop_oldest_locked_def Let_def word_less_nat_alt)
  moreover have "ring_wf r' \<and> ring_items r' = ring_items r" if "n = 0"
    using that ring_wfD [OF wf] by (simp add: r'_def ring_wf_def ring_items_def unat_mod_distrib)
  ultimately show "ring_wf r'" "ring_items r' = drop (unat n) (ring_items r)"
    using drop_oldest_wf [OF wf n] drop_oldest_items [OF wf n] by auto
qed

text \<open>
  Reading when something is there: as many of the oldest unread items as asked for, in order, at
  the start of the caller's buffer; the mutex is released.
\<close>

lemma ring_buffer_wait_read_ok:
  assumes wf: "ring_wf r" and lock: "\<not> rb_lock r" and av: "rb_items_available r \<noteq> 0"
    and it: "items \<noteq> 0" and dst: "unat items * ring_isz r \<le> length dst"
  obtains n r' dst' where
    "ring_buffer_wait_read (Some r) (Some dst) items = Ret (n, Some r', Some dst')"
    "unat n = min (unat items) (ring_avail r)" "ring_wf r'" "\<not> rb_lock r'"
    "rb_closed r' = rb_closed r" "rb_capacity r' = rb_capacity r"
    "rb_item_size r' = rb_item_size r" "length dst' = length dst"
    "rb_signals r' = rb_signals r" "rb_broadcasts r' = rb_broadcasts r"
    "chunks (ring_isz r) dst' (unat n) = take (unat items) (ring_items r)"
    "ring_items r' = drop (unat items) (ring_items r)"
proof -
  define r0 where "r0 = r\<lparr>rb_lock := True\<rparr>"
  have r0: "ring_wf r0" "rb_capacity r0 = rb_capacity r" "rb_item_size r0 = rb_item_size r"
    "rb_items_available r0 = rb_items_available r" "ring_items r0 = ring_items r"
    "rb_read_pos r0 = rb_read_pos r" "rb_buffer r0 = rb_buffer r"
    using wf by (simp_all add: r0_def)
  define n where "n = (if items > rb_items_available r then rb_items_available r else items)"
  have n: "unat n = min (unat items) (ring_avail r)" "unat n \<le> ring_avail r0"
    by (auto simp: n_def word_less_nat_alt r0)
  have "n \<noteq> 0"
    using av it by (simp add: n_def)
  have "unat n * ring_isz r \<le> unat items * ring_isz r"
    by (rule mult_le_mono1) (simp add: n)
  then have d: "unat n * ring_isz r0 \<le> length dst"
    unfolding r0 using dst by (rule le_trans)
  have nc: "unat n \<le> ring_cap r"
    using n(2) ring_wfD(7) [OF wf] by (simp add: r0)
  define dst' where
    "dst' = ring_drain (ring_isz r) (ring_cap r) (ring_rpos r) (unat n) (rb_buffer r) dst"
  define r1 where "r1 = r0\<lparr>rb_read_pos := (rb_read_pos r0 + n) mod rb_capacity r0,
    rb_items_available := rb_items_available r0 - n\<rparr>"
  have copy: "ring_read_copy r0 dst n = Ret (r1, dst')"
    using ring_read_copy_ok [OF r0(1) n(2) d] by (simp add: r1_def dst'_def r0)
  note st = ring_read_state [OF r0(1) n(2), folded r1_def]
  have call: "ring_buffer_wait_read (Some r) (Some dst) items =
      Ret (n, Some (r1\<lparr>rb_lock := False\<rparr>), Some dst')"
    using lock av it \<open>n \<noteq> 0\<close> copy
    by (cases "items > rb_items_available r") (simp_all add: ring_buffer_wait_read_def
        mutex_lock_def ring_buffer_read_locked_def mutex_unlock_def n_def flip: r0_def,
        simp_all add: r0(4))
  have items: "chunks (ring_isz r) dst' (unat n) = take (unat items) (ring_items r)"
  proof (rule nth_equalityI)
    fix i
    assume "i < length (chunks (ring_isz r) dst' (unat n))"
    then have i: "i < unat n" "i < ring_avail r" "i < unat items"
      using n by auto
    then show "chunks (ring_isz r) dst' (unat n) ! i = take (unat items) (ring_items r) ! i"
      using ring_drain_items [OF ring_wfD(5) [OF wf] ring_wfD(6) [OF wf] nc d [unfolded r0] i(1)]
      by (simp add: dst'_def nth_ring_items)
  qed (simp add: n min.commute)
  have "ring_items r1 = drop (unat items) (ring_items r)"
    using st(2) n by (simp add: r0 min_def)
  moreover have "length dst' = length dst"
    unfolding dst'_def
    using length_ring_drain [OF ring_wfD(5) [OF wf] ring_wfD(6) [OF wf] nc d [unfolded r0]] .
  moreover have "rb_closed r1 = rb_closed r" "rb_capacity r1 = rb_capacity r"
    "rb_item_size r1 = rb_item_size r" "rb_signals r1 = rb_signals r"
    "rb_broadcasts r1 = rb_broadcasts r"
    by (simp_all add: r1_def r0_def)
  ultimately show ?thesis
    using that [OF call n(1)] st(1) items by simp
qed

text \<open>A closed ring that has been emptied gives 0 and never sleeps.\<close>

lemma ring_buffer_wait_read_drained:
  assumes "rb_closed r" "rb_items_available r = 0" "\<not> rb_lock r"
  shows "ring_buffer_wait_read (Some r) (Some dst) items = Ret (0, Some r, Some dst)"
  using assms by (cases "items = 0") (simp_all add: ring_buffer_wait_read_def mutex_lock_def
      mutex_unlock_def ring_buffer_read_locked_def word_gt_0)

lemma ring_buffer_wait_read_empty:
  assumes "\<not> rb_closed r" "rb_items_available r = 0" "\<not> rb_lock r" "items \<noteq> 0"
  shows "ring_buffer_wait_read (Some r) (Some dst) items = Block"
  using assms by (simp add: ring_buffer_wait_read_def mutex_lock_def)

lemma ring_buffer_write_closed:
  assumes "rb_closed r" "\<not> rb_lock r"
  shows "ring_buffer_write (Some r) (Some data) items = Ret (0, Some r)"
  using assms by (simp add: ring_buffer_write_def mutex_lock_def mutex_unlock_def)

lemma ring_buffer_close_ok:
  assumes "\<not> rb_lock r"
  shows "ring_buffer_close (Some r) =
    Ret (Some (r\<lparr>rb_closed := True, rb_broadcasts := Suc (rb_broadcasts r)\<rparr>))"
  using assms by (simp add: ring_buffer_close_def mutex_lock_def mutex_unlock_def)

section \<open>Creation\<close>

lemma ring_buffer_init_wf:
  assumes "ring_buffer_init c m mu co junk capacity item_size = Some r"
    and "unat capacity \<le> 2 ^ 31" "unat capacity * unat item_size < 2 ^ 64"
  shows "ring_wf r" "ring_items r = []" "\<not> rb_lock r" "\<not> rb_closed r"
    "rb_capacity r = capacity" "rb_item_size r = item_size"
proof -
  have "unat (ucast capacity * item_size) = unat capacity * unat item_size"
    using assms(3) by (subst unat_mult_small) simp_all
  with assms show "ring_wf r" "ring_items r = []" "\<not> rb_lock r" "\<not> rb_closed r"
      "rb_capacity r = capacity" "rb_item_size r = item_size"
    by (auto simp: ring_buffer_init_def ring_wf_def ring_items_def unat_gt_0 split: if_splits)
qed

section \<open>The contract: a lossy bounded queue\<close>

text \<open>
  What the capture thread (which writes) and the audio encoder (which reads) rely on. \<open>fits q xs\<close>
  says that \<open>xs\<close> is an acceptable input for \<open>q\<close>, \<open>lim\<close> bounds the number of items of one read.
\<close>

datatype 'a qop = Put "'a list" | Get nat

primrec queue_run ::
    "('a list \<Rightarrow> 'q \<Rightarrow> 'q) \<Rightarrow> (nat \<Rightarrow> 'q \<Rightarrow> 'a list \<times> 'q) \<Rightarrow> 'a qop list \<Rightarrow> 'q \<Rightarrow> 'a list \<times> 'q"
where
  "queue_run put get [] q = ([], q)"
| "queue_run put get (x # xs) q =
     (case x of
        Put ys \<Rightarrow> queue_run put get xs (put ys q)
      | Get n \<Rightarrow> (case get n q of (out, q') \<Rightarrow> map_prod (append out) id (queue_run put get xs q')))"

primrec queue_written :: "'a qop list \<Rightarrow> 'a list" where
  "queue_written [] = []"
| "queue_written (x # xs) =
     (case x of Put ys \<Rightarrow> ys @ queue_written xs | Get n \<Rightarrow> queue_written xs)"

primrec queue_admissible :: "('a list \<Rightarrow> bool) \<Rightarrow> nat \<Rightarrow> 'a qop list \<Rightarrow> bool" where
  "queue_admissible fits lim [] = True"
| "queue_admissible fits lim (x # xs) =
     ((case x of Put ys \<Rightarrow> fits ys | Get n \<Rightarrow> n \<le> lim) \<and> queue_admissible fits lim xs)"

locale lossy_queue =
  fixes invar :: "'q \<Rightarrow> bool" and cap :: "'q \<Rightarrow> nat" and items :: "'q \<Rightarrow> 'a list"
    and fits :: "'q \<Rightarrow> 'a list \<Rightarrow> bool" and lim :: nat
    and put :: "'a list \<Rightarrow> 'q \<Rightarrow> 'q" and get :: "nat \<Rightarrow> 'q \<Rightarrow> 'a list \<times> 'q"
  assumes bounded: "invar q \<Longrightarrow> length (items q) \<le> cap q"
    and put_invar: "invar q \<Longrightarrow> fits q xs \<Longrightarrow> invar (put xs q)"
    and put_items: "invar q \<Longrightarrow> fits q xs \<Longrightarrow> items (put xs q) = lossy_append (cap q) (items q) xs"
    and put_frame: "invar q \<Longrightarrow> fits q xs \<Longrightarrow> cap (put xs q) = cap q \<and> fits (put xs q) = fits q"
    and get_invar: "invar q \<Longrightarrow> n \<le> lim \<Longrightarrow> invar (snd (get n q))"
    and get_items: "invar q \<Longrightarrow> n \<le> lim \<Longrightarrow> items (snd (get n q)) = drop n (items q)"
    and get_out: "invar q \<Longrightarrow> n \<le> lim \<Longrightarrow> fst (get n q) = take n (items q)"
    and get_frame: "invar q \<Longrightarrow> n \<le> lim \<Longrightarrow>
      cap (snd (get n q)) = cap q \<and> fits (snd (get n q)) = fits q"
begin

lemma newest_kept:
  assumes "invar q" "fits q xs"
  shows "suffix (drop (length xs - cap q) xs) (items (put xs q))"
proof -
  have "lossy_append (cap q) (items q) xs =
      drop (length (items q) + length xs - cap q) (items q) @
      drop (length xs - cap q) xs \<or> length xs \<ge> cap q"
    by (auto simp: lossy_append_def)
  moreover have "lossy_append (cap q) (items q) xs = drop (length xs - cap q) xs"
    if "length xs \<ge> cap q"
    using that by (simp add: lossy_append_def)
  ultimately show ?thesis
    using put_items [OF assms] by (metis suffixI suffix_order.refl)
qed

lemma run_order:
  "invar q \<Longrightarrow> queue_admissible (fits q) lim ops \<Longrightarrow> queue_run put get ops q = (out, q') \<Longrightarrow>
   invar q' \<and> subseq (out @ items q') (items q @ queue_written ops)"
proof (induction ops arbitrary: q out)
  case (Cons x ops)
  show ?case
  proof (cases x)
    case (Put ys)
    then have fits: "fits q ys"
      using Cons.prems(2) by simp
    have "queue_admissible (fits (put ys q)) lim ops"
      using Cons.prems(2) put_frame [OF Cons.prems(1) fits] by simp
    then have IH: "invar q' \<and> subseq (out @ items q') (items (put ys q) @ queue_written ops)"
      using Cons.IH [OF put_invar [OF Cons.prems(1) fits]] Cons.prems(3) Put by simp
    have "subseq (items (put ys q)) (items q @ ys)"
      unfolding put_items [OF Cons.prems(1) fits] lossy_append_def
      by (rule suffix_imp_subseq) (rule suffix_drop)
    then have "subseq (items (put ys q) @ queue_written ops) ((items q @ ys) @ queue_written ops)"
      by (rule list_emb_append_mono) simp
    then show ?thesis
      using IH Put by (metis append.assoc qop.simps(5) subseq_order.order_trans queue_written.simps(2))
  next
    case (Get n)
    then have n: "n \<le> lim"
      using Cons.prems(2) by simp
    obtain q1 where g: "get n q = (take n (items q), q1)"
      using get_out [OF Cons.prems(1) n] by (metis prod.collapse)
    then have q1: "invar q1" "items q1 = drop n (items q)" "fits q1 = fits q"
      using get_invar [OF Cons.prems(1) n] get_items [OF Cons.prems(1) n]
        get_frame [OF Cons.prems(1) n] by simp_all
    obtain out1 where r: "queue_run put get ops q1 = (out1, q')" "out = take n (items q) @ out1"
      using Cons.prems(3) Get g by (cases "queue_run put get ops q1") auto
    have "queue_admissible (fits q1) lim ops"
      using Cons.prems(2) q1(3) by simp
    from Cons.IH [OF q1(1) this r(1)]
    have "invar q'" and sub: "subseq (out1 @ items q') (drop n (items q) @ queue_written ops)"
      using q1(2) by simp_all
    moreover have "subseq (take n (items q) @ (out1 @ items q'))
        (take n (items q) @ (drop n (items q) @ queue_written ops))"
      by (rule list_emb_append_mono [OF _ sub]) simp
    ultimately show ?thesis
      using r(2) Get by (simp flip: append_assoc)
  qed
qed simp

text \<open>While the capacity suffices nothing is lost.\<close>

lemma run_exact:
  "invar q \<Longrightarrow> queue_admissible (fits q) lim ops \<Longrightarrow> length (items q) + length (queue_written ops) \<le> cap q \<Longrightarrow>
   queue_run put get ops q = (out, q') \<Longrightarrow> out @ items q' = items q @ queue_written ops"
proof (induction ops arbitrary: q out)
  case (Cons x ops)
  show ?case
  proof (cases x)
    case (Put ys)
    then have fits: "fits q ys"
      using Cons.prems(2) by simp
    have it: "items (put ys q) = items q @ ys"
      using put_items [OF Cons.prems(1) fits] Cons.prems(3) Put by (simp add: lossy_append_def)
    have "queue_admissible (fits (put ys q)) lim ops"
      using Cons.prems(2) put_frame [OF Cons.prems(1) fits] by simp
    then show ?thesis
      using Cons.IH [OF put_invar [OF Cons.prems(1) fits], of out] Cons.prems(3,4) Put it
        put_frame [OF Cons.prems(1) fits] by simp
  next
    case (Get n)
    then have n: "n \<le> lim"
      using Cons.prems(2) by simp
    obtain q1 where g: "get n q = (take n (items q), q1)"
      using get_out [OF Cons.prems(1) n] by (metis prod.collapse)
    then have q1: "invar q1" "items q1 = drop n (items q)" "fits q1 = fits q" "cap q1 = cap q"
      using get_invar [OF Cons.prems(1) n] get_items [OF Cons.prems(1) n]
        get_frame [OF Cons.prems(1) n] by simp_all
    obtain out1 where r: "queue_run put get ops q1 = (out1, q')" "out = take n (items q) @ out1"
      using Cons.prems(4) Get g by (cases "queue_run put get ops q1") auto
    have "queue_admissible (fits q1) lim ops"
      using Cons.prems(2) q1(3) by simp
    from Cons.IH [OF q1(1) this _ r(1)] show ?thesis
      using Cons.prems(3) Get q1 r(2) by simp
  qed
qed simp

end

section \<open>The ring buffer implements the contract\<close>

text \<open>The calls of the two threads, seen as functions on whole items.\<close>

definition ring_put :: "byte list list \<Rightarrow> ring_buffer \<Rightarrow> ring_buffer" where
  "ring_put xs r =
     (case ring_buffer_write (Some r) (Some (concat xs)) (of_nat (length xs)) of
        Ret (_, Some r') \<Rightarrow> r' | _ \<Rightarrow> r)"

definition ring_get :: "nat \<Rightarrow> ring_buffer \<Rightarrow> byte list list \<times> ring_buffer" where
  "ring_get n r =
     (case ring_buffer_wait_read (Some r) (Some (replicate (n * ring_isz r) 0)) (of_nat n) of
        Ret (m, Some r', Some dst) \<Rightarrow> (chunks (ring_isz r) dst (unat m), r')
      | _ \<Rightarrow> ([], r))"

definition ring_open :: "ring_buffer \<Rightarrow> bool" where
  "ring_open r \<longleftrightarrow> ring_wf r \<and> \<not> rb_lock r \<and> \<not> rb_closed r"

lemma ring_open_wf: "ring_open r \<Longrightarrow> ring_wf r"
  by (simp add: ring_open_def)

definition ring_fits :: "ring_buffer \<Rightarrow> byte list list \<Rightarrow> bool" where
  "ring_fits r xs \<longleftrightarrow> (\<forall>x \<in> set xs. length x = ring_isz r) \<and> length xs < 2 ^ 32 \<and>
     length xs * ring_isz r < 2 ^ 64"

lemma ring_put_ok:
  assumes "ring_open r" "ring_fits r xs"
  shows "ring_open (ring_put xs r)"
    "ring_items (ring_put xs r) = lossy_append (ring_cap r) (ring_items r) xs"
    "rb_capacity (ring_put xs r) = rb_capacity r" "rb_item_size (ring_put xs r) = rb_item_size r"
proof -
  have len: "length (concat xs) = length xs * ring_isz r"
    using assms(2) by (intro length_concat_const) (simp add: ring_fits_def)
  have un: "unat (of_nat (length xs) :: u32) = length xs"
    using assms(2) by (simp add: ring_fits_def unat_of_nat_small)
  have ch: "chunks (ring_isz r) (concat xs) (length xs) = xs"
    using assms(2) by (intro chunks_concat) (simp add: ring_fits_def)
  have "ring_open (ring_put xs r) \<and>
    ring_items (ring_put xs r) = lossy_append (ring_cap r) (ring_items r) xs \<and>
    rb_capacity (ring_put xs r) = rb_capacity r \<and> rb_item_size (ring_put xs r) = rb_item_size r"
  proof (cases "xs = []")
    case True
    then show ?thesis
      using assms(1) ring_wfD(7) [of r]
      by (simp add: ring_put_def ring_buffer_write_def ring_open_def lossy_append_def)
  next
    case False
    then have nz: "(of_nat (length xs) :: u32) \<noteq> 0"
      using un by (metis length_0_conv unat_0)
    have "ring_wf r" "\<not> rb_closed r" "\<not> rb_lock r"
      "unat (of_nat (length xs) :: u32) * ring_isz r \<le> length (concat xs)"
      "length (concat xs) < 2 ^ 64"
      using assms by (simp_all add: ring_open_def ring_fits_def un len)
    then obtain n r' where
      "ring_buffer_write (Some r) (Some (concat xs)) (of_nat (length xs)) = Ret (n, Some r')"
      "ring_wf r'" "\<not> rb_lock r'" "\<not> rb_closed r'" "rb_capacity r' = rb_capacity r"
      "rb_item_size r' = rb_item_size r"
      "ring_items r' = lossy_append (ring_cap r) (ring_items r)
         (chunks (ring_isz r) (concat xs) (unat (of_nat (length xs) :: u32)))"
      by (metis ring_buffer_write_ok nz)
    then show ?thesis
      by (simp add: ring_put_def ring_open_def un ch)
  qed
  then show "ring_open (ring_put xs r)"
    "ring_items (ring_put xs r) = lossy_append (ring_cap r) (ring_items r) xs"
    "rb_capacity (ring_put xs r) = rb_capacity r" "rb_item_size (ring_put xs r) = rb_item_size r"
    by simp_all
qed

lemma ring_get_ok:
  assumes "ring_open r" "n < 2 ^ 32"
  shows "ring_open (snd (ring_get n r))" "ring_items (snd (ring_get n r)) = drop n (ring_items r)"
    "fst (ring_get n r) = take n (ring_items r)"
    "rb_capacity (snd (ring_get n r)) = rb_capacity r"
    "rb_item_size (snd (ring_get n r)) = rb_item_size r"
proof -
  have un: "unat (of_nat n :: u32) = n"
    using assms(2) by (simp add: unat_of_nat_small)
  consider "n = 0" | "n \<noteq> 0" "rb_items_available r = 0" | "n \<noteq> 0" "rb_items_available r \<noteq> 0"
    by blast
  then have "ring_open (snd (ring_get n r)) \<and>
    ring_items (snd (ring_get n r)) = drop n (ring_items r) \<and>
    fst (ring_get n r) = take n (ring_items r) \<and>
    rb_capacity (snd (ring_get n r)) = rb_capacity r \<and>
    rb_item_size (snd (ring_get n r)) = rb_item_size r"
  proof cases
    case 1
    then show ?thesis
      using assms(1) by (simp add: ring_get_def ring_buffer_wait_read_def chunks_def)
  next
    case 2
    then have "(of_nat n :: u32) \<noteq> 0"
      using un by (metis unat_0)
    then show ?thesis
      using 2 assms(1) ring_buffer_wait_read_empty [of r "of_nat n"]
      by (simp add: ring_get_def ring_open_def ring_items_def)
  next
    case 3
    then have nz: "(of_nat n :: u32) \<noteq> 0"
      using un by (metis unat_0)
    have "ring_wf r" "\<not> rb_lock r"
      "unat (of_nat n :: u32) * ring_isz r \<le> length (replicate (n * ring_isz r) (0 :: byte))"
      using assms by (simp_all add: ring_open_def un)
    then obtain m r' dst' where
      "ring_buffer_wait_read (Some r) (Some (replicate (n * ring_isz r) 0)) (of_nat n)
         = Ret (m, Some r', Some dst')"
      "ring_wf r'" "\<not> rb_lock r'" "rb_closed r' = rb_closed r" "rb_capacity r' = rb_capacity r"
      "rb_item_size r' = rb_item_size r"
      "chunks (ring_isz r) dst' (unat m) = take (unat (of_nat n :: u32)) (ring_items r)"
      "ring_items r' = drop (unat (of_nat n :: u32)) (ring_items r)"
      by (metis ring_buffer_wait_read_ok nz 3(2))
    then show ?thesis
      using assms(1) by (simp add: ring_get_def ring_open_def un)
  qed
  then show "ring_open (snd (ring_get n r))"
    "ring_items (snd (ring_get n r)) = drop n (ring_items r)"
    "fst (ring_get n r) = take n (ring_items r)"
    "rb_capacity (snd (ring_get n r)) = rb_capacity r"
    "rb_item_size (snd (ring_get n r)) = rb_item_size r"
    by simp_all
qed

interpretation ring: lossy_queue ring_open "\<lambda>r. ring_cap r" ring_items ring_fits "2 ^ 32 - 1"
  ring_put ring_get
proof unfold_locales
  fix r xs
  assume "ring_open r" "ring_fits r xs"
  then show "ring_cap (ring_put xs r) = ring_cap r \<and> ring_fits (ring_put xs r) = ring_fits r"
    by (simp add: ring_put_ok ring_fits_def fun_eq_iff)
next
  fix r :: ring_buffer and n :: nat
  assume "ring_open r" "n \<le> 2 ^ 32 - 1"
  then show "ring_cap (snd (ring_get n r)) = ring_cap r \<and>
      ring_fits (snd (ring_get n r)) = ring_fits r"
    by (simp add: ring_get_ok ring_fits_def fun_eq_iff)
qed (auto simp: ring_put_ok ring_get_ok intro: ring_wfD(7) ring_open_wf)

section \<open>Sleeping and waking\<close>

text \<open>
  One reader and any number of writers and closers, each call under the mutex and therefore one
  step. A call of \<open>ring_buffer_wait_read\<close> that blocks puts the reader to sleep; a signal or a
  broadcast wakes it, and POSIX allows spurious wake-ups; a woken reader goes through the
  \<^verbatim>\<open>while\<close> test again.
\<close>

datatype reader = Reader_Running | Reader_Asleep | Reader_Woken

record ring_sys =
  rs_ring :: ring_buffer
  rs_reader :: reader

definition wake :: "ring_buffer \<Rightarrow> ring_buffer \<Rightarrow> reader \<Rightarrow> reader" where
  "wake r r' c =
     (if c = Reader_Asleep \<and> (rb_signals r' \<noteq> rb_signals r \<or> rb_broadcasts r' \<noteq> rb_broadcasts r)
      then Reader_Woken else c)"

inductive ring_sys_step :: "ring_sys \<Rightarrow> ring_sys \<Rightarrow> bool" where
  writer: "ring_buffer_write (Some (rs_ring s)) (Some data) items = Ret (n, Some r') \<Longrightarrow>
     unat items * ring_isz (rs_ring s) \<le> length data \<Longrightarrow> length data < 2 ^ 64 \<Longrightarrow>
     ring_sys_step s (s\<lparr>rs_ring := r', rs_reader := wake (rs_ring s) r' (rs_reader s)\<rparr>)"
| closer: "ring_buffer_close (Some (rs_ring s)) = Ret (Some r') \<Longrightarrow>
     ring_sys_step s (s\<lparr>rs_ring := r', rs_reader := wake (rs_ring s) r' (rs_reader s)\<rparr>)"
| read_sleeps: "rs_reader s \<noteq> Reader_Asleep \<Longrightarrow>
     ring_buffer_wait_read (Some (rs_ring s)) (Some dst) items = Block \<Longrightarrow>
     ring_sys_step s (s\<lparr>rs_reader := Reader_Asleep\<rparr>)"
| read_returns: "rs_reader s \<noteq> Reader_Asleep \<Longrightarrow>
     ring_buffer_wait_read (Some (rs_ring s)) (Some dst) items = Ret (n, Some r', Some dst') \<Longrightarrow>
     unat items * ring_isz (rs_ring s) \<le> length dst \<Longrightarrow>
     ring_sys_step s (s\<lparr>rs_ring := r', rs_reader := Reader_Running\<rparr>)"
| spurious: "rs_reader s = Reader_Asleep \<Longrightarrow> ring_sys_step s (s\<lparr>rs_reader := Reader_Woken\<rparr>)"

inductive ring_sys_reachable :: "ring_buffer \<Rightarrow> ring_sys \<Rightarrow> bool" for r0 where
  start: "ring_sys_reachable r0 \<lparr>rs_ring = r0, rs_reader = Reader_Running\<rparr>"
| step: "ring_sys_reachable r0 s \<Longrightarrow> ring_sys_step s t \<Longrightarrow> ring_sys_reachable r0 t"

definition ring_sys_inv :: "ring_sys \<Rightarrow> bool" where
  "ring_sys_inv s \<longleftrightarrow> ring_wf (rs_ring s) \<and> \<not> rb_lock (rs_ring s) \<and>
     (rs_reader s = Reader_Asleep \<longrightarrow>
        rb_items_available (rs_ring s) = 0 \<and> \<not> rb_closed (rs_ring s))"

lemma wake_not_asleep:
  "rb_signals r' \<noteq> rb_signals r \<or> rb_broadcasts r' \<noteq> rb_broadcasts r \<Longrightarrow> wake r r' c \<noteq> Reader_Asleep"
  by (auto simp: wake_def)

lemma ring_sys_writer_inv:
  assumes inv: "ring_sys_inv s"
    and w: "ring_buffer_write (Some (rs_ring s)) (Some data) items = Ret (n, Some r')"
    and d: "unat items * ring_isz (rs_ring s) \<le> length data" "length data < 2 ^ 64"
  shows "ring_sys_inv (s\<lparr>rs_ring := r', rs_reader := wake (rs_ring s) r' (rs_reader s)\<rparr>)"
proof -
  let ?r = "rs_ring s"
  have wf: "ring_wf ?r" "\<not> rb_lock ?r"
    using inv by (simp_all add: ring_sys_inv_def)
  show ?thesis
  proof (cases "items = 0 \<or> rb_closed ?r")
    case True
    then have "r' = ?r"
      using w ring_buffer_write_closed [of ?r data items] wf by (auto simp: ring_buffer_write_def)
    then show ?thesis
      using inv by (simp add: wake_def ring_sys_inv_def)
  next
    case False
    then obtain n1 r1 where
      "ring_buffer_write (Some ?r) (Some data) items = Ret (n1, Some r1)" "ring_wf r1" "\<not> rb_lock r1"
      "rb_signals r1 = Suc (rb_signals ?r)"
      using ring_buffer_write_ok [OF wf(1) _ wf(2) _ d] by metis
    then show ?thesis
      using w wake_not_asleep [of r1 ?r] by (simp add: ring_sys_inv_def)
  qed
qed

lemma ring_sys_read_inv:
  assumes inv: "ring_sys_inv s"
    and rd: "ring_buffer_wait_read (Some (rs_ring s)) (Some dst) items = Ret (n, Some r', Some dst')"
    and d: "unat items * ring_isz (rs_ring s) \<le> length dst"
  shows "ring_sys_inv (s\<lparr>rs_ring := r', rs_reader := Reader_Running\<rparr>)"
proof -
  let ?r = "rs_ring s"
  have wf: "ring_wf ?r" "\<not> rb_lock ?r"
    using inv by (simp_all add: ring_sys_inv_def)
  consider "items = 0" | "items \<noteq> 0" "rb_items_available ?r = 0" "rb_closed ?r"
    | "items \<noteq> 0" "rb_items_available ?r \<noteq> 0"
    using rd ring_buffer_wait_read_empty [of ?r items dst] wf by fastforce
  then show ?thesis
  proof cases
    case 1
    then show ?thesis
      using rd wf by (simp add: ring_buffer_wait_read_def ring_sys_inv_def)
  next
    case 2
    then show ?thesis
      using rd ring_buffer_wait_read_drained [of ?r dst items] wf by (simp add: ring_sys_inv_def)
  next
    case 3
    then obtain r1 where "r' = r1" "ring_wf r1" "\<not> rb_lock r1"
      using ring_buffer_wait_read_ok [OF wf 3(2,1) d] rd by (metis outcome.inject(1) prod.inject option.inject)
    then show ?thesis
      by (simp add: ring_sys_inv_def)
  qed
qed

lemma ring_sys_step_inv: "ring_sys_step s t \<Longrightarrow> ring_sys_inv s \<Longrightarrow> ring_sys_inv t"
proof (induction rule: ring_sys_step.induct)
  case (writer s data items n r')
  then show ?case
    by (blast intro: ring_sys_writer_inv)
next
  case (closer s r')
  then have "r' = (rs_ring s)\<lparr>rb_closed := True, rb_broadcasts := Suc (rb_broadcasts (rs_ring s))\<rparr>"
    by (simp add: ring_buffer_close_ok ring_sys_inv_def)
  then show ?case
    using closer wake_not_asleep [of r' "rs_ring s"] by (simp add: ring_sys_inv_def ring_wf_def)
next
  case (read_sleeps s dst items)
  then have "rb_items_available (rs_ring s) = 0 \<and> \<not> rb_closed (rs_ring s)"
    by (auto simp: ring_buffer_wait_read_def mutex_lock_def ring_sys_inv_def
        ring_buffer_read_locked_def ring_read_copy_def ring_buffer_copy_items_def memcpy_def Let_def
        split: if_splits)
  with read_sleeps show ?case
    by (simp add: ring_sys_inv_def)
next
  case (read_returns s dst items n r' dst')
  then show ?case
    by (blast intro: ring_sys_read_inv)
qed (simp add: ring_sys_inv_def)

lemma ring_sys_reachable_inv:
  assumes "ring_sys_reachable r0 s" "ring_wf r0" "\<not> rb_lock r0"
  shows "ring_sys_inv s"
  using assms
proof (induction rule: ring_sys_reachable.induct)
  case start
  then show ?case by (simp add: ring_sys_inv_def)
next
  case (step s t)
  then show ?case by (blast intro: ring_sys_step_inv)
qed

section \<open>Properties\<close>

text \<open>
  C4. Writing to an open, unlocked ring: the call returns the number of items it copied, which is
  the input clamped to the capacity; it releases the mutex and signals the reader once; the
  unread items afterwards are the newest ones, at most a capacity of them, of the old unread
  items followed by the whole input. This covers the skipped prefix of an oversized input, the
  dropped oldest items and the wrap-around of the array, on the byte level and in 32- and
  64-bit arithmetic.
\<close>

theorem ring_buffer_write_refines:
  assumes "ring_wf r" "\<not> rb_closed r" "\<not> rb_lock r" "items \<noteq> 0"
    and "unat items * unat (rb_item_size r) \<le> length data" "length data < 2 ^ 64"
  shows "\<exists>n r'. ring_buffer_write (Some r) (Some data) items = Ret (n, Some r') \<and>
    unat n = min (unat items) (unat (rb_capacity r)) \<and> ring_wf r' \<and> \<not> rb_lock r' \<and>
    rb_signals r' = Suc (rb_signals r) \<and>
    ring_items r' = lossy_append (unat (rb_capacity r)) (ring_items r)
      (chunks (unat (rb_item_size r)) data (unat items))"
  using ring_buffer_write_ok [OF assms] by metis

definition ring_example :: ring_buffer where
  "ring_example = \<lparr>rb_buffer = [1, 2, 3, 4, 5, 6], rb_capacity = 3, rb_item_size = 2,
     rb_read_pos = 2, rb_write_pos = 1, rb_items_available = 2, rb_closed = False,
     rb_lock = False, rb_signals = 0, rb_broadcasts = 0\<rparr>"

lemma ring_example_wf: "ring_wf ring_example" "\<not> rb_closed ring_example" "\<not> rb_lock ring_example"
  by (simp_all add: ring_wf_def ring_example_def)

theorem ring_buffer_write_refines_witness:
  "\<exists>n r'. ring_buffer_write (Some ring_example) (Some [7, 8, 9, 10]) 2 = Ret (n, Some r') \<and>
    unat n = 2 \<and> ring_items r' = [[1, 2], [7, 8], [9, 10]]"
proof -
  have d: "unat (2 :: u32) * unat (rb_item_size ring_example) \<le> length [7, 8, 9, 10 :: byte]"
    "length [7, 8, 9, 10 :: byte] < 2 ^ 64"
    by (simp_all add: ring_example_def)
  have v: "lossy_append (unat (rb_capacity ring_example)) (ring_items ring_example)
      (chunks (unat (rb_item_size ring_example)) [7, 8, 9, 10] (unat (2 :: u32)))
      = [[1, 2], [7, 8], [9, 10]]"
    by code_simp
  show ?thesis
    using ring_buffer_write_refines [OF ring_example_wf _ d, unfolded v]
    by (auto simp: ring_example_def)
qed

text \<open>
  C5. Whatever a writer and a reader do to an open ring, in any order and with any amounts, the
  items the reader has received followed by those still unread are a subsequence of what was in
  the ring and was written since, in order; and as long as the capacity suffices for all of it
  nothing is lost or duplicated.
\<close>

theorem ring_stream_order:
  assumes "ring_open r" "queue_admissible (ring_fits r) (2 ^ 32 - 1) ops"
    and "queue_run ring_put ring_get ops r = (out, r')"
  shows "subseq (out @ ring_items r') (ring_items r @ queue_written ops) \<and>
    (length (ring_items r) + length (queue_written ops) \<le> unat (rb_capacity r) \<longrightarrow>
       out @ ring_items r' = ring_items r @ queue_written ops)"
  using ring.run_order [OF assms] ring.run_exact [OF assms(1,2) _ assms(3)] by blast

theorem ring_stream_order_witness:
  "\<exists>out r'. queue_run ring_put ring_get [Put [[7, 8]], Get 2] ring_example = (out, r') \<and>
     out = [[5, 6], [1, 2]] \<and> out @ ring_items r' = [[5, 6], [1, 2], [7, 8]]"
proof -
  have adm: "queue_admissible (ring_fits ring_example) (2 ^ 32 - 1) [Put [[7, 8]], Get 2]"
    by (simp add: ring_fits_def ring_example_def)
  have opn: "ring_open ring_example"
    using ring_example_wf by (simp add: ring_open_def)
  have len: "length (ring_items ring_example) + length (queue_written [Put [[7, 8 :: byte]], Get 2])
      \<le> unat (rb_capacity ring_example)"
    by (simp add: ring_example_def)
  obtain out r' where run: "queue_run ring_put ring_get [Put [[7, 8]], Get 2] ring_example = (out, r')"
    by (cases "queue_run ring_put ring_get [Put [[7, 8]], Get 2] ring_example")
  have "ring_items ring_example = [[5, 6], [1, 2]]"
    by code_simp
  then have all: "out @ ring_items r' = [[5, 6], [1, 2], [7, 8]]"
    using ring_stream_order [OF opn adm run] len by simp
  have "fst (queue_run ring_put ring_get [Put [[7, 8]], Get 2] ring_example) = [[5, 6], [1, 2]]"
    by code_simp
  with run all show ?thesis by simp
qed

text \<open>
  C6. No lost wake-up: in every state the writers, closers and the reader can bring a ring to, a
  reader asleep in \<open>ring_buffer_wait_read\<close> means that there is nothing to read and that the ring
  has not been closed. So every write and the shutdown reach the reader.
\<close>

theorem ring_no_lost_wakeup:
  assumes "ring_sys_reachable r0 s" "ring_wf r0" "\<not> rb_lock r0" "rs_reader s = Reader_Asleep"
  shows "rb_items_available (rs_ring s) = 0 \<and> \<not> rb_closed (rs_ring s)"
  using ring_sys_reachable_inv [OF assms(1-3)] assms(4) by (simp add: ring_sys_inv_def)

theorem ring_no_lost_wakeup_witness:
  "\<exists>s. ring_sys_reachable (ring_example\<lparr>rb_items_available := 0, rb_write_pos := 2\<rparr>) s \<and>
     rs_reader s = Reader_Asleep \<and> rb_items_available (rs_ring s) = 0 \<and> \<not> rb_closed (rs_ring s)"
proof -
  let ?r = "ring_example\<lparr>rb_items_available := 0, rb_write_pos := 2\<rparr>"
  let ?s = "\<lparr>rs_ring = ?r, rs_reader = Reader_Asleep\<rparr>"
  have "ring_buffer_wait_read (Some ?r) (Some [0, 0]) 1 = Block"
    by (rule ring_buffer_wait_read_empty) (simp_all add: ring_example_def)
  then have "ring_sys_step \<lparr>rs_ring = ?r, rs_reader = Reader_Running\<rparr> ?s"
    using ring_sys_step.read_sleeps [of "\<lparr>rs_ring = ?r, rs_reader = Reader_Running\<rparr>" "[0, 0]" 1]
    by simp
  then have s: "ring_sys_reachable ?r ?s"
    by (blast intro: ring_sys_reachable.intros)
  have wf: "ring_wf ?r" "\<not> rb_lock ?r"
    by (simp_all add: ring_wf_def ring_example_def)
  show ?thesis
    using s ring_no_lost_wakeup [OF s wf] by auto
qed

end
