(* ===== verification/C_Heap.thy ===== *)
theory C_Heap
  imports Prelude
begin

text \<open>
  Heap blocks and other handles as a multiset of labels: what is allocated at the moment. A block
  is released once; releasing something that is not allocated is a fault. The modules that allocate
  (the encoders and the Wayland proxy) label their blocks by kind and number.
\<close>

type_synonym 'b heap = "'b multiset"

definition hmalloc :: "'b \<Rightarrow> 'b heap \<Rightarrow> 'b heap" where
  "hmalloc b h = add_mset b h"

definition hfree :: "'b \<Rightarrow> 'b heap \<Rightarrow> 'b heap outcome" where
  "hfree b h = (if b \<in># h then Ret (h - {#b#}) else Fault Double_Free)"

lemma hfree_add [simp]: "hfree b (add_mset b h) = Ret h"
  by (simp add: hfree_def)

lemma hfree_add_other [simp]:
  "b \<noteq> c \<Longrightarrow> hfree b (add_mset c h) = bindo (hfree b h) (\<lambda>h. Ret (add_mset c h))"
  by (simp add: hfree_def)

lemma hfree_plus [simp]: "b \<in># h \<Longrightarrow> hfree b (h + k) = bindo (hfree b h) (\<lambda>h. Ret (h + k))"
  by (simp add: hfree_def)

lemma hfree_Ret_iff: "hfree b h = Ret h' \<longleftrightarrow> h = add_mset b h'"
  by (auto simp: hfree_def)

text \<open>Releasing a list of blocks.\<close>

definition hfree_all :: "'b list \<Rightarrow> 'b heap \<Rightarrow> 'b heap outcome" where
  "hfree_all = foldo hfree"

lemma hfree_all_ok: "hfree_all bs (mset bs + h) = Ret h"
  by (induction bs) (simp_all add: hfree_all_def)

text \<open>Releasing things that own several blocks each.\<close>

lemma foldo_release:
  assumes "\<And>x h. x \<in> set xs \<Longrightarrow> f x (blocks x + h) = Ret h"
  shows "foldo f xs (\<Sum>\<^sub># (mset (map blocks xs)) + h) = Ret h"
  using assms by (induction xs) (simp_all add: add.assoc)

end
