(* ===== verification/Ring_Memory.thy ===== *)
theory Ring_Memory
  imports Ring_Buffer C_Heap
begin

text \<open>
  The memory of the audio ring buffer: \<^verbatim>\<open>ring_buffer_init\<close> and \<^verbatim>\<open>ring_buffer_destroy\<close> of \<^verbatim>\<open>Common/src/ringBuffer.c\<close> with the
  blocks, the mutex and the condition variable they make and release. \<open>Ring_Buffer\<close> has what the ring holds.
\<close>

datatype ring_block = Ring_Struct | Ring_Data | Ring_Mutex | Ring_Cond

definition ring_buffer_create ::
    "bool \<Rightarrow> bool \<Rightarrow> bool \<Rightarrow> bool \<Rightarrow> (nat \<Rightarrow> byte) \<Rightarrow> u32 \<Rightarrow> u64 \<Rightarrow> ring_block heap \<Rightarrow> (ring_buffer option \<times> ring_block heap) outcome" where
  "ring_buffer_create calloc_ok malloc_ok mutex_ok cond_ok junk capacity item_size h =
     (if capacity = 0 \<or> item_size = 0 then Ret (None, h)
      else if \<not> calloc_ok then Ret (None, h)
      else
        let h = hmalloc Ring_Struct h in
        if \<not> malloc_ok then bindo (hfree Ring_Struct h) (\<lambda>h. Ret (None, h))
        else
          let h = hmalloc Ring_Data h;
              ring = \<lparr>rb_buffer = map junk [0..<unat (ucast capacity * item_size)], rb_capacity = capacity, rb_item_size = item_size,
                      rb_read_pos = 0, rb_write_pos = 0, rb_items_available = 0,
                      rb_closed = False, rb_lock = False, rb_signals = 0, rb_broadcasts = 0\<rparr> in
          if \<not> mutex_ok then bindo (hfree Ring_Data h) (\<lambda>h. bindo (hfree Ring_Struct h) (\<lambda>h. Ret (None, h)))
          else
            let h = hmalloc Ring_Mutex h in
            if \<not> cond_ok
            then bindo (hfree Ring_Mutex h) (\<lambda>h. bindo (hfree Ring_Data h) (\<lambda>h. bindo (hfree Ring_Struct h) (\<lambda>h. Ret (None, h))))
            else Ret (Some ring, hmalloc Ring_Cond h))"

definition ring_buffer_destroy :: "ring_buffer option \<Rightarrow> ring_block heap \<Rightarrow> ring_block heap outcome" where
  "ring_buffer_destroy ring h =
     (if ring = None then Ret h
      else bindo (hfree Ring_Cond h) (\<lambda>h. bindo (hfree Ring_Mutex h) (\<lambda>h. bindo (hfree Ring_Data h) (hfree Ring_Struct))))"

text \<open>The ring that is made is that of \<open>ring_buffer_init\<close>; a failure leaves nothing behind, and the two balance.\<close>

lemma ring_buffer_create_balanced:
  "\<exists>h'. ring_buffer_create calloc_ok malloc_ok mutex_ok cond_ok junk capacity item_size h =
      Ret (ring_buffer_init calloc_ok malloc_ok mutex_ok cond_ok junk capacity item_size, h') \<and>
    ring_buffer_destroy (ring_buffer_init calloc_ok malloc_ok mutex_ok cond_ok junk capacity item_size) h' = Ret h"
  by (simp add: ring_buffer_create_def ring_buffer_init_def ring_buffer_destroy_def Let_def hmalloc_def)

end
