(* ===== verification/Rbuf.thy ===== *)
theory Rbuf
  imports Prelude "HOL-Library.Sublist"
begin

text \<open>
  The single-producer single-consumer ring of pointers of \<^verbatim>\<open>stratusd/Common/src/rbuf2.c\<close>, which
  carries the video frames from Capture to Encode, the encoded frames and audio packets to
  Transport, and the input messages from Transport to Input.

  An entry is a pointer to a value of type \<open>'a\<close> (\<open>None\<close> is NULL). The registered free callback is
  a function on the state \<open>'s\<close> of the module that owns the entries, so that what the ring frees,
  and in which order, is visible to its clients. The semaphore is its count; \<^verbatim>\<open>sem_wait\<close> on zero
  is \<open>Block\<close>. This theory has the calls as atomic operations; \<open>Rbuf_Concurrent\<close> interleaves the
  shared-memory accesses of the producer and the consumer thread.

  The representation relation \<open>rbuf_rep\<close> counts from the creation of the ring: \<open>ps\<close> are all
  entries ever pushed, the first \<open>c\<close> of them have been popped and the first \<open>f\<close> of those freed.
  So the queue is \<open>drop c ps\<close>, the expired entries are those between \<open>f\<close> and \<open>c\<close>, and slot
  \<open>k mod size\<close> belongs to push number \<open>k\<close>.
\<close>

section \<open>State and operations\<close>

record ('a, 's) rbuf =
  rf_size :: int
  rf_head :: int
  rf_tail :: int
  rf_entries :: "'a option list"
  rf_sem :: nat
  rf_free :: "('a \<Rightarrow> 's \<Rightarrow> 's outcome) option"

definition sem_wait :: "('a, 's) rbuf \<Rightarrow> ('a, 's) rbuf outcome" where
  "sem_wait buf = (if rf_sem buf = 0 then Block else Ret (buf\<lparr>rf_sem := rf_sem buf - 1\<rparr>))"

definition sem_post :: "('a, 's) rbuf \<Rightarrow> ('a, 's) rbuf" where
  "sem_post buf = buf\<lparr>rf_sem := Suc (rf_sem buf)\<rparr>"

definition rbuf_entry :: "('a, 's) rbuf \<Rightarrow> int \<Rightarrow> 'a option outcome" where
  "rbuf_entry buf i =
     (if 0 \<le> i \<and> i < int (length (rf_entries buf)) then Ret (rf_entries buf ! nat i)
      else Fault Out_Of_Bounds)"

definition rbuf_set_entry :: "('a, 's) rbuf \<Rightarrow> int \<Rightarrow> 'a option \<Rightarrow> ('a, 's) rbuf outcome" where
  "rbuf_set_entry buf i v =
     (if 0 \<le> i \<and> i < int (length (rf_entries buf))
      then Ret (buf\<lparr>rf_entries := (rf_entries buf)[nat i := v]\<rparr>) else Fault Out_Of_Bounds)"

text \<open>\<open>ok1\<close> and \<open>ok2\<close> say whether the two \<^verbatim>\<open>calloc\<close> calls succeed. When the second fails the code
  frees \<^verbatim>\<open>buf\<close> and then destroys the semaphore inside it.\<close>

definition rbuf_init :: "bool \<Rightarrow> bool \<Rightarrow> int \<Rightarrow> ('a, 's) rbuf option outcome" where
  "rbuf_init ok1 ok2 capacity =
     bindo (asserto (capacity > 0)) (\<lambda>_.
     if \<not> ok1 then Ret None
     else if \<not> ok2 then Fault Use_After_Free
     else Ret (Some \<lparr>rf_size = capacity + 1, rf_head = 0, rf_tail = capacity + 1 - 1,
                     rf_entries = replicate (nat (capacity + 1)) None, rf_sem = 0,
                     rf_free = None\<rparr>))"

definition rbuf_set_free ::
    "('a, 's) rbuf \<Rightarrow> ('a \<Rightarrow> 's \<Rightarrow> 's outcome) option \<Rightarrow> ('a, 's) rbuf outcome" where
  "rbuf_set_free buf fr = bindo (asserto (fr \<noteq> None)) (\<lambda>_. Ret (buf\<lparr>rf_free := fr\<rparr>))"

definition rbuf_used_capacity :: "('a, 's) rbuf \<Rightarrow> int" where
  "rbuf_used_capacity buf = c_rem (rf_head buf - rf_tail buf - 1 + rf_size buf) (rf_size buf)"

definition rbuf_free_capacity :: "('a, 's) rbuf \<Rightarrow> int" where
  "rbuf_free_capacity buf = rf_size buf - rbuf_used_capacity buf - 1"

text \<open>The \<^verbatim>\<open>for\<close> loop of \<open>rbuf_destroy\<close>, from index \<open>i\<close>.\<close>

function rbuf_destroy_loop :: "('a, 's) rbuf \<Rightarrow> int \<Rightarrow> 's \<Rightarrow> 's outcome" where
  "rbuf_destroy_loop buf i s =
     (if i < rf_size buf
      then case rf_free buf of
             None \<Rightarrow> rbuf_destroy_loop buf (i + 1) s
           | Some fr \<Rightarrow>
               bindo (rbuf_entry buf i) (\<lambda>e.
               case e of
                 None \<Rightarrow> rbuf_destroy_loop buf (i + 1) s
               | Some d \<Rightarrow> bindo (fr d s) (\<lambda>s. rbuf_destroy_loop buf (i + 1) s))
      else Ret s)"
  by pat_completeness auto
termination
  by (relation "measure (\<lambda>(buf, i, s). nat (rf_size buf - i))") auto

declare rbuf_destroy_loop.simps [simp del]

definition rbuf_destroy :: "('a, 's) rbuf \<Rightarrow> 's \<Rightarrow> 's outcome" where
  "rbuf_destroy buf s = rbuf_destroy_loop buf 0 s"

text \<open>The loop of \<open>rbuf_free_expired\<close>, from index \<open>i\<close>, with the callback \<open>fr\<close>.\<close>

function rbuf_free_loop ::
    "('a \<Rightarrow> 's \<Rightarrow> 's outcome) \<Rightarrow> ('a, 's) rbuf \<Rightarrow> 's \<Rightarrow> int \<Rightarrow> (('a, 's) rbuf \<times> 's) outcome" where
  "rbuf_free_loop fr buf s i =
     (if i < rf_size buf - rbuf_used_capacity buf
      then let idx = c_rem (rf_head buf + i) (rf_size buf) in
           bindo (rbuf_entry buf idx) (\<lambda>e.
           case e of
             None \<Rightarrow> rbuf_free_loop fr buf s (i + 1)
           | Some d \<Rightarrow>
               bindo (fr d s) (\<lambda>s.
               bindo (rbuf_set_entry buf idx None) (\<lambda>buf'.
               rbuf_free_loop fr buf' s (i + 1))))
      else Ret (buf, s))"
  by pat_completeness auto
termination
  by (relation "measure (\<lambda>(fr, buf, s, i). nat (rf_size buf - rbuf_used_capacity buf - i))")
    (auto simp: rbuf_set_entry_def rbuf_used_capacity_def split: if_splits)

declare rbuf_free_loop.simps [simp del]

definition rbuf_free_expired :: "('a, 's) rbuf \<Rightarrow> 's \<Rightarrow> (('a, 's) rbuf \<times> 's) outcome" where
  "rbuf_free_expired buf s =
     (case rf_free buf of
        None \<Rightarrow> Fault Assert_Failed
      | Some fr \<Rightarrow>
          bindo (rbuf_entry buf (rf_tail buf)) (\<lambda>e.
          if e \<noteq> None then rbuf_free_loop fr buf s 1 else Ret (buf, s)))"

definition rbuf_push :: "('a, 's) rbuf \<Rightarrow> 'a option \<Rightarrow> 's \<Rightarrow> (int \<times> ('a, 's) rbuf \<times> 's) outcome"
where
  "rbuf_push buf data s =
     bindo (asserto (data \<noteq> None)) (\<lambda>_.
     if rbuf_free_capacity buf = 0 then Ret (-1, buf, s)
     else
       bindo (rbuf_free_expired buf s) (\<lambda>(buf, s).
       bindo (rbuf_set_entry buf (rf_head buf) data) (\<lambda>buf.
       Ret (0, sem_post (buf\<lparr>rf_head := c_rem (rf_head buf + 1) (rf_size buf)\<rparr>), s))))"

definition rbuf_wait :: "('a, 's) rbuf \<Rightarrow> ('a, 's) rbuf outcome" where
  "rbuf_wait buf = bindo (sem_wait buf) (\<lambda>buf. Ret (sem_post buf))"

definition rbuf_pop :: "('a, 's) rbuf \<Rightarrow> ('a, 's) rbuf outcome" where
  "rbuf_pop buf =
     bindo (sem_wait buf) (\<lambda>buf.
     bindo (asserto (rbuf_used_capacity buf > 0)) (\<lambda>_.
     Ret (buf\<lparr>rf_tail := c_rem (rf_tail buf + 1) (rf_size buf)\<rparr>)))"

text \<open>Each \<open>rbuf_pop\<close> takes one from the semaphore, so the loop ends.\<close>

function rbuf_pop_old :: "('a, 's) rbuf \<Rightarrow> ('a, 's) rbuf outcome" where
  "rbuf_pop_old buf =
     (if rbuf_used_capacity buf > 1 then bindo (rbuf_pop buf) (\<lambda>buf. rbuf_pop_old buf)
      else Ret buf)"
  by pat_completeness auto
termination
  by (relation "measure rf_sem")
    (auto simp: rbuf_pop_def sem_wait_def bindo_Ret_iff split: if_splits)

declare rbuf_pop_old.simps [simp del]

definition rbuf_peak :: "('a, 's) rbuf \<Rightarrow> 'a option outcome" where
  "rbuf_peak buf =
     (if rbuf_used_capacity buf = 0 then Ret None
      else bindo (rbuf_entry buf (c_rem (rf_tail buf + 1) (rf_size buf))) (\<lambda>data.
           bindo (asserto (data \<noteq> None)) (\<lambda>_. Ret data)))"

definition rbuf_try_peak :: "('a, 's) rbuf \<Rightarrow> 'a option outcome" where
  "rbuf_try_peak buf = rbuf_peak buf"

definition rbuf_wait_peak :: "('a, 's) rbuf \<Rightarrow> (('a, 's) rbuf \<times> 'a option) outcome" where
  "rbuf_wait_peak buf =
     bindo (rbuf_wait buf) (\<lambda>buf.
     bindo (rbuf_peak buf) (\<lambda>data.
     bindo (asserto (data \<noteq> None)) (\<lambda>_. Ret (buf, data))))"

definition rbuf_try_peak_latest :: "('a, 's) rbuf \<Rightarrow> (('a, 's) rbuf \<times> 'a option) outcome" where
  "rbuf_try_peak_latest buf =
     bindo (rbuf_pop_old buf) (\<lambda>buf. bindo (rbuf_peak buf) (\<lambda>data. Ret (buf, data)))"

definition rbuf_wait_peak_latest :: "('a, 's) rbuf \<Rightarrow> (('a, 's) rbuf \<times> 'a option) outcome" where
  "rbuf_wait_peak_latest buf =
     bindo (rbuf_wait buf) (\<lambda>buf.
     bindo (rbuf_pop_old buf) (\<lambda>buf.
     bindo (rbuf_peak buf) (\<lambda>data.
     bindo (asserto (data \<noteq> None)) (\<lambda>_. Ret (buf, data)))))"

section \<open>Representation\<close>

text \<open>
  The slots of the ring, by absolute push number: the window of \<open>n\<close> numbers from \<open>f\<close> covers every
  slot once; numbers below the number of pushes hold their entry and the rest are NULL.
\<close>

definition slots_rep :: "nat \<Rightarrow> 'a option list \<Rightarrow> 'a list \<Rightarrow> nat \<Rightarrow> bool" where
  "slots_rep n es ps f \<longleftrightarrow> length es = n \<and> f \<le> length ps \<and> length ps < f + n \<and>
     (\<forall>k. f \<le> k \<longrightarrow> k < f + n \<longrightarrow> es ! (k mod n) = (if k < length ps then Some (ps ! k) else None))"

definition rbuf_rep :: "('a, 's) rbuf \<Rightarrow> 'a list \<Rightarrow> nat \<Rightarrow> nat \<Rightarrow> bool" where
  "rbuf_rep buf ps c f \<longleftrightarrow>
     (\<exists>n > 1. rf_size buf = int n \<and> rf_head buf = int (length ps mod n) \<and>
        rf_tail buf = int ((c + n - 1) mod n) \<and> slots_rep n (rf_entries buf) ps f \<and>
        f \<le> c \<and> c \<le> length ps \<and> length ps < c + n \<and> rf_sem buf = length ps - c)"

lemma slots_repD:
  assumes "slots_rep n es ps f"
  shows "length es = n" "f \<le> length ps" "length ps < f + n"
    and "f \<le> k \<Longrightarrow> k < f + n \<Longrightarrow> es ! (k mod n) = (if k < length ps then Some (ps ! k) else None)"
  using assms by (auto simp: slots_rep_def)

lemma slots_rep_push:
  assumes rep: "slots_rep n es ps f" and room: "Suc (length ps) < f + n"
  shows "slots_rep n (es[length ps mod n := Some x]) (ps @ [x]) f"
  unfolding slots_rep_def
proof (intro conjI allI impI)
  fix k
  assume k: "f \<le> k" "k < f + n"
  have n: "0 < n" "length ps mod n < length es"
    using room slots_repD(1,2) [OF rep] by (cases n; auto)+
  show "es[length ps mod n := Some x] ! (k mod n) =
      (if k < length (ps @ [x]) then Some ((ps @ [x]) ! k) else None)"
  proof (cases "k = length ps")
    case True
    then show ?thesis using n by simp
  next
    case False
    have "k mod n \<noteq> length ps mod n"
      using False k slots_repD(2,3) [OF rep] mod_window_inj [of k n "length ps"]
        mod_window_inj [of "length ps" n k] by (metis le_trans less_or_eq_imp_le linorder_le_cases
          nat_add_left_cancel_less not_le order.strict_trans1 add_le_mono1)
    then show ?thesis
      using False slots_repD(4) [OF rep k] by (auto simp: nth_append)
  qed
qed (use assms slots_repD [OF rep] in auto)

lemma slots_rep_free:
  assumes rep: "slots_rep n es ps f" and less: "f < length ps"
  shows "slots_rep n (es[f mod n := None]) ps (Suc f)"
  unfolding slots_rep_def
proof (intro conjI allI impI)
  fix k
  assume k: "Suc f \<le> k" "k < Suc f + n"
  have n: "0 < n" "f mod n < length es"
    using less slots_repD(1-3) [OF rep] by (cases n; auto)+
  show "es[f mod n := None] ! (k mod n) = (if k < length ps then Some (ps ! k) else None)"
  proof (cases "k = f + n")
    case True
    then show ?thesis using n slots_repD(3) [OF rep] by simp
  next
    case False
    then have "k mod n \<noteq> f mod n"
      using k mod_window_inj [of f n k] by force
    then show ?thesis
      using False k slots_repD(4) [OF rep, of k] by simp
  qed
qed (use assms slots_repD [OF rep] in auto)

lemma rbuf_repE:
  assumes "rbuf_rep buf ps c f"
  obtains n where "1 < n" "rf_size buf = int n" "rf_head buf = int (length ps mod n)"
    "rf_tail buf = int ((c + n - 1) mod n)" "slots_rep n (rf_entries buf) ps f"
    "f \<le> c" "c \<le> length ps" "length ps < c + n" "rf_sem buf = length ps - c"
  using assms by (auto simp: rbuf_rep_def)

lemma ring_distance:
  assumes "1 < n" "c \<le> p" "p < c + n"
  shows "c_rem (int (p mod n) - int ((c + n - 1) mod n) - 1 + int n) (int n) = int (p - c)"
proof -
  have "int ((c + n - 1) mod n) \<le> int n - 1"
    using assms(1) by (simp add: of_nat_diff [symmetric] less_Suc_eq_le [symmetric])
  then have nonneg: "0 \<le> int (p mod n) - int ((c + n - 1) mod n) - 1 + int n"
    by simp
  have tail: "int ((c + n - 1) mod n) = (int c + int n - 1) mod int n"
    using assms(1) by (simp add: zmod_int of_nat_diff)
  have e: "int (p mod n) - int ((c + n - 1) mod n) - 1 + int n
      = int p mod int n - (int c + int n - 1) mod int n + (int n - 1)"
    unfolding tail zmod_int [of p] by simp
  have "(int (p mod n) - int ((c + n - 1) mod n) - 1 + int n) mod int n
      = (int p - (int c + int n - 1) + (int n - 1)) mod int n"
    unfolding e by (metis mod_add_left_eq mod_diff_eq)
  also have "int p - (int c + int n - 1) + (int n - 1) = int p - int c"
    by simp
  also have "(int p - int c) mod int n = int (p - c)"
    using assms mod_pos_pos_trivial [of "int p - int c" "int n"] by (simp add: of_nat_diff)
  finally show ?thesis
    by (simp only: c_rem_nonneg [OF nonneg of_nat_0_le_iff])
qed

lemma used_capacity_rep:
  assumes "rbuf_rep buf ps c f"
  shows "rbuf_used_capacity buf = int (length ps - c)"
  using assms by (elim rbuf_repE) (simp only: rbuf_used_capacity_def ring_distance)

lemma c_rem_slot:
  "0 < n \<Longrightarrow> c_rem (int (p mod n) + int i) (int n) = int ((p + i) mod n)"
  by (simp add: zmod_int mod_simps)

section \<open>Functional behaviour\<close>

lemma rbuf_entry_slot:
  assumes "rf_entries buf = es" "length es = n" "k < n"
  shows "rbuf_entry buf (int k) = Ret (es ! k)"
  using assms by (simp add: rbuf_entry_def)

lemma rbuf_rep_freed:
  assumes "rbuf_rep buf ps c f" "f < c"
  obtains n buf' where "rf_size buf = int n" "rbuf_entry buf (int (f mod n)) = Ret (Some (ps ! f))"
    "rbuf_set_entry buf (int (f mod n)) None = Ret buf'" "rbuf_rep buf' ps c (Suc f)"
    "rf_size buf' = rf_size buf" "rf_free buf' = rf_free buf"
  using assms(1)
proof (rule rbuf_repE)
  fix n
  assume n: "1 < n" "rf_size buf = int n" "rf_head buf = int (length ps mod n)"
    "rf_tail buf = int ((c + n - 1) mod n)" and rep: "slots_rep n (rf_entries buf) ps f"
    and c: "f \<le> c" "c \<le> length ps" "length ps < c + n" "rf_sem buf = length ps - c"
  let ?buf = "buf\<lparr>rf_entries := (rf_entries buf)[f mod n := None]\<rparr>"
  have len: "length (rf_entries buf) = n" "f mod n < n"
    using slots_repD(1) [OF rep] n(1) by simp_all
  have "rf_entries buf ! (f mod n) = Some (ps ! f)"
    using slots_repD(4) [OF rep, of f] n(1) assms(2) c(2) by simp
  then have "rbuf_entry buf (int (f mod n)) = Ret (Some (ps ! f))"
    using rbuf_entry_slot [OF refl len] by simp
  moreover have "rbuf_set_entry buf (int (f mod n)) None = Ret ?buf"
    using len by (simp add: rbuf_set_entry_def)
  moreover have "rbuf_rep ?buf ps c (Suc f)"
    unfolding rbuf_rep_def using n c assms(2) slots_rep_free [OF rep] by (intro exI [of _ n]) simp
  ultimately show thesis
    using that [of n ?buf] n(2) by simp
qed

lemma free_loop_rep:
  assumes "rbuf_rep buf ps c f" "rf_size buf = int n" "length ps + j \<le> f + n"
    and "foldo fr (drop f (take c ps)) s = Ret s'"
  shows "\<exists>buf'. rbuf_free_loop fr buf s (int j) = Ret (buf', s') \<and> rbuf_rep buf' ps c c \<and>
    rf_free buf' = rf_free buf \<and> rf_size buf' = rf_size buf"
  using assms
proof (induction "n - (length ps - c) - j" arbitrary: j f buf s)
  case 0
  obtain n' where n': "rf_size buf = int n'" "f \<le> c" "c \<le> length ps" "length ps < c + n'"
    using 0(2) by (rule rbuf_repE)
  then have "f = c" "n' = n"
    using 0 by auto
  then show ?case
    using 0 n' used_capacity_rep [OF 0(2)] rbuf_free_loop.simps [of fr buf s "int j"]
    by (simp add: of_nat_diff)
next
  case (Suc m)
  let ?p = "length ps"
  obtain n' where n': "1 < n'" "rf_size buf = int n'" "rf_head buf = int (?p mod n')"
    and rep: "slots_rep n' (rf_entries buf) ps f" and c: "f \<le> c" "c \<le> ?p" "?p < c + n'"
    using Suc.prems(1) by (rule rbuf_repE)
  have [simp]: "n' = n"
    using n'(2) Suc.prems(2) by simp
  have less: "int j < rf_size buf - rbuf_used_capacity buf"
    using Suc.hyps(2) c used_capacity_rep [OF Suc.prems(1)] n'(2) by (simp add: of_nat_diff)
  have idx: "c_rem (rf_head buf + int j) (rf_size buf) = int ((?p + j) mod n)"
    using n' by (simp only: c_rem_slot \<open>n' = n\<close>)
  have m: "m = n - (?p - c) - Suc j" and j: "int j + 1 = int (Suc j)"
    using Suc.hyps(2) by simp_all
  have unfold: "rbuf_free_loop fr buf s (int j) =
      bindo (rbuf_entry buf (int ((?p + j) mod n))) (\<lambda>e.
      case e of
        None \<Rightarrow> rbuf_free_loop fr buf s (int (Suc j))
      | Some d \<Rightarrow> bindo (fr d s) (\<lambda>s. bindo (rbuf_set_entry buf (int ((?p + j) mod n)) None) (\<lambda>buf'.
          rbuf_free_loop fr buf' s (int (Suc j)))))"
    by (subst rbuf_free_loop.simps) (simp only: less idx j Let_def if_True)
  show ?case
  proof (cases "?p + j < f + n")
    case True
    then have "rbuf_entry buf (int ((?p + j) mod n)) = Ret None"
      using slots_repD(1) [OF rep] slots_repD(4) [OF rep, of "?p + j"] c n'
        rbuf_entry_slot [OF refl slots_repD(1) [OF rep], of "(?p + j) mod n"] by simp
    moreover have "?p + Suc j \<le> f + n"
      using True by simp
    ultimately show ?thesis
      using Suc.hyps(1) [OF m Suc.prems(1,2) _ Suc.prems(4)] by (simp add: unfold del: of_nat_Suc)
  next
    case False
    then have eq: "?p + j = f + n"
      using Suc.prems(3) by simp
    then have "f < c"
      using Suc.hyps(2) c by linarith
    from rbuf_rep_freed [OF Suc.prems(1) this] obtain buf' where
      e: "rbuf_entry buf (int (f mod n)) = Ret (Some (ps ! f))"
      and st: "rbuf_set_entry buf (int (f mod n)) None = Ret buf'"
      and rep': "rbuf_rep buf' ps c (Suc f)" "rf_size buf' = rf_size buf" "rf_free buf' = rf_free buf"
      using n'(2) by (metis \<open>n' = n\<close> of_nat_eq_iff)
    have "drop f (take c ps) = ps ! f # drop (Suc f) (take c ps)"
      using \<open>f < c\<close> c(2) by (simp add: Cons_nth_drop_Suc [symmetric])
    then obtain s1 where s1: "fr (ps ! f) s = Ret s1" "foldo fr (drop (Suc f) (take c ps)) s1 = Ret s'"
      using Suc.prems(4) by auto
    have "?p + Suc j \<le> Suc f + n"
      using eq by simp
    from Suc.hyps(1) [OF m rep'(1) _ this s1(2)] show ?thesis
      using rep' Suc.prems(2) s1(1) e st eq by (simp add: unfold del: of_nat_Suc)
  qed
qed

lemma tail_entry:
  assumes "rbuf_rep buf ps c f"
  shows "rbuf_entry buf (rf_tail buf) = Ret (if f < c then Some (ps ! (c - 1)) else None)"
  using assms
proof (rule rbuf_repE)
  fix n
  assume n: "1 < n" "rf_tail buf = int ((c + n - 1) mod n)" and rep: "slots_rep n (rf_entries buf) ps f"
    and c: "f \<le> c" "c \<le> length ps" "length ps < c + n"
  have slot: "(c + n - 1) mod n = (if f < c then c - 1 else f + n - 1) mod n"
  proof (cases "f < c")
    case True
    then have "c + n - 1 = (c - 1) + n"
      by simp
    then show ?thesis
      using True by (simp only: mod_add_self2 if_True)
  next
    case False
    then show ?thesis
      using c(1) by simp
  qed
  have "rf_entries buf ! ((c + n - 1) mod n) = (if f < c then Some (ps ! (c - 1)) else None)"
    unfolding slot
    using slots_repD(4) [OF rep, of "if f < c then c - 1 else f + n - 1"] n(1) c
      slots_repD(3) [OF rep] by auto
  then show ?thesis
    using rbuf_entry_slot [OF refl slots_repD(1) [OF rep], of "(c + n - 1) mod n"] n by simp
qed

lemma free_expired_rep:
  assumes "rbuf_rep buf ps c f" "rf_free buf = Some fr" "foldo fr (drop f (take c ps)) s = Ret s'"
  obtains buf' where "rbuf_free_expired buf s = Ret (buf', s')" "rbuf_rep buf' ps c c"
    "rf_free buf' = Some fr" "rf_size buf' = rf_size buf"
proof (cases "f < c")
  case True
  obtain n where n: "rf_size buf = int n" "length ps < c + n" "slots_rep n (rf_entries buf) ps f"
    using assms(1) by (rule rbuf_repE)
  have "length ps + 1 \<le> f + n"
    using slots_repD(3) [OF n(3)] by simp
  from free_loop_rep [OF assms(1) n(1) this assms(3)] show ?thesis
    using that True assms(2) by (auto simp: rbuf_free_expired_def tail_entry [OF assms(1)])
next
  case False
  then have "f = c"
    using assms(1) by (auto elim: rbuf_repE)
  then show ?thesis
    using that [of buf] assms by (simp add: rbuf_free_expired_def tail_entry [OF assms(1)])
qed

lemma rbuf_push_rep:
  assumes rep: "rbuf_rep buf ps c f" and fr: "rf_free buf = Some fr"
    and room: "int (length ps - c) + 1 < rf_size buf"
    and free: "foldo fr (drop f (take c ps)) s = Ret s'"
  obtains buf' where "rbuf_push buf (Some x) s = Ret (0, buf', s')" "rbuf_rep buf' (ps @ [x]) c c"
    "rf_free buf' = Some fr" "rf_size buf' = rf_size buf"
proof -
  obtain buf1 where b1: "rbuf_free_expired buf s = Ret (buf1, s')" "rbuf_rep buf1 ps c c"
    "rf_free buf1 = Some fr" "rf_size buf1 = rf_size buf"
    using free_expired_rep [OF rep fr free] .
  obtain n where n: "1 < n" "rf_size buf1 = int n" "rf_head buf1 = int (length ps mod n)"
    "rf_tail buf1 = int ((c + n - 1) mod n)" and sl: "slots_rep n (rf_entries buf1) ps c"
    and c: "c \<le> length ps" "length ps < c + n" "rf_sem buf1 = length ps - c"
    using b1(2) by (rule rbuf_repE)
  let ?e = "(rf_entries buf1)[length ps mod n := Some x]"
  let ?buf = "buf1\<lparr>rf_entries := ?e, rf_head := int (Suc (length ps) mod n),
    rf_sem := Suc (rf_sem buf1)\<rparr>"
  have lt: "Suc (length ps) < c + n"
    using room b1(4) n(2) c(1) by (simp add: of_nat_diff)
  have head: "c_rem (int (length ps mod n) + 1) (int n) = int (Suc (length ps) mod n)"
    using c_rem_slot [of n "length ps" 1] n(1) by simp
  have "rbuf_set_entry buf1 (rf_head buf1) (Some x) = Ret (buf1\<lparr>rf_entries := ?e\<rparr>)"
    using n slots_repD(1) [OF sl] by (simp add: rbuf_set_entry_def)
  moreover have "rbuf_free_capacity buf \<noteq> 0"
    using room by (simp add: rbuf_free_capacity_def used_capacity_rep [OF rep])
  ultimately have "rbuf_push buf (Some x) s = Ret (0, ?buf, s')"
    using b1(1) n(2,3) by (simp add: rbuf_push_def sem_post_def head)
  moreover have "rbuf_rep ?buf (ps @ [x]) c c"
    unfolding rbuf_rep_def using n c lt slots_rep_push [OF sl lt]
    by (intro exI [of _ n]) (simp add: Suc_diff_le)
  ultimately show ?thesis
    using that [of ?buf] b1(3,4) by simp
qed

lemma rbuf_push_full:
  assumes "rbuf_rep buf ps c f" "int (length ps - c) + 1 = rf_size buf"
  shows "rbuf_push buf (Some x) s = Ret (-1, buf, s)"
  using assms(2) by (simp add: rbuf_push_def rbuf_free_capacity_def used_capacity_rep [OF assms(1)])

lemma rbuf_pop_rep:
  assumes "rbuf_rep buf ps c f" "c < length ps"
  obtains buf' where "rbuf_pop buf = Ret buf'" "rbuf_rep buf' ps (Suc c) f"
    "rf_free buf' = rf_free buf" "rf_size buf' = rf_size buf"
  using assms(1)
proof (rule rbuf_repE)
  fix n
  assume n: "1 < n" "rf_size buf = int n" "rf_head buf = int (length ps mod n)"
    "rf_tail buf = int ((c + n - 1) mod n)" and rep: "slots_rep n (rf_entries buf) ps f"
    and c: "f \<le> c" "c \<le> length ps" "length ps < c + n" "rf_sem buf = length ps - c"
  let ?buf = "buf\<lparr>rf_sem := rf_sem buf - 1, rf_tail := int ((Suc c + n - 1) mod n)\<rparr>"
  have tail: "c_rem (rf_tail buf + 1) (rf_size buf) = int ((Suc c + n - 1) mod n)"
    using c_rem_slot [of n "c + n - 1" 1] n by simp
  have used: "rbuf_used_capacity (buf\<lparr>rf_sem := m\<rparr>) > 0" for m
    using used_capacity_rep [OF assms(1)] assms(2) by (simp add: rbuf_used_capacity_def)
  have "rbuf_pop buf = Ret ?buf"
    using used assms(2) c(4) tail n by (simp add: rbuf_pop_def sem_wait_def)
  moreover have "rbuf_rep ?buf ps (Suc c) f"
    unfolding rbuf_rep_def using n c assms(2) rep by (intro exI [of _ n]) simp
  ultimately show thesis
    using that [of ?buf] by simp
qed

lemma rbuf_peak_rep:
  assumes "rbuf_rep buf ps c f"
  shows "rbuf_peak buf = Ret (if c < length ps then Some (ps ! c) else None)"
  using assms
proof (rule rbuf_repE)
  fix n
  assume n: "1 < n" "rf_size buf = int n" "rf_tail buf = int ((c + n - 1) mod n)"
    and rep: "slots_rep n (rf_entries buf) ps f" and c: "f \<le> c" "c \<le> length ps" "length ps < c + n"
  have tail: "c_rem (rf_tail buf + 1) (rf_size buf) = int (c mod n)"
    using c_rem_slot [of n "c + n - 1" 1] n by simp
  have "rbuf_entry buf (int (c mod n)) = Ret (Some (ps ! c))" if "c < length ps"
    using that rbuf_entry_slot [OF refl slots_repD(1) [OF rep], of "c mod n"] n(1) c
      slots_repD(3) [OF rep] slots_repD(4) [OF rep, of c] by simp
  then show ?thesis
    using c tail by (auto simp: rbuf_peak_def used_capacity_rep [OF assms])
qed

text \<open>Popping the old entries keeps exactly the latest one.\<close>

lemma rbuf_pop_old_rep:
  assumes "rbuf_rep buf ps c f"
  shows "\<exists>buf'. rbuf_pop_old buf = Ret buf' \<and> rbuf_rep buf' ps (max c (length ps - 1)) f \<and>
    rf_free buf' = rf_free buf \<and> rf_size buf' = rf_size buf"
  using assms
proof (induction "length ps - c" arbitrary: c buf rule: less_induct)
  case less
  show ?case
  proof (cases "length ps - c > 1")
    case True
    then have "c < length ps"
      by simp
    then obtain buf1 where b1: "rbuf_pop buf = Ret buf1" "rbuf_rep buf1 ps (Suc c) f"
      "rf_free buf1 = rf_free buf" "rf_size buf1 = rf_size buf"
      by (rule rbuf_pop_rep [OF less.prems])
    have "length ps - Suc c < length ps - c"
      using True by simp
    moreover have "max (Suc c) (length ps - 1) = max c (length ps - 1)"
      using True by (simp add: max_def) arith
    moreover have "rbuf_pop_old buf = rbuf_pop_old buf1"
      using True b1(1) used_capacity_rep [OF less.prems] rbuf_pop_old.simps [of buf]
      by (simp del: of_nat_diff)
    ultimately show ?thesis
      using less.hyps [OF _ b1(2)] b1(3,4) by simp
  next
    case False
    then have "max c (length ps - 1) = c"
      by linarith
    moreover have "rbuf_pop_old buf = Ret buf"
      using False used_capacity_rep [OF less.prems] rbuf_pop_old.simps [of buf]
      by (simp del: of_nat_diff)
    ultimately show ?thesis
      using less.prems by simp
  qed
qed

lemma rbuf_wait_rep:
  assumes "rbuf_rep buf ps c f"
  shows "rbuf_wait buf = (if c < length ps then Ret buf else Block)"
  using assms by (elim rbuf_repE) (auto simp: rbuf_wait_def sem_wait_def sem_post_def)

lemma rbuf_init_rep:
  assumes "0 < capacity"
  obtains buf where "rbuf_init True True capacity = Ret (Some buf)" "rbuf_rep buf [] 0 0"
    "rf_size buf = capacity + 1" "rf_free buf = None"
proof -
  define n where "n = nat (capacity + 1)"
  have n: "capacity + 1 = int n" "1 < n"
    using assms by (simp_all add: n_def)
  let ?buf = "\<lparr>rf_size = capacity + 1, rf_head = 0, rf_tail = capacity + 1 - 1,
    rf_entries = replicate (nat (capacity + 1)) None, rf_sem = 0, rf_free = None\<rparr>"
  have "rbuf_rep ?buf [] 0 0"
    unfolding rbuf_rep_def n using n(2)
    by (intro exI [of _ n]) (simp add: slots_rep_def of_nat_diff)
  then show ?thesis
    using that [of ?buf] assms by (simp add: rbuf_init_def)
qed

text \<open>Destroying the ring runs the callback on every entry that has not been freed, once each.\<close>

lemma destroy_loop_entries:
  assumes "rf_free buf = Some fr" "length (rf_entries buf) = nat (rf_size buf)" "0 \<le> i" "i \<le> rf_size buf"
  shows "rbuf_destroy_loop buf i s = foldo fr (List.map_filter id (drop (nat i) (rf_entries buf))) s"
  using assms(3,4)
proof (induction "nat (rf_size buf - i)" arbitrary: i s)
  case 0
  then show ?case
    using assms(2) by (subst rbuf_destroy_loop.simps) (simp add: map_filter_simps)
next
  case (Suc m)
  let ?e = "rf_entries buf ! nat i"
  have i: "nat i < length (rf_entries buf)" "nat (i + 1) = Suc (nat i)"
    using Suc assms(2) by auto
  have IH: "rbuf_destroy_loop buf (i + 1) s =
      foldo fr (List.map_filter id (drop (Suc (nat i)) (rf_entries buf))) s" for s
    using Suc i(2) by simp
  have "drop (nat i) (rf_entries buf) = ?e # drop (Suc (nat i)) (rf_entries buf)"
    using i(1) by (simp add: Cons_nth_drop_Suc)
  moreover have "rbuf_entry buf i = Ret ?e"
    using Suc.prems i(1) by (simp add: rbuf_entry_def)
  ultimately show ?case
    using Suc assms(1) by (subst rbuf_destroy_loop.simps)
      (auto simp: IH map_filter_simps split: option.splits intro: bindo_cong)
qed

lemma mset_map_filter_cong:
  assumes "mset xs = mset ys"
  shows "mset (List.map_filter f xs) = mset (List.map_filter f ys)"
  unfolding map_filter_def mset_map mset_filter assms ..

lemma slots_unfreed:
  assumes rep: "slots_rep n es ps f"
  shows "mset (List.map_filter id es) = mset (drop f ps)"
proof -
  let ?slot = "\<lambda>k. k mod n" and ?val = "\<lambda>k. if k < length ps then Some (ps ! k) else None"
  have len: "length es = n" "f \<le> length ps" "length ps < f + n"
    using slots_repD [OF rep] by auto
  then have slot: "k mod n < n" for k
    by simp
  have inj: "inj_on ?slot {f..<f + n}"
  proof (rule inj_onI)
    fix a b
    assume ab: "a \<in> {f..<f + n}" "b \<in> {f..<f + n}" "a mod n = b mod n"
    then show "a = b"
      using mod_window_inj [of a n b] mod_window_inj [of b n a] by (cases "a \<le> b") auto
  qed
  have "?slot ` {f..<f + n} = {..<n}"
    using inj slot by (intro card_subset_eq) (auto simp: card_image)
  then have eq: "image_mset ?slot (mset_set {f..<f + n}) = mset_set {..<n}"
    using inj by (simp add: image_mset_mset_set)
  have "mset es = image_mset ((!) es) (mset [0..<n])"
    using len(1) map_nth [of es] by (metis mset_map)
  also have "\<dots> = image_mset ((!) es) (image_mset ?slot (mset_set {f..<f + n}))"
    unfolding eq mset_set_upto_eq_mset_upto ..
  also have "\<dots> = image_mset (\<lambda>k. es ! (k mod n)) (mset_set {f..<f + n})"
    by (simp add: image_mset.compositionality comp_def)
  also have "\<dots> = image_mset ?val (mset_set {f..<f + n})"
    using slots_repD(4) [OF rep] by (intro image_mset_cong) auto
  also have "\<dots> = mset (map ?val [f..<f + n])"
    by simp
  also have "map ?val [f..<f + n] = map Some (drop f ps) @ replicate (f + n - length ps) None"
    using len by (intro nth_equalityI) (auto simp: nth_append)
  finally have "mset es = mset (map Some (drop f ps) @ replicate (f + n - length ps) None)" .
  then have "mset (List.map_filter id es) =
      mset (List.map_filter id (map Some (drop f ps) @ replicate (f + n - length ps) None))"
    by (rule mset_map_filter_cong)
  also have "List.map_filter id (map Some (drop f ps) @ replicate m None) = drop f ps" for m
    by (simp add: map_filter_def comp_def)
  finally show ?thesis .
qed

lemma rbuf_destroy_rep:
  assumes "rbuf_rep buf ps c f" "rf_free buf = Some fr"
  obtains xs where "mset xs = mset (drop f ps)" "rbuf_destroy buf s = foldo fr xs s"
  using assms(1)
proof (rule rbuf_repE)
  fix n
  assume n: "rf_size buf = int n" and rep: "slots_rep n (rf_entries buf) ps f"
  have "rbuf_destroy buf s = foldo fr (List.map_filter id (rf_entries buf)) s"
    using destroy_loop_entries [OF assms(2), of 0 s] n slots_repD(1) [OF rep]
    by (simp add: rbuf_destroy_def)
  then show thesis
    using that [OF slots_unfreed [OF rep]] by simp
qed


section \<open>The contract of the queue\<close>

text \<open>
  What the modules at the two ends of a ring rely on. \<open>rep b n e q\<close>: the ring has capacity \<open>n\<close>,
  holds the queue \<open>q\<close> (oldest first), and still owns the popped entries \<open>e\<close> that the next push
  will hand to the free callback \<open>fr\<close>.
\<close>

locale owned_queue =
  fixes rep :: "'b \<Rightarrow> nat \<Rightarrow> 'a list \<Rightarrow> 'a list \<Rightarrow> bool"
    and push :: "'b \<Rightarrow> 'a \<Rightarrow> 's \<Rightarrow> (int \<times> 'b \<times> 's) outcome"
    and pop :: "'b \<Rightarrow> 'b outcome"
    and wait_peak :: "'b \<Rightarrow> ('b \<times> 'a option) outcome"
    and wait_latest :: "'b \<Rightarrow> ('b \<times> 'a option) outcome"
    and destroy :: "'b \<Rightarrow> 's \<Rightarrow> 's outcome"
    and fr :: "'a \<Rightarrow> 's \<Rightarrow> 's outcome"
  assumes bounded: "rep b n e q \<Longrightarrow> length q \<le> n"
    and push_full: "rep b n e q \<Longrightarrow> length q = n \<Longrightarrow> push b x s = Ret (-1, b, s)"
    and push_room: "rep b n e q \<Longrightarrow> length q < n \<Longrightarrow> foldo fr e s = Ret s' \<Longrightarrow>
      \<exists>b'. push b x s = Ret (0, b', s') \<and> rep b' n [] (q @ [x])"
    and pop_first: "rep b n e (x # q) \<Longrightarrow> \<exists>b'. pop b = Ret b' \<and> rep b' n (e @ [x]) q"
    and wait_empty: "rep b n e [] \<Longrightarrow> wait_peak b = Block \<and> wait_latest b = Block"
    and wait_first: "rep b n e (x # q) \<Longrightarrow> wait_peak b = Ret (b, Some x)"
    and latest_last: "rep b n e (q @ [x]) \<Longrightarrow>
      \<exists>b'. wait_latest b = Ret (b', Some x) \<and> rep b' n (e @ q) [x]"
    and destroy_all: "rep b n e q \<Longrightarrow> \<exists>xs. mset xs = mset (e @ q) \<and> destroy b s = foldo fr xs s"

text \<open>
  A sequence of calls on a ring, in the order in which they take effect: the producer pushes, the
  consumer takes the oldest entry (\<^verbatim>\<open>rbuf_wait_peak\<close>, \<^verbatim>\<open>rbuf_pop\<close>) or the latest
  (\<^verbatim>\<open>rbuf_wait_peak_latest\<close>, \<^verbatim>\<open>rbuf_pop\<close>). The run keeps the entries that were accepted (\<open>acc\<close>) and
  those that were handed to the consumer (\<open>out\<close>).
\<close>

datatype 'a queue_call = Push 'a | Take | Take_Latest

definition queue_take ::
    "('b \<Rightarrow> ('b \<times> 'a option) outcome) \<Rightarrow> ('b \<Rightarrow> 'b outcome) \<Rightarrow> 'b \<Rightarrow> ('b \<times> 'a) outcome" where
  "queue_take wait_peak pop b =
     bindo (wait_peak b) (\<lambda>(b, d). bindo (derefo d) (\<lambda>x. bindo (pop b) (\<lambda>b. Ret (b, x))))"

fun queue_do ::
    "('b \<Rightarrow> 'a \<Rightarrow> 's \<Rightarrow> (int \<times> 'b \<times> 's) outcome) \<Rightarrow> ('b \<Rightarrow> 'b outcome) \<Rightarrow>
     ('b \<Rightarrow> ('b \<times> 'a option) outcome) \<Rightarrow> ('b \<Rightarrow> ('b \<times> 'a option) outcome) \<Rightarrow>
     'a queue_call \<Rightarrow> 'b \<times> 's \<times> 'a list \<times> 'a list \<Rightarrow> ('b \<times> 's \<times> 'a list \<times> 'a list) outcome" where
  "queue_do push pop wait_peak wait_latest (Push x) (b, s, acc, out) =
     bindo (push b x s) (\<lambda>(r, b, s). Ret (b, s, if r = 0 then acc @ [x] else acc, out))"
| "queue_do push pop wait_peak wait_latest Take (b, s, acc, out) =
     bindo (queue_take wait_peak pop b) (\<lambda>(b, x). Ret (b, s, acc, out @ [x]))"
| "queue_do push pop wait_peak wait_latest Take_Latest (b, s, acc, out) =
     bindo (queue_take wait_latest pop b) (\<lambda>(b, x). Ret (b, s, acc, out @ [x]))"

text \<open>A queue whose callback records what is freed.\<close>

definition log_free :: "'a \<Rightarrow> 'a list \<Rightarrow> 'a list outcome" where
  "log_free d s = Ret (s @ [d])"

lemma foldo_log_free [simp]: "foldo log_free xs s = Ret (s @ xs)"
  by (induction xs arbitrary: s) (simp_all add: log_free_def)

locale logged_queue = owned_queue rep push pop wait_peak wait_latest destroy log_free
  for rep :: "'b \<Rightarrow> nat \<Rightarrow> 'a list \<Rightarrow> 'a list \<Rightarrow> bool" and push pop wait_peak wait_latest destroy
begin

text \<open>The state of a run: freed, expired and queued entries are what was accepted, in order, and
  the consumer has seen some of those that are popped.\<close>

lemma call_kept:
  assumes "rep b n e q" "acc = s @ e @ q" "subseq out (s @ e)"
  shows "queue_do push pop wait_peak wait_latest cl (b, s, acc, out) = Block \<or>
    (\<exists>b' s' acc' out' e' q'.
      queue_do push pop wait_peak wait_latest cl (b, s, acc, out) = Ret (b', s', acc', out') \<and>
      rep b' n e' q' \<and> acc' = s' @ e' @ q' \<and> subseq out' (s' @ e') \<and>
      (cl \<noteq> Take_Latest \<and> out = s @ e \<longrightarrow> out' = s' @ e'))"
proof (cases cl)
  case (Push x)
  show ?thesis
  proof (cases "length q = n")
    case True
    then show ?thesis
      using assms Push push_full [OF assms(1) True] by auto
  next
    case False
    then have "length q < n"
      using bounded [OF assms(1)] by simp
    from push_room [OF assms(1) this, of s "s @ e" x] obtain b' where
      "push b x s = Ret (0, b', s @ e)" "rep b' n [] (q @ [x])"
      by auto
    then show ?thesis
      using assms Push by (intro disjI2 exI [of _ b'] exI [of _ "s @ e"] exI [of _ "acc @ [x]"]
          exI [of _ out] exI [of _ "[]"] exI [of _ "q @ [x]"]) simp
  qed
next
  case Take
  show ?thesis
  proof (cases q)
    case Nil
    then show ?thesis
      using wait_empty assms(1) Take by (simp add: queue_take_def)
  next
    case (Cons x q')
    then obtain b' where "pop b = Ret b'" "rep b' n (e @ [x]) q'"
      using pop_first assms(1) by blast
    moreover have "subseq (out @ [x]) (s @ e @ [x])"
      using list_emb_append_mono [OF assms(3), of "[x]" "[x]"] by simp
    ultimately show ?thesis
      using Cons Take assms wait_first [of b n e x q']
      by (intro disjI2 exI [of _ b'] exI [of _ s] exI [of _ acc] exI [of _ "out @ [x]"]
          exI [of _ "e @ [x]"] exI [of _ q']) (simp add: queue_take_def)
  qed
next
  case Take_Latest
  show ?thesis
  proof (cases q rule: rev_cases)
    case Nil
    then show ?thesis
      using wait_empty assms(1) Take_Latest by (simp add: queue_take_def)
  next
    case (snoc q' x)
    then obtain b' where b': "wait_latest b = Ret (b', Some x)" "rep b' n (e @ q') [x]"
      using latest_last assms(1) by blast
    then obtain b2 where "pop b' = Ret b2" "rep b2 n ((e @ q') @ [x]) []"
      using pop_first by blast
    moreover have "subseq (out @ [x]) ((s @ e) @ q' @ [x])"
      by (intro list_emb_append_mono [OF assms(3)] list_emb_append2) simp
    ultimately show ?thesis
      using snoc Take_Latest assms b' by (simp add: queue_take_def) blast
  qed
qed

lemma run_kept:
  assumes "rep b n e q" "acc = s @ e @ q" "subseq out (s @ e)"
    "foldo (queue_do push pop wait_peak wait_latest) cls (b, s, acc, out) = Ret (b', s', acc', out')"
  shows "\<exists>e' q'. rep b' n e' q' \<and> acc' = s' @ e' @ q' \<and> subseq out' (s' @ e') \<and>
    (Take_Latest \<notin> set cls \<and> out = s @ e \<longrightarrow> out' = s' @ e')"
  using assms
proof (induction cls arbitrary: b s acc out e q)
  case Nil
  then show ?case by auto
next
  case (Cons cl cls)
  obtain b1 s1 acc1 out1 e1 q1 where
    c: "queue_do push pop wait_peak wait_latest cl (b, s, acc, out) = Ret (b1, s1, acc1, out1)"
    and r: "rep b1 n e1 q1" "acc1 = s1 @ e1 @ q1" "subseq out1 (s1 @ e1)"
    and o: "cl \<noteq> Take_Latest \<and> out = s @ e \<longrightarrow> out1 = s1 @ e1"
    using call_kept [OF Cons.prems(1-3), of cl] Cons.prems(4)
    by (elim disjE exE conjE) (simp, blast)
  show ?case
    using Cons.IH [OF r] Cons.prems(4) c o by auto
qed

lemma run_no_fault:
  assumes "rep b n e q" "acc = s @ e @ q" "subseq out (s @ e)"
  shows "foldo (queue_do push pop wait_peak wait_latest) cls (b, s, acc, out) \<noteq> Fault flt"
  using assms
proof (induction cls arbitrary: b s acc out e q)
  case (Cons cl cls)
  then show ?case
    using call_kept [OF Cons.prems, of cl] by (auto simp: Cons.IH)
qed simp

lemma life:
  assumes "rep b n [] []" "foldo (queue_do push pop wait_peak wait_latest) cls (b, [], [], []) =
    Ret (b', s', acc', out')"
  shows "prefix s' acc' \<and> subseq out' acc' \<and> (Take_Latest \<notin> set cls \<longrightarrow> prefix out' acc') \<and>
    (\<exists>s''. destroy b' s' = Ret (s' @ s'') \<and> mset (s' @ s'') = mset acc')"
proof -
  obtain e' q' where k: "rep b' n e' q'" "acc' = s' @ e' @ q'" "subseq out' (s' @ e')"
    "Take_Latest \<notin> set cls \<longrightarrow> out' = s' @ e'"
    using run_kept [OF assms(1) _ _ assms(2)] by auto
  have "subseq out' acc'"
    using list_emb_append_mono [OF k(3), of "[]" q'] k(2) by simp
  then show ?thesis
    using k destroy_all [OF k(1), of s'] by auto
qed

end


section \<open>The ring provides the contract\<close>

text \<open>\<open>rbuf_own\<close> forgets the numbering of the pushes. The callback is the one registered in the
  ring.\<close>

definition rbuf_own ::
    "('a \<Rightarrow> 's \<Rightarrow> 's outcome) \<Rightarrow> ('a, 's) rbuf \<Rightarrow> nat \<Rightarrow> 'a list \<Rightarrow> 'a list \<Rightarrow> bool" where
  "rbuf_own fr buf n e q \<longleftrightarrow> (\<exists>ps c f. rbuf_rep buf ps c f \<and> rf_free buf = Some fr \<and>
     rf_size buf = int n + 1 \<and> e = drop f (take c ps) \<and> q = drop c ps)"

lemma rbuf_ownE:
  assumes "rbuf_own fr buf n e q"
  obtains ps c f where "rbuf_rep buf ps c f" "rf_free buf = Some fr" "rf_size buf = int n + 1"
    "e = drop f (take c ps)" "q = drop c ps" "length q = length ps - c" "f \<le> c" "c \<le> length ps"
    "length ps \<le> c + n"
proof -
  obtain ps c f where own: "rbuf_rep buf ps c f" "rf_free buf = Some fr" "rf_size buf = int n + 1"
    "e = drop f (take c ps)" "q = drop c ps"
    using assms by (auto simp: rbuf_own_def)
  moreover have "f \<le> c" "c \<le> length ps" "length ps \<le> c + n"
    using own(1,3) by (auto elim!: rbuf_repE)
  ultimately show ?thesis
    using that by simp
qed

lemma rbuf_own_used: "rbuf_own fr buf n e q \<Longrightarrow> rbuf_used_capacity buf = int (length q)"
  by (elim rbuf_ownE) (simp add: used_capacity_rep)

lemma rbuf_own_push_full:
  assumes "rbuf_own fr buf n e q" "length q = n"
  shows "rbuf_push buf (Some x) s = Ret (-1, buf, s)"
  using assms by (elim rbuf_ownE) (simp add: rbuf_push_full del: of_nat_diff)

lemma rbuf_own_push_room:
  assumes "rbuf_own fr buf n e q" "length q < n" "foldo fr e s = Ret s'"
  shows "\<exists>buf'. rbuf_push buf (Some x) s = Ret (0, buf', s') \<and> rbuf_own fr buf' n [] (q @ [x])"
  using assms(1)
proof (rule rbuf_ownE)
  fix ps c f
  assume own: "rbuf_rep buf ps c f" "rf_free buf = Some fr" "rf_size buf = int n + 1"
    "e = drop f (take c ps)" "q = drop c ps" "length q = length ps - c" "c \<le> length ps"
  then have "int (length ps - c) + 1 < rf_size buf" "foldo fr (drop f (take c ps)) s = Ret s'"
    using assms(2,3) by auto
  from rbuf_push_rep [OF own(1,2) this] obtain buf' where
    b: "rbuf_push buf (Some x) s = Ret (0, buf', s')" "rbuf_rep buf' (ps @ [x]) c c"
    "rf_free buf' = Some fr" "rf_size buf' = rf_size buf" .
  moreover have "rbuf_own fr buf' n [] (q @ [x])"
    unfolding rbuf_own_def using b own by (intro exI [of _ "ps @ [x]"] exI [of _ c]) simp
  ultimately show ?thesis
    by blast
qed

lemma rbuf_own_free_expired:
  assumes "rbuf_own fr buf n e q" "foldo fr e s = Ret s'"
  shows "\<exists>buf'. rbuf_free_expired buf s = Ret (buf', s') \<and> rbuf_own fr buf' n [] q"
  using assms(1)
proof (rule rbuf_ownE)
  fix ps c f
  assume own: "rbuf_rep buf ps c f" "rf_free buf = Some fr" "rf_size buf = int n + 1"
    "e = drop f (take c ps)" "q = drop c ps"
  from free_expired_rep [OF own(1,2)] obtain buf' where
    b: "rbuf_free_expired buf s = Ret (buf', s')" "rbuf_rep buf' ps c c" "rf_free buf' = Some fr" "rf_size buf' = rf_size buf"
    using own(4) assms(2) by auto
  moreover have "rbuf_own fr buf' n [] q"
    unfolding rbuf_own_def using b own by (intro exI [of _ ps] exI [of _ c]) simp
  ultimately show ?thesis
    by blast
qed

lemma drop_take_Suc:
  "f \<le> c \<Longrightarrow> c < length ps \<Longrightarrow> drop f (take (Suc c) ps) = drop f (take c ps) @ [ps ! c]"
  by (simp add: take_Suc_conv_app_nth)

lemma rbuf_own_pop:
  assumes "rbuf_own fr buf n e (x # q)"
  shows "\<exists>buf'. rbuf_pop buf = Ret buf' \<and> rbuf_own fr buf' n (e @ [x]) q"
  using assms
proof (rule rbuf_ownE)
  fix ps c f
  assume own: "rbuf_rep buf ps c f" "rf_free buf = Some fr" "rf_size buf = int n + 1"
    "e = drop f (take c ps)" "x # q = drop c ps" "length (x # q) = length ps - c" "f \<le> c"
  from own(6) have c: "c < length ps"
    by (cases "c < length ps") simp_all
  then have x: "x = ps ! c" "q = drop (Suc c) ps"
    using own(5) by (simp_all add: Cons_nth_drop_Suc [symmetric])
  from rbuf_pop_rep [OF own(1) c] obtain buf' where
    b: "rbuf_pop buf = Ret buf'" "rbuf_rep buf' ps (Suc c) f"
    "rf_free buf' = rf_free buf" "rf_size buf' = rf_size buf" .
  moreover have "rbuf_own fr buf' n (e @ [x]) q"
    unfolding rbuf_own_def using b own x c
    by (intro exI [of _ ps] exI [of _ "Suc c"] exI [of _ f]) (simp add: drop_take_Suc)
  ultimately show ?thesis
    by blast
qed

lemma rbuf_own_wait:
  assumes "rbuf_own fr buf n e q"
  shows "rbuf_wait buf = (if q = [] then Block else Ret buf)"
    and "rbuf_peak buf = Ret (if q = [] then None else Some (hd q))"
  using assms by (auto elim!: rbuf_ownE simp: rbuf_wait_rep rbuf_peak_rep hd_drop_conv_nth)

lemma rbuf_own_pop_old:
  assumes "rbuf_own fr buf n e (q @ [x])"
  shows "\<exists>buf'. rbuf_pop_old buf = Ret buf' \<and> rbuf_own fr buf' n (e @ q) [x]"
  using assms
proof (rule rbuf_ownE)
  fix ps c f
  assume own: "rbuf_rep buf ps c f" "rf_free buf = Some fr" "rf_size buf = int n + 1"
    "e = drop f (take c ps)" "q @ [x] = drop c ps" "length (q @ [x]) = length ps - c" "f \<le> c"
  define d where "d = length ps - 1"
  have d: "max c (length ps - 1) = d" "c \<le> d" "length ps = Suc d" "length q = d - c"
    using own(6) by (simp_all add: d_def)
  have ps: "ps = take c ps @ q @ [x]"
    by (simp add: own(5))
  have len: "length (take c ps @ q) = d"
    using d by simp
  have q: "e @ q = drop f (take d ps)" "[x] = drop d ps"
    using ps len own(4,7) d by (metis append.assoc append_eq_conv_conj drop_append diff_is_0_eq'
        drop_0 length_take min.absorb2 le_SucI)+
  obtain buf' where
    b: "rbuf_pop_old buf = Ret buf'" "rbuf_rep buf' ps d f"
    "rf_free buf' = rf_free buf" "rf_size buf' = rf_size buf"
    using rbuf_pop_old_rep [OF own(1)] d(1) by auto
  moreover have "rbuf_own fr buf' n (e @ q) [x]"
    unfolding rbuf_own_def using b own(2,3) q by (intro exI [of _ ps] exI [of _ d] exI [of _ f]) simp
  ultimately show ?thesis
    by blast
qed

lemma rbuf_own_destroy:
  assumes "rbuf_own fr buf n e q"
  shows "\<exists>xs. mset xs = mset (e @ q) \<and> rbuf_destroy buf s = foldo fr xs s"
  using assms
proof (rule rbuf_ownE)
  fix ps c f
  assume own: "rbuf_rep buf ps c f" "rf_free buf = Some fr" "e = drop f (take c ps)" "q = drop c ps"
    "f \<le> c" "c \<le> length ps"
  have "e @ q = drop f ps"
    using own(3-6) by (metis append_take_drop_id drop_append diff_is_0_eq' drop_0 length_take
        min.absorb2)
  then show ?thesis
    using rbuf_destroy_rep [OF own(1,2), of s] by metis
qed

interpretation rb: owned_queue "rbuf_own fr" "\<lambda>buf x. rbuf_push buf (Some x)" rbuf_pop
    rbuf_wait_peak rbuf_wait_peak_latest rbuf_destroy fr
proof
  fix b n e q x
  assume "rbuf_own fr b n e (q @ [x])"
  then show "\<exists>b'. rbuf_wait_peak_latest b = Ret (b', Some x) \<and> rbuf_own fr b' n (e @ q) [x]"
    using rbuf_own_pop_old [of fr b n e q x] rbuf_own_wait
    by (fastforce simp: rbuf_wait_peak_latest_def)
qed (auto elim: rbuf_ownE simp: rbuf_own_push_full rbuf_own_push_room rbuf_own_pop
    rbuf_wait_peak_def rbuf_wait_peak_latest_def rbuf_own_wait rbuf_own_destroy
    simp del: mset_append)


interpretation rbl: logged_queue "rbuf_own log_free" "\<lambda>buf x. rbuf_push buf (Some x)" rbuf_pop
    rbuf_wait_peak rbuf_wait_peak_latest rbuf_destroy
  by unfold_locales

section \<open>Properties\<close>

text \<open>A ring as its users set it up: created and given a free callback.\<close>

definition rbuf_new :: "int \<Rightarrow> ('a \<Rightarrow> 's \<Rightarrow> 's outcome) \<Rightarrow> ('a, 's) rbuf outcome" where
  "rbuf_new capacity fr =
     bindo (rbuf_init True True capacity) (\<lambda>b. bindo (derefo b) (\<lambda>buf. rbuf_set_free buf (Some fr)))"

lemma rbuf_new_own:
  fixes fr :: "'a \<Rightarrow> 'b \<Rightarrow> 'b outcome"
  assumes "0 < capacity"
  obtains buf where "rbuf_new capacity fr = Ret buf" "rbuf_own fr buf (nat capacity) [] []"
proof -
  obtain b :: "('a, 'b) rbuf" where b: "rbuf_init True True capacity = Ret (Some b)"
    "rbuf_rep b [] 0 0" "rf_size b = capacity + 1"
    using rbuf_init_rep [OF assms] by metis
  let ?buf = "b\<lparr>rf_free := Some fr\<rparr>"
  have "rbuf_rep ?buf [] 0 0"
    using b(2) by (simp add: rbuf_rep_def)
  then have "rbuf_own fr ?buf (nat capacity) [] []"
    unfolding rbuf_own_def using b(3) assms by (intro exI [of _ "[]"] exI [of _ 0]) simp
  then show ?thesis
    using that [of ?buf] b(1) by (simp add: rbuf_new_def rbuf_set_free_def)
qed

definition rbuf_run ::
    "'a queue_call list \<Rightarrow> ('a, 'a list) rbuf \<Rightarrow> (('a, 'a list) rbuf \<times> 'a list \<times> 'a list \<times> 'a list) outcome"
where
  "rbuf_run cls buf = foldo (queue_do (\<lambda>buf x. rbuf_push buf (Some x)) rbuf_pop rbuf_wait_peak
     rbuf_wait_peak_latest) cls (buf, [], [], [])"

text \<open>
  C7. The life of a pointer ring. For every capacity and every sequence of pushes and takes on a new
  ring, no call trips an assertion, reads out of range or finds a NULL entry; and when the sequence
  runs to its end, the freed entries are a prefix of the accepted ones (each freed once, oldest
  first), the consumer has been handed a subsequence of the accepted entries in order (all of
  them up to the queue, when it never skips to the latest), and \<^verbatim>\<open>rbuf_destroy\<close> then frees every
  accepted entry that is still allocated, so that each accepted entry is freed exactly once.
\<close>
theorem rbuf_life:
  fixes cls :: "'a queue_call list"
  assumes "0 < capacity"
  shows "\<exists>buf. rbuf_new capacity log_free = Ret buf \<and>
    (case rbuf_run cls buf of
       Fault f \<Rightarrow> False
     | Block \<Rightarrow> True
     | Ret (buf', freed, acc, out) \<Rightarrow>
         prefix freed acc \<and> subseq out acc \<and> (Take_Latest \<notin> set cls \<longrightarrow> prefix out acc) \<and>
         (\<exists>rest. rbuf_destroy buf' freed = Ret (freed @ rest) \<and> mset (freed @ rest) = mset acc))"
proof -
  obtain buf :: "('a, 'a list) rbuf" where
    buf: "rbuf_new capacity log_free = Ret buf" "rbuf_own log_free buf (nat capacity) [] []"
    using assms by (rule rbuf_new_own)
  moreover have "rbuf_run cls buf \<noteq> Fault f" for f
    using rbl.run_no_fault [OF buf(2)] by (simp add: rbuf_run_def)
  ultimately show ?thesis
    using rbl.life [OF buf(2), of cls]
    by (auto simp: rbuf_run_def split: outcome.split prod.split)
qed

theorem rbuf_life_witness:
  "\<exists>buf. rbuf_new 2 log_free = Ret buf \<and>
    (\<exists>buf' freed acc out. rbuf_run [Push 1, Push 2, Push (3::nat), Take, Push 4, Take_Latest, Push 5] buf =
         Ret (buf', freed, acc, out) \<and>
       freed = [1, 2, 4] \<and> acc = [1, 2, 4, 5] \<and> out = [1, 4] \<and> prefix freed acc \<and>
       (\<exists>rest. rbuf_destroy buf' freed = Ret (freed @ rest) \<and> mset (freed @ rest) = mset acc))"
proof -
  let ?cls = "[Push 1, Push 2, Push (3::nat), Take, Push 4, Take_Latest, Push 5]"
  have "bindo (rbuf_new 2 log_free) (\<lambda>buf. bindo (rbuf_run ?cls buf) (\<lambda>(b, r). Ret r)) =
      Ret ([1, 2, 4], [1, 2, 4, 5], [1, 4])"
    by code_simp
  then show ?thesis
    using rbuf_life [of 2 ?cls] by (auto simp: bindo_Ret_iff)
qed

text \<open>
  C10. The encoder always gets the newest frame: on a ring that holds a non-empty queue,
  \<^verbatim>\<open>rbuf_wait_peak_latest\<close> returns the most recently pushed entry and leaves it, alone, in the
  queue; the older ones become expired and are the ones the next push frees. On an empty queue the
  call blocks.
\<close>
theorem rbuf_wait_peak_latest_newest:
  assumes "rbuf_own fr buf n e q"
  shows "if q = [] then rbuf_wait_peak_latest buf = Block
    else \<exists>buf'. rbuf_wait_peak_latest buf = Ret (buf', Some (last q)) \<and>
      rbuf_own fr buf' n (e @ butlast q) [last q]"
proof (cases q rule: rev_cases)
  case Nil
  then show ?thesis
    using rb.wait_empty [of fr buf n e] assms by simp
next
  case (snoc q' x)
  then show ?thesis
    using rb.latest_last [of fr buf n e q' x] assms by simp
qed

theorem rbuf_wait_peak_latest_newest_witness:
  "\<exists>buf buf'. rbuf_own log_free buf 3 [] [10, 20, 30::nat] \<and>
     rbuf_wait_peak_latest buf = Ret (buf', Some 30) \<and> rbuf_own log_free buf' 3 [10, 20] [30]"
proof -
  obtain b0 :: "(nat, nat list) rbuf" where "rbuf_own log_free b0 3 [] []"
    using rbuf_new_own [of 3 log_free] by auto
  then obtain b1 :: "(nat, nat list) rbuf" where "rbuf_own log_free b1 3 [] [10]"
    using rb.push_room [of log_free b0 3 "[]" "[]" "[]" "[]" 10] by auto
  then obtain b2 :: "(nat, nat list) rbuf" where "rbuf_own log_free b2 3 [] [10, 20]"
    using rb.push_room [of log_free b1 3 "[]" "[10]" "[]" "[]" 20] by auto
  then obtain b3 :: "(nat, nat list) rbuf" where b3: "rbuf_own log_free b3 3 [] [10, 20, 30]"
    using rb.push_room [of log_free b2 3 "[]" "[10, 20]" "[]" "[]" 30] by auto
  show ?thesis
    using b3 rbuf_wait_peak_latest_newest [OF b3] by auto
qed

text \<open>
  C11. No index computation of the ring overflows a 32-bit \<^verbatim>\<open>int\<close> for any size up to \<open>2\<^sup>30\<close>: in
  every state of a ring the operand of each remainder is non-negative and below \<open>2\<^sup>31\<close>, and the
  used capacity is the number of queued entries and adds up with the free capacity to the capacity.
\<close>
theorem rbuf_index_bounds:
  assumes "rbuf_own fr buf n e q" "rf_size buf \<le> 2 ^ 30"
  shows "rf_head buf - rf_tail buf - 1 + rf_size buf \<in> {0..<2 ^ 31} \<and>
    {rf_head buf..rf_head buf + rf_size buf} \<subseteq> {0..<2 ^ 31} \<and>
    rf_tail buf + 1 \<in> {0..rf_size buf} \<and>
    rbuf_used_capacity buf = int (length q) \<and>
    rbuf_used_capacity buf + rbuf_free_capacity buf = int n"
proof -
  obtain ps c f where own: "rbuf_rep buf ps c f" "rf_size buf = int n + 1" "length q = length ps - c"
    using assms(1) by (rule rbuf_ownE)
  have "0 \<le> rf_head buf \<and> rf_head buf < rf_size buf \<and> 0 \<le> rf_tail buf \<and> rf_tail buf < rf_size buf"
    using own(1) by (auto elim!: rbuf_repE)
  moreover have "rbuf_used_capacity buf = int (length q)"
    using used_capacity_rep [OF own(1)] own(3) by simp
  moreover have "rbuf_used_capacity buf + rbuf_free_capacity buf = int n"
    using own(2) by (simp add: rbuf_free_capacity_def)
  ultimately show ?thesis
    using assms(2) by auto
qed

theorem rbuf_index_bounds_witness:
  "\<exists>buf :: (nat, nat list) rbuf. rbuf_new 255 log_free = Ret buf \<and> rf_size buf \<le> 2 ^ 30 \<and>
     {rf_head buf..rf_head buf + rf_size buf} \<subseteq> {0..<2 ^ 31} \<and> rbuf_free_capacity buf = 255"
proof -
  obtain buf :: "(nat, nat list) rbuf" where
    buf: "rbuf_new 255 log_free = Ret buf" "rbuf_own log_free buf 255 [] []"
    using rbuf_new_own [of 255 log_free] by auto
  moreover have "rf_size buf \<le> 2 ^ 30"
    using buf(2) by (auto elim: rbuf_ownE)
  ultimately show ?thesis
    using rbuf_index_bounds [OF buf(2)] by auto
qed

end
