(* ===== verification/Rbuf_Concurrent.thy ===== *)
theory Rbuf_Concurrent
  imports Rbuf
begin

text \<open>
  The pointer ring of \<open>Rbuf\<close> under its producer and its consumer thread. Each step is one access to
  memory the other thread can write: the producer reads the consumer's \<^verbatim>\<open>tail\<close>, the consumer reads
  the producer's \<^verbatim>\<open>head\<close>, both touch the entries and the semaphore; what only one thread writes
  (the producer's own \<^verbatim>\<open>head\<close>, the consumer's own \<^verbatim>\<open>tail\<close>) is read in the same step. The steps
  follow the statements of \<^verbatim>\<open>rbuf_push\<close>, \<^verbatim>\<open>rbuf_free_expired\<close>, \<^verbatim>\<open>_rbuf_wait\<close>,
  \<^verbatim>\<open>_rbuf_pop_old\<close>, \<^verbatim>\<open>_rbuf_peak\<close> and \<^verbatim>\<open>rbuf_pop\<close>. Memory is sequentially consistent; the
  source uses plain loads and stores and relies on the hardware and the compiler for that.

  Three fields only record history: the entries pushed so far, how many were popped, and the
  entries handed to the free callback, in order.
\<close>

section \<open>Steps\<close>

datatype 'a producer =
    P_Idle
  | P_Capacity 'a       \<comment> \<open>\<^verbatim>\<open>rbuf_push\<close>: compare the free capacity with 0\<close>
  | P_Tail "'a option"       \<comment> \<open>\<^verbatim>\<open>rbuf_free_expired\<close>: load \<^verbatim>\<open>tail\<close>\<close>
  | P_Entry "'a option" int  \<comment> \<open>load \<^verbatim>\<open>entries[tail]\<close>\<close>
  | P_Loop "'a option" int   \<comment> \<open>loop condition\<close>
  | P_Slot "'a option" int   \<comment> \<open>test and free \<^verbatim>\<open>entries[idx]\<close>\<close>
  | P_Clear "'a option" int  \<comment> \<open>store NULL to \<^verbatim>\<open>entries[idx]\<close>\<close>
  | P_Write 'a          \<comment> \<open>store the data to \<^verbatim>\<open>entries[head]\<close>\<close>
  | P_Advance 'a        \<comment> \<open>advance \<^verbatim>\<open>head\<close>\<close>
  | P_Post              \<comment> \<open>\<^verbatim>\<open>sem_post\<close>\<close>

text \<open>\<^verbatim>\<open>rbuf_free_expired\<close> runs inside a push, whose entry is its argument, or is called on its own, as the capture
  module does for every message; it continues accordingly.\<close>

definition after_free :: "'a option \<Rightarrow> 'a producer" where
  "after_free x = (case x of None \<Rightarrow> P_Idle | Some d \<Rightarrow> P_Write d)"

lemma after_free_simps [simp]: "after_free None = P_Idle" "after_free (Some d) = P_Write d"
  by (simp_all add: after_free_def)

text \<open>The consumer's argument is \<open>True\<close> in a call that has waited on the semaphore.\<close>

datatype 'a consumer =
    C_Idle
  | C_Wait bool         \<comment> \<open>\<^verbatim>\<open>_rbuf_wait\<close>: \<^verbatim>\<open>sem_wait\<close>; the flag asks for the latest entry\<close>
  | C_Repost bool       \<comment> \<open>\<^verbatim>\<open>_rbuf_wait\<close>: \<^verbatim>\<open>sem_post\<close>\<close>
  | C_Old bool          \<comment> \<open>\<^verbatim>\<open>_rbuf_pop_old\<close>: loop condition\<close>
  | C_Old_Wait bool     \<comment> \<open>\<^verbatim>\<open>rbuf_pop\<close> in the loop: \<^verbatim>\<open>sem_wait\<close>\<close>
  | C_Old_Assert bool   \<comment> \<open>and its assertion\<close>
  | C_Old_Tail bool     \<comment> \<open>and its advance of \<^verbatim>\<open>tail\<close>\<close>
  | C_Peak bool         \<comment> \<open>\<^verbatim>\<open>_rbuf_peak\<close>: compare the used capacity with 0\<close>
  | C_Fetch             \<comment> \<open>load the entry and assert that it is not NULL\<close>
  | C_Hold 'a           \<comment> \<open>the caller uses the entry\<close>
  | C_Pop_Assert        \<comment> \<open>\<^verbatim>\<open>rbuf_pop\<close> after \<^verbatim>\<open>sem_wait\<close>\<close>
  | C_Pop_Tail

record 'a ring_sys =
  rs_buf :: "('a, unit) rbuf"
  rs_prod :: "'a producer"
  rs_cons :: "'a consumer"
  rs_pushed :: "'a list"
  rs_popped :: nat
  rs_freed :: "'a list"

fun producer_step :: "'a producer \<Rightarrow> 'a ring_sys \<Rightarrow> 'a ring_sys outcome" where
  "producer_step P_Idle \<sigma> = Block"
| "producer_step (P_Capacity x) \<sigma> =
     Ret (\<sigma>\<lparr>rs_prod := if rbuf_free_capacity (rs_buf \<sigma>) = 0 then P_Idle else P_Tail (Some x)\<rparr>)"
| "producer_step (P_Tail x) \<sigma> = Ret (\<sigma>\<lparr>rs_prod := P_Entry x (rf_tail (rs_buf \<sigma>))\<rparr>)"
| "producer_step (P_Entry x t) \<sigma> =
     bindo (rbuf_entry (rs_buf \<sigma>) t) (\<lambda>e.
     Ret (\<sigma>\<lparr>rs_prod := if e \<noteq> None then P_Loop x 1 else after_free x\<rparr>))"
| "producer_step (P_Loop x i) \<sigma> =
     Ret (\<sigma>\<lparr>rs_prod := if i < rf_size (rs_buf \<sigma>) - rbuf_used_capacity (rs_buf \<sigma>)
                      then P_Slot x i else after_free x\<rparr>)"
| "producer_step (P_Slot x i) \<sigma> =
     bindo (rbuf_entry (rs_buf \<sigma>) (c_rem (rf_head (rs_buf \<sigma>) + i) (rf_size (rs_buf \<sigma>)))) (\<lambda>e.
     case e of
       None \<Rightarrow> Ret (\<sigma>\<lparr>rs_prod := P_Loop x (i + 1)\<rparr>)
     | Some d \<Rightarrow> Ret (\<sigma>\<lparr>rs_prod := P_Clear x i, rs_freed := rs_freed \<sigma> @ [d]\<rparr>))"
| "producer_step (P_Clear x i) \<sigma> =
     bindo (rbuf_set_entry (rs_buf \<sigma>) (c_rem (rf_head (rs_buf \<sigma>) + i) (rf_size (rs_buf \<sigma>))) None) (\<lambda>b.
     Ret (\<sigma>\<lparr>rs_prod := P_Loop x (i + 1), rs_buf := b\<rparr>))"
| "producer_step (P_Write x) \<sigma> =
     bindo (rbuf_set_entry (rs_buf \<sigma>) (rf_head (rs_buf \<sigma>)) (Some x)) (\<lambda>b.
     Ret (\<sigma>\<lparr>rs_prod := P_Advance x, rs_buf := b\<rparr>))"
| "producer_step (P_Advance x) \<sigma> =
     Ret (\<sigma>\<lparr>rs_prod := P_Post, rs_pushed := rs_pushed \<sigma> @ [x],
            rs_buf := (rs_buf \<sigma>)\<lparr>rf_head := c_rem (rf_head (rs_buf \<sigma>) + 1) (rf_size (rs_buf \<sigma>))\<rparr>\<rparr>)"
| "producer_step P_Post \<sigma> = Ret (\<sigma>\<lparr>rs_prod := P_Idle, rs_buf := sem_post (rs_buf \<sigma>)\<rparr>)"

definition assert_used :: "'a ring_sys \<Rightarrow> 'a consumer \<Rightarrow> 'a ring_sys outcome" where
  "assert_used \<sigma> cp =
     bindo (asserto (rbuf_used_capacity (rs_buf \<sigma>) > 0)) (\<lambda>_. Ret (\<sigma>\<lparr>rs_cons := cp\<rparr>))"

definition advance_tail :: "'a ring_sys \<Rightarrow> 'a consumer \<Rightarrow> 'a ring_sys" where
  "advance_tail \<sigma> cp =
     \<sigma>\<lparr>rs_cons := cp, rs_popped := Suc (rs_popped \<sigma>),
       rs_buf := (rs_buf \<sigma>)\<lparr>rf_tail := c_rem (rf_tail (rs_buf \<sigma>) + 1) (rf_size (rs_buf \<sigma>))\<rparr>\<rparr>"

definition wait_then :: "'a ring_sys \<Rightarrow> 'a consumer \<Rightarrow> 'a ring_sys outcome" where
  "wait_then \<sigma> cp = bindo (sem_wait (rs_buf \<sigma>)) (\<lambda>b. Ret (\<sigma>\<lparr>rs_cons := cp, rs_buf := b\<rparr>))"

fun consumer_step :: "'a consumer \<Rightarrow> 'a ring_sys \<Rightarrow> 'a ring_sys outcome" where
  "consumer_step C_Idle \<sigma> = Block"
| "consumer_step (C_Wait l) \<sigma> = wait_then \<sigma> (C_Repost l)"
| "consumer_step (C_Repost l) \<sigma> =
     Ret (\<sigma>\<lparr>rs_cons := if l then C_Old True else C_Peak True, rs_buf := sem_post (rs_buf \<sigma>)\<rparr>)"
| "consumer_step (C_Old w) \<sigma> =
     Ret (\<sigma>\<lparr>rs_cons := if rbuf_used_capacity (rs_buf \<sigma>) > 1 then C_Old_Wait w else C_Peak w\<rparr>)"
| "consumer_step (C_Old_Wait w) \<sigma> = wait_then \<sigma> (C_Old_Assert w)"
| "consumer_step (C_Old_Assert w) \<sigma> = assert_used \<sigma> (C_Old_Tail w)"
| "consumer_step (C_Old_Tail w) \<sigma> = Ret (advance_tail \<sigma> (C_Old w))"
| "consumer_step (C_Peak w) \<sigma> =
     (if rbuf_used_capacity (rs_buf \<sigma>) = 0
      then bindo (asserto (\<not> w)) (\<lambda>_. Ret (\<sigma>\<lparr>rs_cons := C_Idle\<rparr>))
      else Ret (\<sigma>\<lparr>rs_cons := C_Fetch\<rparr>))"
| "consumer_step C_Fetch \<sigma> =
     bindo (rbuf_entry (rs_buf \<sigma>) (c_rem (rf_tail (rs_buf \<sigma>) + 1) (rf_size (rs_buf \<sigma>)))) (\<lambda>e.
     case e of None \<Rightarrow> Fault Assert_Failed | Some d \<Rightarrow> Ret (\<sigma>\<lparr>rs_cons := C_Hold d\<rparr>))"
| "consumer_step (C_Hold d) \<sigma> = wait_then \<sigma> C_Pop_Assert"
| "consumer_step C_Pop_Assert \<sigma> = assert_used \<sigma> C_Pop_Tail"
| "consumer_step C_Pop_Tail \<sigma> = Ret (advance_tail \<sigma> C_Idle)"

text \<open>
  The threads: an idle producer may start a push or call \<^verbatim>\<open>rbuf_free_expired\<close>; an idle consumer may start a waiting or a
  non-waiting peak, of the next or the latest entry; a consumer that holds an entry may also drop
  the pointer and peak again later (as the encoder does when it has no client).
\<close>

inductive ring_step :: "'a ring_sys \<Rightarrow> 'a ring_sys outcome \<Rightarrow> bool" where
  push: "rs_prod \<sigma> = P_Idle \<Longrightarrow> ring_step \<sigma> (Ret (\<sigma>\<lparr>rs_prod := P_Capacity x\<rparr>))"
| free_expired: "rs_prod \<sigma> = P_Idle \<Longrightarrow> ring_step \<sigma> (Ret (\<sigma>\<lparr>rs_prod := P_Tail None\<rparr>))"
| produce: "producer_step (rs_prod \<sigma>) \<sigma> = r \<Longrightarrow> r \<noteq> Block \<Longrightarrow> ring_step \<sigma> r"
| wait_peak: "rs_cons \<sigma> = C_Idle \<Longrightarrow> ring_step \<sigma> (Ret (\<sigma>\<lparr>rs_cons := C_Wait l\<rparr>))"
| try_peak: "rs_cons \<sigma> = C_Idle \<Longrightarrow>
    ring_step \<sigma> (Ret (\<sigma>\<lparr>rs_cons := if l then C_Old False else C_Peak False\<rparr>))"
| drop_entry: "rs_cons \<sigma> = C_Hold d \<Longrightarrow> ring_step \<sigma> (Ret (\<sigma>\<lparr>rs_cons := C_Idle\<rparr>))"
| consume: "consumer_step (rs_cons \<sigma>) \<sigma> = r \<Longrightarrow> r \<noteq> Block \<Longrightarrow> ring_step \<sigma> r"

definition ring_sys_init :: "('a, unit) rbuf \<Rightarrow> 'a ring_sys" where
  "ring_sys_init buf = \<lparr>rs_buf = buf, rs_prod = P_Idle, rs_cons = C_Idle, rs_pushed = [],
     rs_popped = 0, rs_freed = []\<rparr>"

inductive ring_reach :: "int \<Rightarrow> 'a ring_sys outcome \<Rightarrow> bool" for capacity where
  init: "rbuf_new capacity (\<lambda>_ _. Ret ()) = Ret buf \<Longrightarrow> ring_reach capacity (Ret (ring_sys_init buf))"
| step: "ring_reach capacity (Ret \<sigma>) \<Longrightarrow> ring_step \<sigma> r \<Longrightarrow> ring_reach capacity r"

inductive_cases ring_stepE: "ring_step \<sigma> r"

section \<open>Invariant\<close>

text \<open>The entry already stored at \<^verbatim>\<open>head\<close>, the freed entries whose slot is not cleared yet, and the
  posts each thread still owes the semaphore.\<close>

fun p_written :: "'a producer \<Rightarrow> 'a list" where
  "p_written (P_Advance x) = [x]"
| "p_written _ = []"

fun p_freeing :: "'a producer \<Rightarrow> nat" where
  "p_freeing (P_Clear x i) = 1"
| "p_freeing _ = 0"

fun p_owes :: "'a producer \<Rightarrow> nat" where
  "p_owes P_Post = 1"
| "p_owes _ = 0"

lemma after_free_history [simp]:
  "p_written (after_free x) = []" "p_freeing (after_free x) = 0" "p_owes (after_free x) = 0"
  by (cases x; simp)+

fun c_owes :: "'a consumer \<Rightarrow> nat" where
  "c_owes (C_Repost l) = 1"
| "c_owes (C_Old_Assert w) = 1"
| "c_owes (C_Old_Tail w) = 1"
| "c_owes C_Pop_Assert = 1"
| "c_owes C_Pop_Tail = 1"
| "c_owes _ = 0"

text \<open>What the producer knows: \<open>p\<close> pushed, \<open>c\<close> popped, \<open>f\<close> freed and cleared, \<open>n\<close> slots.\<close>

fun p_inv :: "nat \<Rightarrow> nat \<Rightarrow> nat \<Rightarrow> nat \<Rightarrow> 'a producer \<Rightarrow> bool" where
  "p_inv n p c f (P_Tail x) \<longleftrightarrow> (x \<noteq> None \<longrightarrow> p + 1 < c + n)"
| "p_inv n p c f (P_Entry x t) \<longleftrightarrow>
     (\<exists>c0. t = int ((c0 + n - 1) mod n) \<and> f \<le> c0 \<and> c0 \<le> c \<and> p < c0 + n \<and> (x \<noteq> None \<longrightarrow> p + 1 < c0 + n))"
| "p_inv n p c f (P_Loop x i) \<longleftrightarrow> p + 1 < c + n \<and> 1 \<le> i \<and> int p + i \<le> int f + int n"
| "p_inv n p c f (P_Slot x i) \<longleftrightarrow>
     p + 1 < c + n \<and> 1 \<le> i \<and> int p + i \<le> int f + int n \<and> int p + i < int c + int n"
| "p_inv n p c f (P_Clear x i) \<longleftrightarrow>
     p + 1 < c + n \<and> 1 \<le> i \<and> int p + i = int f + int n \<and> f < c"
| "p_inv n p c f (P_Write x) \<longleftrightarrow> p + 1 < f + n"
| "p_inv n p c f (P_Advance x) \<longleftrightarrow> p + 1 < f + n"
| "p_inv n p c f _ \<longleftrightarrow> True"

fun c_inv :: "'a list \<Rightarrow> nat \<Rightarrow> 'a consumer \<Rightarrow> bool" where
  "c_inv ps c (C_Repost l) \<longleftrightarrow> c < length ps"
| "c_inv ps c (C_Old w) \<longleftrightarrow> (w \<longrightarrow> c < length ps)"
| "c_inv ps c (C_Old_Wait w) \<longleftrightarrow> c + 1 < length ps"
| "c_inv ps c (C_Old_Assert w) \<longleftrightarrow> c + 1 < length ps"
| "c_inv ps c (C_Old_Tail w) \<longleftrightarrow> c + 1 < length ps"
| "c_inv ps c (C_Peak w) \<longleftrightarrow> (w \<longrightarrow> c < length ps)"
| "c_inv ps c C_Fetch \<longleftrightarrow> c < length ps"
| "c_inv ps c (C_Hold d) \<longleftrightarrow> c < length ps \<and> d = ps ! c"
| "c_inv ps c C_Pop_Assert \<longleftrightarrow> c < length ps"
| "c_inv ps c C_Pop_Tail \<longleftrightarrow> c < length ps"
| "c_inv ps c _ \<longleftrightarrow> True"

text \<open>The shared memory, for \<open>p\<close> entries published (head), \<open>c\<close> popped (tail), \<open>ps\<close> stored and \<open>f\<close>
  cleared.\<close>

definition shared_rep :: "nat \<Rightarrow> ('a, 's) rbuf \<Rightarrow> 'a list \<Rightarrow> nat \<Rightarrow> nat \<Rightarrow> nat \<Rightarrow> bool" where
  "shared_rep n buf ps p c f \<longleftrightarrow> 1 < n \<and> rf_size buf = int n \<and> rf_head buf = int (p mod n) \<and>
     rf_tail buf = int ((c + n - 1) mod n) \<and> slots_rep n (rf_entries buf) ps f"

definition ring_sys_inv :: "nat \<Rightarrow> 'a ring_sys \<Rightarrow> bool" where
  "ring_sys_inv n \<sigma> \<longleftrightarrow>
     (\<exists>f. length (rs_freed \<sigma>) = f + p_freeing (rs_prod \<sigma>) \<and>
        shared_rep n (rs_buf \<sigma>) (rs_pushed \<sigma> @ p_written (rs_prod \<sigma>)) (length (rs_pushed \<sigma>))
          (rs_popped \<sigma>) f \<and>
        p_inv n (length (rs_pushed \<sigma>)) (rs_popped \<sigma>) f (rs_prod \<sigma>)) \<and>
     prefix (rs_freed \<sigma>) (rs_pushed \<sigma>) \<and> length (rs_freed \<sigma>) \<le> rs_popped \<sigma> \<and>
     rs_popped \<sigma> \<le> length (rs_pushed \<sigma>) \<and> length (rs_pushed \<sigma>) < rs_popped \<sigma> + n \<and>
     rf_sem (rs_buf \<sigma>) + p_owes (rs_prod \<sigma>) + c_owes (rs_cons \<sigma>) =
       length (rs_pushed \<sigma>) - rs_popped \<sigma> \<and>
     c_inv (rs_pushed \<sigma>) (rs_popped \<sigma>) (rs_cons \<sigma>)"

lemma shared_used:
  assumes "shared_rep n buf ps p c f" "c \<le> p" "p < c + n"
  shows "rbuf_used_capacity buf = int (p - c)" "rbuf_free_capacity buf = int n - int (p - c) - 1"
  using assms ring_distance [of n c p]
  by (simp_all add: shared_rep_def rbuf_used_capacity_def rbuf_free_capacity_def)

lemma shared_entry:
  assumes "shared_rep n buf ps p c f" "f \<le> k" "k < f + n"
  shows "rbuf_entry buf (int (k mod n)) = Ret (if k < length ps then Some (ps ! k) else None)"
  using assms slots_repD(1) [of n "rf_entries buf" ps f] slots_repD(4) [of n "rf_entries buf" ps f k]
  by (auto simp: shared_rep_def rbuf_entry_slot [OF refl])

lemma shared_head_slot:
  assumes "shared_rep n buf ps p c f" "0 \<le> i"
  shows "c_rem (rf_head buf + i) (rf_size buf) = int ((p + nat i) mod n)"
  using assms c_rem_slot [of n p "nat i"] by (simp add: shared_rep_def)

lemma shared_tail_slot:
  assumes "shared_rep n buf ps p c f"
  shows "c_rem (rf_tail buf + 1) (rf_size buf) = int (c mod n)"
  using assms c_rem_slot [of n "c + n - 1" 1] by (simp add: shared_rep_def)

lemma shared_clear:
  assumes "shared_rep n buf ps p c f" "f < length ps"
  obtains buf' where "rbuf_set_entry buf (int (f mod n)) None = Ret buf'"
    "shared_rep n buf' ps p c (Suc f)" "rf_sem buf' = rf_sem buf"
proof
  let ?buf = "buf\<lparr>rf_entries := (rf_entries buf)[f mod n := None]\<rparr>"
  show "rbuf_set_entry buf (int (f mod n)) None = Ret ?buf"
    using assms(1) slots_repD(1) [of n "rf_entries buf" ps f]
    by (auto simp: shared_rep_def rbuf_set_entry_def)
  show "shared_rep n ?buf ps p c (Suc f)" "rf_sem ?buf = rf_sem buf"
    using assms slots_rep_free by (auto simp: shared_rep_def)
qed

lemma shared_store:
  assumes "shared_rep n buf ps (length ps) c f" "length ps + 1 < f + n"
  obtains buf' where "rbuf_set_entry buf (rf_head buf) (Some x) = Ret buf'"
    "shared_rep n buf' (ps @ [x]) (length ps) c f" "rf_sem buf' = rf_sem buf"
proof
  let ?buf = "buf\<lparr>rf_entries := (rf_entries buf)[length ps mod n := Some x]\<rparr>"
  show "rbuf_set_entry buf (rf_head buf) (Some x) = Ret ?buf"
    using assms(1) slots_repD(1) [of n "rf_entries buf" ps f]
    by (auto simp: shared_rep_def rbuf_set_entry_def)
  show "shared_rep n ?buf (ps @ [x]) (length ps) c f" "rf_sem ?buf = rf_sem buf"
    using assms slots_rep_push by (auto simp: shared_rep_def)
qed

lemma shared_rep_sem [simp]: "shared_rep n (buf\<lparr>rf_sem := m\<rparr>) ps p c f = shared_rep n buf ps p c f"
  by (simp add: shared_rep_def)

lemma shared_rep_advance:
  assumes "shared_rep n buf ps p c f"
  shows "shared_rep n (buf\<lparr>rf_head := c_rem (rf_head buf + 1) (rf_size buf)\<rparr>) ps (Suc p) c f"
    and "shared_rep n (buf\<lparr>rf_tail := c_rem (rf_tail buf + 1) (rf_size buf)\<rparr>) ps p (Suc c) f"
  using assms shared_head_slot [OF assms, of 1] shared_tail_slot [OF assms]
  by (simp_all add: shared_rep_def)

lemma p_inv_mono: "p_inv n p c f pc \<Longrightarrow> c \<le> c' \<Longrightarrow> p_inv n p c' f pc"
  by (cases pc) auto

lemma c_inv_mono: "c_inv ps c pc \<Longrightarrow> c_inv (ps @ [x]) c pc"
  by (cases pc) (auto simp: nth_append)

lemma ring_sys_invE:
  assumes "ring_sys_inv n \<sigma>"
  obtains f where "length (rs_freed \<sigma>) = f + p_freeing (rs_prod \<sigma>)"
    "shared_rep n (rs_buf \<sigma>) (rs_pushed \<sigma> @ p_written (rs_prod \<sigma>)) (length (rs_pushed \<sigma>)) (rs_popped \<sigma>) f"
    "p_inv n (length (rs_pushed \<sigma>)) (rs_popped \<sigma>) f (rs_prod \<sigma>)"
    "prefix (rs_freed \<sigma>) (rs_pushed \<sigma>)" "length (rs_freed \<sigma>) \<le> rs_popped \<sigma>"
    "rs_popped \<sigma> \<le> length (rs_pushed \<sigma>)" "length (rs_pushed \<sigma>) < rs_popped \<sigma> + n"
    "rf_sem (rs_buf \<sigma>) + p_owes (rs_prod \<sigma>) + c_owes (rs_cons \<sigma>) = length (rs_pushed \<sigma>) - rs_popped \<sigma>"
    "c_inv (rs_pushed \<sigma>) (rs_popped \<sigma>) (rs_cons \<sigma>)"
  using assms by (auto simp: ring_sys_inv_def)


section \<open>Every step keeps the invariant\<close>

definition step_ok :: "nat \<Rightarrow> 'a ring_sys outcome \<Rightarrow> bool" where
  "step_ok n r = (case r of Ret \<sigma> \<Rightarrow> ring_sys_inv n \<sigma> | Fault _ \<Rightarrow> False | Block \<Rightarrow> True)"

lemma step_ok_simps [simp]:
  "step_ok n (Ret \<sigma>) = ring_sys_inv n \<sigma>" "step_ok n (Fault e) = False" "step_ok n Block = True"
  by (simp_all add: step_ok_def)

lemma p_capacity_kept:
  assumes "ring_sys_inv n \<sigma>" "rs_prod \<sigma> = P_Capacity x"
  shows "step_ok n (producer_step (P_Capacity x) \<sigma>)"
  using assms(1)
proof (rule ring_sys_invE)
  fix f
  assume inv: "shared_rep n (rs_buf \<sigma>) (rs_pushed \<sigma> @ p_written (rs_prod \<sigma>)) (length (rs_pushed \<sigma>))
      (rs_popped \<sigma>) f" "rs_popped \<sigma> \<le> length (rs_pushed \<sigma>)" "length (rs_pushed \<sigma>) < rs_popped \<sigma> + n"
  show ?thesis
    using assms shared_used(2) [OF inv] inv(2,3) by (auto simp: ring_sys_inv_def)
qed

lemma p_entry_kept:
  assumes "ring_sys_inv n \<sigma>" "rs_prod \<sigma> = P_Entry x t"
  shows "step_ok n (producer_step (P_Entry x t) \<sigma>)"
  using assms(1)
proof (rule ring_sys_invE)
  fix f
  let ?p = "length (rs_pushed \<sigma>)"
  assume f: "length (rs_freed \<sigma>) = f + p_freeing (rs_prod \<sigma>)"
    and sh: "shared_rep n (rs_buf \<sigma>) (rs_pushed \<sigma> @ p_written (rs_prod \<sigma>)) ?p (rs_popped \<sigma>) f"
    and p: "p_inv n ?p (rs_popped \<sigma>) f (rs_prod \<sigma>)"
    and b: "rs_popped \<sigma> \<le> ?p" "length (rs_freed \<sigma>) \<le> rs_popped \<sigma>"
  obtain c0 where c0: "t = int ((c0 + n - 1) mod n)" "f \<le> c0" "c0 \<le> rs_popped \<sigma>" "?p < c0 + n" "x \<noteq> None \<longrightarrow> ?p + 1 < c0 + n"
    using p assms(2) by auto
  have n: "1 < n" "?p < f + n"
    using sh by (auto simp: shared_rep_def slots_rep_def)
  have e: "rbuf_entry (rs_buf \<sigma>) t = Ret (if f < c0 then Some (rs_pushed \<sigma> ! (c0 - 1)) else None)"
  proof (cases "f < c0")
    case True
    then have "(c0 + n - 1) mod n = (c0 - 1) mod n"
      using mod_add_self2 [of "c0 - 1" n] by simp
    then show ?thesis
      using True shared_entry [OF sh, of "c0 - 1"] c0 n b assms(2) by simp
  next
    case False
    then show ?thesis
      using shared_entry [OF sh, of "c0 + n - 1"] c0 n assms(2) by simp
  qed
  have "p_inv n ?p (rs_popped \<sigma>) f (if f < c0 then P_Loop x 1 else after_free x)"
    using c0 n by (cases x) auto
  then show ?thesis
    using assms e sh f by (auto simp: ring_sys_inv_def)
qed

lemma p_loop_kept:
  assumes "ring_sys_inv n \<sigma>" "rs_prod \<sigma> = P_Loop x i"
  shows "step_ok n (producer_step (P_Loop x i) \<sigma>)"
  using assms(1)
proof (rule ring_sys_invE)
  fix f
  let ?p = "length (rs_pushed \<sigma>)"
  assume f: "length (rs_freed \<sigma>) = f + p_freeing (rs_prod \<sigma>)"
    and sh: "shared_rep n (rs_buf \<sigma>) (rs_pushed \<sigma> @ p_written (rs_prod \<sigma>)) ?p (rs_popped \<sigma>) f"
    and p: "p_inv n ?p (rs_popped \<sigma>) f (rs_prod \<sigma>)"
    and b: "rs_popped \<sigma> \<le> ?p" "?p < rs_popped \<sigma> + n" "length (rs_freed \<sigma>) \<le> rs_popped \<sigma>"
  have size: "rf_size (rs_buf \<sigma>) = int n"
    using sh by (simp add: shared_rep_def)
  have "p_inv n ?p (rs_popped \<sigma>) f (if i < int n - int (?p - rs_popped \<sigma>) then P_Slot x i else after_free x)"
    using p assms(2) b f by (cases x) (auto simp: of_nat_diff)
  then show ?thesis
    using assms shared_used(1) [OF sh b(1,2)] size sh f by (auto simp: ring_sys_inv_def)
qed

lemma p_slot_kept:
  assumes "ring_sys_inv n \<sigma>" "rs_prod \<sigma> = P_Slot x i"
  shows "step_ok n (producer_step (P_Slot x i) \<sigma>)"
  using assms(1)
proof (rule ring_sys_invE)
  fix f
  let ?p = "length (rs_pushed \<sigma>)" and ?c = "rs_popped \<sigma>"
  assume f: "length (rs_freed \<sigma>) = f + p_freeing (rs_prod \<sigma>)"
    and sh: "shared_rep n (rs_buf \<sigma>) (rs_pushed \<sigma> @ p_written (rs_prod \<sigma>)) ?p ?c f"
    and p: "p_inv n ?p ?c f (rs_prod \<sigma>)"
    and fr: "prefix (rs_freed \<sigma>) (rs_pushed \<sigma>)"
    and b: "?c \<le> ?p" "?p < ?c + n" "length (rs_freed \<sigma>) \<le> ?c"
  have i: "0 \<le> i" "nat i \<ge> 1" "?p + nat i \<le> f + n" "?p + nat i < ?c + n" "int ?p + i = int (?p + nat i)"
    using p assms(2) by auto
  have f': "length (rs_freed \<sigma>) = f" "f \<le> ?p"
    using f assms(2) b by auto
  show ?thesis
  proof (cases "?p + nat i = f + n")
    case True
    then have "f < ?p" "f < ?c"
      using i b by auto
    then have "rbuf_entry (rs_buf \<sigma>) (c_rem (rf_head (rs_buf \<sigma>) + i) (rf_size (rs_buf \<sigma>))) =
        Ret (Some (rs_pushed \<sigma> ! f))"
      using shared_head_slot [OF sh i(1)] shared_entry [OF sh, of f] True b(1,2) assms(2) by simp
    moreover have "prefix (rs_freed \<sigma> @ [rs_pushed \<sigma> ! f]) (rs_pushed \<sigma>)"
      using append_one_prefix [OF fr] f'(1) \<open>f < ?p\<close> by simp
    moreover have "p_inv n ?p ?c f (P_Clear x i)"
      using p assms(2) \<open>f < ?c\<close> True i(5) by simp
    ultimately show ?thesis
      using assms sh f' \<open>f < ?c\<close> \<open>f < ?p\<close> by (auto simp: ring_sys_inv_def)
  next
    case False
    then have lt: "?p + nat i < f + n"
      using i by simp
    then have "rbuf_entry (rs_buf \<sigma>) (c_rem (rf_head (rs_buf \<sigma>) + i) (rf_size (rs_buf \<sigma>))) = Ret None"
      using shared_head_slot [OF sh i(1)] shared_entry [OF sh, of "?p + nat i"] f'(2) i(2) assms(2)
      by simp
    moreover have "int ?p + i < int f + int n"
      using lt i(1) by linarith
    then have "p_inv n ?p ?c f (P_Loop x (i + 1))"
      using p assms(2) by simp
    ultimately show ?thesis
      using assms sh f' by (auto simp: ring_sys_inv_def)
  qed
qed

lemma p_clear_kept:
  assumes "ring_sys_inv n \<sigma>" "rs_prod \<sigma> = P_Clear x i"
  shows "step_ok n (producer_step (P_Clear x i) \<sigma>)"
  using assms(1)
proof (rule ring_sys_invE)
  fix f
  let ?p = "length (rs_pushed \<sigma>)" and ?c = "rs_popped \<sigma>"
  assume f: "length (rs_freed \<sigma>) = f + p_freeing (rs_prod \<sigma>)"
    and sh: "shared_rep n (rs_buf \<sigma>) (rs_pushed \<sigma> @ p_written (rs_prod \<sigma>)) ?p ?c f"
    and p: "p_inv n ?p ?c f (rs_prod \<sigma>)" and b: "?c \<le> ?p"
  have i: "0 \<le> i" "?p + nat i = f + n" "f < length (rs_pushed \<sigma> @ p_written (rs_prod \<sigma>))"
    using p assms(2) b by auto
  then have slot: "c_rem (rf_head (rs_buf \<sigma>) + i) (rf_size (rs_buf \<sigma>)) = int (f mod n)"
    using shared_head_slot [OF sh i(1)] by simp
  obtain buf' where buf': "rbuf_set_entry (rs_buf \<sigma>) (int (f mod n)) None = Ret buf'"
    "shared_rep n buf' (rs_pushed \<sigma> @ p_written (rs_prod \<sigma>)) ?p ?c (Suc f)"
    "rf_sem buf' = rf_sem (rs_buf \<sigma>)"
    using shared_clear [OF sh i(3)] .
  moreover have "p_inv n ?p ?c (Suc f) (P_Loop x (i + 1))"
    using p assms(2) by simp
  ultimately show ?thesis
    using assms slot f by (auto simp: ring_sys_inv_def)
qed

lemma p_write_kept:
  assumes "ring_sys_inv n \<sigma>" "rs_prod \<sigma> = P_Write x"
  shows "step_ok n (producer_step (P_Write x) \<sigma>)"
  using assms(1)
proof (rule ring_sys_invE)
  fix f
  let ?p = "length (rs_pushed \<sigma>)" and ?c = "rs_popped \<sigma>"
  assume f: "length (rs_freed \<sigma>) = f + p_freeing (rs_prod \<sigma>)"
    and sh: "shared_rep n (rs_buf \<sigma>) (rs_pushed \<sigma> @ p_written (rs_prod \<sigma>)) ?p ?c f"
    and p: "p_inv n ?p ?c f (rs_prod \<sigma>)"
  have "shared_rep n (rs_buf \<sigma>) (rs_pushed \<sigma>) ?p ?c f" "?p + 1 < f + n"
    using sh p assms(2) by simp_all
  from shared_store [OF this] obtain buf' where
    "rbuf_set_entry (rs_buf \<sigma>) (rf_head (rs_buf \<sigma>)) (Some x) = Ret buf'"
    "shared_rep n buf' (rs_pushed \<sigma> @ [x]) ?p ?c f" "rf_sem buf' = rf_sem (rs_buf \<sigma>)" .
  then show ?thesis
    using assms f p by (auto simp: ring_sys_inv_def)
qed

lemma p_advance_kept:
  assumes "ring_sys_inv n \<sigma>" "rs_prod \<sigma> = P_Advance x"
  shows "step_ok n (producer_step (P_Advance x) \<sigma>)"
  using assms(1)
proof (rule ring_sys_invE)
  fix f
  let ?p = "length (rs_pushed \<sigma>)" and ?c = "rs_popped \<sigma>"
  assume f: "length (rs_freed \<sigma>) = f + p_freeing (rs_prod \<sigma>)"
    and sh: "shared_rep n (rs_buf \<sigma>) (rs_pushed \<sigma> @ p_written (rs_prod \<sigma>)) ?p ?c f"
    and p: "p_inv n ?p ?c f (rs_prod \<sigma>)"
    and b: "length (rs_freed \<sigma>) \<le> ?c" "?c \<le> ?p"
    and fr: "prefix (rs_freed \<sigma>) (rs_pushed \<sigma>)"
    and c: "c_inv (rs_pushed \<sigma>) ?c (rs_cons \<sigma>)"
  have "shared_rep n (rs_buf \<sigma>) (rs_pushed \<sigma> @ [x]) ?p ?c f"
    using sh assms(2) by simp
  then have "shared_rep n ((rs_buf \<sigma>)\<lparr>rf_head := c_rem (rf_head (rs_buf \<sigma>) + 1) (rf_size (rs_buf \<sigma>))\<rparr>)
      (rs_pushed \<sigma> @ [x]) (Suc ?p) ?c f"
    by (rule shared_rep_advance)
  moreover have "prefix (rs_freed \<sigma>) (rs_pushed \<sigma> @ [x])"
    using fr by (rule prefix_prefix)
  ultimately show ?thesis
    using assms f p c_inv_mono [OF c, of x] b by (auto simp: ring_sys_inv_def Suc_diff_le)
qed

lemma producer_kept:
  assumes "ring_sys_inv n \<sigma>"
  shows "step_ok n (producer_step (rs_prod \<sigma>) \<sigma>)"
proof (cases "rs_prod \<sigma>")
  case (P_Tail x)
  with assms show ?thesis
    by (fastforce simp: ring_sys_inv_def shared_rep_def)
next
  case P_Post
  with assms show ?thesis
    by (auto simp: ring_sys_inv_def sem_post_def)
qed (use assms in \<open>auto intro: p_capacity_kept p_entry_kept p_loop_kept p_slot_kept p_clear_kept
  p_write_kept p_advance_kept simp del: producer_step.simps(2-)\<close>)


text \<open>A consumer step that leaves the shared memory alone, or only takes from the semaphore.\<close>

lemma cons_change:
  assumes "ring_sys_inv n \<sigma>" "c_owes cp = c_owes (rs_cons \<sigma>)" "c_inv (rs_pushed \<sigma>) (rs_popped \<sigma>) cp"
  shows "ring_sys_inv n (\<sigma>\<lparr>rs_cons := cp\<rparr>)"
  using assms by (simp add: ring_sys_inv_def)

lemma wait_then_kept:
  assumes "ring_sys_inv n \<sigma>" "c_owes (rs_cons \<sigma>) = 0" "c_owes cp = 1"
    "rs_popped \<sigma> < length (rs_pushed \<sigma>) \<Longrightarrow> c_inv (rs_pushed \<sigma>) (rs_popped \<sigma>) cp"
  shows "step_ok n (wait_then \<sigma> cp)"
  using assms by (auto simp: wait_then_def sem_wait_def ring_sys_inv_def)

lemma assert_used_kept:
  assumes "ring_sys_inv n \<sigma>" "rs_popped \<sigma> < length (rs_pushed \<sigma>)" "c_owes cp = c_owes (rs_cons \<sigma>)"
    "c_inv (rs_pushed \<sigma>) (rs_popped \<sigma>) cp"
  shows "step_ok n (assert_used \<sigma> cp)"
  using assms(1)
proof (rule ring_sys_invE)
  fix f
  assume inv: "shared_rep n (rs_buf \<sigma>) (rs_pushed \<sigma> @ p_written (rs_prod \<sigma>)) (length (rs_pushed \<sigma>))
      (rs_popped \<sigma>) f" "rs_popped \<sigma> \<le> length (rs_pushed \<sigma>)" "length (rs_pushed \<sigma>) < rs_popped \<sigma> + n"
  show ?thesis
    using shared_used(1) [OF inv] assms cons_change [OF assms(1,3,4)] by (simp add: assert_used_def)
qed

lemma advance_tail_kept:
  assumes "ring_sys_inv n \<sigma>" "rs_popped \<sigma> < length (rs_pushed \<sigma>)" "c_owes (rs_cons \<sigma>) = 1"
    "c_owes cp = 0" "c_inv (rs_pushed \<sigma>) (Suc (rs_popped \<sigma>)) cp"
  shows "ring_sys_inv n (advance_tail \<sigma> cp)"
  using assms(1)
proof (rule ring_sys_invE)
  fix f
  let ?p = "length (rs_pushed \<sigma>)" and ?c = "rs_popped \<sigma>"
  assume f: "length (rs_freed \<sigma>) = f + p_freeing (rs_prod \<sigma>)"
    and sh: "shared_rep n (rs_buf \<sigma>) (rs_pushed \<sigma> @ p_written (rs_prod \<sigma>)) ?p ?c f"
    and p: "p_inv n ?p ?c f (rs_prod \<sigma>)"
  have "p_inv n ?p (Suc ?c) f (rs_prod \<sigma>)"
    using p by (rule p_inv_mono) simp
  then show ?thesis
    using assms f shared_rep_advance(2) [OF sh] by (auto simp: advance_tail_def ring_sys_inv_def)
qed

lemma c_fetch_kept:
  assumes "ring_sys_inv n \<sigma>" "rs_cons \<sigma> = C_Fetch"
  shows "step_ok n (consumer_step C_Fetch \<sigma>)"
  using assms(1)
proof (rule ring_sys_invE)
  fix f
  let ?p = "length (rs_pushed \<sigma>)" and ?c = "rs_popped \<sigma>"
  assume f: "length (rs_freed \<sigma>) = f + p_freeing (rs_prod \<sigma>)" "length (rs_freed \<sigma>) \<le> ?c"
    and sh: "shared_rep n (rs_buf \<sigma>) (rs_pushed \<sigma> @ p_written (rs_prod \<sigma>)) ?p ?c f"
    and c: "c_inv (rs_pushed \<sigma>) ?c (rs_cons \<sigma>)"
  have lt: "?c < ?p" "f \<le> ?c" "?c < f + n"
    using f c assms(2) sh by (auto simp: shared_rep_def slots_rep_def)
  have "rbuf_entry (rs_buf \<sigma>) (int (?c mod n)) = Ret (Some (rs_pushed \<sigma> ! ?c))"
    using shared_entry [OF sh lt(2,3)] lt(1) by (simp add: nth_append)
  then show ?thesis
    using assms shared_tail_slot [OF sh] lt(1) by (simp add: cons_change)
qed

lemma consumer_kept:
  assumes "ring_sys_inv n \<sigma>"
  shows "step_ok n (consumer_step (rs_cons \<sigma>) \<sigma>)"
  using assms
proof (rule ring_sys_invE)
  fix f
  assume inv: "shared_rep n (rs_buf \<sigma>) (rs_pushed \<sigma> @ p_written (rs_prod \<sigma>)) (length (rs_pushed \<sigma>))
      (rs_popped \<sigma>) f" "rs_popped \<sigma> \<le> length (rs_pushed \<sigma>)" "length (rs_pushed \<sigma>) < rs_popped \<sigma> + n"
    and c: "c_inv (rs_pushed \<sigma>) (rs_popped \<sigma>) (rs_cons \<sigma>)"
  note used = shared_used(1) [OF inv]
  show ?thesis
  proof (cases "rs_cons \<sigma>")
    case (C_Repost l)
    with assms c show ?thesis
      by (auto simp: ring_sys_inv_def sem_post_def)
  next
    case C_Fetch
    with assms show ?thesis
      using c_fetch_kept by metis
  qed (use assms c used inv(2) in \<open>auto intro!: wait_then_kept assert_used_kept advance_tail_kept cons_change\<close>)
qed

lemma ring_step_kept:
  assumes "ring_step \<sigma> r" "ring_sys_inv n \<sigma>"
  shows "step_ok n r"
  using assms
proof (cases rule: ring_step.cases)
  case (push x)
  then show ?thesis
    using assms(2) by (simp add: ring_sys_inv_def)
next
  case free_expired
  then show ?thesis
    using assms(2) by (simp add: ring_sys_inv_def)
qed (use assms(2) producer_kept consumer_kept in \<open>auto intro: cons_change\<close>)

lemma ring_reach_inv:
  assumes "ring_reach capacity r" "0 < capacity"
  shows "step_ok (nat capacity + 1) r"
  using assms(1)
proof induction
  case (init buf)
  define n where "n = nat capacity + 1"
  have n: "capacity + 1 = int n" "1 < n"
    using assms(2) by (simp_all add: n_def)
  have buf: "buf = \<lparr>rf_size = capacity + 1, rf_head = 0, rf_tail = capacity + 1 - 1,
      rf_entries = replicate (nat (capacity + 1)) None, rf_sem = 0, rf_free = Some (\<lambda>_ _. Ret ())\<rparr>"
    using init assms(2) by (simp add: rbuf_new_def rbuf_init_def rbuf_set_free_def)
  have "shared_rep n buf [] 0 0 0"
    unfolding buf n using n(2) by (simp add: shared_rep_def slots_rep_def of_nat_diff)
  moreover have "rf_sem buf = 0"
    by (simp add: buf)
  ultimately show ?case
    using n(2) by (simp add: ring_sys_inv_def ring_sys_init_def n_def)
next
  case (step \<sigma> r)
  then show ?case
    using ring_step_kept by fastforce
qed


section \<open>Properties\<close>

text \<open>Steps the producer still needs to finish its call.\<close>

fun p_rank :: "nat \<Rightarrow> 'a producer \<Rightarrow> nat" where
  "p_rank n P_Idle = 0"
| "p_rank n P_Post = 1"
| "p_rank n (P_Advance x) = 2"
| "p_rank n (P_Write x) = 3"
| "p_rank n (P_Clear x i) = 3 * nat (int n - i) + 4"
| "p_rank n (P_Slot x i) = 3 * nat (int n - i) + 5"
| "p_rank n (P_Loop x i) = 3 * nat (int n - i) + 6"
| "p_rank n (P_Entry x t) = 3 * n + 7"
| "p_rank n (P_Tail x) = 3 * n + 8"
| "p_rank n (P_Capacity x) = 3 * n + 9"

lemma p_rank_after_free: "p_rank n (after_free x) \<le> 3"
  by (cases x) simp_all

lemma producer_progress:
  assumes "ring_sys_inv n \<sigma>" "rs_prod \<sigma> \<noteq> P_Idle"
  shows "\<exists>\<sigma>'. producer_step (rs_prod \<sigma>) \<sigma> = Ret \<sigma>' \<and> p_rank n (rs_prod \<sigma>') < p_rank n (rs_prod \<sigma>)"
  using assms(1)
proof (rule ring_sys_invE)
  fix f
  let ?p = "length (rs_pushed \<sigma>)" and ?c = "rs_popped \<sigma>"
  assume sh: "shared_rep n (rs_buf \<sigma>) (rs_pushed \<sigma> @ p_written (rs_prod \<sigma>)) ?p ?c f"
    and p: "p_inv n ?p ?c f (rs_prod \<sigma>)" and b: "?c \<le> ?p" "?p < ?c + n"
  have ok: "step_ok n (producer_step (rs_prod \<sigma>) \<sigma>)"
    using producer_kept [OF assms(1)] .
  then obtain \<sigma>' where s: "producer_step (rs_prod \<sigma>) \<sigma> = Ret \<sigma>'"
    using assms(2) by (cases "rs_prod \<sigma>")
      (auto simp: step_ok_def bindo_def rbuf_entry_def rbuf_set_entry_def split: outcome.splits if_splits option.splits)
  have "rf_size (rs_buf \<sigma>) = int n" "1 < n"
    using sh by (auto simp: shared_rep_def)
  then have "p_rank n (rs_prod \<sigma>') < p_rank n (rs_prod \<sigma>)"
    using s p b assms(2) shared_used(1) [OF sh b] by (cases "rs_prod \<sigma>")
      (auto simp: bindo_Ret_iff le_less_trans [OF p_rank_after_free] split: if_splits option.splits)
  with s show ?thesis
    by blast
qed

lemma consumer_blocked:
  assumes "ring_sys_inv n \<sigma>" "consumer_step (rs_cons \<sigma>) \<sigma> = Block"
  shows "rs_cons \<sigma> = C_Idle \<or> rs_prod \<sigma> = P_Post \<or> rs_popped \<sigma> = length (rs_pushed \<sigma>)"
proof -
  have "rs_cons \<sigma> = C_Idle \<or> (rf_sem (rs_buf \<sigma>) = 0 \<and> c_owes (rs_cons \<sigma>) = 0)"
    using assms(2) by (cases "rs_cons \<sigma>")
      (auto simp: wait_then_def sem_wait_def assert_used_def asserto_def bindo_def rbuf_entry_def
        split: if_splits outcome.splits option.splits)
  moreover have "rs_prod \<sigma> = P_Post \<or> p_owes (rs_prod \<sigma>) = 0"
    by (cases "rs_prod \<sigma>") auto
  ultimately show ?thesis
    using assms(1) by (auto simp: ring_sys_inv_def)
qed

text \<open>
  C8. The two threads of a ring never race on an entry. In every state reached by interleaving the
  accesses of the producer and the consumer on a new ring, no thread has tripped an assertion or
  left the bounds of the array; the freed entries are the first pushes, in order, none of them
  freed twice; and an entry the consumer holds is the oldest one not popped, so that the producer,
  which frees popped entries only, has not freed it.
\<close>
theorem ring_concurrent_safe:
  assumes "ring_reach capacity r" "0 < capacity"
  shows "case r of
      Fault e \<Rightarrow> False
    | Block \<Rightarrow> False
    | Ret \<sigma> \<Rightarrow>
        prefix (rs_freed \<sigma>) (rs_pushed \<sigma>) \<and> length (rs_freed \<sigma>) \<le> rs_popped \<sigma> \<and>
        rs_popped \<sigma> \<le> length (rs_pushed \<sigma>) \<and> int (length (rs_pushed \<sigma>) - rs_popped \<sigma>) \<le> capacity \<and>
        (\<forall>d. rs_cons \<sigma> = C_Hold d \<longrightarrow>
           rs_popped \<sigma> < length (rs_pushed \<sigma>) \<and> d = rs_pushed \<sigma> ! rs_popped \<sigma>)"
proof -
  have "r \<noteq> Block"
    using assms(1) by (cases rule: ring_reach.cases) (auto elim: ring_stepE)
  moreover have "step_ok (nat capacity + 1) r"
    using assms by (rule ring_reach_inv)
  ultimately show ?thesis
    using assms(2) by (auto simp: step_ok_def ring_sys_inv_def split: outcome.splits)
qed

text \<open>
  C9. Liveness of the ring. Between calls of the consumer the producer finishes every push and every call of
  \<^verbatim>\<open>rbuf_free_expired\<close>: in each reachable state a started call can take its next step and comes closer to its end, at most
  \<open>3 * size + 9\<close> steps away, whatever the consumer does meanwhile. The consumer can be blocked only
  on an empty ring, or while the producer is one step from posting the semaphore: no wakeup is
  lost.
\<close>
theorem ring_concurrent_live:
  assumes "ring_reach capacity (Ret \<sigma>)" "0 < capacity"
  shows "(rs_prod \<sigma> = P_Idle \<or> (\<exists>\<sigma>'. producer_step (rs_prod \<sigma>) \<sigma> = Ret \<sigma>' \<and>
      p_rank (nat capacity + 1) (rs_prod \<sigma>') < p_rank (nat capacity + 1) (rs_prod \<sigma>))) \<and>
    (rs_cons \<sigma> = C_Idle \<or> (\<exists>\<sigma>'. consumer_step (rs_cons \<sigma>) \<sigma> = Ret \<sigma>') \<or>
      rs_prod \<sigma> = P_Post \<or> rs_popped \<sigma> = length (rs_pushed \<sigma>))"
proof -
  let ?n = "nat capacity + 1"
  have inv: "ring_sys_inv ?n \<sigma>"
    using ring_reach_inv [OF assms] by simp
  then have "rs_cons \<sigma> = C_Idle \<or> (\<exists>\<sigma>'. consumer_step (rs_cons \<sigma>) \<sigma> = Ret \<sigma>') \<or>
      rs_prod \<sigma> = P_Post \<or> rs_popped \<sigma> = length (rs_pushed \<sigma>)"
    using consumer_kept [OF inv] consumer_blocked [OF inv]
    by (cases "consumer_step (rs_cons \<sigma>) \<sigma>") auto
  then show ?thesis
    using producer_progress [OF inv] by blast
qed

text \<open>An executable schedule of the two threads.\<close>

datatype 'a schedule = S_Push 'a | S_Free | S_Produce | S_Wait bool | S_Try bool | S_Drop | S_Consume

fun ring_sched :: "'a schedule \<Rightarrow> 'a ring_sys \<Rightarrow> 'a ring_sys outcome" where
  "ring_sched (S_Push x) \<sigma> =
     (case rs_prod \<sigma> of P_Idle \<Rightarrow> Ret (\<sigma>\<lparr>rs_prod := P_Capacity x\<rparr>) | _ \<Rightarrow> Block)"
| "ring_sched S_Free \<sigma> = (case rs_prod \<sigma> of P_Idle \<Rightarrow> Ret (\<sigma>\<lparr>rs_prod := P_Tail None\<rparr>) | _ \<Rightarrow> Block)"
| "ring_sched S_Produce \<sigma> = producer_step (rs_prod \<sigma>) \<sigma>"
| "ring_sched (S_Wait l) \<sigma> = (case rs_cons \<sigma> of C_Idle \<Rightarrow> Ret (\<sigma>\<lparr>rs_cons := C_Wait l\<rparr>) | _ \<Rightarrow> Block)"
| "ring_sched (S_Try l) \<sigma> =
     (case rs_cons \<sigma> of
        C_Idle \<Rightarrow> Ret (\<sigma>\<lparr>rs_cons := if l then C_Old False else C_Peak False\<rparr>) | _ \<Rightarrow> Block)"
| "ring_sched S_Drop \<sigma> = (case rs_cons \<sigma> of C_Hold d \<Rightarrow> Ret (\<sigma>\<lparr>rs_cons := C_Idle\<rparr>) | _ \<Rightarrow> Block)"
| "ring_sched S_Consume \<sigma> = consumer_step (rs_cons \<sigma>) \<sigma>"

lemma ring_sched_step: "ring_sched a \<sigma> = Ret \<sigma>' \<Longrightarrow> ring_step \<sigma> (Ret \<sigma>')"
  by (cases a) (auto split: producer.splits consumer.splits intro: ring_step.intros)

lemma ring_sched_reach:
  assumes "ring_reach capacity (Ret \<sigma>)" "foldo ring_sched as \<sigma> = Ret \<sigma>'"
  shows "ring_reach capacity (Ret \<sigma>')"
  using assms
proof (induction as arbitrary: \<sigma>)
  case (Cons a as)
  from Cons.prems(2) obtain \<sigma>1 where "ring_sched a \<sigma> = Ret \<sigma>1" "foldo ring_sched as \<sigma>1 = Ret \<sigma>'"
    by (auto elim: bindo_RetE)
  then show ?case
    using Cons.IH [of \<sigma>1] Cons.prems(1) ring_sched_step ring_reach.step by blast
qed simp

lemma ring_sched_new:
  assumes "bindo (rbuf_new capacity (\<lambda>_ _. Ret ())) (\<lambda>buf. foldo ring_sched as (ring_sys_init buf)) = Ret \<sigma>"
  shows "ring_reach capacity (Ret \<sigma>)"
  using assms by (rule bindo_RetE) (rule ring_sched_reach [OF ring_reach.init])

text \<open>Two entries through a ring of capacity 2: the consumer pops the first while the second is being
  pushed, and holds the second while a third push has just freed the first.\<close>

definition sched_example :: "nat schedule list" where
  "sched_example = S_Push 7 # replicate 6 S_Produce @ S_Wait False # replicate 4 S_Consume @
     S_Push 8 # replicate 3 S_Produce @ replicate 3 S_Consume @ replicate 3 S_Produce @
     S_Wait True # replicate 5 S_Consume @ S_Push 9 # replicate 5 S_Produce"

lemma sched_example_reach:
  obtains \<sigma> :: "nat ring_sys" where "ring_reach 2 (Ret \<sigma>)" "rs_prod \<sigma> = P_Clear (Some 9) 1" "rs_cons \<sigma> = C_Hold 8"
    "rs_freed \<sigma> = [7]" "rs_popped \<sigma> = 1" "rs_pushed \<sigma> = [7, 8]"
proof -
  let ?r = "bindo (rbuf_new 2 (\<lambda>_ _. Ret ())) (\<lambda>buf. foldo ring_sched sched_example (ring_sys_init buf))"
  have "bindo ?r (\<lambda>\<sigma>. Ret (rs_prod \<sigma>, rs_cons \<sigma>, rs_freed \<sigma>, rs_popped \<sigma>, rs_pushed \<sigma>)) =
      Ret (P_Clear (Some 9) 1, C_Hold 8, [7], 1, [7, 8])"
    by code_simp
  then obtain \<sigma> where "?r = Ret \<sigma>" "rs_prod \<sigma> = P_Clear (Some 9) 1" "rs_cons \<sigma> = C_Hold 8"
    "rs_freed \<sigma> = [7]" "rs_popped \<sigma> = 1" "rs_pushed \<sigma> = [7, 8]"
    by (rule bindo_RetE) auto
  then show ?thesis
    using that ring_sched_new by blast
qed

theorem ring_concurrent_safe_witness:
  "\<exists>\<sigma> :: nat ring_sys. ring_reach 2 (Ret \<sigma>) \<and> rs_cons \<sigma> = C_Hold 8 \<and>
     prefix [7] (rs_pushed \<sigma>) \<and> rs_freed \<sigma> = [7] \<and> length [7::nat] \<le> rs_popped \<sigma> \<and>
     8 = rs_pushed \<sigma> ! rs_popped \<sigma>"
proof -
  obtain \<sigma> :: "nat ring_sys" where "ring_reach 2 (Ret \<sigma>)" "rs_cons \<sigma> = C_Hold 8" "rs_freed \<sigma> = [7]"
    using sched_example_reach by blast
  then show ?thesis
    using ring_concurrent_safe [of 2 "Ret \<sigma>"] by auto
qed

theorem ring_concurrent_live_witness:
  "\<exists>\<sigma> \<sigma>' :: nat ring_sys. ring_reach 2 (Ret \<sigma>) \<and> rs_prod \<sigma> = P_Clear (Some 9) 1 \<and>
     producer_step (rs_prod \<sigma>) \<sigma> = Ret \<sigma>' \<and> p_rank 3 (rs_prod \<sigma>') < p_rank 3 (rs_prod \<sigma>)"
proof -
  obtain \<sigma> :: "nat ring_sys" where "ring_reach 2 (Ret \<sigma>)" "rs_prod \<sigma> = P_Clear (Some 9) 1"
    using sched_example_reach by blast
  then show ?thesis
    using ring_concurrent_live [of 2 \<sigma>] by auto
qed

end
