(* ===== verification/Gamepad.thy ===== *)
theory Gamepad
  imports Prelude
begin

text \<open>
  The virtual gamepad of \<^verbatim>\<open>stratusd/Input/src/gamepad.c\<close>. The event codes of the kernel headers are
  symbolic. libevdev is a parameter: \<open>pe_new\<close> is whether it can make a description, \<open>enable\<close> gives the result of enabling an event code,
  \<open>create\<close> whether the uinput device was created, and \<open>wr\<close> the result of writing an event, given
  the events written before. Events written and resources taken and released are recorded in
  order, so that the error paths can be checked for leaks.
\<close>

section \<open>Data\<close>

datatype key_code =
    BTN_A | BTN_B | BTN_X | BTN_Y | BTN_TL | BTN_TR | BTN_TL2 | BTN_TR2 | BTN_SELECT | BTN_START
  | BTN_THUMBL | BTN_THUMBR | BTN_DPAD_UP | BTN_DPAD_DOWN | BTN_DPAD_LEFT | BTN_DPAD_RIGHT | BTN_MODE

datatype abs_code = ABS_X | ABS_Y | ABS_RX | ABS_RY

datatype uevent = EV_KEY key_code int | EV_ABS abs_code int | EV_SYN_REPORT

definition gamepad_button_codes :: "key_code list" where
  "gamepad_button_codes =
     [BTN_A, BTN_B, BTN_X, BTN_Y, BTN_TL, BTN_TR, BTN_TL2, BTN_TR2, BTN_SELECT, BTN_START,
      BTN_THUMBL, BTN_THUMBR, BTN_DPAD_UP, BTN_DPAD_DOWN, BTN_DPAD_LEFT, BTN_DPAD_RIGHT, BTN_MODE]"

definition gamepad_axis_codes :: "abs_code list" where
  "gamepad_axis_codes = [ABS_X, ABS_Y, ABS_RX, ABS_RY]"

definition gamepad_button_names :: "string list" where
  "gamepad_button_names =
     [''A'', ''B'', ''X'', ''Y'', ''LB'', ''RB'', ''LT'', ''RT'', ''SELECT'', ''START'', ''LS'', ''RS'',
      ''UP'', ''DOWN'', ''LEFT'', ''RIGHT'', ''MODE'']"

abbreviation GAMEPAD_BUTTON_COUNT :: nat where "GAMEPAD_BUTTON_COUNT \<equiv> 17"
abbreviation GAMEPAD_AXIS_COUNT :: nat where "GAMEPAD_AXIS_COUNT \<equiv> 4"
abbreviation GAMEPAD_AXIS_RANGE :: int where "GAMEPAD_AXIS_RANGE \<equiv> 127"

record gamepad_state =
  gs_buttons :: "bool list"
  gs_axes :: "int list"

record gamepad =
  gp_uidev :: nat
  gp_state :: gamepad_state

definition gamepad_zero :: gamepad_state where
  "gamepad_zero = \<lparr>gs_buttons = replicate GAMEPAD_BUTTON_COUNT False,
                   gs_axes = replicate GAMEPAD_AXIS_COUNT 0\<rparr>"

definition gamepad_state_wf :: "gamepad_state \<Rightarrow> bool" where
  "gamepad_state_wf st \<longleftrightarrow>
     length (gs_buttons st) = GAMEPAD_BUTTON_COUNT \<and> length (gs_axes st) = GAMEPAD_AXIS_COUNT"

text \<open>Resources: the gamepad struct, the libevdev description, and the registered uinput device.\<close>

datatype pad_resource = Pad_Memory | Evdev | Uinput nat

datatype pad_action = Acquire pad_resource | Release pad_resource

section \<open>Operations\<close>

text \<open>The loops that enable the event codes stop at the first negative result.\<close>

fun enable_codes :: "('c \<Rightarrow> int) \<Rightarrow> 'c list \<Rightarrow> bool" where
  "enable_codes enable [] = True"
| "enable_codes enable (c # cs) = (if enable c < 0 then False else enable_codes enable cs)"

text \<open>
  \<open>gamepad_init\<close> on the \<open>d\<close>-th device: \<open>pe_malloc\<close> is the result of \<^verbatim>\<open>malloc\<close>, \<open>pe_new\<close> of \<^verbatim>\<open>libevdev_new\<close>,
  \<open>pe_enable_key\<close> and \<open>pe_enable_abs\<close> of \<^verbatim>\<open>libevdev_enable_event_code\<close> and \<open>pe_create\<close> of
  \<^verbatim>\<open>libevdev_uinput_create_from_device\<close>. The result of \<^verbatim>\<open>libevdev_new\<close> is not checked; setting the name of a NULL
  description dereferences it.
\<close>

record pad_env =
  pe_malloc :: bool
  pe_new :: bool
  pe_enable_key :: "key_code \<Rightarrow> int"
  pe_enable_abs :: "abs_code \<Rightarrow> int"
  pe_create :: bool

definition gamepad_init :: "pad_env \<Rightarrow> nat \<Rightarrow> (gamepad option \<times> pad_action list) outcome" where
  "gamepad_init env d =
     (if \<not> pe_malloc env then Ret (None, [])
      else if \<not> pe_new env then Fault Null_Deref
      else if \<not> enable_codes (pe_enable_key env) gamepad_button_codes
        \<or> \<not> enable_codes (pe_enable_abs env) gamepad_axis_codes
      then Ret (None, [Acquire Pad_Memory, Acquire Evdev, Release Evdev, Release Pad_Memory])
      else if \<not> pe_create env
      then Ret (None, [Acquire Pad_Memory, Acquire Evdev, Release Evdev, Release Pad_Memory])
      else Ret (Some \<lparr>gp_uidev = d, gp_state = gamepad_zero\<rparr>,
            [Acquire Pad_Memory, Acquire Evdev, Acquire (Uinput d), Release Evdev]))"

definition gamepad_destroy :: "gamepad \<Rightarrow> pad_action list" where
  "gamepad_destroy gp = [Release (Uinput (gp_uidev gp)), Release Pad_Memory]"

text \<open>
  One iteration of each loop of \<open>gamepad_update\<close>, on the gamepad, the flag \<^verbatim>\<open>changed\<close>, the error
  count and the events written so far to all devices.
\<close>

type_synonym pad_out = "(nat \<times> uevent) list"
type_synonym pad_write = "pad_out \<Rightarrow> nat \<times> uevent \<Rightarrow> int"
type_synonym update_state = "gamepad \<times> bool \<times> int \<times> pad_out"

definition write_event :: "pad_write \<Rightarrow> gamepad \<Rightarrow> uevent \<Rightarrow> int \<times> pad_out \<Rightarrow> int \<times> pad_out" where
  "write_event wr gp ev = (\<lambda>(err, out). (err + wr out (gp_uidev gp, ev), out @ [(gp_uidev gp, ev)]))"

definition update_button :: "pad_write \<Rightarrow> gamepad_state \<Rightarrow> nat \<Rightarrow> update_state \<Rightarrow> update_state" where
  "update_button wr new i = (\<lambda>(gp, changed, eo).
     if gs_buttons new ! i \<or> gs_buttons (gp_state gp) ! i
     then (gp\<lparr>gp_state := (gp_state gp)
              \<lparr>gs_buttons := (gs_buttons (gp_state gp))[i := gs_buttons new ! i]\<rparr>\<rparr>, True,
           write_event wr gp (EV_KEY (gamepad_button_codes ! i) (if gs_buttons new ! i then 1 else 0)) eo)
     else (gp, changed, eo))"

definition update_axis :: "pad_write \<Rightarrow> gamepad_state \<Rightarrow> nat \<Rightarrow> update_state \<Rightarrow> update_state" where
  "update_axis wr new i = (\<lambda>(gp, changed, eo).
     if gs_axes new ! i \<noteq> 0 \<or> gs_axes (gp_state gp) ! i \<noteq> 0
     then (gp\<lparr>gp_state := (gp_state gp)
              \<lparr>gs_axes := (gs_axes (gp_state gp))[i := gs_axes new ! i]\<rparr>\<rparr>, True,
           write_event wr gp (EV_ABS (gamepad_axis_codes ! i) (gs_axes new ! i)) eo)
     else (gp, changed, eo))"

definition gamepad_update ::
    "pad_write \<Rightarrow> gamepad \<Rightarrow> gamepad_state \<Rightarrow> pad_out \<Rightarrow> int \<times> gamepad \<times> pad_out" where
  "gamepad_update wr gp new out =
     (case fold (update_axis wr new) [0..<GAMEPAD_AXIS_COUNT]
             (fold (update_button wr new) [0..<GAMEPAD_BUTTON_COUNT] (gp, False, 0, out)) of
        (gp, changed, eo) \<Rightarrow>
          (case (if changed then write_event wr gp EV_SYN_REPORT eo else eo) of
             (err, out) \<Rightarrow> (if err \<noteq> 0 then -1 else 0, gp, out)))"

text \<open>The text \<open>gamepad_print_state\<close> prints; integers are printed by the parameter \<open>show_int\<close>.\<close>

definition gamepad_print_state :: "(int \<Rightarrow> string) \<Rightarrow> gamepad_state \<Rightarrow> string" where
  "gamepad_print_state show_int st =
     concat (map (\<lambda>i. if gs_buttons st ! i then gamepad_button_names ! i @ '', '' else '''')
       [0..<GAMEPAD_BUTTON_COUNT]) @ ''['' @
     concat (map (\<lambda>i. show_int (gs_axes st ! i) @ '', '') [0..<GAMEPAD_AXIS_COUNT]) @ '']''"

section \<open>The events of an update\<close>

definition button_events :: "gamepad_state \<Rightarrow> gamepad_state \<Rightarrow> nat list \<Rightarrow> uevent list" where
  "button_events old new js =
     map (\<lambda>i. EV_KEY (gamepad_button_codes ! i) (if gs_buttons new ! i then 1 else 0))
       (filter (\<lambda>i. gs_buttons new ! i \<or> gs_buttons old ! i) js)"

definition axis_events :: "gamepad_state \<Rightarrow> gamepad_state \<Rightarrow> nat list \<Rightarrow> uevent list" where
  "axis_events old new js =
     map (\<lambda>i. EV_ABS (gamepad_axis_codes ! i) (gs_axes new ! i))
       (filter (\<lambda>i. gs_axes new ! i \<noteq> 0 \<or> gs_axes old ! i \<noteq> 0) js)"

definition state_events :: "gamepad_state \<Rightarrow> gamepad_state \<Rightarrow> uevent list" where
  "state_events old new =
     button_events old new [0..<GAMEPAD_BUTTON_COUNT] @ axis_events old new [0..<GAMEPAD_AXIS_COUNT]"

definition update_events :: "gamepad_state \<Rightarrow> gamepad_state \<Rightarrow> uevent list" where
  "update_events old new =
     (if state_events old new = [] then [] else state_events old new @ [EV_SYN_REPORT])"

lemma button_events_simps:
  "button_events old new [] = []"
  "button_events old new (i # js) =
    (if gs_buttons new ! i \<or> gs_buttons old ! i
     then [EV_KEY (gamepad_button_codes ! i) (if gs_buttons new ! i then 1 else 0)] else []) @
    button_events old new js"
  by (simp_all add: button_events_def)

lemma axis_events_simps:
  "axis_events old new [] = []"
  "axis_events old new (i # js) =
    (if gs_axes new ! i \<noteq> 0 \<or> gs_axes old ! i \<noteq> 0
     then [EV_ABS (gamepad_axis_codes ! i) (gs_axes new ! i)] else []) @ axis_events old new js"
  by (simp_all add: axis_events_def)

text \<open>The sum of the results of writing a list of events.\<close>

fun write_errors :: "pad_write \<Rightarrow> nat \<Rightarrow> uevent list \<Rightarrow> pad_out \<Rightarrow> int" where
  "write_errors wr d [] out = 0"
| "write_errors wr d (e # es) out = wr out (d, e) + write_errors wr d es (out @ [(d, e)])"

lemma write_errors_append:
  "write_errors wr d (es @ fs) out = write_errors wr d es out + write_errors wr d fs (out @ map (Pair d) es)"
  by (induction es arbitrary: out) auto

lemma update_buttons_fold:
  assumes "distinct js" "\<forall>i\<in>set js. i < length (gs_buttons (gp_state gp))"
  shows "fold (update_button wr new) js (gp, ch, err, out) =
    (let evs = button_events (gp_state gp) new js; d = gp_uidev gp in
     (gp\<lparr>gp_state := (gp_state gp)\<lparr>gs_buttons :=
        fold (\<lambda>i bs. bs[i := gs_buttons new ! i]) js (gs_buttons (gp_state gp))\<rparr>\<rparr>,
      ch \<or> evs \<noteq> [], err + write_errors wr d evs out, out @ map (Pair d) evs))"
  using assms
proof (induction js arbitrary: gp ch err out)
  case Nil
  then show ?case
    by (simp add: button_events_def)
next
  case (Cons i js)
  let ?b = "gs_buttons (gp_state gp)" and ?v = "gs_buttons new ! i"
  let ?gp = "gp\<lparr>gp_state := (gp_state gp)\<lparr>gs_buttons := ?b[i := ?v]\<rparr>\<rparr>"
  have evs: "button_events (gp_state ?gp) new js = button_events (gp_state gp) new js"
    unfolding button_events_def using Cons.prems
    by (intro map_cong filter_cong refl) (auto simp: nth_list_update)
  show ?case
  proof (cases "?v \<or> ?b ! i")
    case True
    then show ?thesis
      using Cons.IH [of ?gp] Cons.prems evs
      by (simp add: update_button_def write_event_def button_events_simps Let_def)
  next
    case False
    moreover from this have "?b[i := ?v] = ?b"
      using Cons.prems by (simp add: list_update_same_conv)
    ultimately show ?thesis
      using Cons.IH [of gp] Cons.prems
      by (simp add: update_button_def button_events_simps Let_def)
  qed
qed

lemma update_axes_fold:
  assumes "distinct js" "\<forall>i\<in>set js. i < length (gs_axes (gp_state gp))"
  shows "fold (update_axis wr new) js (gp, ch, err, out) =
    (let evs = axis_events (gp_state gp) new js; d = gp_uidev gp in
     (gp\<lparr>gp_state := (gp_state gp)\<lparr>gs_axes :=
        fold (\<lambda>i bs. bs[i := gs_axes new ! i]) js (gs_axes (gp_state gp))\<rparr>\<rparr>,
      ch \<or> evs \<noteq> [], err + write_errors wr d evs out, out @ map (Pair d) evs))"
  using assms
proof (induction js arbitrary: gp ch err out)
  case Nil
  then show ?case
    by (simp add: axis_events_def)
next
  case (Cons i js)
  let ?b = "gs_axes (gp_state gp)" and ?v = "gs_axes new ! i"
  let ?gp = "gp\<lparr>gp_state := (gp_state gp)\<lparr>gs_axes := ?b[i := ?v]\<rparr>\<rparr>"
  have evs: "axis_events (gp_state ?gp) new js = axis_events (gp_state gp) new js"
    unfolding axis_events_def using Cons.prems
    by (intro map_cong filter_cong refl) (auto simp: nth_list_update)
  show ?case
  proof (cases "?v \<noteq> 0 \<or> ?b ! i \<noteq> 0")
    case True
    then show ?thesis
      using Cons.IH [of ?gp] Cons.prems evs
      by (simp add: update_axis_def write_event_def axis_events_simps Let_def)
  next
    case False
    moreover from this have "?b[i := ?v] = ?b"
      using Cons.prems by (simp add: list_update_same_conv)
    ultimately show ?thesis
      using Cons.IH [of gp] Cons.prems
      by (simp add: update_axis_def axis_events_simps Let_def)
  qed
qed

text \<open>Copying every index copies the list.\<close>

lemma fold_copy_nth:
  assumes "k \<le> n" "length bs = n" "length new = n"
  shows "fold (\<lambda>i bs. bs[i := new ! i]) [0..<k] bs = take k new @ drop k bs"
  using assms(1)
proof (induction k)
  case (Suc k)
  then have "k < length bs" "k < length new"
    using assms by auto
  then show ?case
    using Suc by (simp add: list_update_append take_Suc_conv_app_nth Cons_nth_drop_Suc [symmetric])
qed simp

lemma gamepad_update_eq:
  assumes "gamepad_state_wf (gp_state gp)" "gamepad_state_wf new"
  shows "gamepad_update wr gp new out =
    (let evs = update_events (gp_state gp) new in
     (if write_errors wr (gp_uidev gp) evs out \<noteq> 0 then -1 else 0, gp\<lparr>gp_state := new\<rparr>,
      out @ map (Pair (gp_uidev gp)) evs))"
proof -
  let ?b = "button_events (gp_state gp) new [0..<GAMEPAD_BUTTON_COUNT]"
    and ?a = "axis_events (gp_state gp) new [0..<GAMEPAD_AXIS_COUNT]" and ?d = "gp_uidev gp"
  let ?gp1 = "gp\<lparr>gp_state := (gp_state gp)\<lparr>gs_buttons := gs_buttons new\<rparr>\<rparr>"
  have b: "fold (update_button wr new) [0..<GAMEPAD_BUTTON_COUNT] (gp, False, 0, out) =
      (?gp1, ?b \<noteq> [], write_errors wr ?d ?b out, out @ map (Pair ?d) ?b)"
    using assms fold_copy_nth [of 17 17 "gs_buttons (gp_state gp)" "gs_buttons new"]
    by (subst update_buttons_fold) (simp_all add: gamepad_state_wf_def Let_def del: upt_rec_numeral)
  have a: "fold (update_axis wr new) [0..<GAMEPAD_AXIS_COUNT] (?gp1, ch, err, out') =
      (gp\<lparr>gp_state := new\<rparr>, ch \<or> ?a \<noteq> [], err + write_errors wr ?d ?a out', out' @ map (Pair ?d) ?a)"
    for ch err out'
    using assms fold_copy_nth [of 4 4 "gs_axes (gp_state gp)" "gs_axes new"]
    by (subst update_axes_fold)
      (simp_all add: gamepad_state_wf_def Let_def axis_events_def del: upt_rec_numeral)
  show ?thesis
    unfolding gamepad_update_def b a
    by (auto simp: update_events_def state_events_def write_errors_append write_event_def Let_def)
qed


section \<open>What the kernel device shows\<close>

text \<open>
  The state of the uinput device: the last value reported for each code. \<open>pad_shows\<close> relates it to
  the state of a gamepad.
\<close>

type_synonym pad_device = "(key_code \<Rightarrow> int) \<times> (abs_code \<Rightarrow> int)"

fun device_event :: "uevent \<Rightarrow> pad_device \<Rightarrow> pad_device" where
  "device_event (EV_KEY c v) (k, a) = (k(c := v), a)"
| "device_event (EV_ABS c v) (k, a) = (k, a(c := v))"
| "device_event EV_SYN_REPORT (k, a) = (k, a)"

definition pad_shows :: "pad_device \<Rightarrow> gamepad_state \<Rightarrow> bool" where
  "pad_shows dev st \<longleftrightarrow>
     (\<forall>i < GAMEPAD_BUTTON_COUNT. fst dev (gamepad_button_codes ! i) = (if gs_buttons st ! i then 1 else 0)) \<and>
     (\<forall>i < GAMEPAD_AXIS_COUNT. snd dev (gamepad_axis_codes ! i) = gs_axes st ! i)"

lemma codes_distinct:
  "distinct gamepad_button_codes" "length gamepad_button_codes = GAMEPAD_BUTTON_COUNT"
  "distinct gamepad_axis_codes" "length gamepad_axis_codes = GAMEPAD_AXIS_COUNT"
  by (simp_all add: gamepad_button_codes_def gamepad_axis_codes_def)

lemma code_eq_iff:
  "i < GAMEPAD_BUTTON_COUNT \<Longrightarrow> j < GAMEPAD_BUTTON_COUNT \<Longrightarrow>
     gamepad_button_codes ! i = gamepad_button_codes ! j \<longleftrightarrow> i = j"
  "i < GAMEPAD_AXIS_COUNT \<Longrightarrow> j < GAMEPAD_AXIS_COUNT \<Longrightarrow>
     gamepad_axis_codes ! i = gamepad_axis_codes ! j \<longleftrightarrow> i = j"
  using codes_distinct by (simp_all add: nth_eq_iff_index_eq)

lemma device_button_events:
  assumes "\<forall>i\<in>set js. i < GAMEPAD_BUTTON_COUNT" "j < GAMEPAD_BUTTON_COUNT"
  shows "fst (fold device_event (button_events old new js) dev) (gamepad_button_codes ! j) =
      (if j \<in> set js \<and> (gs_buttons new ! j \<or> gs_buttons old ! j) then (if gs_buttons new ! j then 1 else 0)
       else fst dev (gamepad_button_codes ! j))"
  using assms
  by (induction js arbitrary: dev) (auto simp: button_events_def code_eq_iff split: prod.split)

lemma device_axis_events:
  assumes "\<forall>i\<in>set js. i < GAMEPAD_AXIS_COUNT" "j < GAMEPAD_AXIS_COUNT"
  shows "snd (fold device_event (axis_events old new js) dev) (gamepad_axis_codes ! j) =
      (if j \<in> set js \<and> (gs_axes new ! j \<noteq> 0 \<or> gs_axes old ! j \<noteq> 0) then gs_axes new ! j
       else snd dev (gamepad_axis_codes ! j))"
  using assms
  by (induction js arbitrary: dev) (auto simp: axis_events_def code_eq_iff split: prod.split)

lemma device_other_events:
  "snd (fold device_event (button_events old new js) dev) = snd dev"
  "fst (fold device_event (axis_events old new js) dev) = fst dev"
  by (induction js arbitrary: dev) (auto simp: button_events_def axis_events_def split: prod.split)

lemma fold_update_events:
  "fold device_event (update_events old new) dev = fold device_event (state_events old new) dev"
proof -
  have "device_event EV_SYN_REPORT d = d" for d
    by (cases d) simp
  then show ?thesis
    by (simp add: update_events_def)
qed

lemma update_events_show:
  assumes "pad_shows dev old"
  shows "pad_shows (fold device_event (update_events old new) dev) new"
  using assms unfolding fold_update_events pad_shows_def state_events_def fold_append comp_apply
  by (auto simp: device_button_events device_axis_events device_other_events simp del: upt_rec_numeral)


section \<open>Properties\<close>

lemma write_errors_nonpos:
  assumes "\<And>out e. wr out e \<le> 0"
  shows "write_errors wr d es out \<le> 0 \<and>
    (write_errors wr d es out = 0 \<longleftrightarrow>
      (\<forall>i < length es. wr (out @ map (Pair d) (take i es)) (d, es ! i) = 0))"
proof (induction es arbitrary: out)
  case (Cons e es)
  have "(\<forall>i < length (e # es). wr (out @ map (Pair d) (take i (e # es))) (d, (e # es) ! i) = 0) \<longleftrightarrow>
      wr out (d, e) = 0 \<and>
      (\<forall>i < length es. wr ((out @ [(d, e)]) @ map (Pair d) (take i es)) (d, es ! i) = 0)"
    by (simp add: All_less_Suc2)
  then show ?case
    using Cons.IH [of "out @ [(d, e)]"] assms [of out "(d, e)"] by auto
qed simp

text \<open>
  C15. The virtual gamepad follows the player. When the kernel device shows the state the gamepad
  has recorded, \<^verbatim>\<open>gamepad_update\<close> writes events that make it show the new state, records the new
  state, ends a non-empty report with one SYN event, and writes nothing when nothing is pressed or
  off-centre before and after. It returns 0 exactly when every write succeeded (libevdev returns 0
  or a negative error).
\<close>
theorem gamepad_update_tracks:
  assumes "gamepad_state_wf (gp_state gp)" "gamepad_state_wf new" "pad_shows dev (gp_state gp)"
    and "\<And>out e. wr out e \<le> 0"
  shows "\<exists>evs. gamepad_update wr gp new out =
      (if \<forall>i < length evs. wr (out @ map (Pair (gp_uidev gp)) (take i evs)) (gp_uidev gp, evs ! i) = 0
       then 0 else -1, gp\<lparr>gp_state := new\<rparr>, out @ map (Pair (gp_uidev gp)) evs) \<and>
    pad_shows (fold device_event evs dev) new \<and>
    (evs = [] \<or> last evs = EV_SYN_REPORT \<and> count_list evs EV_SYN_REPORT = 1) \<and>
    (gp_state gp = gamepad_zero \<and> new = gamepad_zero \<longrightarrow> evs = [])"
proof (intro exI [of _ "update_events (gp_state gp) new"] conjI)
  let ?evs = "update_events (gp_state gp) new"
  show "gamepad_update wr gp new out =
      (if \<forall>i < length ?evs. wr (out @ map (Pair (gp_uidev gp)) (take i ?evs)) (gp_uidev gp, ?evs ! i) = 0
       then 0 else -1, gp\<lparr>gp_state := new\<rparr>, out @ map (Pair (gp_uidev gp)) ?evs)"
    using gamepad_update_eq [OF assms(1,2), of wr out]
      write_errors_nonpos [where wr = wr and d = "gp_uidev gp" and es = ?evs and out = out, OF assms(4)]
    by (simp add: Let_def)
  show "pad_shows (fold device_event ?evs dev) new"
    using assms(3) by (rule update_events_show)
  have "EV_SYN_REPORT \<notin> set (state_events (gp_state gp) new)"
    by (auto simp: state_events_def button_events_def axis_events_def)
  then show "?evs = [] \<or> last ?evs = EV_SYN_REPORT \<and> count_list ?evs EV_SYN_REPORT = 1"
    by (simp add: update_events_def count_list_0_iff)
  show "gp_state gp = gamepad_zero \<and> new = gamepad_zero \<longrightarrow> ?evs = []"
    by (auto simp: update_events_def state_events_def button_events_def axis_events_def gamepad_zero_def
        filter_empty_conv simp del: upt_rec_numeral)
qed

definition pad_example :: gamepad_state where
  "pad_example = gamepad_zero\<lparr>gs_buttons := (replicate 17 False)[2 := True], gs_axes := [0, -127, 0, 5]\<rparr>"

theorem gamepad_update_tracks_witness:
  "\<exists>evs. gamepad_update (\<lambda>_ _. 0) \<lparr>gp_uidev = 3, gp_state = gamepad_zero\<rparr> pad_example [] =
      (0, \<lparr>gp_uidev = 3, gp_state = pad_example\<rparr>, map (Pair 3) evs) \<and>
    pad_shows (fold device_event evs (\<lambda>_. 0, \<lambda>_. 0)) pad_example"
proof -
  have wf: "gamepad_state_wf gamepad_zero" "gamepad_state_wf pad_example"
    by (simp_all add: gamepad_state_wf_def gamepad_zero_def pad_example_def)
  have "pad_shows (\<lambda>_. 0, \<lambda>_. 0) gamepad_zero"
    by (simp add: pad_shows_def gamepad_zero_def)
  then show ?thesis
    using gamepad_update_tracks [of "\<lparr>gp_uidev = 3, gp_state = gamepad_zero\<rparr>" pad_example
        "(\<lambda>_. 0, \<lambda>_. 0)" "\<lambda>_ _. 0" "[]"] wf by auto
qed

text \<open>The resources held after a sequence of actions.\<close>

fun pad_live :: "pad_action list \<Rightarrow> pad_resource multiset \<Rightarrow> pad_resource multiset" where
  "pad_live [] M = M"
| "pad_live (Acquire r # as) M = pad_live as (add_mset r M)"
| "pad_live (Release r # as) M = pad_live as (M - {#r#})"

lemma enable_codes_iff: "enable_codes enable cs \<longleftrightarrow> (\<forall>c\<in>set cs. 0 \<le> enable c)"
  by (induction cs) auto

lemma codes_all: "set gamepad_button_codes = UNIV" "set gamepad_axis_codes = UNIV"
proof -
  have "c \<in> set gamepad_button_codes" for c by (cases c) (simp_all add: gamepad_button_codes_def)
  thus "set gamepad_button_codes = UNIV" by blast
  have "a \<in> set gamepad_axis_codes" for a by (cases a) (simp_all add: gamepad_axis_codes_def)
  thus "set gamepad_axis_codes = UNIV" by blast
qed

text \<open>
  C16. \<^verbatim>\<open>gamepad_init\<close> leaks nothing: when it returns NULL all it acquired is released again, and when it returns a
  gamepad exactly the gamepad and its uinput device are held, and \<^verbatim>\<open>gamepad_destroy\<close> releases both. It returns a gamepad
  exactly when the allocation, libevdev's description, every event code and the device creation succeed; and it
  dereferences NULL exactly when the allocation succeeds and libevdev cannot make a description.
\<close>
theorem gamepad_init_no_leak:
  "case gamepad_init env d of
     Ret (None, acts) \<Rightarrow> pad_live acts M = M \<and>
       \<not> (pe_malloc env \<and> pe_new env \<and> pe_create env \<and> (\<forall>c. 0 \<le> pe_enable_key env c) \<and> (\<forall>c. 0 \<le> pe_enable_abs env c))
   | Ret (Some gp, acts) \<Rightarrow>
       gp_state gp = gamepad_zero \<and> pad_live acts M = M + {#Pad_Memory, Uinput d#} \<and>
       pad_live (acts @ gamepad_destroy gp) M = M \<and>
       pe_malloc env \<and> pe_new env \<and> pe_create env \<and> (\<forall>c. 0 \<le> pe_enable_key env c) \<and> (\<forall>c. 0 \<le> pe_enable_abs env c)
   | Fault f \<Rightarrow> f = Null_Deref \<and> pe_malloc env \<and> \<not> pe_new env
   | Block \<Rightarrow> False"
  by (auto simp: gamepad_init_def gamepad_destroy_def enable_codes_iff codes_all not_le not_less)

end
