(* ===== verification/Float32.thy ===== *)
theory Float32
  imports Prelude Complex_Main
begin

text \<open>
  The C type \<^verbatim>\<open>float\<close> (IEEE 754 binary32) as far as the Input and the CapturePw modules use it:
  decoding from its bits, multiplication with rounding to nearest (ties to even), comparison
  with constants and the conversion to \<^verbatim>\<open>int\<close>, which truncates and is undefined outside the range
  of \<^verbatim>\<open>int\<close>, on infinities and on NaN (\<open>Fault Bad_Cast\<close>). A finite value is a sign, a mantissa
  and an exponent: \<open>(-1)\<^sup>s * m * 2\<^sup>e\<close>.
\<close>

datatype c_float = Finite bool int int | Infinite bool | NaN

definition f32_decode :: "u32 \<Rightarrow> c_float" where
  "f32_decode w =
     (let v = uint w; s = (v div 2 ^ 31 = 1); ex = v div 2 ^ 23 mod 2 ^ 8; fr = v mod 2 ^ 23 in
      if ex = 255 then (if fr = 0 then Infinite s else NaN)
      else if ex = 0 then Finite s fr (-149)
      else Finite s (2 ^ 23 + fr) (ex - 150))"

function bit_length :: "int \<Rightarrow> nat" where
  "bit_length n = (if n \<le> 0 then 0 else Suc (bit_length (n div 2)))"
  by pat_completeness auto
termination
  by (relation "measure nat") auto

declare bit_length.simps [simp del]

text \<open>\<open>m / 2\<^sup>k\<close> rounded to the nearest integer, ties to even.\<close>

definition round_shift :: "int \<Rightarrow> nat \<Rightarrow> int" where
  "round_shift m k =
     (let q = m div 2 ^ k; r = m mod 2 ^ k in
      if 2 * r < 2 ^ k \<or> (2 * r = 2 ^ k \<and> even q) then q else q + 1)"

text \<open>Rounding to 24 bits of precision and an exponent of at least -149, with overflow to infinity.\<close>

definition f32_round :: "bool \<Rightarrow> int \<Rightarrow> int \<Rightarrow> c_float" where
  "f32_round s m e =
     (let k = nat (max (int (bit_length m) - 24) (-149 - e)); q = round_shift m k; e' = e + int k in
      if q \<noteq> 0 \<and> int (bit_length q) + e' > 128 then Infinite s else Finite s q e')"

fun f32_mul :: "c_float \<Rightarrow> c_float \<Rightarrow> c_float" where
  "f32_mul (Finite s m e) (Finite t n f) = f32_round (s \<noteq> t) (m * n) (e + f)"
| "f32_mul (Infinite s) (Finite t n f) = (if n = 0 then NaN else Infinite (s \<noteq> t))"
| "f32_mul (Finite s m e) (Infinite t) = (if m = 0 then NaN else Infinite (s \<noteq> t))"
| "f32_mul (Infinite s) (Infinite t) = Infinite (s \<noteq> t)"
| "f32_mul NaN _ = NaN"
| "f32_mul _ NaN = NaN"

text \<open>The conversion of a small integer constant is exact.\<close>

definition f32_of_int :: "int \<Rightarrow> c_float" where
  "f32_of_int i = Finite (i < 0) \<bar>i\<bar> 0"

text \<open>The conversion to \<^verbatim>\<open>int\<close>.\<close>

definition trunc_abs :: "int \<Rightarrow> int \<Rightarrow> int" where
  "trunc_abs m e = (if 0 \<le> e then m * 2 ^ nat e else m div 2 ^ nat (- e))"

fun f32_to_int :: "c_float \<Rightarrow> int outcome" where
  "f32_to_int (Finite s m e) =
     (let v = (if s then - trunc_abs m e else trunc_abs m e) in
      if - (2 ^ 31) \<le> v \<and> v < 2 ^ 31 then Ret v else Fault Bad_Cast)"
| "f32_to_int (Infinite s) = Fault Bad_Cast"
| "f32_to_int NaN = Fault Bad_Cast"

text \<open>\<open>|x| \<le> k\<close> for a natural number \<open>k\<close>.\<close>

fun f32_abs_le :: "c_float \<Rightarrow> int \<Rightarrow> bool" where
  "f32_abs_le (Finite s m e) k \<longleftrightarrow>
     0 \<le> m \<and> (if 0 \<le> e then m * 2 ^ nat e \<le> k else m \<le> k * 2 ^ nat (- e))"
| "f32_abs_le (Infinite s) k \<longleftrightarrow> False"
| "f32_abs_le NaN k \<longleftrightarrow> False"

text \<open>The real number a finite value stands for.\<close>

fun f32_real :: "c_float \<Rightarrow> real" where
  "f32_real (Finite s m e) = (if s then - 1 else 1) * of_int m * 2 powi e"
| "f32_real (Infinite s) = 0"
| "f32_real NaN = 0"

section \<open>Bounds\<close>

lemma bit_length_upper: "m < 2 ^ bit_length m"
proof (induction m rule: bit_length.induct)
  case (1 n)
  then show ?case
    using bit_length.simps [of n] by (cases "n \<le> 0") auto
qed

lemma bit_length_lower: "0 < m \<Longrightarrow> 2 ^ bit_length m \<le> 2 * m"
proof (induction m rule: bit_length.induct)
  case (1 n)
  show ?case
  proof (cases "n div 2 = 0")
    case True
    then have "n = 1"
      using 1(2) by linarith
    then show ?thesis
      by (simp add: bit_length.simps)
  next
    case False
    then have "2 ^ bit_length (n div 2) \<le> 2 * (n div 2)"
      using 1 by simp
    then show ?thesis
      using 1(2) bit_length.simps [of n] by simp
  qed
qed

lemma bit_length_0 [simp]: "bit_length 0 = 0"
  by (simp add: bit_length.simps)

lemma bit_length_le:
  assumes "m < 2 ^ k"
  shows "bit_length m \<le> k"
proof (cases "m \<le> 0")
  case False
  then have "(2::int) ^ bit_length m < 2 ^ Suc k"
    using bit_length_lower [of m] assms by simp
  then have "bit_length m < Suc k"
    by (rule power_less_imp_less_exp [rotated]) simp
  then show ?thesis
    by simp
qed (simp add: bit_length.simps)

lemma round_shift_le:
  assumes "m \<le> k * 2 ^ j"
  shows "round_shift m j \<le> k"
proof (cases "m = k * 2 ^ j")
  case True
  then show ?thesis
    by (simp add: round_shift_def)
next
  case False
  have "m div 2 ^ j < k"
  proof (rule ccontr)
    assume "\<not> m div 2 ^ j < k"
    then have "k * 2 ^ j \<le> m div 2 ^ j * 2 ^ j"
      by (intro mult_right_mono) simp_all
    also have "\<dots> \<le> m"
    proof -
      have "0 \<le> m mod 2 ^ j"
        by simp
      then show ?thesis
        using div_mult_mod_eq [of m "2 ^ j"] by linarith
    qed
    finally show False
      using False assms by simp
  qed
  then show ?thesis
    by (simp add: round_shift_def Let_def)
qed

lemma round_shift_nonneg: "0 \<le> m \<Longrightarrow> 0 \<le> round_shift m j"
  by (simp add: round_shift_def Let_def pos_imp_zdiv_nonneg_iff)

lemma round_shift_0 [simp]: "round_shift m 0 = m"
  by (simp add: round_shift_def)

lemma f32_abs_le_neg: "e \<le> 0 \<Longrightarrow> f32_abs_le (Finite s m e) k \<longleftrightarrow> 0 \<le> m \<and> m \<le> k * 2 ^ nat (- e)"
  by auto

lemma f32_abs_le_not_big:
  assumes "f32_abs_le (Finite s m e) k" "k < 2 ^ 24" "0 < m"
  shows "int (bit_length m) + e \<le> 24"
proof (cases "0 \<le> e")
  case True
  then have "m * 2 ^ nat e < 2 ^ 24"
    using assms by simp
  moreover have "2 ^ (bit_length m + nat e) \<le> 2 * (m * 2 ^ nat e)"
    using bit_length_lower [OF assms(3)] by (simp add: power_add)
  ultimately have "(2::int) ^ (bit_length m + nat e) < 2 ^ 25"
    by simp
  then have "bit_length m + nat e < 25"
    by (rule power_less_imp_less_exp [rotated]) simp
  then show ?thesis
    using True by simp
next
  case False
  then have "m \<le> k * 2 ^ nat (- e)"
    using assms(1) by simp
  also have "\<dots> < 2 ^ 24 * 2 ^ nat (- e)"
    using assms(2) by simp
  finally have "bit_length m \<le> 24 + nat (- e)"
    by (intro bit_length_le) (simp add: power_add)
  then show ?thesis
    using False by simp
qed

lemma f32_round_shift:
  assumes "f32_abs_le (Finite s m e) k" "k < 2 ^ 24"
  shows "\<exists>j. f32_round s m e = Finite s (round_shift m j) (e + int j) \<and> f32_abs_le (Finite s (round_shift m j) (e + int j)) k \<and>
    (j = 0 \<or> e + int j \<le> 0)"
proof -
  define j where "j = nat (max (int (bit_length m) - 24) (-149 - e))"
  let ?q = "round_shift m j" and ?e = "e + int j"
  have nonneg: "0 \<le> m" "0 \<le> ?q"
    using assms(1) round_shift_nonneg by auto
  have le: "f32_abs_le (Finite s ?q ?e) k" and small: "j = 0 \<or> ?e \<le> 0"
  proof (atomize (full), cases "?e \<le> 0")
    case True
    then have "m \<le> k * 2 ^ nat (- e)" "nat (- e) = nat (- ?e) + j"
      using assms(1) f32_abs_le_neg [of e] by auto
    then have "?q \<le> k * 2 ^ nat (- ?e)"
      by (intro round_shift_le) (simp add: power_add mult.assoc)
    then show "f32_abs_le (Finite s ?q ?e) k \<and> (j = 0 \<or> ?e \<le> 0)"
      using True f32_abs_le_neg nonneg by blast
  next
    case False
    have "j = 0"
    proof (rule ccontr)
      assume "j \<noteq> 0"
      then have "j = bit_length m - 24" "24 < bit_length m"
        using False by (auto simp: j_def max_def split: if_splits)
      moreover have "int (bit_length m) + e \<le> 24"
        using f32_abs_le_not_big [OF assms] calculation nonneg by (cases "m = 0") auto
      ultimately show False
        using False by simp
    qed
    then show "f32_abs_le (Finite s ?q ?e) k \<and> (j = 0 \<or> ?e \<le> 0)"
      using assms(1) by simp
  qed
  have "?q = 0 \<or> int (bit_length ?q) + ?e \<le> 128"
    using f32_abs_le_not_big [OF le assms(2)] nonneg by (cases "?q = 0") auto
  then show ?thesis
    using le small by (intro exI [of _ j]) (auto simp: f32_round_def Let_def j_def [symmetric] simp del: f32_abs_le.simps)
qed

lemma f32_round_abs_le:
  assumes "f32_abs_le (Finite s m e) k" "k < 2 ^ 24"
  shows "\<exists>q e'. f32_round s m e = Finite s q e' \<and> f32_abs_le (Finite s q e') k"
  using f32_round_shift [OF assms] by blast

text \<open>Rounding moves a value by half a unit of its last place at most, dropping the fraction by less than one.\<close>

lemma round_shift_error: "2 * \<bar>round_shift m j * 2 ^ j - m\<bar> \<le> 2 ^ j"
proof -
  define p q r where "p = (2 :: int) ^ j" and "q = m div p" and "r = m mod p"
  have m: "m = q * p + r" and r: "0 \<le> r" "r < p"
    using div_mult_mod_eq [of m p] by (simp_all add: p_def q_def r_def)
  have shift: "round_shift m j = (if 2 * r < p \<or> (2 * r = p \<and> even q) then q else q + 1)"
    by (simp add: round_shift_def Let_def p_def q_def r_def)
  have "(q + 1) * p - m = p - r" "q * p - m = - r"
    using m by (simp_all add: algebra_simps)
  then show ?thesis
    unfolding shift p_def [symmetric] using r by (auto split: if_splits)
qed

lemma f32_round_error:
  assumes "f32_abs_le (Finite s m e) k" "k < 2 ^ 24"
  shows "\<bar>f32_real (f32_round s m e) - f32_real (Finite s m e)\<bar> \<le> 1 / 2"
proof -
  obtain j where j: "f32_round s m e = Finite s (round_shift m j) (e + int j)" "j = 0 \<or> e + int j \<le> 0"
    using f32_round_shift [OF assms] by blast
  have split: "2 powi (e + int j) = (2 powi e * 2 ^ j :: real)"
    by (simp add: power_int_add)
  let ?d = "of_int (round_shift m j) * 2 ^ j - of_int m :: real"
  have "real_of_int (2 * \<bar>round_shift m j * 2 ^ j - m\<bar>) \<le> real_of_int (2 ^ j)"
    using round_shift_error [of m j] by (subst of_int_le_iff)
  then have "2 * \<bar>?d\<bar> \<le> 2 ^ j"
    by simp
  then have "2 powi e * (2 * \<bar>?d\<bar>) \<le> (2 powi e * 2 ^ j :: real)"
    by (intro mult_left_mono) simp_all
  moreover have "of_int (round_shift m j) * 2 powi (e + int j) - of_int m * 2 powi e = 2 powi e * ?d"
    unfolding split by (simp add: algebra_simps)
  ultimately have err: "2 * \<bar>of_int (round_shift m j) * 2 powi (e + int j) - of_int m * 2 powi e\<bar> \<le> (2 powi (e + int j) :: real)"
    unfolding split by (simp add: abs_mult)
  have diff: "\<bar>f32_real (f32_round s m e) - f32_real (Finite s m e)\<bar> =
      \<bar>of_int (round_shift m j) * 2 powi (e + int j) - of_int m * 2 powi e\<bar>"
    by (simp add: j(1) abs_minus_commute)
  show ?thesis
  proof (cases "j = 0")
    case True
    then show ?thesis
      using diff by simp
  next
    case False
    then have "(2 powi (e + int j) :: real) \<le> 2 powi 0"
      using j(2) by (intro power_int_increasing) simp_all
    then show ?thesis
      using err diff by simp
  qed
qed

lemma f32_to_int_error:
  assumes "f32_to_int x = Ret v" "f32_abs_le x k"
  shows "\<bar>of_int v - f32_real x\<bar> < 1"
proof (cases x)
  case (Finite s m e)
  have m: "0 \<le> m"
    using assms(2) Finite by simp
  have "\<bar>of_int (trunc_abs m e) - of_int m * 2 powi e :: real\<bar> < 1"
  proof (cases "0 \<le> e")
    case True
    then show ?thesis
      by (simp add: trunc_abs_def power_int_def)
  next
    case False
    define p where "p = (2 :: int) ^ nat (- e)"
    have p: "0 < p" "(2 powi e :: real) = 1 / of_int p"
      using False by (simp_all add: p_def power_int_def power_one_over)
    have "real_of_int m = of_int (m div p) * of_int p + of_int (m mod p)"
      by (metis div_mult_mod_eq of_int_add of_int_mult)
    moreover have "0 \<le> m mod p" "m mod p < p"
      using p(1) by simp_all
    ultimately have "of_int (m div p) - of_int m / of_int p = - (of_int (m mod p) / of_int p :: real)" "0 \<le> (of_int (m mod p) / of_int p :: real)"
      "of_int (m mod p) / of_int p < (1 :: real)"
      using p(1) by (simp_all add: field_simps)
    then show ?thesis
      using False p(2) by (simp add: trunc_abs_def p_def [symmetric])
  qed
  moreover have "v = (if s then - trunc_abs m e else trunc_abs m e)"
    using assms(1) Finite by (simp add: Let_def split: if_splits)
  ultimately show ?thesis
    using Finite by (auto simp: abs_minus_commute)
qed (use assms in auto)

lemma f32_to_int_abs_le:
  assumes "f32_abs_le x k" "k < 2 ^ 24"
  shows "\<exists>v. f32_to_int x = Ret v \<and> \<bar>v\<bar> \<le> k"
proof (cases x)
  case (Finite s m e)
  have "m div 2 ^ nat (- e) \<le> k" if "m \<le> k * 2 ^ nat (- e)"
    using zdiv_mono1 [OF that, of "2 ^ nat (- e)"] by simp
  then have "0 \<le> trunc_abs m e" "trunc_abs m e \<le> k"
    using assms(1) Finite by (auto simp: trunc_abs_def pos_imp_zdiv_nonneg_iff split: if_splits)
  then show ?thesis
    using Finite assms(2) by (auto simp: Let_def)
qed (use assms in auto)

lemma f32_mul_abs_le:
  assumes "f32_abs_le x 1" "0 \<le> k" "k < 2 ^ 24"
  shows "f32_abs_le (f32_mul x (f32_of_int k)) k"
proof (cases x)
  case (Finite s m e)
  have "f32_abs_le (Finite s (m * k) e) k"
    using assms(1,2) Finite mult_right_mono [of "m * 2 ^ nat e" 1 k]
      mult_right_mono [of m "2 ^ nat (- e)" k]
    by (auto simp: mult.commute mult.left_commute split: if_splits)
  then obtain q e' where "f32_round s (m * k) e = Finite s q e'" "f32_abs_le (Finite s q e') k"
    using f32_round_abs_le assms(3) by blast
  then show ?thesis
    using Finite assms(2) by (simp add: f32_of_int_def not_less del: f32_abs_le.simps)
qed (use assms in auto)

text \<open>A value of magnitude at most 1 scales to an integer of magnitude at most \<open>k\<close>.\<close>

lemma f32_scale_bound:
  assumes "f32_abs_le x 1" "0 \<le> k" "k < 2 ^ 24"
  obtains v where "f32_to_int (f32_mul x (f32_of_int k)) = Ret v" "\<bar>v\<bar> \<le> k"
  using f32_to_int_abs_le [OF f32_mul_abs_le [OF assms]] assms(3) by auto

text \<open>Its distance to the exact product.\<close>

lemma f32_scale_error:
  assumes "f32_abs_le x 1" "0 \<le> k" "k < 2 ^ 24" "f32_to_int (f32_mul x (f32_of_int k)) = Ret v"
  shows "\<bar>of_int v - of_int k * f32_real x\<bar> < 3 / 2"
proof (cases x)
  case (Finite s m e)
  have le: "f32_abs_le (Finite s (m * k) e) k"
    using assms(1,2) Finite mult_right_mono [of "m * 2 ^ nat e" 1 k]
      mult_right_mono [of m "2 ^ nat (- e)" k]
    by (auto simp: mult.commute mult.left_commute split: if_splits)
  have mul: "f32_mul x (f32_of_int k) = f32_round s (m * k) e"
    using Finite assms(2) by (simp add: f32_of_int_def not_less)
  have "\<bar>f32_real (f32_mul x (f32_of_int k)) - f32_real (Finite s (m * k) e)\<bar> \<le> 1 / 2"
    unfolding mul by (rule f32_round_error [OF le assms(3)])
  moreover have "\<bar>of_int v - f32_real (f32_mul x (f32_of_int k))\<bar> < 1"
    using f32_to_int_error [OF assms(4)] f32_mul_abs_le [OF assms(1-3)] by blast
  moreover have "f32_real (Finite s (m * k) e) = of_int k * f32_real x"
    using Finite by simp
  ultimately show ?thesis
    by linarith
qed (use assms in auto)

end
