(* ===== verification/Framing.thy ===== *)
theory Framing
  imports Prelude
begin

text \<open>
  Cutting a stream into packets of a fixed size. A module that receives the stream in chunks of any
  size keeps the bytes that do not fill a packet yet; the contract \<open>packet_stream\<close> says that
  feeding it a chunk handles the packets of what it kept followed by the chunk. Its client lemma:
  how the stream is cut into chunks does not matter. The Input module provides the contract for its
  34-byte packets of bytes, the audio encoder for its packets of 20 ms of audio frames; \<open>fits\<close> says
  which chunks the module accepts.
\<close>

text \<open>The reference: handle the packets of a byte string in order, up to the first failure (a
  negative result), and return the rest.\<close>

function frames ::
    "nat \<Rightarrow> ('a list \<Rightarrow> 'c \<Rightarrow> (int \<times> 'c) outcome) \<Rightarrow> 'a list \<Rightarrow> 'c \<Rightarrow> (int \<times> 'c \<times> 'a list) outcome" where
  "frames n handle bs c =
     (if n = 0 \<or> length bs < n then Ret (0, c, bs)
      else bindo (handle (take n bs) c) (\<lambda>(r, c).
           if r < 0 then Ret (-1, c, []) else frames n handle (drop n bs) c))"
  by pat_completeness auto
termination
  by (relation "measure (\<lambda>(n, handle, bs, c). length bs)") auto

declare frames.simps [simp del]

lemma frames_short: "length bs < n \<Longrightarrow> frames n handle bs c = Ret (0, c, bs)"
  by (simp add: frames.simps)

lemma frames_packet:
  "0 < n \<Longrightarrow> n \<le> length bs \<Longrightarrow> frames n handle bs c =
     bindo (handle (take n bs) c) (\<lambda>(r, c). if r < 0 then Ret (-1, c, []) else frames n handle (drop n bs) c)"
  by (subst frames.simps) auto

lemma frames_append:
  assumes "0 < n"
  shows "frames n handle (xs @ ys) c =
    bindo (frames n handle xs c) (\<lambda>(r, c, rest).
      if r < 0 then Ret (-1, c, []) else frames n handle (rest @ ys) c)"
proof (induction xs arbitrary: c rule: length_induct)
  case (1 xs)
  show ?case
  proof (cases "length xs < n")
    case True
    then show ?thesis
      by (simp add: frames_short)
  next
    case False
    then have "frames n handle (drop n xs @ ys) c' =
        bindo (frames n handle (drop n xs) c') (\<lambda>(r, c, rest).
          if r < 0 then Ret (-1, c, []) else frames n handle (rest @ ys) c)" for c'
      using 1 assms by simp
    then show ?thesis
      using False assms
      by (auto simp: frames_packet bindo_assoc split: prod.split intro!: bindo_cong)
  qed
qed

lemma frames_result:
  assumes "frames n handle bs c = Ret (r, c', rest)" "0 < n"
  shows "(r = 0 \<or> r = -1) \<and> length rest < n"
  using assms
proof (induction n handle bs c rule: frames.induct)
  case (1 n handle bs c)
  show ?case
  proof (cases "length bs < n")
    case True
    then show ?thesis
      using 1(2) by (simp add: frames_short)
  next
    case False
    then obtain r1 c1 where "handle (take n bs) c = Ret (r1, c1)"
      "(if r1 < 0 then Ret (-1, c1, []) else frames n handle (drop n bs) c1) = Ret (r, c', rest)"
      using 1(2,3) by (auto simp: frames_packet elim!: bindo_RetE)
    then show ?thesis
      using 1(1) [of "(r1, c1)" r1 c1] False 1(3) by (auto split: if_splits)
  qed
qed

text \<open>What every packet keeps, the whole stream keeps.\<close>

lemma frames_keep:
  assumes "\<And>pkt c. P c \<Longrightarrow> \<exists>c'. handle pkt c = Ret (0, c') \<and> P c'" "P c"
  shows "\<exists>c' rest. frames n handle bs c = Ret (0, c', rest) \<and> P c'"
  using assms
proof (induction n handle bs c rule: frames.induct)
  case (1 n handle bs c)
  show ?case
  proof (cases "n = 0 \<or> length bs < n")
    case True
    then show ?thesis
      using 1(3) by (simp add: frames.simps)
  next
    case False
    obtain c' where "handle (take n bs) c = Ret (0, c')" "P c'"
      using 1(2,3) by blast
    then show ?thesis
      using 1(1) [OF False, of "(0, c')" 0 c'] 1(2) False by (subst frames.simps) auto
  qed
qed

text \<open>Feeding the chunks one after the other, stopping at the first failure.\<close>

primrec feed_all :: "('a list \<Rightarrow> 's \<Rightarrow> (int \<times> 's) outcome) \<Rightarrow> 'a list list \<Rightarrow> 's \<Rightarrow> (int \<times> 's) outcome" where
  "feed_all feed [] s = Ret (0, s)"
| "feed_all feed (d # ds) s = bindo (feed d s) (\<lambda>(r, s). if r < 0 then Ret (-1, s) else feed_all feed ds s)"

text \<open>A result of the module agrees with a result of the reference.\<close>

definition feed_agrees ::
    "('s \<Rightarrow> bool) \<Rightarrow> ('s \<Rightarrow> 'a list) \<Rightarrow> ('s \<Rightarrow> 'c) \<Rightarrow> (int \<times> 's) outcome \<Rightarrow> (int \<times> 'c \<times> 'a list) outcome \<Rightarrow> bool"
where
  "feed_agrees ok pending core x y \<longleftrightarrow>
     (case y of
        Block \<Rightarrow> x = Block
      | Fault f \<Rightarrow> x = Fault f
      | Ret (r, c, rest) \<Rightarrow>
          \<exists>s. x = Ret (r, s) \<and> core s = c \<and> (r \<ge> 0 \<longrightarrow> ok s \<and> pending s = rest))"

lemma feed_agrees_simps [simp]:
  "feed_agrees ok pending core x Block \<longleftrightarrow> x = Block"
  "feed_agrees ok pending core x (Fault f) \<longleftrightarrow> x = Fault f"
  "feed_agrees ok pending core x (Ret (r, c, rest)) \<longleftrightarrow>
     (\<exists>s. x = Ret (r, s) \<and> core s = c \<and> (r \<ge> 0 \<longrightarrow> ok s \<and> pending s = rest))"
  by (simp_all add: feed_agrees_def)

locale packet_stream =
  fixes fits :: "'a list \<Rightarrow> bool"
    and n :: nat
    and handle :: "'a list \<Rightarrow> 'c \<Rightarrow> (int \<times> 'c) outcome"
    and feed :: "'a list \<Rightarrow> 's \<Rightarrow> (int \<times> 's) outcome"
    and ok :: "'s \<Rightarrow> bool" and pending :: "'s \<Rightarrow> 'a list" and core :: "'s \<Rightarrow> 'c"
  assumes pending_short: "ok s \<Longrightarrow> length (pending s) < n"
    and feed_frames: "ok s \<Longrightarrow> fits data \<Longrightarrow>
      feed_agrees ok pending core (feed data s) (frames n handle (pending s @ data) (core s))"
begin

lemma feed_all_frames:
  assumes "ok s" "list_all fits ds"
  shows "feed_agrees ok pending core (feed_all feed ds s) (frames n handle (pending s @ concat ds) (core s))"
  using assms
proof (induction ds arbitrary: s)
  case Nil
  then show ?case
    by (simp add: feed_agrees_def frames_short [OF pending_short])
next
  case (Cons d ds)
  let ?fr = "frames n handle (pending s @ d) (core s)"
  have size: "0 < n"
    using pending_short [OF Cons.prems(1)] by simp
  have split: "frames n handle (pending s @ d @ concat ds) (core s) =
      bindo ?fr (\<lambda>(r, c, rest). if r < 0 then Ret (-1, c, []) else frames n handle (rest @ concat ds) c)"
    using frames_append [OF size, of handle "pending s @ d" "concat ds" "core s"] by simp
  have agree: "feed_agrees ok pending core (feed d s) ?fr"
    using feed_frames [OF Cons.prems(1)] Cons.prems(2) by simp
  show ?case
  proof (cases ?fr)
    case (Ret p)
    obtain r c rest where p: "p = (r, c, rest)"
      by (cases p) auto
    then obtain s1 where s1: "feed d s = Ret (r, s1)" "core s1 = c"
      and k: "r \<ge> 0 \<longrightarrow> ok s1 \<and> pending s1 = rest"
      using agree Ret by (auto simp: feed_agrees_def)
    have "r < 0 \<longrightarrow> r = -1"
      using frames_result [of n handle "pending s @ d" "core s" r c rest] Ret p size by auto
    then show ?thesis
      using Cons.IH [of s1] Cons.prems(2) Ret p s1 k by (auto simp: split feed_agrees_def)
  qed (use agree in \<open>auto simp: split feed_agrees_def\<close>)
qed

end

end
