(* ===== verification/Input.thy ===== *)
theory Input
  imports Gamepad Float32 Rbuf Framing
begin

text \<open>
  The Input module, \<^verbatim>\<open>stratusd/Input/src/Input.c\<close>: it takes messages (chunks of the client's input
  stream) from the input queue, cuts them into packets of 34 bytes, and applies each packet to the
  virtual gamepad it names.

  The state is the session together with the outside world: the events written to uinput, the
  resource actions of the gamepads, and how often \<open>gamepad_init\<close> was called. \<^verbatim>\<open>char\<close> is signed and
  integers are little-endian (x86-64). The session comes from \<^verbatim>\<open>malloc\<close>, so its gamepad slots
  start with whatever the memory held.
\<close>

section \<open>State\<close>

abbreviation MAX_GAMEPADS :: int where "MAX_GAMEPADS \<equiv> 8"
abbreviation INPUT_PKT_DEVICE :: nat where "INPUT_PKT_DEVICE \<equiv> 0"
abbreviation INPUT_PKT_BUTTONS :: nat where "INPUT_PKT_BUTTONS \<equiv> 1"
abbreviation INPUT_PKT_AXES :: nat where "INPUT_PKT_AXES \<equiv> 18"
abbreviation INPUT_PKT_LENGTH :: nat where "INPUT_PKT_LENGTH \<equiv> 34"

datatype pad_slot = Uninit | Null | Pad gamepad

record input_session =
  msg_buffer :: "byte list"
  msg_buffer_len :: int
  gamepads :: "pad_slot list"
  in_out :: pad_out
  in_acts :: "pad_action list"
  in_inits :: nat

text \<open>libevdev and the allocator: \<open>ie_pads k\<close> is the environment of the \<open>k\<close>-th \<open>gamepad_init\<close>.\<close>

record input_env =
  ie_write :: pad_write
  ie_pads :: "nat \<Rightarrow> pad_env"

section \<open>Operations\<close>

text \<open>Four bytes of the packet, read through a \<^verbatim>\<open>float\<close> pointer.\<close>

definition le32 :: "byte list \<Rightarrow> nat \<Rightarrow> u32" where
  "le32 bs i = word_of_int (uint (bs ! i) + 2 ^ 8 * uint (bs ! (i + 1)) + 2 ^ 16 * uint (bs ! (i + 2)) +
     2 ^ 24 * uint (bs ! (i + 3)))"

definition packet_axis :: "byte list \<Rightarrow> nat \<Rightarrow> int outcome" where
  "packet_axis event i =
     f32_to_int (f32_mul (f32_decode (le32 event (INPUT_PKT_AXES + 4 * i))) (f32_of_int GAMEPAD_AXIS_RANGE))"

primrec packet_axes :: "byte list \<Rightarrow> nat list \<Rightarrow> int list outcome" where
  "packet_axes event [] = Ret []"
| "packet_axes event (i # js) =
     bindo (packet_axis event i) (\<lambda>v. bindo (packet_axes event js) (\<lambda>vs. Ret (v # vs)))"

definition packet_state :: "byte list \<Rightarrow> gamepad_state outcome" where
  "packet_state event =
     (let buttons = map (\<lambda>i. event ! (INPUT_PKT_BUTTONS + i) \<noteq> 0) [0..<GAMEPAD_BUTTON_COUNT] in
      bindo (packet_axes event [0..<GAMEPAD_AXIS_COUNT]) (\<lambda>axes.
      Ret \<lparr>gs_buttons = buttons, gs_axes = axes\<rparr>))"

text \<open>The gamepad of a packet, created on first use; \<open>None\<close> when that fails.\<close>

definition input_get_pad ::
    "input_env \<Rightarrow> nat \<Rightarrow> input_session \<Rightarrow> (gamepad option \<times> input_session) outcome" where
  "input_get_pad env i s =
     (case gamepads s ! i of
        Uninit \<Rightarrow> Fault Indeterminate
      | Pad gp \<Rightarrow> Ret (Some gp, s)
      | Null \<Rightarrow>
          bindo (gamepad_init (ie_pads env (in_inits s)) (in_inits s)) (\<lambda>(gp, acts).
               Ret (gp, s\<lparr>in_inits := Suc (in_inits s), in_acts := in_acts s @ acts,
                 gamepads := (gamepads s)[i := (case gp of None \<Rightarrow> Null | Some gp \<Rightarrow> Pad gp)]\<rparr>)))"

definition input_recv_event ::
    "input_env \<Rightarrow> byte list \<Rightarrow> input_session \<Rightarrow> (int \<times> input_session) outcome" where
  "input_recv_event env event s =
     (let idx = sint (event ! INPUT_PKT_DEVICE) in
      if idx < 0 \<or> idx \<ge> MAX_GAMEPADS then Ret (0, s)
      else
        bindo (input_get_pad env (nat idx) s) (\<lambda>(pad, s).
        case pad of
          None \<Rightarrow> Ret (-1, s)
        | Some gp \<Rightarrow>
            bindo (packet_state event) (\<lambda>st.
            case gamepad_update (ie_write env) gp st (in_out s) of
              (ret, gp, out) \<Rightarrow>
                Ret (ret, s\<lparr>gamepads := (gamepads s)[nat idx := Pad gp], in_out := out\<rparr>))))"

text \<open>The inner loop of \<open>input_recv_raw\<close>: fill the buffer from the message.\<close>

fun input_fill :: "input_session \<Rightarrow> byte list \<Rightarrow> (input_session \<times> byte list) outcome" where
  "input_fill s [] = Ret (s, [])"
| "input_fill s (b # data) =
     (if msg_buffer_len s < int INPUT_PKT_LENGTH
      then if 0 \<le> msg_buffer_len s \<and> nat (msg_buffer_len s) < length (msg_buffer s)
           then input_fill (s\<lparr>msg_buffer := (msg_buffer s)[nat (msg_buffer_len s) := b],
                              msg_buffer_len := msg_buffer_len s + 1\<rparr>) data
           else Fault Out_Of_Bounds
      else Ret (s, b # data))"

text \<open>
  One iteration of the outer loop, in three parts: a packet straight from the message, filling the
  buffer, a packet from the full buffer. A part yields the result -1, or the state and the rest of
  the message.
\<close>

definition recv_direct ::
    "input_env \<Rightarrow> input_session \<Rightarrow> byte list \<Rightarrow> (int \<times> input_session \<times> byte list) outcome" where
  "recv_direct env s data =
     (if msg_buffer_len s = 0 \<and> length data \<ge> INPUT_PKT_LENGTH
      then bindo (input_recv_event env data s) (\<lambda>(r, s).
           if r < 0 then Ret (-1, s, data) else Ret (0, s, drop INPUT_PKT_LENGTH data))
      else Ret (0, s, data))"

definition recv_buffered :: "input_env \<Rightarrow> input_session \<Rightarrow> (int \<times> input_session) outcome" where
  "recv_buffered env s =
     (if msg_buffer_len s = int INPUT_PKT_LENGTH
      then bindo (input_recv_event env (msg_buffer s) s) (\<lambda>(r, s).
           if r < 0 then Ret (-1, s) else Ret (0, s\<lparr>msg_buffer_len := 0\<rparr>))
      else Ret (0, s))"

text \<open>
  The outer loop. While the buffer holds less than a packet, an iteration on a non-empty message
  consumes at least one byte, so that as many iterations as the message has bytes, and one more,
  are enough; running out of them would be \<open>Block\<close>.
\<close>

primrec recv_loop ::
    "nat \<Rightarrow> input_env \<Rightarrow> input_session \<Rightarrow> byte list \<Rightarrow> (int \<times> input_session) outcome" where
  "recv_loop 0 env s data = Block"
| "recv_loop (Suc fuel) env s data =
     bindo (recv_direct env s data) (\<lambda>(r, s, data).
     if r < 0 then Ret (-1, s)
     else
       bindo (input_fill s data) (\<lambda>(s, data).
       bindo (recv_buffered env s) (\<lambda>(r, s).
       if r < 0 then Ret (-1, s)
       else if data = [] then Ret (0, s)
       else recv_loop fuel env s data)))"

definition input_recv_raw ::
    "input_env \<Rightarrow> byte list \<Rightarrow> input_session \<Rightarrow> (int \<times> input_session) outcome" where
  "input_recv_raw env data s = recv_loop (Suc (length data)) env s data"

text \<open>The cleanup handler.\<close>

primrec destroy_pads :: "pad_slot list \<Rightarrow> pad_action list outcome" where
  "destroy_pads [] = Ret []"
| "destroy_pads (p # ps) =
     (case p of
        Uninit \<Rightarrow> Fault Indeterminate
      | Null \<Rightarrow> destroy_pads ps
      | Pad gp \<Rightarrow> bindo (destroy_pads ps) (\<lambda>acts. Ret (gamepad_destroy gp @ acts)))"

definition input_destroy :: "input_session \<Rightarrow> input_session outcome" where
  "input_destroy s =
     bindo (destroy_pads (gamepads s)) (\<lambda>acts. Ret (s\<lparr>in_acts := in_acts s @ acts\<rparr>))"

text \<open>
  The start of \<open>input_main\<close>, on the memory the allocator returned (\<open>None\<close> when it failed), up to the
  main loop. When the first gamepad cannot be created the code frees the session and jumps to the
  cleanup, which runs \<open>input_destroy\<close> on it.
\<close>

definition input_start ::
    "input_env \<Rightarrow> (byte list \<times> pad_slot list) option \<Rightarrow> input_session option outcome" where
  "input_start env mem =
     (case mem of
        None \<Rightarrow> Ret None
      | Some (buf, pads) \<Rightarrow>
          bindo (gamepad_init (ie_pads env 0) 0) (\<lambda>(gp, acts).
          case gp of
            None \<Rightarrow> Fault Use_After_Free
          | Some gp \<Rightarrow>
               Ret (Some \<lparr>msg_buffer = buf, msg_buffer_len = 0, gamepads = pads[0 := Pad gp], in_out = [],
                          in_acts = acts, in_inits = 1\<rparr>)))"

text \<open>
  One iteration of the main loop: wait for the latest message, handle it, pop it. On failure the
  cleanup handler runs.
\<close>

type_synonym input_queue = "(byte list, byte list list) rbuf"

definition input_iterate ::
    "input_env \<Rightarrow> input_queue \<times> input_session \<Rightarrow> (int \<times> input_queue \<times> input_session) outcome" where
  "input_iterate env = (\<lambda>(q, s).
     bindo (rbuf_wait_peak_latest q) (\<lambda>(q, msg).
     bindo (derefo msg) (\<lambda>data.
     bindo (input_recv_raw env data s) (\<lambda>(r, s).
     if r < 0 then bindo (input_destroy s) (\<lambda>s. Ret (-1, q, s))
     else bindo (rbuf_pop q) (\<lambda>q. Ret (0, q, s))))))"


section \<open>Framing\<close>

text \<open>The part of the session a packet works on, apart from the message buffer.\<close>

type_synonym input_core = "pad_slot list \<times> pad_out \<times> pad_action list \<times> nat"

definition input_core :: "input_session \<Rightarrow> input_core" where
  "input_core s = (gamepads s, in_out s, in_acts s, in_inits s)"

definition core_session :: "input_core \<Rightarrow> input_session" where
  "core_session = (\<lambda>(pads, out, acts, k).
     \<lparr>msg_buffer = [], msg_buffer_len = 0, gamepads = pads, in_out = out, in_acts = acts, in_inits = k\<rparr>)"

definition input_packet :: "input_env \<Rightarrow> byte list \<Rightarrow> input_core \<Rightarrow> (int \<times> input_core) outcome" where
  "input_packet env event c =
     bindo (input_recv_event env event (core_session c)) (\<lambda>(r, s). Ret (r, input_core s))"

definition input_pending :: "input_session \<Rightarrow> byte list" where
  "input_pending s = take (nat (msg_buffer_len s)) (msg_buffer s)"

definition input_ok :: "input_session \<Rightarrow> bool" where
  "input_ok s \<longleftrightarrow> length (msg_buffer s) = INPUT_PKT_LENGTH \<and> 0 \<le> msg_buffer_len s \<and>
     msg_buffer_len s < int INPUT_PKT_LENGTH"

definition set_buffer :: "byte list \<Rightarrow> int \<Rightarrow> input_session \<Rightarrow> input_session" where
  "set_buffer b l s = s\<lparr>msg_buffer := b, msg_buffer_len := l\<rparr>"

lemma set_buffer_simps [simp]:
  "msg_buffer (set_buffer b l s) = b" "msg_buffer_len (set_buffer b l s) = l"
  "gamepads (set_buffer b l s) = gamepads s" "in_out (set_buffer b l s) = in_out s"
  "in_acts (set_buffer b l s) = in_acts s" "in_inits (set_buffer b l s) = in_inits s"
  "input_core (set_buffer b l s) = input_core s"
  "core_session (input_core s) = set_buffer [] 0 s"
  "set_buffer b l (set_buffer b' l' s) = set_buffer b l s"
  "set_buffer (msg_buffer s) (msg_buffer_len s) s = s"
  by (simp_all add: set_buffer_def input_core_def core_session_def)

lemma input_get_pad_buffer:
  "input_get_pad env i (set_buffer b l s) =
     bindo (input_get_pad env i s) (\<lambda>(p, s). Ret (p, set_buffer b l s))"
  by (cases "gamepad_init (ie_pads env (in_inits s)) (in_inits s)")
    (auto simp: input_get_pad_def set_buffer_def split: pad_slot.split prod.split)

lemma input_get_pad_kept:
  "input_get_pad env i s = Ret (p, s') \<Longrightarrow>
     msg_buffer s' = msg_buffer s \<and> msg_buffer_len s' = msg_buffer_len s"
  by (auto simp: input_get_pad_def split: pad_slot.splits elim!: bindo_RetE)

lemma input_recv_event_buffer:
  "input_recv_event env event (set_buffer b l s) =
     bindo (input_recv_event env event s) (\<lambda>(r, s). Ret (r, set_buffer b l s))"
proof -
  have upd: "(set_buffer b l s)\<lparr>gamepads := p, in_out := out\<rparr> = set_buffer b l (s\<lparr>gamepads := p, in_out := out\<rparr>)"
    for p out and s :: input_session
    by (simp add: set_buffer_def)
  show ?thesis
    by (cases "input_get_pad env (nat (sint (event ! INPUT_PKT_DEVICE))) s"; cases "packet_state event")
      (auto simp: input_recv_event_def input_get_pad_buffer Let_def upd split: prod.split option.split)
qed

lemma packet_state_take:
  "packet_state (take INPUT_PKT_LENGTH event) = packet_state event"
proof -
  have axes: "packet_axes (take INPUT_PKT_LENGTH event) js = packet_axes event js" if "\<forall>j\<in>set js. j < 4" for js
    using that by (induction js) (auto simp: packet_axis_def le32_def)
  have buttons: "map (\<lambda>i. take INPUT_PKT_LENGTH event ! (INPUT_PKT_BUTTONS + i) \<noteq> 0) [0..<GAMEPAD_BUTTON_COUNT] =
      map (\<lambda>i. event ! (INPUT_PKT_BUTTONS + i) \<noteq> 0) [0..<GAMEPAD_BUTTON_COUNT]"
    by (intro map_cong refl) simp
  show ?thesis
    unfolding packet_state_def buttons by (simp add: axes del: upt_rec_numeral)
qed

lemma input_recv_event_take:
  "input_recv_event env (take INPUT_PKT_LENGTH event) s = input_recv_event env event s"
  unfolding input_recv_event_def packet_state_take by simp

lemma input_recv_event_packet:
  "input_recv_event env event s =
     bindo (input_packet env (take INPUT_PKT_LENGTH event) (input_core s)) (\<lambda>(r, c).
       Ret (r, set_buffer (msg_buffer s) (msg_buffer_len s) (core_session c)))"
proof -
  have "input_recv_event env event s =
      bindo (input_recv_event env event s) (\<lambda>(r, s'). Ret (r, set_buffer (msg_buffer s) (msg_buffer_len s) s'))"
    using input_recv_event_buffer [of env event "msg_buffer s" "msg_buffer_len s" s] by simp
  then show ?thesis
    by (cases "input_recv_event env event s")
      (auto simp: input_packet_def input_recv_event_take input_recv_event_buffer)
qed


text \<open>Filling takes as many bytes as fit.\<close>

lemma input_fill_eq:
  assumes "length (msg_buffer s) = INPUT_PKT_LENGTH" "0 \<le> msg_buffer_len s"
    "msg_buffer_len s \<le> int INPUT_PKT_LENGTH"
  shows "\<exists>b. input_fill s data =
      Ret (set_buffer b (msg_buffer_len s + int (min (length data) (INPUT_PKT_LENGTH - nat (msg_buffer_len s)))) s,
           drop (INPUT_PKT_LENGTH - nat (msg_buffer_len s)) data) \<and>
    length b = INPUT_PKT_LENGTH \<and>
    take (nat (msg_buffer_len s) + min (length data) (INPUT_PKT_LENGTH - nat (msg_buffer_len s))) b =
      input_pending s @ take (INPUT_PKT_LENGTH - nat (msg_buffer_len s)) data"
  using assms
proof (induction s data rule: input_fill.induct)
  case (1 s)
  then show ?case
    by (intro exI [of _ "msg_buffer s"]) (simp add: input_pending_def)
next
  case (2 s x data)
  let ?l = "nat (msg_buffer_len s)"
  show ?case
  proof (cases "msg_buffer_len s < int INPUT_PKT_LENGTH")
    case True
    let ?s = "s\<lparr>msg_buffer := (msg_buffer s)[?l := x], msg_buffer_len := msg_buffer_len s + 1\<rparr>"
    have l: "nat (msg_buffer_len s + 1) = Suc ?l" "?l < 34" "msg_buffer_len s = int ?l"
      using 2(3) True by auto
    obtain b where b: "input_fill ?s data =
        Ret (set_buffer b (msg_buffer_len s + 1 + int (min (length data) (33 - ?l))) ?s, drop (33 - ?l) data)"
      "length b = 34" "take (Suc ?l + min (length data) (33 - ?l)) b = input_pending ?s @ take (33 - ?l) data"
      using 2 True l by auto
    have "input_pending ?s = input_pending s @ [x]"
      using l 2(2) by (simp add: input_pending_def take_Suc_conv_app_nth)
    moreover have "34 - ?l = Suc (33 - ?l)"
      using l(2) by simp
    moreover have "set_buffer b m ?s = set_buffer b m s" for m
      by (simp add: set_buffer_def)
    ultimately show ?thesis
      using b True 2(2,3) by (intro exI [of _ b]) simp
  next
    case False
    then have "msg_buffer_len s = 34"
      using 2(4) by simp
    then show ?thesis
      using 2(2) False by (intro exI [of _ "msg_buffer s"]) (simp add: input_pending_def)
  qed
qed


abbreviation input_agrees where
  "input_agrees \<equiv> feed_agrees input_ok input_pending input_core"

abbreviation input_frames where
  "input_frames env \<equiv> frames INPUT_PKT_LENGTH (input_packet env)"

definition recv_tail ::
    "nat \<Rightarrow> input_env \<Rightarrow> input_session \<Rightarrow> byte list \<Rightarrow> (int \<times> input_session) outcome" where
  "recv_tail fuel env s data =
     bindo (input_fill s data) (\<lambda>(s, data).
     bindo (recv_buffered env s) (\<lambda>(r, s).
     if r < 0 then Ret (-1, s)
     else if data = [] then Ret (0, s)
     else recv_loop fuel env s data))"

lemma recv_loop_Suc:
  "recv_loop (Suc fuel) env s data =
     bindo (recv_direct env s data) (\<lambda>(r, s, data). if r < 0 then Ret (-1, s) else recv_tail fuel env s data)"
  unfolding recv_tail_def recv_loop.simps ..

declare recv_loop.simps(2) [simp del]

lemma input_core_session [simp]: "input_core (core_session c) = c"
  by (auto simp: input_core_def core_session_def split: prod.split)

lemma recv_tail_frames:
  assumes IH: "\<And>s data. input_ok s \<Longrightarrow> length data < fuel \<Longrightarrow>
      input_agrees (recv_loop fuel env s data) (input_frames env (input_pending s @ data) (input_core s))"
    and ok: "input_ok s" and fuel: "length data \<le> fuel"
  shows "input_agrees (recv_tail fuel env s data) (input_frames env (input_pending s @ data) (input_core s))"
proof -
  define l where "l = nat (msg_buffer_len s)"
  have l: "l < 34" "msg_buffer_len s = int l" "length (input_pending s) = l"
    using ok by (auto simp: input_ok_def l_def input_pending_def)
  obtain b where fill: "input_fill s data =
      Ret (set_buffer b (int l + int (min (length data) (34 - l))) s, drop (34 - l) data)"
    and b: "length b = 34" "take (l + min (length data) (34 - l)) b = input_pending s @ take (34 - l) data"
    using input_fill_eq [of s data] ok l by (auto simp: input_ok_def)
  show ?thesis
  proof (cases "length data < 34 - l")
    case True
    then have "input_frames env (input_pending s @ data) (input_core s) =
        Ret (0, input_core s, input_pending s @ data)"
      using l by (intro frames_short) simp
    moreover have "int l + int (length data) < 34"
      using True l(1) by simp
    ultimately show ?thesis
      using True fill b l by (simp add: recv_tail_def recv_buffered_def feed_agrees_def input_ok_def
          input_pending_def [of "set_buffer _ _ _"] nat_add_distrib)
  next
    case False
    have pk: "take 34 (input_pending s @ data) = b" "drop 34 (input_pending s @ data) = drop (34 - l) data"
      using False b l by simp_all
    have fr: "input_frames env (input_pending s @ data) (input_core s) =
        bindo (input_packet env b (input_core s)) (\<lambda>(r, c).
          if r < 0 then Ret (-1, c, []) else input_frames env (drop (34 - l) data) c)"
      using False l frames_packet [of 34 "input_pending s @ data" "input_packet env" "input_core s", unfolded pk]
      by simp
    have full: "int l + int (min (length data) (34 - l)) = 34"
      using False l(1) by simp
    have ev: "input_recv_event env b (set_buffer b 34 s) =
        bindo (input_packet env b (input_core s)) (\<lambda>(r, c). Ret (r, set_buffer b 34 (core_session c)))"
      using b(1) input_recv_event_packet [of env b "set_buffer b 34 s"] by simp
    have empty: "input_ok (set_buffer b 0 (core_session c))" "input_pending (set_buffer b 0 (core_session c)) = []" for c
      using b(1) by (simp_all add: input_ok_def input_pending_def)
    have "length (drop (34 - l) data) < fuel \<or> drop (34 - l) data = []"
      using fuel l(1) by (cases data) auto
    then have rest: "input_agrees (if drop (34 - l) data = [] then Ret (0, set_buffer b 0 (core_session c))
        else recv_loop fuel env (set_buffer b 0 (core_session c)) (drop (34 - l) data))
        (input_frames env (drop (34 - l) data) c)" for c
      using IH [of "set_buffer b 0 (core_session c)" "drop (34 - l) data"] empty [of c]
      by (auto simp: frames_short feed_agrees_def)
    have zero: "set_buffer b 34 s\<lparr>msg_buffer_len := 0\<rparr> = set_buffer b 0 s" for s
      by (simp add: set_buffer_def)
    show ?thesis
      using fill fr ev rest
      by (cases "input_packet env b (input_core s)")
        (auto simp: recv_tail_def recv_buffered_def full zero)
  qed
qed

lemma recv_loop_frames:
  assumes "input_ok s" "length data < fuel"
  shows "input_agrees (recv_loop fuel env s data) (input_frames env (input_pending s @ data) (input_core s))"
  using assms
proof (induction fuel arbitrary: s data)
  case (Suc fuel)
  show ?case
  proof (cases "msg_buffer_len s = 0 \<and> length data \<ge> 34")
    case True
    have fr: "input_frames env (input_pending s @ data) (input_core s) =
        bindo (input_packet env (take 34 data) (input_core s)) (\<lambda>(r, c).
          if r < 0 then Ret (-1, c, []) else input_frames env (drop 34 data) c)"
      using True frames_packet [of 34 data] by (simp add: input_pending_def)
    let ?s = "\<lambda>c. set_buffer (msg_buffer s) 0 (core_session c)"
    have ok: "input_ok (?s c)" "input_pending (?s c) = []" for c
      using Suc.prems(1) by (simp_all add: input_ok_def input_pending_def)
    have tail: "input_agrees (recv_tail fuel env (?s c) (drop 34 data)) (input_frames env (drop 34 data) c)" for c
      using recv_tail_frames [OF Suc.IH ok(1), of "drop 34 data" c] ok(2) [of c] Suc.prems(2) by simp
    show ?thesis
      using True fr tail input_recv_event_packet [of env data s]
      by (cases "input_packet env (take 34 data) (input_core s)")
        (auto simp: recv_loop_Suc recv_direct_def)
  next
    case False
    then have "recv_direct env s data = Ret (0, s, data)"
      by (auto simp: recv_direct_def)
    then show ?thesis
      using recv_tail_frames [OF Suc.IH Suc.prems(1)] Suc.prems(2) by (simp add: recv_loop_Suc)
  qed
qed simp

interpretation input: packet_stream "\<lambda>_. True" INPUT_PKT_LENGTH "input_packet env" "input_recv_raw env"
    input_ok input_pending input_core
proof
  show "input_agrees (input_recv_raw env data s) (input_frames env (input_pending s @ data) (input_core s))"
    if "input_ok s" for s data
    using that by (simp add: input_recv_raw_def recv_loop_frames del: recv_loop.simps)
qed (auto simp: input_ok_def input_pending_def)


section \<open>Properties\<close>

text \<open>
  C12. Packet framing. Whatever the sizes of the messages \<^verbatim>\<open>input_recv_raw\<close> is called on one after the other, it handles
  exactly the 34-byte packets of their concatenation, in order: from a session with some buffered
  bytes, the calls return, fault and leave gamepads, written
  events and buffered bytes as handling the packets of the buffered bytes followed by all message
  bytes does. The loops of \<^verbatim>\<open>input_recv_raw\<close> end on every message. The main loop of the module does not call it on every
  message, see \<open>input_iterate_latest\<close> and \<open>input_latest_loses_framing\<close>.
\<close>
theorem input_framing:
  assumes "input_ok s"
  shows "feed_agrees input_ok input_pending input_core (feed_all (input_recv_raw env) msgs s)
    (frames INPUT_PKT_LENGTH (input_packet env) (input_pending s @ concat msgs) (input_core s))"
  using assms by (rule input.feed_all_frames) (simp add: list_all_iff)

text \<open>A player who holds button A on gamepad 0 and pushes the left stick fully to the right.\<close>

definition packet_example :: "byte list" where
  "packet_example = [0, 1] @ replicate 16 0 @ [0, 0, 0x80, 0x3F] @ replicate 12 0"

definition env_ok :: input_env where
  "env_ok = \<lparr>ie_write = (\<lambda>_ _. 0), ie_pads = (\<lambda>_. \<lparr>pe_malloc = True, pe_new = True, pe_enable_key = (\<lambda>_. 0),
     pe_enable_abs = (\<lambda>_. 0), pe_create = True\<rparr>)\<rparr>"

definition session_example :: input_session where
  "session_example = \<lparr>msg_buffer = replicate 34 0, msg_buffer_len = 0, gamepads = replicate 8 Null,
     in_out = [], in_acts = [], in_inits = 0\<rparr>"

theorem input_framing_witness:
  "\<exists>s'. feed_all (input_recv_raw env_ok)
      [take 20 packet_example, drop 20 packet_example @ take 3 packet_example] session_example = Ret (0, s') \<and>
    in_out s' = [(0, EV_KEY BTN_A 1), (0, EV_ABS ABS_X 127), (0, EV_SYN_REPORT)] \<and>
    input_pending s' = take 3 packet_example"
proof -
  have ok: "input_ok session_example"
    by (simp add: input_ok_def session_example_def)
  let ?msgs = "[take 20 packet_example, drop 20 packet_example @ take 3 packet_example]"
  let ?r = "frames INPUT_PKT_LENGTH (input_packet env_ok) (input_pending session_example @ concat ?msgs)
      (input_core session_example)"
  have "bindo ?r (\<lambda>(r, (pads, out, c), rest). Ret (r, out, rest)) =
      Ret (0, [(0, EV_KEY BTN_A 1), (0, EV_ABS ABS_X 127), (0, EV_SYN_REPORT)], take 3 packet_example)"
    by code_simp
  then obtain pads c where "?r = Ret (0, (pads, [(0, EV_KEY BTN_A 1), (0, EV_ABS ABS_X 127),
      (0, EV_SYN_REPORT)], c), take 3 packet_example)"
    by (auto elim!: bindo_RetE)
  then show ?thesis
    using input_framing [OF ok, of env_ok ?msgs] by (auto simp: input_core_def)
qed


text \<open>An axis is the float scaled by 127: rounding the product and dropping its fraction move it by less than 1.5, and
  never out of the range.\<close>

definition axis_near :: "int \<Rightarrow> c_float \<Rightarrow> bool" where
  "axis_near v x \<longleftrightarrow> \<bar>v\<bar> \<le> GAMEPAD_AXIS_RANGE \<and> \<bar>of_int v - 127 * f32_real x\<bar> < 3 / 2"

lemma packet_axes_bound:
  assumes "\<forall>i\<in>set js. f32_abs_le (f32_decode (le32 event (INPUT_PKT_AXES + 4 * i))) 1"
  shows "\<exists>vs. packet_axes event js = Ret vs \<and> length vs = length js \<and>
    (\<forall>n < length js. axis_near (vs ! n) (f32_decode (le32 event (INPUT_PKT_AXES + 4 * js ! n))))"
  using assms
proof (induction js)
  case (Cons i js)
  let ?x = "f32_decode (le32 event (INPUT_PKT_AXES + 4 * i))"
  have ax: "f32_abs_le ?x 1"
    using Cons.prems by simp
  obtain v where v: "packet_axis event i = Ret v" "\<bar>v\<bar> \<le> GAMEPAD_AXIS_RANGE"
    unfolding packet_axis_def by (rule f32_scale_bound [OF ax, of 127]) simp_all
  then have "axis_near v ?x"
    using f32_scale_error [OF ax, of 127 v] by (simp add: axis_near_def packet_axis_def)
  moreover obtain vs where "packet_axes event js = Ret vs" "length vs = length js"
    "\<forall>n < length js. axis_near (vs ! n) (f32_decode (le32 event (INPUT_PKT_AXES + 4 * js ! n)))"
    using Cons by auto
  ultimately show ?case
    using v(1) by (auto simp: nth_Cons split: nat.splits)
qed simp

lemma packet_state_bound:
  assumes "\<forall>i < GAMEPAD_AXIS_COUNT. f32_abs_le (f32_decode (le32 event (INPUT_PKT_AXES + 4 * i))) 1"
  obtains st where "packet_state event = Ret st" "gamepad_state_wf st"
    "\<forall>i < GAMEPAD_AXIS_COUNT. axis_near (gs_axes st ! i) (f32_decode (le32 event (INPUT_PKT_AXES + 4 * i)))"
    "\<forall>i < GAMEPAD_BUTTON_COUNT. gs_buttons st ! i = (event ! (INPUT_PKT_BUTTONS + i) \<noteq> 0)"
proof -
  obtain vs where "packet_axes event [0..<GAMEPAD_AXIS_COUNT] = Ret vs" "length vs = GAMEPAD_AXIS_COUNT"
    "\<forall>i < GAMEPAD_AXIS_COUNT. axis_near (vs ! i) (f32_decode (le32 event (INPUT_PKT_AXES + 4 * i)))"
    using packet_axes_bound [of "[0..<GAMEPAD_AXIS_COUNT]" event] assms by (auto simp del: upt_rec_numeral)
  then show ?thesis
    using that by (simp add: packet_state_def gamepad_state_wf_def del: upt_rec_numeral)
qed

text \<open>
  C13. What a packet does. A packet whose axes lie between -1 and 1, for one of the eight gamepads
  and an existing virtual device that shows its recorded state, is applied completely: button \<open>i\<close> is
  whether byte \<open>1 + i\<close> is not zero, axis \<open>i\<close> is the float at byte \<open>18 + 4i\<close> times 127 up to rounding, within the range
  -127 to 127 announced to the kernel, the gamepad records this state, the events written make the device show it, and no other gamepad
  changes. A packet for any other device number changes nothing.
\<close>
theorem input_event_effect:
  assumes "\<forall>i < GAMEPAD_AXIS_COUNT. f32_abs_le (f32_decode (le32 event (INPUT_PKT_AXES + 4 * i))) 1"
    and "0 \<le> sint (event ! INPUT_PKT_DEVICE) \<and> sint (event ! INPUT_PKT_DEVICE) < MAX_GAMEPADS \<longrightarrow>
      gamepads s ! nat (sint (event ! INPUT_PKT_DEVICE)) = Pad gp"
    and "gamepad_state_wf (gp_state gp)" "pad_shows dev (gp_state gp)" "\<And>out e. ie_write env out e \<le> 0"
  shows "\<exists>st evs r.
    (\<forall>i < GAMEPAD_AXIS_COUNT. \<bar>gs_axes st ! i\<bar> \<le> GAMEPAD_AXIS_RANGE \<and>
      \<bar>of_int (gs_axes st ! i) - 127 * f32_real (f32_decode (le32 event (INPUT_PKT_AXES + 4 * i)))\<bar> < 3 / 2) \<and>
    (\<forall>i < GAMEPAD_BUTTON_COUNT. gs_buttons st ! i = (event ! (INPUT_PKT_BUTTONS + i) \<noteq> 0)) \<and>
    pad_shows (fold device_event evs dev) st \<and>
    input_recv_event env event s =
      (if 0 \<le> sint (event ! INPUT_PKT_DEVICE) \<and> sint (event ! INPUT_PKT_DEVICE) < MAX_GAMEPADS
       then Ret (r, s\<lparr>gamepads := (gamepads s)[nat (sint (event ! INPUT_PKT_DEVICE)) := Pad (gp\<lparr>gp_state := st\<rparr>)],
                      in_out := in_out s @ map (Pair (gp_uidev gp)) evs\<rparr>)
       else Ret (0, s))"
proof -
  let ?d = "sint (event ! INPUT_PKT_DEVICE)"
  obtain st where st: "packet_state event = Ret st" "gamepad_state_wf st"
    "\<forall>i < GAMEPAD_AXIS_COUNT. axis_near (gs_axes st ! i) (f32_decode (le32 event (INPUT_PKT_AXES + 4 * i)))"
    "\<forall>i < GAMEPAD_BUTTON_COUNT. gs_buttons st ! i = (event ! (INPUT_PKT_BUTTONS + i) \<noteq> 0)"
    using assms(1) by (rule packet_state_bound)
  define evs where "evs = update_events (gp_state gp) st"
  obtain r where upd: "gamepad_update (ie_write env) gp st (in_out s) =
      (r, gp\<lparr>gp_state := st\<rparr>, in_out s @ map (Pair (gp_uidev gp)) evs)"
    using gamepad_update_eq [OF assms(3) st(2), of "ie_write env" "in_out s"] by (simp add: Let_def evs_def)
  have "pad_shows (fold device_event evs dev) st"
    using assms(4) unfolding evs_def by (rule update_events_show)
  moreover have "input_recv_event env event s =
      (if 0 \<le> ?d \<and> ?d < MAX_GAMEPADS
       then Ret (r, s\<lparr>gamepads := (gamepads s)[nat ?d := Pad (gp\<lparr>gp_state := st\<rparr>)],
                      in_out := in_out s @ map (Pair (gp_uidev gp)) evs\<rparr>)
       else Ret (0, s))"
    using assms(2) st(1) upd by (auto simp: input_recv_event_def input_get_pad_def Let_def)
  ultimately show ?thesis
    using st(3,4) unfolding axis_near_def by blast
qed

theorem input_event_effect_witness:
  "\<exists>st evs r. pad_shows (fold device_event evs (\<lambda>_. 0, \<lambda>_. 0)) st \<and> \<bar>gs_axes st ! 0\<bar> \<le> GAMEPAD_AXIS_RANGE \<and>
     125 < gs_axes st ! 0 \<and> gs_buttons st ! 0 \<and>
     input_recv_event env_ok packet_example
         (session_example\<lparr>gamepads := (replicate 8 Null)[0 := Pad \<lparr>gp_uidev = 0, gp_state = gamepad_zero\<rparr>]\<rparr>) =
       Ret (r, session_example\<lparr>gamepads := (replicate 8 Null)[0 := Pad \<lparr>gp_uidev = 0, gp_state = st\<rparr>],
         in_out := map (Pair 0) evs\<rparr>)"
proof -
  let ?gp = "\<lparr>gp_uidev = 0, gp_state = gamepad_zero\<rparr>"
  let ?s = "session_example\<lparr>gamepads := (replicate 8 Null)[0 := Pad ?gp]\<rparr>"
  have "\<forall>i \<in> set [0..<4]. f32_abs_le (f32_decode (le32 packet_example (INPUT_PKT_AXES + 4 * i))) 1"
    by code_simp
  then have axes: "\<forall>i < GAMEPAD_AXIS_COUNT. f32_abs_le (f32_decode (le32 packet_example (INPUT_PKT_AXES + 4 * i))) 1"
    by simp
  have "f32_decode (le32 packet_example INPUT_PKT_AXES) = Finite False (2 ^ 23) (- 23)"
    by code_simp
  then have one: "f32_real (f32_decode (le32 packet_example INPUT_PKT_AXES)) = 1"
    by (simp add: power_int_minus)
  have pkt: "packet_example ! INPUT_PKT_DEVICE = 0" "packet_example ! INPUT_PKT_BUTTONS = 1"
    by (simp_all add: packet_example_def)
  obtain st evs r where eff:
    "\<forall>i < GAMEPAD_AXIS_COUNT. \<bar>gs_axes st ! i\<bar> \<le> GAMEPAD_AXIS_RANGE \<and>
      \<bar>of_int (gs_axes st ! i) - 127 * f32_real (f32_decode (le32 packet_example (INPUT_PKT_AXES + 4 * i)))\<bar> < 3 / 2"
    "\<forall>i < GAMEPAD_BUTTON_COUNT. gs_buttons st ! i = (packet_example ! (INPUT_PKT_BUTTONS + i) \<noteq> 0)"
    "pad_shows (fold device_event evs (\<lambda>_. 0, \<lambda>_. 0)) st"
    "input_recv_event env_ok packet_example ?s =
      Ret (r, ?s\<lparr>gamepads := (gamepads ?s)[0 := Pad (?gp\<lparr>gp_state := st\<rparr>)], in_out := in_out ?s @ map (Pair 0) evs\<rparr>)"
    using input_event_effect [of packet_example ?s ?gp "(\<lambda>_. 0, \<lambda>_. 0)" env_ok, OF axes] pkt
    by (auto simp: env_ok_def pad_shows_def gamepad_zero_def gamepad_state_wf_def)
  have "125 < gs_axes st ! 0"
    using eff(1) [rule_format, of 0] one by (auto simp: abs_if split: if_splits)
  then show ?thesis
    using eff(1) [rule_format, of 0] eff(2) [rule_format, of 0] eff(3,4) pkt(2)
    by (intro exI [of _ st] exI [of _ evs] exI [of _ r]) (simp add: session_example_def)
qed

text \<open>
  C14. One iteration of the Input main loop on a non-empty input queue handles exactly the latest
  message: its bytes go to \<^verbatim>\<open>input_recv_raw\<close>, the queue is empty afterwards, and every older message is
  discarded unread together with the handled one.
\<close>
theorem input_iterate_latest:
  assumes "rbuf_own fr q n e (msgs @ [msg])" "input_recv_raw env msg s = Ret (r, s')" "0 \<le> r"
  shows "\<exists>q'. input_iterate env (q, s) = Ret (0, q', s') \<and> rbuf_own fr q' n (e @ msgs @ [msg]) []"
proof -
  obtain q1 where q1: "rbuf_wait_peak_latest q = Ret (q1, Some msg)" "rbuf_own fr q1 n (e @ msgs) [msg]"
    using rb.latest_last [OF assms(1)] by blast
  obtain q2 where "rbuf_pop q1 = Ret q2" "rbuf_own fr q2 n ((e @ msgs) @ [msg]) []"
    using rb.pop_first [OF q1(2)] by blast
  then show ?thesis
    using q1 assms(2,3) by (simp add: input_iterate_def)
qed


text \<open>A packet that arrives in two messages while the module is busy: the first part is lost, and the
  second is taken for the start of a packet.\<close>

lemma input_latest_loses_framing:
  "bindo (rbuf_new 4 log_free) (\<lambda>q.
   bindo (rbuf_push q (Some (take 20 packet_example)) []) (\<lambda>(_, q, fr).
   bindo (rbuf_push q (Some (drop 20 packet_example)) fr) (\<lambda>(_, q, fr).
   bindo (input_iterate env_ok (q, session_example)) (\<lambda>(r, q, s).
   Ret (r, in_out s, input_pending s))))) = Ret (0, [], drop 20 packet_example)"
  by code_simp

theorem input_iterate_latest_witness:
  "\<exists>q q' s'. rbuf_own log_free q 3 [] [[1], packet_example] \<and>
     input_recv_raw env_ok packet_example session_example = Ret (0, s') \<and>
     input_iterate env_ok (q, session_example) = Ret (0, q', s') \<and>
     rbuf_own log_free q' 3 [[1], packet_example] []"
proof -
  obtain b0 :: input_queue where "rbuf_own log_free b0 3 [] []"
    using rbuf_new_own [of 3 log_free] by auto
  then obtain b1 :: input_queue where b1: "rbuf_own log_free b1 3 [] [[1]]"
    using rb.push_room [of log_free b0 3 "[]" "[]" "[]" "[]" "[1]"] by auto
  obtain q :: input_queue where q: "rbuf_own log_free q 3 [] ([[1]] @ [packet_example])"
    using rb.push_room [OF b1, of "[]" "[]" packet_example] by auto
  have "bindo (input_recv_raw env_ok packet_example session_example) (\<lambda>(r, s). Ret r) = Ret 0"
    by code_simp
  then obtain s' where "input_recv_raw env_ok packet_example session_example = Ret (0, s')"
    by (auto elim!: bindo_RetE)
  then show ?thesis
    using q input_iterate_latest [OF q] by fastforce
qed

text \<open>The two faults of a session that comes uninitialised from \<^verbatim>\<open>malloc\<close>: the first packet for a
  gamepad other than 0 follows an indeterminate pointer, and so does the cleanup.\<close>

lemma input_uninitialised_pad:
  assumes "input_start env (Some (buf, replicate 8 Uninit)) = Ret (Some s)"
  shows "input_recv_event env (1 # event) s = Fault Indeterminate" "input_destroy s = Fault Indeterminate"
  using assms by (auto simp: input_start_def input_recv_event_def input_get_pad_def input_destroy_def
      numeral_eq_Suc split: option.splits elim!: bindo_RetE)

text \<open>When the first gamepad cannot be created, the session is freed twice.\<close>

lemma input_start_failure:
  assumes "\<not> pe_create (ie_pads env 0)" "pe_new (ie_pads env 0)"
  shows "input_start env (Some mem) = Fault Use_After_Free"
  using assms by (auto simp: input_start_def gamepad_init_def split: prod.split)

end
