(* ===== verification/Api.thy ===== *)
theory Api
  imports C_Strings Float32 "HOL-Library.Sublist" "HOL-Library.Countable"
begin

text \<open>
  The client of the backend API, \<^verbatim>\<open>stratusd/SideCar/src/api.c\<close>.

  cJSON and curl are parameters. \<open>cjson\<close> has the functions of cJSON the file calls, on an abstract
  type \<open>'j\<close> of JSON values; \<open>api_env\<close> says what the outside world answers: whether the \<open>k\<close>-th
  fallible call succeeds, the time, random numbers, what the socket delivers and how much of a
  message it takes. The state carries the fields of \<^verbatim>\<open>struct api_client\<close>, the number of calls made,
  the heap objects held (so that leaks and double frees are visible) and the bytes handed to curl.
  It is an extensible record, which the SideCar extends with the active session.
\<close>

section \<open>State and parameters\<close>

datatype c_num = Int_Num int | Float_Num c_float

record 'j cjson =
  cj_parse :: "string \<Rightarrow> 'j option"
  cj_print :: "'j \<Rightarrow> string"
  cj_get :: "'j \<Rightarrow> string \<Rightarrow> 'j option"
  cj_is_string :: "'j \<Rightarrow> bool"
  cj_is_number :: "'j \<Rightarrow> bool"
  cj_is_object :: "'j \<Rightarrow> bool"
  cj_valuestring :: "'j \<Rightarrow> string"
  cj_valueint :: "'j \<Rightarrow> int"
  cj_object :: 'j
  cj_string :: "string \<Rightarrow> 'j"
  cj_number :: "c_num \<Rightarrow> 'j"
  cj_array :: "'j list \<Rightarrow> 'j"
  cj_add :: "'j \<Rightarrow> string \<Rightarrow> 'j \<Rightarrow> 'j"

datatype ws_recv = Recv_Error | Recv string bool  \<comment> \<open>the data, and whether bytes are left\<close>

record 'j api_env =
  ae_json :: "'j cjson"
  ae_ok :: "nat \<Rightarrow> bool"
  ae_time :: "nat \<Rightarrow> int"
  ae_now :: "nat \<Rightarrow> string option"      \<comment> \<open>the formatted local time, unless \<^verbatim>\<open>localtime\<close> fails\<close>
  ae_rand :: "nat \<Rightarrow> u32"
  ae_getenv :: "string \<Rightarrow> string option"
  ae_ws_send :: "nat \<Rightarrow> string \<Rightarrow> nat option" \<comment> \<open>bytes taken, unless the call fails\<close>
  ae_ws_recv :: "nat \<Rightarrow> ws_recv"
  ae_poll :: "nat \<Rightarrow> int"

datatype api_obj = Obj_Client | Obj_Curl nat | Obj_Timestamp | Obj_Uuid | Obj_Msg | Obj_Payload | Obj_Text

record api_state =
  ac_curl :: "nat option"
  ac_last_reconnect :: int
  aw_tick :: nat
  aw_held :: "api_obj list"
  aw_sent :: "string list"

text \<open>One fallible call of the outside world.\<close>

definition attempt :: "'j api_env \<Rightarrow> 'm api_state_scheme \<Rightarrow> bool \<times> 'm api_state_scheme" where
  "attempt env s = (ae_ok env (aw_tick s), s\<lparr>aw_tick := Suc (aw_tick s)\<rparr>)"

definition tick :: "'m api_state_scheme \<Rightarrow> 'm api_state_scheme" where
  "tick s = s\<lparr>aw_tick := Suc (aw_tick s)\<rparr>"

definition acquire :: "api_obj \<Rightarrow> 'm api_state_scheme \<Rightarrow> 'm api_state_scheme" where
  "acquire r s = s\<lparr>aw_held := r # aw_held s\<rparr>"

definition release :: "api_obj \<Rightarrow> 'm api_state_scheme \<Rightarrow> 'm api_state_scheme outcome" where
  "release r s = (if r \<in> set (aw_held s) then Ret (s\<lparr>aw_held := remove1 r (aw_held s)\<rparr>) else Fault Double_Free)"

section \<open>Timestamps and identifiers\<close>

abbreviation UUID_LEN :: nat where "UUID_LEN \<equiv> 37"

text \<open>The buffer has 20 characters. When the formatted time does not fit, \<^verbatim>\<open>strftime\<close> returns 0 and
  the code frees what \<^verbatim>\<open>localtime\<close> returned, which is not from the heap.\<close>

definition get_timestamp ::
    "'j api_env \<Rightarrow> 'm api_state_scheme \<Rightarrow> (string option \<times> 'm api_state_scheme) outcome" where
  "get_timestamp env s =
     (case attempt env s of
        (ok, s) \<Rightarrow>
          if \<not> ok then Ret (None, s)
          else
            (case ae_now env (aw_tick s) of
               None \<Rightarrow> Ret (None, s)
             | Some ts \<Rightarrow>
                 if length ts + 1 > 20 then Fault Bad_Free
                 else Ret (Some ts, acquire Obj_Timestamp s)))"

text \<open>The character at position \<open>i\<close> of an identifier, given a random word.\<close>

definition uuid_format :: string where
  "uuid_format = ''01234567-89ab-Xdef-Y123-456789abcdef''"

definition uuid_char :: "u32 \<Rightarrow> nat \<Rightarrow> char" where
  "uuid_char r i =
     (if uuid_format ! i = CHR ''-'' then CHR ''-''
      else if uuid_format ! i = CHR ''X'' then CHR ''4''
      else if uuid_format ! i = CHR ''Y'' then ''89ab'' ! nat (uint r mod 4)
      else ''0123456789abcdef'' ! nat (uint r mod 16))"

definition get_uuid ::
    "'j api_env \<Rightarrow> 'm api_state_scheme \<Rightarrow> string option \<times> 'm api_state_scheme" where
  "get_uuid env s =
     (case attempt env s of
        (ok, s) \<Rightarrow>
          if \<not> ok then (None, s)
          else (Some (map (\<lambda>i. uuid_char (ae_rand env i) i) [0..<UUID_LEN - 1]), acquire Obj_Uuid s))"

section \<open>Connecting\<close>

text \<open>The options set on the handle; each call is asserted to succeed.\<close>

primrec curl_setopts :: "'j api_env \<Rightarrow> nat \<Rightarrow> 'm api_state_scheme \<Rightarrow> 'm api_state_scheme outcome" where
  "curl_setopts env 0 s = Ret s"
| "curl_setopts env (Suc n) s =
     (case attempt env s of (ok, s) \<Rightarrow> bindo (asserto ok) (\<lambda>_. curl_setopts env n s))"

definition curl_cleanup :: "'m api_state_scheme \<Rightarrow> 'm api_state_scheme outcome" where
  "curl_cleanup s = (case ac_curl s of None \<Rightarrow> Ret s | Some h \<Rightarrow> release (Obj_Curl h) s)"

text \<open>On failure after the handle was created the handle is cleaned up but stays in the client.\<close>

definition api_connect :: "'j api_env \<Rightarrow> 'm api_state_scheme \<Rightarrow> (int \<times> 'm api_state_scheme) outcome" where
  "api_connect env s =
     bindo (curl_cleanup s) (\<lambda>s.
     case ae_getenv env ''STRATUSD_BACKEND_URL'' of
       None \<Rightarrow> Ret (0, s\<lparr>ac_curl := None\<rparr>)
     | Some url \<Rightarrow>
         (case attempt env s of
            (ok, s) \<Rightarrow>
              if \<not> ok then Ret (-1, s\<lparr>ac_curl := None\<rparr>)
              else
                let s = acquire (Obj_Curl (aw_tick s)) (s\<lparr>ac_curl := Some (aw_tick s)\<rparr>) in
                bindo (curl_setopts env
                  (if ae_getenv env ''STRATUSD_BACKEND_PASSWORD'' \<noteq> None then 5 else 2) s) (\<lambda>s.
                case attempt env s of
                  (ok, s) \<Rightarrow>
                    if \<not> ok then bindo (curl_cleanup s) (\<lambda>s. Ret (-1, s))
                    else
                      (case attempt env s of
                         (ok, s) \<Rightarrow>
                           if \<not> ok then bindo (curl_cleanup s) (\<lambda>s. Ret (-1, s)) else Ret (0, s)))))"

definition api_init :: "'j api_env \<Rightarrow> 'm api_state_scheme \<Rightarrow> (bool \<times> 'm api_state_scheme) outcome" where
  "api_init env s =
     (case attempt env s of
        (ok, s) \<Rightarrow>
          if \<not> ok then Ret (False, s)
          else
            let s = acquire Obj_Client (s\<lparr>ac_curl := None, ac_last_reconnect := ae_time env (aw_tick s)\<rparr>) in
            bindo (api_connect env s) (\<lambda>(r, s).
            if r < 0 then bindo (release Obj_Client s) (\<lambda>s. Ret (False, s)) else Ret (True, s)))"

definition api_teardown :: "'m api_state_scheme \<Rightarrow> 'm api_state_scheme outcome" where
  "api_teardown s = bindo (curl_cleanup s) (release Obj_Client)"

section \<open>Sending\<close>

text \<open>
  The loop of \<open>api_send\<close> on the bytes not sent yet. A send that takes no byte leaves the loop where
  it was; the loop then only ends if some later call makes progress. The bound on the number of
  calls is an argument, and running out of it is \<open>Block\<close>.
\<close>

primrec api_send_loop ::
    "nat \<Rightarrow> 'j api_env \<Rightarrow> string \<Rightarrow> 'm api_state_scheme \<Rightarrow> (int \<times> 'm api_state_scheme) outcome" where
  "api_send_loop 0 env msg s = (if msg = [] then Ret (0, s) else Block)"
| "api_send_loop (Suc k) env msg s =
     (if msg = [] then Ret (0, s)
      else
        (case ae_ws_send env (aw_tick s) msg of
           None \<Rightarrow> Ret (-1, tick s)
         | Some n \<Rightarrow> api_send_loop k env (drop n msg) (tick (s\<lparr>aw_sent := aw_sent s @ [take n msg]\<rparr>))))"

definition api_send ::
    "'j api_env \<Rightarrow> string \<Rightarrow> 'm api_state_scheme \<Rightarrow> (int \<times> 'm api_state_scheme) outcome" where
  "api_send env msg s = (if ac_curl s = None then Ret (0, s) else api_send_loop (length msg) env msg s)"

text \<open>Adding a list of fields to an object, each of which may fail: \<open>None\<close> on failure.\<close>

primrec add_fields ::
    "'j api_env \<Rightarrow> (string \<times> 'j) list \<Rightarrow> 'j \<Rightarrow> 'm api_state_scheme \<Rightarrow> 'j option \<times> 'm api_state_scheme" where
  "add_fields env [] j s = (Some j, s)"
| "add_fields env (f # fs) j s =
     (case attempt env s of
        (ok, s) \<Rightarrow> if ok then add_fields env fs (cj_add (ae_json env) j (fst f) (snd f)) s else (None, s))"

text \<open>
  The error exits of \<open>api_send_json\<close>. \<^verbatim>\<open>err_cjson\<close> deletes the message and falls into
  \<^verbatim>\<open>err_timestamp\<close>, which frees the timestamp and falls into \<^verbatim>\<open>err_uuid\<close>, which frees the identifier
  and the payload. When no timestamp could be made, the identifier is still uninitialised; when no
  identifier could be made, the timestamp is not freed.
\<close>

definition send_err_uuid :: "bool \<Rightarrow> bool \<Rightarrow> 'm api_state_scheme \<Rightarrow> (int \<times> 'm api_state_scheme) outcome" where
  "send_err_uuid uuid payload s =
     bindo (if uuid then release Obj_Uuid s else Ret s) (\<lambda>s.
     bindo (if payload then release Obj_Payload s else Ret s) (\<lambda>s. Ret (-1, s)))"

definition send_err_cjson ::
    "bool \<Rightarrow> bool \<Rightarrow> 'm api_state_scheme \<Rightarrow> (int \<times> 'm api_state_scheme) outcome" where
  "send_err_cjson msg payload s =
     bindo (if msg then release Obj_Msg s else Ret s) (\<lambda>s.
     bindo (release Obj_Timestamp s) (send_err_uuid True payload))"

definition send_printed ::
    "'j api_env \<Rightarrow> 'j \<Rightarrow> 'm api_state_scheme \<Rightarrow> (int \<times> 'm api_state_scheme) outcome" where
  "send_printed env msg s =
     (case attempt env s of
        (ok, s) \<Rightarrow>
          if \<not> ok then send_err_cjson True False s
          else
            bindo (api_send env (cj_print (ae_json env) msg) (acquire Obj_Text s)) (\<lambda>(r, s).
            bindo (release Obj_Msg s) (\<lambda>s.
            bindo (release Obj_Text s) (\<lambda>s.
            bindo (release Obj_Timestamp s) (\<lambda>s.
            bindo (release Obj_Uuid s) (\<lambda>s. Ret (r, s)))))))"

definition send_message ::
    "'j api_env \<Rightarrow> string \<Rightarrow> string \<Rightarrow> string \<Rightarrow> 'j \<Rightarrow> 'm api_state_scheme \<Rightarrow> (int \<times> 'm api_state_scheme) outcome"
where
  "send_message env msg_type timestamp uuid payload s =
     (case attempt env s of
        (ok, s) \<Rightarrow>
          if \<not> ok then send_err_cjson False True s
          else
            (case add_fields env [(''type'', cj_string (ae_json env) msg_type),
                 (''timestamp'', cj_string (ae_json env) timestamp),
                 (''request_id'', cj_string (ae_json env) uuid)] (cj_object (ae_json env))
                 (acquire Obj_Msg s) of
               (None, s) \<Rightarrow> send_err_cjson True True s
             | (Some msg, s) \<Rightarrow>
                 (case attempt env s of
                    (ok, s) \<Rightarrow>
                      if \<not> ok then send_err_cjson True True s
                      else
                        \<comment> \<open>the message owns the payload from here on\<close>
                        bindo (release Obj_Payload s)
                          (send_printed env (cj_add (ae_json env) msg ''payload'' payload)))))"

definition api_send_json ::
    "'j api_env \<Rightarrow> string \<Rightarrow> 'j \<Rightarrow> 'm api_state_scheme \<Rightarrow> (int \<times> 'm api_state_scheme) outcome" where
  "api_send_json env msg_type payload s =
     bindo (get_timestamp env s) (\<lambda>(ts, s).
     case ts of
       None \<Rightarrow> Fault Indeterminate
     | Some timestamp \<Rightarrow>
         (case get_uuid env s of
            (None, s) \<Rightarrow> send_err_uuid False True s
          | (Some uuid, s) \<Rightarrow> send_message env msg_type timestamp uuid payload s))"


text \<open>Building a payload and sending it. On failure the partly built payload is deleted.\<close>

definition send_payload ::
    "'j api_env \<Rightarrow> string \<Rightarrow> ('m api_state_scheme \<Rightarrow> 'j option \<times> 'm api_state_scheme) \<Rightarrow>
     'm api_state_scheme \<Rightarrow> (int \<times> 'm api_state_scheme) outcome" where
  "send_payload env msg_type build s =
     (case attempt env s of
        (ok, s) \<Rightarrow>
          if \<not> ok then Ret (-1, s)
          else
            (case build (acquire Obj_Payload s) of
               (None, s) \<Rightarrow> bindo (release Obj_Payload s) (\<lambda>s. Ret (-1, s))
             | (Some payload, s) \<Rightarrow> api_send_json env msg_type payload s))"

definition api_send_confirm_start ::
    "'j api_env \<Rightarrow> string \<Rightarrow> string \<Rightarrow> 'm api_state_scheme \<Rightarrow> (int \<times> 'm api_state_scheme) outcome" where
  "api_send_confirm_start env session_id tls_fingerprint =
     send_payload env ''start_confirmed''
       (add_fields env [(''session_id'', cj_string (ae_json env) session_id),
          (''tls_fingerprint'', cj_string (ae_json env) tls_fingerprint)] (cj_object (ae_json env)))"

definition api_send_stop_session ::
    "'j api_env \<Rightarrow> string \<Rightarrow> 'm api_state_scheme \<Rightarrow> (int \<times> 'm api_state_scheme) outcome" where
  "api_send_stop_session env session_id =
     send_payload env ''stop_session''
       (add_fields env [(''session_id'', cj_string (ae_json env) session_id)] (cj_object (ae_json env)))"

definition api_send_session_error ::
    "'j api_env \<Rightarrow> string \<Rightarrow> string \<Rightarrow> 'm api_state_scheme \<Rightarrow> (int \<times> 'm api_state_scheme) outcome" where
  "api_send_session_error env session_id description =
     send_payload env ''session_error''
       (add_fields env [(''session_id'', cj_string (ae_json env) session_id),
          (''description'', cj_string (ae_json env) description)] (cj_object (ae_json env)))"

record api_msg_heartbeat =
  hb_hostname :: string
  hb_ip :: string
  hb_version :: string
  hb_games :: "string list"
  hb_sessions :: "string list"
  hb_uptime :: int
  hb_cpu_load :: c_float
  hb_cpu_count :: int
  hb_ram_used :: int
  hb_ram_total :: int
  hb_disk_used :: int
  hb_disk_total :: int
  hb_temperature :: c_float

text \<open>The items of an array, each created by a call that may fail.\<close>

primrec make_items ::
    "'j api_env \<Rightarrow> string list \<Rightarrow> 'm api_state_scheme \<Rightarrow> 'j list option \<times> 'm api_state_scheme" where
  "make_items env [] s = (Some [], s)"
| "make_items env (x # xs) s =
     (case attempt env s of
        (ok, s) \<Rightarrow>
          if \<not> ok then (None, s)
          else
            (case make_items env xs s of
               (None, s) \<Rightarrow> (None, s)
             | (Some js, s) \<Rightarrow> (Some (cj_string (ae_json env) x # js), s)))"

definition add_array ::
    "'j api_env \<Rightarrow> string \<Rightarrow> string list \<Rightarrow> 'j \<Rightarrow> 'm api_state_scheme \<Rightarrow> 'j option \<times> 'm api_state_scheme" where
  "add_array env k xs j s =
     (case attempt env s of
        (ok, s) \<Rightarrow>
          if \<not> ok then (None, s)
          else
            (case make_items env xs s of
               (None, s) \<Rightarrow> (None, s)
             | (Some js, s) \<Rightarrow> (Some (cj_add (ae_json env) j k (cj_array (ae_json env) js)), s)))"

definition then_build ::
    "'j option \<times> 'm api_state_scheme \<Rightarrow> ('j \<Rightarrow> 'm api_state_scheme \<Rightarrow> 'j option \<times> 'm api_state_scheme) \<Rightarrow>
     'j option \<times> 'm api_state_scheme" where
  "then_build r f = (case r of (None, s) \<Rightarrow> (None, s) | (Some j, s) \<Rightarrow> f j s)"

definition heartbeat_numbers :: "'j cjson \<Rightarrow> api_msg_heartbeat \<Rightarrow> (string \<times> 'j) list" where
  "heartbeat_numbers J hb = map (\<lambda>(k, v). (k, cj_number J v))
     [(''uptime'', Int_Num (hb_uptime hb)), (''cpu_load'', Float_Num (hb_cpu_load hb)),
      (''cpu_count'', Int_Num (hb_cpu_count hb)), (''ram_used'', Int_Num (hb_ram_used hb)),
      (''ram_total'', Int_Num (hb_ram_total hb)), (''disk_used'', Int_Num (hb_disk_used hb)),
      (''disk_total'', Int_Num (hb_disk_total hb)), (''temperature'', Float_Num (hb_temperature hb))]"

definition build_heartbeat ::
    "'j api_env \<Rightarrow> api_msg_heartbeat \<Rightarrow> 'm api_state_scheme \<Rightarrow> 'j option \<times> 'm api_state_scheme" where
  "build_heartbeat env hb s =
     (let J = ae_json env in
      then_build (add_fields env [(''hostname'', cj_string J (hb_hostname hb)), (''ip'', cj_string J (hb_ip hb)),
                   (''version'', cj_string J (hb_version hb))] (cj_object J) s) (\<lambda>j s.
      then_build (add_array env ''games'' (hb_games hb) j s) (\<lambda>j s.
      then_build (add_array env ''sessions'' (hb_sessions hb) j s)
        (add_fields env (heartbeat_numbers J hb)))))"

definition api_send_heartbeat ::
    "'j api_env \<Rightarrow> api_msg_heartbeat \<Rightarrow> 'm api_state_scheme \<Rightarrow> (int \<times> 'm api_state_scheme) outcome" where
  "api_send_heartbeat env hb = send_payload env ''heartbeat'' (build_heartbeat env hb)"

section \<open>Receiving\<close>

record api_msg_start_session =
  sm_session_id :: string
  sm_game_id :: string
  sm_width :: int
  sm_height :: int
  sm_user_id :: string
  sm_user_name :: string

text \<open>The handlers the SideCar registers; a missing one is \<open>None\<close>.\<close>

record 'x api_handlers =
  ah_start :: "(api_msg_start_session \<Rightarrow> 'x \<Rightarrow> (int \<times> 'x) outcome) option"
  ah_stop :: "(string \<Rightarrow> 'x \<Rightarrow> (int \<times> 'x) outcome) option"

text \<open>A string or number field of an object: \<open>None\<close> when it is missing or of another type.\<close>

definition string_field :: "'j cjson \<Rightarrow> 'j \<Rightarrow> string \<Rightarrow> string option" where
  "string_field J j k =
     (case cj_get J j k of
        None \<Rightarrow> None
      | Some f \<Rightarrow> if cj_is_string J f then Some (cj_valuestring J f) else None)"

definition number_field :: "'j cjson \<Rightarrow> 'j \<Rightarrow> string \<Rightarrow> int option" where
  "number_field J j k =
     (case cj_get J j k of
        None \<Rightarrow> None
      | Some f \<Rightarrow> if cj_is_number J f then Some (cj_valueint J f) else None)"

definition api_recv_start_session ::
    "'j cjson \<Rightarrow> 'x api_handlers \<Rightarrow> 'j \<Rightarrow> 'x \<Rightarrow> (int \<times> 'x) outcome" where
  "api_recv_start_session J hs payload x =
     (case string_field J payload ''session_id'' of None \<Rightarrow> Ret (-1, x) | Some session_id \<Rightarrow>
     (case string_field J payload ''game_id'' of None \<Rightarrow> Ret (-1, x) | Some game_id \<Rightarrow>
     (case number_field J payload ''width'' of None \<Rightarrow> Ret (-1, x) | Some width \<Rightarrow>
     (case number_field J payload ''height'' of None \<Rightarrow> Ret (-1, x) | Some height \<Rightarrow>
     (case string_field J payload ''user_id'' of None \<Rightarrow> Ret (-1, x) | Some user_id \<Rightarrow>
     (case string_field J payload ''user_name'' of None \<Rightarrow> Ret (-1, x) | Some user_name \<Rightarrow>
     (case ah_start hs of
        None \<Rightarrow> Ret (0, x)
      | Some h \<Rightarrow> h \<lparr>sm_session_id = session_id, sm_game_id = game_id, sm_width = width, sm_height = height,
                      sm_user_id = user_id, sm_user_name = user_name\<rparr> x)))))))"

definition api_recv_stop_session ::
    "'j cjson \<Rightarrow> 'x api_handlers \<Rightarrow> 'j \<Rightarrow> 'x \<Rightarrow> (int \<times> 'x) outcome" where
  "api_recv_stop_session J hs payload x =
     (case string_field J payload ''session_id'' of
        None \<Rightarrow> Ret (-1, x)
      | Some session_id \<Rightarrow> (case ah_stop hs of None \<Rightarrow> Ret (0, x) | Some h \<Rightarrow> h session_id x))"

definition api_recv :: "'j cjson \<Rightarrow> 'x api_handlers \<Rightarrow> string \<Rightarrow> 'x \<Rightarrow> (int \<times> 'x) outcome" where
  "api_recv J hs msg x =
     (case cj_parse J msg of None \<Rightarrow> Ret (-1, x) | Some json \<Rightarrow>
     (case string_field J json ''type'' of None \<Rightarrow> Ret (-1, x) | Some ty \<Rightarrow>
     (case cj_get J json ''payload'' of None \<Rightarrow> Ret (-1, x) | Some payload \<Rightarrow>
      if \<not> cj_is_object J payload then Ret (-1, x)
      else if ty = ''start_session'' then api_recv_start_session J hs payload x
      else if ty = ''stop_session'' then api_recv_stop_session J hs payload x
      else Ret (-1, x))))"

abbreviation RECONNECT_LIMIT :: int where "RECONNECT_LIMIT \<equiv> 60"

text \<open>The buffer of \<open>api_poll\<close> has 4096 characters, all of which \<^verbatim>\<open>curl_ws_recv\<close> may fill.\<close>

definition api_poll ::
    "'j api_env \<Rightarrow> 'm api_state_scheme api_handlers \<Rightarrow> 'm api_state_scheme \<Rightarrow> (int \<times> 'm api_state_scheme) outcome"
where
  "api_poll env hs s =
     (if ac_curl s = None then Ret (0, s)
      else
        let events = ae_poll env (aw_tick s); s = tick s in
        if events < 0 then Ret (-1, s)
        else if events = 0 then Ret (0, s)
        else
          (case ae_ws_recv env (aw_tick s) of
             Recv_Error \<Rightarrow>
               if ae_time env (aw_tick s) - ac_last_reconnect s > RECONNECT_LIMIT
               then api_connect env (tick (s\<lparr>ac_last_reconnect := ae_time env (Suc (aw_tick s))\<rparr>))
               else Ret (-1, tick s)
           | Recv data left \<Rightarrow>
               if left then Ret (-1, tick s)
               else
                 bindo (if length data < 4096 then Ret () else Fault Out_Of_Bounds) (\<lambda>_.
                 api_recv (ae_json env) hs (takeWhile (\<lambda>c. c \<noteq> CHR 0x00) data) (tick s))))"


section \<open>Lemmas\<close>

lemma state_simps [simp]:
  "aw_tick (tick s) = Suc (aw_tick s)" "aw_held (tick s) = aw_held s" "aw_sent (tick s) = aw_sent s"
  "ac_curl (tick s) = ac_curl s" "ac_last_reconnect (tick s) = ac_last_reconnect s"
  "aw_tick (acquire r s) = aw_tick s" "aw_held (acquire r s) = r # aw_held s" "aw_sent (acquire r s) = aw_sent s"
  "ac_curl (acquire r s) = ac_curl s"
  "attempt env s = (ae_ok env (aw_tick s), tick s)"
  by (simp_all add: tick_def acquire_def attempt_def)

lemma release_held:
  assumes "r \<in> set (aw_held s)"
  obtains s' where "release r s = Ret s'" "aw_held s' = remove1 r (aw_held s)" "aw_tick s' = aw_tick s"
    "aw_sent s' = aw_sent s" "ac_curl s' = ac_curl s" "ac_last_reconnect s' = ac_last_reconnect s"
  using assms by (simp add: release_def)

definition sends_progress :: "'j api_env \<Rightarrow> bool" where
  "sends_progress env \<longleftrightarrow> (\<forall>k m n. ae_ws_send env k m = Some n \<longrightarrow> 0 < n)"

text \<open>Dates up to the year 9999 have 19 characters in the format of the API.\<close>

definition times_fit :: "'j api_env \<Rightarrow> bool" where
  "times_fit env \<longleftrightarrow> (\<forall>k ts. ae_now env k = Some ts \<longrightarrow> length ts < 20)"

lemma api_send_loop_result:
  assumes "sends_progress env" "length msg \<le> k"
  shows "\<exists>r s' out. api_send_loop k env msg s = Ret (r, s') \<and> aw_sent s' = aw_sent s @ out \<and>
    aw_held s' = aw_held s \<and> prefix (concat out) msg \<and>
    (r = 0 \<and> concat out = msg \<or> r = -1 \<and> (\<exists>j m. ae_ws_send env j m = None))"
  using assms(2)
proof (induction k arbitrary: msg s)
  case 0
  then show ?case
    by simp
next
  case (Suc k)
  show ?case
  proof (cases "msg = []")
    case False
    show ?thesis
    proof (cases "ae_ws_send env (aw_tick s) msg")
      case (Some n)
      let ?s = "tick (s\<lparr>aw_sent := aw_sent s @ [take n msg]\<rparr>)"
      have "0 < n"
        using assms(1) Some by (auto simp: sends_progress_def)
      then have "length (drop n msg) \<le> k"
        using Suc.prems False by auto
      from Suc.IH [OF this, of ?s] obtain r s' out where
        r: "api_send_loop k env (drop n msg) ?s = Ret (r, s')" "aw_sent s' = aw_sent ?s @ out"
          "aw_held s' = aw_held ?s" "prefix (concat out) (drop n msg)"
          "r = 0 \<and> concat out = drop n msg \<or> r = -1 \<and> (\<exists>j m. ae_ws_send env j m = None)"
        by blast
      have "prefix (concat (take n msg # out)) msg"
        using r(4) by (metis append_take_drop_id concat.simps(2) same_prefix_prefix)
      then show ?thesis
        using r Some False
        by (intro exI [of _ r] exI [of _ s'] exI [of _ "take n msg # out"]) auto
    qed (use False in auto)
  qed simp
qed

lemma api_send_result:
  assumes "sends_progress env"
  obtains r s' out where "api_send env msg s = Ret (r, s')" "aw_sent s' = aw_sent s @ out"
    "aw_held s' = aw_held s" "prefix (concat out) msg"
    "r = 0 \<and> (ac_curl s = None \<or> concat out = msg) \<or> r = -1 \<and> (\<exists>j m. ae_ws_send env j m = None)"
proof (cases "ac_curl s = None")
  case True
  then show ?thesis
    using that [of 0 s "[]"] by (simp add: api_send_def)
next
  case False
  obtain r s' out where "api_send_loop (length msg) env msg s = Ret (r, s')" "aw_sent s' = aw_sent s @ out"
    "aw_held s' = aw_held s" "prefix (concat out) msg"
    "r = 0 \<and> concat out = msg \<or> r = -1 \<and> (\<exists>j m. ae_ws_send env j m = None)"
    using api_send_loop_result [OF assms, of msg "length msg" s] by blast
  then show ?thesis
    using that [of r s' out] False by (auto simp: api_send_def)
qed

lemma add_fields_held:
  "add_fields env fs j s = (r, s') \<Longrightarrow> aw_held s' = aw_held s \<and> aw_sent s' = aw_sent s \<and> ac_curl s' = ac_curl s"
  by (induction fs arbitrary: j s) (auto split: if_splits)

lemma add_fields_ok:
  "(\<And>k. ae_ok env k) \<Longrightarrow> \<exists>s'. add_fields env fs j s =
     (Some (foldl (\<lambda>j (k, v). cj_add (ae_json env) j k v) j fs), s')"
proof (induction fs arbitrary: j s)
  case (Cons f fs)
  then show ?case
    using Cons.IH [OF Cons.prems, of "cj_add (ae_json env) j (fst f) (snd f)" "tick s"]
    by (auto split: prod.split)
qed simp

text \<open>Releasing the objects of a message, whatever else is held.\<close>

lemma send_err_uuid_held:
  assumes "aw_held s = (if uuid then [Obj_Uuid] else []) @ ts @ (if payload then [Obj_Payload] else []) @ h"
    "Obj_Payload \<notin> set ts"
  shows "\<exists>s'. send_err_uuid uuid payload s = Ret (-1, s') \<and> aw_held s' = ts @ h"
  using assms by (auto simp: send_err_uuid_def release_def remove1_append)

lemma send_err_cjson_held:
  assumes "aw_held s = (if msg then [Obj_Msg] else []) @ [Obj_Uuid, Obj_Timestamp] @
      (if payload then [Obj_Payload] else []) @ h"
  shows "\<exists>s'. send_err_cjson msg payload s = Ret (-1, s') \<and> aw_held s' = h"
  using assms by (auto simp: send_err_cjson_def send_err_uuid_def release_def)

lemma send_printed_held:
  assumes "sends_progress env" "aw_held s = [Obj_Msg, Obj_Uuid, Obj_Timestamp] @ h"
  shows "\<exists>r s'. send_printed env msg s = Ret (r, s') \<and> (r = 0 \<or> r = -1) \<and> aw_held s' = h"
proof (cases "ae_ok env (aw_tick s)")
  case True
  obtain r s1 out where s1: "api_send env (cj_print (ae_json env) msg) (acquire Obj_Text (tick s)) = Ret (r, s1)"
    "aw_held s1 = aw_held (acquire Obj_Text (tick s))" "r = 0 \<or> r = -1"
    using api_send_result [OF assms(1), of "cj_print (ae_json env) msg" "acquire Obj_Text (tick s)"] by metis
  then show ?thesis
    using True assms(2) by (auto simp: send_printed_def release_def)
next
  case False
  then show ?thesis
    using assms(2) send_err_cjson_held [of "tick s" True False h] by (auto simp: send_printed_def)
qed

lemma send_message_held:
  fixes s :: "'b api_state_scheme"
  assumes "sends_progress env" "aw_held s = [Obj_Uuid, Obj_Timestamp, Obj_Payload] @ h"
  shows "\<exists>r s'. send_message env ty ts uuid p s = Ret (r, s') \<and> (r = 0 \<or> r = -1) \<and> aw_held s' = h"
proof (cases "ae_ok env (aw_tick s)")
  case False
  then show ?thesis
    using assms(2) send_err_cjson_held [of "tick s" False True h] by (auto simp: send_message_def)
next
  case True
  let ?J = "ae_json env"
  obtain m s1 where f: "add_fields env [(''type'', cj_string ?J ty), (''timestamp'', cj_string ?J ts),
      (''request_id'', cj_string ?J uuid)] (cj_object ?J) (acquire Obj_Msg (tick s)) = (m, s1)"
    by fastforce
  have held: "aw_held s1 = [Obj_Msg, Obj_Uuid, Obj_Timestamp, Obj_Payload] @ h"
    using add_fields_held [OF f] assms(2) by simp
  have err: "\<exists>s'. send_err_cjson True True s2 = Ret (-1, s') \<and> aw_held s' = h" if "aw_held s2 = aw_held s1"
    for s2 :: "'b api_state_scheme"
    using that held by (intro send_err_cjson_held) simp
  show ?thesis
  proof (cases m)
    case None
    then show ?thesis
      using True f err [of s1] by (auto simp: send_message_def)
  next
    case (Some msg)
    show ?thesis
    proof (cases "ae_ok env (aw_tick s1)")
      case False
      then show ?thesis
        using True f Some err [of "tick s1"] by (auto simp: send_message_def)
    next
      case ok: True
      have "Obj_Payload \<in> set (aw_held (tick s1))"
        using held by simp
      then obtain s2 where s2: "release Obj_Payload (tick s1) = Ret s2"
        "aw_held s2 = remove1 Obj_Payload (aw_held (tick s1))"
        by (rule release_held)
      then show ?thesis
        using True f Some ok held send_printed_held [OF assms(1), of s2 h "cj_add ?J msg ''payload'' p"]
        by (auto simp: send_message_def)
    qed
  qed
qed


lemma api_send_json_held:
  assumes "sends_progress env" "times_fit env"
    and "aw_held s = Obj_Payload # h"
  shows "if \<not> ae_ok env (aw_tick s) \<or> ae_now env (Suc (aw_tick s)) = None
     then api_send_json env ty p s = Fault Indeterminate
     else \<exists>r s'. api_send_json env ty p s = Ret (r, s') \<and> (r = 0 \<or> r = -1) \<and>
       aw_held s' = (if ae_ok env (Suc (aw_tick s)) then h else Obj_Timestamp # h)"
proof (cases "\<not> ae_ok env (aw_tick s) \<or> ae_now env (Suc (aw_tick s)) = None")
  case True
  then show ?thesis
    by (auto simp: api_send_json_def get_timestamp_def)
next
  case False
  then obtain ts where ts: "ae_now env (Suc (aw_tick s)) = Some ts" "length ts < 20" "ae_ok env (aw_tick s)"
    using assms(2) by (auto simp: times_fit_def)
  let ?s = "acquire Obj_Timestamp (tick s)"
  have g: "get_timestamp env s = Ret (Some ts, ?s)"
    using ts by (simp add: get_timestamp_def)
  show ?thesis
  proof (cases "ae_ok env (Suc (aw_tick s))")
    case True
    then obtain u where "get_uuid env ?s = (Some u, acquire Obj_Uuid (tick ?s))"
      by (simp add: get_uuid_def)
    moreover have "aw_held (acquire Obj_Uuid (tick ?s)) = [Obj_Uuid, Obj_Timestamp, Obj_Payload] @ h"
      using assms(3) by simp
    ultimately show ?thesis
      using False g True send_message_held [OF assms(1), of "acquire Obj_Uuid (tick ?s)" h ty ts u p]
      by (auto simp: api_send_json_def)
  next
    case no: False
    have "aw_held (tick ?s) = (if False then [Obj_Uuid] else []) @ [Obj_Timestamp] @ (if True then [Obj_Payload] else []) @ h"
      using assms(3) by simp
    from send_err_uuid_held [OF this] show ?thesis
      using False g no by (auto simp: api_send_json_def get_uuid_def)
  qed
qed

lemma api_send_json_no_uuid:
  assumes "times_fit env" "aw_held s = Obj_Payload # h"
    and "ae_ok env (aw_tick s)" "ae_now env (Suc (aw_tick s)) \<noteq> None" "\<not> ae_ok env (Suc (aw_tick s))"
  shows "\<exists>s'. api_send_json env ty p s = Ret (-1, s')"
proof -
  obtain ts where "ae_now env (Suc (aw_tick s)) = Some ts" "length ts + 1 \<le> 20"
    using assms(1,4) by (fastforce simp: times_fit_def Suc_le_eq)
  then show ?thesis
    using assms by (simp add: api_send_json_def get_timestamp_def get_uuid_def send_err_uuid_def release_def)
qed

text \<open>Building a payload holds and releases nothing else.\<close>

lemma build_held [simp]:
  "aw_held (snd (add_fields env fs j s)) = aw_held s"
  "aw_held (snd (make_items env xs s)) = aw_held s"
  by (induction fs arbitrary: j s; simp)
    (induction xs arbitrary: s; force simp: split_beta split: option.split)

lemma add_array_held [simp]: "aw_held (snd (add_array env k xs j s)) = aw_held s"
proof -
  obtain r s' where m: "make_items env xs (tick s) = (r, s')"
    by fastforce
  then have "aw_held s' = aw_held s"
    using build_held(2) [of env xs "tick s"] unfolding m by simp
  then show ?thesis
    by (auto simp: add_array_def m split: option.split)
qed

lemma then_build_held:
  "(\<And>j s. aw_held (snd (f j s)) = aw_held s) \<Longrightarrow> aw_held (snd (then_build r f)) = aw_held (snd r)"
  by (cases r) (auto simp: then_build_def split: option.split)

lemma build_heartbeat_held: "aw_held (snd (build_heartbeat env hb s)) = aw_held s"
  by (simp add: build_heartbeat_def Let_def then_build_held)

text \<open>Whether a timestamp and an identifier can be made, by the answers of the outside world.\<close>

lemma get_timestamp_none:
  "times_fit env \<Longrightarrow> (\<exists>s'. get_timestamp env s = Ret (None, s')) \<longleftrightarrow> \<not> ae_ok env (aw_tick s) \<or> ae_now env (Suc (aw_tick s)) = None"
  by (force simp: get_timestamp_def times_fit_def split: option.split)

lemma get_uuid_none:
  assumes "times_fit env"
  shows "(\<exists>ts s' s''. get_timestamp env s = Ret (Some ts, s') \<and> get_uuid env s' = (None, s'')) \<longleftrightarrow>
    ae_ok env (aw_tick s) \<and> ae_now env (Suc (aw_tick s)) \<noteq> None \<and> \<not> ae_ok env (Suc (aw_tick s))"
  using assms by (force simp: get_timestamp_def get_uuid_def times_fit_def split: option.split)

lemma send_payload_held:
  assumes "sends_progress env" "times_fit env"
    and "\<And>s. aw_held (snd (build s)) = aw_held s"
    and b: "build (acquire Obj_Payload (tick s)) = (p, s1)"
  shows "if \<not> ae_ok env (aw_tick s) \<or> p = None
     then \<exists>s'. send_payload env ty build s = Ret (-1, s') \<and> aw_held s' = aw_held s
     else if \<exists>s2. get_timestamp env s1 = Ret (None, s2) then send_payload env ty build s = Fault Indeterminate
     else if \<exists>ts s2 s3. get_timestamp env s1 = Ret (Some ts, s2) \<and> get_uuid env s2 = (None, s3)
     then \<exists>s'. send_payload env ty build s = Ret (-1, s') \<and> aw_held s' = Obj_Timestamp # aw_held s
     else \<exists>r s'. send_payload env ty build s = Ret (r, s') \<and> (r = 0 \<or> r = -1) \<and> aw_held s' = aw_held s"
proof -
  have held: "aw_held s1 = Obj_Payload # aw_held s"
    using assms(3) [of "acquire Obj_Payload (tick s)"] b by simp
  consider "\<not> ae_ok env (aw_tick s)" | "ae_ok env (aw_tick s)" "p = None"
    | j where "ae_ok env (aw_tick s)" "p = Some j"
    by blast
  then show ?thesis
  proof cases
    case 1
    then show ?thesis by (simp add: send_payload_def)
  next
    case 2
    then show ?thesis
      using b held by (auto simp: send_payload_def release_def)
  next
    case (3 j)
    then have eq: "send_payload env ty build s = api_send_json env ty j s1"
      using b by (simp add: send_payload_def)
    show ?thesis
      using 3 api_send_json_held [OF assms(1,2) held, of ty j] api_send_json_no_uuid [OF assms(2) held, of ty j]
      by (simp only: eq get_timestamp_none [OF assms(2)] get_uuid_none [OF assms(2)])
        (auto split: if_splits)
  qed
qed


section \<open>The client touches nothing else\<close>

text \<open>No function of the API client changes the fields that its user adds to the state.\<close>

named_theorems more_kept "the extension of the state is kept"

lemma more_simps [simp]:
  "api_state.more (tick s) = api_state.more s" "api_state.more (acquire r s) = api_state.more s"
  by (simp_all add: tick_def acquire_def)

lemma release_more [more_kept]: "release r s = Ret s' \<Longrightarrow> api_state.more s' = api_state.more s"
  by (auto simp: release_def split: if_splits)

lemma curl_cleanup_more [more_kept]: "curl_cleanup s = Ret s' \<Longrightarrow> api_state.more s' = api_state.more s"
  by (auto simp: curl_cleanup_def more_kept split: option.splits)

lemma curl_setopts_more [more_kept]: "curl_setopts env n s = Ret s' \<Longrightarrow> api_state.more s' = api_state.more s"
  by (induction n arbitrary: s) (auto elim!: bindo_RetE)

lemma api_connect_more [more_kept]: "api_connect env s = Ret (r, s') \<Longrightarrow> api_state.more s' = api_state.more s"
  by (auto simp: api_connect_def Let_def split: option.splits if_splits elim!: bindo_RetE dest!: more_kept)

lemma api_teardown_more [more_kept]: "api_teardown s = Ret s' \<Longrightarrow> api_state.more s' = api_state.more s"
  by (auto simp: api_teardown_def elim!: bindo_RetE dest!: more_kept)

lemma api_init_more [more_kept]: "api_init env s = Ret (r, s') \<Longrightarrow> api_state.more s' = api_state.more s"
  by (auto simp: api_init_def Let_def split: if_splits elim!: bindo_RetE dest!: more_kept)

lemma api_send_loop_more [more_kept]:
  "api_send_loop k env msg s = Ret (r, s') \<Longrightarrow> api_state.more s' = api_state.more s"
  by (induction k arbitrary: msg s) (auto split: if_splits option.splits)

lemma api_send_more [more_kept]: "api_send env msg s = Ret (r, s') \<Longrightarrow> api_state.more s' = api_state.more s"
  by (auto simp: api_send_def split: if_splits dest!: more_kept)

lemma build_more [simp]:
  "api_state.more (snd (add_fields env fs j s)) = api_state.more s"
  "api_state.more (snd (make_items env xs s)) = api_state.more s"
  by (induction fs arbitrary: j s; simp)
    (induction xs arbitrary: s; force simp: split_beta split: option.split)

lemma add_array_more [simp]: "api_state.more (snd (add_array env k xs j s)) = api_state.more s"
proof -
  obtain r s' where m: "make_items env xs (tick s) = (r, s')"
    by fastforce
  then have "api_state.more s' = api_state.more s"
    using build_more(2) [of env xs "tick s"] unfolding m by simp
  then show ?thesis
    by (auto simp: add_array_def m split: option.split)
qed

lemma then_build_more:
  "(\<And>j s. api_state.more (snd (f j s)) = api_state.more s) \<Longrightarrow>
     api_state.more (snd (then_build r f)) = api_state.more (snd r)"
  by (cases r) (auto simp: then_build_def split: option.split)

lemma build_heartbeat_more [simp]: "api_state.more (snd (build_heartbeat env hb s)) = api_state.more s"
  by (simp add: build_heartbeat_def Let_def then_build_more)

lemma add_fields_more [more_kept]: "add_fields env fs j s = (r, s') \<Longrightarrow> api_state.more s' = api_state.more s"
  using build_more(1) [of env fs j s] by simp

lemma send_err_more [more_kept]:
  "send_err_uuid u p s = Ret (r, s') \<Longrightarrow> api_state.more s' = api_state.more s"
  "send_err_cjson m p s = Ret (r, s') \<Longrightarrow> api_state.more s' = api_state.more s"
  by (auto simp: send_err_uuid_def send_err_cjson_def split: if_splits elim!: bindo_RetE dest!: more_kept)

lemma send_printed_more [more_kept]:
  "send_printed env msg s = Ret (r, s') \<Longrightarrow> api_state.more s' = api_state.more s"
  by (auto simp: send_printed_def split: if_splits elim!: bindo_RetE dest!: more_kept)

lemma send_message_more [more_kept]:
  "send_message env ty ts u p s = Ret (r, s') \<Longrightarrow> api_state.more s' = api_state.more s"
  by (auto simp: send_message_def simp del: add_fields.simps split: if_splits prod.splits option.splits
      elim!: bindo_RetE dest!: more_kept)

lemma api_send_json_more [more_kept]:
  "api_send_json env ty p s = Ret (r, s') \<Longrightarrow> api_state.more s' = api_state.more s"
  by (auto simp: api_send_json_def get_timestamp_def get_uuid_def split: if_splits prod.splits option.splits
      elim!: bindo_RetE dest!: more_kept)

lemma send_payload_more:
  assumes "send_payload env ty build s = Ret (r, s')" "\<And>s. api_state.more (snd (build s)) = api_state.more s"
  shows "api_state.more s' = api_state.more s"
  using assms(1) assms(2) [of "acquire Obj_Payload (tick s)"]
  by (auto simp: send_payload_def split: if_splits prod.splits option.splits elim!: bindo_RetE dest!: more_kept)

lemma api_sends_more [more_kept]:
  "api_send_heartbeat env hb s = Ret (r, s') \<Longrightarrow> api_state.more s' = api_state.more s"
  "api_send_confirm_start env i t s = Ret (r, s') \<Longrightarrow> api_state.more s' = api_state.more s"
  "api_send_stop_session env i s = Ret (r, s') \<Longrightarrow> api_state.more s' = api_state.more s"
  "api_send_session_error env i t s = Ret (r, s') \<Longrightarrow> api_state.more s' = api_state.more s"
  unfolding api_send_heartbeat_def api_send_confirm_start_def api_send_stop_session_def api_send_session_error_def
  by (erule send_payload_more, rule build_heartbeat_more build_more)+

text \<open>Receiving a message either does nothing or is a call of one handler.\<close>

lemma api_recv_cases:
  "api_recv J hs msg x \<in> {Ret (-1, x), Ret (0, x)} \<or>
     (\<exists>h d. ah_start hs = Some h \<and> api_recv J hs msg x = h d x) \<or>
     (\<exists>h d. ah_stop hs = Some h \<and> api_recv J hs msg x = h d x)"
proof -
  have start: "api_recv_start_session J hs p x \<in> {Ret (-1, x), Ret (0, x)} \<or>
      (\<exists>h d. ah_start hs = Some h \<and> api_recv_start_session J hs p x = h d x)" for p
    unfolding api_recv_start_session_def by (simp split: option.split) blast
  have stop: "api_recv_stop_session J hs p x \<in> {Ret (-1, x), Ret (0, x)} \<or>
      (\<exists>h d. ah_stop hs = Some h \<and> api_recv_stop_session J hs p x = h d x)" for p
    unfolding api_recv_stop_session_def by (simp split: option.split) blast
  show ?thesis
  proof (cases "cj_parse J msg")
    case (Some j)
    show ?thesis
    proof (cases "string_field J j ''type''")
      case (Some ty)
      then show ?thesis
        using \<open>cj_parse J msg = Some j\<close> start [of "the (cj_get J j ''payload'')"]
          stop [of "the (cj_get J j ''payload'')"]
        by (cases "cj_get J j ''payload''") (simp_all add: api_recv_def, blast)
    qed (simp add: api_recv_def Some)
  qed (simp add: api_recv_def)
qed

text \<open>What the handlers keep, receiving and polling keep.\<close>

lemma api_recv_keeps:
  assumes "api_recv J hs msg x = Ret (r, x')" "P x"
    and start: "\<And>h d x r x'. ah_start hs = Some h \<Longrightarrow> P x \<Longrightarrow> h d x = Ret (r, x') \<Longrightarrow> P x'"
    and stop: "\<And>h d x r x'. ah_stop hs = Some h \<Longrightarrow> P x \<Longrightarrow> h d x = Ret (r, x') \<Longrightarrow> P x'"
  shows "P x'"
  using api_recv_cases [of J hs msg x]
proof (elim disjE exE conjE)
  assume "api_recv J hs msg x \<in> {Ret (-1, x), Ret (0, x)}"
  then show ?thesis
    using assms(1,2) by auto
next
  fix h d
  assume "ah_start hs = Some h" "api_recv J hs msg x = h d x"
  then show ?thesis
    using assms(1,2) start by metis
next
  fix h d
  assume "ah_stop hs = Some h" "api_recv J hs msg x = h d x"
  then show ?thesis
    using assms(1,2) stop by metis
qed

lemma api_poll_keeps:
  assumes "api_poll env hs s = Ret (r, s')" "P s"
    and more: "\<And>s s'. P s \<Longrightarrow> api_state.more s' = api_state.more s \<Longrightarrow> P s'"
    and start: "\<And>h d x r x'. ah_start hs = Some h \<Longrightarrow> P x \<Longrightarrow> h d x = Ret (r, x') \<Longrightarrow> P x'"
    and stop: "\<And>h d x r x'. ah_stop hs = Some h \<Longrightarrow> P x \<Longrightarrow> h d x = Ret (r, x') \<Longrightarrow> P x'"
  shows "P s'"
proof -
  have here: "P s1" if "api_state.more s1 = api_state.more s" for s1
    using more [OF assms(2) that] .
  have recv: "P s'" if "api_recv J hs msg s1 = Ret (r, s')" "api_state.more s1 = api_state.more s" for J msg s1
    using api_recv_keeps [of J hs msg s1 r s' P] that here start stop by blast
  have conn: "P s'" if "api_connect env s1 = Ret (r, s')" "api_state.more s1 = api_state.more s" for s1
    using here api_connect_more [OF that(1)] that(2) by simp
  have more2: "api_state.more (tick (tick s\<lparr>ac_last_reconnect := t\<rparr>)) = api_state.more s" for t
    by (simp add: tick_def)
  show ?thesis
    using assms(1) unfolding api_poll_def
    by (auto simp: Let_def more2 split: if_splits ws_recv.splits intro: here dest: recv conn)
qed

section \<open>Properties\<close>

text \<open>
  Request identifiers are version 4 UUIDs: whatever the random numbers, an identifier has 36
  characters, dashes at positions 8, 13, 18 and 23, the version digit 4 at position 14, one of
  8, 9, a, b at position 19 and hexadecimal digits everywhere else.
\<close>
theorem get_uuid_v4:
  assumes "get_uuid env s = (Some u, s')"
  shows "length u = 36 \<and>
    (\<forall>i < 36. u ! i \<in> (if i \<in> {8, 13, 18, 23} then {CHR ''-''} else if i = 14 then {CHR ''4''}
       else if i = 19 then set ''89ab'' else set ''0123456789abcdef''))"
proof -
  have fmt: "\<forall>i \<in> set [0..<36]. (uuid_format ! i = CHR ''-'') = (i \<in> {8, 13, 18, 23}) \<and>
      (uuid_format ! i = CHR ''X'') = (i = 14) \<and> (uuid_format ! i = CHR ''Y'') = (i = 19)"
    by code_simp
  have u: "u = map (\<lambda>i. uuid_char (ae_rand env i) i) [0..<36]"
    using assms by (auto simp: get_uuid_def split: if_splits)
  have hex: "''89ab'' ! nat (uint r mod 4) \<in> set ''89ab''"
    "''0123456789abcdef'' ! nat (uint r mod 16) \<in> set ''0123456789abcdef''" for r :: u32
    by (intro nth_mem, simp add: nat_less_iff)+
  have "uuid_char r i \<in> (if i \<in> {8, 13, 18, 23} then {CHR ''-''} else if i = 14 then {CHR ''4''}
       else if i = 19 then set ''89ab'' else set ''0123456789abcdef'')" if "i < 36" for i r
  proof -
    have "(uuid_format ! i = CHR ''-'') = (i \<in> {8, 13, 18, 23})" "(uuid_format ! i = CHR ''X'') = (i = 14)"
      "(uuid_format ! i = CHR ''Y'') = (i = 19)"
      using fmt that by (auto simp del: upt_rec_numeral)
    then show ?thesis
      using hex [of r] unfolding uuid_char_def by (simp del: list.set)
  qed
  then show ?thesis
    by (simp add: u del: upt_rec_numeral)
qed

text \<open>
  C20. Sending delivers the whole message or fails: if every successful \<^verbatim>\<open>curl_ws_send\<close> takes at least
  one byte, \<^verbatim>\<open>api_send\<close> returns, what curl got is a prefix of the message, all of it when the
  result is 0 on a connected client, and the result is -1 only if some send failed.
\<close>
theorem api_send_delivers:
  assumes "sends_progress env"
  shows "\<exists>r s' out. api_send env msg s = Ret (r, s') \<and> aw_sent s' = aw_sent s @ out \<and>
    prefix (concat out) msg \<and> (r = 0 \<longrightarrow> ac_curl s = None \<or> concat out = msg) \<and>
    (r = 0 \<or> r = -1 \<and> (\<exists>j m. ae_ws_send env j m = None))"
  by (rule api_send_result [OF assms, of msg s]) auto

text \<open>
  C21. The memory of outgoing messages. For every pattern of failing calls, sending a heartbeat
  releases every timestamp, identifier, message, text and payload it made and returns 0 or -1, with two
  exceptions that are defects: when no timestamp can be made the code frees an uninitialised pointer, and
  when no identifier can be made, and only then, it leaves the timestamp behind. When the payload cannot be
  built the result is -1. The result of a call of \<^verbatim>\<open>curl_ws_send\<close> is an error or at least one byte taken, and
  dates have at most 19 characters.
\<close>
theorem api_send_heartbeat_memory:
  assumes "sends_progress env" "times_fit env"
    and "build_heartbeat env hb (acquire Obj_Payload (tick s)) = (payload, s1)"
  shows "if \<not> ae_ok env (aw_tick s) \<or> payload = None
     then \<exists>s'. api_send_heartbeat env hb s = Ret (-1, s') \<and> aw_held s' = aw_held s
     else if \<exists>s2. get_timestamp env s1 = Ret (None, s2) then api_send_heartbeat env hb s = Fault Indeterminate
     else if \<exists>ts s2 s3. get_timestamp env s1 = Ret (Some ts, s2) \<and> get_uuid env s2 = (None, s3)
     then \<exists>s'. api_send_heartbeat env hb s = Ret (-1, s') \<and> aw_held s' = Obj_Timestamp # aw_held s
     else \<exists>r s'. api_send_heartbeat env hb s = Ret (r, s') \<and> (r = 0 \<or> r = -1) \<and> aw_held s' = aw_held s"
  unfolding api_send_heartbeat_def
  by (rule send_payload_held [OF assms(1,2) build_heartbeat_held assms(3)])


text \<open>The documented behaviour of cJSON the round trip relies on: printing and parsing are inverse,
  a lookup returns the first field of the name, and strings and objects are what they were created
  as.\<close>

definition cjson_laws :: "'j cjson \<Rightarrow> bool" where
  "cjson_laws J \<longleftrightarrow>
     (\<forall>j. cj_parse J (cj_print J j) = Some j) \<and> (\<forall>k. cj_get J (cj_object J) k = None) \<and>
     (\<forall>j k v k'. cj_get J (cj_add J j k v) k' =
        (if cj_get J j k' \<noteq> None then cj_get J j k' else if k' = k then Some v else None)) \<and>
     (\<forall>t. cj_is_string J (cj_string J t) \<and> cj_valuestring J (cj_string J t) = t) \<and>
     cj_is_object J (cj_object J) \<and> (\<forall>j k v. cj_is_object J j \<longrightarrow> cj_is_object J (cj_add J j k v))"

lemma send_printed_ok:
  assumes "sends_progress env" "\<And>k. ae_ok env k" "\<And>k m. ae_ws_send env k m \<noteq> None"
    "aw_held s = [Obj_Msg, Obj_Uuid, Obj_Timestamp] @ h" "ac_curl s \<noteq> None"
  shows "\<exists>s' out. send_printed env msg s = Ret (0, s') \<and> aw_sent s' = aw_sent s @ out \<and>
    concat out = cj_print (ae_json env) msg"
proof -
  obtain r s1 out where s1: "api_send env (cj_print (ae_json env) msg) (acquire Obj_Text (tick s)) = Ret (r, s1)"
    "aw_sent s1 = aw_sent (acquire Obj_Text (tick s)) @ out" "aw_held s1 = aw_held (acquire Obj_Text (tick s))"
    "r = 0 \<and> (ac_curl (acquire Obj_Text (tick s)) = None \<or> concat out = cj_print (ae_json env) msg) \<or>
      r = -1 \<and> (\<exists>j m. ae_ws_send env j m = None)"
    by (rule api_send_result [OF assms(1), of "cj_print (ae_json env) msg" "acquire Obj_Text (tick s)"]) blast
  have "r = 0" "concat out = cj_print (ae_json env) msg"
    using s1(4) assms(3,5) by auto
  then show ?thesis
    using s1(1-3) assms(2,4) by (simp add: send_printed_def release_def)
qed

text \<open>The message \<open>api_send_json\<close> prints.\<close>

definition api_message :: "'j cjson \<Rightarrow> string \<Rightarrow> string \<Rightarrow> string \<Rightarrow> 'j \<Rightarrow> 'j" where
  "api_message J ty ts uuid payload =
     cj_add J (cj_add J (cj_add J (cj_add J (cj_object J) ''type'' (cj_string J ty))
       ''timestamp'' (cj_string J ts)) ''request_id'' (cj_string J uuid)) ''payload'' payload"

lemma api_send_json_ok:
  assumes "sends_progress env" "times_fit env" "\<And>k. ae_ok env k" "\<And>k. ae_now env k \<noteq> None"
    "\<And>k m. ae_ws_send env k m \<noteq> None" "aw_held s = Obj_Payload # h" "ac_curl s \<noteq> None"
  shows "\<exists>s' out ts uuid. api_send_json env ty p s = Ret (0, s') \<and> aw_sent s' = aw_sent s @ out \<and>
    concat out = cj_print (ae_json env) (api_message (ae_json env) ty ts uuid p)"
proof -
  let ?J = "ae_json env"
  obtain ts where ts: "ae_now env (Suc (aw_tick s)) = Some ts" "length ts < 20"
    using assms(2,4) by (force simp: times_fit_def)
  obtain u s2 where u: "get_uuid env (acquire Obj_Timestamp (tick s)) = (Some u, s2)"
    and s2: "aw_held s2 = [Obj_Uuid, Obj_Timestamp, Obj_Payload] @ h" "aw_sent s2 = aw_sent s"
      "ac_curl s2 = ac_curl s"
    using assms(3,6) by (auto simp: get_uuid_def)
  obtain s3 where f: "add_fields env [(''type'', cj_string ?J ty), (''timestamp'', cj_string ?J ts),
      (''request_id'', cj_string ?J u)] (cj_object ?J) (acquire Obj_Msg (tick s2)) =
      (Some (cj_add ?J (cj_add ?J (cj_add ?J (cj_object ?J) ''type'' (cj_string ?J ty))
         ''timestamp'' (cj_string ?J ts)) ''request_id'' (cj_string ?J u)), s3)"
    using assms(3) by simp
  have s3: "aw_held s3 = [Obj_Msg, Obj_Uuid, Obj_Timestamp, Obj_Payload] @ h" "aw_sent s3 = aw_sent s"
    "ac_curl s3 = ac_curl s"
    using add_fields_held [OF f] s2 by simp_all
  have "Obj_Payload \<in> set (aw_held (tick s3))"
    using s3 by simp
  then obtain s4 where s4: "release Obj_Payload (tick s3) = Ret s4" "aw_held s4 = remove1 Obj_Payload (aw_held (tick s3))"
    "aw_sent s4 = aw_sent (tick s3)" "ac_curl s4 = ac_curl (tick s3)"
    by (rule release_held)
  have "api_send_json env ty p s = send_printed env (api_message ?J ty ts u p) s4"
    using ts u f s4(1) assms(3)
    by (simp add: api_send_json_def get_timestamp_def send_message_def api_message_def)
  moreover have "aw_held s4 = [Obj_Msg, Obj_Uuid, Obj_Timestamp] @ h"
    using s4(2) s3(1) by simp
  moreover have "ac_curl s4 \<noteq> None"
    using s4(4) s3(3) assms(7) by simp
  ultimately obtain s' out where "api_send_json env ty p s = Ret (0, s')" "aw_sent s' = aw_sent s4 @ out"
    "concat out = cj_print ?J (api_message ?J ty ts u p)"
    using send_printed_ok [OF assms(1,3,5), of s4 h "api_message ?J ty ts u p"] by auto
  then show ?thesis
    using s4(3) s3(2) by auto
qed

lemma api_message_fields:
  assumes "cjson_laws J"
  shows "string_field J (api_message J ty ts u p) ''type'' = Some ty"
    "cj_get J (api_message J ty ts u p) ''payload'' = Some p"
  using assms by (simp_all add: cjson_laws_def api_message_def string_field_def)

text \<open>
  C19. The wire format of session stops round-trips: the text that \<^verbatim>\<open>api_send_stop_session\<close> hands to curl,
  received again by \<^verbatim>\<open>api_recv\<close>, calls the stop handler with the same session identifier. This is
  for a connected client on which every call succeeds, and a cJSON that behaves as documented.
\<close>
theorem api_stop_roundtrip:
  assumes "cjson_laws (ae_json env)" "sends_progress env" "times_fit env" "\<And>k. ae_ok env k"
    "\<And>k. ae_now env k \<noteq> None" "\<And>k m. ae_ws_send env k m \<noteq> None" "ac_curl s \<noteq> None"
    and "ah_stop hs = Some h"
  shows "\<exists>s' out. api_send_stop_session env sid s = Ret (0, s') \<and> aw_sent s' = aw_sent s @ out \<and>
    api_recv (ae_json env) hs (concat out) x = h sid x"
proof -
  let ?J = "ae_json env"
  let ?p = "cj_add ?J (cj_object ?J) ''session_id'' (cj_string ?J sid)"
  let ?s = "tick (acquire Obj_Payload (tick s))"
  have "aw_held ?s = Obj_Payload # aw_held s" "ac_curl ?s \<noteq> None"
    using assms(7) by simp_all
  from api_send_json_ok [where ty = "''stop_session''" and p = ?p, OF assms(2-6) this]
  obtain s' out ts u where sent: "api_send_json env ''stop_session'' ?p ?s = Ret (0, s')"
    "aw_sent s' = aw_sent ?s @ out" "concat out = cj_print ?J (api_message ?J ''stop_session'' ts u ?p)"
    by blast
  have "api_send_stop_session env sid s = api_send_json env ''stop_session'' ?p ?s"
    using assms(4) by (simp add: api_send_stop_session_def send_payload_def)
  moreover have "cj_parse ?J (concat out) = Some (api_message ?J ''stop_session'' ts u ?p)"
    using assms(1) sent(3) by (simp add: cjson_laws_def)
  moreover have "cj_is_object ?J ?p" "string_field ?J ?p ''session_id'' = Some sid"
    using assms(1) by (simp_all add: cjson_laws_def string_field_def)
  ultimately show ?thesis
    using sent(1,2) api_message_fields [OF assms(1), of "''stop_session''" ts u ?p] assms(8)
    by (simp add: api_recv_def api_recv_stop_session_def)
qed


text \<open>A JSON library for the witnesses: objects as association lists, with a text that encodes the
  value.\<close>

datatype simple_json = J_Str string | J_Num int | J_Null | J_Arr "simple_json list" | J_Obj "(string \<times> simple_json) list"

instance simple_json :: countable
  by countable_datatype

definition simple_cjson :: "simple_json cjson" where
  "simple_cjson = \<lparr>
     cj_parse = (\<lambda>t. Some (from_nat (length t))), cj_print = (\<lambda>j. replicate (to_nat j) (CHR ''j'')),
     cj_get = (\<lambda>j k. case j of J_Obj fs \<Rightarrow> map_of fs k | _ \<Rightarrow> None),
     cj_is_string = (\<lambda>j. case j of J_Str _ \<Rightarrow> True | _ \<Rightarrow> False),
     cj_is_number = (\<lambda>j. case j of J_Num _ \<Rightarrow> True | _ \<Rightarrow> False),
     cj_is_object = (\<lambda>j. case j of J_Obj _ \<Rightarrow> True | _ \<Rightarrow> False),
     cj_valuestring = (\<lambda>j. case j of J_Str t \<Rightarrow> t | _ \<Rightarrow> []),
     cj_valueint = (\<lambda>j. case j of J_Num n \<Rightarrow> n | _ \<Rightarrow> 0),
     cj_object = J_Obj [], cj_string = J_Str, cj_number = (\<lambda>n. case n of Int_Num i \<Rightarrow> J_Num i | _ \<Rightarrow> J_Null),
     cj_array = J_Arr,
     cj_add = (\<lambda>j k v. case j of J_Obj fs \<Rightarrow> J_Obj (fs @ [(k, v)]) | _ \<Rightarrow> J_Obj [(k, v)])\<rparr>"

lemma simple_cjson_laws: "cjson_laws simple_cjson"
  by (auto simp: cjson_laws_def simple_cjson_def map_of_eq_None_iff map_add_dom_app_simps dom_map_of_conv_image_fst
      split: simple_json.split option.split)

definition api_env_ok :: "simple_json api_env" where
  "api_env_ok = \<lparr>ae_json = simple_cjson, ae_ok = (\<lambda>_. True), ae_time = (\<lambda>_. 0),
     ae_now = (\<lambda>_. Some ''2026-01-31 12:00:00''), ae_rand = (\<lambda>_. 7), ae_getenv = (\<lambda>_. Some ''url''),
     ae_ws_send = (\<lambda>_ m. Some (max 1 (length m))), ae_ws_recv = (\<lambda>_. Recv_Error), ae_poll = (\<lambda>_. 1)\<rparr>"

definition api_connected :: api_state where
  "api_connected = \<lparr>ac_curl = Some 1, ac_last_reconnect = 0, aw_tick = 3, aw_held = [Obj_Curl 1, Obj_Client], aw_sent = []\<rparr>"

lemma api_env_ok_facts:
  "sends_progress api_env_ok" "times_fit api_env_ok" "cjson_laws (ae_json api_env_ok)"
  "ae_ok api_env_ok k" "ae_now api_env_ok k \<noteq> None" "ae_ws_send api_env_ok k m \<noteq> None"
  by (simp_all add: api_env_ok_def sends_progress_def times_fit_def simple_cjson_laws less_max_iff_disj)

theorem get_uuid_v4_witness:
  "\<exists>u s'. get_uuid api_env_ok api_connected = (Some u, s') \<and> length u = 36 \<and> u ! 8 = CHR ''-'' \<and> u ! 14 = CHR ''4''"
proof -
  obtain u s' where u: "get_uuid api_env_ok api_connected = (Some u, s')"
    by (simp add: get_uuid_def api_env_ok_def)
  note v4 = get_uuid_v4 [OF u]
  have "u ! 8 = CHR ''-''" "u ! 14 = CHR ''4''"
    using conjunct2 [OF v4, rule_format, of 8] conjunct2 [OF v4, rule_format, of 14] by simp_all
  then show ?thesis
    using u conjunct1 [OF v4] by simp
qed

theorem api_send_delivers_witness:
  "\<exists>r s' out. api_send api_env_ok ''hello'' api_connected = Ret (r, s') \<and> aw_sent s' = out \<and>
     prefix (concat out) ''hello'' \<and> r = 0"
proof -
  have "\<exists>s'. api_send api_env_ok ''hello'' api_connected = Ret (0, s')"
    by (simp add: api_send_def api_connected_def api_env_ok_def numeral_eq_Suc)
  then show ?thesis
    using api_send_delivers [OF api_env_ok_facts(1), of "''hello''" api_connected]
    by (auto simp: api_connected_def)
qed

definition hb_example :: api_msg_heartbeat where
  "hb_example = \<lparr>hb_hostname = ''host'', hb_ip = ''127.0.0.1'', hb_version = ''1'', hb_games = [''g''],
     hb_sessions = [], hb_uptime = 5, hb_cpu_load = NaN, hb_cpu_count = 4, hb_ram_used = 1, hb_ram_total = 2,
     hb_disk_used = 1, hb_disk_total = 2, hb_temperature = NaN\<rparr>"

theorem api_send_heartbeat_memory_witness:
  "(\<exists>r s'. api_send_heartbeat api_env_ok hb_example api_connected = Ret (r, s') \<and> aw_held s' = aw_held api_connected) \<and>
   (\<exists>s'. api_send_heartbeat (api_env_ok\<lparr>ae_ok := (\<lambda>k. k \<noteq> 19)\<rparr>) hb_example api_connected = Ret (-1, s') \<and>
      aw_held s' = Obj_Timestamp # aw_held api_connected)"
proof -
  define E where "E = api_env_ok\<lparr>ae_ok := (\<lambda>k. k \<noteq> 19)\<rparr>"
  have env: "sends_progress E" "times_fit E"
    using api_env_ok_facts(1,2) by (simp_all add: E_def sends_progress_def times_fit_def)
  have "(\<exists>j s1. build_heartbeat api_env_ok hb_example (acquire Obj_Payload (tick api_connected)) = (Some j, s1) \<and>
      aw_tick s1 = 18) \<and>
    (\<exists>j s1. build_heartbeat E hb_example (acquire Obj_Payload (tick api_connected)) = (Some j, s1) \<and> aw_tick s1 = 18)"
    by (simp add: E_def build_heartbeat_def Let_def then_build_def add_array_def hb_example_def heartbeat_numbers_def
        api_env_ok_def api_connected_def)
  then show ?thesis
    using api_send_heartbeat_memory [OF api_env_ok_facts(1,2), of hb_example api_connected]
      api_send_heartbeat_memory [OF env, of hb_example api_connected]
    by (auto simp: get_timestamp_def get_uuid_def E_def api_env_ok_def api_connected_def split: if_splits)
qed

theorem api_stop_roundtrip_witness:
  "\<exists>s' out. api_send_stop_session api_env_ok ''abc'' api_connected = Ret (0, s') \<and> aw_sent s' = aw_sent api_connected @ out \<and>
     api_recv (ae_json api_env_ok) \<lparr>ah_start = None, ah_stop = Some (\<lambda>i n. Ret (0, n + length i))\<rparr> (concat out) 10 =
       Ret (0, 13)"
  using api_stop_roundtrip [where env = api_env_ok and s = api_connected and sid = "''abc''" and x = 10 and
      hs = "\<lparr>ah_start = None, ah_stop = Some (\<lambda>i n. Ret (0, n + length i))\<rparr>", OF api_env_ok_facts(3,1,2,4,5,6)]
  by (simp add: api_connected_def)


text \<open>Setting options only counts the calls made.\<close>

lemma curl_setopts_ret: "curl_setopts env n s = Ret s' \<Longrightarrow> \<exists>k. s' = s\<lparr>aw_tick := k\<rparr>"
proof (induction n arbitrary: s)
  case 0
  then show ?case by (auto intro: exI [of _ "aw_tick s"])
next
  case (Suc n)
  then have "curl_setopts env n (tick s) = Ret s'"
    by (auto elim!: bindo_RetE)
  from Suc.IH [OF this] show ?case
    by (auto simp: tick_def)
qed

text \<open>Reconnecting a client whose handle is live: afterwards either the client can be torn down, or its
  handle is one that was already cleaned up.\<close>

lemma api_connect_teardown:
  assumes "ac_curl s = Some h" "aw_held s = [Obj_Curl h, Obj_Client]" "api_connect env s = Ret (r, s')"
  shows "if r = -1 \<and> ae_getenv env ''STRATUSD_BACKEND_URL'' \<noteq> None \<and> ae_ok env (aw_tick s)
     then api_teardown s' = Fault Double_Free
     else (r = 0 \<or> r = -1) \<and> (\<exists>s''. api_teardown s' = Ret s'' \<and> aw_held s'' = [])"
  using assms
  by (auto simp: api_connect_def curl_cleanup_def release_def tick_def acquire_def Let_def api_teardown_def
      dest!: curl_setopts_ret elim!: bindo_RetE split: option.splits if_splits)

text \<open>
  C22. A reconnect that fails ends in a double free. On a client whose handle is live, a broken
  connection more than a minute after the last reconnect makes \<^verbatim>\<open>api_poll\<close> reconnect, which returns 0 or -1 unless
  an asserted option call fails. When it returns -1 after a new handle was created, whichever of its calls failed
  and with or without a password, the cleaned-up handle stays in the client, and the \<^verbatim>\<open>api_teardown\<close> that
  \<^verbatim>\<open>sidecar_main\<close> runs next cleans it up a second time. In every other case the teardown succeeds and
  releases everything.
\<close>
theorem api_reconnect_double_free:
  assumes "ac_curl s = Some h" "aw_held s = [Obj_Curl h, Obj_Client]" "0 < ae_poll env (aw_tick s)"
    "ae_ws_recv env (Suc (aw_tick s)) = Recv_Error"
    "ae_time env (Suc (aw_tick s)) - ac_last_reconnect s > RECONNECT_LIMIT"
    "api_poll env hs s = Ret (r, s')"
  shows "if r = -1 \<and> ae_getenv env ''STRATUSD_BACKEND_URL'' \<noteq> None \<and> ae_ok env (aw_tick s + 2)
     then api_teardown s' = Fault Double_Free
     else (r = 0 \<or> r = -1) \<and> (\<exists>s''. api_teardown s' = Ret s'' \<and> aw_held s'' = [])"
proof -
  let ?s = "tick (tick s\<lparr>ac_last_reconnect := ae_time env (Suc (Suc (aw_tick s)))\<rparr>)"
  have "api_connect env ?s = Ret (r, s')"
    using assms by (simp add: api_poll_def Let_def)
  then show ?thesis
    using api_connect_teardown [of ?s h env r s'] assms(1,2) by (simp add: tick_def)
qed

theorem api_reconnect_double_free_witness:
  "\<exists>s'. api_poll (api_env_ok\<lparr>ae_ok := (\<lambda>k. k \<noteq> 12), ae_time := (\<lambda>_. 100)\<rparr>)
      \<lparr>ah_start = None, ah_stop = None\<rparr> api_connected = Ret (-1, s') \<and> api_teardown s' = Fault Double_Free"
proof -
  let ?env = "api_env_ok\<lparr>ae_ok := (\<lambda>k. k \<noteq> 12), ae_time := (\<lambda>_. 100)\<rparr>"
  obtain s' where s': "api_poll ?env \<lparr>ah_start = None, ah_stop = None\<rparr> api_connected = Ret (-1, s')"
    by (simp add: api_poll_def Let_def api_connect_def curl_cleanup_def release_def tick_def acquire_def
        numeral_eq_Suc api_connected_def api_env_ok_def)
  then show ?thesis
    using api_reconnect_double_free [OF _ _ _ _ _ s', of 1] by (auto simp: api_connected_def api_env_ok_def)
qed

text \<open>
  C23. Setting up and tearing down an API client is balanced when every call succeeds: \<^verbatim>\<open>api_init\<close>
  returns a client, \<^verbatim>\<open>api_teardown\<close> succeeds on it and releases all that \<^verbatim>\<open>api_init\<close> acquired, with
  and without a backend URL and a password. Without a URL the client is a no-op: polling and
  sending return 0 and leave the state alone.
\<close>
theorem api_client_balanced:
  assumes "\<And>k. ae_ok env k"
  shows "\<exists>s1 s2. api_init env s = Ret (True, s1) \<and> api_teardown s1 = Ret s2 \<and> aw_held s2 = aw_held s \<and>
    (ae_getenv env ''STRATUSD_BACKEND_URL'' = None \<longrightarrow>
      api_poll env hs s1 = Ret (0, s1) \<and> api_send env msg s1 = Ret (0, s1))"
  using assms
  by (auto simp: api_init_def api_connect_def curl_cleanup_def release_def tick_def acquire_def Let_def
      api_teardown_def numeral_eq_Suc api_poll_def api_send_def split: option.split)

theorem api_client_balanced_witness:
  "\<exists>s1 s2. api_init api_env_ok (api_connected\<lparr>ac_curl := None, aw_held := []\<rparr>) = Ret (True, s1) \<and>
     api_teardown s1 = Ret s2 \<and> aw_held s2 = []"
  using api_client_balanced [where env = api_env_ok and s = "api_connected\<lparr>ac_curl := None, aw_held := []\<rparr>"
      and hs = "\<lparr>ah_start = None, ah_stop = None\<rparr>" and msg = "[]", OF api_env_ok_facts(4)] by auto

end
