(* ===== verification/Steam_Launcher.thy ===== *)
theory Steam_Launcher
  imports C_Strings
begin

text \<open>
  The game catalog and the Steam client of \<^verbatim>\<open>stratusd/SideCar/src/steam_launcher.c\<close>. The static
  variables of the file are the record \<open>steam_state\<close>: the array of 64 entries, the number of
  entries in use and the PID of the Steam client. The results of \<^verbatim>\<open>fork\<close>, \<^verbatim>\<open>waitpid\<close> and
  \<^verbatim>\<open>kill\<close> are arguments; the environment variables set and the signals sent are returned.
\<close>

section \<open>State\<close>

abbreviation MAX_GAMES_CATALOG :: nat where "MAX_GAMES_CATALOG \<equiv> 64"
abbreviation STEAM_CMD_MAX :: nat where "STEAM_CMD_MAX \<equiv> 512"

datatype game_source_t =
  GAME_SOURCE_NONE | GAME_SOURCE_SEED | GAME_SOURCE_STEAM | GAME_SOURCE_NON_STEAM | GAME_SOURCE_MANUAL

record game_entry_t =
  ge_id :: string
  ge_title :: string
  ge_source :: game_source_t
  ge_appid :: int
  ge_installdir :: string

record steam_state =
  games_catalog :: "game_entry_t list"
  game_count :: nat
  steam_client_pid :: int

definition game_entry_zero :: game_entry_t where
  "game_entry_zero = \<lparr>ge_id = '''', ge_title = '''', ge_source = GAME_SOURCE_NONE, ge_appid = 0,
     ge_installdir = ''''\<rparr>"

definition steam_initial :: steam_state where
  "steam_initial = \<lparr>games_catalog = replicate MAX_GAMES_CATALOG game_entry_zero, game_count = 0,
     steam_client_pid = 0\<rparr>"

section \<open>Operations\<close>

definition game_entry :: "string \<Rightarrow> string \<Rightarrow> game_source_t \<Rightarrow> int \<Rightarrow> string option \<Rightarrow> game_entry_t" where
  "game_entry i title source appid installdir =
     \<lparr>ge_id = strncpy_z 36 i, ge_title = strncpy_z 127 title, ge_source = source, ge_appid = appid,
      ge_installdir = (case installdir of None \<Rightarrow> '''' | Some d \<Rightarrow> strncpy_z 255 d)\<rparr>"

definition steam_register_game ::
    "string \<Rightarrow> string \<Rightarrow> game_source_t \<Rightarrow> int \<Rightarrow> string option \<Rightarrow> steam_state \<Rightarrow> int \<times> steam_state" where
  "steam_register_game i title source appid installdir st =
     (if game_count st \<ge> MAX_GAMES_CATALOG then (-1, st)
      else (0, st\<lparr>games_catalog := (games_catalog st)[game_count st := game_entry i title source appid installdir],
                 game_count := Suc (game_count st)\<rparr>))"

fun find_loop :: "string \<Rightarrow> game_entry_t list \<Rightarrow> nat \<Rightarrow> game_entry_t option" where
  "find_loop i [] n = None"
| "find_loop i (e # es) 0 = None"
| "find_loop i (e # es) (Suc n) = (if ge_id e = i then Some e else find_loop i es n)"

definition steam_find_game_by_id :: "string \<Rightarrow> steam_state \<Rightarrow> game_entry_t option" where
  "steam_find_game_by_id i st = find_loop i (games_catalog st) (game_count st)"

definition steam_get_game_count :: "steam_state \<Rightarrow> nat" where
  "steam_get_game_count st = game_count st"

definition steam_is_running :: "(int \<Rightarrow> int) \<Rightarrow> steam_state \<Rightarrow> bool" where
  "steam_is_running kill0 st = (if steam_client_pid st = 0 then False else kill0 (steam_client_pid st) = 0)"

text \<open>What the operating system answers: the PID from \<^verbatim>\<open>fork\<close>, the result of \<^verbatim>\<open>waitpid\<close> and the exit
  code of the child, if it exited.\<close>

record launch_env =
  le_fork :: int
  le_wait :: int
  le_exit :: "int option"

definition launch_setenv :: "string option \<Rightarrow> (string \<times> string) list" where
  "launch_setenv steam_prefix =
     (case steam_prefix of None \<Rightarrow> [] | Some p \<Rightarrow> [(''PROTON_PREFIX'', fst (snprintf 512 (p @ ''/pfx'')))]) @
     [(''PROTON_LOG'', ''1'')]"

text \<open>The argument vector the child executes.\<close>

definition launch_argv :: "int \<Rightarrow> string list" where
  "launch_argv appid =
     [''steam'', ''-no-browser'', ''-silent'', ''-applaunch'', fst (snprintf 16 (show_int appid))]"

definition launch_cmd :: "int \<Rightarrow> string" where
  "launch_cmd appid =
     fst (snprintf STEAM_CMD_MAX
       (''steam -no-browser -silent -applaunch '' @ fst (snprintf 16 (show_int appid))))"

text \<open>What a launch leaves outside the static variables: the environment variables it sets, the command
  it reports, and the argument vector its child executes when there is a child.\<close>

record launch_trace =
  lt_setenv :: "(string \<times> string) list"
  lt_cmd :: string
  lt_child :: "string list option"

definition steam_launch_game ::
    "launch_env \<Rightarrow> int \<Rightarrow> string option \<Rightarrow> steam_state \<Rightarrow> int \<times> launch_trace \<times> steam_state" where
  "steam_launch_game env appid steam_prefix st =
     (let tr = \<lparr>lt_setenv = launch_setenv steam_prefix, lt_cmd = launch_cmd appid, lt_child = None\<rparr> in
      if le_fork env < 0 then (-1, tr, st)
      else
        let tr = tr\<lparr>lt_child := Some (launch_argv appid)\<rparr>;
            st = st\<lparr>steam_client_pid := le_fork env\<rparr> in
        if le_wait env < 0 then (-1, tr, st\<lparr>steam_client_pid := 0\<rparr>)
        else
          let st = st\<lparr>steam_client_pid := 0\<rparr> in
          (case le_exit env of Some c \<Rightarrow> (c, tr, st) | None \<Rightarrow> (-1, tr, st)))"

datatype proc_action = Kill int string | Wait int | Wait_Nohang int

text \<open>\<open>nohang\<close> is the result of the \<^verbatim>\<open>waitpid\<close> with \<^verbatim>\<open>WNOHANG\<close>: 0 while the client still runs.\<close>

definition steam_stop :: "int \<Rightarrow> steam_state \<Rightarrow> proc_action list \<times> steam_state" where
  "steam_stop nohang st =
     (let pid = steam_client_pid st in
      if pid > 0
      then ([Kill pid ''TERM'', Wait_Nohang pid] @ (if nohang = 0 then [Kill pid ''KILL'', Wait pid] else []),
            st\<lparr>steam_client_pid := 0\<rparr>)
      else ([], st))"

section \<open>The catalog\<close>

definition steam_wf :: "steam_state \<Rightarrow> bool" where
  "steam_wf st \<longleftrightarrow> length (games_catalog st) = MAX_GAMES_CATALOG \<and> game_count st \<le> MAX_GAMES_CATALOG"

definition steam_games :: "steam_state \<Rightarrow> game_entry_t list" where
  "steam_games st = take (game_count st) (games_catalog st)"

lemma find_loop_take: "find_loop i es n = find (\<lambda>e. ge_id e = i) (take n es)"
  by (induction i es n rule: find_loop.induct) auto

lemma steam_find_games: "steam_find_game_by_id i st = find (\<lambda>e. ge_id e = i) (steam_games st)"
  by (simp add: steam_find_game_by_id_def steam_games_def find_loop_take)

lemma steam_initial_wf: "steam_wf steam_initial" "steam_games steam_initial = []"
  by (simp_all add: steam_wf_def steam_initial_def steam_games_def)

text \<open>
  The contract of the catalog: a bounded list of entries; registering appends, finding returns the
  oldest entry with the identifier.
\<close>

locale game_catalog =
  fixes ok :: "'s \<Rightarrow> bool" and entries :: "'s \<Rightarrow> 'e list" and cap :: nat and key :: "'e \<Rightarrow> 'k"
    and make :: "'a \<Rightarrow> 'e" and register :: "'a \<Rightarrow> 's \<Rightarrow> int \<times> 's" and find_key :: "'k \<Rightarrow> 's \<Rightarrow> 'e option"
  assumes within: "ok s \<Longrightarrow> length (entries s) \<le> cap"
    and full: "ok s \<Longrightarrow> length (entries s) = cap \<Longrightarrow> register a s = (-1, s)"
    and room: "ok s \<Longrightarrow> length (entries s) < cap \<Longrightarrow>
      \<exists>s'. register a s = (0, s') \<and> ok s' \<and> entries s' = entries s @ [make a]"
    and lookup: "ok s \<Longrightarrow> find_key k s = find (\<lambda>e. key e = k) (entries s)"
begin

text \<open>Registering a list of entries keeps as many as fit, in order.\<close>

lemma register_all:
  assumes "ok s"
  shows "ok (fold (\<lambda>a s. snd (register a s)) as s) \<and>
    entries (fold (\<lambda>a s. snd (register a s)) as s) = take cap (entries s @ map make as)"
  using assms
proof (induction as arbitrary: s)
  case Nil
  then show ?case
    using within by simp
next
  case (Cons a as)
  show ?case
  proof (cases "length (entries s) = cap")
    case True
    then show ?thesis
      using full [OF Cons.prems True, of a] Cons.IH [OF Cons.prems] by simp
  next
    case False
    then have "length (entries s) < cap"
      using within [OF Cons.prems] by simp
    then obtain s' where "register a s = (0, s')" "ok s'" "entries s' = entries s @ [make a]"
      using room [OF Cons.prems] by blast
    then show ?thesis
      using Cons.IH [of s'] by simp
  qed
qed

lemma find_after_register_all:
  assumes "ok s"
  shows "find_key k (fold (\<lambda>a s. snd (register a s)) as s) =
    find (\<lambda>e. key e = k) (take cap (entries s @ map make as))"
  using register_all [OF assms] lookup by metis

end

type_synonym game_args = "string \<times> string \<times> game_source_t \<times> int \<times> string option"

definition args_entry :: "game_args \<Rightarrow> game_entry_t" where
  "args_entry = (\<lambda>(i, title, source, appid, installdir). game_entry i title source appid installdir)"

definition args_register :: "game_args \<Rightarrow> steam_state \<Rightarrow> int \<times> steam_state" where
  "args_register = (\<lambda>(i, title, source, appid, installdir).
     steam_register_game i title source appid installdir)"

lemma length_steam_games: "steam_wf st \<Longrightarrow> length (steam_games st) = game_count st"
  by (simp add: steam_wf_def steam_games_def)

interpretation steam: game_catalog steam_wf steam_games MAX_GAMES_CATALOG ge_id args_entry args_register
    steam_find_game_by_id
  by unfold_locales
    (auto simp: length_steam_games steam_find_games args_register_def args_entry_def
      steam_register_game_def steam_wf_def steam_games_def take_Suc_conv_app_nth split: prod.split)

definition register_games :: "game_args list \<Rightarrow> steam_state \<Rightarrow> steam_state" where
  "register_games as st = fold (\<lambda>a st. snd (args_register a st)) as st"

section \<open>Properties\<close>

lemma args_entry_id_length: "e \<in> set (map args_entry as) \<Longrightarrow> length (ge_id e) \<le> 36"
  by (auto simp: args_entry_def game_entry_def strncpy_z_def split: prod.splits)

text \<open>
  C17. The game catalog is a bounded map. After registering any sequence of games from the start,
  the catalog holds the first 64 of them, and looking up an identifier returns the earliest of
  these whose identifier, cut to 36 characters, equals it, with title and installation directory
  cut to the sizes of their arrays. Later registrations under the same identifier are never found.
  An identifier of more than 36 characters is never found, not even when a game was registered under
  it: the lookup compares the whole identifier with the cut ones.
\<close>
theorem steam_catalog_lookup:
  "steam_find_game_by_id k (register_games as steam_initial) =
     find (\<lambda>e. ge_id e = k) (take MAX_GAMES_CATALOG (map args_entry as)) \<and>
   steam_get_game_count (register_games as steam_initial) = min MAX_GAMES_CATALOG (length as) \<and>
   (36 < length k \<longrightarrow> steam_find_game_by_id k (register_games as steam_initial) = None)"
proof -
  have wf: "steam_wf (register_games as steam_initial)"
    "steam_games (register_games as steam_initial) = take MAX_GAMES_CATALOG (map args_entry as)"
    using steam.register_all [OF steam_initial_wf(1), of as]
    by (simp_all add: register_games_def steam_initial_wf(2))
  have "steam_get_game_count (register_games as steam_initial) = min MAX_GAMES_CATALOG (length as)"
    using length_steam_games [OF wf(1)] wf(2) by (simp add: steam_get_game_count_def min.commute)
  moreover have "find (\<lambda>e. ge_id e = k) (take MAX_GAMES_CATALOG (map args_entry as)) = None" if "36 < length k"
    using that args_entry_id_length [of _ as] by (force simp: find_None_iff dest: in_set_takeD)
  ultimately show ?thesis
    using wf(2) by (simp add: steam_find_games)
qed

text \<open>A game registered under an identifier of 99 characters: it is found under the first 36 of them
  and not under the identifier itself.\<close>

definition long_game :: game_args where
  "long_game = (replicate 99 CHR ''A'', replicate 199 CHR ''B'', GAME_SOURCE_STEAM, 730, Some ''dir'')"

theorem steam_catalog_lookup_witness:
  "steam_find_game_by_id (replicate 99 CHR ''A'') (register_games [long_game] steam_initial) = None \<and>
   steam_get_game_count (register_games [long_game] steam_initial) = 1 \<and>
   (\<exists>e. steam_find_game_by_id (replicate 36 CHR ''A'') (register_games [long_game] steam_initial) = Some e \<and>
      ge_title e = replicate 127 CHR ''B'' \<and> ge_appid e = 730)"
  using steam_catalog_lookup [of "replicate 99 CHR ''A''" "[long_game]"]
    steam_catalog_lookup [of "replicate 36 CHR ''A''" "[long_game]"]
  by (simp add: long_game_def args_entry_def game_entry_def strncpy_z_def min_def)

text \<open>
  C18. Launching a Steam game leaves no client PID behind, so that \<^verbatim>\<open>steam_is_running\<close> and
  \<^verbatim>\<open>steam_stop\<close> never act on a PID that was waited for; the result is the exit code of a client that
  exited and -1 otherwise; a child is started unless \<^verbatim>\<open>fork\<close> fails, and the application number reaches
  its argument vector and the reported command whole for every 32-bit integer.
\<close>
theorem steam_launch_result:
  assumes "- (2 ^ 31) \<le> appid" "appid < 2 ^ 31" "steam_client_pid st = 0"
  shows "case steam_launch_game env appid prefix st of
      (r, tr, st') \<Rightarrow>
        steam_client_pid st' = 0 \<and> \<not> steam_is_running kill0 st' \<and> fst (steam_stop nohang st') = [] \<and>
        games_catalog st' = games_catalog st \<and> game_count st' = game_count st \<and>
        r = (if le_fork env < 0 \<or> le_wait env < 0 then -1 else case le_exit env of None \<Rightarrow> -1 | Some c \<Rightarrow> c) \<and>
        lt_child tr = (if le_fork env < 0 then None else Some (launch_argv appid)) \<and>
        launch_argv appid = [''steam'', ''-no-browser'', ''-silent'', ''-applaunch'', show_int appid] \<and>
        lt_cmd tr = launch_cmd appid \<and>
        launch_cmd appid = ''steam -no-browser -silent -applaunch '' @ show_int appid"
proof -
  have "length (show_int appid) \<le> 11"
    using assms(1,2) by (rule show_int_length)
  then have "launch_argv appid = [''steam'', ''-no-browser'', ''-silent'', ''-applaunch'', show_int appid]"
    "launch_cmd appid = ''steam -no-browser -silent -applaunch '' @ show_int appid"
    by (simp_all add: launch_argv_def launch_cmd_def snprintf_def)
  then show ?thesis
    using assms(3)
    by (simp add: steam_launch_game_def Let_def steam_is_running_def steam_stop_def split: option.split)
qed

theorem steam_launch_result_witness:
  "case steam_launch_game \<lparr>le_fork = 42, le_wait = 42, le_exit = Some 3\<rparr> 620 (Some ''/data'') steam_initial of
     (r, tr, st') \<Rightarrow> r = 3 \<and> steam_client_pid st' = 0 \<and>
       lt_child tr = Some [''steam'', ''-no-browser'', ''-silent'', ''-applaunch'', ''620''] \<and>
       lt_setenv tr = [(''PROTON_PREFIX'', ''/data/pfx''), (''PROTON_LOG'', ''1'')]"
proof -
  have "show_int 620 = ''620''"
    by code_simp
  moreover have "lt_setenv (fst (snd (steam_launch_game \<lparr>le_fork = 42, le_wait = 42, le_exit = Some 3\<rparr> 620
      (Some ''/data'') steam_initial))) = [(''PROTON_PREFIX'', ''/data/pfx''), (''PROTON_LOG'', ''1'')]"
    by code_simp
  moreover have "steam_client_pid steam_initial = 0"
    by (simp add: steam_initial_def)
  ultimately show ?thesis
    using steam_launch_result [where appid = 620 and st = steam_initial and
        env = "\<lparr>le_fork = 42, le_wait = 42, le_exit = Some 3\<rparr>" and prefix = "Some ''/data''"]
    by (auto split: prod.splits)
qed

end
