(* ===== verification/Session.thy ===== *)
theory Session
  imports Steam_Launcher "HOL-Library.Multiset"
begin

text \<open>
  Stream sessions, \<^verbatim>\<open>stratusd/SideCar/src/session.c\<close>: starting a session creates its resources, the six
  module threads and the game; polling watches them; the teardown stops everything.

  The state beside the session is the list of resources that exist and the trace of what was done to
  threads, processes and resources. Destroying what does not exist (any more) is a fault, and so is
  locking a mutex or signalling a condition variable that does not. The outside world is in
  \<open>session_env\<close>: which of the creations succeed, what \<^verbatim>\<open>fork\<close> returns, the environment.
\<close>

section \<open>State\<close>

abbreviation MAX_GAME_PATH :: nat where "MAX_GAME_PATH \<equiv> 128"
abbreviation MAX_DIMENSIONS_LEN :: nat where "MAX_DIMENSIONS_LEN \<equiv> 10"
abbreviation CLIENT_CONNECT_TIMEOUT :: int where "CLIENT_CONNECT_TIMEOUT \<equiv> 60"
abbreviation THREAD_TRANSPORT :: nat where "THREAD_TRANSPORT \<equiv> 5"
abbreviation THREAD_COUNT :: nat where "THREAD_COUNT \<equiv> 6"
abbreviation UUID_LEN :: nat where "UUID_LEN \<equiv> 37"
abbreviation DEFAULT_GAME_DIR :: string where "DEFAULT_GAME_DIR \<equiv> ''../games/build''"

definition thread_names :: "string list" where
  "thread_names = [''capture'', ''capture_pw'', ''audio_encode'', ''encode'', ''input'', ''transport'']"

datatype session_queue = Video_Encode | Video_Transport | Audio_Transport | Input_Queue

datatype resource = R_Session | R_Mutex | R_Cond | R_Cert | R_Ring | R_Queue session_queue

datatype sess_act =
    Signal_Group int int | Close_Ring | Start_Thread nat | Cancel nat | Join nat | Destroy resource

record session =
  se_id :: string
  se_start :: int
  se_active :: bool
  se_connected :: bool
  se_width :: int
  se_height :: int
  se_cert :: bool
  se_queues :: "session_queue list"   \<comment> \<open>the queue pointers that are not NULL\<close>
  se_ring :: bool
  se_game_id :: string
  se_game_pid :: int
  se_threads :: "bool list"

record sess_world =
  sw_held :: "resource list"
  sw_acts :: "sess_act list"

definition act :: "sess_act \<Rightarrow> 'm sess_world_scheme \<Rightarrow> 'm sess_world_scheme" where
  "act a w = w\<lparr>sw_acts := sw_acts w @ [a]\<rparr>"

definition create :: "resource \<Rightarrow> 'm sess_world_scheme \<Rightarrow> 'm sess_world_scheme" where
  "create r w = w\<lparr>sw_held := r # sw_held w\<rparr>"

definition destroy :: "resource \<Rightarrow> 'm sess_world_scheme \<Rightarrow> 'm sess_world_scheme outcome" where
  "destroy r w =
     (if r \<in> set (sw_held w)
      then Ret (w\<lparr>sw_held := remove1 r (sw_held w), sw_acts := sw_acts w @ [Destroy r]\<rparr>) else Fault Double_Free)"

definition touch :: "resource \<Rightarrow> 'm sess_world_scheme \<Rightarrow> unit outcome" where
  "touch r w = (if r \<in> set (sw_held w) then Ret () else Fault Use_After_Free)"

section \<open>Teardown\<close>

definition signal_game :: "int \<Rightarrow> int \<Rightarrow> 'm sess_world_scheme \<Rightarrow> 'm sess_world_scheme" where
  "signal_game pid sig w = (if pid \<noteq> 0 \<and> pid \<noteq> 1 then act (Signal_Group pid sig) w else w)"

definition stop_thread :: "bool list \<Rightarrow> nat \<Rightarrow> 'm sess_world_scheme \<Rightarrow> 'm sess_world_scheme" where
  "stop_thread states i w = (if states ! i then act (Join i) (act (Cancel i) w) else w)"

definition destroy_queue ::
    "session_queue list \<Rightarrow> session_queue \<Rightarrow> 'm sess_world_scheme \<Rightarrow> 'm sess_world_scheme outcome" where
  "destroy_queue qs q w = (if q \<in> set qs then destroy (R_Queue q) w else Ret w)"

definition session_teardown :: "session option \<Rightarrow> 'm sess_world_scheme \<Rightarrow> 'm sess_world_scheme outcome" where
  "session_teardown ses w =
     (case ses of
        None \<Rightarrow> Ret w
      | Some s \<Rightarrow>
          bindo (touch R_Mutex w) (\<lambda>_.
          bindo (touch R_Cond w) (\<lambda>_.
          let w = signal_game (se_game_pid s) 15 w;
              w = (if se_ring s then act Close_Ring w else w);
              w = fold (stop_thread (se_threads s)) [0..<THREAD_COUNT] w;
              w = signal_game (se_game_pid s) 9 w in
          bindo (if se_ring s then destroy R_Ring w else Ret w) (\<lambda>w.
          bindo (foldo (destroy_queue (se_queues s))
                   [Video_Encode, Video_Transport, Audio_Transport, Input_Queue] w) (\<lambda>w.
          bindo (destroy R_Cond w) (\<lambda>w.
          bindo (destroy R_Mutex w) (\<lambda>w.
          bindo (if se_cert s then destroy R_Cert w else Ret w) (destroy R_Session))))))))"

section \<open>Launching the game\<close>

record session_env =
  sv_ok :: "resource \<Rightarrow> bool"         \<comment> \<open>whether the creation of a resource succeeds\<close>
  sv_thread :: "nat \<Rightarrow> int"           \<comment> \<open>result of \<^verbatim>\<open>pthread_create\<close>\<close>
  sv_time :: int
  sv_getenv :: "string \<Rightarrow> string option"
  sv_steam :: launch_env
  sv_fork :: int

text \<open>What the child of a direct launch executes, and its environment.\<close>

definition game_child :: "string \<Rightarrow> string \<Rightarrow> int \<Rightarrow> int \<Rightarrow> string \<times> (string \<times> string) list" where
  "game_child game_dir game_id width height =
     (fst (snprintf MAX_GAME_PATH (game_dir @ ''/'' @ game_id)),
      [(''WAYLAND_DISPLAY'', ''stratus''),
       (''STRATUS_DIMENSIONS'', fst (snprintf MAX_DIMENSIONS_LEN (show_int width @ ''x'' @ show_int height)))])"

definition launch_direct :: "session_env \<Rightarrow> string \<Rightarrow> int outcome" where
  "launch_direct env game_id =
     (let game_dir = (case sv_getenv env ''STRATUSD_GAME_DIR'' of None \<Rightarrow> DEFAULT_GAME_DIR | Some d \<Rightarrow> d) in
      bindo (asserto (length game_dir + 1 + UUID_LEN < MAX_GAME_PATH)) (\<lambda>_.
      if sv_fork env < 0 then Ret (-1) else Ret (sv_fork env)))"

text \<open>The parent's side of \<open>session_launch_game\<close>: a Steam game runs to its end inside the call.\<close>

definition session_launch_game :: "session_env \<Rightarrow> string \<Rightarrow> steam_state \<Rightarrow> (int \<times> steam_state) outcome" where
  "session_launch_game env game_id st =
     (case steam_find_game_by_id game_id st of
        Some e \<Rightarrow>
          if ge_source e = GAME_SOURCE_STEAM \<and> ge_appid e > 0
          then
            let prefix = (case sv_getenv env ''STRATUSD_STEAM_PREFIX'' of
                            None \<Rightarrow> ''/data/steam/userdata'' | Some p \<Rightarrow> p) in
            (case steam_launch_game (sv_steam env) (ge_appid e) (Some prefix) st of
               (exit_code, tr, st) \<Rightarrow> if exit_code \<noteq> 0 then Ret (-1, st) else Ret (1, st))
          else bindo (launch_direct env game_id) (\<lambda>pid. Ret (pid, st))
      | None \<Rightarrow> bindo (launch_direct env game_id) (\<lambda>pid. Ret (pid, st)))"

section \<open>Starting\<close>

text \<open>
  The error exits of \<open>session_start\<close>, from the last label to the first: each destroys one resource
  and falls into the next; the last calls \<open>session_teardown\<close> on the session, whose pointers are
  unchanged.
\<close>

definition err_mutex_init :: "session \<Rightarrow> 'm sess_world_scheme \<Rightarrow> (session option \<times> 'm sess_world_scheme) outcome" where
  "err_mutex_init s w = bindo (session_teardown (Some s) w) (\<lambda>w. Ret (None, w))"

definition err_exit ::
    "resource list \<Rightarrow> session \<Rightarrow> 'm sess_world_scheme \<Rightarrow> (session option \<times> 'm sess_world_scheme) outcome" where
  "err_exit rs s w = bindo (foldo destroy rs w) (err_mutex_init s)"

text \<open>The labels \<^verbatim>\<open>err_start\<close> to \<^verbatim>\<open>err_mutex_init\<close>, by what is destroyed from there on.\<close>

definition start_resources :: "resource list" where
  "start_resources = [R_Queue Input_Queue, R_Queue Audio_Transport, R_Queue Video_Transport,
     R_Queue Video_Encode, R_Cert, R_Cond, R_Mutex]"

fun start_threads ::
    "session_env \<Rightarrow> nat list \<Rightarrow> session \<Rightarrow> 'm sess_world_scheme \<Rightarrow> (bool \<times> session \<times> 'm sess_world_scheme) outcome"
where
  "start_threads env [] s w = Ret (True, s, w)"
| "start_threads env (i # js) s w =
     (if sv_thread env i < 0 then Ret (False, s, w)
      else if sv_thread env i > 0 then Fault Indeterminate
      else start_threads env js (s\<lparr>se_threads := (se_threads s)[i := True]\<rparr>) (act (Start_Thread i) w))"

text \<open>Creating the queues; each failure jumps to the label that destroys what exists so far.\<close>

fun start_queues ::
    "session_env \<Rightarrow> (session_queue \<times> resource list) list \<Rightarrow> session \<Rightarrow> 'm sess_world_scheme \<Rightarrow>
     (session \<Rightarrow> 'm sess_world_scheme \<Rightarrow> (session option \<times> 'm sess_world_scheme) outcome) \<Rightarrow>
     (session option \<times> 'm sess_world_scheme) outcome" where
  "start_queues env [] s w k = k s w"
| "start_queues env ((q, rs) # qs) s w k =
     (if sv_ok env (R_Queue q)
      then start_queues env qs (s\<lparr>se_queues := se_queues s @ [q]\<rparr>) (create (R_Queue q) w) k
      else err_exit rs s w)"

definition queue_steps :: "(session_queue \<times> resource list) list" where
  "queue_steps = [(Video_Encode, drop 4 start_resources), (Video_Transport, drop 3 start_resources),
     (Audio_Transport, drop 2 start_resources), (Input_Queue, drop 1 start_resources)]"

definition start_modules ::
    "session_env \<Rightarrow> steam_state \<Rightarrow> session \<Rightarrow> 'm sess_world_scheme \<Rightarrow> (session option \<times> 'm sess_world_scheme) outcome"
where
  "start_modules env st s w =
     bindo (start_threads env [0..<THREAD_COUNT] s w) (\<lambda>(ok, s, w).
     if \<not> ok then err_exit start_resources s w
     else
       bindo (session_launch_game env (se_game_id s) st) (\<lambda>(pid, st).
       let s = s\<lparr>se_game_pid := pid\<rparr> in
       if pid < 0 then err_exit start_resources s w else Ret (Some s, w)))"

definition session_zero :: session where
  "session_zero = \<lparr>se_id = [], se_start = 0, se_active = False, se_connected = False, se_width = 0,
     se_height = 0, se_cert = False, se_queues = [], se_ring = False, se_game_id = [], se_game_pid = 0,
     se_threads = replicate THREAD_COUNT False\<rparr>"

definition session_start ::
    "session_env \<Rightarrow> steam_state \<Rightarrow> string \<Rightarrow> string \<Rightarrow> int \<Rightarrow> int \<Rightarrow> 'm sess_world_scheme \<Rightarrow>
     (session option \<times> 'm sess_world_scheme) outcome" where
  "session_start env st session_id game_id width height w =
     (if \<not> sv_ok env R_Session then Ret (None, w)
      else
        let w = create R_Session w; s = session_zero in
        if \<not> sv_ok env R_Mutex then err_mutex_init s w
        else
          let w = create R_Mutex w in
          if \<not> sv_ok env R_Cond then err_exit (drop 6 start_resources) s w
          else
            let w = create R_Cond w;
                s = s\<lparr>se_active := True, se_width := width mod 2 ^ 32, se_height := height mod 2 ^ 32\<rparr> in
            if \<not> sv_ok env R_Cert then err_exit (drop 5 start_resources) s w
            else
              let w = create R_Cert w;
                  s = s\<lparr>se_cert := True, se_id := take UUID_LEN session_id,
                        se_game_id := take UUID_LEN game_id, se_start := sv_time env\<rparr> in
              start_queues env queue_steps s w (start_modules env st))"

section \<open>Polling\<close>

text \<open>\<open>join i\<close> is the result of \<^verbatim>\<open>pthread_tryjoin_np\<close> on thread \<open>i\<close>: \<open>None\<close> is \<^verbatim>\<open>EBUSY\<close>.\<close>

fun poll_threads :: "(nat \<Rightarrow> int option) \<Rightarrow> nat list \<Rightarrow> session \<Rightarrow> int \<times> session" where
  "poll_threads join [] s = (0, s)"
| "poll_threads join (i # js) s =
     (if \<not> se_threads s ! i \<or> join i = Some 0
      then (if i = THREAD_TRANSPORT then 1 else -1, s\<lparr>se_threads := (se_threads s)[i := False]\<rparr>)
      else if join i \<noteq> None then (-1, s)
      else poll_threads join js s)"

definition session_poll :: "int \<Rightarrow> int \<Rightarrow> (nat \<Rightarrow> int option) \<Rightarrow> session \<Rightarrow> int \<times> session" where
  "session_poll now wait join s =
     (if \<not> se_connected s \<and> now - se_start s > CLIENT_CONNECT_TIMEOUT then (1, s)
      else if se_game_pid s = 1 then (1, s\<lparr>se_game_pid := 0\<rparr>)
      else if se_game_pid s = 0 \<or> wait > 0 then (1, s\<lparr>se_game_pid := 0\<rparr>)
      else if wait < 0 then (-1, s)
      else poll_threads join [0..<THREAD_COUNT] s)"


section \<open>Ownership\<close>

text \<open>A running session \<open>s\<close> in the world \<open>w\<close>: the resources are those of \<open>s\<close> and those of the base \<open>h\<close>.\<close>

definition session_resources :: "session \<Rightarrow> resource list" where
  "session_resources s = (if se_ring s then [R_Ring] else []) @
     [R_Queue Video_Encode, R_Queue Video_Transport, R_Queue Audio_Transport, R_Queue Input_Queue,
      R_Cond, R_Mutex, R_Cert, R_Session]"

definition session_owned :: "session \<Rightarrow> 'm sess_world_scheme \<Rightarrow> resource multiset \<Rightarrow> bool" where
  "session_owned s w h \<longleftrightarrow> mset (sw_held w) = mset (session_resources s) + h \<and> se_cert s \<and>
     set (se_queues s) = UNIV \<and> length (se_threads s) = THREAD_COUNT"

lemma world_simps [simp]:
  "sw_held (act a w) = sw_held w" "sw_acts (act a w) = sw_acts w @ [a]"
  "sw_held (create r w) = r # sw_held w" "sw_acts (create r w) = sw_acts w"
  "sw_held (signal_game pid sig w) = sw_held w" "sw_held (stop_thread st i w) = sw_held w"
  by (simp_all add: act_def create_def signal_game_def stop_thread_def)

lemma fold_stop_held [simp]: "sw_held (fold (stop_thread st) js w) = sw_held w"
  by (induction js arbitrary: w) simp_all

text \<open>The trace of stopping the threads: each running thread is cancelled and then joined, once.\<close>

lemma fold_stop_acts:
  "sw_acts (fold (stop_thread st) js w) =
     sw_acts w @ concat (map (\<lambda>i. [Cancel i, Join i]) (filter (\<lambda>i. st ! i) js))"
  by (induction js arbitrary: w) (simp_all add: stop_thread_def)

lemma destroy_mset:
  assumes "r \<in># mset (sw_held w)"
  obtains w' where "destroy r w = Ret w'" "mset (sw_held w') = mset (sw_held w) - {#r#}"
    "sw_acts w' = sw_acts w @ [Destroy r]"
  using assms by (simp add: destroy_def)

lemma foldo_destroy:
  assumes "mset rs \<subseteq># mset (sw_held w)"
  shows "\<exists>w'. foldo destroy rs w = Ret w' \<and> mset (sw_held w') = mset (sw_held w) - mset rs \<and>
    sw_acts w' = sw_acts w @ map Destroy rs"
  using assms
proof (induction rs arbitrary: w)
  case (Cons r rs)
  obtain w1 where w1: "destroy r w = Ret w1" "mset (sw_held w1) = mset (sw_held w) - {#r#}"
    "sw_acts w1 = sw_acts w @ [Destroy r]"
  proof (rule destroy_mset)
    show "r \<in># mset (sw_held w)"
      using Cons.prems by (metis insert_subset_eq_iff mset.simps(2))
  qed
  have "mset rs \<subseteq># mset (sw_held w1)"
    using Cons.prems w1(2) by (simp add: insert_subset_eq_iff)
  then show ?case
    using Cons.IH w1 by fastforce
qed simp

lemma destroy_queue_all: "set qs = UNIV \<Longrightarrow> destroy_queue qs = (\<lambda>q. destroy (R_Queue q))"
  by (simp add: destroy_queue_def fun_eq_iff)

text \<open>The world just before the resources are destroyed.\<close>

definition teardown_stop :: "session \<Rightarrow> 'm sess_world_scheme \<Rightarrow> 'm sess_world_scheme" where
  "teardown_stop s w =
     signal_game (se_game_pid s) 9 (fold (stop_thread (se_threads s)) [0..<THREAD_COUNT]
       (if se_ring s then act Close_Ring (signal_game (se_game_pid s) 15 w) else signal_game (se_game_pid s) 15 w))"

lemma session_teardown_foldo:
  assumes "R_Mutex \<in> set (sw_held w)" "R_Cond \<in> set (sw_held w)" "se_cert s" "set (se_queues s) = UNIV"
  shows "session_teardown (Some s) w = foldo destroy (session_resources s) (teardown_stop s w)"
  using assms
  by (auto simp: session_teardown_def touch_def teardown_stop_def session_resources_def Let_def
      bindo_assoc destroy_queue_all intro!: bindo_cong)

lemma session_teardown_owned:
  assumes "session_owned s w h"
  shows "\<exists>w'. session_teardown (Some s) w = Ret w' \<and> mset (sw_held w') = h \<and>
    sw_acts w' = sw_acts (teardown_stop s w) @ map Destroy (session_resources s)"
proof -
  have held: "mset (sw_held w) = mset (session_resources s) + h"
    using assms by (simp add: session_owned_def)
  then have "set (session_resources s) \<subseteq> set (sw_held w)"
    by (metis mset_subset_eq_add_left set_mset_mono set_mset_mset)
  then have "R_Mutex \<in> set (sw_held w)" "R_Cond \<in> set (sw_held w)"
    by (auto simp: session_resources_def)
  moreover have "sw_held (teardown_stop s w) = sw_held w"
    by (simp add: teardown_stop_def)
  ultimately show ?thesis
    using assms session_teardown_foldo [of w s] foldo_destroy [of "session_resources s" "teardown_stop s w"] held
    by (auto simp: session_owned_def)
qed


text \<open>Every error exit destroys the mutex that the teardown locks next.\<close>

lemma touch_fault: "r \<notin> set (sw_held w) \<Longrightarrow> touch r w = Fault Use_After_Free"
  by (simp add: touch_def)

lemma err_mutex_init_fault: "R_Mutex \<notin> set (sw_held w) \<Longrightarrow> \<exists>f. err_mutex_init s w = Fault f"
  by (simp add: err_mutex_init_def session_teardown_def touch_fault)

lemma foldo_destroy_gone:
  assumes "foldo destroy rs w = Ret w'" "r \<in> set rs" "count (mset (sw_held w)) r \<le> 1"
  shows "r \<notin> set (sw_held w')"
  using assms
proof (induction rs arbitrary: w)
  case (Cons a rs)
  then obtain w1 where w1: "destroy a w = Ret w1" "foldo destroy rs w1 = Ret w'"
    by (auto elim: bindo_RetE)
  then have held: "mset (sw_held w1) = mset (sw_held w) - {#a#}"
    by (auto simp: destroy_def split: if_splits)
  have keep: "r \<notin> set (sw_held w')" if "r \<notin> set (sw_held w1)"
  proof -
    have "set (sw_held w2') \<subseteq> set (sw_held w2)" if "foldo destroy rs' w2 = Ret w2'" for rs' and w2 w2' :: "'a sess_world_scheme"
      using that by (induction rs' arbitrary: w2)
        (force simp: destroy_def split: if_splits dest: set_remove1_subset [THEN subsetD] elim!: bindo_RetE)+
    then show ?thesis
      using w1(2) that by blast
  qed
  show ?case
  proof (cases "a = r")
    case True
    then have "count (mset (sw_held w1)) r = 0"
      using held Cons.prems(3) by simp
    then show ?thesis
      using keep by (simp add: count_eq_zero_iff)
  next
    case False
    then show ?thesis
      using Cons.IH [OF w1(2)] Cons.prems held by simp
  qed
qed simp

lemma destroy_not_block: "destroy r w \<noteq> Block"
  by (simp add: destroy_def)

lemma foldo_destroy_not_block: "foldo destroy rs w \<noteq> Block"
  by (induction rs arbitrary: w) (auto simp: destroy_def)

lemma err_exit_faults:
  assumes "R_Mutex \<in> set rs" "count (mset (sw_held w)) R_Mutex \<le> 1"
  shows "\<exists>f. err_exit rs s w = Fault f"
proof (cases "foldo destroy rs w")
  case (Ret w')
  then have "R_Mutex \<notin> set (sw_held w')"
    using foldo_destroy_gone assms by metis
  then show ?thesis
    using Ret err_mutex_init_fault by (simp add: err_exit_def)
qed (auto simp: err_exit_def foldo_destroy_not_block)

lemma start_threads_result:
  assumes "start_threads env js s w = Ret (ok, s', w')"
  shows "sw_held w' = sw_held w \<and> se_queues s' = se_queues s \<and> se_cert s' = se_cert s \<and> se_ring s' = se_ring s \<and>
    length (se_threads s') = length (se_threads s) \<and> se_game_id s' = se_game_id s"
  using assms by (induction env js s w rule: start_threads.induct) (auto split: if_splits)

lemma start_modules_owned:
  assumes "start_modules env st s w = Ret (r, w')" "session_owned s w h" "count h R_Mutex = 0"
  shows "\<exists>s'. r = Some s' \<and> session_owned s' w' h"
proof -
  obtain ok s1 w1 where t: "start_threads env [0..<THREAD_COUNT] s w = Ret (ok, s1, w1)"
    and c: "(if \<not> ok then err_exit start_resources s1 w1
      else bindo (session_launch_game env (se_game_id s1) st) (\<lambda>(pid, st).
        let s = s1\<lparr>se_game_pid := pid\<rparr> in
        if pid < 0 then err_exit start_resources s w1 else Ret (Some s, w1))) = Ret (r, w')"
    using assms(1) by (auto simp: start_modules_def elim!: bindo_RetE)
  have own: "session_owned s1 w1 h"
    using assms(2) start_threads_result [OF t] by (simp add: session_owned_def session_resources_def)
  then have "count (mset (sw_held w1)) R_Mutex \<le> 1"
    using assms(3) by (simp add: session_owned_def session_resources_def)
  then have "err_exit start_resources s2 w1 \<noteq> Ret (r, w')" for s2
    using err_exit_faults [of start_resources w1 s2] by (auto simp: start_resources_def)
  then show ?thesis
    using c own by (auto simp: session_owned_def session_resources_def Let_def split: if_splits elim!: bindo_RetE)
qed

lemma last_queue: "q \<noteq> Video_Encode \<Longrightarrow> q \<noteq> Video_Transport \<Longrightarrow> q \<noteq> Audio_Transport \<Longrightarrow> q = Input_Queue"
  by (cases q) auto

lemma session_start_owned:
  assumes "session_start env st i g wd ht w = Ret (r, w')" "R_Mutex \<notin> set (sw_held w)"
  shows "r = None \<and> w' = w \<and> \<not> sv_ok env R_Session \<or> (\<exists>s. r = Some s \<and> session_owned s w' (mset (sw_held w)))"
proof (cases "sv_ok env R_Session")
  case False
  then show ?thesis
    using assms(1) by (simp add: session_start_def)
next
  case True
  have h: "count (mset (sw_held w)) R_Mutex = 0"
    using assms(2) by (simp add: count_eq_zero_iff)
  have err: "err_exit rs s2 w2 \<noteq> Ret (r, w')" if "R_Mutex \<in> set rs" "count (mset (sw_held w2)) R_Mutex \<le> 1"
    for rs s2 and w2 :: "'a sess_world_scheme"
    using err_exit_faults [OF that, of s2] by auto
  have mut: "err_mutex_init s2 (create R_Session w) \<noteq> Ret (r, w')" for s2
    using err_mutex_init_fault [of "create R_Session w" s2] assms(2) by auto
  show ?thesis
    using assms(1) True h err mut
    by (auto simp: session_start_def Let_def queue_steps_def start_resources_def split: if_splits
        dest!: start_modules_owned [where h = "mset (sw_held w)"] simp: session_owned_def session_resources_def session_zero_def intro: last_queue)
qed


section \<open>The contract with the SideCar\<close>

text \<open>
  What the SideCar relies on: a started session owns its resources over those that existed before
  (\<open>base\<close>), polling keeps that, and the teardown of an owned session succeeds and leaves exactly the
  base. \<open>clean\<close> is the state without a session.
\<close>

locale session_manager =
  fixes start :: "'a \<Rightarrow> 'w \<Rightarrow> ('s option \<times> 'w) outcome" and poll :: "'p \<Rightarrow> 's \<Rightarrow> int \<times> 's"
    and teardown :: "'s option \<Rightarrow> 'w \<Rightarrow> 'w outcome" and owned :: "'s \<Rightarrow> 'w \<Rightarrow> 'h \<Rightarrow> bool"
    and base :: "'w \<Rightarrow> 'h" and clean :: "'w \<Rightarrow> bool"
  assumes start_some: "clean w \<Longrightarrow> start a w = Ret (Some s, w') \<Longrightarrow> owned s w' (base w)"
    and start_none: "clean w \<Longrightarrow> start a w = Ret (None, w') \<Longrightarrow> w' = w"
    and poll_keeps: "owned s w h \<Longrightarrow> owned (snd (poll p s)) w h"
    and teardown_some: "owned s w h \<Longrightarrow> \<exists>w'. teardown (Some s) w = Ret w' \<and> base w' = h"
    and teardown_none: "teardown None w = Ret w"
begin

lemma polls_keep: "owned s w h \<Longrightarrow> owned (fold (\<lambda>p s. snd (poll p s)) ps s) w h"
  by (induction ps arbitrary: s) (simp_all add: poll_keeps)

text \<open>A whole life: start, any number of polls, teardown.\<close>

lemma lifecycle:
  assumes "clean w" "start a w = Ret (r, w1)"
  shows "\<exists>w2. teardown (map_option (fold (\<lambda>p s. snd (poll p s)) ps) r) w1 = Ret w2 \<and> base w2 = base w"
proof (cases r)
  case None
  then show ?thesis
    using start_none [OF assms(1), of a w1] assms(2) teardown_none by simp
next
  case (Some s)
  then have "owned s w1 (base w)"
    using start_some [OF assms(1)] assms(2) by simp
  from teardown_some [OF polls_keep [OF this, of ps]] show ?thesis
    using Some by simp
qed

end

type_synonym start_args = "session_env \<times> steam_state \<times> string \<times> string \<times> int \<times> int"
type_synonym poll_args = "int \<times> int \<times> (nat \<Rightarrow> int option)"

definition start_session :: "start_args \<Rightarrow> 'm sess_world_scheme \<Rightarrow> (session option \<times> 'm sess_world_scheme) outcome" where
  "start_session = (\<lambda>(env, st, i, g, wd, ht). session_start env st i g wd ht)"

definition poll_session :: "poll_args \<Rightarrow> session \<Rightarrow> int \<times> session" where
  "poll_session = (\<lambda>(now, wait, join). session_poll now wait join)"

definition world_clean :: "'m sess_world_scheme \<Rightarrow> bool" where
  "world_clean w \<longleftrightarrow> R_Mutex \<notin> set (sw_held w)"

lemma poll_threads_keeps:
  "length (se_threads (snd (poll_threads join js s))) = length (se_threads s) \<and>
   se_queues (snd (poll_threads join js s)) = se_queues s \<and> se_cert (snd (poll_threads join js s)) = se_cert s \<and>
   se_ring (snd (poll_threads join js s)) = se_ring s"
  by (induction join js s rule: poll_threads.induct) auto

lemma poll_session_owned: "session_owned s w h \<Longrightarrow> session_owned (snd (poll_session p s)) w h"
  using poll_threads_keeps
  by (auto simp: poll_session_def session_poll_def session_owned_def session_resources_def split: prod.split)

interpretation sessions: session_manager start_session poll_session session_teardown session_owned
    "\<lambda>w. mset (sw_held w)" world_clean
proof
  fix w w' :: "'m sess_world_scheme" and a s
  assume "world_clean w" and r: "start_session a w = Ret (Some s, w')"
  then show "session_owned s w' (mset (sw_held w))"
    using session_start_owned by (cases a) (fastforce simp: start_session_def world_clean_def)
next
  fix w w' :: "'m sess_world_scheme" and a
  assume "world_clean w" "start_session a w = Ret (None, w')"
  then show "w' = w"
    using session_start_owned by (cases a) (fastforce simp: start_session_def world_clean_def)
next
  fix s :: session and w :: "'m sess_world_scheme" and h
  assume "session_owned s w h"
  then show "\<exists>w'. session_teardown (Some s) w = Ret w' \<and> mset (sw_held w') = h"
    using session_teardown_owned by blast
qed (simp_all add: poll_session_owned session_teardown_def)

section \<open>Properties\<close>

text \<open>
  C24. The life of a session is balanced. For every environment and game: when \<^verbatim>\<open>session_start\<close> returns
  on a system without a session, then after any number of polls with any results
  \<^verbatim>\<open>session_teardown\<close> returns and every resource created is destroyed exactly once.
\<close>
theorem session_lifecycle:
  assumes "R_Mutex \<notin> set (sw_held w)" "session_start env st i g wd ht w = Ret (r, w1)"
  shows "\<exists>w2. session_teardown (map_option (fold (\<lambda>(now, wait, join) s. snd (session_poll now wait join s)) ps) r) w1 =
      Ret w2 \<and> mset (sw_held w2) = mset (sw_held w)"
proof -
  have "(\<lambda>(now, wait, join) s. snd (session_poll now wait join s)) = (\<lambda>p s. snd (poll_session p s))"
    by (auto simp: poll_session_def fun_eq_iff)
  then show ?thesis
    using sessions.lifecycle [of w "(env, st, i, g, wd, ht)" r w1 ps] assms
    by (simp add: world_clean_def start_session_def)
qed

definition senv_example :: session_env where
  "senv_example = \<lparr>sv_ok = (\<lambda>_. True), sv_thread = (\<lambda>_. 0), sv_time = 1000, sv_getenv = (\<lambda>_. None),
     sv_steam = \<lparr>le_fork = 5, le_wait = 5, le_exit = Some 0\<rparr>, sv_fork = 77\<rparr>"

definition world_zero :: sess_world where
  "world_zero = \<lparr>sw_held = [], sw_acts = []\<rparr>"

theorem session_lifecycle_witness:
  "\<exists>s w1 w2. session_start senv_example steam_initial ''sid'' ''gid'' 1280 720 world_zero = Ret (Some s, w1) \<and>
     session_teardown (Some (snd (session_poll 1010 0 (\<lambda>_. None) s))) w1 = Ret w2 \<and> mset (sw_held w2) = {#}"
proof -
  have "bindo (session_start senv_example steam_initial ''sid'' ''gid'' 1280 720 world_zero)
      (\<lambda>(r, w). Ret (r \<noteq> None)) = Ret True"
    by code_simp
  then obtain s w1 where s: "session_start senv_example steam_initial ''sid'' ''gid'' 1280 720 world_zero = Ret (Some s, w1)"
    by (auto elim!: bindo_RetE)
  show ?thesis
    using s session_lifecycle [OF _ s, of "[(1010, 0, \<lambda>_. None)]"] by (auto simp: world_zero_def)
qed

text \<open>
  C25. The teardown stops the world in a safe order: the game gets SIGTERM, the audio ring is closed, every
  running module thread is cancelled and joined exactly once, the game gets SIGKILL, and only then
  are the ring, the queues, the condition variable, the mutex, the certificate and the session
  destroyed; no thread can use a destroyed queue.
\<close>
theorem session_teardown_order:
  assumes "session_owned s w h"
  shows "\<exists>w'. session_teardown (Some s) w = Ret w' \<and> mset (sw_held w') = h \<and>
    sw_acts w' = sw_acts w @
      (if se_game_pid s \<in> {0, 1} then [] else [Signal_Group (se_game_pid s) 15]) @
      (if se_ring s then [Close_Ring] else []) @
      concat (map (\<lambda>i. [Cancel i, Join i]) (filter (\<lambda>i. se_threads s ! i) [0..<THREAD_COUNT])) @
      (if se_game_pid s \<in> {0, 1} then [] else [Signal_Group (se_game_pid s) 9]) @
      map Destroy (session_resources s)"
  using session_teardown_owned [OF assms]
  by (auto simp: teardown_stop_def signal_game_def fold_stop_acts simp del: upt_rec_numeral)

theorem session_teardown_order_witness:
  "\<exists>s (w :: sess_world) w'. session_owned s w {#} \<and> se_game_pid s = 77 \<and> session_teardown (Some s) w = Ret w' \<and>
     mset (sw_held w') = {#} \<and> Signal_Group 77 9 \<in> set (sw_acts w')"
proof -
  have "bindo (session_start senv_example steam_initial ''sid'' ''gid'' 1280 720 world_zero)
      (\<lambda>(r, w). Ret (map_option se_game_pid r)) = Ret (Some 77)"
    by code_simp
  then obtain s w where s: "session_start senv_example steam_initial ''sid'' ''gid'' 1280 720 world_zero = Ret (Some s, w)"
    "se_game_pid s = 77"
    by (auto elim!: bindo_RetE)
  have own: "session_owned s w {#}"
    using session_start_owned [OF s(1)] by (simp add: world_zero_def)
  then show ?thesis
    using s(2) session_teardown_order [OF own] by fastforce
qed

text \<open>The outcome of every error exit of \<open>session_start\<close>, when what it destroys exists.\<close>

lemma err_exit_use_after_free:
  assumes "mset rs \<subseteq># mset (sw_held w)" "R_Mutex \<in> set rs" "count (mset (sw_held w)) R_Mutex \<le> 1"
  shows "err_exit rs s w = Fault Use_After_Free"
proof -
  obtain w' where w': "foldo destroy rs w = Ret w'"
    using foldo_destroy [OF assms(1)] by blast
  then have "R_Mutex \<notin> set (sw_held w')"
    using foldo_destroy_gone assms(2,3) by metis
  then show ?thesis
    using w' by (simp add: err_exit_def err_mutex_init_def session_teardown_def touch_fault)
qed

lemma start_threads_find:
  "case find (\<lambda>i. sv_thread env i \<noteq> 0) js of
     None \<Rightarrow> \<exists>s' w'. start_threads env js s w = Ret (True, s', w') \<and> se_game_id s' = se_game_id s \<and> sw_held w' = sw_held w
   | Some i \<Rightarrow> if sv_thread env i < 0
       then \<exists>s' w'. start_threads env js s w = Ret (False, s', w') \<and> sw_held w' = sw_held w
       else start_threads env js s w = Fault Indeterminate"
  by (induction env js s w rule: start_threads.induct) (auto split: option.splits if_splits)

text \<open>How \<open>start_modules\<close> ends, by what \<^verbatim>\<open>pthread_create\<close> and the launch of the game return.\<close>

definition start_ends ::
    "session_env \<Rightarrow> steam_state \<Rightarrow> string \<Rightarrow> (session option \<times> 'm sess_world_scheme) outcome \<Rightarrow> bool" where
  "start_ends env st g r \<longleftrightarrow>
     (case find (\<lambda>i. sv_thread env i \<noteq> 0) [0..<THREAD_COUNT] of
        Some i \<Rightarrow> r = Fault (if sv_thread env i < 0 then Use_After_Free else Indeterminate)
      | None \<Rightarrow>
          (case session_launch_game env g st of
             Ret (pid, st') \<Rightarrow>
               if pid < 0 then r = Fault Use_After_Free else \<exists>s w'. r = Ret (Some s, w') \<and> se_game_pid s = pid
           | Fault f \<Rightarrow> r = Fault f
           | Block \<Rightarrow> r = Block))"

lemma start_modules_ends:
  assumes "mset start_resources \<subseteq># mset (sw_held w)" "count (mset (sw_held w)) R_Mutex \<le> 1"
  shows "start_ends env st (se_game_id s) (start_modules env st s w)"
proof -
  have err: "err_exit start_resources s1 w1 = Fault Use_After_Free" if "sw_held w1 = sw_held w" for s1 and w1 :: "'a sess_world_scheme"
    using assms that by (intro err_exit_use_after_free) (simp_all add: start_resources_def)
  show ?thesis
    using start_threads_find [where env = env and js = "[0..<THREAD_COUNT]" and s = s and w = w]
    unfolding start_ends_def
    by (auto simp: start_modules_def err Let_def simp del: upt_rec_numeral split: option.splits if_splits outcome.splits)
qed

text \<open>
  C27. \<^verbatim>\<open>session_start\<close> has no clean failure. On a system without a session, when the very first allocation
  fails it returns NULL with nothing done, and that is the only NULL it returns. When the mutex, the condition
  variable, the certificate or one of the queues cannot be made, its cleanup destroys the mutex, if there is one, and then calls
  \<^verbatim>\<open>session_teardown\<close>, which locks it: a use after free. A thread that cannot be created is noticed only when
  \<^verbatim>\<open>pthread_create\<close> returns a negative number, with the same end; the positive error numbers it does return go unnoticed, and
  \<^verbatim>\<open>pthread_setname_np\<close> is called with the undefined thread identifier. With all threads running, a game that
  cannot be launched ends in the same use after free, and otherwise the session is returned with the
  process of the game.
\<close>
theorem session_start_no_clean_failure:
  assumes "R_Mutex \<notin> set (sw_held w)"
  shows "if \<not> sv_ok env R_Session then session_start env st i g wd ht w = Ret (None, w)
    else if \<exists>x \<in> set start_resources. \<not> sv_ok env x then session_start env st i g wd ht w = Fault Use_After_Free
    else
      (case find (\<lambda>n. sv_thread env n \<noteq> 0) [0..<THREAD_COUNT] of
         Some n \<Rightarrow> session_start env st i g wd ht w =
           Fault (if sv_thread env n < 0 then Use_After_Free else Indeterminate)
       | None \<Rightarrow>
           (case session_launch_game env (take UUID_LEN g) st of
              Ret (pid, st') \<Rightarrow>
                if pid < 0 then session_start env st i g wd ht w = Fault Use_After_Free
                else \<exists>s w'. session_start env st i g wd ht w = Ret (Some s, w') \<and> se_game_pid s = pid
            | Fault f \<Rightarrow> session_start env st i g wd ht w = Fault f
            | Block \<Rightarrow> session_start env st i g wd ht w = Block))"
proof -
  have h: "count (mset (sw_held w)) R_Mutex = 0"
    using assms by (simp add: count_eq_zero_iff)
  consider "\<not> sv_ok env R_Session" | x where "sv_ok env R_Session" "x \<in> set start_resources" "\<not> sv_ok env x"
    | "sv_ok env R_Session" "\<forall>x \<in> set start_resources. sv_ok env x"
    by blast
  then show ?thesis
  proof cases
    case 1
    then show ?thesis
      by (simp add: session_start_def)
  next
    case 2
    then have "session_start env st i g wd ht w = Fault Use_After_Free"
      using h assms
      by (auto simp: session_start_def Let_def queue_steps_def start_resources_def err_mutex_init_def
          session_teardown_def touch_fault intro!: err_exit_use_after_free)
    then show ?thesis
      using 2 by auto
  next
    case 3
    then obtain s w' where "session_start env st i g wd ht w = start_modules env st s w'" "se_game_id s = take UUID_LEN g"
      "mset start_resources \<subseteq># mset (sw_held w')" "count (mset (sw_held w')) R_Mutex \<le> 1"
      using h by (simp add: session_start_def Let_def queue_steps_def start_resources_def)
    then have "start_ends env st (take UUID_LEN g) (session_start env st i g wd ht w)"
      using start_modules_ends by metis
    then show ?thesis
      using 3 unfolding start_ends_def by simp
  qed
qed

theorem session_start_no_clean_failure_witness:
  "session_start (senv_example\<lparr>sv_fork := -1\<rparr>) steam_initial ''sid'' ''gid'' 1280 720 world_zero = Fault Use_After_Free \<and>
   session_start (senv_example\<lparr>sv_thread := (\<lambda>n. if n = 2 then 11 else 0)\<rparr>) steam_initial ''sid'' ''gid'' 1280 720 world_zero =
     Fault Indeterminate \<and>
   (\<exists>s w'. session_start senv_example steam_initial ''sid'' ''gid'' 1280 720 world_zero = Ret (Some s, w') \<and> se_game_pid s = 77)"
proof -
  have launch: "session_launch_game (senv_example\<lparr>sv_fork := -1\<rparr>) ''gid'' steam_initial = Ret (-1, steam_initial)"
    "session_launch_game senv_example ''gid'' steam_initial = Ret (77, steam_initial)"
    by code_simp+
  have world: "R_Mutex \<notin> set (sw_held world_zero)"
    by (simp add: world_zero_def)
  show ?thesis
    using session_start_no_clean_failure [OF world, where env = "senv_example\<lparr>sv_fork := -1\<rparr>" and st = steam_initial
        and i = "''sid''" and g = "''gid''" and wd = 1280 and ht = 720]
      session_start_no_clean_failure [OF world, where env = "senv_example\<lparr>sv_thread := (\<lambda>n. if n = 2 then 11 else 0)\<rparr>"
        and st = steam_initial and i = "''sid''" and g = "''gid''" and wd = 1280 and ht = 720]
      session_start_no_clean_failure [OF world, where env = senv_example and st = steam_initial
        and i = "''sid''" and g = "''gid''" and wd = 1280 and ht = 720] launch
    by (simp add: senv_example_def upt_rec)
qed


text \<open>
  C26. What \<^verbatim>\<open>session_poll\<close> reports. It returns 0 exactly when the client is connected or within its
  minute, the game process runs, and all six threads run; 1 exactly when the client timed out, the
  game exited, or Transport is the first thread found to have exited; and -1 in every other case.
\<close>
theorem session_poll_result:
  "case session_poll now wait join s of
      (r, s') \<Rightarrow>
        (r = 0 \<longleftrightarrow> (se_connected s \<or> now - se_start s \<le> CLIENT_CONNECT_TIMEOUT) \<and> se_game_pid s \<notin> {0, 1} \<and> wait = 0 \<and>
           (\<forall>i < THREAD_COUNT. se_threads s ! i \<and> join i = None)) \<and>
        (r = 1 \<longleftrightarrow> (\<not> se_connected s \<and> now - se_start s > CLIENT_CONNECT_TIMEOUT) \<or> se_game_pid s \<in> {0, 1} \<or> wait > 0 \<or>
           wait = 0 \<and> (\<forall>i < THREAD_TRANSPORT. se_threads s ! i \<and> join i = None) \<and>
             (\<not> se_threads s ! THREAD_TRANSPORT \<or> join THREAD_TRANSPORT = Some 0)) \<and>
        r \<in> {-1, 0, 1}"
proof -
  have idx: "(\<forall>i < THREAD_COUNT. P i) \<longleftrightarrow> P 0 \<and> P 1 \<and> P 2 \<and> P 3 \<and> P 4 \<and> P 5"
    "(\<forall>i < THREAD_TRANSPORT. P i) \<longleftrightarrow> P 0 \<and> P 1 \<and> P 2 \<and> P 3 \<and> P 4" for P
    by (auto simp: numeral_eq_Suc All_less_Suc)
  have lst: "[0..<THREAD_COUNT] = [0, 1, 2, 3, 4, 5]"
    by (simp add: upt_rec)
  show ?thesis
    unfolding session_poll_def lst idx by (auto split: if_splits)
qed


theorem session_poll_result_witness:
  "case session_poll 1070 0 (\<lambda>i. if i = 5 then Some 0 else None)
       (session_zero\<lparr>se_connected := True, se_game_pid := 9, se_threads := replicate 6 True\<rparr>) of
     (r, s') \<Rightarrow> r = 1 \<and> r \<noteq> 0"
  using session_poll_result [where now = 1070 and wait = 0 and join = "\<lambda>i. if i = 5 then Some 0 else None" and
      s = "session_zero\<lparr>se_connected := True, se_game_pid := 9, se_threads := replicate 6 True\<rparr>"]
  by (auto split: prod.splits)

text \<open>
  C28. Launching a game directly: with dimensions of at most four digits and an identifier of at most
  36 characters, the child executes exactly the game's path and sees exactly its dimensions. The
  length check on the game directory rules out truncation of the path, and five-digit dimensions
  would be cut.
\<close>
theorem game_child_untruncated:
  assumes "launch_direct env game_id = Ret pid" "length game_id \<le> 36"
    and "game_dir = (case sv_getenv env ''STRATUSD_GAME_DIR'' of None \<Rightarrow> DEFAULT_GAME_DIR | Some d \<Rightarrow> d)"
    and "0 \<le> width" "width < 10000" "0 \<le> height" "height < 10000"
  shows "game_child game_dir game_id width height =
    (game_dir @ ''/'' @ game_id, [(''WAYLAND_DISPLAY'', ''stratus''),
      (''STRATUS_DIMENSIONS'', show_int width @ ''x'' @ show_int height)])"
proof -
  have "length game_dir + 1 + UUID_LEN < MAX_GAME_PATH"
    using assms(1,3) by (auto simp: launch_direct_def Let_def asserto_def split: if_splits)
  moreover have "length (show_int d) \<le> 4" if "0 \<le> d" "d < 10000" for d :: int
    using that show_nat_length [of 4 "nat d"] by (simp add: show_int_def nat_less_iff)
  then have "length (show_int width) \<le> 4" "length (show_int height) \<le> 4"
    using assms(4-7) by auto
  ultimately show ?thesis
    using assms(2) by (simp add: game_child_def snprintf_def)
qed

theorem game_child_untruncated_witness:
  "launch_direct senv_example ''gid'' = Ret 77 \<and>
   game_child DEFAULT_GAME_DIR ''gid'' 1920 1080 =
     (''../games/build/gid'', [(''WAYLAND_DISPLAY'', ''stratus''), (''STRATUS_DIMENSIONS'', ''1920x1080'')])"
proof -
  have l: "launch_direct senv_example ''gid'' = Ret 77"
    by code_simp
  have "show_int 1920 = ''1920''" "show_int 1080 = ''1080''"
    by (simp_all add: show_int_def show_nat.simps digit_def)
  then show ?thesis
    using game_child_untruncated [OF l, of DEFAULT_GAME_DIR 1920 1080] l by (simp add: senv_example_def)
qed

lemma game_child_cut: "snd (game_child [] [] 10000 10000) = [(''WAYLAND_DISPLAY'', ''stratus''), (''STRATUS_DIMENSIONS'', ''10000x100'')]"
  by (simp add: game_child_def snprintf_def show_int_def show_nat.simps digit_def)

end
