(* ===== verification/Side_Car.thy ===== *)
theory Side_Car
  imports Api Session
begin

text \<open>
  The SideCar, \<^verbatim>\<open>stratusd/SideCar/src/SideCar.c\<close>, and \<^verbatim>\<open>stratusd/main.c\<close>: the main loop that sends
  heartbeats, polls the active session and the backend, and starts and stops sessions.

  The context extends the API client's state with the active session, the resources of sessions and
  the game catalog. Directory streams are tracked: \<open>sc_dirs\<close> are the addresses of those open; \<open>sc_errno\<close> is
  \<^verbatim>\<open>errno\<close>, which a failing library call sets and no successful one clears. Pointers matter in two
  more places and are modelled there: a session identifier is either the array in the session or a string
  of a message, and a game name is either a directory entry or a local array whose block has ended.
\<close>

section \<open>State and environment\<close>

record sidecar_context = api_state +
  sc_session :: "session option"
  sc_world :: sess_world
  sc_steam :: steam_state
  sc_dirs :: "nat list"
  sc_errno :: int
  sc_version :: string

abbreviation HEARTBEAT_INTERVAL :: int where "HEARTBEAT_INTERVAL \<equiv> 30"
abbreviation MAX_GAMES :: nat where "MAX_GAMES \<equiv> 64"

text \<open>libsensors: the chips with their prefix and, for each feature, whether it is a temperature and
  the value that could be read.\<close>

type_synonym sensor_feature = "bool \<times> c_float option"
type_synonym sensor_chip = "string \<times> sensor_feature list"

record host_env =
  he_game_dir :: "int + string list"      \<comment> \<open>names in the game directory, or the error of \<^verbatim>\<open>opendir\<close>\<close>
  he_game_errno :: int                    \<comment> \<open>the error of a \<^verbatim>\<open>readdir\<close> of it, 0 if none\<close>
  he_steam_dir :: "int + string list"
  he_steam_errno :: int
  he_close_errno :: int                   \<comment> \<open>the error of \<^verbatim>\<open>closedir\<close> on the Steam directory, 0 if none\<close>
  he_hostname :: "string option"
  he_sysinfo :: "(int \<times> u64 \<times> u64 \<times> u64 \<times> u64) option" \<comment> \<open>uptime, load, total, free, unit\<close>
  he_statfs :: "(u64 \<times> u64 \<times> u64) option"    \<comment> \<open>blocks, free blocks, block size\<close>
  he_nprocs :: int
  he_sensors :: "sensor_chip list option"

record 'j sidecar_env =
  sce_api :: "'j api_env"
  sce_host :: "nat \<Rightarrow> host_env"
  sce_session :: "nat \<Rightarrow> session_env"
  sce_wait :: "nat \<Rightarrow> int"
  sce_join :: "nat \<Rightarrow> nat \<Rightarrow> int option"
  sce_connected :: "nat \<Rightarrow> bool"         \<comment> \<open>set by the Transport thread\<close>

section \<open>Heartbeat\<close>

definition is_cpu_prefix :: "string \<Rightarrow> bool" where
  "is_cpu_prefix p \<longleftrightarrow> sublist ''cpu'' p \<or> p = ''coretemp'' \<or> p = ''k10temp'' \<or> p = ''zenpower''"

fun first_temperature :: "sensor_feature list \<Rightarrow> c_float option" where
  "first_temperature [] = None"
| "first_temperature ((True, Some t) # fs) = Some t"
| "first_temperature (f # fs) = first_temperature fs"

fun chip_temperature :: "sensor_chip list \<Rightarrow> c_float option" where
  "chip_temperature [] = None"
| "chip_temperature ((p, fs) # cs) =
     (if is_cpu_prefix p
      then (case first_temperature fs of Some t \<Rightarrow> Some t | None \<Rightarrow> chip_temperature cs)
      else chip_temperature cs)"

definition get_cpu_temperature :: "sensor_chip list option \<Rightarrow> c_float" where
  "get_cpu_temperature sensors =
     (case sensors of
        None \<Rightarrow> Finite False 0 0
      | Some chips \<Rightarrow> (case chip_temperature chips of Some t \<Rightarrow> t | None \<Rightarrow> Finite False 0 0))"

datatype game_ref = Entry_Name string | Dead_Array

text \<open>The two scans fill the array from index \<open>i\<close>; hidden names are skipped.\<close>

definition hidden :: "string \<Rightarrow> bool" where
  "hidden name \<longleftrightarrow> name \<noteq> [] \<and> hd name = CHR ''.''"

fun scan_games :: "string list \<Rightarrow> game_ref list \<Rightarrow> game_ref list" where
  "scan_games [] games = games"
| "scan_games (n # ns) games =
     (if length games < MAX_GAMES
      then scan_games ns (if hidden n then games else games @ [Entry_Name n])
      else games)"

fun scan_steam :: "string list \<Rightarrow> game_ref list \<Rightarrow> steam_state \<Rightarrow> game_ref list \<times> steam_state" where
  "scan_steam [] games st = (games, st)"
| "scan_steam (n # ns) games st =
     (if length games < MAX_GAMES
      then if hidden n then scan_steam ns games st
           else
             let game_id = fst (snprintf 37 (''steam-'' @ show_int (int (length games)))) in
             scan_steam ns (games @ [Dead_Array])
               (snd (steam_register_game game_id n GAME_SOURCE_STEAM 0 (Some n) st))
      else (games, st))"

text \<open>\<^verbatim>\<open>errno\<close>, and directory streams: a stream has an address that no open stream has. Closing one that is not open is
  a fault; closing NULL fails.\<close>

abbreviation EINVAL :: int where "EINVAL \<equiv> 22"

definition set_errno :: "int \<Rightarrow> sidecar_context \<Rightarrow> sidecar_context" where
  "set_errno e c = (if e = 0 then c else c\<lparr>sc_errno := e\<rparr>)"

type_synonym dir_stream = "nat \<times> string list"

definition open_dir :: "int + string list \<Rightarrow> sidecar_context \<Rightarrow> dir_stream option \<times> sidecar_context" where
  "open_dir answer c =
     (case answer of
        Inl e \<Rightarrow> (None, set_errno e c)
      | Inr names \<Rightarrow>
          let d = Suc (sum_list (sc_dirs c)) in (Some (d, names), c\<lparr>sc_dirs := d # sc_dirs c\<rparr>))"

definition close_dir :: "dir_stream option \<Rightarrow> sidecar_context \<Rightarrow> sidecar_context outcome" where
  "close_dir dir c =
     (case dir of
        None \<Rightarrow> Ret (set_errno EINVAL c)
      | Some (d, _) \<Rightarrow>
          if d \<in> set (sc_dirs c) then Ret (c\<lparr>sc_dirs := remove1 d (sc_dirs c)\<rparr>) else Fault Double_Free)"

text \<open>The message of a heartbeat. Reading a game name through a pointer to a dead array is a fault.\<close>

fun game_names :: "game_ref list \<Rightarrow> string list outcome" where
  "game_names [] = Ret []"
| "game_names (Entry_Name n # gs) = bindo (game_names gs) (\<lambda>ns. Ret (n # ns))"
| "game_names (Dead_Array # gs) = Fault Stack_Escape"

definition heartbeat_msg ::
    "host_env \<Rightarrow> string option \<Rightarrow> string list \<Rightarrow> sidecar_context \<Rightarrow> string \<Rightarrow>
     int \<times> u64 \<times> u64 \<times> u64 \<times> u64 \<Rightarrow> u64 \<times> u64 \<times> u64 \<Rightarrow> api_msg_heartbeat" where
  "heartbeat_msg he ip games c hostname = (\<lambda>(uptime, load, total, free, unit) (blocks, bfree, bsize).
     \<lparr>hb_hostname = hostname, hb_ip = (case ip of None \<Rightarrow> ''127.0.0.1'' | Some a \<Rightarrow> a),
      hb_version = sc_version c, hb_games = games,
      hb_sessions = (case sc_session c of None \<Rightarrow> [] | Some s \<Rightarrow> [se_id s]),
      hb_uptime = uptime, hb_cpu_load = f32_mul (f32_round False (uint load) 0) (Finite False 1 (-16)),
      hb_cpu_count = he_nprocs he, hb_ram_used = sint ((total - free) * unit), hb_ram_total = sint (total * unit),
      hb_disk_used = sint ((blocks - bfree) * bsize), hb_disk_total = sint (blocks * bsize),
      hb_temperature = get_cpu_temperature (he_sensors he)\<rparr>)"

text \<open>
  The variable \<^verbatim>\<open>dir\<close> of the code names the game directory first and the Steam directory afterwards: it is the
  argument \<open>dir\<close> of the last two parts.
\<close>

definition heartbeat_send ::
    "'j sidecar_env \<Rightarrow> host_env \<Rightarrow> dir_stream option \<Rightarrow> game_ref list \<Rightarrow> sidecar_context \<Rightarrow>
     (int \<times> sidecar_context) outcome" where
  "heartbeat_send env he dir games c =
     bindo (if length games < MAX_GAMES then Ret () else Fault Out_Of_Bounds) (\<lambda>_.
     case (he_hostname he, he_sysinfo he, he_statfs he) of
       (Some hostname, Some info, Some fs) \<Rightarrow>
         bindo (game_names games) (\<lambda>names.
         bindo (api_send_heartbeat (sce_api env)
           (heartbeat_msg he (ae_getenv (sce_api env) ''STRATUSD_IP'') names c hostname info fs) c) (\<lambda>(ret, c).
         bindo (close_dir dir c) (\<lambda>c. Ret (ret, c))))
     | _ \<Rightarrow> bindo (close_dir dir c) (\<lambda>c. Ret (-1, c)))"

definition heartbeat_steam ::
    "host_env \<Rightarrow> dir_stream option \<Rightarrow> game_ref list \<Rightarrow> sidecar_context \<Rightarrow> (game_ref list \<times> sidecar_context) outcome" where
  "heartbeat_steam he dir games c =
     (case dir of
        None \<Rightarrow> Ret (games, c)
      | Some (d, names) \<Rightarrow>
          (case scan_steam names games (sc_steam c) of
             (games, st) \<Rightarrow>
               bindo (close_dir dir (set_errno (he_steam_errno he) (c\<lparr>sc_errno := 0, sc_steam := st\<rparr>))) (\<lambda>c.
               Ret (games, set_errno (he_close_errno he) c))))"

definition sidecar_heartbeat :: "'j sidecar_env \<Rightarrow> sidecar_context \<Rightarrow> (int \<times> sidecar_context) outcome" where
  "sidecar_heartbeat env c =
     (let he = sce_host env (aw_tick c) in
      case open_dir (he_game_dir he) (tick c) of
        (None, c) \<Rightarrow> Ret (-1, c)
      | (Some (d, names), c) \<Rightarrow>
          let games = scan_games names []; c = set_errno (he_game_errno he) (c\<lparr>sc_errno := 0\<rparr>) in
          if sc_errno c \<noteq> 0 then bindo (close_dir (Some (d, names)) c) (\<lambda>c. Ret (-1, c))
          else
            (case open_dir (he_steam_dir he) c of
               (dir, c) \<Rightarrow>
                 bindo (heartbeat_steam he dir games c) (\<lambda>(games, c).
                 if sc_errno c \<noteq> 0 then bindo (close_dir dir c) (\<lambda>c. Ret (-1, c))
                 else heartbeat_send env he dir games c)))"

section \<open>Session handlers and main loop\<close>

datatype id_ptr = Session_Id | Message_Id string

text \<open>The hash of the session's certificate is a parameter of the environment (Transport makes it).\<close>

definition sidecar_on_start_session ::
    "'j sidecar_env \<Rightarrow> string \<Rightarrow> api_msg_start_session \<Rightarrow> sidecar_context \<Rightarrow> (int \<times> sidecar_context) outcome" where
  "sidecar_on_start_session env der_hash data c =
     bindo (asserto (sc_session c = None)) (\<lambda>_.
     bindo (session_start (sce_session env (aw_tick c)) (sc_steam c) (sm_session_id data) (sm_game_id data)
              (sm_width data) (sm_height data) (sc_world c)) (\<lambda>(ses, w).
     let c = tick (c\<lparr>sc_session := ses, sc_world := w\<rparr>) in
     case ses of
       None \<Rightarrow> bindo (api_send_session_error (sce_api env) (sm_session_id data) ''Failed to start session'' c)
                 (\<lambda>(_, c). Ret (-1, c))
     | Some s \<Rightarrow> api_send_confirm_start (sce_api env) (sm_session_id data) der_hash c))"

definition sidecar_on_stop_session ::
    "'j sidecar_env \<Rightarrow> id_ptr \<Rightarrow> sidecar_context \<Rightarrow> (int \<times> sidecar_context) outcome" where
  "sidecar_on_stop_session env session_id c =
     bindo (asserto (sc_session c \<noteq> None)) (\<lambda>_.
     bindo (asserto (session_id = Session_Id)) (\<lambda>_.
     bindo (session_teardown (sc_session c) (sc_world c)) (\<lambda>w.
     sidecar_heartbeat env (c\<lparr>sc_session := None, sc_world := w\<rparr>))))"

definition sidecar_handlers :: "'j sidecar_env \<Rightarrow> string \<Rightarrow> sidecar_context api_handlers" where
  "sidecar_handlers env der_hash =
     \<lparr>ah_start = Some (sidecar_on_start_session env der_hash),
      ah_stop = Some (\<lambda>sid. sidecar_on_stop_session env (Message_Id sid))\<rparr>"

text \<open>One iteration of the main loop: \<open>None\<close> is a \<^verbatim>\<open>break\<close>, otherwise the time of the last heartbeat.\<close>

definition loop_heartbeat ::
    "'j sidecar_env \<Rightarrow> int \<Rightarrow> sidecar_context \<Rightarrow> (int option \<times> sidecar_context) outcome" where
  "loop_heartbeat env last_hb c =
     (if ae_time (sce_api env) (aw_tick c) - last_hb > HEARTBEAT_INTERVAL
      then bindo (sidecar_heartbeat env c) (\<lambda>(r, c).
           if r < 0 then Ret (None, c) else Ret (Some (ae_time (sce_api env) (aw_tick c)), c))
      else Ret (Some last_hb, c))"

definition loop_ended ::
    "'j sidecar_env \<Rightarrow> int \<Rightarrow> string \<Rightarrow> sidecar_context \<Rightarrow> (bool \<times> sidecar_context) outcome" where
  "loop_ended env ret sid c =
     bindo (if ret = -1 then api_send_session_error (sce_api env) sid ''Session crashed'' c
            else if ret = 1 then api_send_stop_session (sce_api env) sid c
            else Ret (0, c)) (\<lambda>(r, c).
     if r < 0 then Ret (False, c)
     else
       bindo (sidecar_on_stop_session env Session_Id c) (\<lambda>(r, c).
       if r < 0 then Ret (False, c)
       else Ret (ae_getenv (sce_api env) ''STRATUSD_SIDECAR_ONESHOT'' = None, c)))"

definition loop_session :: "'j sidecar_env \<Rightarrow> sidecar_context \<Rightarrow> (bool \<times> sidecar_context) outcome" where
  "loop_session env c =
     (case sc_session c of
        None \<Rightarrow> Ret (True, c)
      | Some s \<Rightarrow>
          let t = aw_tick c; s = s\<lparr>se_connected := sce_connected env t\<rparr> in
          (case session_poll (ae_time (sce_api env) t) (sce_wait env t) (sce_join env t) s of
             (ret, s) \<Rightarrow>
               let c = tick (c\<lparr>sc_session := Some s\<rparr>) in
               if ret \<noteq> 0 then loop_ended env ret (se_id s) c else Ret (True, c)))"

definition sidecar_iterate ::
    "'j sidecar_env \<Rightarrow> string \<Rightarrow> int \<Rightarrow> sidecar_context \<Rightarrow> (int option \<times> sidecar_context) outcome" where
  "sidecar_iterate env der_hash last_hb c =
     bindo (loop_heartbeat env last_hb c) (\<lambda>(last_hb, c).
     case last_hb of
       None \<Rightarrow> Ret (None, c)
     | Some last_hb \<Rightarrow>
         bindo (loop_session env c) (\<lambda>(go, c).
         if \<not> go then Ret (None, c)
         else
           bindo (api_poll (sce_api env) (sidecar_handlers env der_hash) c) (\<lambda>(r, c).
           Ret (if r < 0 then None else Some last_hb, c))))"

text \<open>The loop, for at most \<open>n\<close> iterations (\<open>Block\<close> when it is still running then).\<close>

primrec sidecar_loop :: "nat \<Rightarrow> 'j sidecar_env \<Rightarrow> string \<Rightarrow> int \<Rightarrow> sidecar_context \<Rightarrow> sidecar_context outcome" where
  "sidecar_loop 0 env der_hash last_hb c = Block"
| "sidecar_loop (Suc n) env der_hash last_hb c =
     bindo (sidecar_iterate env der_hash last_hb c) (\<lambda>(last_hb, c).
     case last_hb of None \<Rightarrow> Ret c | Some last_hb \<Rightarrow> sidecar_loop n env der_hash last_hb c)"

definition sidecar_main :: "nat \<Rightarrow> 'j sidecar_env \<Rightarrow> string \<Rightarrow> sidecar_context \<Rightarrow> (int \<times> sidecar_context) outcome" where
  "sidecar_main n env der_hash c =
     bindo (api_init (sce_api env) (c\<lparr>sc_session := None\<rparr>)) (\<lambda>(ok, c).
     if \<not> ok then Ret (-1, c)
     else
       bindo (case ae_getenv (sce_api env) ''STRATUSD_API_MSG'' of
                None \<Rightarrow> Ret c
              | Some msg \<Rightarrow>
                  bindo (api_recv (ae_json (sce_api env)) (sidecar_handlers env der_hash) msg c) (\<lambda>(_, c). Ret c)) (\<lambda>c.
       bindo (sidecar_loop n env der_hash 0 c) (\<lambda>c.
       bindo (api_teardown c) (\<lambda>c.
       bindo (session_teardown (sc_session c) (sc_world c)) (\<lambda>w. Ret (-1, c\<lparr>sc_world := w\<rparr>))))))"

datatype main_output = Print_Version string | Print_Usage string | Run_Sidecar

definition main_program :: "string \<Rightarrow> string list \<Rightarrow> int option \<times> main_output" where
  "main_program version argv =
     (if length argv \<ge> 2 \<and> argv ! 1 = ''--version'' then (Some 0, Print_Version version)
      else if length argv \<ge> 2 then (Some (-1), Print_Usage (argv ! 0))
      else (None, Run_Sidecar))"


section \<open>The session invariant\<close>

text \<open>The resources of sessions are those of the active session, if there is one, over \<open>h\<close>.\<close>

definition owned_by :: "resource multiset \<Rightarrow> session option \<Rightarrow> sess_world \<Rightarrow> bool" where
  "owned_by h ses w \<longleftrightarrow> R_Mutex \<notin># h \<and>
     (case ses of None \<Rightarrow> mset (sw_held w) = h | Some s \<Rightarrow> session_owned s w h)"

definition sidecar_inv :: "resource multiset \<Rightarrow> sidecar_context \<Rightarrow> bool" where
  "sidecar_inv h c \<longleftrightarrow> owned_by h (sc_session c) (sc_world c)"

lemma owned_by_simps [simp]:
  "owned_by h None w \<longleftrightarrow> R_Mutex \<notin># h \<and> mset (sw_held w) = h"
  "owned_by h (Some s) w \<longleftrightarrow> R_Mutex \<notin># h \<and> session_owned s w h"
  by (simp_all add: owned_by_def)

lemma more_fields:
  assumes "api_state.more c = api_state.more (c' :: sidecar_context)"
  shows "sc_session c = sc_session c'" "sc_world c = sc_world c'" "sc_steam c = sc_steam c'"
  using assms by (cases c; cases c'; simp)+

lemma tick_fields [simp]:
  "sc_session (tick c) = sc_session c" "sc_world (tick c) = sc_world c" "sc_dirs (tick c) = sc_dirs c"
  "sc_steam (tick c) = sc_steam c" "sc_errno (tick c) = sc_errno c"
  by (simp_all add: tick_def)

lemma sidecar_inv_more: "sidecar_inv h c \<Longrightarrow> api_state.more c' = api_state.more c \<Longrightarrow> sidecar_inv h c'"
  by (simp add: sidecar_inv_def more_fields [of c' c])

lemma sidecar_inv_tick [simp]: "sidecar_inv h (tick c) = sidecar_inv h c"
  by (simp add: sidecar_inv_def)

text \<open>A heartbeat does not touch sessions.\<close>

lemma set_errno_fields [simp]:
  "sc_session (set_errno e c) = sc_session c" "sc_world (set_errno e c) = sc_world c"
  "sc_dirs (set_errno e c) = sc_dirs c" "sc_errno (set_errno e c) = (if e = 0 then sc_errno c else e)"
  "sc_steam (set_errno e c) = sc_steam c"
  by (simp_all add: set_errno_def)

lemma open_dir_fields:
  assumes "open_dir answer c = (dir, c')"
  shows "sc_session c' = sc_session c \<and> sc_world c' = sc_world c"
  using assms by (auto simp: open_dir_def Let_def split: sum.splits)

lemma close_dir_fields:
  assumes "close_dir dir c = Ret c'"
  shows "sc_session c' = sc_session c \<and> sc_world c' = sc_world c"
  using assms by (auto simp: close_dir_def split: option.splits if_splits)

lemma heartbeat_steam_fields:
  assumes "heartbeat_steam he dir games c = Ret (games', c')"
  shows "sc_session c' = sc_session c \<and> sc_world c' = sc_world c"
  using assms by (auto simp: heartbeat_steam_def split: option.splits prod.splits elim!: bindo_RetE dest!: close_dir_fields)

lemma heartbeat_send_fields:
  assumes "heartbeat_send env he dir games c = Ret (r, c')"
  shows "sc_session c' = sc_session c \<and> sc_world c' = sc_world c"
  using assms
  by (auto simp: heartbeat_send_def split: option.splits if_splits elim!: bindo_RetE dest!: close_dir_fields more_kept
      dest: more_fields)

lemma heartbeat_result:
  assumes "sidecar_heartbeat env c = Ret (r, c')"
  shows "sc_session c' = sc_session c \<and> sc_world c' = sc_world c"
  using assms
  by (auto simp: sidecar_heartbeat_def Let_def split: option.splits if_splits prod.splits elim!: bindo_RetE
      dest!: close_dir_fields heartbeat_steam_fields heartbeat_send_fields open_dir_fields)

lemma on_start_inv:
  assumes "sidecar_on_start_session env der data c = Ret (r, c')" "sidecar_inv h c"
  shows "sidecar_inv h c'"
proof -
  obtain ses w where none: "sc_session c = None" and
    st: "session_start (sce_session env (aw_tick c)) (sc_steam c) (sm_session_id data) (sm_game_id data)
      (sm_width data) (sm_height data) (sc_world c) = Ret (ses, w)" and
    rest: "(case ses of
        None \<Rightarrow> bindo (api_send_session_error (sce_api env) (sm_session_id data) ''Failed to start session''
          (tick (c\<lparr>sc_session := ses, sc_world := w\<rparr>))) (\<lambda>(_, c). Ret (-1, c))
      | Some s \<Rightarrow> api_send_confirm_start (sce_api env) (sm_session_id data) der
          (tick (c\<lparr>sc_session := ses, sc_world := w\<rparr>))) = Ret (r, c')"
    using assms(1) by (auto simp: sidecar_on_start_session_def Let_def elim!: bindo_RetE)
  have clean: "R_Mutex \<notin> set (sw_held (sc_world c))" "mset (sw_held (sc_world c)) = h" "R_Mutex \<notin># h"
    using assms(2) none by (auto simp: sidecar_inv_def)
  have "sidecar_inv h (c\<lparr>sc_session := ses, sc_world := w\<rparr>)"
    using session_start_owned [OF st clean(1)] clean by (auto simp: sidecar_inv_def)
  moreover have "api_state.more c' = api_state.more (tick (c\<lparr>sc_session := ses, sc_world := w\<rparr>))"
    using rest by (auto split: option.splits elim!: bindo_RetE dest!: more_kept)
  ultimately show ?thesis
    using sidecar_inv_more sidecar_inv_tick by blast
qed

lemma on_stop_inv:
  assumes "sidecar_on_stop_session env p c = Ret (r, c')" "sidecar_inv h c"
  shows "p = Session_Id \<and> sc_session c' = None \<and> sidecar_inv h c'"
proof -
  obtain s w where s: "sc_session c = Some s" "p = Session_Id" "session_teardown (Some s) (sc_world c) = Ret w"
    and hb: "sidecar_heartbeat env (c\<lparr>sc_session := None, sc_world := w\<rparr>) = Ret (r, c')"
    using assms(1) by (auto simp: sidecar_on_stop_session_def elim!: bindo_RetE)
  have "mset (sw_held w) = h" "R_Mutex \<notin># h"
    using sessions.teardown_some [of s "sc_world c" h] s assms(2) by (auto simp: sidecar_inv_def)
  then show ?thesis
    using heartbeat_result [OF hb] s(2) by (simp add: sidecar_inv_def)
qed

lemma loop_ended_inv:
  assumes "loop_ended env ret sid c = Ret (go, c')" "sidecar_inv h c"
  shows "sidecar_inv h c'"
proof -
  obtain r c1 where c1: "(if ret = -1 then api_send_session_error (sce_api env) sid ''Session crashed'' c
      else if ret = 1 then api_send_stop_session (sce_api env) sid c else Ret (0, c)) = Ret (r, c1)"
    and rest: "(if r < 0 then Ret (False, c1) else bindo (sidecar_on_stop_session env Session_Id c1) (\<lambda>(r, c).
      if r < 0 then Ret (False, c) else Ret (ae_getenv (sce_api env) ''STRATUSD_SIDECAR_ONESHOT'' = None, c))) = Ret (go, c')"
    using assms(1) by (auto simp: loop_ended_def elim!: bindo_RetE)
  have "api_state.more c1 = api_state.more c"
    using c1 by (auto split: if_splits dest!: more_kept)
  then have "sidecar_inv h c1"
    using assms(2) sidecar_inv_more by blast
  then show ?thesis
    using rest by (auto split: if_splits elim!: bindo_RetE dest!: on_stop_inv)
qed

lemma loop_session_inv:
  assumes "loop_session env c = Ret (go, c')" "sidecar_inv h c"
  shows "sidecar_inv h c'"
proof (cases "sc_session c")
  case None
  then show ?thesis
    using assms by (simp add: loop_session_def)
next
  case (Some s)
  let ?t = "aw_tick c" and ?s = "s\<lparr>se_connected := sce_connected env (aw_tick c)\<rparr>"
  obtain ret s1 where p: "session_poll (ae_time (sce_api env) ?t) (sce_wait env ?t) (sce_join env ?t) ?s = (ret, s1)"
    by fastforce
  have "session_owned ?s (sc_world c) h"
    using assms(2) Some by (simp add: sidecar_inv_def session_owned_def session_resources_def)
  from sessions.poll_keeps [OF this, of "(ae_time (sce_api env) ?t, sce_wait env ?t, sce_join env ?t)"]
  have "sidecar_inv h (c\<lparr>sc_session := Some s1\<rparr>)"
    using p assms(2) Some by (simp add: poll_session_def sidecar_inv_def)
  then show ?thesis
    using assms(1) Some p loop_ended_inv [of env ret "se_id s1" "tick (c\<lparr>sc_session := Some s1\<rparr>)" go c' h]
    by (auto simp: loop_session_def Let_def split: if_splits)
qed

lemma handlers_inv:
  assumes "sidecar_inv h x"
  shows "ah_start (sidecar_handlers env der) = Some f \<Longrightarrow> f d x = Ret (r, x') \<Longrightarrow> sidecar_inv h x'"
    and "ah_stop (sidecar_handlers env der) = Some g \<Longrightarrow> g i x = Ret (r, x') \<Longrightarrow> sidecar_inv h x'"
  using on_start_inv [OF _ assms] on_stop_inv [OF _ assms] by (fastforce simp: sidecar_handlers_def)+

lemma sidecar_iterate_inv:
  assumes "sidecar_iterate env der l c = Ret (r, c')" "sidecar_inv h c"
  shows "sidecar_inv h c'"
proof -
  obtain l1 c1 where hb: "loop_heartbeat env l c = Ret (l1, c1)" and
    rest: "(case l1 of None \<Rightarrow> Ret (None, c1)
      | Some l \<Rightarrow> bindo (loop_session env c1) (\<lambda>(go, c). if \<not> go then Ret (None, c)
          else bindo (api_poll (sce_api env) (sidecar_handlers env der) c) (\<lambda>(r, c).
            Ret (if r < 0 then None else Some l, c)))) = Ret (r, c')"
    using assms(1) by (auto simp: sidecar_iterate_def elim!: bindo_RetE)
  have inv1: "sidecar_inv h c1"
    using hb assms(2) by (auto simp: loop_heartbeat_def sidecar_inv_def split: if_splits elim!: bindo_RetE
        dest!: heartbeat_result)
  have poll: "sidecar_inv h c3" if "sidecar_inv h c2" "api_poll (sce_api env) (sidecar_handlers env der) c2 = Ret (q, c3)"
    for c2 c3 q
    using api_poll_keeps [OF that(2), of "sidecar_inv h"] that(1) sidecar_inv_more handlers_inv by blast
  show ?thesis
    using rest inv1 by (auto split: option.splits if_splits elim!: bindo_RetE dest!: loop_session_inv dest: poll)
qed

lemma sidecar_loop_inv:
  assumes "sidecar_loop n env der l c = Ret c'" "sidecar_inv h c"
  shows "sidecar_inv h c'"
  using assms
proof (induction n arbitrary: l c)
  case (Suc n)
  then show ?case
    using sidecar_iterate_inv by (fastforce split: option.splits elim!: bindo_RetE)
qed simp


section \<open>Properties\<close>

text \<open>
  C29. stratusd never leaks a session. Whatever the backend sends and however sessions start, run and
  end, when \<^verbatim>\<open>sidecar_main\<close> returns, every resource of every session it started has been destroyed exactly
  once.
\<close>
theorem sidecar_main_releases_sessions:
  assumes "sidecar_main n env der c = Ret (r, c')" "R_Mutex \<notin> set (sw_held (sc_world c))"
  shows "r = -1 \<and> mset (sw_held (sc_world c')) = mset (sw_held (sc_world c))"
proof -
  let ?h = "mset (sw_held (sc_world c))"
  obtain ok c1 where init: "api_init (sce_api env) (c\<lparr>sc_session := None\<rparr>) = Ret (ok, c1)" and
    rest: "(if \<not> ok then Ret (-1, c1)
      else bindo (case ae_getenv (sce_api env) ''STRATUSD_API_MSG'' of None \<Rightarrow> Ret c1
          | Some msg \<Rightarrow> bindo (api_recv (ae_json (sce_api env)) (sidecar_handlers env der) msg c1) (\<lambda>(_, c). Ret c)) (\<lambda>c.
        bindo (sidecar_loop n env der 0 c) (\<lambda>c.
        bindo (api_teardown c) (\<lambda>c.
        bindo (session_teardown (sc_session c) (sc_world c)) (\<lambda>w. Ret (-1, c\<lparr>sc_world := w\<rparr>)))))) = Ret (r, c')"
    using assms(1) by (auto simp: sidecar_main_def elim!: bindo_RetE)
  have inv1: "sidecar_inv ?h c1" "sc_world c1 = sc_world c"
    using more_fields [OF api_init_more [OF init]] assms(2) by (simp_all add: sidecar_inv_def)
  have recv: "sidecar_inv ?h c2" if "api_recv J (sidecar_handlers env der) msg c1 = Ret (q, c2)" for J msg q c2
    using api_recv_keeps [OF that, of "sidecar_inv ?h"] inv1(1) handlers_inv by blast
  have final: "r = -1 \<and> mset (sw_held (sc_world c')) = ?h"
    if "sidecar_inv ?h c2" "api_teardown c2 = Ret c3" "session_teardown (sc_session c3) (sc_world c3) = Ret w"
      "Ret (-1, c3\<lparr>sc_world := w\<rparr>) = Ret (r, c')" for c2 c3 w
  proof -
    have "owned_by ?h (sc_session c3) (sc_world c3)"
      using that(1) more_fields [OF api_teardown_more [OF that(2)]] by (simp add: sidecar_inv_def)
    then have "mset (sw_held w) = ?h"
      using that(3) sessions.teardown_some [of "the (sc_session c3)" "sc_world c3" ?h]
        sessions.teardown_none [of "sc_world c3"]
      by (cases "sc_session c3") auto
    then show ?thesis
      using that(4) by auto
  qed
  show ?thesis
  proof (cases ok)
    case False
    then show ?thesis
      using rest inv1(2) by simp
  next
    case True
    then obtain c2 where c2: "(case ae_getenv (sce_api env) ''STRATUSD_API_MSG'' of None \<Rightarrow> Ret c1
          | Some msg \<Rightarrow> bindo (api_recv (ae_json (sce_api env)) (sidecar_handlers env der) msg c1) (\<lambda>(_, c). Ret c)) = Ret c2"
      and more: "bindo (sidecar_loop n env der 0 c2) (\<lambda>c. bindo (api_teardown c) (\<lambda>c.
        bindo (session_teardown (sc_session c) (sc_world c)) (\<lambda>w. Ret (-1, c\<lparr>sc_world := w\<rparr>)))) = Ret (r, c')"
      using rest by (auto elim: bindo_RetE)
    have "sidecar_inv ?h c2"
      using c2 inv1(1) recv by (auto split: option.splits elim!: bindo_RetE)
    moreover obtain c3 c4 w where "sidecar_loop n env der 0 c2 = Ret c3" "api_teardown c3 = Ret c4"
      "session_teardown (sc_session c4) (sc_world c4) = Ret w" "Ret (-1, c4\<lparr>sc_world := w\<rparr>) = Ret (r, c')"
      using more by (elim bindo_RetE) blast
    ultimately show ?thesis
      using final sidecar_loop_inv by blast
  qed
qed

text \<open>The stream of an existing Steam directory is closed after its scan and open nowhere else, so that the final
  \<^verbatim>\<open>closedir\<close> finds it closed.\<close>

lemma fresh_dir: "Suc (sum_list ds) \<notin> set (ds :: nat list)"
  using member_le_sum_list [of "Suc (sum_list ds)" ds] by auto

lemma heartbeat_steam_closed:
  assumes "open_dir (Inr names) c = (dir, c1)" "heartbeat_steam he dir games c1 = Ret (games', c2)"
  shows "close_dir dir c2 = Fault Double_Free"
  using assms fresh_dir [of "sc_dirs c"]
  by (auto simp: open_dir_def heartbeat_steam_def close_dir_def Let_def split: prod.splits)

lemma close_dir_api:
  assumes "close_dir dir c = Fault f" "api_state.more c' = api_state.more c"
  shows "close_dir dir c' = Fault f"
proof -
  have "sc_dirs c' = sc_dirs c"
    using assms(2) by (cases c; cases c') simp
  then show ?thesis
    using assms(1) by (auto simp: close_dir_def split: option.splits if_splits)
qed

lemma heartbeat_send_closed:
  assumes "close_dir dir c = Fault Double_Free"
  shows "heartbeat_send env he dir games c \<noteq> Ret (r, c')"
  using assms
  by (auto simp: heartbeat_send_def split: option.splits if_splits elim!: bindo_RetE
      dest!: more_kept dest: close_dir_api [OF assms])

text \<open>
  C30. A heartbeat never succeeds. When the game directory cannot be read, \<^verbatim>\<open>sidecar_heartbeat\<close> returns -1. Otherwise, when
  the Steam directory cannot be opened, the \<^verbatim>\<open>errno\<close> that the failed \<^verbatim>\<open>opendir\<close> sets is taken for a failed \<^verbatim>\<open>readdir\<close>: it returns -1, and the
  stream of the game directory stays open. When the Steam directory can be opened, its stream is closed after the scan and
  once more at the end: the call does not return. Hence, with a clock past the first half minute of
  1970, the main loop of the SideCar ends in its first iteration, before it polls the backend. The hypothesis
  on \<^verbatim>\<open>opendir\<close> is what it documents: a failing call sets \<^verbatim>\<open>errno\<close> to an error number, which is not zero.
\<close>
theorem sidecar_heartbeat_never_succeeds:
  assumes "ae_time (sce_api env) (aw_tick c) > 30" "he = sce_host env (aw_tick c)" "he_steam_dir he \<noteq> Inl 0"
  shows "(if \<not> isl (he_game_dir he) \<and> he_game_errno he = 0 \<and> \<not> isl (he_steam_dir he)
      then \<forall>r c'. sidecar_heartbeat env c \<noteq> Ret (r, c')
      else \<exists>c'. sidecar_heartbeat env c = Ret (-1, c') \<and>
        (if isl (he_game_dir he) \<or> he_game_errno he \<noteq> 0 then sc_dirs c' = sc_dirs c
         else \<exists>d. sc_dirs c' = d # sc_dirs c)) \<and>
    sidecar_loop (Suc n) env der 0 c = bindo (sidecar_heartbeat env c) (\<lambda>(r, c1). Ret c1)"
proof
  have early: "\<exists>c'. sidecar_heartbeat env c = Ret (-1, c') \<and>
      (if isl (he_game_dir he) \<or> he_game_errno he \<noteq> 0 then sc_dirs c' = sc_dirs c else \<exists>d. sc_dirs c' = d # sc_dirs c)"
    if hd: "isl (he_game_dir he) \<or> he_game_errno he \<noteq> 0 \<or> isl (he_steam_dir he)"
  proof -
    consider e where "he_game_dir he = Inl e" | names where "he_game_dir he = Inr names" "he_game_errno he \<noteq> 0"
      | names e where "he_game_dir he = Inr names" "he_game_errno he = 0" "he_steam_dir he = Inl e" "e \<noteq> 0"
      using hd assms(3) by (cases "he_game_dir he"; cases "he_steam_dir he") auto
    then show ?thesis
      by cases (auto simp: sidecar_heartbeat_def open_dir_def heartbeat_steam_def close_dir_def Let_def
          assms(2) [symmetric])
  qed
  have late: "sidecar_heartbeat env c \<noteq> Ret (r, c')"
    if hd: "\<not> isl (he_game_dir he)" "he_game_errno he = 0" "\<not> isl (he_steam_dir he)" for r c'
  proof -
    obtain names snames where dirs: "he_game_dir he = Inr names" "he_steam_dir he = Inr snames"
      using hd by (cases "he_game_dir he"; cases "he_steam_dir he") auto
    show ?thesis
      using dirs hd(2) assms(2)
      by (auto simp: sidecar_heartbeat_def open_dir_def [where answer = "Inr names"] set_errno_def Let_def split: prod.splits if_splits
          elim!: bindo_RetE dest!: heartbeat_steam_closed simp: heartbeat_send_closed)
  qed
  show hb: "if \<not> isl (he_game_dir he) \<and> he_game_errno he = 0 \<and> \<not> isl (he_steam_dir he)
      then \<forall>r c'. sidecar_heartbeat env c \<noteq> Ret (r, c')
      else \<exists>c'. sidecar_heartbeat env c = Ret (-1, c') \<and>
        (if isl (he_game_dir he) \<or> he_game_errno he \<noteq> 0 then sc_dirs c' = sc_dirs c
         else \<exists>d. sc_dirs c' = d # sc_dirs c)"
    using early late by auto
  show "sidecar_loop (Suc n) env der 0 c = bindo (sidecar_heartbeat env c) (\<lambda>(r, c1). Ret c1)"
  proof (cases "sidecar_heartbeat env c")
    case (Ret p)
    then obtain c1 where "sidecar_heartbeat env c = Ret (-1, c1)"
      using hb by (cases p) (auto split: if_splits)
    then show ?thesis
      using assms(1) by (simp add: sidecar_iterate_def loop_heartbeat_def)
  qed (use assms(1) in \<open>simp_all add: sidecar_iterate_def loop_heartbeat_def\<close>)
qed

definition host_example :: host_env where
  "host_example = \<lparr>he_game_dir = Inr [''.'', ''..'', ''pong''], he_game_errno = 0, he_steam_dir = Inl 2,
     he_steam_errno = 0, he_close_errno = 0, he_hostname = Some ''host'', he_sysinfo = None, he_statfs = None,
     he_nprocs = 4, he_sensors = None\<rparr>"

definition sidecar_env_example :: "simple_json sidecar_env" where
  "sidecar_env_example = \<lparr>sce_api = api_env_ok\<lparr>ae_time := (\<lambda>_. 1000), ae_getenv := (\<lambda>_. None)\<rparr>,
     sce_host = (\<lambda>_. host_example), sce_session = (\<lambda>_. senv_example), sce_wait = (\<lambda>_. 0),
     sce_join = (\<lambda>_ _. None), sce_connected = (\<lambda>_. True)\<rparr>"

definition sidecar_zero :: sidecar_context where
  "sidecar_zero = \<lparr>ac_curl = None, ac_last_reconnect = 0, aw_tick = 0, aw_held = [], aw_sent = [],
     sc_session = None, sc_world = world_zero, sc_steam = steam_initial, sc_dirs = [], sc_errno = 0,
     sc_version = ''1''\<rparr>"

text \<open>On a host without a Steam directory the whole program ends with -1 after its first heartbeat, and
  the stream of the game directory stays open.\<close>

lemma sidecar_main_example:
  "\<exists>c'. sidecar_main (Suc n) sidecar_env_example der sidecar_zero = Ret (-1, c') \<and> sc_dirs c' = [1] \<and>
     sc_world c' = world_zero"
  by (simp add: sidecar_main_def api_init_def api_connect_def curl_cleanup_def sidecar_env_example_def
      api_env_ok_def sidecar_zero_def acquire_def tick_def Let_def sidecar_iterate_def loop_heartbeat_def
      sidecar_heartbeat_def heartbeat_steam_def open_dir_def close_dir_def set_errno_def host_example_def
      api_teardown_def release_def session_teardown_def)

text \<open>The same host when the environment variable \<^verbatim>\<open>STRATUSD_API_MSG\<close> holds a start request: a session is started,
  and torn down again when the first heartbeat fails.\<close>

definition start_json :: simple_json where
  "start_json = J_Obj [(''type'', J_Str ''start_session''), (''payload'', J_Obj [(''session_id'', J_Str ''sid''),
     (''game_id'', J_Str ''gid''), (''width'', J_Num 1280), (''height'', J_Num 720),
     (''user_id'', J_Str ''u''), (''user_name'', J_Str ''n'')])]"

definition start_env_example :: "simple_json sidecar_env" where
  "start_env_example = sidecar_env_example\<lparr>sce_api := api_env_ok\<lparr>ae_json := simple_cjson\<lparr>cj_parse := (\<lambda>_. Some start_json),
     cj_print := (\<lambda>_. [])\<rparr>, ae_time := (\<lambda>_. 1000),
     ae_getenv := (\<lambda>v. if v = ''STRATUSD_API_MSG'' then Some ''start'' else None)\<rparr>\<rparr>"

theorem sidecar_main_releases_sessions_witness:
  "\<exists>r c'. sidecar_main 5 start_env_example ''hash'' sidecar_zero = Ret (r, c') \<and> r = -1 \<and>
     Join THREAD_TRANSPORT \<in> set (sw_acts (sc_world c')) \<and> mset (sw_held (sc_world c')) = {#}"
proof -
  have "bindo (sidecar_main 5 start_env_example ''hash'' sidecar_zero) (\<lambda>(r, c'). Ret (Join 5 \<in> set (sw_acts (sc_world c')))) =
      Ret True"
    by code_simp
  then obtain r c' where m: "sidecar_main 5 start_env_example ''hash'' sidecar_zero = Ret (r, c')"
    "Join 5 \<in> set (sw_acts (sc_world c'))"
    by (auto elim!: bindo_RetE)
  moreover have "R_Mutex \<notin> set (sw_held (sc_world sidecar_zero))"
    by (simp add: sidecar_zero_def world_zero_def)
  ultimately show ?thesis
    using sidecar_main_releases_sessions [OF m(1)] by (simp add: sidecar_zero_def world_zero_def)
qed

theorem sidecar_heartbeat_never_succeeds_witness:
  "(\<exists>c'. sidecar_heartbeat sidecar_env_example sidecar_zero = Ret (-1, c') \<and> length (sc_dirs c') = 1) \<and>
   sidecar_loop (Suc 7) sidecar_env_example ''hash'' 0 sidecar_zero =
     bindo (sidecar_heartbeat sidecar_env_example sidecar_zero) (\<lambda>(r, c1). Ret c1) \<and>
   (\<forall>r c'. sidecar_heartbeat (sidecar_env_example\<lparr>sce_host := (\<lambda>_. host_example\<lparr>he_steam_dir := Inr [''Portal'']\<rparr>)\<rparr>)
      sidecar_zero \<noteq> Ret (r, c'))"
  using sidecar_heartbeat_never_succeeds [where env = sidecar_env_example and c = sidecar_zero and he = host_example
      and n = 7 and der = "''hash''"]
    sidecar_heartbeat_never_succeeds [where c = sidecar_zero and he = "host_example\<lparr>he_steam_dir := Inr [''Portal'']\<rparr>"
      and env = "sidecar_env_example\<lparr>sce_host := (\<lambda>_. host_example\<lparr>he_steam_dir := Inr [''Portal'']\<rparr>)\<rparr>"]
  by (auto simp: sidecar_env_example_def host_example_def sidecar_zero_def)

text \<open>
  C31. A stop request from the backend aborts stratusd. A well-formed \<^verbatim>\<open>stop_session\<close> message makes the
  handler fail an assertion: without an active session the first one, and with one the second, which
  compares the address of the session's identifier with the address of the string in the message
  instead of their contents, whatever identifier the message names.
\<close>
theorem stop_message_aborts:
  assumes "cj_parse J msg = Some j" "string_field J j ''type'' = Some ''stop_session''"
    "cj_get J j ''payload'' = Some p" "cj_is_object J p" "string_field J p ''session_id'' = Some sid"
  shows "api_recv J (sidecar_handlers env der) msg c = Fault Assert_Failed"
  using assms by (cases "sc_session c")
    (simp_all add: api_recv_def api_recv_stop_session_def sidecar_handlers_def sidecar_on_stop_session_def)

definition stop_json :: simple_json where
  "stop_json = J_Obj [(''type'', J_Str ''stop_session''), (''payload'', J_Obj [(''session_id'', J_Str ''abc'')])]"

theorem stop_message_aborts_witness:
  "api_recv simple_cjson (sidecar_handlers sidecar_env_example ''hash'') (cj_print simple_cjson stop_json)
     (sidecar_zero\<lparr>sc_session := Some (session_zero\<lparr>se_id := ''abc''\<rparr>)\<rparr>) = Fault Assert_Failed"
proof (rule stop_message_aborts)
  show "cj_parse simple_cjson (cj_print simple_cjson stop_json) = Some stop_json"
    using simple_cjson_laws by (simp add: cjson_laws_def)
  show "string_field simple_cjson stop_json ''type'' = Some ''stop_session''"
    "cj_get simple_cjson stop_json ''payload'' = Some (J_Obj [(''session_id'', J_Str ''abc'')])"
    "cj_is_object simple_cjson (J_Obj [(''session_id'', J_Str ''abc'')])"
    "string_field simple_cjson (J_Obj [(''session_id'', J_Str ''abc'')]) ''session_id'' = Some ''abc''"
    by (simp_all add: stop_json_def simple_cjson_def string_field_def)
qed

text \<open>A second start request while a session is active fails an assertion as well.\<close>

lemma second_start_aborts:
  "sc_session c \<noteq> None \<Longrightarrow> sidecar_on_start_session env der data c = Fault Assert_Failed"
  by (auto simp: sidecar_on_start_session_def)

text \<open>Every Steam game the heartbeat finds is registered with application number 0, so that it is never
  launched through Steam.\<close>

lemma steam_games_direct:
  assumes "steam_find_game_by_id i st = Some e" "ge_appid e = 0"
  shows "session_launch_game env i st = bindo (launch_direct env i) (\<lambda>pid. Ret (pid, st))"
  using assms by (simp add: session_launch_game_def)

end
