(* ===== verification/Capture_Pw.thy ===== *)
theory Capture_Pw
  imports Complex_Main Float32 Ring_Buffer
begin

text \<open>
  The PipeWire capture thread, \<^verbatim>\<open>stratusd/CapturePw/src/CapturePw.c\<close>: a session that receives
  buffers of 32-bit float samples, converts them to 16-bit samples and writes them as frames to the
  audio ring buffer, and that publishes the audio format to the encoder thread through the
  \<^verbatim>\<open>struct audio_context\<close> of \<^verbatim>\<open>SideCar.h\<close>.

  PipeWire is not modelled: what it returns and which callbacks it makes, in which order, are
  arguments, and the calls the module makes to it are recorded in \<open>pw_log\<close>. The pointers
  \<^verbatim>\<open>audio_context\<close> and \<^verbatim>\<open>client_connected\<close> are the objects they point to, or \<open>None\<close> for NULL. A
  sample is the 32-bit word PipeWire delivers, decoded by \<open>f32_decode\<close>.
\<close>

section \<open>State\<close>

type_synonym s16 = "16 word"

record audio_context =
  ac_sample_rate :: u32
  ac_channels :: u32
  ac_buffer_capacity_frames :: u32
  ac_ring_buffer :: "ring_buffer option"
  ac_format_lock :: bool
  ac_format_broadcasts :: nat
  ac_format_ready :: int

text \<open>A buffer of a PipeWire stream: the floats of its mapped data (\<open>None\<close>: not mapped) and the
  byte size of its chunk.\<close>

record pw_buffer =
  pb_data :: "u32 list option"
  pb_chunk_size :: "u32 option"

datatype pw_call =
    Pw_Init
  | Loop_New
  | Stream_New
  | Stream_Connect
  | Queue_Buffer pw_buffer
  | Loop_Quit
  | Stream_Destroy
  | Loop_Destroy
  | Pw_Deinit
  | Free_Convert_Buffer
  | Free_Session

datatype spa_media_type = SPA_MEDIA_TYPE_audio | Other_Media_Type
datatype spa_media_subtype = SPA_MEDIA_SUBTYPE_raw | Other_Media_Subtype
datatype spa_param_id = SPA_PARAM_Format | Other_Param

text \<open>What the two parsers of libspa make of a format: the result of \<^verbatim>\<open>spa_format_parse\<close> with the
  two types, and the rate and the channel count where the format has them.\<close>

record spa_pod =
  sp_result :: int
  sp_media_type :: spa_media_type
  sp_media_subtype :: spa_media_subtype
  sp_rate :: "u32 option"
  sp_channels :: "u32 option"

record capture_pw_session =
  pw_running :: int
  pw_loop :: bool
  pw_stream :: bool
  pw_media_type :: spa_media_type
  pw_media_subtype :: spa_media_subtype
  pw_rate :: u32
  pw_raw_channels :: u32
  pw_audio_context :: "audio_context option"
  pw_client_connected :: "bool option"
  pw_dropped_frames :: u64
  pw_debug :: bool
  pw_convert_buffer :: "s16 list option"
  pw_convert_buffer_samples :: u32
  pw_log :: "pw_call list"

text \<open>The allocations of one callback: whether they succeed and what is in fresh memory.\<close>

record pw_alloc =
  pa_realloc_ok :: bool
  pa_junk :: "nat \<Rightarrow> s16"
  pa_ring_ok :: "bool \<times> bool \<times> bool \<times> bool"
  pa_ring_junk :: "nat \<Rightarrow> byte"

section \<open>Sample conversion\<close>

text \<open>The conversion of a \<^verbatim>\<open>float\<close> to \<^verbatim>\<open>int16_t\<close> is undefined when the truncated value does not fit.\<close>

definition f32_to_s16 :: "c_float \<Rightarrow> s16 outcome" where
  "f32_to_s16 x =
     bindo (f32_to_int x) (\<lambda>v.
     if - 32768 \<le> v \<and> v < 32768 then Ret (word_of_int v) else Fault Bad_Cast)"

text \<open>The value of a finite float in units of \<open>2\<^sup>b\<close>, and the comparison \<^verbatim>\<open><=\<close>, false on NaN.\<close>

definition f32_scaled :: "bool \<Rightarrow> int \<Rightarrow> int \<Rightarrow> int \<Rightarrow> int" where
  "f32_scaled s m e b = (if s then - m else m) * 2 ^ nat (e - b)"

fun f32_le :: "c_float \<Rightarrow> c_float \<Rightarrow> bool" where
  "f32_le NaN y = False"
| "f32_le x NaN = False"
| "f32_le (Infinite s) (Infinite t) = (s \<or> \<not> t)"
| "f32_le (Infinite s) (Finite t n f) = s"
| "f32_le (Finite s m e) (Infinite t) = (\<not> t)"
| "f32_le (Finite s m e) (Finite t n f) =
     (f32_scaled s m e (min e f) \<le> f32_scaled t n f (min e f))"

definition INT16_MAX :: s16 where "INT16_MAX = 32767"
definition INT16_MIN :: s16 where "INT16_MIN = word_of_int (- 32768)"

definition capture_pw_float_to_s16 :: "c_float \<Rightarrow> s16 outcome" where
  "capture_pw_float_to_s16 sample =
     (if f32_le (f32_of_int 1) sample then Ret INT16_MAX
      else if f32_le sample (f32_of_int (- 1)) then Ret INT16_MIN
      else f32_to_s16 (f32_mul sample (f32_of_int 32768)))"

section \<open>Callbacks\<close>

definition capture_pw_ring_buffer :: "capture_pw_session option \<Rightarrow> ring_buffer option" where
  "capture_pw_ring_buffer session =
     (case session of
        None \<Rightarrow> None
      | Some s \<Rightarrow> (case pw_audio_context s of None \<Rightarrow> None | Some ac \<Rightarrow> ac_ring_buffer ac))"

text \<open>The pointer stored in the context is the ring itself, so a call on the ring changes it there.\<close>

definition pw_set_ring :: "ring_buffer option \<Rightarrow> capture_pw_session \<Rightarrow> capture_pw_session" where
  "pw_set_ring r s =
     s\<lparr>pw_audio_context := map_option (\<lambda>ac. ac\<lparr>ac_ring_buffer := r\<rparr>) (pw_audio_context s)\<rparr>"

definition pw_call :: "pw_call \<Rightarrow> capture_pw_session \<Rightarrow> capture_pw_session" where
  "pw_call c s = s\<lparr>pw_log := pw_log s @ [c]\<rparr>"

definition nth_o :: "'a list \<Rightarrow> nat \<Rightarrow> 'a outcome" where
  "nth_o xs i = (if i < length xs then Ret (xs ! i) else Fault Out_Of_Bounds)"

definition update_o :: "'a list \<Rightarrow> nat \<Rightarrow> 'a \<Rightarrow> 'a list outcome" where
  "update_o xs i v = (if i < length xs then Ret (xs[i := v]) else Fault Out_Of_Bounds)"

text \<open>The conversion loop of \<open>on_process\<close>, from index \<open>i\<close>.\<close>

function convert_loop :: "u32 list \<Rightarrow> nat \<Rightarrow> nat \<Rightarrow> s16 list \<Rightarrow> s16 list outcome" where
  "convert_loop frame_data n i buf =
     (if i < n
      then bindo (nth_o frame_data i) (\<lambda>sample.
           bindo (capture_pw_float_to_s16 (f32_decode sample)) (\<lambda>v.
           bindo (update_o buf i v) (\<lambda>buf. convert_loop frame_data n (Suc i) buf)))
      else Ret buf)"
  by pat_completeness auto
termination
  by (relation "measure (\<lambda>(frame_data, n, i, buf). n - i)") auto

declare convert_loop.simps [simp del]

definition realloc_samples :: "(nat \<Rightarrow> s16) \<Rightarrow> nat \<Rightarrow> s16 list option \<Rightarrow> s16 list" where
  "realloc_samples junk n old =
     (let xs = (case old of None \<Rightarrow> [] | Some xs \<Rightarrow> xs) in take n xs @ map junk [length xs..<n])"

text \<open>The bytes of the samples in memory (little endian), as the ring buffer copies them.\<close>

definition s16_bytes :: "s16 \<Rightarrow> byte list" where
  "s16_bytes w = [ucast w, ucast (drop_bit 8 w)]"

definition samples_bytes :: "s16 list \<Rightarrow> byte list" where
  "samples_bytes xs = concat (map s16_bytes xs)"

text \<open>\<open>on_process\<close> between the size computation and the label \<^verbatim>\<open>end\<close>: growing the conversion
  buffer, converting, writing to the ring, counting what did not fit.\<close>

definition pw_grow :: "pw_alloc \<Rightarrow> u32 \<Rightarrow> capture_pw_session \<Rightarrow> capture_pw_session option" where
  "pw_grow al total_samples s =
     (if total_samples > pw_convert_buffer_samples s
      then if \<not> pa_realloc_ok al then None
           else Some (s\<lparr>pw_convert_buffer :=
                          Some (realloc_samples (pa_junk al) (unat total_samples) (pw_convert_buffer s)),
                        pw_convert_buffer_samples := total_samples\<rparr>)
      else Some s)"

definition count_dropped :: "u32 \<Rightarrow> u32 \<Rightarrow> capture_pw_session \<Rightarrow> capture_pw_session" where
  "count_dropped written_frames n_frames s =
     (if written_frames < n_frames \<and> pw_running s \<noteq> 0
      then s\<lparr>pw_dropped_frames := pw_dropped_frames s + ucast (n_frames - written_frames)\<rparr>
      else s)"

definition pw_write ::
    "ring_buffer \<Rightarrow> u32 \<Rightarrow> s16 list \<Rightarrow> capture_pw_session \<Rightarrow> capture_pw_session outcome" where
  "pw_write ring n_frames buf s =
     bindo (ring_buffer_write (Some ring) (Some (samples_bytes buf)) n_frames) (\<lambda>(written_frames, r).
     Ret (count_dropped written_frames n_frames (pw_set_ring r s)))"

definition pw_convert ::
    "pw_alloc \<Rightarrow> ring_buffer \<Rightarrow> u32 list \<Rightarrow> u32 \<Rightarrow> u32 \<Rightarrow> capture_pw_session \<Rightarrow> capture_pw_session outcome"
where
  "pw_convert al ring frame_data n_frames total_samples s =
     (case pw_grow al total_samples s of
        None \<Rightarrow> Ret s
      | Some s \<Rightarrow>
          bindo (derefo (pw_convert_buffer s)) (\<lambda>buf.
          bindo (convert_loop frame_data (unat total_samples) 0 buf) (\<lambda>buf.
          pw_write ring n_frames buf (s\<lparr>pw_convert_buffer := Some buf\<rparr>))))"

definition pw_chunk ::
    "pw_alloc \<Rightarrow> u32 list \<Rightarrow> u32 \<Rightarrow> capture_pw_session \<Rightarrow> capture_pw_session outcome" where
  "pw_chunk al frame_data chunk_size s =
     bindo (derefo (pw_audio_context s)) (\<lambda>ac.
     let channels = ac_channels ac in
     case capture_pw_ring_buffer (Some s) of
       None \<Rightarrow> Ret s
     | Some ring \<Rightarrow>
         if channels = 0 then Ret s
         else let n_frames = ucast ((ucast chunk_size :: u64) div (4 * ucast channels)) :: u32 in
              if n_frames = 0 then Ret s
              else pw_convert al ring frame_data n_frames (n_frames * channels) s)"

definition process_buffer ::
    "pw_alloc \<Rightarrow> pw_buffer \<Rightarrow> capture_pw_session \<Rightarrow> capture_pw_session outcome" where
  "process_buffer al b s =
     bindo (derefo (pw_client_connected s)) (\<lambda>connected.
     if \<not> connected then Ret s
     else case (pb_data b, pb_chunk_size b) of
            (Some frame_data, Some chunk_size) \<Rightarrow> pw_chunk al frame_data chunk_size s
          | _ \<Rightarrow> Ret s)"

definition on_process ::
    "pw_alloc \<Rightarrow> pw_buffer option \<Rightarrow> capture_pw_session \<Rightarrow> capture_pw_session outcome" where
  "on_process al dequeued s =
     (case dequeued of
        None \<Rightarrow> Ret s
      | Some b \<Rightarrow>
          bindo (process_buffer al b s) (\<lambda>s. Ret (pw_call (Queue_Buffer b) s)))"

text \<open>Publishing the format under the mutex of the context.\<close>

definition publish_format :: "u32 \<Rightarrow> u32 \<Rightarrow> u32 \<Rightarrow> audio_context \<Rightarrow> audio_context outcome" where
  "publish_format sample_rate channels capacity ac =
     (if ac_format_lock ac then Block
      else Ret (ac\<lparr>ac_sample_rate := sample_rate, ac_channels := channels,
                   ac_buffer_capacity_frames := capacity, ac_format_ready := 1,
                   ac_format_broadcasts := Suc (ac_format_broadcasts ac)\<rparr>))"

text \<open>The ring of a context, made on the first format. \<open>None\<close> when it cannot be made.\<close>

definition format_ring :: "pw_alloc \<Rightarrow> u32 \<Rightarrow> u32 \<Rightarrow> audio_context \<Rightarrow> (ring_buffer \<times> u32) option" where
  "format_ring al sample_rate channels ac =
     (case ac_ring_buffer ac of
        Some r \<Rightarrow> Some (r, ac_buffer_capacity_frames ac)
      | None \<Rightarrow>
          let half = sample_rate div 2; capacity = (if half = 0 then 2048 else half) in
          (case pa_ring_ok al of (c, m, mu, co) \<Rightarrow>
           map_option (\<lambda>r. (r, capacity))
             (ring_buffer_init c m mu co (pa_ring_junk al) capacity (ucast channels * 2))))"

definition parse_format :: "spa_pod \<Rightarrow> capture_pw_session \<Rightarrow> capture_pw_session" where
  "parse_format pod s =
     s\<lparr>pw_rate := (case sp_rate pod of None \<Rightarrow> pw_rate s | Some r \<Rightarrow> r),
       pw_raw_channels := (case sp_channels pod of None \<Rightarrow> pw_raw_channels s | Some c \<Rightarrow> c)\<rparr>"

definition on_stream_param_changed ::
    "pw_alloc \<Rightarrow> spa_param_id \<Rightarrow> spa_pod option \<Rightarrow> capture_pw_session \<Rightarrow> capture_pw_session outcome"
where
  "on_stream_param_changed al i param s =
     (case param of
        None \<Rightarrow> Ret s
      | Some pod \<Rightarrow>
          if i \<noteq> SPA_PARAM_Format then Ret s
          else if sp_result pod < 0 then Ret s
          else
            let s = s\<lparr>pw_media_type := sp_media_type pod, pw_media_subtype := sp_media_subtype pod\<rparr> in
            if pw_media_type s \<noteq> SPA_MEDIA_TYPE_audio \<or> pw_media_subtype s \<noteq> SPA_MEDIA_SUBTYPE_raw
            then Ret s
            else
              let s = parse_format pod s in
              bindo (derefo (pw_audio_context s)) (\<lambda>ac.
              case format_ring al (pw_rate s) (pw_raw_channels s) ac of
                None \<Rightarrow> Ret s
              | Some (r, capacity) \<Rightarrow>
                  bindo (publish_format (pw_rate s) (pw_raw_channels s) capacity
                           (ac\<lparr>ac_ring_buffer := Some r\<rparr>)) (\<lambda>ac.
                  Ret (s\<lparr>pw_audio_context := Some ac\<rparr>))))"

definition do_quit :: "capture_pw_session \<Rightarrow> capture_pw_session outcome" where
  "do_quit s =
     (let s = s\<lparr>pw_running := 0\<rparr> in
      bindo (ring_buffer_close (capture_pw_ring_buffer (Some s))) (\<lambda>r.
      Ret (pw_call Loop_Quit (pw_set_ring r s))))"

section \<open>Running and destroying a session\<close>

text \<open>
  What happens while \<^verbatim>\<open>pw_main_loop_run\<close> runs: the two stream callbacks, a signal, and the
  cancellation of the thread by the teardown of the session.
\<close>

datatype pw_event =
    Process pw_alloc "pw_buffer option"
  | Param_Changed pw_alloc spa_param_id "spa_pod option"
  | Client_Connected bool
  | Signal
  | Cancelled

text \<open>The loop returns after \<^verbatim>\<open>pw_main_loop_quit\<close>; with no further event it waits. The flag says
  whether the thread was cancelled.\<close>

primrec pw_main_loop_run :: "pw_event list \<Rightarrow> capture_pw_session \<Rightarrow> (bool \<times> capture_pw_session) outcome" where
  "pw_main_loop_run [] s = Block"
| "pw_main_loop_run (ev # evs) s =
     (case ev of
        Process al b \<Rightarrow> bindo (on_process al b s) (pw_main_loop_run evs)
      | Param_Changed al i p \<Rightarrow> bindo (on_stream_param_changed al i p s) (pw_main_loop_run evs)
      | Client_Connected c \<Rightarrow> pw_main_loop_run evs (s\<lparr>pw_client_connected := Some c\<rparr>)
      | Signal \<Rightarrow> bindo (do_quit s) (\<lambda>s. Ret (False, s))
      | Cancelled \<Rightarrow> Ret (True, s))"

text \<open>What PipeWire answers while the session is set up.\<close>

record pw_env =
  pe_loop_ok :: bool
  pe_props_ok :: bool
  pe_stream_ok :: bool
  pe_connect :: int
  pe_events :: "pw_event list"

text \<open>The result is \<open>None\<close> when the thread was cancelled inside the call.\<close>

definition capture_pw_run ::
    "pw_env \<Rightarrow> capture_pw_session \<Rightarrow> (int option \<times> capture_pw_session) outcome" where
  "capture_pw_run env s =
     (let s = pw_call Pw_Init s in
      if \<not> pe_loop_ok env then Ret (Some (- 1), s\<lparr>pw_loop := False\<rparr>)
      else
        let s = pw_call Loop_New (s\<lparr>pw_loop := True\<rparr>) in
        if \<not> pe_props_ok env then Ret (Some (- 1), s)
        else if \<not> pe_stream_ok env then Ret (Some (- 1), s\<lparr>pw_stream := False\<rparr>)
        else
          let s = pw_call Stream_New (s\<lparr>pw_stream := True\<rparr>) in
          if pe_connect env < 0 then Ret (Some (- 1), s)
          else
            let s = pw_call Stream_Connect (s\<lparr>pw_running := 1\<rparr>) in
            bindo (pw_main_loop_run (pe_events env) s) (\<lambda>(cancelled, s).
            Ret (if cancelled then None else Some 0, s)))"

definition pw_call_if :: "bool \<Rightarrow> pw_call \<Rightarrow> capture_pw_session \<Rightarrow> capture_pw_session" where
  "pw_call_if b c s = (if b then pw_call c s else s)"

definition pw_release :: "capture_pw_session \<Rightarrow> capture_pw_session" where
  "pw_release s =
     (let s = pw_call_if (pw_stream s) Stream_Destroy s;
          s = pw_call_if (pw_loop s) Loop_Destroy s;
          s = pw_call Pw_Deinit s;
          s = pw_call_if (pw_convert_buffer s \<noteq> None) Free_Convert_Buffer s
      in pw_call Free_Session s)"

definition capture_pw_destroy :: "capture_pw_session option \<Rightarrow> capture_pw_session option outcome" where
  "capture_pw_destroy session =
     (case session of
        None \<Rightarrow> Ret None
      | Some s \<Rightarrow>
          let s = s\<lparr>pw_running := 0\<rparr> in
          bindo (ring_buffer_close (capture_pw_ring_buffer (Some s))) (\<lambda>r.
          Ret (Some (pw_release (pw_set_ring r s)))))"

text \<open>The session as \<^verbatim>\<open>calloc\<close> leaves it.\<close>

definition capture_pw_zero :: capture_pw_session where
  "capture_pw_zero =
     \<lparr>pw_running = 0, pw_loop = False, pw_stream = False, pw_media_type = Other_Media_Type,
      pw_media_subtype = Other_Media_Subtype, pw_rate = 0, pw_raw_channels = 0,
      pw_audio_context = None, pw_client_connected = None, pw_dropped_frames = 0, pw_debug = False,
      pw_convert_buffer = None, pw_convert_buffer_samples = 0, pw_log = []\<rparr>"

text \<open>
  \<open>args\<close> has the flags \<^verbatim>\<open>is_active\<close> and \<^verbatim>\<open>client_connected\<close> and the audio context of the session
  arguments (\<open>None\<close>: NULL). The cleanup handler runs at the end and on cancellation; the session it
  leaves is returned for its log and its audio context.
\<close>

definition capture_pw_main ::
    "bool \<Rightarrow> bool \<Rightarrow> pw_env \<Rightarrow> (bool \<times> bool \<times> audio_context) option \<Rightarrow>
     (int option \<times> capture_pw_session option) outcome" where
  "capture_pw_main calloc_ok debug env args =
     (if \<not> calloc_ok then Ret (Some (- 1), None)
      else
        bindo (case args of
                 None \<Rightarrow> Ret (Some (- 1), capture_pw_zero)
               | Some (is_active, conn, ac) \<Rightarrow>
                   let s = capture_pw_zero\<lparr>pw_audio_context := Some ac,
                             pw_client_connected := Some conn, pw_debug := debug\<rparr> in
                   if \<not> is_active then Ret (Some 0, s)
                   else bindo (capture_pw_run env s) (\<lambda>(r, s).
                        Ret (case r of None \<Rightarrow> None | Some r \<Rightarrow> Some (if r < 0 then - 1 else 0), s)))
          (\<lambda>(ret, s). bindo (capture_pw_destroy (Some s)) (\<lambda>s. Ret (ret, s))))"

section \<open>The conversion is exact\<close>

definition trunc_real :: "real \<Rightarrow> int" where
  "trunc_real x = (if 0 \<le> x then \<lfloor>x\<rfloor> else \<lceil>x\<rceil>)"

text \<open>The reference: scale, drop the fraction, saturate.\<close>

definition s16_of_real :: "real \<Rightarrow> int" where
  "s16_of_real x = max (- 32768) (min 32767 (trunc_real (x * 32768)))"

lemma f32_decode_finite:
  assumes "f32_decode w = Finite s m e"
  shows "0 \<le> m" "m < 2 ^ 24" "- 149 \<le> e"
proof -
  have "0 \<le> uint w mod 2 ^ 23" "uint w mod 2 ^ 23 < 2 ^ 23" 
    "uint w div 2 ^ 23 mod 2 ^ 8 \<noteq> 0 \<Longrightarrow> 1 \<le> uint w div 2 ^ 23 mod 2 ^ 8"
    by (simp, simp, metis int_one_le_iff_zero_less order_less_le pos_mod_sign zero_less_numeral zero_less_power)
  then show "0 \<le> m" "m < 2 ^ 24" "- 149 \<le> e"
    using assms by (auto simp: f32_decode_def Let_def split: if_splits)
qed

lemma powi_nat_diff: "b \<le> e \<Longrightarrow> (2 :: real) ^ nat (e - b) = 2 powi e / 2 powi b"
  using power_int_diff [of "2 :: real" e b] by (simp add: power_int_def)

lemma f32_scaled_real:
  "b \<le> e \<Longrightarrow> of_int (f32_scaled s m e b) = f32_real (Finite s m e) / 2 powi b"
  by (simp add: f32_scaled_def powi_nat_diff)

lemma f32_le_real:
  "f32_le (Finite s m e) (Finite t n f) \<longleftrightarrow> f32_real (Finite s m e) \<le> f32_real (Finite t n f)"
proof -
  let ?b = "min e f"
  have "f32_le (Finite s m e) (Finite t n f) \<longleftrightarrow>
      (of_int (f32_scaled s m e ?b) :: real) \<le> of_int (f32_scaled t n f ?b)"
    by simp
  also have "\<dots> \<longleftrightarrow> f32_real (Finite s m e) \<le> f32_real (Finite t n f)"
    using zero_less_power_int [of "2 :: real" ?b]
    by (simp add: f32_scaled_real divide_le_cancel less_not_sym del: f32_real.simps)
  finally show ?thesis .
qed

lemma trunc_abs_floor: "trunc_abs m e = \<lfloor>of_int m * (2 :: real) powi e\<rfloor>"
proof (cases "0 \<le> e")
  case True
  then have "of_int m * (2 :: real) powi e = of_int (m * 2 ^ nat e)"
    by (simp add: power_int_def)
  then show ?thesis
    using True by (simp only: floor_of_int) (simp add: trunc_abs_def)
next
  case False
  then have "of_int m * (2 :: real) powi e = of_int m / of_int (2 ^ nat (- e))"
    by (simp add: power_int_def field_simps)
  then show ?thesis
    using False by (simp only: floor_divide_of_int_eq) (simp add: trunc_abs_def)
qed

lemma round_shift_exact: "round_shift (m * 2 ^ k) k = m"
  by (simp add: round_shift_def)

text \<open>Scaling a sample of magnitude below 1 by \<open>2\<^sup>1\<^sup>5\<close> loses nothing.\<close>

lemma f32_scale_exact:
  assumes "0 \<le> m" "m < 2 ^ 24" "- 149 \<le> e" "of_int m * (2 :: real) powi e < 1"
  obtains q e' where "f32_mul (Finite s m e) (f32_of_int 32768) = Finite s q e'"
    "of_int q * (2 :: real) powi e' = of_int m * 2 powi e * 32768"
proof -
  define k where "k = nat (max (int (bit_length (m * 2 ^ 15)) - 24) (- 149 - e))"
  have "bit_length (m * 2 ^ 15) \<le> 39"
    using assms(2) by (intro bit_length_le) simp
  then have k: "k \<le> 15"
    using assms(3) by (simp add: k_def)
  define q where "q = m * 2 ^ (15 - k)"
  have split: "m * 2 ^ 15 = q * 2 ^ k"
    using k by (simp add: q_def mult.assoc power_add [symmetric])
  have val: "of_int q * (2 :: real) powi (e + int k) = of_int m * 2 powi e * 32768"
  proof -
    have "of_int q * (2 :: real) powi (e + int k) = of_int (q * 2 ^ k) * 2 powi e"
      by (simp add: power_int_add)
    then show ?thesis
      by (simp add: split [symmetric])
  qed
  have "int (bit_length q) + (e + int k) \<le> 128" if "q \<noteq> 0"
  proof -
    have q: "0 < q"
      using that assms(1) by (simp add: q_def)
    have "(2 :: real) ^ bit_length q \<le> 2 * of_int q"
      using bit_length_lower [OF q] by (metis of_int_le_iff of_int_mult of_int_numeral of_int_power)
    then have "(2 :: real) powi (int (bit_length q) + (e + int k)) \<le> 2 * (of_int q * 2 powi (e + int k))"
      by (simp add: power_int_add mult_right_mono)
    also have "\<dots> < 2 * 32768"
      using assms(4) unfolding val by simp
    finally have "(2 :: real) powi (int (bit_length q) + (e + int k)) < 2 powi 16"
      by simp
    then show ?thesis
      using power_int_increasing [of 16 "int (bit_length q) + (e + int k)" "2 :: real"] by force
  qed
  moreover have "f32_mul (Finite s m e) (f32_of_int 32768) = f32_round s (m * 2 ^ 15) e"
    by (simp add: f32_of_int_def)
  moreover have "round_shift (m * 2 ^ 15) k = q"
    unfolding split by (rule round_shift_exact)
  ultimately have "f32_mul (Finite s m e) (f32_of_int 32768) = Finite s q (e + int k)"
    unfolding f32_round_def Let_def k_def [symmetric] by force
  then show ?thesis
    using that val by blast
qed

lemma f32_to_int_trunc:
  assumes "\<bar>f32_real (Finite s q e)\<bar> < 32768" "0 \<le> q"
  shows "f32_to_int (Finite s q e) = Ret (trunc_real (f32_real (Finite s q e)))"
    "\<bar>trunc_real (f32_real (Finite s q e))\<bar> < 32768"
proof -
  let ?x = "of_int q * (2 :: real) powi e"
  have x: "0 \<le> ?x" "?x < 32768"
    using assms by (auto simp: abs_mult split: if_splits)
  then have f: "0 \<le> \<lfloor>?x\<rfloor>" "\<lfloor>?x\<rfloor> < 32768"
    by (simp_all add: floor_less_iff)
  have t: "trunc_real (f32_real (Finite s q e)) = (if s then - \<lfloor>?x\<rfloor> else \<lfloor>?x\<rfloor>)"
    using x by (auto simp: trunc_real_def ceiling_minus)
  show "f32_to_int (Finite s q e) = Ret (trunc_real (f32_real (Finite s q e)))"
    "\<bar>trunc_real (f32_real (Finite s q e))\<bar> < 32768"
    unfolding t f32_to_int.simps trunc_abs_floor Let_def using f by (simp_all split: if_split) linarith+
qed

lemma sint_s16: "- 32768 \<le> v \<Longrightarrow> v < 32768 \<Longrightarrow> sint (word_of_int v :: s16) = v"
  by (simp add: sint_sbintrunc' signed_take_bit_int_eq_self)

lemma f32_real_one: "f32_real (f32_of_int 1) = 1" "f32_real (f32_of_int (- 1)) = - 1"
  by (simp_all add: f32_of_int_def)

lemma trunc_real_mono: "x \<le> y \<Longrightarrow> trunc_real x \<le> trunc_real y"
  using order_trans [of "\<lceil>x\<rceil>" 0 "\<lfloor>y\<rfloor>"] by (auto simp: trunc_real_def floor_mono ceiling_mono)

lemma trunc_real_of_int [simp]: "trunc_real (of_int i) = i"
  by (simp add: trunc_real_def)

lemma s16_of_real_saturates:
  "1 \<le> x \<Longrightarrow> s16_of_real x = 32767" "x \<le> - 1 \<Longrightarrow> s16_of_real x = - 32768"
  using trunc_real_mono [of "of_int 32768" "x * 32768"] trunc_real_mono [of "x * 32768" "of_int (- 32768)"]
  by (simp_all only: trunc_real_of_int) (simp_all add: s16_of_real_def)

lemma float_to_s16_finite:
  assumes "f32_decode w = Finite s m e"
  shows "\<exists>v. capture_pw_float_to_s16 (Finite s m e) = Ret v \<and> sint v = s16_of_real (f32_real (Finite s m e))"
proof -
  let ?x = "f32_real (Finite s m e)"
  have cmp: "f32_le (f32_of_int 1) (Finite s m e) \<longleftrightarrow> 1 \<le> ?x"
    "f32_le (Finite s m e) (f32_of_int (- 1)) \<longleftrightarrow> ?x \<le> - 1"
    using f32_le_real f32_real_one unfolding f32_of_int_def by metis+
  consider "1 \<le> ?x" | "?x \<le> - 1" | "\<bar>?x\<bar> < 1"
    by linarith
  then show ?thesis
  proof cases
    case 1
    then show ?thesis
      by (simp add: capture_pw_float_to_s16_def cmp s16_of_real_saturates INT16_MAX_def del: f32_real.simps)
  next
    case 2
    then show ?thesis
      using sint_s16 [of "- 32768"]
      by (simp add: capture_pw_float_to_s16_def cmp s16_of_real_saturates INT16_MIN_def del: f32_real.simps)
  next
    case 3
    have m: "0 \<le> m" "m < 2 ^ 24" "- 149 \<le> e"
      using f32_decode_finite [OF assms] by auto
    then have "of_int m * (2 :: real) powi e < 1"
      using 3 by (auto simp: abs_mult split: if_splits)
    then obtain q e' where q: "f32_mul (Finite s m e) (f32_of_int 32768) = Finite s q e'"
      "of_int q * (2 :: real) powi e' = of_int m * 2 powi e * 32768"
      using f32_scale_exact [OF m] by metis
    then have r: "f32_real (Finite s q e') = ?x * 32768"
      by simp
    have "0 \<le> of_int q * (2 :: real) powi e'"
      using q(2) m(1) by simp
    then have "0 \<le> q"
      using zero_less_power_int [of "2 :: real" e'] by (metis of_int_0_le_iff zero_le_mult_iff not_le zero_less_numeral)
    moreover have "\<bar>f32_real (Finite s q e')\<bar> < 32768"
      using 3 unfolding r by (simp add: abs_mult del: f32_real.simps)
    ultimately have t: "f32_to_int (Finite s q e') = Ret (trunc_real (?x * 32768))"
      "\<bar>trunc_real (?x * 32768)\<bar> < 32768"
      using f32_to_int_trunc [of s q e'] unfolding r by blast+
    then have "f32_to_s16 (Finite s q e') = Ret (word_of_int (trunc_real (?x * 32768)))"
      by (auto simp: f32_to_s16_def simp del: f32_real.simps f32_to_int.simps)
    moreover have "sint (word_of_int (trunc_real (?x * 32768)) :: s16) = s16_of_real ?x"
      using t(2) sint_s16 [of "trunc_real (?x * 32768)"]
      by (simp add: s16_of_real_def del: f32_real.simps)
    ultimately show ?thesis
      using 3 by (auto simp: capture_pw_float_to_s16_def cmp q(1) simp del: f32_real.simps)
  qed
qed

lemma float_to_s16_cases:
  "capture_pw_float_to_s16 NaN = Fault Bad_Cast"
  "capture_pw_float_to_s16 (Infinite s) = Ret (if s then INT16_MIN else INT16_MAX)"
  by (simp_all add: capture_pw_float_to_s16_def f32_of_int_def f32_to_s16_def)

section \<open>The conversion loop\<close>

text \<open>The 16-bit sample of a float sample that is not NaN.\<close>

definition sample_s16 :: "u32 \<Rightarrow> s16" where
  "sample_s16 w = (case capture_pw_float_to_s16 (f32_decode w) of Ret v \<Rightarrow> v | _ \<Rightarrow> 0)"

definition samples_ok :: "u32 list \<Rightarrow> bool" where
  "samples_ok ws \<longleftrightarrow> list_all (\<lambda>w. f32_decode w \<noteq> NaN) ws"

lemma float_to_s16_sample:
  "f32_decode w \<noteq> NaN \<Longrightarrow> capture_pw_float_to_s16 (f32_decode w) = Ret (sample_s16 w)"
  using float_to_s16_finite [of w] float_to_s16_cases
  by (cases "f32_decode w") (auto simp: sample_s16_def)

lemma convert_loop_ok:
  assumes "samples_ok ws" "n \<le> length ws" "n \<le> length buf" "i \<le> n"
  shows "convert_loop ws n i buf =
    Ret (take i buf @ map sample_s16 (drop i (take n ws)) @ drop n buf)"
  using assms
proof (induction "n - i" arbitrary: i buf)
  case 0
  then show ?case
    by (simp add: convert_loop.simps)
next
  case (Suc d)
  then have i: "i < n" "i < length ws" "i < length buf" "i < length (take n ws)"
    by simp_all
  have "f32_decode (ws ! i) \<noteq> NaN"
    using Suc.prems(1) i(2) by (simp add: samples_ok_def list_all_length)
  then have "convert_loop ws n i buf = convert_loop ws n (Suc i) (buf[i := sample_s16 (ws ! i)])"
    using i by (subst convert_loop.simps) (simp add: nth_o_def update_o_def float_to_s16_sample)
  also have "\<dots> = Ret (take (Suc i) (buf[i := sample_s16 (ws ! i)]) @
      map sample_s16 (drop (Suc i) (take n ws)) @ drop n (buf[i := sample_s16 (ws ! i)]))"
    using Suc.hyps Suc.prems i by (intro Suc.hyps(1)) simp_all
  also have "take (Suc i) (buf[i := sample_s16 (ws ! i)]) = take i buf @ [sample_s16 (ws ! i)]"
    using i by (simp add: take_Suc_conv_app_nth)
  also have "drop n (buf[i := sample_s16 (ws ! i)]) = drop n buf"
    using i by simp
  finally show ?case
    using Cons_nth_drop_Suc [OF i(4)] i by (simp add: nth_take) (metis list.simps(9))
qed

section \<open>Frames of a chunk\<close>

lemma length_samples_bytes [simp]: "length (samples_bytes xs) = 2 * length xs"
  by (induction xs) (simp_all add: samples_bytes_def s16_bytes_def)

lemma samples_bytes_append [simp]: "samples_bytes (xs @ ys) = samples_bytes xs @ samples_bytes ys"
  by (simp add: samples_bytes_def)

lemma chunks_append: "n * k \<le> length xs \<Longrightarrow> chunks k (xs @ ys) n = chunks k xs n"
proof (rule nth_equalityI)
  fix i
  assume "n * k \<le> length xs" "i < length (chunks k (xs @ ys) n)"
  then show "chunks k (xs @ ys) n ! i = chunks k xs n ! i"
    using item_end_le [of i n k] by (simp add: chunk_def)
qed simp

text \<open>The interleaved 16-bit frames of the first \<open>n\<close> frames of float samples.\<close>

definition pcm_frames :: "nat \<Rightarrow> nat \<Rightarrow> u32 list \<Rightarrow> byte list list" where
  "pcm_frames ch n ws = chunks (2 * ch) (samples_bytes (map sample_s16 (take (n * ch) ws))) n"

definition chunk_frames :: "u32 \<Rightarrow> u32 \<Rightarrow> nat" where
  "chunk_frames chunk_size channels = unat chunk_size div (4 * unat channels)"

lemma frame_count:
  fixes chunk_size channels :: u32
  defines "n \<equiv> ucast ((ucast chunk_size :: u64) div (4 * ucast channels)) :: u32"
  assumes ch: "channels \<noteq> 0"
  shows "unat n = chunk_frames chunk_size channels"
    "unat (n * channels) = chunk_frames chunk_size channels * unat channels"
    "4 * (chunk_frames chunk_size channels * unat channels) \<le> unat chunk_size"
proof -
  have "unat (4 * ucast channels :: u64) = 4 * unat channels"
    using unat_lt_32 [of channels] by (subst unat_mult_small) simp_all
  then have q: "unat ((ucast chunk_size :: u64) div (4 * ucast channels)) = chunk_frames chunk_size channels"
    by (simp add: unat_div_distrib chunk_frames_def)
  have "chunk_frames chunk_size channels \<le> unat chunk_size"
    by (simp add: chunk_frames_def)
  then have "chunk_frames chunk_size channels < 2 ^ 32"
    using unat_lt_32 [of chunk_size] by simp
  then show n: "unat n = chunk_frames chunk_size channels"
    unfolding n_def by (simp add: unsigned_ucast_eq q take_bit_nat_eq_self)
  have "chunk_frames chunk_size channels * (4 * unat channels) \<le> unat chunk_size"
    unfolding chunk_frames_def by (rule div_times_less_eq_dividend)
  then show le: "4 * (chunk_frames chunk_size channels * unat channels) \<le> unat chunk_size"
    by (simp add: ac_simps)
  then show "unat (n * channels) = chunk_frames chunk_size channels * unat channels"
    using unat_lt_32 [of chunk_size] by (subst unat_mult_small) (simp_all add: n)
qed

section \<open>Invariant of a session\<close>

text \<open>The ring of a context holds frames of the published channel count.\<close>

definition audio_wf :: "audio_context \<Rightarrow> bool" where
  "audio_wf ac \<longleftrightarrow> \<not> ac_format_lock ac \<and>
     (case ac_ring_buffer ac of
        None \<Rightarrow> True
      | Some r \<Rightarrow> ring_wf r \<and> \<not> rb_lock r \<and> unat (rb_item_size r) = 2 * unat (ac_channels ac))"

definition convert_wf :: "capture_pw_session \<Rightarrow> bool" where
  "convert_wf s \<longleftrightarrow>
     (case pw_convert_buffer s of
        None \<Rightarrow> pw_convert_buffer_samples s = 0
      | Some xs \<Rightarrow> length xs = unat (pw_convert_buffer_samples s))"

definition pw_wf :: "capture_pw_session \<Rightarrow> bool" where
  "pw_wf s \<longleftrightarrow> convert_wf s \<and> pw_client_connected s \<noteq> None \<and>
     (case pw_audio_context s of None \<Rightarrow> False | Some ac \<Rightarrow> audio_wf ac)"

text \<open>The part of a session the processing of a buffer leaves alone.\<close>

definition pw_rest :: "capture_pw_session \<Rightarrow> capture_pw_session" where
  "pw_rest s = s\<lparr>pw_audio_context := None, pw_dropped_frames := 0, pw_convert_buffer := None,
     pw_convert_buffer_samples := 0\<rparr>"

lemma pw_wfE:
  assumes "pw_wf s"
  obtains ac c where "pw_audio_context s = Some ac" "audio_wf ac" "pw_client_connected s = Some c"
    "convert_wf s"
  using assms by (auto simp: pw_wf_def split: option.splits)

lemma audio_wfD:
  assumes "audio_wf ac" "ac_ring_buffer ac = Some r"
  shows "ring_wf r" "\<not> rb_lock r" "unat (rb_item_size r) = 2 * unat (ac_channels ac)"
  using assms by (simp_all add: audio_wf_def)

lemma audio_wf_ring:
  "audio_wf ac \<Longrightarrow> ring_wf r \<Longrightarrow> \<not> rb_lock r \<Longrightarrow> unat (rb_item_size r) = 2 * unat (ac_channels ac) \<Longrightarrow>
   audio_wf (ac\<lparr>ac_ring_buffer := Some r\<rparr>)"
  by (simp add: audio_wf_def)

text \<open>What a write of \<open>n\<close> frames makes of the ring: nothing once it is closed.\<close>

definition ring_after :: "ring_buffer \<Rightarrow> byte list list \<Rightarrow> byte list list" where
  "ring_after r fs = (if rb_closed r then ring_items r else lossy_append (ring_cap r) (ring_items r) fs)"

lemma count_dropped_frame [simp]:
  "pw_rest (count_dropped w n s) = pw_rest s"
  "pw_audio_context (count_dropped w n s) = pw_audio_context s"
  "pw_convert_buffer (count_dropped w n s) = pw_convert_buffer s"
  "pw_convert_buffer_samples (count_dropped w n s) = pw_convert_buffer_samples s"
  by (simp_all add: count_dropped_def pw_rest_def)

lemma pw_set_ring_frame [simp]:
  "pw_rest (pw_set_ring r s) = pw_rest s"
  "pw_audio_context (pw_set_ring r s) = map_option (\<lambda>ac. ac\<lparr>ac_ring_buffer := r\<rparr>) (pw_audio_context s)"
  "pw_convert_buffer (pw_set_ring r s) = pw_convert_buffer s"
  "pw_convert_buffer_samples (pw_set_ring r s) = pw_convert_buffer_samples s"
  "pw_running (pw_set_ring r s) = pw_running s"
  "pw_dropped_frames (pw_set_ring r s) = pw_dropped_frames s"
  by (simp_all add: pw_set_ring_def pw_rest_def)

lemma count_dropped_frames:
  assumes "unat w = min (unat n) c"
  shows "pw_dropped_frames (count_dropped w n s) =
    pw_dropped_frames s + (if pw_running s \<noteq> 0 then of_nat (unat n - c) else 0)"
proof (cases "c < unat n")
  case True
  then have w: "w < n" "unat (n - w) = unat n - c"
    using assms by (simp_all add: word_less_nat_alt unat_minus_ge)
  have "ucast (n - w) = (of_nat (unat n - c) :: u64)"
    unfolding w(2) [symmetric] by (rule of_nat_unat [symmetric])
  with w(1) show ?thesis
    by (simp add: count_dropped_def)
next
  case False
  then have "\<not> w < n"
    using assms by (simp add: word_less_nat_alt)
  then show ?thesis
    using False by (simp add: count_dropped_def)
qed

lemma pw_write_ok:
  assumes ac: "pw_audio_context s = Some ac" "ac_ring_buffer ac = Some r" "audio_wf ac"
    and n: "unat n_frames * (2 * unat (ac_channels ac)) \<le> length (samples_bytes buf)"
    and len: "length (samples_bytes buf) < 2 ^ 64" and nz: "n_frames \<noteq> 0"
  obtains s' r' where "pw_write r n_frames buf s = Ret s'" "pw_rest s' = pw_rest s"
    "pw_audio_context s' = Some (ac\<lparr>ac_ring_buffer := Some r'\<rparr>)" "audio_wf (ac\<lparr>ac_ring_buffer := Some r'\<rparr>)"
    "pw_convert_buffer s' = pw_convert_buffer s" "pw_convert_buffer_samples s' = pw_convert_buffer_samples s"
    "ring_items r' = ring_after r (chunks (ring_isz r) (samples_bytes buf) (unat n_frames))"
    "rb_closed r' = rb_closed r" "rb_capacity r' = rb_capacity r"
    "\<not> rb_closed r \<longrightarrow> pw_dropped_frames s' = pw_dropped_frames s +
       (if pw_running s \<noteq> 0 then of_nat (unat n_frames - ring_cap r) else 0)"
proof -
  note wf = audio_wfD [OF ac(3,2)]
  show ?thesis
  proof (cases "rb_closed r")
    case True
    then have w: "ring_buffer_write (Some r) (Some (samples_bytes buf)) n_frames = Ret (0, Some r)"
      using wf by (simp add: ring_buffer_write_closed)
    then have "pw_write r n_frames buf s = Ret (count_dropped 0 n_frames (pw_set_ring (Some r) s))"
      by (simp add: pw_write_def)
    then show ?thesis
      by (rule that [of _ r]) (use True ac in \<open>simp_all add: ring_after_def audio_wf_def\<close>)
  next
    case False
    from n have d: "unat n_frames * ring_isz r \<le> length (samples_bytes buf)"
      by (simp only: wf(3))
    obtain m r' where w: "ring_buffer_write (Some r) (Some (samples_bytes buf)) n_frames = Ret (m, Some r')"
      and m: "unat m = min (unat n_frames) (ring_cap r)" and r': "ring_wf r'" "\<not> rb_lock r'" "\<not> rb_closed r'"
        "rb_capacity r' = rb_capacity r" "rb_item_size r' = rb_item_size r"
        "ring_items r' = lossy_append (ring_cap r) (ring_items r)
           (chunks (ring_isz r) (samples_bytes buf) (unat n_frames))"
      by (rule ring_buffer_write_ok [OF wf(1) False wf(2) nz d len])
    then have "pw_write r n_frames buf s = Ret (count_dropped m n_frames (pw_set_ring (Some r') s))"
      by (simp add: pw_write_def)
    then show ?thesis
      by (rule that [of _ r'])
        (use False ac r' wf(3) in \<open>simp_all add: ring_after_def audio_wf_ring count_dropped_frames [OF m]\<close>)
  qed
qed

text \<open>Growing the conversion buffer: it fails only when \<^verbatim>\<open>realloc\<close> does, and then nothing changes.\<close>

lemma pw_grow_ok:
  assumes "convert_wf s" "pw_grow al n s = Some s'"
  shows "convert_wf s'" "pw_rest s' = pw_rest s" "pw_audio_context s' = pw_audio_context s"
    "pw_running s' = pw_running s" "pw_dropped_frames s' = pw_dropped_frames s"
    "n \<noteq> 0 \<Longrightarrow> \<exists>xs. pw_convert_buffer s' = Some xs \<and> unat n \<le> length xs"
  using assms
  by (auto simp: pw_grow_def convert_wf_def realloc_samples_def pw_rest_def word_le_nat_alt not_less
      word_less_nat_alt unat_eq_0 split: if_splits option.splits)

definition pw_room :: "pw_alloc \<Rightarrow> u32 \<Rightarrow> capture_pw_session \<Rightarrow> bool" where
  "pw_room al n s \<longleftrightarrow> pa_realloc_ok al \<or> n \<le> pw_convert_buffer_samples s"

lemma pw_grow_room: "pw_grow al n s = None \<longleftrightarrow> \<not> pw_room al n s"
  by (auto simp: pw_grow_def pw_room_def)

text \<open>A chunk of \<open>n\<close> frames that fits the mapped data: the ring gets its frames.\<close>

lemma pw_convert_ok:
  assumes ac: "pw_audio_context s = Some ac" "ac_ring_buffer ac = Some r" "audio_wf ac" "convert_wf s"
    and n: "unat total_samples = unat n_frames * unat (ac_channels ac)" "total_samples \<noteq> 0"
    and data: "unat total_samples \<le> length ws" "samples_ok ws" and room: "pw_room al total_samples s"
  obtains s' r' where "pw_convert al r ws n_frames total_samples s = Ret s'" "pw_rest s' = pw_rest s"
    "pw_audio_context s' = Some (ac\<lparr>ac_ring_buffer := Some r'\<rparr>)" "audio_wf (ac\<lparr>ac_ring_buffer := Some r'\<rparr>)"
    "convert_wf s'"
    "ring_items r' = ring_after r (pcm_frames (unat (ac_channels ac)) (unat n_frames) ws)"
    "rb_closed r' = rb_closed r" "rb_capacity r' = rb_capacity r"
    "\<not> rb_closed r \<longrightarrow> pw_dropped_frames s' = pw_dropped_frames s +
       (if pw_running s \<noteq> 0 then of_nat (unat n_frames - ring_cap r) else 0)"
proof -
  note wf = audio_wfD [OF ac(3,2)]
  let ?t = "unat total_samples"
  obtain s1 where s1: "pw_grow al total_samples s = Some s1"
    using room pw_grow_room [of al total_samples s] by auto
  note g = pw_grow_ok [OF ac(4) s1]
  obtain xs where xs: "pw_convert_buffer s1 = Some xs" "?t \<le> length xs"
    using g(6) n(2) by blast
  define buf where "buf = map sample_s16 (take ?t ws) @ drop ?t xs"
  have conv: "convert_loop ws ?t 0 xs = Ret buf"
    using convert_loop_ok [OF data(2,1) xs(2), of 0] by (simp add: buf_def)
  have len: "length buf = unat (pw_convert_buffer_samples s1)"
    using g(1) xs data(1) by (simp add: buf_def convert_wf_def)
  let ?s2 = "s1\<lparr>pw_convert_buffer := Some buf\<rparr>"
  have nf: "unat n_frames * (2 * unat (ac_channels ac)) \<le> length (samples_bytes buf)"
    using n(1) data(1) by (simp add: buf_def)
  have small: "length (samples_bytes buf) < 2 ^ 64"
    using len unat_lt_32 [of "pw_convert_buffer_samples s1"] by simp
  have nz: "n_frames \<noteq> 0" and ctx: "pw_audio_context ?s2 = Some ac"
    using n ac(1) g(3) by (auto simp: unat_eq_0 [symmetric])
  obtain s' r' where s': "pw_write r n_frames buf ?s2 = Ret s'" "pw_rest s' = pw_rest ?s2"
    "pw_audio_context s' = Some (ac\<lparr>ac_ring_buffer := Some r'\<rparr>)" "audio_wf (ac\<lparr>ac_ring_buffer := Some r'\<rparr>)"
    "pw_convert_buffer s' = pw_convert_buffer ?s2" "pw_convert_buffer_samples s' = pw_convert_buffer_samples ?s2"
    "ring_items r' = ring_after r (chunks (ring_isz r) (samples_bytes buf) (unat n_frames))"
    "rb_closed r' = rb_closed r" "rb_capacity r' = rb_capacity r"
    "\<not> rb_closed r \<longrightarrow> pw_dropped_frames s' = pw_dropped_frames ?s2 +
       (if pw_running ?s2 \<noteq> 0 then of_nat (unat n_frames - ring_cap r) else 0)"
    by (rule pw_write_ok [OF ctx ac(2,3) nf small nz])
  have "pw_convert al r ws n_frames total_samples s = Ret s'"
    by (simp add: pw_convert_def s1 xs(1) conv s'(1))
  moreover have "chunks (ring_isz r) (samples_bytes buf) (unat n_frames) =
      pcm_frames (unat (ac_channels ac)) (unat n_frames) ws"
    unfolding buf_def pcm_frames_def samples_bytes_append wf(3)
    using n(1) data(1) by (subst chunks_append) simp_all
  moreover have "pw_rest ?s2 = pw_rest s1" "convert_wf s'"
    using s'(5,6) len by (simp_all add: pw_rest_def convert_wf_def)
  ultimately show ?thesis
    using that [of s' r'] s' g by simp
qed

lemma pw_convert_no_room:
  "\<not> pw_room al total_samples s \<Longrightarrow> pw_convert al r ws n_frames total_samples s = Ret s"
  using pw_grow_room [of al total_samples s] by (simp add: pw_convert_def)

section \<open>The callbacks keep the invariant\<close>

text \<open>What PipeWire promises about a buffer: its chunk lies inside its mapped data. NaN samples
  are excluded, on them the conversion is undefined.\<close>

definition buffer_ok :: "pw_buffer \<Rightarrow> bool" where
  "buffer_ok b \<longleftrightarrow>
     (case (pb_data b, pb_chunk_size b) of
        (Some ws, Some n) \<Rightarrow> samples_ok ws \<and> unat n \<le> 4 * length ws
      | _ \<Rightarrow> True)"

text \<open>The invariant while the stream has \<open>ch\<close> channels, and what no callback changes.\<close>

definition pw_inv :: "u32 \<Rightarrow> capture_pw_session \<Rightarrow> bool" where
  "pw_inv ch s \<longleftrightarrow> pw_wf s \<and>
     (\<forall>ac r. pw_audio_context s = Some ac \<longrightarrow> ac_ring_buffer ac = Some r \<longrightarrow> ac_channels ac = ch)"

lemma pw_call_frame [simp]:
  "pw_wf (pw_call c s) = pw_wf s" "pw_inv ch (pw_call c s) = pw_inv ch s"
  "pw_stream (pw_call c s) = pw_stream s" "pw_loop (pw_call c s) = pw_loop s"
  "pw_log (pw_call c s) = pw_log s @ [c]" "pw_audio_context (pw_call c s) = pw_audio_context s"
  "pw_convert_buffer (pw_call c s) = pw_convert_buffer s"
  "pw_dropped_frames (pw_call c s) = pw_dropped_frames s"
  by (simp_all add: pw_call_def pw_wf_def pw_inv_def convert_wf_def cong: option.case_cong)

lemma pw_restD:
  assumes "pw_rest s' = pw_rest s"
  shows "pw_stream s' = pw_stream s" "pw_loop s' = pw_loop s" "pw_log s' = pw_log s"
    "pw_client_connected s' = pw_client_connected s"
proof -
  have "pw_stream (pw_rest s') = pw_stream (pw_rest s)" "pw_loop (pw_rest s') = pw_loop (pw_rest s)"
    "pw_log (pw_rest s') = pw_log (pw_rest s)"
    "pw_client_connected (pw_rest s') = pw_client_connected (pw_rest s)"
    using assms by simp_all
  then show "pw_stream s' = pw_stream s" "pw_loop s' = pw_loop s" "pw_log s' = pw_log s"
      "pw_client_connected s' = pw_client_connected s"
    by (simp_all add: pw_rest_def)
qed

lemma pw_chunk_captures:
  assumes ac: "pw_audio_context s = Some ac" "ac_ring_buffer ac = Some r" "audio_wf ac" "convert_wf s"
    and ch: "ac_channels ac \<noteq> 0" and n: "chunk_frames chunk_size (ac_channels ac) \<noteq> 0"
    and data: "unat chunk_size \<le> 4 * length ws" "samples_ok ws"
    and room: "pw_room al (of_nat (chunk_frames chunk_size (ac_channels ac)) * ac_channels ac) s"
  obtains s' r' where "pw_chunk al ws chunk_size s = Ret s'" "pw_rest s' = pw_rest s"
    "pw_audio_context s' = Some (ac\<lparr>ac_ring_buffer := Some r'\<rparr>)" "audio_wf (ac\<lparr>ac_ring_buffer := Some r'\<rparr>)"
    "convert_wf s'"
    "ring_items r' = ring_after r (pcm_frames (unat (ac_channels ac)) (chunk_frames chunk_size (ac_channels ac)) ws)"
    "rb_closed r' = rb_closed r" "rb_capacity r' = rb_capacity r"
    "\<not> rb_closed r \<longrightarrow> pw_dropped_frames s' = pw_dropped_frames s +
       (if pw_running s \<noteq> 0 then of_nat (chunk_frames chunk_size (ac_channels ac) - ring_cap r) else 0)"
proof -
  let ?n = "ucast ((ucast chunk_size :: u64) div (4 * ucast (ac_channels ac))) :: u32"
  note fc = frame_count [OF ch, of chunk_size]
  have tot: "unat (?n * ac_channels ac) = unat ?n * unat (ac_channels ac)"
    using fc by simp
  have nz: "?n * ac_channels ac \<noteq> 0"
    using fc(2) n ch by (metis mult_eq_0_iff unat_0 unat_eq_0)
  have len: "unat (?n * ac_channels ac) \<le> length ws"
    using fc(2,3) data(1) by simp
  have "of_nat (chunk_frames chunk_size (ac_channels ac)) = ?n"
    unfolding fc(1) [symmetric] by (simp only: of_nat_unat ucast_id)
  with room have room': "pw_room al (?n * ac_channels ac) s"
    by simp
  obtain s' r' where "pw_convert al r ws ?n (?n * ac_channels ac) s = Ret s'" "pw_rest s' = pw_rest s"
    "pw_audio_context s' = Some (ac\<lparr>ac_ring_buffer := Some r'\<rparr>)" "audio_wf (ac\<lparr>ac_ring_buffer := Some r'\<rparr>)"
    "convert_wf s'"
    "ring_items r' = ring_after r (pcm_frames (unat (ac_channels ac)) (unat ?n) ws)"
    "rb_closed r' = rb_closed r" "rb_capacity r' = rb_capacity r"
    "\<not> rb_closed r \<longrightarrow> pw_dropped_frames s' = pw_dropped_frames s +
       (if pw_running s \<noteq> 0 then of_nat (unat ?n - ring_cap r) else 0)"
    by (rule pw_convert_ok [OF ac tot nz len data(2) room'])
  moreover have "?n \<noteq> 0"
    using fc(1) n by (metis unat_0)
  ultimately show ?thesis
    using that [of s' r'] ac(1,2) ch unfolding fc(1)
    by (simp add: pw_chunk_def capture_pw_ring_buffer_def Let_def)
qed

lemma pw_chunk_inv:
  assumes "pw_inv ch s" "unat chunk_size \<le> 4 * length ws" "samples_ok ws"
  shows "\<exists>s'. pw_chunk al ws chunk_size s = Ret s' \<and> pw_inv ch s' \<and> pw_rest s' = pw_rest s"
proof -
  obtain ac c where ac: "pw_audio_context s = Some ac" "audio_wf ac" "pw_client_connected s = Some c" "convert_wf s"
    using assms(1) by (auto simp: pw_inv_def elim: pw_wfE)
  show ?thesis
  proof (cases "ac_ring_buffer ac")
    case None
    then show ?thesis
      using ac assms(1) by (simp add: pw_chunk_def capture_pw_ring_buffer_def Let_def)
  next
    case (Some r)
    let ?n = "chunk_frames chunk_size (ac_channels ac)"
    let ?w = "ucast ((ucast chunk_size :: u64) div (4 * ucast (ac_channels ac))) :: u32"
    consider "ac_channels ac = 0 \<or> ?w = 0"
      | "ac_channels ac \<noteq> 0" "?w \<noteq> 0" "\<not> pw_room al (?w * ac_channels ac) s"
      | "ac_channels ac \<noteq> 0" "?w \<noteq> 0" "pw_room al (?w * ac_channels ac) s"
      by blast
    then show ?thesis
    proof cases
      case 3
      have w: "unat ?w = ?n" "of_nat ?n = ?w" "?n \<noteq> 0"
        using frame_count(1) [OF 3(1), of chunk_size] 3(2)
        by (simp_all flip: frame_count(1) [OF 3(1), of chunk_size] add: unat_eq_0)
      obtain s' r' where s': "pw_chunk al ws chunk_size s = Ret s'" "pw_rest s' = pw_rest s"
        "pw_audio_context s' = Some (ac\<lparr>ac_ring_buffer := Some r'\<rparr>)" "audio_wf (ac\<lparr>ac_ring_buffer := Some r'\<rparr>)"
        "convert_wf s'"
        by (rule pw_chunk_captures [OF ac(1) Some ac(2,4) 3(1) w(3) assms(2,3)]) (use 3(3) w(2) in simp_all)
      have "ac_channels ac = ch"
        using assms(1) ac(1) Some by (simp add: pw_inv_def)
      then have "pw_inv ch s'"
        using s'(3-5) ac(3) pw_restD(4) [OF s'(2)] by (simp add: pw_inv_def pw_wf_def)
      with s'(1,2) show ?thesis
        by blast
    qed (use ac Some assms(1) pw_convert_no_room in
        \<open>auto simp: pw_chunk_def capture_pw_ring_buffer_def Let_def\<close>)
  qed
qed

lemma on_process_inv:
  assumes "pw_inv ch s" "\<And>b. dequeued = Some b \<Longrightarrow> buffer_ok b"
  shows "\<exists>s'. on_process al dequeued s = Ret s' \<and> pw_inv ch s' \<and> pw_stream s' = pw_stream s \<and>
    pw_loop s' = pw_loop s \<and> pw_log s' = pw_log s @ map Queue_Buffer (case dequeued of None \<Rightarrow> [] | Some b \<Rightarrow> [b])"
proof (cases dequeued)
  case None
  then show ?thesis
    using assms(1) by (simp add: on_process_def)
next
  case (Some b)
  obtain c where c: "pw_client_connected s = Some c"
    using assms(1) by (auto simp: pw_inv_def elim: pw_wfE)
  have "\<exists>s'. process_buffer al b s = Ret s' \<and> pw_inv ch s' \<and> pw_rest s' = pw_rest s"
    using assms(1) assms(2) [OF Some] pw_chunk_inv [OF assms(1)] c
    by (auto simp: process_buffer_def buffer_ok_def split: option.splits)
  then obtain s' where "process_buffer al b s = Ret s'" "pw_inv ch s'" "pw_rest s' = pw_rest s"
    by blast
  then show ?thesis
    using Some pw_restD [of s' s] by (simp add: on_process_def)
qed

text \<open>The first format makes an empty open ring of half a second; no size overflows.\<close>

lemma format_ring_new:
  assumes "ac_ring_buffer ac = None" "format_ring al rate ch ac = Some (r, capacity)"
  shows "ring_wf r" "\<not> rb_lock r" "\<not> rb_closed r" "ring_items r = []" "unat (rb_item_size r) = 2 * unat ch"
    "rb_capacity r = capacity" "unat capacity = (if unat rate < 2 then 2048 else unat rate div 2)"
proof -
  define cap :: u32 where "cap = (if rate div 2 = 0 then 2048 else rate div 2)"
  have half: "unat (rate div 2) = unat rate div 2"
    by (simp add: unat_div_distrib)
  then have cap: "unat cap = (if unat rate < 2 then 2048 else unat rate div 2)"
    unfolding cap_def by (auto simp: unat_eq_0 [symmetric])
  obtain c m mu co where ok: "pa_ring_ok al = (c, m, mu, co)"
    by (cases "pa_ring_ok al")
  have "map_option (\<lambda>r. (r, cap)) (ring_buffer_init c m mu co (pa_ring_junk al) cap (ucast ch * 2))
      = Some (r, capacity)"
    using assms unfolding format_ring_def Let_def cap_def [symmetric] ok by auto
  then have init: "ring_buffer_init c m mu co (pa_ring_junk al) cap (ucast ch * 2) = Some r" "capacity = cap"
    by auto
  have isz: "unat (ucast ch * 2 :: u64) = unat ch * 2"
    using unat_lt_32 [of ch] by (subst unat_mult_small) simp_all
  have bound: "unat cap \<le> 2 ^ 31"
    using cap unat_lt_32 [of rate] by auto
  have "unat cap * unat (ucast ch * 2 :: u64) < 2 ^ 64"
  proof -
    have "unat cap \<le> 2147483647" "unat ch * 2 \<le> 8589934590"
      using cap unat_lt_32 [of rate] unat_lt_32 [of ch] by auto
    then have "unat cap * (unat ch * 2) \<le> 2147483647 * 8589934590"
      by (rule mult_le_mono)
    then show ?thesis
      unfolding isz by (rule le_less_trans) simp
  qed
  note wf = ring_buffer_init_wf [OF init(1) bound this]
  show "ring_wf r" "\<not> rb_lock r" "\<not> rb_closed r" "ring_items r = []" "unat (rb_item_size r) = 2 * unat ch"
    "rb_capacity r = capacity" "unat capacity = (if unat rate < 2 then 2048 else unat rate div 2)"
    using wf isz init(2) cap by simp_all
qed

text \<open>An accepted format whose channel count is the one of the ring.\<close>

definition param_ok :: "u32 \<Rightarrow> spa_pod option \<Rightarrow> bool" where
  "param_ok ch param \<longleftrightarrow> (case param of None \<Rightarrow> True | Some pod \<Rightarrow> sp_channels pod = Some ch)"

lemma format_ring_old: "ac_ring_buffer ac = Some r \<Longrightarrow>
    format_ring al rate ch ac = Some (r, ac_buffer_capacity_frames ac)"
  by (simp add: format_ring_def)

lemma pw_inv_context:
  "pw_inv ch s \<Longrightarrow> audio_wf ac \<Longrightarrow> ac_channels ac = ch \<Longrightarrow> pw_inv ch (s\<lparr>pw_audio_context := Some ac\<rparr>)"
  by (simp add: pw_inv_def pw_wf_def convert_wf_def cong: option.case_cong)

lemma publish_inv:
  assumes "pw_inv ch s" "pw_audio_context s = Some ac" "format_ring al rate ch ac = Some (r, capacity)"
  shows "\<exists>ac'. publish_format rate ch capacity (ac\<lparr>ac_ring_buffer := Some r\<rparr>) = Ret ac' \<and>
    audio_wf ac' \<and> ac_channels ac' = ch \<and> ac_ring_buffer ac' = Some r \<and> ac_format_ready ac' = 1"
proof -
  have ac: "audio_wf ac"
    using assms(1,2) by (simp add: pw_inv_def pw_wf_def)
  have "ring_wf r \<and> \<not> rb_lock r \<and> unat (rb_item_size r) = 2 * unat ch"
  proof (cases "ac_ring_buffer ac")
    case None
    then show ?thesis
      using format_ring_new [OF None assms(3)] by blast
  next
    case (Some r')
    then show ?thesis
      using assms audio_wfD [OF ac Some] by (auto simp: format_ring_old pw_inv_def)
  qed
  then show ?thesis
    using ac by (simp add: publish_format_def audio_wf_def)
qed

lemma parse_format_frame [simp]:
  "pw_inv ch (parse_format pod s) = pw_inv ch s"
  "pw_audio_context (parse_format pod s) = pw_audio_context s"
  "pw_stream (parse_format pod s) = pw_stream s" "pw_loop (parse_format pod s) = pw_loop s"
  "pw_log (parse_format pod s) = pw_log s"
  "sp_channels pod = Some c \<Longrightarrow> pw_raw_channels (parse_format pod s) = c"
  by (simp_all add: parse_format_def pw_inv_def pw_wf_def convert_wf_def cong: option.case_cong)

lemma pw_inv_media [simp]:
  "pw_inv ch (s\<lparr>pw_media_type := x, pw_media_subtype := y\<rparr>) = pw_inv ch s"
  "pw_inv ch (s\<lparr>pw_running := z\<rparr>) = pw_inv ch s"
  "pw_inv ch s \<Longrightarrow> pw_inv ch (s\<lparr>pw_client_connected := Some b\<rparr>)"
  by (auto simp: pw_inv_def pw_wf_def convert_wf_def cong: option.case_cong)

lemma on_stream_param_changed_inv:
  assumes "pw_inv ch s" "param_ok ch param"
  shows "\<exists>s'. on_stream_param_changed al i param s = Ret s' \<and> pw_inv ch s' \<and> pw_stream s' = pw_stream s \<and>
    pw_loop s' = pw_loop s \<and> pw_log s' = pw_log s"
proof (cases param)
  case None
  then show ?thesis
    using assms(1) by (simp add: on_stream_param_changed_def)
next
  case (Some pod)
  define s1 where "s1 = s\<lparr>pw_media_type := sp_media_type pod, pw_media_subtype := sp_media_subtype pod\<rparr>"
  have s1: "pw_inv ch s1" "pw_stream s1 = pw_stream s" "pw_loop s1 = pw_loop s" "pw_log s1 = pw_log s"
    using assms(1) by (simp_all add: s1_def)
  define s2 where "s2 = parse_format pod s1"
  have s2: "pw_inv ch s2" "pw_stream s2 = pw_stream s" "pw_loop s2 = pw_loop s" "pw_log s2 = pw_log s"
    "pw_raw_channels s2 = ch"
    using s1 assms(2) Some by (simp_all add: s2_def param_ok_def)
  obtain ac where ac: "pw_audio_context s2 = Some ac"
    using s2(1) by (auto simp: pw_inv_def elim: pw_wfE)
  show ?thesis
  proof (cases "i \<noteq> SPA_PARAM_Format \<or> sp_result pod < 0 \<or>
      pw_media_type s1 \<noteq> SPA_MEDIA_TYPE_audio \<or> pw_media_subtype s1 \<noteq> SPA_MEDIA_SUBTYPE_raw")
    case True
    then show ?thesis
      using Some assms(1) s1 by (auto simp: on_stream_param_changed_def Let_def s1_def [symmetric])
  next
    case False
    then have red: "on_stream_param_changed al i param s =
        (case format_ring al (pw_rate s2) ch ac of
           None \<Rightarrow> Ret s2
         | Some (r, capacity) \<Rightarrow>
             bindo (publish_format (pw_rate s2) ch capacity (ac\<lparr>ac_ring_buffer := Some r\<rparr>)) (\<lambda>ac.
             Ret (s2\<lparr>pw_audio_context := Some ac\<rparr>)))"
      using Some ac s2(5)
      by (simp add: on_stream_param_changed_def Let_def s1_def [symmetric] s2_def [symmetric]
          cong: option.case_cong)
    show ?thesis
    proof (cases "format_ring al (pw_rate s2) ch ac")
      case None
      then show ?thesis
        using red s2 by simp
    next
      case (Some p)
      obtain r capacity where p: "p = (r, capacity)"
        by (cases p)
      then show ?thesis
        using red Some publish_inv [OF s2(1) ac Some [unfolded p]] pw_inv_context [OF s2(1)] s2 by auto
    qed
  qed
qed

lemma capture_pw_ring_close:
  assumes "pw_inv ch s"
  obtains r s' where "ring_buffer_close (capture_pw_ring_buffer (Some s)) = Ret r" "s' = pw_set_ring r s"
    "pw_inv ch s'" "\<forall>ac r'. pw_audio_context s' = Some ac \<longrightarrow> ac_ring_buffer ac = Some r' \<longrightarrow> rb_closed r'"
proof -
  obtain ac where ac: "pw_audio_context s = Some ac" "audio_wf ac"
    using assms by (auto simp: pw_inv_def elim: pw_wfE)
  show ?thesis
  proof (cases "ac_ring_buffer ac")
    case None
    then have "capture_pw_ring_buffer (Some s) = None" "pw_set_ring None s = s"
      using ac(1) by (simp_all add: capture_pw_ring_buffer_def pw_set_ring_def)
    then show ?thesis
      using assms ac(1) None by (intro that [of None s]) (simp_all add: ring_buffer_close_def)
  next
    case (Some r)
    let ?r = "r\<lparr>rb_closed := True, rb_broadcasts := Suc (rb_broadcasts r)\<rparr>"
    have close: "ring_buffer_close (capture_pw_ring_buffer (Some s)) = Ret (Some ?r)"
      using ac audio_wfD [OF ac(2) Some] Some by (simp add: capture_pw_ring_buffer_def ring_buffer_close_ok)
    have "audio_wf (ac\<lparr>ac_ring_buffer := Some ?r\<rparr>)" "ac_channels ac = ch"
      using ac audio_wfD [OF ac(2) Some] assms Some by (simp_all add: audio_wf_ring pw_inv_def ring_wf_def)
    then have "pw_inv ch (pw_set_ring (Some ?r) s)"
      using pw_inv_context [OF assms, of "ac\<lparr>ac_ring_buffer := Some ?r\<rparr>"] ac(1) by (simp add: pw_set_ring_def)
    then show ?thesis
      using ac(1) by (intro that [OF close refl]) auto
  qed
qed

lemma do_quit_inv:
  assumes "pw_inv ch s"
  shows "\<exists>s'. do_quit s = Ret s' \<and> pw_inv ch s' \<and> pw_stream s' = pw_stream s \<and> pw_loop s' = pw_loop s \<and>
    pw_log s' = pw_log s @ [Loop_Quit]"
proof -
  have "pw_inv ch (s\<lparr>pw_running := 0\<rparr>)"
    using assms by simp
  then obtain r s' where "ring_buffer_close (capture_pw_ring_buffer (Some (s\<lparr>pw_running := 0\<rparr>))) = Ret r"
    "s' = pw_set_ring r (s\<lparr>pw_running := 0\<rparr>)" "pw_inv ch s'"
    by (rule capture_pw_ring_close)
  moreover have "pw_stream s' = pw_stream s \<and> pw_loop s' = pw_loop s \<and> pw_log s' = pw_log s"
    using calculation(2) by (simp add: pw_set_ring_def)
  ultimately show ?thesis
    by (auto simp: do_quit_def Let_def)
qed

section \<open>A whole run\<close>

text \<open>What a well-behaved PipeWire delivers on a stream of \<open>ch\<close> channels, the buffers it hands out
  until the loop ends, and whether it ends.\<close>

primrec event_ok :: "u32 \<Rightarrow> pw_event \<Rightarrow> bool" where
  "event_ok ch (Process al b) = (case b of None \<Rightarrow> True | Some b \<Rightarrow> buffer_ok b)"
| "event_ok ch (Param_Changed al i p) = param_ok ch p"
| "event_ok ch (Client_Connected c) = True"
| "event_ok ch Signal = True"
| "event_ok ch Cancelled = True"

primrec handed_out :: "pw_event list \<Rightarrow> pw_buffer list" where
  "handed_out [] = []"
| "handed_out (ev # evs) =
     (case ev of
        Process al b \<Rightarrow> (case b of None \<Rightarrow> [] | Some b \<Rightarrow> [b]) @ handed_out evs
      | Signal \<Rightarrow> []
      | Cancelled \<Rightarrow> []
      | _ \<Rightarrow> handed_out evs)"

definition run_ends :: "pw_event list \<Rightarrow> bool" where
  "run_ends evs \<longleftrightarrow> Signal \<in> set evs \<or> Cancelled \<in> set evs"

definition loop_result :: "u32 \<Rightarrow> capture_pw_session \<Rightarrow> pw_buffer list \<Rightarrow> (bool \<times> capture_pw_session) outcome \<Rightarrow> bool"
where
  "loop_result ch s bs res \<longleftrightarrow>
     (\<exists>c s'. res = Ret (c, s') \<and> pw_inv ch s' \<and> pw_stream s' = pw_stream s \<and> pw_loop s' = pw_loop s \<and>
        pw_log s' = pw_log s @ map Queue_Buffer bs @ (if c then [] else [Loop_Quit]))"

lemma pw_main_loop_run_inv:
  assumes "pw_inv ch s" "list_all (event_ok ch) evs"
  shows "if run_ends evs then loop_result ch s (handed_out evs) (pw_main_loop_run evs s)
    else pw_main_loop_run evs s = Block"
  using assms
proof (induction evs arbitrary: s)
  case Nil
  then show ?case
    by (simp add: run_ends_def)
next
  case (Cons ev evs)
  have step: ?case if "pw_main_loop_run (ev # evs) s = pw_main_loop_run evs s1" "pw_inv ch s1"
    "pw_stream s1 = pw_stream s" "pw_loop s1 = pw_loop s" "pw_log s1 = pw_log s @ map Queue_Buffer bs"
    "handed_out (ev # evs) = bs @ handed_out evs" "ev \<noteq> Signal" "ev \<noteq> Cancelled" for s1 bs
  proof -
    have ends: "run_ends (ev # evs) = run_ends evs"
      using that(7,8) by (auto simp: run_ends_def)
    have "loop_result ch s1 (handed_out evs) res \<Longrightarrow> loop_result ch s (bs @ handed_out evs) res" for res
      using that(3-5) by (auto simp: loop_result_def)
    then show ?thesis
      unfolding ends that(1,6) using Cons.IH [OF that(2)] Cons.prems(2) by simp
  qed
  show ?case
  proof (cases ev)
    case (Process al b)
    then have "\<And>b'. b = Some b' \<Longrightarrow> buffer_ok b'"
      using Cons.prems(2) by auto
    then obtain s1 where s1: "on_process al b s = Ret s1" "pw_inv ch s1" "pw_stream s1 = pw_stream s"
      "pw_loop s1 = pw_loop s"
      "pw_log s1 = pw_log s @ map Queue_Buffer (case b of None \<Rightarrow> [] | Some b \<Rightarrow> [b])"
      using on_process_inv [OF Cons.prems(1)] by blast
    then show ?thesis
      using Process by (intro step [OF _ s1(2-5)]) simp_all
  next
    case (Param_Changed al i p)
    then obtain s1 where s1: "on_stream_param_changed al i p s = Ret s1" "pw_inv ch s1"
      "pw_stream s1 = pw_stream s" "pw_loop s1 = pw_loop s" "pw_log s1 = pw_log s"
      using on_stream_param_changed_inv [OF Cons.prems(1)] Cons.prems(2) by fastforce
    then show ?thesis
      using Param_Changed by (intro step [of s1 "[]"]) simp_all
  next
    case (Client_Connected c)
    then show ?thesis
      using step [of "s\<lparr>pw_client_connected := Some c\<rparr>" "[]"] Cons.prems(1) by simp
  next
    case Signal
    then show ?thesis
      using do_quit_inv [OF Cons.prems(1)] by (auto simp: run_ends_def loop_result_def)
  next
    case Cancelled
    then show ?thesis
      using Cons.prems(1) unfolding loop_result_def run_ends_def by (auto intro: exI [of _ True])
  qed
qed

text \<open>Everything the session acquired is released, each thing once, and the reader of the ring
  will see the end of the stream.\<close>

definition pw_released :: "capture_pw_session \<Rightarrow> bool" where
  "pw_released s \<longleftrightarrow>
     count_list (pw_log s) Stream_Destroy = count_list (pw_log s) Stream_New \<and>
     count_list (pw_log s) Loop_Destroy = count_list (pw_log s) Loop_New \<and>
     count_list (pw_log s) Free_Session = 1 \<and>
     count_list (pw_log s) Free_Convert_Buffer = (if pw_convert_buffer s = None then 0 else 1) \<and>
     (case pw_audio_context s of None \<Rightarrow> True
      | Some ac \<Rightarrow> (case ac_ring_buffer ac of None \<Rightarrow> True | Some r \<Rightarrow> rb_closed r))"

definition requeued :: "capture_pw_session \<Rightarrow> pw_buffer list" where
  "requeued s = concat (map (\<lambda>c. case c of Queue_Buffer b \<Rightarrow> [b] | _ \<Rightarrow> []) (pw_log s))"

text \<open>Before the destruction: the log so far, with the stream and the loop still to be destroyed.\<close>

definition pw_running_log :: "capture_pw_session \<Rightarrow> pw_buffer list \<Rightarrow> bool" where
  "pw_running_log s bs \<longleftrightarrow>
     count_list (pw_log s) Stream_Destroy = 0 \<and> count_list (pw_log s) Loop_Destroy = 0 \<and>
     count_list (pw_log s) Free_Session = 0 \<and> count_list (pw_log s) Free_Convert_Buffer = 0 \<and>
     count_list (pw_log s) Pw_Deinit = 0 \<and>
     count_list (pw_log s) Stream_New = of_bool (pw_stream s) \<and>
     count_list (pw_log s) Loop_New = of_bool (pw_loop s) \<and> requeued s = bs"

lemma count_queued [simp]:
  "c \<notin> range Queue_Buffer \<Longrightarrow> count_list (map Queue_Buffer bs) c = 0"
  by (induction bs) auto

lemma count_append [simp]: "count_list (xs @ ys) c = count_list xs c + count_list ys c"
  by (induction xs) auto

lemma concat_queued [simp]:
  "concat (map (\<lambda>c. case c of Queue_Buffer b \<Rightarrow> [b] | _ \<Rightarrow> []) (map Queue_Buffer bs)) = bs"
  "concat (map ((\<lambda>c. case c of Queue_Buffer b \<Rightarrow> [b] | _ \<Rightarrow> []) \<circ> Queue_Buffer) bs) = bs"
  by (induction bs) auto

lemma pw_release_frame [simp]:
  "pw_log (pw_release s) = pw_log s @ (if pw_stream s then [Stream_Destroy] else []) @
     (if pw_loop s then [Loop_Destroy] else []) @ [Pw_Deinit] @
     (if pw_convert_buffer s = None then [] else [Free_Convert_Buffer]) @ [Free_Session]"
  "pw_audio_context (pw_release s) = pw_audio_context s"
  "pw_convert_buffer (pw_release s) = pw_convert_buffer s"
  by (simp_all add: pw_release_def pw_call_if_def Let_def)

lemma capture_pw_destroy_releases:
  assumes "pw_inv ch s" "pw_running_log s bs"
  shows "\<exists>s'. capture_pw_destroy (Some s) = Ret (Some s') \<and> pw_released s' \<and> requeued s' = bs \<and>
    count_list (pw_log s') Pw_Init = count_list (pw_log s) Pw_Init \<and> count_list (pw_log s') Pw_Deinit = 1"
proof -
  have "pw_inv ch (s\<lparr>pw_running := 0\<rparr>)"
    using assms(1) by simp
  then obtain r s1 where close: "ring_buffer_close (capture_pw_ring_buffer (Some (s\<lparr>pw_running := 0\<rparr>))) = Ret r"
    and s1: "s1 = pw_set_ring r (s\<lparr>pw_running := 0\<rparr>)" "pw_inv ch s1"
    and closed: "\<forall>ac r'. pw_audio_context s1 = Some ac \<longrightarrow> ac_ring_buffer ac = Some r' \<longrightarrow> rb_closed r'"
    by (rule capture_pw_ring_close)
  have kept: "pw_stream s1 = pw_stream s" "pw_loop s1 = pw_loop s" "pw_log s1 = pw_log s"
    using s1(1) by (simp_all add: pw_set_ring_def)
  let ?s = "pw_release s1"
  have "capture_pw_destroy (Some s) = Ret (Some ?s)"
    using close by (simp add: capture_pw_destroy_def s1(1))
  moreover have "pw_released ?s"
    unfolding pw_released_def
    using assms(2) closed kept by (simp add: pw_running_log_def split: option.split)
  moreover have "requeued ?s = bs" "count_list (pw_log ?s) Pw_Init = count_list (pw_log s) Pw_Init"
    "count_list (pw_log ?s) Pw_Deinit = 1"
    using assms(2) kept by (simp_all add: pw_running_log_def requeued_def)
  ultimately show ?thesis
    by blast
qed

definition pw_started :: "pw_env \<Rightarrow> bool" where
  "pw_started env \<longleftrightarrow> pe_loop_ok env \<and> pe_props_ok env \<and> pe_stream_ok env \<and> 0 \<le> pe_connect env"

lemma pw_inv_handles [simp]:
  "pw_inv ch (s\<lparr>pw_loop := x\<rparr>) = pw_inv ch s" "pw_inv ch (s\<lparr>pw_stream := x\<rparr>) = pw_inv ch s"
  by (simp_all add: pw_inv_def pw_wf_def convert_wf_def cong: option.case_cong)

lemma capture_pw_run_cases:
  assumes "pw_inv ch s" "pw_log s = []" "\<not> pw_stream s" "\<not> pw_loop s" "list_all (event_ok ch) (pe_events env)"
  shows "if pw_started env \<and> \<not> run_ends (pe_events env) then capture_pw_run env s = Block
    else \<exists>r s'. capture_pw_run env s = Ret (r, s') \<and> pw_inv ch s' \<and> (r = Some (- 1) \<longleftrightarrow> \<not> pw_started env) \<and>
      r \<in> {Some (- 1), Some 0, None} \<and> count_list (pw_log s') Pw_Init = 1 \<and>
      pw_running_log s' (if pw_started env then handed_out (pe_events env) else [])"
proof (cases "pw_started env")
  case False
  then consider "\<not> pe_loop_ok env" | "pe_loop_ok env" "\<not> pe_props_ok env"
    | "pe_loop_ok env" "pe_props_ok env" "\<not> pe_stream_ok env"
    | "pe_loop_ok env" "pe_props_ok env" "pe_stream_ok env" "pe_connect env < 0"
    by (force simp: pw_started_def)
  then show ?thesis
    using assms(1-4) False
    by cases (simp_all add: capture_pw_run_def pw_started_def Let_def pw_running_log_def requeued_def)
next
  case True
  define s1 where "s1 = pw_call Stream_Connect (pw_call Stream_New (pw_call Loop_New (pw_call Pw_Init s\<lparr>pw_loop := True\<rparr>)
    \<lparr>pw_stream := True\<rparr>)\<lparr>pw_running := 1\<rparr>)"
  have s1: "pw_inv ch s1" "pw_stream s1" "pw_loop s1" "pw_log s1 = [Pw_Init, Loop_New, Stream_New, Stream_Connect]"
    using assms(1,2) by (simp_all add: s1_def)
  have run: "capture_pw_run env s = bindo (pw_main_loop_run (pe_events env) s1) (\<lambda>(cancelled, s).
      Ret (if cancelled then None else Some 0, s))"
    using True by (simp add: capture_pw_run_def pw_started_def Let_def s1_def)
  show ?thesis
  proof (cases "run_ends (pe_events env)")
    case False
    then show ?thesis
      using pw_main_loop_run_inv [OF s1(1) assms(5)] True run by simp
  next
    case ends: True
    then obtain c s' where "pw_main_loop_run (pe_events env) s1 = Ret (c, s')" "pw_inv ch s'" "pw_stream s'"
      "pw_loop s'" "pw_log s' = pw_log s1 @ map Queue_Buffer (handed_out (pe_events env)) @ (if c then [] else [Loop_Quit])"
      using pw_main_loop_run_inv [OF s1(1) assms(5)] s1(2,3) by (auto simp: loop_result_def)
    then show ?thesis
      using run True ends s1(4) by (simp add: pw_running_log_def requeued_def image_iff)
  qed
qed

section \<open>Properties\<close>

text \<open>
  C32. Every sample PipeWire can deliver that is not NaN is converted without undefined behaviour:
  a finite sample becomes its value times 32768 with the fraction dropped, saturated to 16 bits
  (computed exactly: no rounding of the float product is visible), an infinity saturates, and only
  a NaN reaches the undefined cast.
\<close>

theorem float_to_s16_exact:
  "case f32_decode w of
     Finite s m e \<Rightarrow> (\<exists>v. capture_pw_float_to_s16 (f32_decode w) = Ret v \<and>
       sint v = max (- 32768) (min 32767 (trunc_real (f32_real (f32_decode w) * 32768))))
   | Infinite s \<Rightarrow> capture_pw_float_to_s16 (f32_decode w) = Ret (if s then INT16_MIN else INT16_MAX)
   | NaN \<Rightarrow> capture_pw_float_to_s16 (f32_decode w) = Fault Bad_Cast"
  using float_to_s16_finite [of w] float_to_s16_cases
  by (auto simp: s16_of_real_def simp del: f32_real.simps split: c_float.split)

text \<open>
  C33. A captured chunk reaches the ring: with a connected client, a well-formed session with an open ring, memory
  for the conversion and a buffer without NaN samples whose chunk lies inside its data, \<open>on_process\<close> returns, the ring
  then holds the newest of its frames followed by the frames of the chunk (16-bit, interleaved, as
  many whole frames as the chunk has), the counter of dropped frames grows by exactly the frames of
  the chunk that exceed the capacity, and the buffer goes back to PipeWire.
\<close>

theorem on_process_captures:
  assumes "pw_wf s" "pw_audio_context s = Some ac" "ac_ring_buffer ac = Some r" "\<not> rb_closed r"
    and "ac_channels ac \<noteq> 0" "pw_client_connected s = Some True" "pw_running s \<noteq> 0"
    and "pb_data b = Some ws" "pb_chunk_size b = Some chunk_size" "buffer_ok b"
    and "chunk_frames chunk_size (ac_channels ac) \<noteq> 0" "pa_realloc_ok al"
  shows "\<exists>s' r'. on_process al (Some b) s = Ret s' \<and> pw_wf s' \<and>
    capture_pw_ring_buffer (Some s') = Some r' \<and>
    ring_items r' = lossy_append (unat (rb_capacity r)) (ring_items r)
      (pcm_frames (unat (ac_channels ac)) (chunk_frames chunk_size (ac_channels ac)) ws) \<and>
    pw_dropped_frames s' = pw_dropped_frames s +
      of_nat (chunk_frames chunk_size (ac_channels ac) - unat (rb_capacity r)) \<and>
    pw_log s' = pw_log s @ [Queue_Buffer b]"
proof -
  have wf: "audio_wf ac" "convert_wf s"
    using assms(1,2) by (simp_all add: pw_wf_def)
  have data: "unat chunk_size \<le> 4 * length ws" "samples_ok ws"
    using assms(8-10) by (simp_all add: buffer_ok_def)
  have room: "pw_room al n s" for n
    using assms(12) by (simp add: pw_room_def)
  obtain s' r' where s': "pw_chunk al ws chunk_size s = Ret s'" "pw_rest s' = pw_rest s"
    "pw_audio_context s' = Some (ac\<lparr>ac_ring_buffer := Some r'\<rparr>)" "audio_wf (ac\<lparr>ac_ring_buffer := Some r'\<rparr>)"
    "convert_wf s'"
    "ring_items r' = ring_after r (pcm_frames (unat (ac_channels ac)) (chunk_frames chunk_size (ac_channels ac)) ws)"
    "\<not> rb_closed r \<longrightarrow> pw_dropped_frames s' = pw_dropped_frames s +
       (if pw_running s \<noteq> 0 then of_nat (chunk_frames chunk_size (ac_channels ac) - ring_cap r) else 0)"
    by (rule pw_chunk_captures [OF assms(2,3) wf assms(5,11) data room])
  have "on_process al (Some b) s = Ret (pw_call (Queue_Buffer b) s')"
    using assms(6,8,9) s'(1) by (simp add: on_process_def process_buffer_def)
  moreover have "pw_wf s'"
    using s'(3-5) assms(6) pw_restD(4) [OF s'(2)] by (auto simp: pw_wf_def)
  ultimately show ?thesis
    using s' assms(4,7) pw_restD(3) [OF s'(2)] by (simp add: capture_pw_ring_buffer_def ring_after_def)
qed

definition pw_example_ring :: ring_buffer where
  "pw_example_ring = \<lparr>rb_buffer = [1, 2, 3, 4], rb_capacity = 2, rb_item_size = 2,
     rb_read_pos = 1, rb_write_pos = 0, rb_items_available = 1, rb_closed = False,
     rb_lock = False, rb_signals = 0, rb_broadcasts = 0\<rparr>"

definition pw_example_context :: audio_context where
  "pw_example_context = \<lparr>ac_sample_rate = 4, ac_channels = 1, ac_buffer_capacity_frames = 2,
     ac_ring_buffer = Some pw_example_ring, ac_format_lock = False, ac_format_broadcasts = 0,
     ac_format_ready = 1\<rparr>"

definition pw_example :: capture_pw_session where
  "pw_example = capture_pw_zero\<lparr>pw_running := 1, pw_audio_context := Some pw_example_context,
     pw_client_connected := Some True\<rparr>"

definition pw_example_alloc :: pw_alloc where
  "pw_example_alloc = \<lparr>pa_realloc_ok = True, pa_junk = (\<lambda>_. 0), pa_ring_ok = (True, True, True, True),
     pa_ring_junk = (\<lambda>_. 0)\<rparr>"

text \<open>The samples 0.5, -0.25 and 2.0.\<close>

definition pw_example_buffer :: pw_buffer where
  "pw_example_buffer = \<lparr>pb_data = Some [0x3F000000, 0xBE800000, 0x40000000], pb_chunk_size = Some 12\<rparr>"

theorem on_process_captures_witness:
  "\<exists>s' r'. on_process pw_example_alloc (Some pw_example_buffer) pw_example = Ret s' \<and>
    capture_pw_ring_buffer (Some s') = Some r' \<and>
    ring_items r' = [[0x00, 0xE0], [0xFF, 0x7F]] \<and> pw_dropped_frames s' = 1"
proof -
  have wf: "pw_wf pw_example"
    by (simp add: pw_wf_def pw_example_def convert_wf_def capture_pw_zero_def audio_wf_def
        pw_example_context_def pw_example_ring_def ring_wf_def)
  have ctx: "pw_audio_context pw_example = Some pw_example_context"
    "ac_ring_buffer pw_example_context = Some pw_example_ring" "\<not> rb_closed pw_example_ring"
    "ac_channels pw_example_context \<noteq> 0" "pw_client_connected pw_example = Some True"
    "pw_running pw_example \<noteq> 0" "pb_data pw_example_buffer = Some [0x3F000000, 0xBE800000, 0x40000000]"
    "pb_chunk_size pw_example_buffer = Some 12" "pa_realloc_ok pw_example_alloc"
    by (simp_all add: pw_example_def pw_example_context_def pw_example_ring_def pw_example_buffer_def
        pw_example_alloc_def)
  have n: "chunk_frames 12 (ac_channels pw_example_context) = 3"
    by (simp add: chunk_frames_def pw_example_context_def)
  have ok: "buffer_ok pw_example_buffer"
    by (simp add: buffer_ok_def pw_example_buffer_def samples_ok_def f32_decode_def Let_def)
  have v: "lossy_append (unat (rb_capacity pw_example_ring)) (ring_items pw_example_ring)
      (pcm_frames (unat (ac_channels pw_example_context)) 3 [0x3F000000, 0xBE800000, 0x40000000])
      = [[0x00, 0xE0], [0xFF, 0x7F]]"
    by code_simp
  have d: "pw_dropped_frames pw_example + of_nat (3 - unat (rb_capacity pw_example_ring)) = 1"
    by (simp add: pw_example_def capture_pw_zero_def pw_example_ring_def)
  show ?thesis
    using on_process_captures [OF wf ctx(1-8) ok _ ctx(9)] v d by (auto simp: n)
qed

text \<open>
  C34. The whole life of a capture thread whose session was allocated and that starts without a ring and with its mutex
  free, whatever of its calls PipeWire fails and
  whatever sequence of buffers, formats, signals and cancellations it delivers, provided that no buffer holds a NaN
  sample, every chunk lies inside its data, and all formats have one channel count: the thread faults
  nowhere; it waits while no signal and no cancellation comes; otherwise it ends with the stream,
  the loop, the conversion buffer and the session released exactly once, the ring closed so that
  the encoder sees the end, and every buffer it took given back, in order. It returns -1 exactly
  when the set-up failed. PipeWire is shut down exactly once, also in a session that is not active, which never
  initialised it: the one release without an acquisition.
\<close>

theorem capture_pw_main_releases:
  assumes "list_all (event_ok ch) (pe_events env)" "ac_ring_buffer ac = None" "\<not> ac_format_lock ac"
  shows "if is_active \<and> pw_started env \<and> \<not> run_ends (pe_events env)
    then capture_pw_main True debug env (Some (is_active, conn, ac)) = Block
    else \<exists>ret s. capture_pw_main True debug env (Some (is_active, conn, ac)) = Ret (ret, Some s) \<and>
      pw_released s \<and> count_list (pw_log s) Pw_Deinit = 1 \<and> count_list (pw_log s) Pw_Init = of_bool is_active \<and>
      requeued s = (if is_active \<and> pw_started env then handed_out (pe_events env) else []) \<and>
      (ret = Some (- 1) \<longleftrightarrow> is_active \<and> \<not> pw_started env)"
proof -
  define s0 where "s0 = capture_pw_zero\<lparr>pw_audio_context := Some ac, pw_client_connected := Some conn, pw_debug := debug\<rparr>"
  have inv: "pw_inv ch s0"
    using assms(2,3)
    by (simp add: s0_def pw_inv_def pw_wf_def convert_wf_def capture_pw_zero_def audio_wf_def)
  have s0: "pw_log s0 = []" "\<not> pw_stream s0" "\<not> pw_loop s0"
    by (simp_all add: s0_def capture_pw_zero_def)
  show ?thesis
  proof (cases is_active)
    case False
    have "pw_running_log s0 []"
      using s0 by (simp add: pw_running_log_def requeued_def)
    then obtain s' where "capture_pw_destroy (Some s0) = Ret (Some s')" "pw_released s'" "requeued s' = []"
      "count_list (pw_log s') Pw_Init = 0" "count_list (pw_log s') Pw_Deinit = 1"
      using capture_pw_destroy_releases [OF inv] s0(1) by fastforce
    then show ?thesis
      using False by (simp add: capture_pw_main_def Let_def s0_def [symmetric])
  next
    case True
    then have main: "capture_pw_main True debug env (Some (is_active, conn, ac)) =
        bindo (capture_pw_run env s0) (\<lambda>(r, s).
          bindo (capture_pw_destroy (Some s)) (\<lambda>s.
          Ret (case r of None \<Rightarrow> None | Some r \<Rightarrow> Some (if r < 0 then - 1 else 0), s)))"
      by (simp add: capture_pw_main_def Let_def s0_def [symmetric] bindo_assoc case_prod_unfold)
    note run = capture_pw_run_cases [OF inv s0 assms(1)]
    show ?thesis
    proof (cases "pw_started env \<and> \<not> run_ends (pe_events env)")
      case True
      then show ?thesis
        using run main \<open>is_active\<close> by simp
    next
      case False
      then obtain r s' where "capture_pw_run env s0 = Ret (r, s')" "pw_inv ch s'"
        "r = Some (- 1) \<longleftrightarrow> \<not> pw_started env" "r \<in> {Some (- 1), Some 0, None}"
        "pw_running_log s' (if pw_started env then handed_out (pe_events env) else [])" "count_list (pw_log s') Pw_Init = 1"
        using run by (auto split: if_splits)
      then show ?thesis
        using capture_pw_destroy_releases [of ch s'] main \<open>is_active\<close> False by fastforce
    qed
  qed
qed

definition pw_example_env :: pw_env where
  "pw_example_env = \<lparr>pe_loop_ok = True, pe_props_ok = True, pe_stream_ok = True, pe_connect = 0,
     pe_events = [Param_Changed pw_example_alloc SPA_PARAM_Format
         (Some \<lparr>sp_result = 0, sp_media_type = SPA_MEDIA_TYPE_audio, sp_media_subtype = SPA_MEDIA_SUBTYPE_raw,
                sp_rate = Some 4, sp_channels = Some 1\<rparr>),
       Process pw_example_alloc (Some pw_example_buffer), Cancelled]\<rparr>"

theorem capture_pw_main_releases_witness:
  "\<exists>ret s. capture_pw_main True False pw_example_env
      (Some (True, True, pw_example_context\<lparr>ac_ring_buffer := None\<rparr>)) = Ret (ret, Some s) \<and>
    pw_released s \<and> requeued s = [pw_example_buffer] \<and> count_list (pw_log s) Pw_Init = 1 \<and>
    count_list (pw_log s) Pw_Deinit = 1 \<and> ret \<noteq> Some (- 1)"
proof -
  let ?ac = "pw_example_context\<lparr>ac_ring_buffer := None\<rparr>"
  have ok: "list_all (event_ok 1) (pe_events pw_example_env)"
    by (simp add: pw_example_env_def param_ok_def buffer_ok_def pw_example_buffer_def samples_ok_def
        f32_decode_def Let_def)
  have ac: "ac_ring_buffer ?ac = None" "\<not> ac_format_lock ?ac"
    by (simp_all add: pw_example_context_def)
  have "pw_started pw_example_env" "run_ends (pe_events pw_example_env)"
    "handed_out (pe_events pw_example_env) = [pw_example_buffer]"
    by (simp_all add: pw_started_def run_ends_def pw_example_env_def)
  then show ?thesis
    using capture_pw_main_releases [OF ok ac, of True False True] by auto
qed

text \<open>
  The restriction to one channel count is necessary: the ring is made for the frames of the first
  format. After a later format with fewer channels, a chunk is written with the old frame size, and
  the ring reads past the converted samples.
\<close>

definition stereo_context :: audio_context where
  "stereo_context = pw_example_context\<lparr>ac_channels := 2,
     ac_ring_buffer := Some (pw_example_ring\<lparr>rb_item_size := 4, rb_buffer := [1, 2, 3, 4, 5, 6, 7, 8]\<rparr>)\<rparr>"

lemma format_change_reads_past_samples:
  "bindo (on_stream_param_changed pw_example_alloc SPA_PARAM_Format
      (Some \<lparr>sp_result = 0, sp_media_type = SPA_MEDIA_TYPE_audio, sp_media_subtype = SPA_MEDIA_SUBTYPE_raw,
             sp_rate = Some 4, sp_channels = Some 1\<rparr>) (pw_example\<lparr>pw_audio_context := Some stereo_context\<rparr>))
     (on_process pw_example_alloc (Some (pw_example_buffer\<lparr>pb_chunk_size := Some 8\<rparr>))) = Fault Out_Of_Bounds"
  by code_simp

end
