(* ===== verification/Audio_Encode.thy ===== *)
theory Audio_Encode
  imports Capture_Pw Rbuf Framing C_Heap
begin

text \<open>
  The audio encoder thread, \<^verbatim>\<open>stratusd/Encode/src/AudioEncode.c\<close>: it waits for the audio format,
  reads frames from the audio ring in chunks of any size, cuts the stream into packets of 20 ms,
  encodes each with Opus and pushes the packet to the transport queue.

  Opus is a parameter (\<open>opus_lib\<close>) with an encoder state of any type \<open>'e\<close>. Sample memory is its
  bytes, as the ring copies it. The allocated blocks are the multiset \<open>ah_blocks\<close>; a queued packet is
  a record that carries its number, and owns two blocks of that number.
\<close>

section \<open>State\<close>

record 'e opus_lib =
  op_create :: "u32 \<Rightarrow> u32 \<Rightarrow> 'e option"
  op_configure :: "'e \<Rightarrow> 'e"
  op_encode :: "'e \<Rightarrow> byte list \<Rightarrow> u32 \<Rightarrow> 'e \<times> byte list option"

abbreviation FRAME_DURATION_MS :: u64 where "FRAME_DURATION_MS \<equiv> 20"
abbreviation MAX_PACKET_SIZE :: nat where "MAX_PACKET_SIZE \<equiv> 4000"

datatype audio_block =
    Encoder_Context
  | Opus_Encoder
  | Frame_Data
  | Pending_Frame
  | Packet_Struct nat
  | Packet_Data nat

record audio_heap =
  ah_blocks :: "audio_block heap"
  ah_next :: nat

record audio_transport_queue_frame =
  af_number :: nat
  af_length :: int
  af_data :: "byte list"

record 'e audio_encoder_context =
  ae_encoder :: 'e
  ae_sample_rate :: u32
  ae_channels :: u32
  ae_frame_size :: u32
  ae_debug :: bool

type_synonym audio_queue = "(audio_transport_queue_frame, audio_heap) rbuf"

definition ah_malloc :: "audio_block \<Rightarrow> audio_heap \<Rightarrow> audio_heap" where
  "ah_malloc b h = h\<lparr>ah_blocks := hmalloc b (ah_blocks h)\<rparr>"

definition ah_free :: "audio_block \<Rightarrow> audio_heap \<Rightarrow> audio_heap outcome" where
  "ah_free b h = bindo (hfree b (ah_blocks h)) (\<lambda>bs. Ret (h\<lparr>ah_blocks := bs\<rparr>))"

section \<open>Operations\<close>

text \<open>The out-parameter is written only on success.\<close>

definition audio_encoder_compute_frame_size :: "u32 \<Rightarrow> u32 \<Rightarrow> u32 option" where
  "audio_encoder_compute_frame_size sample_rate channels =
     (if sample_rate = 0 then None
      else if channels = 0 then None
      else
        let frame_size_numerator = ucast sample_rate * FRAME_DURATION_MS :: u64 in
        if frame_size_numerator mod 1000 \<noteq> 0 then None
        else Some (ucast (frame_size_numerator div 1000)))"

definition audio_encoder_startup ::
    "'e opus_lib \<Rightarrow> bool \<Rightarrow> bool \<Rightarrow> u32 \<Rightarrow> u32 \<Rightarrow> audio_heap \<Rightarrow>
     ('e audio_encoder_context option \<times> audio_heap) outcome" where
  "audio_encoder_startup opus malloc_ok debug sample_rate channels h =
     (if \<not> malloc_ok then Ret (None, h)
      else
        let h = ah_malloc Encoder_Context h;
            err = bindo (ah_free Encoder_Context h) (\<lambda>h. Ret (None, h)) in
        (case audio_encoder_compute_frame_size sample_rate channels of
           None \<Rightarrow> err
         | Some frame_size \<Rightarrow>
             (case op_create opus sample_rate channels of
                None \<Rightarrow> err
              | Some e \<Rightarrow>
                  Ret (Some \<lparr>ae_encoder = op_configure opus e, ae_sample_rate = sample_rate,
                             ae_channels = channels, ae_frame_size = frame_size, ae_debug = debug\<rparr>,
                       ah_malloc Opus_Encoder h))))"

text \<open>
  The two allocations of a packet succeed according to \<open>malloc_ok\<close> at its number. A packet longer
  than the array on the stack would be a write out of bounds by Opus.
\<close>

definition push_packet ::
    "(nat \<Rightarrow> bool \<times> bool) \<Rightarrow> byte list \<Rightarrow> audio_queue \<Rightarrow> audio_heap \<Rightarrow> (int \<times> audio_queue \<times> audio_heap) outcome"
where
  "push_packet malloc_ok packet q h =
     (let i = ah_next h; h = h\<lparr>ah_next := Suc i\<rparr> in
      if \<not> fst (malloc_ok i) then Ret (- 1, q, h)
      else
        let h = ah_malloc (Packet_Struct i) h in
        if \<not> snd (malloc_ok i) then bindo (ah_free (Packet_Struct i) h) (\<lambda>h. Ret (- 1, q, h))
        else
          let h = ah_malloc (Packet_Data i) h in
          bindo (rbuf_push q (Some \<lparr>af_number = i, af_length = int (length packet), af_data = packet\<rparr>) h)
            (\<lambda>(r, q, h).
             if r < 0
             then bindo (ah_free (Packet_Data i) h) (\<lambda>h.
                  bindo (ah_free (Packet_Struct i) h) (\<lambda>h. Ret (- 1, q, h)))
             else Ret (0, q, h)))"

definition encode_audio_frame ::
    "'e opus_lib \<Rightarrow> (nat \<Rightarrow> bool \<times> bool) \<Rightarrow> 'e audio_encoder_context option \<Rightarrow> byte list option \<Rightarrow> u32 \<Rightarrow>
     audio_queue \<Rightarrow> audio_heap \<Rightarrow>
     (int \<times> 'e audio_encoder_context option \<times> audio_queue \<times> audio_heap) outcome" where
  "encode_audio_frame opus malloc_ok ctx samples frame_count q h =
     (case (ctx, samples) of
        (Some c, Some pcm) \<Rightarrow>
          (case op_encode opus (ae_encoder c) pcm frame_count of (e, packet) \<Rightarrow>
           let ctx = Some (c\<lparr>ae_encoder := e\<rparr>) in
           case packet of
             None \<Rightarrow> Ret (- 1, ctx, q, h)
           | Some p \<Rightarrow>
               if length p > MAX_PACKET_SIZE then Fault Out_Of_Bounds
               else bindo (push_packet malloc_ok p q h) (\<lambda>(r, q, h). Ret (r, ctx, q, h)))
      | _ \<Rightarrow> Ret (- 1, ctx, q, h))"

definition audio_encoder_free_frame :: "audio_transport_queue_frame \<Rightarrow> audio_heap \<Rightarrow> audio_heap outcome" where
  "audio_encoder_free_frame f h =
     bindo (ah_free (Packet_Data (af_number f)) h) (ah_free (Packet_Struct (af_number f)))"

definition audio_encoder_teardown ::
    "'e audio_encoder_context option \<Rightarrow> audio_heap \<Rightarrow> (int \<times> audio_heap) outcome" where
  "audio_encoder_teardown ctx h =
     (case ctx of
        None \<Rightarrow> Ret (- 1, h)
      | Some c \<Rightarrow>
          bindo (ah_free Opus_Encoder h) (\<lambda>h.
          bindo (ah_free Encoder_Context h) (\<lambda>h. Ret (0, h))))"

section \<open>The loop of the thread\<close>

text \<open>What the inner loop works on: the packet under construction and what encoding changes.\<close>

record 'e encode_core =
  ec_ctx :: "'e audio_encoder_context option"
  ec_queue :: audio_queue
  ec_heap :: audio_heap

record 'e encode_loop =
  el_core :: "'e encode_core"
  el_pending :: "byte list"
  el_pending_frames :: u32

text \<open>Encoding a packet: a failure is reported and the loop goes on.\<close>

definition encode_packet ::
    "'e opus_lib \<Rightarrow> (nat \<Rightarrow> bool \<times> bool) \<Rightarrow> u32 \<Rightarrow> byte list \<Rightarrow> 'e encode_core \<Rightarrow>
     'e encode_core outcome" where
  "encode_packet opus malloc_ok frame_size pcm s =
     bindo (encode_audio_frame opus malloc_ok (ec_ctx s) (Some pcm) frame_size (ec_queue s) (ec_heap s))
       (\<lambda>(r, c, q, h). Ret (s\<lparr>ec_ctx := c, ec_queue := q, ec_heap := h\<rparr>))"

text \<open>One pass of the inner \<^verbatim>\<open>while\<close>: copy what fits into the packet, encode it when it is full.
  Offsets are \<^verbatim>\<open>size_t\<close> products.\<close>

definition byte_offset :: "u32 \<Rightarrow> u32 \<Rightarrow> u64" where
  "byte_offset n channels = ucast n * ucast channels * 2"

definition consume_step ::
    "'e opus_lib \<Rightarrow> (nat \<Rightarrow> bool \<times> bool) \<Rightarrow> u32 \<Rightarrow> u32 \<Rightarrow> byte list \<Rightarrow> u32 \<Rightarrow> u32 \<Rightarrow> 'e encode_loop \<Rightarrow>
     (u32 \<times> 'e encode_loop) outcome" where
  "consume_step opus malloc_ok frame_size channels frame_data frames_read frames_consumed s =
     (let frames_available = frames_read - frames_consumed;
          frames_needed = frame_size - el_pending_frames s;
          frames_to_copy = (if frames_available > frames_needed then frames_needed else frames_available)
      in bindo (memcpy (el_pending s) (unat (byte_offset (el_pending_frames s) channels))
                  frame_data (unat (byte_offset frames_consumed channels))
                  (unat (byte_offset frames_to_copy channels))) (\<lambda>pending.
         let s = s\<lparr>el_pending := pending, el_pending_frames := el_pending_frames s + frames_to_copy\<rparr>;
             frames_consumed = frames_consumed + frames_to_copy
         in if el_pending_frames s \<noteq> frame_size then Ret (frames_consumed, s)
            else bindo (encode_packet opus malloc_ok frame_size (el_pending s) (el_core s)) (\<lambda>c.
                 Ret (frames_consumed, s\<lparr>el_core := c, el_pending_frames := 0\<rparr>))))"

text \<open>The inner \<^verbatim>\<open>while\<close>; \<open>Block\<close> when the fuel does not suffice.\<close>

primrec consume_loop ::
    "nat \<Rightarrow> 'e opus_lib \<Rightarrow> (nat \<Rightarrow> bool \<times> bool) \<Rightarrow> u32 \<Rightarrow> u32 \<Rightarrow> byte list \<Rightarrow> u32 \<Rightarrow> u32 \<Rightarrow> 'e encode_loop \<Rightarrow>
     'e encode_loop outcome" where
  "consume_loop 0 opus malloc_ok frame_size channels frame_data frames_read frames_consumed s =
     (if frames_consumed < frames_read then Block else Ret s)"
| "consume_loop (Suc fuel) opus malloc_ok frame_size channels frame_data frames_read frames_consumed s =
     (if frames_consumed < frames_read
      then bindo (consume_step opus malloc_ok frame_size channels frame_data frames_read frames_consumed s)
             (\<lambda>(frames_consumed, s).
              consume_loop fuel opus malloc_ok frame_size channels frame_data frames_read frames_consumed s)
      else Ret s)"

text \<open>
  The outer loop. Between its reads the other threads act: the capture thread writes to the ring or
  closes it, the transport thread takes packets. \<open>sched\<close> has what they do before each read, and
  before each time the sleeping reader is woken; at its end the thread is still waiting.
\<close>

datatype audio_act = Capture_Write "byte list" u32 | Capture_Close | Transport_Take

type_synonym 'e encoder_state = "ring_buffer \<times> 'e encode_loop"

definition audio_act_do :: "audio_act \<Rightarrow> 'e encoder_state \<Rightarrow> 'e encoder_state outcome" where
  "audio_act_do a st =
     (case st of (ring, s) \<Rightarrow>
      case a of
        Capture_Write data n \<Rightarrow>
          bindo (ring_buffer_write (Some ring) (Some data) n) (\<lambda>(k, r).
          bindo (derefo r) (\<lambda>ring. Ret (ring, s)))
      | Capture_Close \<Rightarrow>
          bindo (ring_buffer_close (Some ring)) (\<lambda>r. bindo (derefo r) (\<lambda>ring. Ret (ring, s)))
      | Transport_Take \<Rightarrow>
          (if rbuf_used_capacity (ec_queue (el_core s)) = 0 then Ret (ring, s)
           else bindo (rbuf_pop (ec_queue (el_core s))) (\<lambda>q.
                Ret (ring, s\<lparr>el_core := (el_core s)\<lparr>ec_queue := q\<rparr>\<rparr>))))"

primrec encoder_loop ::
    "'e opus_lib \<Rightarrow> (nat \<Rightarrow> bool \<times> bool) \<Rightarrow> u32 \<Rightarrow> u32 \<Rightarrow> u32 \<Rightarrow> audio_act list list \<Rightarrow> byte list \<Rightarrow>
     'e encoder_state \<Rightarrow> 'e encoder_state outcome" where
  "encoder_loop opus malloc_ok frame_size channels capacity [] frame_data st = Block"
| "encoder_loop opus malloc_ok frame_size channels capacity (acts # sched) frame_data st =
     bindo (foldo audio_act_do acts st) (\<lambda>(ring, s).
     case ring_buffer_wait_read (Some ring) (Some frame_data) capacity of
       Block \<Rightarrow> encoder_loop opus malloc_ok frame_size channels capacity sched frame_data (ring, s)
     | Fault f \<Rightarrow> Fault f
     | Ret (frames_read, r, data) \<Rightarrow>
         bindo (derefo r) (\<lambda>ring.
         bindo (derefo data) (\<lambda>frame_data.
         if frames_read = 0 then Ret (ring, s)
         else bindo (consume_loop (unat frames_read) opus malloc_ok frame_size channels frame_data frames_read 0 s)
                (\<lambda>s. encoder_loop opus malloc_ok frame_size channels capacity sched frame_data (ring, s)))))"

text \<open>What the thread finds: whether its arguments are there, the session is active, and the
  allocations succeed; \<open>junk\<close> is what fresh memory holds.\<close>

record audio_env =
  av_malloc_ok :: "bool \<times> bool \<times> bool"
  av_packet_ok :: "nat \<Rightarrow> bool \<times> bool"
  av_junk :: "nat \<Rightarrow> byte"
  av_debug :: bool
  av_sched :: "audio_act list list"

definition encoder_finish :: "'e encode_core \<Rightarrow> (int \<times> audio_queue \<times> audio_heap) outcome" where
  "encoder_finish s =
     bindo (ah_free Pending_Frame (ec_heap s)) (\<lambda>h.
     bindo (ah_free Frame_Data h) (\<lambda>h.
     bindo (audio_encoder_teardown (ec_ctx s) h) (\<lambda>(_, h). Ret (0, ec_queue s, h))))"

definition encoder_buffers ::
    "'e opus_lib \<Rightarrow> audio_env \<Rightarrow> audio_context \<Rightarrow> ring_buffer \<Rightarrow> u32 \<Rightarrow> 'e audio_encoder_context \<Rightarrow>
     audio_queue \<Rightarrow> audio_heap \<Rightarrow> (int \<times> audio_queue \<times> audio_heap) outcome" where
  "encoder_buffers opus env ac ring frame_size ctx q h =
     (let channels = ac_channels ac; capacity = ac_buffer_capacity_frames ac in
      if \<not> fst (snd (av_malloc_ok env))
      then bindo (audio_encoder_teardown (Some ctx) h) (\<lambda>(_, h). Ret (- 1, q, h))
      else
        let h = ah_malloc Frame_Data h;
            frame_data = map (av_junk env) [0..<unat (byte_offset capacity channels)] in
        if \<not> snd (snd (av_malloc_ok env))
        then bindo (ah_free Frame_Data h) (\<lambda>h.
             bindo (audio_encoder_teardown (Some ctx) h) (\<lambda>(_, h). Ret (- 1, q, h)))
        else
          let h = ah_malloc Pending_Frame h;
              pending = map (av_junk env) [0..<unat (byte_offset frame_size channels)];
              s = \<lparr>el_core = \<lparr>ec_ctx = Some ctx, ec_queue = q, ec_heap = h\<rparr>, el_pending = pending,
                   el_pending_frames = 0\<rparr>
          in bindo (encoder_loop opus (av_packet_ok env) frame_size channels capacity (av_sched env)
                      frame_data (ring, s)) (\<lambda>(_, s). encoder_finish (el_core s)))"

text \<open>\<open>args\<close> has \<^verbatim>\<open>is_active\<close>, the audio context and the transport queue (\<open>None\<close>: NULL), as they are
  when the thread stops waiting for the format.\<close>

definition audio_encoder_main ::
    "'e opus_lib \<Rightarrow> audio_env \<Rightarrow> (bool \<times> audio_context \<times> audio_queue) option \<Rightarrow> audio_heap \<Rightarrow>
     (int \<times> audio_queue option \<times> audio_heap) outcome" where
  "audio_encoder_main opus env args h =
     (case args of
        None \<Rightarrow> Ret (- 1, None, h)
      | Some (is_active, ac, q) \<Rightarrow>
          if ac_format_lock ac then Block
          else if ac_format_ready ac = 0 \<and> is_active then Block
          else if \<not> is_active then Ret (0, Some q, h)
          else (case ac_ring_buffer ac of
                  None \<Rightarrow> Ret (- 1, Some q, h)
                | Some ring \<Rightarrow>
                    if ac_buffer_capacity_frames ac = 0 then Ret (- 1, Some q, h)
                    else
                      bindo (rbuf_set_free q (Some audio_encoder_free_frame)) (\<lambda>q.
                      case audio_encoder_compute_frame_size (ac_sample_rate ac) (ac_channels ac) of
                        None \<Rightarrow> Ret (- 1, Some q, h)
                      | Some frame_size \<Rightarrow>
                          bindo (audio_encoder_startup opus (fst (av_malloc_ok env)) (av_debug env)
                                   (ac_sample_rate ac) (ac_channels ac) h) (\<lambda>(ctx, h).
                          case ctx of
                            None \<Rightarrow> Ret (- 1, Some q, h)
                          | Some ctx \<Rightarrow>
                              bindo (encoder_buffers opus env ac ring frame_size ctx q h) (\<lambda>(r, q, h).
                              Ret (r, Some q, h))))))"

section \<open>Frame size\<close>

lemma compute_frame_size_spec:
  "audio_encoder_compute_frame_size rate ch =
     (if rate = 0 \<or> ch = 0 \<or> unat rate mod 50 \<noteq> 0 then None else Some (of_nat (unat rate div 50)))"
proof -
  let ?n = "ucast rate * FRAME_DURATION_MS :: u64"
  have n: "unat ?n = unat rate * 20"
    using unat_lt_32 [of rate] by (subst unat_mult_small) simp_all
  have "?n mod 1000 = 0 \<longleftrightarrow> unat rate * 20 mod 1000 = 0"
    by (simp add: unat_eq_0 [symmetric] unat_mod_distrib n)
  also have "\<dots> \<longleftrightarrow> unat rate mod 50 = 0"
    using mult_mod_right [of 20 "unat rate" 50] by (auto simp: mult.commute)
  finally have m: "?n mod 1000 = 0 \<longleftrightarrow> unat rate mod 50 = 0" .
  have d: "unat (?n div 1000) = unat rate div 50"
    by (simp add: unat_div_distrib n)
  have "(ucast (?n div 1000) :: u32) = of_nat (unat rate div 50)"
    unfolding d [symmetric] by (rule of_nat_unat [symmetric])
  then show ?thesis
    using m by (simp add: audio_encoder_compute_frame_size_def Let_def)
qed

lemma frame_size_pos:
  assumes "audio_encoder_compute_frame_size rate ch = Some n"
  shows "unat n = unat rate div 50" "0 < unat n" "unat n < 2 ^ 30" "ch \<noteq> 0"
proof -
  have r: "rate \<noteq> 0" "unat rate mod 50 = 0" "ch \<noteq> 0" "n = of_nat (unat rate div 50)"
    using assms by (auto simp: compute_frame_size_spec split: if_splits)
  have "unat rate div 50 < 2 ^ 30"
    using unat_lt_32 [of rate] by simp
  then show n: "unat n = unat rate div 50"
    unfolding r(4) by (intro unat_of_nat_small) simp
  have "0 < unat rate"
    using r(1) by (simp add: unat_gt_0)
  then show "0 < unat n"
    using r(2) n by presburger
  show "unat n < 2 ^ 30" "ch \<noteq> 0"
    using n unat_lt_32 [of rate] r(3) by simp_all
qed

lemma byte_offset_small:
  assumes "unat n * (2 * unat ch) < 2 ^ 64"
  shows "unat (byte_offset n ch) = unat n * (2 * unat ch)"
proof -
  have "unat n * unat ch \<le> unat n * (2 * unat ch)"
    by simp
  with assms have "unat n * unat ch < 2 ^ LENGTH(64)"
    by (auto simp: mult.commute)
  then have m: "unat (ucast n * ucast ch :: u64) = unat n * unat ch"
    by (subst unat_mult_small) simp_all
  have two: "unat (2 :: u64) = 2" "unat n * unat ch * 2 = unat n * (2 * unat ch)"
    by simp_all
  have "unat (ucast n * ucast ch :: u64) * unat (2 :: u64) < 2 ^ LENGTH(64)"
    unfolding m two using assms by simp
  then show ?thesis
    unfolding byte_offset_def by (simp only: unat_mult_small m two)
qed

section \<open>Ownership of packets\<close>

definition packet_blocks :: "audio_transport_queue_frame \<Rightarrow> audio_block heap" where
  "packet_blocks f = {#Packet_Struct (af_number f), Packet_Data (af_number f)#}"

definition queue_blocks :: "audio_transport_queue_frame list \<Rightarrow> audio_block heap" where
  "queue_blocks fs = \<Sum>\<^sub># (mset (map packet_blocks fs))"

text \<open>The heap holds the blocks of the packets the queue owns, and \<open>base\<close>.\<close>

definition packets_owned ::
    "audio_block heap \<Rightarrow> nat \<Rightarrow> audio_transport_queue_frame list \<Rightarrow> audio_queue \<Rightarrow> audio_heap \<Rightarrow> bool" where
  "packets_owned base n qs q h \<longleftrightarrow>
     (\<exists>e. rbuf_own audio_encoder_free_frame q n e qs \<and> ah_blocks h = queue_blocks (e @ qs) + base)"

lemma queue_blocks_simps [simp]:
  "queue_blocks [] = {#}" "queue_blocks (f # fs) = packet_blocks f + queue_blocks fs"
  "queue_blocks (fs @ gs) = queue_blocks fs + queue_blocks gs"
  by (simp_all add: queue_blocks_def)

lemma ah_free_ok: "ah_blocks h = add_mset b bs \<Longrightarrow> ah_free b h = Ret (h\<lparr>ah_blocks := bs\<rparr>)"
  by (simp add: ah_free_def)

lemma free_frame_ok:
  "ah_blocks h = packet_blocks f + bs \<Longrightarrow> audio_encoder_free_frame f h = Ret (h\<lparr>ah_blocks := bs\<rparr>)"
  by (simp add: audio_encoder_free_frame_def packet_blocks_def ah_free_def)

lemma free_frames_ok:
  "ah_blocks h = queue_blocks fs + bs \<Longrightarrow> foldo audio_encoder_free_frame fs h = Ret (h\<lparr>ah_blocks := bs\<rparr>)"
  by (induction fs arbitrary: h) (simp_all add: free_frame_ok add.assoc)

text \<open>A packet ends up in the queue or is freed again.\<close>

lemma push_packet_owned:
  assumes "packets_owned base n qs q h"
  obtains r q' h' qs' where "push_packet malloc_ok p q h = Ret (r, q', h')" "packets_owned base n qs' q' h'"
    "if r = 0 then qs' = qs @ [\<lparr>af_number = ah_next h, af_length = int (length p), af_data = p\<rparr>]
     else r = - 1 \<and> qs' = qs"
    "malloc_ok (ah_next h) = (True, True) \<and> length qs < n \<longrightarrow> r = 0"
proof -
  obtain e where e: "rbuf_own audio_encoder_free_frame q n e qs" "ah_blocks h = queue_blocks (e @ qs) + base"
    using assms by (auto simp: packets_owned_def)
  let ?i = "ah_next h"
  let ?f = "\<lparr>af_number = ?i, af_length = int (length p), af_data = p\<rparr>"
  let ?h = "h\<lparr>ah_next := Suc ?i\<rparr>"
  let ?h2 = "ah_malloc (Packet_Data ?i) (ah_malloc (Packet_Struct ?i) ?h)"
  have h2: "ah_blocks ?h2 = queue_blocks e + (queue_blocks (qs @ [?f]) + base)"
    using e(2) by (simp add: ah_malloc_def hmalloc_def packet_blocks_def)
  have same: "packets_owned base n qs q ?h"
    using e by (auto simp: packets_owned_def)
  consider "\<not> fst (malloc_ok ?i) \<or> \<not> snd (malloc_ok ?i)" | "malloc_ok ?i = (True, True)" "length qs = n"
    | "malloc_ok ?i = (True, True)" "length qs < n"
    using rb.bounded [OF e(1)] by (cases "malloc_ok ?i") force
  then show ?thesis
  proof cases
    case 1
    then have "push_packet malloc_ok p q h = Ret (- 1, q, ?h)"
      by (cases "fst (malloc_ok ?i)") (simp_all add: push_packet_def Let_def ah_malloc_def hmalloc_def ah_free_def)
    then show ?thesis
      by (rule that [of "- 1" q ?h qs]) (use same 1 in auto)
  next
    case 2
    then have "push_packet malloc_ok p q h = Ret (- 1, q, ?h)"
      using rb.push_full [OF e(1), of ?f ?h2]
      by (simp add: push_packet_def Let_def) (simp add: ah_malloc_def hmalloc_def ah_free_def)
    then show ?thesis
      by (rule that [of "- 1" q ?h qs]) (use same 2 in auto)
  next
    case 3
    obtain q' where "rbuf_push q (Some ?f) ?h2 = Ret (0, q', ?h2\<lparr>ah_blocks := queue_blocks (qs @ [?f]) + base\<rparr>)"
      "rbuf_own audio_encoder_free_frame q' n [] (qs @ [?f])"
      using rb.push_room [OF e(1) 3(2) free_frames_ok [OF h2], of ?f] by blast
    then have "push_packet malloc_ok p q h = Ret (0, q', ?h2\<lparr>ah_blocks := queue_blocks (qs @ [?f]) + base\<rparr>)"
      "packets_owned base n (qs @ [?f]) q' (?h2\<lparr>ah_blocks := queue_blocks (qs @ [?f]) + base\<rparr>)"
      using 3 by (auto simp: push_packet_def Let_def packets_owned_def intro: exI [of _ "[]"])
    then show ?thesis
      by (rule that) simp_all
  qed
qed

text \<open>The documented bound on what Opus writes.\<close>

definition opus_bounded :: "'e opus_lib \<Rightarrow> bool" where
  "opus_bounded opus \<longleftrightarrow>
     (\<forall>e pcm n p. snd (op_encode opus e pcm n) = Some p \<longrightarrow> length p \<le> MAX_PACKET_SIZE)"

definition core_owned :: "audio_block heap \<Rightarrow> nat \<Rightarrow> 'e encode_core \<Rightarrow> bool" where
  "core_owned base n c \<longleftrightarrow> ec_ctx c \<noteq> None \<and> (\<exists>qs. packets_owned base n qs (ec_queue c) (ec_heap c))"

lemma encode_packet_owned:
  assumes "opus_bounded opus" "core_owned base n c"
  shows "\<exists>c'. encode_packet opus malloc_ok frame_size pcm c = Ret c' \<and> core_owned base n c'"
proof -
  obtain ctx qs where c: "ec_ctx c = Some ctx" "packets_owned base n qs (ec_queue c) (ec_heap c)"
    using assms(2) by (auto simp: core_owned_def)
  obtain e p where e: "op_encode opus (ae_encoder ctx) pcm frame_size = (e, p)"
    by (cases "op_encode opus (ae_encoder ctx) pcm frame_size")
  show ?thesis
  proof (cases p)
    case None
    then show ?thesis
      using c e by (auto simp: encode_packet_def encode_audio_frame_def core_owned_def)
  next
    case (Some b)
    have "length b \<le> MAX_PACKET_SIZE"
      using assms(1) e Some unfolding opus_bounded_def by (metis snd_conv)
    moreover obtain r q' h' qs' where "push_packet malloc_ok b (ec_queue c) (ec_heap c) = Ret (r, q', h')"
      "packets_owned base n qs' q' h'"
      by (rule push_packet_owned [OF c(2)])
    ultimately show ?thesis
      using c(1) e Some by (auto simp: encode_packet_def encode_audio_frame_def core_owned_def)
  qed
qed

section \<open>Cutting the stream into packets\<close>

lemma chunks_copied:
  assumes "(d + n) * k \<le> length dst" "N * k \<le> length src" "s + n \<le> N"
  shows "chunks k (take (d * k) dst @ take (n * k) (drop (s * k) src) @ drop ((d + n) * k) dst) (d + n) =
    chunks k dst d @ take n (drop s (chunks k src N))"
proof (rule nth_equalityI)
  fix i
  assume "i < length (chunks k (take (d * k) dst @ take (n * k) (drop (s * k) src) @ drop ((d + n) * k) dst) (d + n))"
  then have i: "i < d + n"
    by simp
  have "(s + n) * k \<le> length src"
    using mult_le_mono1 [OF assms(3), of k] assms(2) by (rule le_trans)
  then show "chunks k (take (d * k) dst @ take (n * k) (drop (s * k) src) @ drop ((d + n) * k) dst) (d + n) ! i =
      (chunks k dst d @ take n (drop s (chunks k src N))) ! i"
    using chunk_copied [OF assms(1), of s src i] chunk_kept_before [OF assms(1), of i] i assms(3)
    by (cases "i < d") (auto simp: nth_append)
qed (use assms(3) in simp)

text \<open>The packet under construction: a buffer of one packet, not full.\<close>

definition loop_ok :: "u32 \<Rightarrow> u32 \<Rightarrow> 'e encode_loop \<Rightarrow> bool" where
  "loop_ok frame_size channels s \<longleftrightarrow> unat (el_pending_frames s) < unat frame_size \<and>
     unat frame_size * (2 * unat channels) < 2 ^ 64 \<and>
     length (el_pending s) = unat frame_size * (2 * unat channels)"

definition loop_pending :: "u32 \<Rightarrow> 'e encode_loop \<Rightarrow> byte list list" where
  "loop_pending channels s = chunks (2 * unat channels) (el_pending s) (unat (el_pending_frames s))"

definition encode_frames ::
    "'e opus_lib \<Rightarrow> (nat \<Rightarrow> bool \<times> bool) \<Rightarrow> u32 \<Rightarrow> byte list list \<Rightarrow> 'e encode_core \<Rightarrow> (int \<times> 'e encode_core) outcome"
where
  "encode_frames opus malloc_ok frame_size fs c =
     bindo (encode_packet opus malloc_ok frame_size (concat fs) c) (\<lambda>c. Ret (0, c))"

text \<open>What one pass of the inner loop does to the pending frames.\<close>

lemma consume_step_copy:
  fixes frame_data :: "byte list" and s :: "'e encode_loop"
  defines "k \<equiv> \<lambda>ch :: u32. 2 * unat ch"
  assumes ok: "loop_ok fs ch s" and rd: "unat rd * k ch \<le> length frame_data" "unat rd * k ch < 2 ^ 64"
    and c: "c < rd"
  obtains m pending where "0 < unat m" "unat m = min (unat rd - unat c) (unat fs - unat (el_pending_frames s))"
    "unat (c + m) = unat c + unat m" "unat (el_pending_frames s + m) = unat (el_pending_frames s) + unat m"
    "length pending = unat fs * k ch"
    "chunks (k ch) pending (unat (el_pending_frames s) + unat m) =
       loop_pending ch s @ take (unat m) (drop (unat c) (chunks (k ch) frame_data (unat rd)))"
    "consume_step opus malloc_ok fs ch frame_data rd c s =
       (let s = s\<lparr>el_pending := pending, el_pending_frames := el_pending_frames s + m\<rparr> in
        if el_pending_frames s \<noteq> fs then Ret (c + m, s)
        else bindo (encode_packet opus malloc_ok fs pending (el_core s)) (\<lambda>co.
             Ret (c + m, s\<lparr>el_core := co, el_pending_frames := 0\<rparr>)))"
proof -
  let ?pf = "el_pending_frames s"
  let ?avail = "rd - c" and ?need = "fs - ?pf"
  define m where "m = (if ?avail > ?need then ?need else ?avail)"
  have lt: "unat c < unat rd" "unat ?pf < unat fs"
    using c ok by (simp_all add: word_less_nat_alt loop_ok_def)
  have sub: "unat ?avail = unat rd - unat c" "unat ?need = unat fs - unat ?pf"
    using lt by (simp_all add: unat_minus_ge)
  have m: "unat m = min (unat rd - unat c) (unat fs - unat ?pf)"
    by (auto simp: m_def word_less_nat_alt sub)
  have sums: "unat c + unat m \<le> unat rd" "unat ?pf + unat m \<le> unat fs"
    using m lt by auto
  then have add: "unat (c + m) = unat c + unat m" "unat (?pf + m) = unat ?pf + unat m"
    using unat_lt_32 [of rd] unat_lt_32 [of fs] by (simp_all add: unat_plus_small)
  have len: "length (el_pending s) = unat fs * k ch" "unat fs * k ch < 2 ^ 64"
    using ok by (simp_all add: loop_ok_def k_def)
  have off: "unat (byte_offset n ch) = unat n * k ch" if "unat n \<le> unat rd \<or> unat n \<le> unat fs" for n
  proof -
    have "unat n * k ch \<le> unat rd * k ch \<or> unat n * k ch \<le> unat fs * k ch"
      using that by (meson mult_le_mono1)
    then have "unat n * k ch < 2 ^ 64"
      using rd(2) len(2) by (meson le_less_trans)
    then show ?thesis
      by (simp add: byte_offset_small k_def)
  qed
  define pending where "pending = take (unat ?pf * k ch) (el_pending s) @
    take (unat m * k ch) (drop (unat c * k ch) frame_data) @ drop ((unat ?pf + unat m) * k ch) (el_pending s)"
  have fit: "(unat ?pf + unat m) * k ch \<le> length (el_pending s)" "(unat c + unat m) * k ch \<le> length frame_data"
    using mult_le_mono1 [OF sums(2), of "k ch"] mult_le_mono1 [OF sums(1), of "k ch"] len(1) rd(1) by linarith+
  have offs: "unat (byte_offset ?pf ch) = unat ?pf * k ch" "unat (byte_offset c ch) = unat c * k ch"
    "unat (byte_offset m ch) = unat m * k ch"
    using off [of ?pf] off [of c] off [of m] sums by simp_all
  have copy: "memcpy (el_pending s) (unat (byte_offset ?pf ch)) frame_data (unat (byte_offset c ch))
      (unat (byte_offset m ch)) = Ret pending"
    unfolding offs pending_def using fit by (simp add: add_mult_distrib)
  have plen: "length pending = unat fs * k ch"
    using length_memcpy [OF copy] len(1) by simp
  have "chunks (k ch) pending (unat ?pf + unat m) =
      loop_pending ch s @ take (unat m) (drop (unat c) (chunks (k ch) frame_data (unat rd)))"
    using chunks_copied [OF fit(1) rd(1) sums(1)] unfolding pending_def loop_pending_def k_def .
  moreover have "consume_step opus malloc_ok fs ch frame_data rd c s =
       (let s = s\<lparr>el_pending := pending, el_pending_frames := el_pending_frames s + m\<rparr> in
        if el_pending_frames s \<noteq> fs then Ret (c + m, s)
        else bindo (encode_packet opus malloc_ok fs pending (el_core s)) (\<lambda>co.
             Ret (c + m, s\<lparr>el_core := co, el_pending_frames := 0\<rparr>)))"
    unfolding consume_step_def Let_def m_def [symmetric] copy by simp
  moreover have "0 < unat m"
    using m lt by simp
  ultimately show ?thesis
    using that [of m pending] m add plen by blast
qed

abbreviation encoder_agrees ::
    "u32 \<Rightarrow> u32 \<Rightarrow> 'e encode_loop outcome \<Rightarrow> (int \<times> 'e encode_core \<times> byte list list) outcome \<Rightarrow> bool" where
  "encoder_agrees fs ch x y \<equiv>
     feed_agrees (loop_ok fs ch) (loop_pending ch) el_core (bindo x (\<lambda>s. Ret (0, s))) y"

abbreviation encoder_frames ::
    "'e opus_lib \<Rightarrow> (nat \<Rightarrow> bool \<times> bool) \<Rightarrow> u32 \<Rightarrow> byte list list \<Rightarrow> 'e encode_core \<Rightarrow>
     (int \<times> 'e encode_core \<times> byte list list) outcome" where
  "encoder_frames opus malloc_ok fs \<equiv> frames (unat fs) (encode_frames opus malloc_ok fs)"

lemma consume_loop_done:
  "\<not> c < rd \<Longrightarrow> consume_loop fuel opus malloc_ok fs ch frame_data rd c s = Ret s"
  by (cases fuel) simp_all

lemma consume_loop_frames:
  assumes "loop_ok fs ch s" "unat rd * (2 * unat ch) \<le> length frame_data" "unat rd * (2 * unat ch) < 2 ^ 64"
    and "unat rd - unat c \<le> fuel"
  shows "encoder_agrees fs ch (consume_loop fuel opus malloc_ok fs ch frame_data rd c s)
    (encoder_frames opus malloc_ok fs
       (loop_pending ch s @ drop (unat c) (chunks (2 * unat ch) frame_data (unat rd))) (el_core s))"
  using assms(1,4)
proof (induction fuel arbitrary: c s)
  case 0
  then have "\<not> c < rd" "unat rd \<le> unat c"
    by (simp_all add: word_less_nat_alt)
  then show ?case
    using 0(1) consume_loop_done [of c rd 0] by (simp add: frames_short loop_ok_def loop_pending_def)
next
  case (Suc fuel)
  let ?k = "2 * unat ch"
  let ?items = "chunks ?k frame_data (unat rd)"
  show ?case
  proof (cases "c < rd")
    case False
    then show ?thesis
      using Suc.prems(1) consume_loop_done [OF False, of "Suc fuel"]
      by (simp add: word_less_nat_alt frames_short loop_ok_def loop_pending_def)
  next
    case True
    obtain m pending where m: "0 < unat m" "unat m = min (unat rd - unat c) (unat fs - unat (el_pending_frames s))"
      "unat (c + m) = unat c + unat m" "unat (el_pending_frames s + m) = unat (el_pending_frames s) + unat m"
      and p: "length pending = unat fs * ?k"
        "chunks ?k pending (unat (el_pending_frames s) + unat m) =
           loop_pending ch s @ take (unat m) (drop (unat c) ?items)"
      and step: "consume_step opus malloc_ok fs ch frame_data rd c s =
         (let s = s\<lparr>el_pending := pending, el_pending_frames := el_pending_frames s + m\<rparr> in
          if el_pending_frames s \<noteq> fs then Ret (c + m, s)
          else bindo (encode_packet opus malloc_ok fs pending (el_core s)) (\<lambda>co.
               Ret (c + m, s\<lparr>el_core := co, el_pending_frames := 0\<rparr>)))"
      by (rule consume_step_copy [OF Suc.prems(1) assms(2,3) True])
    have stream: "loop_pending ch s @ drop (unat c) ?items =
        chunks ?k pending (unat (el_pending_frames s + m)) @ drop (unat (c + m)) ?items"
      unfolding m(3,4) p(2) using append_take_drop_id [of "unat m" "drop (unat c) ?items"]
      by (simp add: add.commute)
    have fuel: "unat rd - unat (c + m) \<le> fuel"
      using Suc.prems(2) m(1,3) by simp
    let ?s = "s\<lparr>el_pending := pending, el_pending_frames := el_pending_frames s + m\<rparr>"
    show ?thesis
    proof (cases "el_pending_frames s + m = fs")
      case False
      then have "unat (el_pending_frames s + m) \<noteq> unat fs"
        using unsigned_word_eqI by blast
      then have "loop_ok fs ch ?s"
        using Suc.prems(1) p(1) m(2,4) by (auto simp: loop_ok_def)
      from Suc.IH [OF this fuel] show ?thesis
        using True False step by (simp add: stream Let_def) (simp add: loop_pending_def)
    next
      case full: True
      have pos: "0 < unat fs"
        using Suc.prems(1) by (simp add: loop_ok_def)
      have packet: "concat (chunks ?k pending (unat fs)) = pending"
        using concat_chunks [of "unat fs" ?k pending] p(1) by simp
      have fr: "encoder_frames opus malloc_ok fs (loop_pending ch s @ drop (unat c) ?items) (el_core s) =
          bindo (encode_packet opus malloc_ok fs pending (el_core s)) (\<lambda>co.
          encoder_frames opus malloc_ok fs (drop (unat (c + m)) ?items) co)"
        unfolding stream full using pos
        by (subst frames_packet) (simp_all add: encode_frames_def packet bindo_assoc)
      have run: "consume_loop (Suc fuel) opus malloc_ok fs ch frame_data rd c s =
          bindo (encode_packet opus malloc_ok fs pending (el_core s)) (\<lambda>co.
          consume_loop fuel opus malloc_ok fs ch frame_data rd (c + m)
            (?s\<lparr>el_core := co, el_pending_frames := 0\<rparr>))"
        using True step full by (simp add: Let_def bindo_assoc)
      have "encoder_agrees fs ch (consume_loop fuel opus malloc_ok fs ch frame_data rd (c + m)
            (?s\<lparr>el_core := co, el_pending_frames := 0\<rparr>))
          (encoder_frames opus malloc_ok fs (drop (unat (c + m)) ?items) co)" for co
      proof -
        let ?s0 = "?s\<lparr>el_core := co, el_pending_frames := 0\<rparr>"
        have "loop_ok fs ch ?s0" "loop_pending ch ?s0 = []" "el_core ?s0 = co"
          using p(1) Suc.prems(1) pos by (simp_all add: loop_ok_def loop_pending_def chunks_def)
        then show ?thesis
          using Suc.IH [of ?s0 "c + m"] fuel by simp
      qed
      then show ?thesis
        unfolding fr run by (cases "encode_packet opus malloc_ok fs pending (el_core s)") simp_all
    qed
  qed
qed

text \<open>
  Feeding the frames of one read to the inner loop. The audio encoder provides the contract of a
  packet stream: its items are the frames, its packets \<open>frame_size\<close> frames.
\<close>

definition encoder_feed ::
    "'e opus_lib \<Rightarrow> (nat \<Rightarrow> bool \<times> bool) \<Rightarrow> u32 \<Rightarrow> u32 \<Rightarrow> byte list list \<Rightarrow> 'e encode_loop \<Rightarrow>
     (int \<times> 'e encode_loop) outcome" where
  "encoder_feed opus malloc_ok fs ch data s =
     bindo (consume_loop (length data) opus malloc_ok fs ch (concat data) (of_nat (length data)) 0 s)
       (\<lambda>s. Ret (0, s))"

definition audio_fits :: "u32 \<Rightarrow> byte list list \<Rightarrow> bool" where
  "audio_fits ch data \<longleftrightarrow> list_all (\<lambda>f. length f = 2 * unat ch) data \<and> length data < 2 ^ 32 \<and>
     length data * (2 * unat ch) < 2 ^ 64"

lemma encoder_feed_frames:
  assumes "loop_ok fs ch s" "audio_fits ch data"
  shows "feed_agrees (loop_ok fs ch) (loop_pending ch) el_core (encoder_feed opus malloc_ok fs ch data s)
    (encoder_frames opus malloc_ok fs (loop_pending ch s @ data) (el_core s))"
proof -
  have n: "unat (of_nat (length data) :: u32) = length data"
    using assms(2) by (intro unat_of_nat_small) (simp add: audio_fits_def)
  have len: "\<forall>f\<in>set data. length f = 2 * unat ch"
    using assms(2) by (simp add: audio_fits_def list_all_iff)
  have "length data * (2 * unat ch) < 2 ^ 64"
    using assms(2) by (simp only: audio_fits_def)
  then show ?thesis
    using consume_loop_frames [OF assms(1), where rd = "of_nat (length data)" and c = 0
        and frame_data = "concat data" and fuel = "length data" and opus = opus and malloc_ok = malloc_ok]
      length_concat_const [OF len] chunks_concat [OF len]
    unfolding n encoder_feed_def by (simp del: mult_Suc_right)
qed

interpretation audio: packet_stream "audio_fits ch" "unat fs" "encode_frames opus malloc_ok fs"
    "encoder_feed opus malloc_ok fs ch" "loop_ok fs ch" "loop_pending ch" el_core
  by (unfold_locales, simp add: loop_ok_def loop_pending_def, rule encoder_feed_frames)

section \<open>The whole thread\<close>

text \<open>The calls of the capture thread are those \<open>on_process\<close> makes: whole frames.\<close>

definition act_ok :: "u32 \<Rightarrow> audio_act \<Rightarrow> bool" where
  "act_ok ch a \<longleftrightarrow>
     (case a of
        Capture_Write data n \<Rightarrow> unat n * (2 * unat ch) \<le> length data \<and> length data < 2 ^ 64
      | _ \<Rightarrow> True)"

definition ring_ok :: "u32 \<Rightarrow> u32 \<Rightarrow> ring_buffer \<Rightarrow> bool" where
  "ring_ok ch capacity r \<longleftrightarrow> ring_wf r \<and> \<not> rb_lock r \<and> unat (rb_item_size r) = 2 * unat ch \<and>
     rb_capacity r = capacity"

definition encoder_inv :: "audio_block heap \<Rightarrow> nat \<Rightarrow> u32 \<Rightarrow> u32 \<Rightarrow> u32 \<Rightarrow> 'e encoder_state \<Rightarrow> bool" where
  "encoder_inv base n fs ch capacity st \<longleftrightarrow>
     (case st of (ring, s) \<Rightarrow> ring_ok ch capacity ring \<and> loop_ok fs ch s \<and> core_owned base n (el_core s))"

lemma packets_owned_pop:
  assumes "packets_owned base n qs q h" "rbuf_used_capacity q \<noteq> 0"
  obtains q' qs' where "rbuf_pop q = Ret q'" "packets_owned base n qs' q' h"
proof -
  obtain e where e: "rbuf_own audio_encoder_free_frame q n e qs" "ah_blocks h = queue_blocks (e @ qs) + base"
    using assms(1) by (auto simp: packets_owned_def)
  then obtain x qs' where qs: "qs = x # qs'"
    using assms(2) rbuf_own_used [OF e(1)] by (cases qs) auto
  obtain q' where "rbuf_pop q = Ret q'" "rbuf_own audio_encoder_free_frame q' n (e @ [x]) qs'"
    using rb.pop_first [OF e(1) [unfolded qs]] by blast
  then show ?thesis
    using that [of q' qs'] e(2) qs by (force simp: packets_owned_def)
qed

lemma audio_act_inv:
  assumes "encoder_inv base n fs ch capacity st" "act_ok ch a"
  shows "\<exists>st'. audio_act_do a st = Ret st' \<and> encoder_inv base n fs ch capacity st'"
proof -
  obtain ring s where st: "st = (ring, s)"
    by (cases st)
  have inv: "ring_wf ring" "\<not> rb_lock ring" "unat (rb_item_size ring) = 2 * unat ch" "rb_capacity ring = capacity"
    "loop_ok fs ch s" "core_owned base n (el_core s)"
    using assms(1) by (simp_all add: encoder_inv_def ring_ok_def st)
  show ?thesis
  proof (cases a)
    case (Capture_Write data k)
    then have d: "unat k * ring_isz ring \<le> length data" "length data < 2 ^ 64"
      using assms(2) inv(3) by (simp_all add: act_ok_def)
    consider "k = 0 \<or> rb_closed ring" | "k \<noteq> 0" "\<not> rb_closed ring"
      by blast
    then show ?thesis
    proof cases
      case 1
      then have "ring_buffer_write (Some ring) (Some data) k = Ret (0, Some ring)"
        using inv(2)
        by (cases "k = 0") (simp add: ring_buffer_write_def, simp add: ring_buffer_write_closed)
      then show ?thesis
        using Capture_Write st assms(1) by (simp add: audio_act_do_def)
    next
      case 2
      obtain j r' where "ring_buffer_write (Some ring) (Some data) k = Ret (j, Some r')" "ring_wf r'" "\<not> rb_lock r'"
        "rb_capacity r' = rb_capacity ring" "rb_item_size r' = rb_item_size ring"
        by (rule ring_buffer_write_ok [OF inv(1) 2(2) inv(2) 2(1) d])
      then show ?thesis
        using Capture_Write st inv by (simp add: audio_act_do_def encoder_inv_def ring_ok_def)
    qed
  next
    case Capture_Close
    then show ?thesis
      using st inv by (simp add: audio_act_do_def ring_buffer_close_ok encoder_inv_def ring_ok_def ring_wf_def)
  next
    case Transport_Take
    obtain qs where qs: "packets_owned base n qs (ec_queue (el_core s)) (ec_heap (el_core s))"
      "ec_ctx (el_core s) \<noteq> None"
      using inv(6) by (auto simp: core_owned_def)
    show ?thesis
    proof (cases "rbuf_used_capacity (ec_queue (el_core s)) = 0")
      case True
      then show ?thesis
        using Transport_Take st assms(1) by (simp add: audio_act_do_def)
    next
      case False
      obtain q' qs' where "rbuf_pop (ec_queue (el_core s)) = Ret q'" "packets_owned base n qs' q' (ec_heap (el_core s))"
        by (rule packets_owned_pop [OF qs(1) False])
      then show ?thesis
        using Transport_Take st inv qs(2) False
        by (auto simp: audio_act_do_def encoder_inv_def ring_ok_def loop_ok_def core_owned_def)
    qed
  qed
qed

lemma audio_acts_inv:
  assumes "encoder_inv base n fs ch capacity st" "list_all (act_ok ch) acts"
  shows "\<exists>st'. foldo audio_act_do acts st = Ret st' \<and> encoder_inv base n fs ch capacity st'"
  using assms
proof (induction acts arbitrary: st)
  case (Cons a acts)
  then obtain st1 where "audio_act_do a st = Ret st1" "encoder_inv base n fs ch capacity st1"
    using audio_act_inv [of base n fs ch capacity st a] by auto
  then show ?case
    using Cons by simp
qed simp

text \<open>The inner loop returns on every read, with the packets it made owned by the queue.\<close>

lemma consume_loop_owned:
  assumes "opus_bounded opus" "loop_ok fs ch s" "core_owned base n (el_core s)"
    and "unat rd * (2 * unat ch) \<le> length frame_data" "unat rd * (2 * unat ch) < 2 ^ 64"
  shows "\<exists>s'. consume_loop (unat rd) opus malloc_ok fs ch frame_data rd 0 s = Ret s' \<and> loop_ok fs ch s' \<and>
    core_owned base n (el_core s')"
proof -
  let ?fr = "encoder_frames opus malloc_ok fs
    (loop_pending ch s @ drop (unat (0 :: u32)) (chunks (2 * unat ch) frame_data (unat rd))) (el_core s)"
  have "\<exists>c'. encode_frames opus malloc_ok fs pkt c = Ret (0, c') \<and> core_owned base n c'"
    if "core_owned base n c" for pkt c
    using encode_packet_owned [OF assms(1) that] by (auto simp: encode_frames_def bindo_Ret_iff)
  then obtain c' rest where fr: "?fr = Ret (0, c', rest)" "core_owned base n c'"
    using frames_keep [of "core_owned base n" "encode_frames opus malloc_ok fs"] assms(3) by blast
  have "encoder_agrees fs ch (consume_loop (unat rd) opus malloc_ok fs ch frame_data rd 0 s) ?fr"
    by (rule consume_loop_frames [OF assms(2,4,5)]) simp
  then show ?thesis
    using fr by (auto simp: bindo_Ret_iff)
qed

lemma wait_read_cases:
  assumes "ring_ok ch capacity ring" "length frame_data = unat capacity * (2 * unat ch)"
  shows "ring_buffer_wait_read (Some ring) (Some frame_data) capacity = Block \<or>
    (\<exists>rd r d. ring_buffer_wait_read (Some ring) (Some frame_data) capacity = Ret (rd, Some r, Some d) \<and>
       ring_ok ch capacity r \<and> length d = length frame_data \<and> unat rd \<le> unat capacity)"
proof -
  have r: "ring_wf ring" "\<not> rb_lock ring" "rb_capacity ring = capacity" "ring_isz ring = 2 * unat ch"
    using assms(1) by (simp_all add: ring_ok_def)
  have "capacity \<noteq> 0"
    using ring_wfD(1) [OF r(1)] r(3) by auto
  consider "rb_items_available ring \<noteq> 0" | "rb_items_available ring = 0" "rb_closed ring"
    | "rb_items_available ring = 0" "\<not> rb_closed ring"
    by blast
  then show ?thesis
  proof cases
    case 1
    have dst: "unat capacity * ring_isz ring \<le> length frame_data"
      using assms(2) r(4) by simp
    obtain rd r' d where "ring_buffer_wait_read (Some ring) (Some frame_data) capacity = Ret (rd, Some r', Some d)"
      "unat rd = min (unat capacity) (ring_avail ring)" "ring_wf r'" "\<not> rb_lock r'"
      "rb_capacity r' = rb_capacity ring" "rb_item_size r' = rb_item_size ring" "length d = length frame_data"
      by (rule ring_buffer_wait_read_ok [OF r(1,2) 1 \<open>capacity \<noteq> 0\<close> dst])
    then show ?thesis
      using r by (intro disjI2 exI [of _ rd] exI [of _ r'] exI [of _ d]) (simp add: ring_ok_def)
  next
    case 2
    then show ?thesis
      using ring_buffer_wait_read_drained [of ring frame_data capacity] r assms(1) by simp
  next
    case 3
    then show ?thesis
      using ring_buffer_wait_read_empty [of ring capacity frame_data] r \<open>capacity \<noteq> 0\<close> by simp
  qed
qed

lemma encoder_loop_inv:
  assumes "opus_bounded opus" "encoder_inv base n fs ch capacity st" "list_all (list_all (act_ok ch)) sched"
    and "length frame_data = unat capacity * (2 * unat ch)" "unat capacity * (2 * unat ch) < 2 ^ 64"
  shows "encoder_loop opus malloc_ok fs ch capacity sched frame_data st = Block \<or>
    (\<exists>st'. encoder_loop opus malloc_ok fs ch capacity sched frame_data st = Ret st' \<and>
       encoder_inv base n fs ch capacity st')"
  using assms(2-4)
proof (induction sched arbitrary: st frame_data)
  case Nil
  then show ?case by simp
next
  case (Cons acts sched)
  have "list_all (act_ok ch) acts"
    using Cons.prems(2) by simp
  from audio_acts_inv [OF Cons.prems(1) this] obtain ring s where
    act: "foldo audio_act_do acts st = Ret (ring, s)" "encoder_inv base n fs ch capacity (ring, s)"
    by auto
  have inv: "ring_ok ch capacity ring" "loop_ok fs ch s" "core_owned base n (el_core s)"
    using act(2) by (simp_all add: encoder_inv_def)
  have IH: "encoder_loop opus malloc_ok fs ch capacity sched d st1 = Block \<or>
      (\<exists>st'. encoder_loop opus malloc_ok fs ch capacity sched d st1 = Ret st' \<and> encoder_inv base n fs ch capacity st')"
    if "encoder_inv base n fs ch capacity st1" "length d = unat capacity * (2 * unat ch)" for st1 d
    using Cons.IH [OF that(1) _ that(2)] Cons.prems(2) by simp
  consider "ring_buffer_wait_read (Some ring) (Some frame_data) capacity = Block"
    | rd r d where "ring_buffer_wait_read (Some ring) (Some frame_data) capacity = Ret (rd, Some r, Some d)"
       "ring_ok ch capacity r" "length d = length frame_data" "unat rd \<le> unat capacity"
    using wait_read_cases [OF inv(1) Cons.prems(3)] by blast
  then show ?case
  proof cases
    case 1
    then show ?thesis
      using act IH [OF act(2) Cons.prems(3)] by simp
  next
    case (2 rd r d)
    have "unat rd * (2 * unat ch) \<le> unat capacity * (2 * unat ch)"
      using 2(4) by (rule mult_le_mono1)
    then have len: "unat rd * (2 * unat ch) \<le> length d" "unat rd * (2 * unat ch) < 2 ^ 64"
      using 2(3) Cons.prems(3) assms(5) by linarith+
    obtain s' where s': "consume_loop (unat rd) opus malloc_ok fs ch d rd 0 s = Ret s'" "loop_ok fs ch s'"
      "core_owned base n (el_core s')"
      using consume_loop_owned [OF assms(1) inv(2,3) len] by blast
    then have "encoder_inv base n fs ch capacity (r, s')" "encoder_inv base n fs ch capacity (r, s)"
      using 2(2) inv by (simp_all add: encoder_inv_def)
    then show ?thesis
      using act 2(1,3) s'(1) IH [of "(r, s')" d] Cons.prems(3) by (cases "rd = 0") simp_all
  qed
qed

text \<open>Starting and stopping the encoder.\<close>

lemma startup_cases:
  assumes "audio_encoder_compute_frame_size rate ch = Some fs"
  shows "audio_encoder_startup opus malloc_ok debug rate ch h = Ret (None, h) \<or>
    (\<exists>ctx. audio_encoder_startup opus malloc_ok debug rate ch h =
       Ret (Some ctx, ah_malloc Opus_Encoder (ah_malloc Encoder_Context h)))"
  using assms by (auto simp: audio_encoder_startup_def Let_def ah_free_def ah_malloc_def hmalloc_def split: option.split)

lemma teardown_ok:
  "ah_blocks h = {#Opus_Encoder, Encoder_Context#} + bs \<Longrightarrow>
   audio_encoder_teardown (Some c) h = Ret (0, h\<lparr>ah_blocks := bs\<rparr>)"
  by (simp add: audio_encoder_teardown_def ah_free_def)

text \<open>\<open>thread_blocks\<close>: what the thread itself holds while it runs.\<close>

definition thread_blocks :: "audio_block heap" where
  "thread_blocks = {#Pending_Frame, Frame_Data, Opus_Encoder, Encoder_Context#}"

lemma encoder_finish_owned:
  assumes "core_owned (thread_blocks + base) n c"
  shows "\<exists>qs h. encoder_finish c = Ret (0, ec_queue c, h) \<and> packets_owned base n qs (ec_queue c) h"
proof -
  obtain ctx qs e where c: "ec_ctx c = Some ctx" "rbuf_own audio_encoder_free_frame (ec_queue c) n e qs"
    "ah_blocks (ec_heap c) = queue_blocks (e @ qs) + (thread_blocks + base)"
    using assms by (auto simp: core_owned_def packets_owned_def)
  then have h: "ah_blocks (ec_heap c) = thread_blocks + (queue_blocks (e @ qs) + base)"
    by (simp add: add.left_commute)
  have "encoder_finish c = Ret (0, ec_queue c, (ec_heap c)\<lparr>ah_blocks := queue_blocks (e @ qs) + base\<rparr>)"
    using h c(1) by (simp add: encoder_finish_def thread_blocks_def ah_free_def teardown_ok)
  then show ?thesis
    using c(2) by (auto simp: packets_owned_def)
qed

definition audio_env_ok :: "u32 \<Rightarrow> audio_env \<Rightarrow> bool" where
  "audio_env_ok ch env \<longleftrightarrow> list_all (list_all (act_ok ch)) (av_sched env)"

lemma encoder_buffers_owned:
  assumes opus: "opus_bounded opus" and env: "audio_env_ok (ac_channels ac) env"
    and ring: "ring_ok (ac_channels ac) (ac_buffer_capacity_frames ac) ring"
    and fs: "0 < unat fs" "unat fs < 2 ^ 30"
    and q: "packets_owned base n qs q (h\<lparr>ah_blocks := bs\<rparr>)" "ah_blocks h = {#Opus_Encoder, Encoder_Context#} + bs"
  shows "encoder_buffers opus env ac ring fs ctx q h = Block \<or>
    (\<exists>r q' h' qs'. encoder_buffers opus env ac ring fs ctx q h = Ret (r, q', h') \<and> r \<in> {0, - 1} \<and>
       packets_owned base n qs' q' h')"
proof -
  let ?ch = "ac_channels ac" and ?cap = "ac_buffer_capacity_frames ac"
  obtain e where e: "rbuf_own audio_encoder_free_frame q n e qs" "bs = queue_blocks (e @ qs) + base"
    using q(1) by (auto simp: packets_owned_def)
  show ?thesis
  proof (cases "fst (snd (av_malloc_ok env)) \<and> snd (snd (av_malloc_ok env))")
    case False
    then have "encoder_buffers opus env ac ring fs ctx q h = Ret (- 1, q, h\<lparr>ah_blocks := bs\<rparr>)"
      using teardown_ok [OF q(2), where c = ctx]
      by (cases "fst (snd (av_malloc_ok env))")
        (simp_all add: encoder_buffers_def Let_def ah_free_def ah_malloc_def hmalloc_def)
    then show ?thesis
      using q(1) by blast
  next
    case True
    define s where "s = \<lparr>el_core = \<lparr>ec_ctx = Some ctx, ec_queue = q, ec_heap = ah_malloc Pending_Frame (ah_malloc Frame_Data h)\<rparr>,
      el_pending = map (av_junk env) [0..<unat (byte_offset fs ?ch)], el_pending_frames = 0\<rparr>"
    define d where "d = map (av_junk env) [0..<unat (byte_offset ?cap ?ch)]"
    have run: "encoder_buffers opus env ac ring fs ctx q h =
        bindo (encoder_loop opus (av_packet_ok env) fs ?ch ?cap (av_sched env) d (ring, s)) (\<lambda>(_, s). encoder_finish (el_core s))"
      using True by (simp add: encoder_buffers_def Let_def s_def d_def)
    have "unat fs * (2 * unat ?ch) \<le> 1073741824 * 8589934592"
      using fs(2) unat_lt_32 [of ?ch] by (intro mult_le_mono) simp_all
    then have fsz: "unat fs * (2 * unat ?ch) < 2 ^ 64"
      by (rule le_less_trans) simp
    have cap: "unat ?cap * (2 * unat ?ch) < 2 ^ 64"
      using ring ring_wfD(4) [of ring] by (simp add: ring_ok_def)
    have "ah_blocks (ec_heap (el_core s)) = queue_blocks (e @ qs) + (thread_blocks + base)"
      using q(2) e(2) by (simp add: s_def ah_malloc_def hmalloc_def thread_blocks_def)
    then have "core_owned (thread_blocks + base) n (el_core s)"
      using e(1) by (auto simp: core_owned_def packets_owned_def s_def)
    then have inv: "encoder_inv (thread_blocks + base) n fs ?ch ?cap (ring, s)"
      using ring fs(1) fsz by (simp add: encoder_inv_def loop_ok_def s_def byte_offset_small)
    have d: "length d = unat ?cap * (2 * unat ?ch)"
      using cap by (simp add: d_def byte_offset_small)
    show ?thesis
      using encoder_loop_inv [OF opus inv env [unfolded audio_env_ok_def] d cap, of "av_packet_ok env"]
        encoder_finish_owned [of base n] unfolding run by (fastforce simp: encoder_inv_def)
  qed
qed

section \<open>Properties\<close>

text \<open>
  C35. However the audio stream is cut into reads from the ring, the encoder gets exactly the
  consecutive packets of \<open>frame_size\<close> frames of the stream, in order, and keeps the frames that do
  not fill a packet yet; an encoding that fails loses its own packet only.
\<close>

theorem audio_framing:
  assumes "loop_ok fs ch s" "list_all (audio_fits ch) ds"
  shows "feed_agrees (loop_ok fs ch) (loop_pending ch) el_core (feed_all (encoder_feed opus malloc_ok fs ch) ds s)
    (frames (unat fs) (encode_frames opus malloc_ok fs) (loop_pending ch s @ concat ds) (el_core s))"
  using assms by (rule audio.feed_all_frames)

text \<open>An encoder that passes its samples through and counts, and an empty queue.\<close>

definition plain_opus :: "nat opus_lib" where
  "plain_opus = \<lparr>op_create = (\<lambda>_ _. Some 0), op_configure = id, op_encode = (\<lambda>e pcm _. (Suc e, Some (take 4000 pcm)))\<rparr>"

definition plain_queue :: audio_queue where
  "plain_queue = \<lparr>rf_size = 3, rf_head = 0, rf_tail = 2, rf_entries = [None, None, None], rf_sem = 0,
     rf_free = Some audio_encoder_free_frame\<rparr>"

definition encoder_example :: "nat encode_loop" where
  "encoder_example = \<lparr>el_core = \<lparr>ec_ctx = Some \<lparr>ae_encoder = 0, ae_sample_rate = 100, ae_channels = 1,
       ae_frame_size = 2, ae_debug = False\<rparr>, ec_queue = plain_queue, ec_heap = \<lparr>ah_blocks = {#}, ah_next = 0\<rparr>\<rparr>,
     el_pending = [9, 9, 9, 9], el_pending_frames = 0\<rparr>"

theorem audio_framing_witness:
  "\<exists>s'. feed_all (encoder_feed plain_opus (\<lambda>_. (True, True)) 2 1) [[[1, 2]], [[3, 4], [5, 6]]] encoder_example = Ret (0, s') \<and>
     loop_pending 1 s' = [[5, 6]] \<and>
     map (map_option af_data) (rf_entries (ec_queue (el_core s'))) = [Some [1, 2, 3, 4], None, None]"
proof -
  let ?fr = "frames (unat (2 :: u32)) (encode_frames plain_opus (\<lambda>_. (True, True)) 2)
    (loop_pending 1 encoder_example @ concat [[[1, 2]], [[3, 4], [5, 6]]]) (el_core encoder_example)"
  have ok: "loop_ok 2 1 encoder_example" "list_all (audio_fits 1) [[[1, 2]], [[3, 4], [5, 6]]]"
    by (simp_all add: loop_ok_def encoder_example_def audio_fits_def)
  have "bindo ?fr (\<lambda>(r, c, rest). Ret (r, rest, map (map_option af_data) (rf_entries (ec_queue c)))) =
      Ret (0, [[5, 6]], [Some [1, 2, 3, 4], None, None])"
    by code_simp
  then obtain c where c: "?fr = Ret (0, c, [[5, 6]])"
    "map (map_option af_data) (rf_entries (ec_queue c)) = [Some [1, 2, 3, 4], None, None]"
    by (auto simp: bindo_Ret_iff)
  show ?thesis
    using audio_framing [OF ok, of plain_opus "\<lambda>_. (True, True)"] c by auto
qed

text \<open>
  C36. The encoder thread leaks nothing and frees nothing twice. For every audio format, every
  pattern of failing allocations, every Opus within its documented packet bound, and whatever the
  capture and the transport threads do meanwhile (write, close the ring, take packets), the thread
  faults nowhere; when it ends, with 0 or -1, all it allocated is freed except the packets that the
  transport queue still owns, each of them whole.
\<close>

theorem audio_encoder_main_memory:
  assumes "opus_bounded opus" "audio_env_ok (ac_channels ac) env" "audio_wf ac"
    and "\<And>ring. ac_ring_buffer ac = Some ring \<Longrightarrow> rb_capacity ring = ac_buffer_capacity_frames ac"
    and "0 < capacity" "rbuf_init True True capacity = Ret (Some q)"
  shows "audio_encoder_main opus env (Some (is_active, ac, q)) h = Block \<or>
    (\<exists>r q' h'. audio_encoder_main opus env (Some (is_active, ac, q)) h = Ret (r, Some q', h') \<and> r \<in> {0, - 1} \<and>
      (q' = q \<and> h' = h \<or> (\<exists>qs. packets_owned (ah_blocks h) (nat capacity) qs q' h')))"
proof (cases "ac_ring_buffer ac")
  case None
  then show ?thesis
    using assms(3) by (auto simp: audio_encoder_main_def audio_wf_def)
next
  case (Some ring)
  obtain buf :: audio_queue where buf: "rbuf_new capacity audio_encoder_free_frame = Ret buf"
    "rbuf_own audio_encoder_free_frame buf (nat capacity) [] []"
    using rbuf_new_own [OF assms(5), where fr = audio_encoder_free_frame] .
  then have set: "rbuf_set_free q (Some audio_encoder_free_frame) = Ret buf"
    using assms(6) by (simp add: rbuf_new_def)
  have own: "packets_owned (ah_blocks h) (nat capacity) [] buf h"
    using buf(2) by (auto simp: packets_owned_def intro: exI [of _ "[]"])
  consider "is_active" "ac_format_ready ac \<noteq> 0" "ac_buffer_capacity_frames ac \<noteq> 0"
    | "\<not> is_active \<or> ac_format_ready ac = 0 \<or> ac_buffer_capacity_frames ac = 0"
    by blast
  then show ?thesis
  proof cases
    case 2
    then show ?thesis
      using Some assms(3) by (auto simp: audio_encoder_main_def audio_wf_def)
  next
    case 1
    have main: "audio_encoder_main opus env (Some (is_active, ac, q)) h =
       (case audio_encoder_compute_frame_size (ac_sample_rate ac) (ac_channels ac) of
          None \<Rightarrow> Ret (- 1, Some buf, h)
        | Some frame_size \<Rightarrow>
            bindo (audio_encoder_startup opus (fst (av_malloc_ok env)) (av_debug env)
                     (ac_sample_rate ac) (ac_channels ac) h) (\<lambda>(ctx, h).
            case ctx of
              None \<Rightarrow> Ret (- 1, Some buf, h)
            | Some ctx \<Rightarrow> bindo (encoder_buffers opus env ac ring frame_size ctx buf h) (\<lambda>(r, q, h). Ret (r, Some q, h))))"
      using 1 Some assms(3) set by (simp add: audio_encoder_main_def audio_wf_def)
    show ?thesis
    proof (cases "audio_encoder_compute_frame_size (ac_sample_rate ac) (ac_channels ac)")
      case None
      then show ?thesis
        using main own by auto
    next
      case (Some fs)
      note fsz = frame_size_pos [OF Some]
      have ring: "ring_ok (ac_channels ac) (ac_buffer_capacity_frames ac) ring"
        using audio_wfD [OF assms(3) \<open>ac_ring_buffer ac = Some ring\<close>] assms(4) \<open>ac_ring_buffer ac = Some ring\<close>
        by (simp add: ring_ok_def)
      let ?h = "ah_malloc Opus_Encoder (ah_malloc Encoder_Context h)"
      have "packets_owned (ah_blocks h) (nat capacity) [] buf (?h\<lparr>ah_blocks := ah_blocks h\<rparr>)"
        "ah_blocks ?h = {#Opus_Encoder, Encoder_Context#} + ah_blocks h"
        using own by (simp_all add: packets_owned_def ah_malloc_def hmalloc_def)
      note loop = encoder_buffers_owned [OF assms(1,2) ring fsz(2,3) this]
      let ?start = "audio_encoder_startup opus (fst (av_malloc_ok env)) (av_debug env)
        (ac_sample_rate ac) (ac_channels ac) h"
      consider (failed) "?start = Ret (None, h)" | (started) ctx where "?start = Ret (Some ctx, ?h)"
        using startup_cases [OF Some, of opus] by blast
      then show ?thesis
      proof cases
        case failed
        then show ?thesis
          using main own Some by auto
      next
        case (started ctx)
        then have "audio_encoder_main opus env (Some (is_active, ac, q)) h =
            bindo (encoder_buffers opus env ac ring fs ctx buf ?h) (\<lambda>(r, q, h). Ret (r, Some q, h))"
          using main Some by simp
        then show ?thesis
          using loop [where ctx = ctx] by auto
      qed
    qed
  qed
qed

definition audio_env_example :: audio_env where
  "audio_env_example = \<lparr>av_malloc_ok = (True, True, True), av_packet_ok = (\<lambda>_. (True, True)), av_junk = (\<lambda>_. 0),
     av_debug = False, av_sched = [[Capture_Write [7, 8] 1, Capture_Close], []]\<rparr>"

definition empty_queue :: audio_queue where
  "empty_queue = plain_queue\<lparr>rf_free := None\<rparr>"

theorem audio_encoder_main_memory_witness:
  "\<exists>q' h'. audio_encoder_main plain_opus audio_env_example
       (Some (True, pw_example_context\<lparr>ac_sample_rate := 100\<rparr>, empty_queue)) \<lparr>ah_blocks = {#}, ah_next = 0\<rparr>
     = Ret (0, Some q', h') \<and> ah_blocks h' = {#Packet_Struct 0, Packet_Data 0#} \<and>
     (\<exists>qs. packets_owned {#} 2 qs q' h')"
proof -
  let ?ac = "pw_example_context\<lparr>ac_sample_rate := 100\<rparr>" and ?h = "\<lparr>ah_blocks = {#}, ah_next = 0\<rparr>"
  let ?main = "audio_encoder_main plain_opus audio_env_example (Some (True, ?ac, empty_queue)) ?h"
  have opus: "opus_bounded plain_opus"
    by (simp add: opus_bounded_def plain_opus_def)
  have env: "audio_env_ok (ac_channels ?ac) audio_env_example"
    by (simp add: audio_env_ok_def audio_env_example_def act_ok_def pw_example_context_def)
  have ac: "audio_wf ?ac"
    by (simp add: audio_wf_def pw_example_context_def pw_example_ring_def ring_wf_def)
  have cap: "\<And>ring. ac_ring_buffer ?ac = Some ring \<Longrightarrow> rb_capacity ring = ac_buffer_capacity_frames ?ac"
    by (auto simp: pw_example_context_def pw_example_ring_def)
  have q: "rbuf_init True True 2 = Ret (Some empty_queue)"
    by (simp add: rbuf_init_def empty_queue_def plain_queue_def numeral_eq_Suc)
  have "bindo ?main (\<lambda>(r, q, h). Ret (r, ah_blocks h)) = Ret (0, {#Packet_Struct 0, Packet_Data 0#})"
    by code_simp
  then obtain q' h' where m: "?main = Ret (0, q', h')" "ah_blocks h' = {#Packet_Struct 0, Packet_Data 0#}"
    by (auto simp: bindo_Ret_iff)
  then show ?thesis
    using audio_encoder_main_memory [OF opus env ac cap _ q, of True ?h] by force
qed

end
