(* ===== verification/Wl_Map.thy ===== *)
theory Wl_Map
  imports Prelude "HOL-Library.Word"
begin

text \<open>
  The object map of the patched libwayland, \<^verbatim>\<open>stratusd/libs/wayland/src/wayland-util.c\<close>: growing
  arrays (\<^verbatim>\<open>wl_array\<close>) of tagged entries, one for the object numbers of clients and one for those of
  servers, with a free list threaded through the removed entries. The proxy keeps two of them per
  session, one for the types of the objects and one for the data of the capture module.

  An entry of the C union is a word: an odd word is a link of the free list, an even one a pointer
  with a flag in bit 1. The model has a constructor for each case; the section on tags shows that
  the bit operations of the source tell the cases apart for aligned pointers. The map is
  polymorphic in what its pointers point to.
\<close>

section \<open>Growing arrays\<close>

text \<open>\<^verbatim>\<open>alloc\<close> is the number of bytes of the block; an item has \<open>k\<close> bytes. The items are the list.\<close>

record 'a wl_array =
  wa_items :: "'a list"
  wa_alloc :: nat

function grow_alloc :: "nat \<Rightarrow> nat \<Rightarrow> nat" where
  "grow_alloc a need = (if 0 < a \<and> a < need then grow_alloc (2 * a) need else a)"
  by pat_completeness auto
termination
  by (relation "measure (\<lambda>(a, need). need - a)") auto

declare grow_alloc.simps [simp del]

text \<open>Adding one item, whose value is still \<open>junk\<close>; \<open>malloc_ok\<close> says whether a needed allocation
  succeeds.\<close>

definition wl_array_add :: "bool \<Rightarrow> nat \<Rightarrow> 'a \<Rightarrow> 'a wl_array \<Rightarrow> 'a wl_array option" where
  "wl_array_add malloc_ok k junk a =
     (let alloc = grow_alloc (if wa_alloc a > 0 then wa_alloc a else 16) (length (wa_items a) * k + k) in
      if wa_alloc a < alloc
      then if malloc_ok then Some \<lparr>wa_items = wa_items a @ [junk], wa_alloc = alloc\<rparr> else None
      else Some (a\<lparr>wa_items := wa_items a @ [junk]\<rparr>))"

section \<open>Entries\<close>

datatype 'a map_entry = Free u32 | Null bool | Data bool 'a

definition entry_of :: "bool \<Rightarrow> 'a option \<Rightarrow> 'a map_entry" where
  "entry_of flag d = (case d of None \<Rightarrow> Null flag | Some p \<Rightarrow> Data flag p)"

primrec map_entry_is_free :: "'a map_entry \<Rightarrow> bool" where
  "map_entry_is_free (Free n) = True"
| "map_entry_is_free (Null f) = False"
| "map_entry_is_free (Data f p) = False"

primrec map_entry_get_data :: "'a map_entry \<Rightarrow> 'a option" where
  "map_entry_get_data (Free n) = None"
| "map_entry_get_data (Null f) = None"
| "map_entry_get_data (Data f p) = Some p"

primrec map_entry_get_flags :: "'a map_entry \<Rightarrow> bool" where
  "map_entry_get_flags (Free n) = False"
| "map_entry_get_flags (Null f) = f"
| "map_entry_get_flags (Data f p) = f"

section \<open>Maps\<close>

abbreviation WL_SERVER_ID_START :: u32 where "WL_SERVER_ID_START \<equiv> 0xff000000"
abbreviation WL_MAP_MAX_OBJECTS :: u32 where "WL_MAP_MAX_OBJECTS \<equiv> 0x00f00000"
abbreviation entry_size :: nat where "entry_size \<equiv> 8"

datatype map_side = WL_MAP_SERVER_SIDE | WL_MAP_CLIENT_SIDE

record 'a wl_map =
  wm_client :: "'a map_entry wl_array"
  wm_server :: "'a map_entry wl_array"
  wm_side :: map_side
  wm_free_list :: u32

text \<open>The array an object number belongs to, and the index in it.\<close>

definition map_entries :: "u32 \<Rightarrow> 'a wl_map \<Rightarrow> 'a map_entry wl_array" where
  "map_entries i m = (if i < WL_SERVER_ID_START then wm_client m else wm_server m)"

definition map_index :: "u32 \<Rightarrow> u32" where
  "map_index i = (if i < WL_SERVER_ID_START then i else i - WL_SERVER_ID_START)"

definition set_map_entries :: "u32 \<Rightarrow> 'a map_entry wl_array \<Rightarrow> 'a wl_map \<Rightarrow> 'a wl_map" where
  "set_map_entries i a m = (if i < WL_SERVER_ID_START then m\<lparr>wm_client := a\<rparr> else m\<lparr>wm_server := a\<rparr>)"

definition wl_map_init :: "map_side \<Rightarrow> 'a wl_map" where
  "wl_map_init side = \<lparr>wm_client = \<lparr>wa_items = [], wa_alloc = 0\<rparr>, wm_server = \<lparr>wa_items = [], wa_alloc = 0\<rparr>,
     wm_side = side, wm_free_list = 0\<rparr>"

text \<open>The entry a new object goes to: the head of the free list or a new one at the end. A link that
  leads to an entry in use would be read as a pointer.\<close>

definition next_of_entry :: "'a map_entry \<Rightarrow> u32 outcome" where
  "next_of_entry e =
     (case e of Free n \<Rightarrow> Ret n | Null f \<Rightarrow> Ret (if f then 2 else 0) | Data f p \<Rightarrow> Fault Bad_Cast)"

definition map_new_entry ::
    "bool \<Rightarrow> 'a map_entry wl_array \<Rightarrow> u32 \<Rightarrow> (nat \<times> 'a map_entry wl_array \<times> u32) option outcome" where
  "map_new_entry malloc_ok entries free_list =
     (if free_list \<noteq> 0
      then let i = unat (drop_bit 1 free_list) in
           if i < length (wa_items entries)
           then bindo (next_of_entry (wa_items entries ! i)) (\<lambda>n. Ret (Some (i, entries, n)))
           else Fault Out_Of_Bounds
      else Ret (map_option (\<lambda>a. (length (wa_items entries), a, 0))
                  (wl_array_add malloc_ok entry_size (Null False) entries)))"

definition wl_map_insert_new :: "bool \<Rightarrow> bool \<Rightarrow> 'a option \<Rightarrow> 'a wl_map \<Rightarrow> (u32 \<times> 'a wl_map) outcome" where
  "wl_map_insert_new malloc_ok flag d m =
     (let base = (if wm_side m = WL_MAP_CLIENT_SIDE then 0 else WL_SERVER_ID_START) in
      bindo (map_new_entry malloc_ok (map_entries base m) (wm_free_list m)) (\<lambda>r.
      case r of
        None \<Rightarrow> Ret (0, m)
      | Some (i, a, free_list) \<Rightarrow>
          let m = m\<lparr>wm_free_list := free_list\<rparr>; count = of_nat i in
          if count > WL_MAP_MAX_OBJECTS
          then Ret (0, set_map_entries base (a\<lparr>wa_items := (wa_items a)[i := Null False]\<rparr>) m)
          else Ret (count + base, set_map_entries base (a\<lparr>wa_items := (wa_items a)[i := entry_of flag d]\<rparr>) m)))"

definition wl_map_insert_at :: "bool \<Rightarrow> bool \<Rightarrow> u32 \<Rightarrow> 'a option \<Rightarrow> 'a wl_map \<Rightarrow> int \<times> 'a wl_map" where
  "wl_map_insert_at malloc_ok flag i d m =
     (let a = map_entries i m; k = map_index i; count = length (wa_items a) in
      if k > WL_MAP_MAX_OBJECTS then (- 1, m)
      else if count < unat k then (- 1, m)
      else
        (case (if count = unat k then wl_array_add malloc_ok entry_size (Null False) a else Some a) of
           None \<Rightarrow> (- 1, m)
         | Some a \<Rightarrow> (0, set_map_entries i (a\<lparr>wa_items := (wa_items a)[unat k := entry_of flag d]\<rparr>) m)))"

definition wl_map_reserve_new :: "bool \<Rightarrow> u32 \<Rightarrow> 'a wl_map \<Rightarrow> int \<times> 'a wl_map" where
  "wl_map_reserve_new malloc_ok i m =
     (let a = map_entries i m; k = map_index i; count = length (wa_items a) in
      if i < WL_SERVER_ID_START \<and> wm_side m = WL_MAP_CLIENT_SIDE then (- 1, m)
      else if \<not> i < WL_SERVER_ID_START \<and> wm_side m = WL_MAP_SERVER_SIDE then (- 1, m)
      else if k > WL_MAP_MAX_OBJECTS then (- 1, m)
      else if count < unat k then (- 1, m)
      else if count = unat k
           then (case wl_array_add malloc_ok entry_size (Null False) a of
                   None \<Rightarrow> (- 1, m)
                 | Some a \<Rightarrow> (0, set_map_entries i a m))
           else (case wa_items a ! unat k of
                   Null False \<Rightarrow> (0, m)
                 | _ \<Rightarrow> (- 1, m)))"

text \<open>With an empty free list the removed entry becomes the word 0, which reads as NULL data. There is
  no check of the index; an object number of the other side is ignored.\<close>

definition wl_map_remove :: "u32 \<Rightarrow> 'a wl_map \<Rightarrow> 'a wl_map outcome" where
  "wl_map_remove i m =
     (if (i < WL_SERVER_ID_START \<and> wm_side m = WL_MAP_SERVER_SIDE) \<or>
         (\<not> i < WL_SERVER_ID_START \<and> wm_side m = WL_MAP_CLIENT_SIDE) then Ret m
      else
        let a = map_entries i m; k = map_index i in
        if unat k < length (wa_items a)
        then let e = (if wm_free_list m = 0 then Null False else Free (wm_free_list m)) in
             Ret ((set_map_entries i (a\<lparr>wa_items := (wa_items a)[unat k := e]\<rparr>) m)
                    \<lparr>wm_free_list := push_bit 1 k + 1\<rparr>)
        else Fault Out_Of_Bounds)"

definition wl_map_lookup :: "'a wl_map \<Rightarrow> u32 \<Rightarrow> 'a option" where
  "wl_map_lookup m i =
     (let items = wa_items (map_entries i m); k = unat (map_index i) in
      if k < length items \<and> \<not> map_entry_is_free (items ! k) then map_entry_get_data (items ! k) else None)"

definition wl_map_lookup_flags :: "'a wl_map \<Rightarrow> u32 \<Rightarrow> bool" where
  "wl_map_lookup_flags m i =
     (let items = wa_items (map_entries i m); k = unat (map_index i) in
      if k < length items \<and> \<not> map_entry_is_free (items ! k) then map_entry_get_flags (items ! k) else False)"

text \<open>
  Iteration: \<open>get\<close> reads the entries from the state, which the callback may change, \<open>count\<close> is read
  once. The callback is given the data, the flag and the index in the array; it yields whether to
  continue. An entry of NULL data with the flag set is not the word 0 and is visited.
\<close>

function for_each_helper ::
    "('s \<Rightarrow> 'a map_entry list) \<Rightarrow> ('a option \<Rightarrow> bool \<Rightarrow> nat \<Rightarrow> 's \<Rightarrow> (bool \<times> 's) outcome) \<Rightarrow> nat \<Rightarrow> nat \<Rightarrow> 's \<Rightarrow>
     (bool \<times> 's) outcome" where
  "for_each_helper get func n idx s =
     (if idx < n
      then if idx < length (get s)
           then if map_entry_is_free (get s ! idx) \<or> get s ! idx = Null False
                then for_each_helper get func n (Suc idx) s
                else bindo (func (map_entry_get_data (get s ! idx)) (map_entry_get_flags (get s ! idx)) idx s)
                       (\<lambda>(continue, s).
                        if continue then for_each_helper get func n (Suc idx) s else Ret (False, s))
           else Fault Out_Of_Bounds
      else Ret (True, s))"
  by pat_completeness auto
termination
  by (relation "measure (\<lambda>(get, func, n, idx, s). n - idx)") auto

declare for_each_helper.simps [simp del]

definition wl_map_for_each ::
    "('s \<Rightarrow> 'a wl_map) \<Rightarrow> ('a option \<Rightarrow> bool \<Rightarrow> nat \<Rightarrow> 's \<Rightarrow> (bool \<times> 's) outcome) \<Rightarrow> 's \<Rightarrow> 's outcome" where
  "wl_map_for_each get func s =
     bindo (for_each_helper (\<lambda>s. wa_items (wm_client (get s))) func (length (wa_items (wm_client (get s)))) 0 s)
       (\<lambda>(continue, s).
        if continue
        then bindo (for_each_helper (\<lambda>s. wa_items (wm_server (get s))) func
                      (length (wa_items (wm_server (get s)))) 0 s) (\<lambda>(_, s). Ret s)
        else Ret s)"

section \<open>Tags\<close>

unbundle bit_operations_syntax

text \<open>The word of an entry, for pointers at addresses \<open>4 * addr p\<close>.\<close>

primrec entry_word :: "('a \<Rightarrow> u64) \<Rightarrow> 'a map_entry \<Rightarrow> u64" where
  "entry_word addr (Free n) = ucast n"
| "entry_word addr (Null f) = (if f then 2 else 0)"
| "entry_word addr (Data f p) = 4 * addr p + (if f then 2 else 0)"

primrec entry_ok :: "('a \<Rightarrow> u64) \<Rightarrow> 'a map_entry \<Rightarrow> bool" where
  "entry_ok addr (Free n) = odd n"
| "entry_ok addr (Null f) = True"
| "entry_ok addr (Data f p) = (4 * addr p \<noteq> 0)"

lemma word_tagged: "4 * (q :: u64) = push_bit 2 q" "push_bit 2 (q :: u64) + 2 = push_bit 2 q OR 2"
proof -
  show "4 * q = push_bit 2 q"
    by (simp add: push_bit_eq_mult)
  have "push_bit 2 q AND 2 = 0"
    by (rule bit_eqI) (auto simp: bit_simps)
  then show "push_bit 2 q + 2 = push_bit 2 q OR 2"
    by (rule disjunctive_add_eq_or)
qed

lemma three_mask: "(3 :: u64) = mask 2"
  by (simp add: mask_eq_exp_minus_1)

lemma word_low_bits:
  fixes q :: u64
  shows "4 * q AND 1 = 0" "(4 * q + 2) AND 1 = 0"
    "4 * q AND NOT 3 = 4 * q" "(4 * q + 2) AND NOT 3 = 4 * q"
    "drop_bit 1 (4 * q) AND 1 = 0" "drop_bit 1 (4 * q + 2) AND 1 = 1"
  unfolding word_tagged three_mask
  by (rule bit_eqI, simp only: bit_and_iff bit_not_iff bit_or_iff bit_mask_iff bit_push_bit_iff bit_drop_bit_eq
      bit_2_iff bit_1_iff bit_0_eq bot_apply comp_apply, auto)+

text \<open>The three bit tests of the source on the word of an entry.\<close>

lemma entry_tags:
  assumes "entry_ok addr e"
  shows "entry_word addr e AND 1 \<noteq> 0 \<longleftrightarrow> map_entry_is_free e"
    and "\<not> map_entry_is_free e \<Longrightarrow>
      entry_word addr e AND NOT 3 = (case map_entry_get_data e of None \<Rightarrow> 0 | Some p \<Rightarrow> 4 * addr p)"
    and "\<not> map_entry_is_free e \<Longrightarrow> drop_bit 1 (entry_word addr e) AND 1 = of_bool (map_entry_get_flags e)"
proof -
  have z: "(2 :: u64) AND 1 = 0" "(2 :: u64) AND NOT 3 = 0" "drop_bit 1 (2 :: u64) AND 1 = 1"
    using word_low_bits [of 0] by simp_all
  have link: "(ucast n :: u64) AND 1 \<noteq> 0" if "odd n" for n :: u32
  proof -
    have "bit (ucast n :: u64) 0"
      using that by (simp only: bit_unsigned_iff) (simp add: bit_0)
    then show ?thesis
      by (simp add: and_one_eq bit_0 odd_iff_mod_2_eq_one)
  qed
  show "entry_word addr e AND 1 \<noteq> 0 \<longleftrightarrow> map_entry_is_free e"
  proof (cases e)
    case (Free n)
    then show ?thesis
      using assms link [of n] by simp
  next
    case (Null f)
    then show ?thesis
      by (cases f) (simp_all add: z)
  next
    case (Data f p)
    then show ?thesis
      using word_low_bits(1,2) [of "addr p"]
      by (cases f) (simp_all only: entry_word.simps map_entry_is_free.simps if_True if_False add_0_right simp_thms)
  qed
  show "\<not> map_entry_is_free e \<Longrightarrow>
      entry_word addr e AND NOT 3 = (case map_entry_get_data e of None \<Rightarrow> 0 | Some p \<Rightarrow> 4 * addr p)"
    by (cases e) (simp_all only: entry_word.simps map_entry_is_free.simps map_entry_get_data.simps option.case
        word_low_bits z and_zero_eq zero_and_eq add_0_right not_True_eq_False split: if_split, simp_all)
  show "\<not> map_entry_is_free e \<Longrightarrow> drop_bit 1 (entry_word addr e) AND 1 = of_bool (map_entry_get_flags e)"
    by (cases e) (simp_all only: entry_word.simps map_entry_is_free.simps map_entry_get_flags.simps of_bool_eq
        word_low_bits z add_0_right not_True_eq_False drop_bit_of_0 zero_and_eq split: if_split, simp_all)
qed


section \<open>Well-formed maps\<close>

text \<open>
  Every word of the arrays is an odd link, 0, 2 or a tagged pointer, so that the constructors of the
  model stand for the words the source tests, and the head of the free list is 0 or odd. The entries
  lie in the block of their array.
\<close>

definition link_ok :: "u32 \<Rightarrow> bool" where
  "link_ok n \<longleftrightarrow> n = 0 \<or> odd n"

definition entries_ok :: "('a \<Rightarrow> u64) \<Rightarrow> 'a map_entry wl_array \<Rightarrow> bool" where
  "entries_ok addr a \<longleftrightarrow> list_all (entry_ok addr) (wa_items a) \<and> length (wa_items a) * entry_size \<le> wa_alloc a"

definition wl_map_ok :: "('a \<Rightarrow> u64) \<Rightarrow> 'a wl_map \<Rightarrow> bool" where
  "wl_map_ok addr m \<longleftrightarrow>
     link_ok (wm_free_list m) \<and> entries_ok addr (wm_client m) \<and> entries_ok addr (wm_server m)"

lemma grow_alloc_ge: "0 < a \<Longrightarrow> need \<le> grow_alloc a need \<and> a \<le> grow_alloc a need"
proof (induction a need rule: grow_alloc.induct)
  case (1 a need)
  then show ?case
    by (simp add: grow_alloc.simps [of a need]) linarith
qed

lemma wl_array_add_fits:
  assumes "wl_array_add ok k x a = Some a'"
  shows "length (wa_items a') * k \<le> wa_alloc a'"
proof -
  let ?n = "length (wa_items a) * k + k"
  have "?n \<le> grow_alloc (if wa_alloc a > 0 then wa_alloc a else 16) ?n"
    using grow_alloc_ge [of "if wa_alloc a > 0 then wa_alloc a else 16" ?n] by simp
  then show ?thesis
    using assms by (auto simp: wl_array_add_def Let_def split: if_splits)
qed

lemma odd_link: "odd (push_bit 1 (k :: u32) + 1)"
  by (simp add: push_bit_eq_mult)

lemma list_all_update: "list_all P xs \<Longrightarrow> P x \<Longrightarrow> list_all P (xs[i := x])"
  by (cases "i < length xs") (auto simp: list_all_length nth_list_update)

lemma map_entries_ok: "wl_map_ok addr m \<Longrightarrow> entries_ok addr (map_entries i m)"
  by (simp add: wl_map_ok_def map_entries_def)

lemma set_map_entries_ok:
  "wl_map_ok addr m \<Longrightarrow> entries_ok addr a \<Longrightarrow> wl_map_ok addr (set_map_entries i a m)"
  by (simp add: wl_map_ok_def set_map_entries_def)

lemma entry_of_ok: "(\<And>p. d = Some p \<Longrightarrow> 4 * addr p \<noteq> 0) \<Longrightarrow> entry_ok addr (entry_of flag d)"
  by (simp add: entry_of_def split: option.split)

lemma wl_array_add_items: "wl_array_add ok k x a = Some a' \<Longrightarrow> wa_items a' = wa_items a @ [x]"
  by (auto simp: wl_array_add_def Let_def split: if_splits)

lemma wl_array_add_ok: "\<exists>a'. wl_array_add True k x a = Some a'"
  by (simp add: wl_array_add_def Let_def)

lemma entries_ok_update:
  "entries_ok addr a \<Longrightarrow> entry_ok addr e \<Longrightarrow> entries_ok addr (a\<lparr>wa_items := (wa_items a)[k := e]\<rparr>)"
  by (simp add: entries_ok_def list_all_update)

lemma entries_ok_add: "wl_array_add ok entry_size (Null False) a = Some a' \<Longrightarrow> entries_ok addr a \<Longrightarrow> entries_ok addr a'"
  using wl_array_add_fits [of ok entry_size "Null False" a a'] by (auto simp: entries_ok_def dest: wl_array_add_items)

lemma wl_map_insert_at_ok:
  assumes "wl_map_ok addr m" "\<And>p. d = Some p \<Longrightarrow> 4 * addr p \<noteq> 0"
  shows "wl_map_ok addr (snd (wl_map_insert_at ok flag i d m))"
proof -
  have "wl_map_ok addr (set_map_entries i (a\<lparr>wa_items := (wa_items a)[k := entry_of flag d]\<rparr>) m)"
    if "entries_ok addr a" for a k
    using that entry_of_ok [of d addr flag, OF assms(2)]
    by (intro set_map_entries_ok [OF assms(1)] entries_ok_update) auto
  then show ?thesis
    using assms(1) map_entries_ok [OF assms(1), of i]
    by (auto simp: wl_map_insert_at_def Let_def dest: entries_ok_add split: option.split)
qed

lemma wl_map_remove_ok:
  assumes "wl_map_remove i m = Ret m'" "wl_map_ok addr m"
  shows "wl_map_ok addr m'"
proof -
  have e: "entry_ok addr (if wm_free_list m = 0 then Null False else Free (wm_free_list m))"
    using assms(2) by (auto simp: wl_map_ok_def link_ok_def)
  show ?thesis
    using assms(1)
  proof (cases "m' = m")
    case False
    then have m': "m' = (set_map_entries i ((map_entries i m)\<lparr>wa_items := (wa_items (map_entries i m))[unat (map_index i) :=
        if wm_free_list m = 0 then Null False else Free (wm_free_list m)]\<rparr>) m)
          \<lparr>wm_free_list := push_bit 1 (map_index i) + 1\<rparr>"
      using assms(1) by (auto simp: wl_map_remove_def Let_def split: if_splits)
    have "wl_map_ok addr (set_map_entries i ((map_entries i m)\<lparr>wa_items := (wa_items (map_entries i m))[unat (map_index i) :=
        if wm_free_list m = 0 then Null False else Free (wm_free_list m)]\<rparr>) m)"
      by (intro set_map_entries_ok [OF assms(2)] entries_ok_update map_entries_ok [OF assms(2)] e)
    then show ?thesis
      unfolding m' by (simp add: wl_map_ok_def link_ok_def odd_link del: One_nat_def)
  qed (use assms in simp)
qed

section \<open>Maps as partial functions\<close>

text \<open>\<open>known m i\<close>: the array of the object number has an entry for it.\<close>

definition known :: "'a wl_map \<Rightarrow> u32 \<Rightarrow> bool" where
  "known m i \<longleftrightarrow> unat (map_index i) < length (wa_items (map_entries i m))"

lemma map_entries_set [simp]:
  "map_entries j (set_map_entries i a m) =
     (if (i < WL_SERVER_ID_START) = (j < WL_SERVER_ID_START) then a else map_entries j m)"
  by (auto simp: map_entries_def set_map_entries_def)

lemma map_entries_free_list [simp]: "map_entries j (m\<lparr>wm_free_list := n\<rparr>) = map_entries j m"
  by (simp add: map_entries_def)

lemma map_index_inj:
  "(i < WL_SERVER_ID_START) = (j < WL_SERVER_ID_START) \<Longrightarrow> unat (map_index i) = unat (map_index j) \<longleftrightarrow> i = j"
  by (auto simp: map_index_def simp flip: word_unat_eq_iff)

text \<open>What an entry holds, and the map of a change to one entry of one array.\<close>

definition entry_data :: "'a map_entry list \<Rightarrow> nat \<Rightarrow> 'a option" where
  "entry_data items k = (if k < length items \<and> \<not> map_entry_is_free (items ! k) then map_entry_get_data (items ! k) else None)"

lemma wl_map_lookup_entry: "wl_map_lookup m i = entry_data (wa_items (map_entries i m)) (unat (map_index i))"
  by (simp add: wl_map_lookup_def entry_data_def Let_def)

lemma entry_data_update:
  "k < length items \<Longrightarrow> entry_data (items[k := e]) = (entry_data items)(k := map_entry_get_data e)"
  by (rule ext) (cases e; auto simp: entry_data_def nth_list_update)

lemma entry_data_append: "entry_data (items @ [Null False]) = entry_data items"
  by (rule ext) (auto simp: entry_data_def nth_append less_Suc_eq)

lemma lookup_change:
  assumes "entry_data (wa_items a) = (entry_data (wa_items (map_entries i m)))(unat (map_index i) := d)"
  shows "wl_map_lookup (set_map_entries i a m) = (wl_map_lookup m)(i := d)"
proof (rule ext)
  fix j
  show "wl_map_lookup (set_map_entries i a m) j = ((wl_map_lookup m)(i := d)) j"
  proof (cases "(i < WL_SERVER_ID_START) = (j < WL_SERVER_ID_START)")
    case True
    then have "map_entries i m = map_entries j m"
      by (simp add: map_entries_def)
    then show ?thesis
      using map_index_inj [OF True] True by (auto simp: wl_map_lookup_entry assms)
  qed (auto simp: wl_map_lookup_entry)
qed

lemma lookup_free_list [simp]: "wl_map_lookup (m\<lparr>wm_free_list := n\<rparr>) = wl_map_lookup m"
  by (rule ext) (simp add: wl_map_lookup_entry)

lemma map_entry_get_data_of [simp]: "map_entry_get_data (entry_of flag d) = d"
  by (cases d) (simp_all add: entry_of_def)

lemma wl_map_lookup_known: "wl_map_lookup m i = Some p \<Longrightarrow> known m i"
  by (simp add: wl_map_lookup_def known_def Let_def split: if_splits)

lemma known_set_map_entries:
  assumes "length (wa_items a) = length (wa_items (map_entries i m))"
  shows "known (set_map_entries i a m) = known m"
  using assms by (intro ext) (auto simp: known_def map_entries_def set_map_entries_def)

text \<open>The lemmas on the operations.\<close>

lemma wl_map_insert_at_known:
  assumes "known m i" "map_index i \<le> WL_MAP_MAX_OBJECTS"
  shows "fst (wl_map_insert_at ok flag i d m) = 0"
  using assms by (simp add: wl_map_insert_at_def known_def Let_def not_less)

lemma wl_map_insert_at_result: "fst (wl_map_insert_at ok flag i d m) = 0 \<or> wl_map_insert_at ok flag i d m = (- 1, m)"
  by (auto simp: wl_map_insert_at_def Let_def split: option.split)

lemma wl_map_insert_at_lookup:
  assumes "wl_map_insert_at ok flag i d m = (0, m')"
  shows "wl_map_lookup m' = (wl_map_lookup m)(i := d)" "known m' i" "known m j \<Longrightarrow> known m' j"
    "map_index i \<le> WL_MAP_MAX_OBJECTS" "wm_side m' = wm_side m"
proof -
  let ?a = "map_entries i m" and ?k = "unat (map_index i)"
  obtain a where a: "m' = set_map_entries i (a\<lparr>wa_items := (wa_items a)[?k := entry_of flag d]\<rparr>) m"
    "wa_items a = wa_items ?a @ [Null False] \<or> wa_items a = wa_items ?a" "?k < length (wa_items a)"
    and max: "\<not> map_index i > WL_MAP_MAX_OBJECTS"
  proof -
    obtain a where "(if length (wa_items ?a) = ?k then wl_array_add ok entry_size (Null False) ?a else Some ?a) = Some a"
      "m' = set_map_entries i (a\<lparr>wa_items := (wa_items a)[?k := entry_of flag d]\<rparr>) m"
      "\<not> map_index i > WL_MAP_MAX_OBJECTS" "\<not> length (wa_items ?a) < ?k"
      using assms by (auto simp: wl_map_insert_at_def Let_def split: if_splits option.splits)
    then show thesis
      using that [of a] wl_array_add_items [of ok entry_size "Null False" ?a a] by (auto split: if_splits)
  qed
  have ed: "entry_data (wa_items a) = entry_data (wa_items ?a)"
    using a(2) by (auto simp: entry_data_append)
  show "wl_map_lookup m' = (wl_map_lookup m)(i := d)"
    unfolding a(1) by (rule lookup_change) (simp add: entry_data_update a(3) ed)
  show "known m' i"
    using a(3) by (simp add: a(1) known_def)
  show "known m' j" if "known m j"
    using that a(2,3) by (auto simp: a(1) known_def split: if_splits) (auto simp: map_entries_def split: if_splits)
  show "map_index i \<le> WL_MAP_MAX_OBJECTS" "wm_side m' = wm_side m"
    using max by (simp_all add: not_less a(1) set_map_entries_def)
qed

lemma wl_map_remove_lookup:
  assumes "known m i" "i < WL_SERVER_ID_START" "wm_side m = WL_MAP_CLIENT_SIDE"
  obtains m' where "wl_map_remove i m = Ret m'" "wl_map_lookup m' = (wl_map_lookup m)(i := None)"
    "known m' = known m" "wm_side m' = WL_MAP_CLIENT_SIDE"
proof -
  let ?a = "map_entries i m" and ?k = "unat (map_index i)"
  let ?e = "if wm_free_list m = 0 then Null False else Free (wm_free_list m)"
  let ?m = "set_map_entries i (?a\<lparr>wa_items := (wa_items ?a)[?k := ?e]\<rparr>) m"
  let ?m' = "?m\<lparr>wm_free_list := push_bit 1 (map_index i) + 1\<rparr>"
  have k: "?k < length (wa_items ?a)"
    using assms(1) by (simp add: known_def)
  have "wl_map_remove i m = Ret ?m'"
    using k assms(2,3) by (simp add: wl_map_remove_def Let_def)
  moreover have "wl_map_lookup ?m = (wl_map_lookup m)(i := None)"
    by (rule lookup_change) (simp add: entry_data_update k)
  moreover have "known ?m = known m"
    by (rule known_set_map_entries) simp
  moreover have "known ?m' = known ?m"
    by (rule ext) (simp add: known_def)
  ultimately show thesis
    using that [of ?m'] assms(3) by (simp add: set_map_entries_def)
qed

section \<open>The contract of an object map\<close>

text \<open>
  What the proxy and the capture module rely on: the map as the numbers of its client and server
  entries and a partial function from object numbers, with the result of every call.
\<close>

type_synonym 'a table = "nat \<times> nat \<times> (u32 \<rightharpoonup> 'a)"

definition table_size :: "u32 \<Rightarrow> 'a table \<Rightarrow> nat" where
  "table_size i t = (case t of (nc, ns, f) \<Rightarrow> if i < WL_SERVER_ID_START then nc else ns)"

definition table_insert :: "u32 \<Rightarrow> 'a option \<Rightarrow> 'a table \<Rightarrow> int \<times> 'a table" where
  "table_insert i d t =
     (if map_index i > WL_MAP_MAX_OBJECTS \<or> table_size i t < unat (map_index i) then (- 1, t)
      else let (nc, ns, f) = t; n = max (table_size i t) (Suc (unat (map_index i))) in
           (0, if i < WL_SERVER_ID_START then (n, ns, f(i := d)) else (nc, n, f(i := d))))"

text \<open>A map of the client side forgets the numbers of clients only.\<close>

definition table_remove :: "u32 \<Rightarrow> 'a table \<Rightarrow> 'a table outcome" where
  "table_remove i t =
     (let (nc, ns, f) = t in
      if \<not> i < WL_SERVER_ID_START then Ret t
      else if unat (map_index i) < nc then Ret (nc, ns, f(i := None)) else Fault Out_Of_Bounds)"

datatype 'a map_call = Insert u32 "'a option" | Remove u32 | Lookup u32

text \<open>A run of calls collects the results of the insertions and what the lookups find.\<close>

datatype 'a map_answer = Code int | Found "'a option"

fun map_do ::
    "(u32 \<Rightarrow> 'a option \<Rightarrow> 'm \<Rightarrow> int \<times> 'm) \<Rightarrow> (u32 \<Rightarrow> 'm \<Rightarrow> 'm outcome) \<Rightarrow> ('m \<Rightarrow> u32 \<Rightarrow> 'a option) \<Rightarrow>
     'a map_call \<Rightarrow> 'm \<times> 'a map_answer list \<Rightarrow> ('m \<times> 'a map_answer list) outcome" where
  "map_do ins rem look (Insert i d) (m, out) = (case ins i d m of (r, m') \<Rightarrow> Ret (m', out @ [Code r]))"
| "map_do ins rem look (Remove i) (m, out) = bindo (rem i m) (\<lambda>m'. Ret (m', out))"
| "map_do ins rem look (Lookup i) (m, out) = Ret (m, out @ [Found (look m i)])"

definition map_answers ::
    "(u32 \<Rightarrow> 'a option \<Rightarrow> 'm \<Rightarrow> int \<times> 'm) \<Rightarrow> (u32 \<Rightarrow> 'm \<Rightarrow> 'm outcome) \<Rightarrow> ('m \<Rightarrow> u32 \<Rightarrow> 'a option) \<Rightarrow>
     'a map_call list \<Rightarrow> 'm \<Rightarrow> 'a map_answer list outcome" where
  "map_answers ins rem look calls m = bindo (foldo (map_do ins rem look) calls (m, [])) (\<lambda>(m, out). Ret out)"

locale object_map =
  fixes ok :: "'m \<Rightarrow> bool"
    and table :: "'m \<Rightarrow> 'a table"
    and ins :: "u32 \<Rightarrow> 'a option \<Rightarrow> 'm \<Rightarrow> int \<times> 'm"
    and rem :: "u32 \<Rightarrow> 'm \<Rightarrow> 'm outcome"
    and look :: "'m \<Rightarrow> u32 \<Rightarrow> 'a option"
  assumes lookup_law: "look m i = snd (snd (table m)) i"
    and insert_law: "ok m \<Longrightarrow> ins i d m = (r, m') \<Longrightarrow> ok m' \<and> table_insert i d (table m) = (r, table m')"
    and remove_law: "ok m \<Longrightarrow> rem i m = Ret m' \<Longrightarrow> ok m' \<and> table_remove i (table m) = Ret (table m')"
    and remove_fault: "ok m \<Longrightarrow> (\<forall>m'. rem i m \<noteq> Ret m') \<Longrightarrow> table_remove i (table m) = Fault Out_Of_Bounds \<and> rem i m = Fault Out_Of_Bounds"
begin

abbreviation "table_look t \<equiv> snd (snd t)"

lemma call_refines:
  assumes "ok m"
  shows "(case map_do ins rem look c (m, out) of
       Ret (m', out') \<Rightarrow> ok m' \<and> map_do table_insert table_remove table_look c (table m, out) = Ret (table m', out')
     | r \<Rightarrow> r = Fault Out_Of_Bounds \<and> map_do table_insert table_remove table_look c (table m, out) = Fault Out_Of_Bounds)"
proof (cases c)
  case (Insert i d)
  then show ?thesis
    using insert_law [OF assms, of i d] by (cases "ins i d m") auto
next
  case (Remove i)
  then show ?thesis
    using remove_law [OF assms, of i] remove_fault [OF assms, of i] by (cases "rem i m") auto
next
  case (Lookup i)
  then show ?thesis
    using assms lookup_law by simp
qed

lemma run_refines:
  assumes "ok m"
  shows "bindo (foldo (map_do ins rem look) calls (m, out)) (\<lambda>(m, out). Ret out) =
    bindo (foldo (map_do table_insert table_remove table_look) calls (table m, out)) (\<lambda>(m, out). Ret out)"
  using assms
proof (induction calls arbitrary: m out)
  case (Cons c calls)
  then show ?case
    using call_refines [OF Cons.prems, of c out] Cons.IH
    by (auto simp: bindo_assoc split: outcome.splits prod.splits)
qed simp

lemma answers_refine:
  "ok m \<Longrightarrow> map_answers ins rem look calls m = map_answers table_insert table_remove table_look calls (table m)"
  unfolding map_answers_def by (rule run_refines)

end

definition wl_map_table :: "'a wl_map \<Rightarrow> 'a table" where
  "wl_map_table m = (length (wa_items (wm_client m)), length (wa_items (wm_server m)), wl_map_lookup m)"

lemma table_size_map: "table_size i (wl_map_table m) = length (wa_items (map_entries i m))"
  by (simp add: table_size_def wl_map_table_def map_entries_def)

lemma known_table: "known m i \<longleftrightarrow> unat (map_index i) < table_size i (wl_map_table m)"
  by (simp add: known_def table_size_map)

lemma wl_map_table_set:
  "wl_map_table (set_map_entries i a m) =
     (case wl_map_table m of (nc, ns, f) \<Rightarrow>
        if i < WL_SERVER_ID_START then (length (wa_items a), ns, wl_map_lookup (set_map_entries i a m))
        else (nc, length (wa_items a), wl_map_lookup (set_map_entries i a m)))"
  by (simp add: wl_map_table_def set_map_entries_def)

lemma wl_map_insert_at_table:
  "table_insert i d (wl_map_table m) = (fst (wl_map_insert_at True flag i d m), wl_map_table (snd (wl_map_insert_at True flag i d m)))"
proof (cases "map_index i > WL_MAP_MAX_OBJECTS \<or> length (wa_items (map_entries i m)) < unat (map_index i)")
  case True
  then show ?thesis
    by (auto simp: wl_map_insert_at_def table_insert_def table_size_map Let_def)
next
  case False
  let ?a = "map_entries i m" and ?k = "unat (map_index i)"
  obtain a where a: "(if length (wa_items ?a) = ?k then wl_array_add True entry_size (Null False) ?a else Some ?a) = Some a"
    using wl_array_add_ok [of entry_size "Null False" ?a] by (cases "length (wa_items ?a) = ?k") auto
  have r: "wl_map_insert_at True flag i d m = (0, set_map_entries i (a\<lparr>wa_items := (wa_items a)[?k := entry_of flag d]\<rparr>) m)"
    using False a by (simp add: wl_map_insert_at_def Let_def)
  have "length (wa_items a) = max (length (wa_items ?a)) (Suc ?k)"
    using a False wl_array_add_items [of True entry_size "Null False" ?a a] by (auto split: if_splits)
  then show ?thesis
    using False wl_map_insert_at_lookup(1) [OF r]
    by (simp add: r table_insert_def table_size_map wl_map_table_set Let_def)
      (simp add: wl_map_table_def)
qed

interpretation wm: object_map "\<lambda>m. wm_side m = WL_MAP_CLIENT_SIDE" wl_map_table "wl_map_insert_at True flag"
    wl_map_remove wl_map_lookup for flag
proof unfold_locales
  fix m :: "'a wl_map" and i d r m'
  show "wl_map_lookup m i = snd (snd (wl_map_table m)) i"
    by (simp add: wl_map_table_def)
  show "wm_side m' = WL_MAP_CLIENT_SIDE \<and> table_insert i d (wl_map_table m) = (r, wl_map_table m')"
    if "wm_side m = WL_MAP_CLIENT_SIDE" "wl_map_insert_at True flag i d m = (r, m')"
    using that wl_map_insert_at_table [of i d m flag] wl_map_insert_at_result [of True flag i d m]
      wl_map_insert_at_lookup(5) [of True flag i d m m'] by auto
next
  fix m :: "'a wl_map" and i
  assume side: "wm_side m = WL_MAP_CLIENT_SIDE"
  consider (srv) "\<not> i < WL_SERVER_ID_START" | (kn) "i < WL_SERVER_ID_START" "known m i"
    | (un) "i < WL_SERVER_ID_START" "\<not> known m i" by blast
  note cases = this
  show "wm_side m' = WL_MAP_CLIENT_SIDE \<and> table_remove i (wl_map_table m) = Ret (wl_map_table m')"
    if r: "wl_map_remove i m = Ret m'" for m'
    using cases
  proof cases
    case kn
    obtain m'' where m'': "wl_map_remove i m = Ret m''" "wl_map_lookup m'' = (wl_map_lookup m)(i := None)"
      "known m'' = known m" "wm_side m'' = WL_MAP_CLIENT_SIDE"
      using wl_map_remove_lookup [OF kn(2,1) side] by blast
    have "length (wa_items (wm_client m')) = length (wa_items (wm_client m))" "wm_server m' = wm_server m"
      using r kn side
      by (auto simp: wl_map_remove_def Let_def set_map_entries_def map_entries_def split: if_splits)
    then show ?thesis
      using m'' r kn by (simp add: table_remove_def wl_map_table_def known_def map_entries_def)
  qed (use r side in \<open>auto simp: wl_map_remove_def table_remove_def wl_map_table_def known_def map_entries_def Let_def
      split: if_splits\<close>)
  show "table_remove i (wl_map_table m) = Fault Out_Of_Bounds \<and> wl_map_remove i m = Fault Out_Of_Bounds"
    if "\<forall>m'. wl_map_remove i m \<noteq> Ret m'"
    using that side
    by (auto simp: wl_map_remove_def table_remove_def wl_map_table_def map_entries_def Let_def split: if_splits)
qed

section \<open>Iteration\<close>

text \<open>The invariant rule of the loop: \<open>I i s\<close> holds before entry \<open>i\<close>, and a call may fail with \<open>f\<close> when \<open>P\<close> holds.\<close>

lemma for_each_helper_or_fault:
  assumes "I idx s" "idx \<le> n"
    and len: "\<And>i s. I i s \<Longrightarrow> i < n \<Longrightarrow> i < length (get s)"
    and skip: "\<And>i s. I i s \<Longrightarrow> i < n \<Longrightarrow> map_entry_is_free (get s ! i) \<or> get s ! i = Null False \<Longrightarrow> I (Suc i) s"
    and step: "\<And>i s. I i s \<Longrightarrow> i < n \<Longrightarrow> \<not> map_entry_is_free (get s ! i) \<Longrightarrow> get s ! i \<noteq> Null False \<Longrightarrow>
      (\<exists>s'. func (map_entry_get_data (get s ! i)) (map_entry_get_flags (get s ! i)) i s = Ret (True, s') \<and> I (Suc i) s') \<or>
      (P \<and> func (map_entry_get_data (get s ! i)) (map_entry_get_flags (get s ! i)) i s = Fault f)"
  shows "(\<exists>s'. for_each_helper get func n idx s = Ret (True, s') \<and> I n s') \<or> (P \<and> for_each_helper get func n idx s = Fault f)"
  using assms(1,2)
proof (induction "n - idx" arbitrary: idx s)
  case 0
  then show ?case
    by (simp add: for_each_helper.simps)
next
  case (Suc k)
  then have less: "idx < n" "k = n - Suc idx"
    by auto
  note len = len [OF Suc.prems(1) less(1)]
  show ?case
  proof (cases "map_entry_is_free (get s ! idx) \<or> get s ! idx = Null False")
    case True
    then show ?thesis
      using Suc.hyps(1) [OF less(2) skip [OF Suc.prems(1) less(1) True]] less len
      by (simp add: for_each_helper.simps [of get func n idx])
  next
    case False
    from step [OF Suc.prems(1) less(1)] False consider s' where
      "func (map_entry_get_data (get s ! idx)) (map_entry_get_flags (get s ! idx)) idx s = Ret (True, s')" "I (Suc idx) s'"
      | "P" "func (map_entry_get_data (get s ! idx)) (map_entry_get_flags (get s ! idx)) idx s = Fault f"
      by blast
    then show ?thesis
    proof cases
      case (1 s')
      then show ?thesis
        using Suc.hyps(1) [OF less(2) 1(2)] False less len
        by (simp add: for_each_helper.simps [of get func n idx])
    next
      case 2
      then show ?thesis
        using False less len by (simp add: for_each_helper.simps [of get func n idx])
    qed
  qed
qed

lemma for_each_helper_rule:
  assumes "I idx s" "idx \<le> n"
    and "\<And>i s. I i s \<Longrightarrow> i < n \<Longrightarrow> i < length (get s)"
    and "\<And>i s. I i s \<Longrightarrow> i < n \<Longrightarrow> map_entry_is_free (get s ! i) \<or> get s ! i = Null False \<Longrightarrow> I (Suc i) s"
    and "\<And>i s. I i s \<Longrightarrow> i < n \<Longrightarrow> \<not> map_entry_is_free (get s ! i) \<Longrightarrow> get s ! i \<noteq> Null False \<Longrightarrow>
      \<exists>s'. func (map_entry_get_data (get s ! i)) (map_entry_get_flags (get s ! i)) i s = Ret (True, s') \<and> I (Suc i) s'"
  shows "\<exists>s'. for_each_helper get func n idx s = Ret (True, s') \<and> I n s'"
  using for_each_helper_or_fault [of I idx s n get func False] assms by blast

section \<open>The properties\<close>

text \<open>
  C37. The object map of libwayland as the proxy uses it (inserting at given numbers, removing,
  looking up) answers every sequence of calls as a partial function from object numbers does: the
  result codes of the insertions, what the lookups find, and the calls that go out of bounds are
  those of the abstract table, in which a number is accepted when it is at most one past the last
  number of its side and within the limit, and removing forgets the numbers of clients only.
\<close>

theorem wl_map_answers_table:
  fixes calls :: "'a map_call list"
  shows "map_answers (wl_map_insert_at True flag) wl_map_remove wl_map_lookup calls (wl_map_init WL_MAP_CLIENT_SIDE) =
   map_answers table_insert table_remove (\<lambda>t. snd (snd t)) calls (0, 0, Map.empty)"
proof -
  have "wl_map_table (wl_map_init WL_MAP_CLIENT_SIDE :: 'a wl_map) = (0, 0, Map.empty)"
    by (rule prod_eqI) (auto simp: wl_map_table_def wl_map_init_def wl_map_lookup_entry entry_data_def map_entries_def)
  then show ?thesis
    using wm.answers_refine [of "wl_map_init WL_MAP_CLIENT_SIDE" flag calls]
    by (simp add: wl_map_init_def [of WL_MAP_CLIENT_SIDE])
qed

text \<open>
  C38. Every map that calls have built is well formed: its entries lie in the blocks of their arrays,
  and on the word of each entry the three bit tests of the source say what the entry is: bit 0 tells a
  free entry; otherwise clearing the two low bits gives the pointer and bit 1 the flag.
\<close>

theorem wl_map_words:
  assumes "foldo (map_do (wl_map_insert_at ok flag) wl_map_remove wl_map_lookup) calls (wl_map_init side, []) = Ret (m, out)"
    and "\<forall>p. 4 * addr p \<noteq> 0"
    and "k < length (wa_items (map_entries i m))" "e = wa_items (map_entries i m) ! k"
  shows "(entry_word addr e AND 1 \<noteq> 0 \<longleftrightarrow> map_entry_is_free e) \<and>
    (\<not> map_entry_is_free e \<longrightarrow>
       entry_word addr e AND NOT 3 = (case map_entry_get_data e of None \<Rightarrow> 0 | Some p \<Rightarrow> 4 * addr p) \<and>
       drop_bit 1 (entry_word addr e) AND 1 = of_bool (map_entry_get_flags e)) \<and>
    k * entry_size + entry_size \<le> wa_alloc (map_entries i m)"
proof -
  have init: "wl_map_ok addr (wl_map_init side)"
    by (simp add: wl_map_ok_def wl_map_init_def link_ok_def entries_ok_def)
  have "wl_map_ok addr m'"
    if "foldo (map_do (wl_map_insert_at ok flag) wl_map_remove wl_map_lookup) cs (m, out) = Ret (m', out')" "wl_map_ok addr m"
    for cs m m' and out out' :: "'a map_answer list"
    using that
  proof (induction cs arbitrary: m out)
    case (Cons c cs)
    obtain m1 out1 where m1: "map_do (wl_map_insert_at ok flag) wl_map_remove wl_map_lookup c (m, out) = Ret (m1, out1)"
      "foldo (map_do (wl_map_insert_at ok flag) wl_map_remove wl_map_lookup) cs (m1, out1) = Ret (m', out')"
      using Cons.prems(1) by auto
    have "wl_map_ok addr m1"
    proof (cases c)
      case (Insert i d)
      then show ?thesis
        using m1(1) wl_map_insert_at_ok [OF Cons.prems(2), of d ok flag i] assms(2)
        by (cases "wl_map_insert_at ok flag i d m") auto
    qed (use m1(1) Cons.prems(2) in \<open>auto dest: wl_map_remove_ok\<close>)
    with m1(2) show ?case
      by (rule Cons.IH)
  qed auto
  from this [OF assms(1) init] have "entries_ok addr (map_entries i m)"
    by (rule map_entries_ok)
  then have "entry_ok addr e" "length (wa_items (map_entries i m)) * entry_size \<le> wa_alloc (map_entries i m)"
    using assms(3,4) by (auto simp: entries_ok_def list_all_length)
  then show ?thesis
    using entry_tags [of addr e] assms(3) by (intro conjI impI) auto
qed

theorem wl_map_words_witness:
  "\<exists>m out. foldo (map_do (wl_map_insert_at True False) wl_map_remove wl_map_lookup)
      [Insert 0 None, Insert 1 (Some ()), Remove 1] (wl_map_init WL_MAP_CLIENT_SIDE, []) = Ret (m, out) \<and>
    (entry_word (\<lambda>_. 5) (wa_items (map_entries 0 m) ! 0) AND 1 \<noteq> 0 \<longleftrightarrow> map_entry_is_free (wa_items (map_entries 0 m) ! 0)) \<and>
    0 * entry_size + entry_size \<le> wa_alloc (map_entries 0 m)"
proof -
  let ?calls = "[Insert 0 None, Insert 1 (Some ()), Remove 1]"
  let ?run = "foldo (map_do (wl_map_insert_at True False) wl_map_remove wl_map_lookup) ?calls (wl_map_init WL_MAP_CLIENT_SIDE, [])"
  have "(case ?run of Ret (m, out) \<Rightarrow> 0 < length (wa_items (map_entries 0 m)) | _ \<Rightarrow> False)"
    by code_simp
  then obtain m out where run: "?run = Ret (m, out)" "0 < length (wa_items (map_entries 0 m))"
    by (auto split: outcome.splits prod.splits)
  have "\<forall>p :: unit. 4 * (\<lambda>_. 5 :: u64) p \<noteq> 0"
    by simp
  from wl_map_words [OF run(1) this run(2) refl] show ?thesis
    using run(1) by blast
qed

end
