(* ===== verification/Wl_Closure.thy ===== *)
theory Wl_Closure
  imports Wl_Map
begin

text \<open>
  Messages of the patched libwayland, \<^verbatim>\<open>libs/wayland/src/connection.c\<close>: signatures, closures, and the
  two translations between a closure and the bytes on the wire, \<^verbatim>\<open>wl_connection_demarshal\<close> and
  \<^verbatim>\<open>serialize_closure\<close>. The proxy reads every message with the first and sends it on with the second, so
  the theorems at the end are what makes it transparent.

  Bytes are read as the little-endian words of the target. A string or array argument points into the
  memory of its closure; the model holds the bytes it points to, a string without its NUL.
\<close>

unbundle bit_operations_syntax

section \<open>Messages and closures\<close>

text \<open>Interfaces and messages of the Wayland protocols, as the generated protocol code has them: the
  types of the arguments of a message are named by their interfaces.\<close>

record wl_message =
  wg_name :: string
  wg_signature :: string
  wg_types :: "string option list"

record wl_interface =
  if_name :: string
  if_methods :: "wl_message list"
  if_events :: "wl_message list"

text \<open>An argument: the members \<^verbatim>\<open>i\<close>, \<^verbatim>\<open>u\<close>, \<^verbatim>\<open>f\<close>, \<^verbatim>\<open>n\<close> and \<^verbatim>\<open>o\<close> of the union are one word.\<close>

datatype wl_argument = Word u32 | Fd int | Str "byte list option" | Arr "byte list option"

record wl_closure =
  cl_message :: wl_message
  cl_opcode :: u32
  cl_sender_id :: u32
  cl_args :: "wl_argument list"

abbreviation WL_CLOSURE_MAX_ARGS :: nat where
  "WL_CLOSURE_MAX_ARGS \<equiv> 20"

definition arg_types :: string where
  "arg_types = ''iufsonah''"

section \<open>Signatures\<close>

text \<open>The type and nullability of the next argument and the rest of the signature; other characters are
  passed over.\<close>

fun get_next_argument :: "bool \<Rightarrow> string \<Rightarrow> (char \<times> bool) \<times> string" where
  "get_next_argument nullable [] = ((CHR 0x00, nullable), [])"
| "get_next_argument nullable (c # signature) =
     (if c \<in> set arg_types then ((c, nullable), signature)
      else get_next_argument (nullable \<or> c = CHR ''?'') signature)"

definition arg_count_for_signature :: "string \<Rightarrow> nat" where
  "arg_count_for_signature signature = length (filter (\<lambda>c. c \<in> set arg_types) signature)"

text \<open>The arguments a loop of \<open>n\<close> rounds sees.\<close>

primrec next_arguments :: "nat \<Rightarrow> string \<Rightarrow> (char \<times> bool) list" where
  "next_arguments 0 signature = []"
| "next_arguments (Suc n) signature =
     (case get_next_argument False signature of (arg, signature) \<Rightarrow> arg # next_arguments n signature)"

definition arguments :: "wl_message \<Rightarrow> (char \<times> bool) list" where
  "arguments message = next_arguments (arg_count_for_signature (wg_signature message)) (wg_signature message)"

definition wl_message_count_arrays :: "wl_message \<Rightarrow> nat" where
  "wl_message_count_arrays message = length (filter (\<lambda>c. c = CHR ''a'') (wg_signature message))"

section \<open>Bytes and words\<close>

fun load32 :: "byte list \<Rightarrow> u32" where
  "load32 (a # b # c # d # bs) = ucast a OR push_bit 8 (ucast b) OR push_bit 16 (ucast c) OR push_bit 24 (ucast d)"
| "load32 _ = 0"

definition store32 :: "u32 \<Rightarrow> byte list" where
  "store32 w = [ucast w, ucast (drop_bit 8 w), ucast (drop_bit 16 w), ucast (drop_bit 24 w)]"

text \<open>In 64-bit arithmetic, so that the sum does not wrap.\<close>

definition div_roundup :: "u32 \<Rightarrow> u64 \<Rightarrow> u32" where
  "div_roundup n a = ucast ((ucast n + (a - 1)) div a)"

section \<open>Reading\<close>

text \<open>
  One round of the loop of \<^verbatim>\<open>wl_connection_demarshal\<close>: \<open>bs\<close> are the bytes from \<^verbatim>\<open>p\<close> to \<^verbatim>\<open>end\<close>, \<open>fds\<close> the
  descriptors that have arrived. \<^const>\<open>None\<close> is \<^verbatim>\<open>goto err\<close>. The word a string or array begins with is its
  length in bytes; \<^verbatim>\<open>strlen\<close> finds the first NUL.
\<close>

definition read_word :: "byte list \<Rightarrow> (u32 \<times> byte list) option" where
  "read_word bs = (if length bs < 4 then None else Some (load32 bs, drop 4 bs))"

definition demarshal_string :: "bool \<Rightarrow> byte list \<Rightarrow> (wl_argument \<times> byte list) option" where
  "demarshal_string nullable bs =
     (case read_word bs of
        None \<Rightarrow> None
      | Some (len, bs) \<Rightarrow>
          if len = 0 then (if nullable then Some (Str None, bs) else None)
          else
            let n = unat len; padded = 4 * unat (div_roundup len 4) in
            if length bs < padded then None
            else if bs ! (n - 1) \<noteq> 0 then None
            else if length (takeWhile (\<lambda>b. b \<noteq> 0) bs) \<noteq> n - 1 then None
            else Some (Str (Some (take (n - 1) bs)), drop padded bs))"

definition demarshal_array :: "byte list \<Rightarrow> (wl_argument \<times> byte list) option" where
  "demarshal_array bs =
     (case read_word bs of
        None \<Rightarrow> None
      | Some (len, bs) \<Rightarrow>
          let n = unat len; padded = 4 * unat (div_roundup len 4) in
          if length bs < padded then None else Some (Arr (Some (take n bs)), drop padded bs))"

definition demarshal_arg ::
    "bool \<Rightarrow> char \<times> bool \<Rightarrow> byte list \<Rightarrow> int list \<Rightarrow> 'a wl_map \<Rightarrow>
     (wl_argument \<times> byte list \<times> int list \<times> 'a wl_map) option" where
  "demarshal_arg malloc_ok arg bs fds objects =
     (case arg of (type, nullable) \<Rightarrow>
        if type = CHR ''h''
        then (case fds of [] \<Rightarrow> None | fd # fds \<Rightarrow> Some (Fd fd, bs, fds, objects))
        else if type = CHR ''s''
        then map_option (\<lambda>(a, bs). (a, bs, fds, objects)) (demarshal_string nullable bs)
        else if type = CHR ''a''
        then map_option (\<lambda>(a, bs). (a, bs, fds, objects)) (demarshal_array bs)
        else
          (case read_word bs of
             None \<Rightarrow> None
           | Some (w, bs) \<Rightarrow>
               if type = CHR ''o'' \<and> w = 0 \<and> \<not> nullable then None
               else if type = CHR ''n''
               then if w = 0 then None else Some (Word w, bs, fds, snd (wl_map_reserve_new malloc_ok w objects))
               else Some (Word w, bs, fds, objects)))"

text \<open>
  The whole loop, with the arguments read so far: the result is the arguments, or the descriptors of the
  arguments read before the error, which \<^verbatim>\<open>wl_closure_destroy\<close> closes; in both cases with the descriptors
  and the object map that are left.
\<close>

definition arg_fds :: "wl_argument list \<Rightarrow> int list" where
  "arg_fds args = concat (map (\<lambda>a. case a of Fd fd \<Rightarrow> if fd = - 1 then [] else [fd] | _ \<Rightarrow> []) args)"

primrec demarshal_args ::
    "bool \<Rightarrow> (char \<times> bool) list \<Rightarrow> wl_argument list \<Rightarrow> byte list \<Rightarrow> int list \<Rightarrow> 'a wl_map \<Rightarrow>
     (int list + wl_argument list) \<times> int list \<times> 'a wl_map" where
  "demarshal_args malloc_ok [] args bs fds objects = (Inr args, fds, objects)"
| "demarshal_args malloc_ok (arg # rest) args bs fds objects =
     (case demarshal_arg malloc_ok arg bs fds objects of
        None \<Rightarrow> (Inl (arg_fds args), fds, objects)
      | Some (a, bs, fds, objects) \<Rightarrow> demarshal_args malloc_ok rest (args @ [a]) bs fds objects)"

text \<open>
  \<^verbatim>\<open>wl_closure_init\<close>: \<^const>\<open>None\<close> for a message with too many arguments or without memory.
\<close>

definition wl_closure_init :: "bool \<Rightarrow> wl_message \<Rightarrow> wl_closure option" where
  "wl_closure_init malloc_ok message =
     (if length (arguments message) > WL_CLOSURE_MAX_ARGS \<or> \<not> malloc_ok then None
      else Some \<lparr>cl_message = message, cl_opcode = 0, cl_sender_id = 0,
                 cl_args = map (\<lambda>(type, _). if type = CHR ''h'' then Fd (- 1) else Word 0) (arguments message)\<rparr>)"

text \<open>
  \<^verbatim>\<open>wl_connection_demarshal\<close> after the bytes of the message have been copied from the connection: \<open>msg\<close>
  has the \<^verbatim>\<open>size\<close> bytes of it. Bytes after the last whole word are not read.
\<close>

definition demarshal_bytes ::
    "bool \<Rightarrow> bool \<Rightarrow> wl_message \<Rightarrow> byte list \<Rightarrow> int list \<Rightarrow> 'a wl_map \<Rightarrow> (int list + wl_closure) \<times> int list \<times> 'a wl_map" where
  "demarshal_bytes init_ok malloc_ok message msg fds objects =
     (if length msg < 8 then (Inl [], fds, objects)
      else case wl_closure_init init_ok message of
        None \<Rightarrow> (Inl [], fds, objects)
      | Some closure \<Rightarrow>
          (case demarshal_args malloc_ok (arguments message) [] (drop 8 (take (4 * (length msg div 4)) msg)) fds objects of
             (r, fds, objects) \<Rightarrow>
               (map_sum (\<lambda>fds. fds) (\<lambda>args. closure\<lparr>cl_sender_id := load32 msg,
                   cl_opcode := load32 (drop 4 msg) AND 65535, cl_args := args\<rparr>) r, fds, objects)))"

section \<open>Writing\<close>

text \<open>The source goes through the signature and reads the member of the union the type says; the
  constructor of an argument is that type.\<close>

text \<open>The length of the contents a string or array argument points to, as an \<^verbatim>\<open>unsigned\<close>; a string counts
  its NUL.\<close>

definition contents_size :: "nat \<Rightarrow> u32" where
  "contents_size n = of_nat n"

definition arg_words :: "wl_argument \<Rightarrow> u32" where
  "arg_words a =
     (case a of
        Word w \<Rightarrow> 1
      | Fd fd \<Rightarrow> 0
      | Str s \<Rightarrow> (case s of None \<Rightarrow> 1 | Some s \<Rightarrow> 1 + div_roundup (contents_size (length s + 1)) 4)
      | Arr s \<Rightarrow> (case s of None \<Rightarrow> 1 | Some s \<Rightarrow> 1 + div_roundup (contents_size (length s)) 4))"

definition buffer_size_for_closure :: "wl_closure \<Rightarrow> u32" where
  "buffer_size_for_closure closure = sum_list (map arg_words (cl_args closure)) + 2"

text \<open>The contents with their length before and zeros after them, up to a whole word; \<open>room\<close> words are left
  in the buffer, \<^const>\<open>None\<close> is \<^verbatim>\<open>goto overflow\<close>. The buffer comes from \<^verbatim>\<open>zalloc\<close>.\<close>

definition serialize_contents :: "byte list \<Rightarrow> nat \<Rightarrow> byte list option" where
  "serialize_contents s room =
     (let n = contents_size (length s); padded = unat (div_roundup n 4) in
      if padded > room - 1 then None
      else Some (store32 n @ take (unat n) s @ replicate (4 * padded - unat n) 0))"

definition serialize_arg :: "wl_argument \<Rightarrow> nat \<Rightarrow> byte list option" where
  "serialize_arg a room =
     (case a of
        Fd fd \<Rightarrow> Some []
      | Word w \<Rightarrow> if room = 0 then None else Some (store32 w)
      | Str s \<Rightarrow> if room = 0 then None
          else (case s of None \<Rightarrow> Some (store32 0) | Some s \<Rightarrow> serialize_contents (s @ [0]) room)
      | Arr s \<Rightarrow> if room = 0 then None
          else (case s of None \<Rightarrow> Some (store32 0) | Some s \<Rightarrow> serialize_contents s room))"

primrec serialize_args :: "wl_argument list \<Rightarrow> nat \<Rightarrow> byte list option" where
  "serialize_args [] room = Some []"
| "serialize_args (a # args) room =
     (case serialize_arg a room of
        None \<Rightarrow> None
      | Some bs \<Rightarrow> map_option ((@) bs) (serialize_args args (room - length bs div 4)))"

text \<open>The size of the message goes to the upper half of the second word.\<close>

definition serialize_closure :: "wl_closure \<Rightarrow> nat \<Rightarrow> byte list option" where
  "serialize_closure closure buffer_count =
     (if buffer_count < 2 then None
      else map_option (\<lambda>bs.
             store32 (cl_sender_id closure) @
             store32 (push_bit 16 (of_nat (length bs + 8)) OR (cl_opcode closure AND 65535)) @ bs)
           (serialize_args (cl_args closure) (buffer_count - 2)))"

section \<open>Words\<close>

lemma length_store32 [simp]: "length (store32 w) = 4"
  by (simp add: store32_def)

lemma load_store [simp]: "load32 (store32 w @ bs) = w" "load32 (store32 w) = w"
proof -
  have "ucast (ucast w :: byte) OR push_bit 8 (ucast (ucast (drop_bit 8 w) :: byte)) OR
    push_bit 16 (ucast (ucast (drop_bit 16 w) :: byte)) OR push_bit 24 (ucast (ucast (drop_bit 24 w) :: byte)) = w"
    (is "?l = w")
  proof (rule bit_word_eqI)
    fix n
    assume "n < LENGTH(32)"
    then consider "n < 8" | "8 \<le> n" "n < 16" | "16 \<le> n" "n < 24" | "24 \<le> n" "n < 32"
      by force
    then show "bit ?l n \<longleftrightarrow> bit w n"
      by cases (auto simp: bit_simps)
  qed
  then show "load32 (store32 w @ bs) = w" "load32 (store32 w) = w"
    by (simp_all add: store32_def)
qed

lemma drop_store [simp]: "drop 4 (store32 w @ bs) = bs"
  by (simp add: store32_def)

lemma unat_div_roundup: "unat (div_roundup n 4) = (unat n + 3) div 4"
proof -
  have n: "unat n < 4294967296"
    by (rule unat_lt_32)
  then have "unat (ucast n + (4 - 1) :: u64) = unat n + 3"
    by (subst unat_plus_small) simp_all
  then have "unat ((ucast n + (4 - 1)) div 4 :: u64) = (unat n + 3) div 4"
    by (simp add: unat_div)
  moreover have "(unat n + 3) div 4 < 4294967296"
    using n by simp
  ultimately show ?thesis
    by (simp add: div_roundup_def unsigned_ucast_eq take_bit_nat_eq_self_iff)
qed

lemma read_word_store [simp]: "read_word (store32 w @ bs) = Some (w, bs)"
  by (simp add: read_word_def)

section \<open>Typed arguments\<close>

lemma next_argument_type:
  "filter (\<lambda>c. c \<in> set arg_types) s \<noteq> [] \<Longrightarrow>
    fst (fst (get_next_argument nl s)) = hd (filter (\<lambda>c. c \<in> set arg_types) s) \<and>
    filter (\<lambda>c. c \<in> set arg_types) (snd (get_next_argument nl s)) = tl (filter (\<lambda>c. c \<in> set arg_types) s)"
  by (induction nl s rule: get_next_argument.induct) auto

lemma next_arguments_types:
  "n \<le> length (filter (\<lambda>c. c \<in> set arg_types) s) \<Longrightarrow>
    map fst (next_arguments n s) = take n (filter (\<lambda>c. c \<in> set arg_types) s)"
proof (induction n arbitrary: s)
  case (Suc n)
  let ?f = "filter (\<lambda>c. c \<in> set arg_types)"
  have ne: "?f s \<noteq> []"
    using Suc.prems by auto
  note t = next_argument_type [OF ne, of False]
  have "map fst (next_arguments n (snd (get_next_argument False s))) = take n (?f (snd (get_next_argument False s)))"
    using Suc.IH [of "snd (get_next_argument False s)"] Suc.prems t by simp
  then show ?case
    using t ne by (cases "?f s") (auto split: prod.split)
qed simp

text \<open>The arguments of a message have the types of its signature, in order.\<close>

lemma arguments_types: "map fst (arguments message) = filter (\<lambda>c. c \<in> set arg_types) (wg_signature message)"
  unfolding arguments_def arg_count_for_signature_def by (subst next_arguments_types) simp_all

lemma argument_type: "d \<in> set (arguments message) \<Longrightarrow> fst d \<in> set arg_types"
proof -
  assume "d \<in> set (arguments message)"
  then have "fst d \<in> set (map fst (arguments message))"
    by simp
  then show ?thesis
    unfolding arguments_types by simp
qed

text \<open>What an argument of a given type can be: a NULL string only where it is allowed, no NUL within a string,
  and no number 0 where an object must be.\<close>

definition arg_ok :: "char \<times> bool \<Rightarrow> wl_argument \<Rightarrow> bool" where
  "arg_ok d a =
     (case a of
        Word w \<Rightarrow> fst d \<in> set ''iufon'' \<and> (fst d = CHR ''o'' \<longrightarrow> \<not> snd d \<longrightarrow> w \<noteq> 0) \<and> (fst d = CHR ''n'' \<longrightarrow> w \<noteq> 0)
      | Fd fd \<Rightarrow> fst d = CHR ''h''
      | Str None \<Rightarrow> fst d = CHR ''s'' \<and> snd d
      | Str (Some s) \<Rightarrow> fst d = CHR ''s'' \<and> 0 \<notin> set s
      | Arr None \<Rightarrow> False
      | Arr (Some s) \<Rightarrow> fst d = CHR ''a'')"

text \<open>The number of bytes of an argument on the wire.\<close>

definition contents_bytes :: "nat \<Rightarrow> nat" where
  "contents_bytes n = 4 * ((n + 3) div 4)"

primrec arg_bytes :: "wl_argument \<Rightarrow> nat" where
  "arg_bytes (Word w) = 4"
| "arg_bytes (Fd fd) = 0"
| "arg_bytes (Str s) = 4 + (case s of None \<Rightarrow> 0 | Some s \<Rightarrow> contents_bytes (length s + 1))"
| "arg_bytes (Arr s) = 4 + (case s of None \<Rightarrow> 0 | Some s \<Rightarrow> contents_bytes (length s))"

definition wire_size :: "wl_closure \<Rightarrow> nat" where
  "wire_size closure = 8 + sum_list (map arg_bytes (cl_args closure))"

definition closure_ok :: "wl_closure \<Rightarrow> bool" where
  "closure_ok closure \<longleftrightarrow> list_all2 arg_ok (arguments (cl_message closure)) (cl_args closure) \<and>
     length (cl_args closure) \<le> WL_CLOSURE_MAX_ARGS \<and> cl_opcode closure < 65536 \<and> wire_size closure < 65536"

lemma contents_bytes_ge: "n \<le> contents_bytes n" "contents_bytes n mod 4 = 0" "4 dvd contents_bytes n"
  by (simp_all add: contents_bytes_def)

lemma arg_bytes_dvd [simp]: "4 dvd arg_bytes a"
  by (cases a) (auto simp: contents_bytes_def split: option.split)

lemma sum_arg_bytes_dvd: "4 dvd sum_list (map arg_bytes args)"
  by (induction args) simp_all

section \<open>Writing and reading back\<close>

lemma serialize_contents_ok:
  assumes "contents_bytes (length s) < 4 * room" "length s < 65536"
  shows "\<exists>pad. serialize_contents s room = Some (store32 (of_nat (length s)) @ s @ pad) \<and>
    length s + length pad = contents_bytes (length s)"
proof -
  let ?n = "of_nat (length s) :: u32"
  have n: "unat ?n = length s"
    using assms(2) by (intro unat_of_nat_small) simp
  have "\<not> (length s + 3) div 4 > room - 1"
    using assms(1) by (auto simp: contents_bytes_def)
  then have "serialize_contents s room = Some (store32 ?n @ s @ replicate (contents_bytes (length s) - length s) 0)"
    by (simp add: serialize_contents_def contents_size_def Let_def unat_div_roundup n contents_bytes_def)
  then show ?thesis
    using contents_bytes_ge(1) [of "length s"] by (intro exI [of _ "replicate (contents_bytes (length s) - length s) 0"]) simp
qed

lemma demarshal_string_contents:
  assumes s: "0 \<notin> set s" "length s < 65535" and pad: "length s + 1 + length pad = contents_bytes (length s + 1)"
  shows "demarshal_string nl (store32 (of_nat (length s + 1)) @ (s @ [0]) @ pad @ bs) = Some (Str (Some s), bs)"
proof -
  let ?n = "of_nat (length s + 1) :: u32"
  have n: "unat ?n = length s + 1"
    using s(2) by (intro unat_of_nat_small) simp
  then have "?n \<noteq> 0"
    by (metis Suc_eq_plus1 nat.distinct(1) unsigned_0)
  moreover have "takeWhile (\<lambda>b. b \<noteq> 0) (s @ 0 # pad @ bs) = s"
    using s(1) by (subst takeWhile_append2) auto
  moreover have "4 * unat (div_roundup ?n 4) = length s + 1 + length pad"
    unfolding unat_div_roundup n using pad by (simp add: contents_bytes_def)
  ultimately show ?thesis
    using read_word_store [of ?n "s @ 0 # pad @ bs"] n by (simp add: demarshal_string_def Let_def nth_append)
qed

lemma demarshal_array_contents:
  assumes "length s < 65536" "length s + length pad = contents_bytes (length s)"
  shows "demarshal_array (store32 (of_nat (length s)) @ s @ pad @ bs) = Some (Arr (Some s), bs)"
proof -
  let ?n = "of_nat (length s) :: u32"
  have n: "unat ?n = length s"
    using assms(1) by (intro unat_of_nat_small) simp
  moreover have "4 * unat (div_roundup ?n 4) = length s + length pad"
    unfolding unat_div_roundup n using assms(2) by (simp add: contents_bytes_def)
  ultimately show ?thesis
    using read_word_store [of ?n "s @ pad @ bs"] by (simp add: demarshal_array_def Let_def)
qed

primrec arg_fd :: "wl_argument \<Rightarrow> int list" where
  "arg_fd (Word w) = []"
| "arg_fd (Fd fd) = [fd]"
| "arg_fd (Str s) = []"
| "arg_fd (Arr s) = []"

text \<open>One argument, written and read back in front of any other bytes.\<close>

lemma arg_roundtrip:
  assumes ok: "arg_ok d a" and room: "arg_bytes a \<le> 4 * room" "arg_bytes a < 65536"
  shows "\<exists>bs. serialize_arg a room = Some bs \<and> length bs = arg_bytes a \<and>
    (\<forall>rest fds objects. \<exists>objects'. demarshal_arg malloc_ok d (bs @ rest) (arg_fd a @ fds) objects = Some (a, rest, fds, objects'))"
proof (cases a)
  case (Word w)
  then show ?thesis
    using ok room by (cases d) (auto simp: serialize_arg_def demarshal_arg_def arg_ok_def)
next
  case (Fd fd)
  then show ?thesis
    using ok by (cases d) (auto simp: serialize_arg_def demarshal_arg_def arg_ok_def)
next
  case (Str x)
  show ?thesis
  proof (cases x)
    case None
    then show ?thesis
      using Str ok room read_word_store [of 0]
      by (cases d) (auto simp: serialize_arg_def demarshal_arg_def arg_ok_def demarshal_string_def)
  next
    case (Some s)
    have s: "0 \<notin> set s" "fst d = CHR ''s''" "contents_bytes (length (s @ [0])) < 4 * room" "length s + 1 < 65536"
      using ok room contents_bytes_ge(1) [of "length s + 1"] by (simp_all add: Str Some arg_ok_def)
    obtain pad where "serialize_contents (s @ [0]) room = Some (store32 (of_nat (length (s @ [0]))) @ (s @ [0]) @ pad)"
      "length (s @ [0]) + length pad = contents_bytes (length (s @ [0]))"
      using serialize_contents_ok [OF s(3)] s(4) by auto
    then have pad: "serialize_contents (s @ [0]) room = Some (store32 (of_nat (length s + 1)) @ (s @ [0]) @ pad)"
      "length s + 1 + length pad = contents_bytes (length s + 1)"
      by simp_all
    have "demarshal_string nl (store32 (of_nat (length s + 1)) @ (s @ [0]) @ pad @ rest) = Some (Str (Some s), rest)" for nl rest
      by (rule demarshal_string_contents [OF s(1) _ pad(2)]) (use s(4) in simp)
    then show ?thesis
      using pad s room by (cases d) (auto simp: Str Some serialize_arg_def demarshal_arg_def)
  qed
next
  case (Arr x)
  then obtain s where x: "x = Some s" "fst d = CHR ''a''"
    using ok by (auto simp: arg_ok_def split: option.splits)
  have s: "contents_bytes (length s) < 4 * room" "length s < 65536"
    using room contents_bytes_ge(1) [of "length s"] by (simp_all add: Arr x)
  obtain pad where pad: "serialize_contents s room = Some (store32 (of_nat (length s)) @ s @ pad)"
    "length s + length pad = contents_bytes (length s)"
    using serialize_contents_ok [OF s] by blast
  then show ?thesis
    using demarshal_array_contents [OF s(2) pad(2)] x(2) room
    by (cases d) (auto simp: Arr x(1) serialize_arg_def demarshal_arg_def)
qed

lemma args_roundtrip:
  assumes "list_all2 arg_ok ds args" "sum_list (map arg_bytes args) \<le> 4 * room" "sum_list (map arg_bytes args) < 65536"
  shows "\<exists>bs. serialize_args args room = Some bs \<and> length bs = sum_list (map arg_bytes args) \<and>
    (\<forall>done rest fds (objects :: 'a wl_map). \<exists>objects'. demarshal_args malloc_ok ds done (bs @ rest) (concat (map arg_fd args) @ fds) objects =
      (Inr (done @ args), fds, objects'))"
  using assms
proof (induction ds args arbitrary: room rule: list_all2_induct)
  case (Cons d ds a args)
  have a: "arg_bytes a \<le> 4 * room" "arg_bytes a < 65536"
    using Cons.prems by simp_all
  obtain bs where bs: "serialize_arg a room = Some bs" "length bs = arg_bytes a"
    "\<And>rest fds (objects :: 'a wl_map). \<exists>objects'. demarshal_arg malloc_ok d (bs @ rest) (arg_fd a @ fds) objects = Some (a, rest, fds, objects')"
    using arg_roundtrip [OF Cons.hyps(1) a] by blast
  have "4 * (length bs div 4) = arg_bytes a"
    using bs(2) by simp
  then have "sum_list (map arg_bytes args) \<le> 4 * (room - length bs div 4)"
    using Cons.prems(1) by (simp add: diff_mult_distrib2)
  moreover have small: "sum_list (map arg_bytes args) < 65536"
    using Cons.prems(2) by simp
  ultimately obtain bs' where bs': "serialize_args args (room - length bs div 4) = Some bs'" "length bs' = sum_list (map arg_bytes args)"
    "\<And>dn rest fds (objects :: 'a wl_map). \<exists>objects'. demarshal_args malloc_ok ds dn (bs' @ rest) (concat (map arg_fd args) @ fds) objects =
      (Inr (dn @ args), fds, objects')"
    using Cons.IH [OF _ small] by blast
  have "\<exists>objects'. demarshal_args malloc_ok (d # ds) dn ((bs @ bs') @ rest) (concat (map arg_fd (a # args)) @ fds) objects =
    (Inr (dn @ a # args), fds, objects')" for dn rest fds and objects :: "'a wl_map"
  proof -
    obtain o1 where "demarshal_arg malloc_ok d (bs @ bs' @ rest) (arg_fd a @ concat (map arg_fd args) @ fds) objects =
      Some (a, bs' @ rest, concat (map arg_fd args) @ fds, o1)"
      using bs(3) by blast
    then show ?thesis
      using bs'(3) [of "dn @ [a]" rest fds o1] by simp
  qed
  then show ?case
    using bs(1,2) bs'(1,2) by simp
qed simp

text \<open>The buffer is exactly as large as the message.\<close>

lemma unat_arg_words:
  assumes "arg_bytes a < 65536"
  shows "4 * unat (arg_words a) = arg_bytes a"
proof -
  have words: "4 * unat (1 + div_roundup (contents_size n) 4) = 4 + contents_bytes n" if "contents_bytes n < 65532" for n
  proof -
    have n: "unat (of_nat n :: u32) = n"
      using that contents_bytes_ge(1) [of n] by (intro unat_of_nat_small) simp
    have "(n + 3) div 4 < 65536"
      using that by (simp add: contents_bytes_def)
    then show ?thesis
      by (subst unat_plus_small) (simp_all add: unat_div_roundup contents_size_def n contents_bytes_def)
  qed
  show ?thesis
    using assms words by (cases a) (auto simp: arg_words_def split: option.splits)
qed

lemma unat_sum_words:
  "sum_list (map arg_bytes args) < 65536 \<Longrightarrow> 4 * unat (sum_list (map arg_words args)) = sum_list (map arg_bytes args)"
proof (induction args)
  case (Cons a args)
  have a: "4 * unat (arg_words a) = arg_bytes a"
    using Cons.prems by (intro unat_arg_words) simp
  have s: "4 * unat (sum_list (map arg_words args)) = sum_list (map arg_bytes args)"
    using Cons by simp
  have "unat (arg_words a + sum_list (map arg_words args)) = unat (arg_words a) + unat (sum_list (map arg_words args))"
    using a s Cons.prems by (intro unat_plus_small) simp
  then show ?case
    using a s by simp
qed simp

lemma unat_buffer_size:
  assumes "wire_size closure < 65536"
  shows "4 * unat (buffer_size_for_closure closure) = wire_size closure"
proof -
  let ?s = "sum_list (map arg_words (cl_args closure))"
  have s: "4 * unat ?s = sum_list (map arg_bytes (cl_args closure))"
    using assms by (intro unat_sum_words) (simp add: wire_size_def)
  then have "unat (?s + 2) = unat ?s + 2"
    using assms by (subst unat_plus_small) (simp_all add: wire_size_def)
  then show ?thesis
    using s by (simp add: buffer_size_for_closure_def wire_size_def)
qed

text \<open>The second word of a message: the opcode below, the size above.\<close>

lemma header_word:
  assumes "opcode < (65536 :: u32)" "n < 65536"
  shows "(push_bit 16 (of_nat n) OR (opcode AND 65535)) AND 65535 = opcode"
    "unat (drop_bit 16 (push_bit 16 (of_nat n) OR (opcode AND 65535))) = n"
proof -
  have m: "(65535 :: u32) = mask 16"
    by (simp add: mask_eq_exp_minus_1)
  have z: "opcode AND 65535 = take_bit 16 opcode"
    unfolding m by (simp add: take_bit_eq_mask ac_simps)
  have "unat (take_bit 16 opcode) = unat opcode"
    using assms(1) by (simp add: unsigned_take_bit_eq take_bit_nat_eq_self word_less_nat_alt)
  then have op: "opcode AND 65535 = opcode"
    unfolding z by (simp only: word_unat_eq_iff)
  show "(push_bit 16 (of_nat n) OR (opcode AND 65535)) AND 65535 = opcode"
  proof -
    have "(push_bit 16 (of_nat n) OR (opcode AND 65535)) AND 65535 = take_bit 16 (push_bit 16 (of_nat n) OR opcode)"
      unfolding op unfolding m by (simp add: take_bit_eq_mask ac_simps)
    also have "\<dots> = take_bit 16 opcode"
      by (simp add: take_bit_or take_bit_push_bit)
    finally show ?thesis
      using op z by simp
  qed
  have "drop_bit 16 (push_bit 16 (of_nat n :: u32) OR (opcode AND 65535)) = of_nat n"
  proof (rule bit_word_eqI)
    fix i
    assume "i < LENGTH(32)"
    have "\<not> bit (of_nat n :: u32) i" if "16 \<le> i"
    proof -
      have "of_nat n = (take_bit 16 (of_nat n) :: u32)"
        using assms(2) by (simp add: take_bit_of_nat take_bit_nat_eq_self)
      then show ?thesis
        using that by (metis bit_take_bit_iff not_le)
    qed
    moreover have "\<not> bit (65535 :: u32) (16 + i)"
      unfolding m by (simp add: bit_mask_iff)
    ultimately show "bit (drop_bit 16 (push_bit 16 (of_nat n :: u32) OR (opcode AND 65535))) i \<longleftrightarrow> bit (of_nat n :: u32) i"
      using \<open>i < LENGTH(32)\<close> by (cases "16 \<le> i") (auto simp: bit_simps)
  qed
  then show "unat (drop_bit 16 (push_bit 16 (of_nat n) OR (opcode AND 65535))) = n"
    using assms(2) by (simp add: unat_of_nat_small)
qed

lemma closure_roundtrip:
  assumes ok: "closure_ok closure"
  shows "\<exists>bs. serialize_closure closure (unat (buffer_size_for_closure closure)) = Some bs \<and> length bs = wire_size closure \<and>
    load32 bs = cl_sender_id closure \<and> unat (drop_bit 16 (load32 (drop 4 bs))) = length bs \<and>
    load32 (drop 4 bs) AND 65535 = cl_opcode closure \<and>
    (\<forall>fds objects. \<exists>objects'. demarshal_bytes True malloc_ok (cl_message closure) bs (concat (map arg_fd (cl_args closure)) @ fds) objects =
      (Inr closure, fds, objects'))"
proof -
  let ?args = "cl_args closure"
  let ?room = "unat (buffer_size_for_closure closure) - 2"
  have size: "wire_size closure < 65536"
    using ok by (simp add: closure_ok_def)
  have room: "sum_list (map arg_bytes ?args) \<le> 4 * ?room" "2 \<le> unat (buffer_size_for_closure closure)"
    using unat_buffer_size [OF size] by (simp_all add: wire_size_def)
  obtain bs where bs: "serialize_args ?args ?room = Some bs" "length bs = sum_list (map arg_bytes ?args)"
    "\<And>dn rest fds (objects :: 'a wl_map). \<exists>objects'. demarshal_args malloc_ok (arguments (cl_message closure)) dn (bs @ rest) (concat (map arg_fd ?args) @ fds) objects =
      (Inr (dn @ ?args), fds, objects')"
    using args_roundtrip [OF _ room(1), of "arguments (cl_message closure)" malloc_ok] ok by (auto simp: closure_ok_def wire_size_def)
  let ?w = "push_bit 16 (of_nat (length bs + 8)) OR (cl_opcode closure AND 65535)"
  let ?msg = "store32 (cl_sender_id closure) @ store32 ?w @ bs"
  have len: "length ?msg = wire_size closure"
    using bs(2) by (simp add: wire_size_def)
  have "4 dvd length bs"
    unfolding bs(2) by (rule sum_arg_bytes_dvd)
  then have whole: "4 * (length ?msg div 4) = length ?msg"
    by simp
  have w: "?w AND 65535 = cl_opcode closure" "unat (drop_bit 16 ?w) = length ?msg"
    using header_word [of "cl_opcode closure" "length bs + 8"] ok len by (simp_all add: closure_ok_def)
  have init: "wl_closure_init True (cl_message closure) \<noteq> None" "length (arguments (cl_message closure)) \<le> WL_CLOSURE_MAX_ARGS"
    using ok by (auto simp: closure_ok_def wl_closure_init_def list_all2_lengthD)
  have "\<exists>objects'. demarshal_bytes True malloc_ok (cl_message closure) ?msg (concat (map arg_fd ?args) @ fds) objects = (Inr closure, fds, objects')"
    for fds and objects :: "'a wl_map"
  proof -
    obtain objects' where "demarshal_args malloc_ok (arguments (cl_message closure)) [] bs (concat (map arg_fd ?args) @ fds) objects =
      (Inr ?args, fds, objects')"
      using bs(3) [of "[]" "[]" fds objects] by auto
    moreover have "drop 8 (take (4 * (length ?msg div 4)) ?msg) = bs"
      unfolding whole by simp
    ultimately show ?thesis
      using w(1) init(2) unfolding demarshal_bytes_def by (simp add: wl_closure_init_def)
  qed
  moreover have "serialize_closure closure (unat (buffer_size_for_closure closure)) = Some ?msg"
    using room(2) bs(1) by (simp add: serialize_closure_def)
  ultimately show ?thesis
    using len w by (intro exI [of _ ?msg]) simp
qed

section \<open>What is read can be written\<close>

lemma load32_take: "4 \<le> length bs \<Longrightarrow> load32 (take 4 bs) = load32 bs"
  by (cases bs rule: load32.cases) auto

lemma read_word_length: "read_word bs = Some (w, rest) \<Longrightarrow> length bs = 4 + length rest"
  by (auto simp: read_word_def split: if_splits)

lemma demarshal_string_ok:
  assumes "demarshal_string nl bs = Some (a, rest)"
  shows "arg_ok (CHR ''s'', nl) a \<and> arg_bytes a + length rest \<le> length bs"
proof -
  obtain len bs' where r: "read_word bs = Some (len, bs')"
    using assms by (auto simp: demarshal_string_def split: option.splits)
  show ?thesis
  proof (cases "len = 0")
    case True
    then show ?thesis
      using assms r read_word_length [OF r] by (auto simp: demarshal_string_def arg_ok_def split: if_splits)
  next
    case False
    let ?n = "unat len" and ?s = "take (unat len - 1) bs'"
    have n: "0 < ?n"
      using False by (simp add: word_neq_0_conv [symmetric] unat_gt_0 [symmetric] del: word_neq_0_conv)
    have e: "4 * ((?n + 3) div 4) \<le> length bs'" "length (takeWhile (\<lambda>b. b \<noteq> 0) bs') = ?n - 1"
      "a = Str (Some ?s)" "rest = drop (4 * ((?n + 3) div 4)) bs'"
      using assms r False by (auto simp: demarshal_string_def Let_def unat_div_roundup split: if_splits)
    have "?s = takeWhile (\<lambda>b. b \<noteq> 0) bs'"
      using e(2) takeWhile_eq_take [of "\<lambda>b. b \<noteq> 0" bs'] by simp
    then have "0 \<notin> set ?s"
      by (auto dest: set_takeWhileD)
    moreover have "length ?s + 1 = ?n"
      using n e(1) by auto
    ultimately show ?thesis
      using e read_word_length [OF r] by (auto simp: arg_ok_def contents_bytes_def)
  qed
qed

lemma demarshal_array_ok:
  assumes "demarshal_array bs = Some (a, rest)"
  shows "arg_ok (CHR ''a'', nl) a \<and> arg_bytes a + length rest \<le> length bs"
proof -
  obtain len bs' where r: "read_word bs = Some (len, bs')" and l: "4 * ((unat len + 3) div 4) \<le> length bs'"
    "a = Arr (Some (take (unat len) bs'))" "rest = drop (4 * ((unat len + 3) div 4)) bs'"
    using assms by (auto simp: demarshal_array_def Let_def unat_div_roundup split: option.splits if_splits)
  have "length (take (unat len) bs') = unat len"
    using l(1) by auto
  then show ?thesis
    using l read_word_length [OF r] by (auto simp: arg_ok_def contents_bytes_def)
qed

lemma demarshal_arg_ok:
  assumes d: "demarshal_arg malloc_ok d bs fds objects = Some (a, rest, fds', objects')" and ty: "fst d \<in> set arg_types"
  shows "arg_ok d a \<and> arg_bytes a + length rest \<le> length bs \<and> fds = arg_fd a @ fds'"
proof -
  obtain ty nl where dd: "d = (ty, nl)"
    by (cases d)
  consider "ty = CHR ''h''" | "ty = CHR ''s''" | "ty = CHR ''a''" | "ty \<in> set ''iufon''"
    using ty dd by (auto simp: arg_types_def)
  then show ?thesis
  proof cases
    case 1
    then show ?thesis
      using d by (auto simp: dd demarshal_arg_def arg_ok_def split: list.splits)
  next
    case 2
    then obtain "demarshal_string nl bs = Some (a, rest)" "fds' = fds"
      using d by (auto simp: dd demarshal_arg_def)
    moreover then have "arg_fd a = []"
      by (auto simp: demarshal_string_def Let_def split: option.splits if_splits)
    ultimately show ?thesis
      using demarshal_string_ok 2 by (auto simp: dd)
  next
    case 3
    then obtain "demarshal_array bs = Some (a, rest)" "fds' = fds"
      using d by (auto simp: dd demarshal_arg_def)
    moreover then have "arg_fd a = []"
      by (auto simp: demarshal_array_def Let_def split: option.splits if_splits)
    ultimately show ?thesis
      using demarshal_array_ok 3 by (auto simp: dd)
  next
    case 4
    then have "ty \<noteq> CHR ''h''" "ty \<noteq> CHR ''s''" "ty \<noteq> CHR ''a''"
      by auto
    then obtain w where "read_word bs = Some (w, rest)" "a = Word w" "fds' = fds"
      "\<not> (ty = CHR ''o'' \<and> w = 0 \<and> \<not> nl)" "ty = CHR ''n'' \<longrightarrow> w \<noteq> 0"
      using d by (auto simp: dd demarshal_arg_def split: option.splits if_splits)
    then show ?thesis
      using 4 read_word_length [of bs w rest] by (auto simp: dd arg_ok_def)
  qed
qed

lemma demarshal_args_ok:
  assumes "demarshal_args malloc_ok ds dn bs fds objects = (Inr args, fds', objects')" "\<forall>d \<in> set ds. fst d \<in> set arg_types"
  shows "\<exists>as. args = dn @ as \<and> list_all2 arg_ok ds as \<and> sum_list (map arg_bytes as) \<le> length bs \<and>
    fds = concat (map arg_fd as) @ fds'"
  using assms
proof (induction ds arbitrary: dn bs fds objects)
  case (Cons d ds)
  then obtain a bs' fds1 o1 where a: "demarshal_arg malloc_ok d bs fds objects = Some (a, bs', fds1, o1)"
    "demarshal_args malloc_ok ds (dn @ [a]) bs' fds1 o1 = (Inr args, fds', objects')"
    by (auto split: option.splits)
  note ok = demarshal_arg_ok [OF a(1)]
  obtain as where "args = (dn @ [a]) @ as" "list_all2 arg_ok ds as" "sum_list (map arg_bytes as) \<le> length bs'"
    "fds1 = concat (map arg_fd as) @ fds'"
    using Cons.IH [OF a(2)] Cons.prems(2) by auto
  then show ?case
    using ok Cons.prems(2) by (intro exI [of _ "a # as"]) auto
qed simp

text \<open>Whatever message was read, within the size its header can state, can be sent on.\<close>

lemma demarshal_bytes_ok:
  assumes d: "demarshal_bytes init_ok malloc_ok message msg fds objects = (Inr closure, fds', objects')" and size: "length msg < 65536"
  shows "closure_ok closure" "wire_size closure \<le> length msg" "cl_message closure = message" "cl_sender_id closure = load32 msg"
    "fds = concat (map arg_fd (cl_args closure)) @ fds'"
proof -
  let ?bs = "drop 8 (take (4 * (length msg div 4)) msg)"
  have len: "\<not> length msg < 8"
    using d by (auto simp: demarshal_bytes_def split: if_splits)
  then obtain c where c: "wl_closure_init init_ok message = Some c"
    using d by (auto simp: demarshal_bytes_def split: option.splits)
  obtain r fds1 o1 where r: "demarshal_args malloc_ok (arguments message) [] ?bs fds objects = (r, fds1, o1)"
    by (cases "demarshal_args malloc_ok (arguments message) [] ?bs fds objects")
  have d': "map_sum (\<lambda>fds. fds) (\<lambda>args. c\<lparr>cl_sender_id := load32 msg, cl_opcode := load32 (drop 4 msg) AND 65535, cl_args := args\<rparr>) r =
    Inr closure" "fds1 = fds'" "o1 = objects'"
    using d len c r by (simp_all add: demarshal_bytes_def)
  then obtain args where "r = Inr args"
    and cl: "closure = c\<lparr>cl_sender_id := load32 msg, cl_opcode := load32 (drop 4 msg) AND 65535, cl_args := args\<rparr>"
    by (cases r) simp_all
  then have args: "demarshal_args malloc_ok (arguments message) [] ?bs fds objects = (Inr args, fds', objects')"
    using r d' by simp
  have n: "length (arguments message) \<le> WL_CLOSURE_MAX_ARGS" and m: "cl_message c = message"
    using c by (auto simp: wl_closure_init_def split: if_splits)
  have ok: "list_all2 arg_ok (arguments message) args" "sum_list (map arg_bytes args) \<le> length ?bs" "fds = concat (map arg_fd args) @ fds'"
    using demarshal_args_ok [OF args] argument_type by auto
  have "4 * (length msg div 4) \<le> length msg"
    by simp
  then have "length ?bs + 8 \<le> length msg"
    using len by (simp add: min_def)
  then show wire: "wire_size closure \<le> length msg"
    using ok(2) by (simp add: wire_size_def cl)
  have "load32 (drop 4 msg) AND 65535 \<le> (65535 :: u32)"
    by (rule word_and_le1)
  then have "load32 (drop 4 msg) AND 65535 < (65536 :: u32)"
    by (rule order_le_less_trans) simp
  then show "closure_ok closure"
    using ok(1) n m wire size list_all2_lengthD [OF ok(1)] by (simp add: closure_ok_def cl)
  show "cl_message closure = message" "cl_sender_id closure = load32 msg" "fds = concat (map arg_fd (cl_args closure)) @ fds'"
    using ok(3) m by (simp_all add: cl)
qed

end
