(* ===== verification/Capture_Model.thy ===== *)
theory Capture_Model
  imports Rbuf C_Heap Wl_Closure
begin

text \<open>
  The video capture module, \<^verbatim>\<open>stratusd/Capture/src\<close>: the objects it keeps for shared-memory pools,
  buffers, surfaces and dma-buf parameters, and the handlers of the Wayland messages that create,
  use and destroy them.

  The structs live in a store with one partial function from addresses per type; \<^verbatim>\<open>malloc\<close> takes the
  next unused address, \<^verbatim>\<open>free\<close> removes the struct, and a dereference or a \<^verbatim>\<open>free\<close> of an address that
  holds nothing is a fault. The \<^verbatim>\<open>wl_shm_buffer\<close> or \<^verbatim>\<open>dma_buffer\<close> of a buffer is a block of its own in
  the source, reached only through the \<^verbatim>\<open>wl_buffer\<close> that allocates and frees it; in the model it is
  part of that record. What \<^verbatim>\<open>dup\<close> opened, what \<^verbatim>\<open>mmap\<close> mapped and the frames of the encode queue are
  multisets. The object data of a proxy session is the \<^verbatim>\<open>wl_map\<close> of \<open>Wl_Map\<close>, whose pointers are
  addresses tagged with the type of the struct: reading one as a struct of another type is a fault.

  The \<^verbatim>\<open>int32_t\<close> fields are 32-bit words, read by \<open>sint\<close> where the source compares them as signed.
\<close>

section \<open>Data\<close>

type_synonym i32 = "32 word"
type_synonym address = nat

record wl_shm_pool =
  sp_id :: u32
  sp_p :: int
  sp_size :: i32
  sp_dependents :: u32

record wl_shm_buffer =
  sb_p :: int
  sb_stride :: i32
  sb_pool :: address

record dma_plane =
  pl_fd :: int
  pl_offset :: u32
  pl_stride :: u32

record dma_buffer =
  db_width :: u32
  db_height :: u32
  db_format :: u32
  db_modifier :: u64
  db_num_planes :: int
  db_planes :: "dma_plane list"

record wl_buffer =
  wb_id :: u32
  wb_width :: i32
  wb_height :: i32
  wb_shm_buf :: "wl_shm_buffer option"
  wb_dma_buf :: "dma_buffer option"
  wb_dependents :: u32

record wl_surface =
  su_id :: u32
  su_buf :: "address option"
  su_dependents :: u32

record zwp_linux_buffer_params =
  bp_id :: u32
  bp_num_planes :: int
  bp_planes :: "dma_plane list"
  bp_modifier :: u64

text \<open>A frame of the encode queue: the address of its own block, the pixels in shared memory or the
  buffer whose \<^verbatim>\<open>dma_buf\<close> it shows, and the buffer and the connection to release it on.\<close>

record video_encode_queue_frame =
  vf_block :: address
  vf_shm_data :: "int option"
  vf_dma_data :: "address option"
  vf_stride :: i32
  vf_buf :: address
  vf_conn :: nat

datatype obj = Pool_Obj address | Buffer_Obj address | Surface_Obj address | Params_Obj address

datatype event = Release u32 | Configure u32 u32 u32 "u32 list"

text \<open>The store; \<open>ch_conns\<close> are the live connections to clients, \<open>ch_sent\<close> the events sent on them.\<close>

record cheap =
  ch_next :: address
  ch_pools :: "address \<rightharpoonup> wl_shm_pool"
  ch_bufs :: "address \<rightharpoonup> wl_buffer"
  ch_surfs :: "address \<rightharpoonup> wl_surface"
  ch_params :: "address \<rightharpoonup> zwp_linux_buffer_params"
  ch_frames :: "address heap"
  ch_fds :: "int heap"
  ch_mmaps :: "(int \<times> i32) heap"
  ch_conns :: "nat set"
  ch_sent :: "(nat \<times> event) list"

record session_maps =
  ps_types :: "wl_interface wl_map"
  ps_data :: "obj wl_map"

record capture =
  ca_width :: u32
  ca_height :: u32
  ca_queue :: "(video_encode_queue_frame, cheap) rbuf"
  ca_frame_count :: int
  ca_heap :: cheap
  ca_sessions :: "nat \<rightharpoonup> session_maps"

text \<open>A message: its arguments are the 32-bit words of the closure, \<^verbatim>\<open>.i\<close> and \<^verbatim>\<open>.h\<close> being read as signed.\<close>

record proxy_message =
  ms_interface :: string
  ms_name :: string
  ms_sender :: u32
  ms_args :: "u32 list"

datatype proxy_action = PROXY_ACTION_ERR | PROXY_ACTION_DROP | PROXY_ACTION_FWD

text \<open>What the environment answers to the calls of one handler: the two \<^verbatim>\<open>malloc\<close>s, \<^verbatim>\<open>mmap\<close>, the
  \<^verbatim>\<open>malloc\<close> of an insertion, \<^verbatim>\<open>dup\<close>, \<^verbatim>\<open>wl_closure_send\<close> and \<^verbatim>\<open>wl_closure_init\<close>. A handler makes at most one closure, the
  end of a session one for each object: \<open>en_closure env i\<close> is the answer for object \<open>i\<close> there and \<open>en_closure env 0\<close>
  the answer in a handler.\<close>

record env =
  en_malloc1 :: bool
  en_malloc2 :: bool
  en_mmap :: "int option"
  en_insert :: bool
  en_dup :: int
  en_send :: bool
  en_closure :: "nat \<Rightarrow> bool"

section \<open>Store\<close>

definition deref :: "(address \<rightharpoonup> 'a) \<Rightarrow> address \<Rightarrow> 'a outcome" where
  "deref m a = (case m a of None \<Rightarrow> Fault Use_After_Free | Some x \<Rightarrow> Ret x)"

definition free_at :: "(address \<rightharpoonup> 'a) \<Rightarrow> address \<Rightarrow> (address \<rightharpoonup> 'a) outcome" where
  "free_at m a = (if m a = None then Fault Double_Free else Ret (m(a := None)))"

definition munmap :: "int \<Rightarrow> i32 \<Rightarrow> cheap \<Rightarrow> cheap outcome" where
  "munmap p n h = (if (p, n) \<in># ch_mmaps h then Ret (h\<lparr>ch_mmaps := ch_mmaps h - {#(p, n)#}\<rparr>) else Fault Assert_Failed)"

definition close_fd :: "int \<Rightarrow> cheap \<Rightarrow> cheap outcome" where
  "close_fd fd h = bindo (hfree fd (ch_fds h)) (\<lambda>fds. Ret (h\<lparr>ch_fds := fds\<rparr>))"

text \<open>Arguments \<open>0\<close> to \<open>n - 1\<close> of a message.\<close>

definition closure_args :: "nat \<Rightarrow> proxy_message \<Rightarrow> u32 list outcome" where
  "closure_args n msg = (if n \<le> length (ms_args msg) then Ret (ms_args msg) else Fault Indeterminate)"

text \<open>The maps of the session a message came from.\<close>

definition session_of :: "nat \<Rightarrow> capture \<Rightarrow> session_maps outcome" where
  "session_of k s = derefo (ca_sessions s k)"

definition set_data :: "nat \<Rightarrow> obj wl_map \<Rightarrow> capture \<Rightarrow> capture" where
  "set_data k d s = s\<lparr>ca_sessions := (ca_sessions s)(k := map_option (\<lambda>m. m\<lparr>ps_data := d\<rparr>) (ca_sessions s k))\<rparr>"

definition as_pool :: "obj option \<Rightarrow> address option outcome" where
  "as_pool p = (case p of None \<Rightarrow> Ret None | Some (Pool_Obj a) \<Rightarrow> Ret (Some a) | _ \<Rightarrow> Fault Bad_Cast)"

definition as_buffer :: "obj option \<Rightarrow> address option outcome" where
  "as_buffer p = (case p of None \<Rightarrow> Ret None | Some (Buffer_Obj a) \<Rightarrow> Ret (Some a) | _ \<Rightarrow> Fault Bad_Cast)"

definition as_surface :: "obj option \<Rightarrow> address option outcome" where
  "as_surface p = (case p of None \<Rightarrow> Ret None | Some (Surface_Obj a) \<Rightarrow> Ret (Some a) | _ \<Rightarrow> Fault Bad_Cast)"

definition as_params :: "obj option \<Rightarrow> address option outcome" where
  "as_params p = (case p of None \<Rightarrow> Ret None | Some (Params_Obj a) \<Rightarrow> Ret (Some a) | _ \<Rightarrow> Fault Bad_Cast)"

text \<open>\<^verbatim>\<open>assert(p != NULL)\<close>.\<close>

definition nonnull :: "'a option \<Rightarrow> 'a outcome" where
  "nonnull p = (case p of None \<Rightarrow> Fault Assert_Failed | Some x \<Rightarrow> Ret x)"

text \<open>The last steps of every handler that creates an object: no object may have the number, and the
  map takes it or is full.\<close>

definition store_object :: "env \<Rightarrow> nat \<Rightarrow> u32 \<Rightarrow> obj \<Rightarrow> capture \<Rightarrow> (bool \<times> capture) outcome" where
  "store_object env k i p s =
     bindo (session_of k s) (\<lambda>m.
     bindo (asserto (wl_map_lookup (ps_data m) i = None)) (\<lambda>_.
     case wl_map_insert_at (en_insert env) False i (Some p) (ps_data m) of
       (r, d) \<Rightarrow> if r < 0 then Ret (False, s) else Ret (True, set_data k d s)))"

text \<open>\<^verbatim>\<open>wl_map_remove(map, id)\<close> on the object data of a session.\<close>

definition remove_object :: "nat \<Rightarrow> u32 \<Rightarrow> capture \<Rightarrow> capture outcome" where
  "remove_object k i s =
     bindo (session_of k s) (\<lambda>m. bindo (wl_map_remove i (ps_data m)) (\<lambda>d. Ret (set_data k d s)))"

section \<open>Pools and shared-memory buffers\<close>

definition wl_shm_format :: "env \<Rightarrow> nat \<Rightarrow> proxy_message \<Rightarrow> capture \<Rightarrow> (proxy_action \<times> capture) outcome" where
  "wl_shm_format env k msg s =
     bindo (closure_args 1 msg) (\<lambda>args.
     if args ! 0 = 0 \<or> args ! 0 = 1 then Ret (PROXY_ACTION_FWD, s) else Ret (PROXY_ACTION_DROP, s))"

definition wl_shm_create_pool :: "env \<Rightarrow> nat \<Rightarrow> proxy_message \<Rightarrow> capture \<Rightarrow> (proxy_action \<times> capture) outcome" where
  "wl_shm_create_pool env k msg s =
     (if \<not> en_malloc1 env then Ret (PROXY_ACTION_ERR, s)
      else
        bindo (closure_args 3 msg) (\<lambda>args.
        let h = ca_heap s; a = ch_next h; size = args ! 2 in
        case en_mmap env of
          None \<Rightarrow> Ret (PROXY_ACTION_ERR, s\<lparr>ca_heap := h\<lparr>ch_next := Suc a\<rparr>\<rparr>)
        | Some p \<Rightarrow>
            let pool = \<lparr>sp_id = args ! 0, sp_p = p, sp_size = size, sp_dependents = 0\<rparr>;
                s' = s\<lparr>ca_heap := h\<lparr>ch_next := Suc a, ch_pools := (ch_pools h)(a \<mapsto> pool),
                        ch_mmaps := hmalloc (p, size) (ch_mmaps h)\<rparr>\<rparr> in
            bindo (store_object env k (args ! 0) (Pool_Obj a) s') (\<lambda>(stored, s').
            if stored then Ret (PROXY_ACTION_FWD, s')
            else bindo (munmap p size (ca_heap s')) (\<lambda>h.
                 bindo (free_at (ch_pools h) a) (\<lambda>pools.
                 Ret (PROXY_ACTION_ERR, s'\<lparr>ca_heap := h\<lparr>ch_pools := pools\<rparr>\<rparr>))))))"

definition wl_shm_pool_free :: "address \<Rightarrow> cheap \<Rightarrow> cheap outcome" where
  "wl_shm_pool_free a h =
     bindo (deref (ch_pools h) a) (\<lambda>pool.
     bindo (asserto (sp_id pool = 0)) (\<lambda>_.
     bindo (asserto (sp_dependents pool = 0)) (\<lambda>_.
     bindo (munmap (sp_p pool) (sp_size pool) h) (\<lambda>h.
     bindo (free_at (ch_pools h) a) (\<lambda>pools. Ret (h\<lparr>ch_pools := pools\<rparr>))))))"

definition wl_shm_pool_destroy :: "env \<Rightarrow> nat \<Rightarrow> proxy_message \<Rightarrow> capture \<Rightarrow> (proxy_action \<times> capture) outcome" where
  "wl_shm_pool_destroy env k msg s =
     bindo (session_of k s) (\<lambda>m.
     bindo (as_pool (wl_map_lookup (ps_data m) (ms_sender msg))) (\<lambda>p.
     bindo (nonnull p) (\<lambda>a.
     bindo (deref (ch_pools (ca_heap s)) a) (\<lambda>pool.
     bindo (asserto (sp_id pool \<noteq> 0)) (\<lambda>_.
     bindo (remove_object k (sp_id pool) s) (\<lambda>s.
     let h = (ca_heap s)\<lparr>ch_pools := (ch_pools (ca_heap s))(a \<mapsto> pool\<lparr>sp_id := 0\<rparr>)\<rparr> in
     bindo (if sp_dependents pool = 0 then wl_shm_pool_free a h else Ret h) (\<lambda>h.
     Ret (PROXY_ACTION_FWD, s\<lparr>ca_heap := h\<rparr>))))))))"

text \<open>When the insertion fails the count of the pool is not taken back.\<close>

definition wl_shm_pool_create_buffer ::
    "env \<Rightarrow> nat \<Rightarrow> proxy_message \<Rightarrow> capture \<Rightarrow> (proxy_action \<times> capture) outcome" where
  "wl_shm_pool_create_buffer env k msg s =
     (if \<not> en_malloc1 env \<or> \<not> en_malloc2 env then Ret (PROXY_ACTION_ERR, s)
      else
        bindo (closure_args 6 msg) (\<lambda>args.
        bindo (session_of k s) (\<lambda>m.
        bindo (as_pool (wl_map_lookup (ps_data m) (ms_sender msg))) (\<lambda>p.
        bindo (nonnull p) (\<lambda>pa.
        bindo (deref (ch_pools (ca_heap s)) pa) (\<lambda>pool.
        let h = ca_heap s; a = ch_next h;
            shm_buf = \<lparr>sb_p = sp_p pool + sint (args ! 1), sb_stride = args ! 4, sb_pool = pa\<rparr>;
            wl_buf = \<lparr>wb_id = args ! 0, wb_width = args ! 2, wb_height = args ! 3, wb_shm_buf = Some shm_buf,
                      wb_dma_buf = None, wb_dependents = 0\<rparr>;
            s' = s\<lparr>ca_heap := h\<lparr>ch_next := Suc a, ch_bufs := (ch_bufs h)(a \<mapsto> wl_buf),
                    ch_pools := (ch_pools h)(pa \<mapsto> pool\<lparr>sp_dependents := sp_dependents pool + 1\<rparr>)\<rparr>\<rparr> in
        bindo (asserto (args ! 5 = 0 \<or> args ! 5 = 1)) (\<lambda>_.
        bindo (store_object env k (args ! 0) (Buffer_Obj a) s') (\<lambda>(stored, s').
        if stored then Ret (PROXY_ACTION_FWD, s')
        else bindo (free_at (ch_bufs (ca_heap s')) a) (\<lambda>bufs.
             Ret (PROXY_ACTION_ERR, s'\<lparr>ca_heap := (ca_heap s')\<lparr>ch_bufs := bufs\<rparr>\<rparr>))))))))))"

definition wl_shm_buffer_free :: "wl_shm_buffer \<Rightarrow> cheap \<Rightarrow> cheap outcome" where
  "wl_shm_buffer_free buf h =
     bindo (deref (ch_pools h) (sb_pool buf)) (\<lambda>pool.
     let pool = pool\<lparr>sp_dependents := sp_dependents pool - 1\<rparr>;
         h = h\<lparr>ch_pools := (ch_pools h)(sb_pool buf \<mapsto> pool)\<rparr> in
     if sp_id pool = 0 \<and> sp_dependents pool = 0 then wl_shm_pool_free (sb_pool buf) h else Ret h)"

section \<open>Dma-buf parameters and buffers\<close>

definition no_plane :: dma_plane where
  "no_plane = \<lparr>pl_fd = - 1, pl_offset = 0, pl_stride = 0\<rparr>"

definition zwp_linux_dmabuf_create_params ::
    "env \<Rightarrow> nat \<Rightarrow> proxy_message \<Rightarrow> capture \<Rightarrow> (proxy_action \<times> capture) outcome" where
  "zwp_linux_dmabuf_create_params env k msg s =
     (if \<not> en_malloc1 env then Ret (PROXY_ACTION_ERR, s)
      else
        bindo (closure_args 1 msg) (\<lambda>args.
        let h = ca_heap s; a = ch_next h;
            params = \<lparr>bp_id = args ! 0, bp_num_planes = 0, bp_planes = replicate 4 no_plane, bp_modifier = 0\<rparr>;
            s' = s\<lparr>ca_heap := h\<lparr>ch_next := Suc a, ch_params := (ch_params h)(a \<mapsto> params)\<rparr>\<rparr> in
        bindo (store_object env k (args ! 0) (Params_Obj a) s') (\<lambda>(stored, s').
        if stored then Ret (PROXY_ACTION_FWD, s')
        else bindo (free_at (ch_params (ca_heap s')) a) (\<lambda>params.
             Ret (PROXY_ACTION_ERR, s'\<lparr>ca_heap := (ca_heap s')\<lparr>ch_params := params\<rparr>\<rparr>)))))"

definition dma_modifier :: "u32 \<Rightarrow> u32 \<Rightarrow> u64" where
  "dma_modifier hi lo = or (push_bit 32 (ucast hi)) (ucast lo)"

text \<open>\<^verbatim>\<open>dup\<close> opens the descriptor the environment answers; a negative answer is stored before the
  check. The descriptor a plane had before is not closed.\<close>

definition zwp_linux_buffer_params_add ::
    "env \<Rightarrow> nat \<Rightarrow> proxy_message \<Rightarrow> capture \<Rightarrow> (proxy_action \<times> capture) outcome" where
  "zwp_linux_buffer_params_add env k msg s =
     bindo (closure_args 6 msg) (\<lambda>args.
     bindo (session_of k s) (\<lambda>m.
     bindo (as_params (wl_map_lookup (ps_data m) (ms_sender msg))) (\<lambda>p.
     bindo (nonnull p) (\<lambda>a.
     bindo (asserto (args ! 1 < 4)) (\<lambda>_.
     bindo (deref (ch_params (ca_heap s)) a) (\<lambda>params.
     let h = ca_heap s; fd = en_dup env; i = unat (args ! 1); plane = bp_planes params ! i in
     if fd < 0
     then Ret (PROXY_ACTION_ERR, s\<lparr>ca_heap := h\<lparr>ch_params := (ch_params h)(a \<mapsto>
            params\<lparr>bp_planes := (bp_planes params)[i := plane\<lparr>pl_fd := fd\<rparr>]\<rparr>)\<rparr>\<rparr>)
     else
       let params = params\<lparr>bp_planes := (bp_planes params)[i := \<lparr>pl_fd = fd, pl_offset = args ! 2, pl_stride = args ! 3\<rparr>],
             bp_num_planes := bp_num_planes params + 1, bp_modifier := dma_modifier (args ! 4) (args ! 5)\<rparr> in
       Ret (PROXY_ACTION_FWD, s\<lparr>ca_heap := h\<lparr>ch_params := (ch_params h)(a \<mapsto> params), ch_fds := hmalloc fd (ch_fds h)\<rparr>\<rparr>)))))))"

text \<open>Copying the planes: plane \<open>4\<close> and later ones lie outside both arrays.\<close>

definition copy_planes :: "int \<Rightarrow> dma_plane list \<Rightarrow> dma_plane list outcome" where
  "copy_planes n planes =
     (if n \<le> 4 then Ret (take (nat n) planes @ replicate (4 - nat n) \<lparr>pl_fd = 0, pl_offset = 0, pl_stride = 0\<rparr>)
      else Fault Out_Of_Bounds)"

text \<open>A failing insertion frees the buffer and loses the descriptors it took over.\<close>

definition zwp_linux_buffer_params_create_immed ::
    "env \<Rightarrow> nat \<Rightarrow> proxy_message \<Rightarrow> capture \<Rightarrow> (proxy_action \<times> capture) outcome" where
  "zwp_linux_buffer_params_create_immed env k msg s =
     bindo (closure_args 5 msg) (\<lambda>args.
     bindo (session_of k s) (\<lambda>m.
     bindo (as_params (wl_map_lookup (ps_data m) (ms_sender msg))) (\<lambda>p.
     bindo (nonnull p) (\<lambda>pa.
     if \<not> en_malloc1 env \<or> \<not> en_malloc2 env then Ret (PROXY_ACTION_ERR, s)
     else
       bindo (deref (ch_params (ca_heap s)) pa) (\<lambda>params.
       bindo (copy_planes (bp_num_planes params) (bp_planes params)) (\<lambda>planes.
       let h = ca_heap s; a = ch_next h;
           dma_buf = \<lparr>db_width = args ! 1, db_height = args ! 2, db_format = args ! 3, db_modifier = bp_modifier params,
                      db_num_planes = bp_num_planes params, db_planes = planes\<rparr>;
           wl_buf = \<lparr>wb_id = args ! 0, wb_width = args ! 1, wb_height = args ! 2, wb_shm_buf = None,
                     wb_dma_buf = Some dma_buf, wb_dependents = 0\<rparr>;
           params = params\<lparr>bp_planes := map (\<lambda>p. p\<lparr>pl_fd := - 1\<rparr>) (bp_planes params)\<rparr>;
           s' = s\<lparr>ca_heap := h\<lparr>ch_next := Suc a, ch_bufs := (ch_bufs h)(a \<mapsto> wl_buf),
                   ch_params := (ch_params h)(pa \<mapsto> params)\<rparr>\<rparr> in
       bindo (store_object env k (args ! 0) (Buffer_Obj a) s') (\<lambda>(stored, s').
       if stored then Ret (PROXY_ACTION_FWD, s')
       else bindo (free_at (ch_bufs (ca_heap s')) a) (\<lambda>bufs.
            Ret (PROXY_ACTION_ERR, s'\<lparr>ca_heap := (ca_heap s')\<lparr>ch_bufs := bufs\<rparr>\<rparr>)))))))))"

definition close_planes :: "dma_plane list \<Rightarrow> cheap \<Rightarrow> cheap outcome" where
  "close_planes = foldo (\<lambda>p h. if pl_fd p \<ge> 0 then close_fd (pl_fd p) h else Ret h)"

text \<open>The result of the lookup is not checked here.\<close>

definition zwp_linux_buffer_params_destroy ::
    "env \<Rightarrow> nat \<Rightarrow> proxy_message \<Rightarrow> capture \<Rightarrow> (proxy_action \<times> capture) outcome" where
  "zwp_linux_buffer_params_destroy env k msg s =
     bindo (session_of k s) (\<lambda>m.
     bindo (as_params (wl_map_lookup (ps_data m) (ms_sender msg))) (\<lambda>p.
     bindo (derefo p) (\<lambda>a.
     bindo (deref (ch_params (ca_heap s)) a) (\<lambda>params.
     bindo (close_planes (bp_planes params) (ca_heap s)) (\<lambda>h.
     bindo (remove_object k (bp_id params) (s\<lparr>ca_heap := h\<rparr>)) (\<lambda>s.
     bindo (free_at (ch_params (ca_heap s)) a) (\<lambda>params.
     Ret (PROXY_ACTION_FWD, s\<lparr>ca_heap := (ca_heap s)\<lparr>ch_params := params\<rparr>\<rparr>))))))))"

definition dma_buffer_free :: "dma_buffer \<Rightarrow> cheap \<Rightarrow> cheap outcome" where
  "dma_buffer_free buf h =
     (if db_num_planes buf \<le> 4 then close_planes (take (nat (db_num_planes buf)) (db_planes buf)) h
      else Fault Out_Of_Bounds)"

section \<open>Buffers and surfaces\<close>

definition wl_buffer_release :: "env \<Rightarrow> nat \<Rightarrow> proxy_message \<Rightarrow> capture \<Rightarrow> (proxy_action \<times> capture) outcome" where
  "wl_buffer_release env k msg s =
     bindo (session_of k s) (\<lambda>m.
     if wl_map_lookup (ps_data m) (ms_sender msg) \<noteq> None then Ret (PROXY_ACTION_DROP, s)
     else Ret (PROXY_ACTION_FWD, s))"

definition wl_buffer_free :: "address \<Rightarrow> cheap \<Rightarrow> cheap outcome" where
  "wl_buffer_free a h =
     bindo (deref (ch_bufs h) a) (\<lambda>buf.
     bindo (asserto (wb_id buf = 0)) (\<lambda>_.
     bindo (asserto (wb_dependents buf = 0)) (\<lambda>_.
     bindo (case wb_shm_buf buf of None \<Rightarrow> Ret h | Some b \<Rightarrow> wl_shm_buffer_free b h) (\<lambda>h.
     bindo (case wb_dma_buf buf of None \<Rightarrow> Ret h | Some b \<Rightarrow> dma_buffer_free b h) (\<lambda>h.
     bindo (free_at (ch_bufs h) a) (\<lambda>bufs. Ret (h\<lparr>ch_bufs := bufs\<rparr>)))))))"

text \<open>
  \<^verbatim>\<open>_wl_buffer_release\<close> on connection \<open>conn\<close>: sending on a connection that has been destroyed is a
  fault, and so is a failing \<^verbatim>\<open>wl_closure_init\<close>, whose result the source does not check. \<open>init_ok\<close> and \<open>send_ok\<close> are
  the answers of \<^verbatim>\<open>wl_closure_init\<close> and \<^verbatim>\<open>wl_closure_send\<close>.
\<close>

definition send_wl_buffer_release :: "bool \<Rightarrow> bool \<Rightarrow> address \<Rightarrow> nat \<Rightarrow> cheap \<Rightarrow> (int \<times> cheap) outcome" where
  "send_wl_buffer_release init_ok send_ok a conn h =
     bindo (deref (ch_bufs h) a) (\<lambda>buf.
     bindo (if wb_id buf = 0 then Ret (0 :: int, h)
            else if \<not> init_ok then Fault Null_Deref
            else if conn \<in> ch_conns h
            then Ret (if send_ok then 0 else - 1, h\<lparr>ch_sent := ch_sent h @ [(conn, Release (wb_id buf))]\<rparr>)
            else Fault Use_After_Free) (\<lambda>(ret, h).
     bindo (if wb_id buf = 0 \<and> wb_dependents buf = 0 then wl_buffer_free a h else Ret h) (\<lambda>h.
     Ret (if ret < 0 then - 1 else 0, h))))"

definition wl_buffer_destroy :: "env \<Rightarrow> nat \<Rightarrow> proxy_message \<Rightarrow> capture \<Rightarrow> (proxy_action \<times> capture) outcome" where
  "wl_buffer_destroy env k msg s =
     bindo (session_of k s) (\<lambda>m.
     bindo (as_buffer (wl_map_lookup (ps_data m) (ms_sender msg))) (\<lambda>p.
     case p of
       None \<Rightarrow> Ret (PROXY_ACTION_FWD, s)
     | Some a \<Rightarrow>
         bindo (deref (ch_bufs (ca_heap s)) a) (\<lambda>buf.
         bindo (asserto (wb_id buf \<noteq> 0)) (\<lambda>_.
         bindo (remove_object k (wb_id buf) s) (\<lambda>s.
         let h = (ca_heap s)\<lparr>ch_bufs := (ch_bufs (ca_heap s))(a \<mapsto> buf\<lparr>wb_id := 0\<rparr>)\<rparr> in
         bindo (if wb_dependents buf = 0 then wl_buffer_free a h else Ret h) (\<lambda>h.
         Ret (PROXY_ACTION_FWD, s\<lparr>ca_heap := h\<rparr>)))))))"

definition wl_compositor_create_surface ::
    "env \<Rightarrow> nat \<Rightarrow> proxy_message \<Rightarrow> capture \<Rightarrow> (proxy_action \<times> capture) outcome" where
  "wl_compositor_create_surface env k msg s =
     (if \<not> en_malloc1 env then Ret (PROXY_ACTION_ERR, s)
      else
        bindo (closure_args 1 msg) (\<lambda>args.
        let h = ca_heap s; a = ch_next h; surf = \<lparr>su_id = args ! 0, su_buf = None, su_dependents = 0\<rparr>;
            s' = s\<lparr>ca_heap := h\<lparr>ch_next := Suc a, ch_surfs := (ch_surfs h)(a \<mapsto> surf)\<rparr>\<rparr> in
        bindo (store_object env k (args ! 0) (Surface_Obj a) s') (\<lambda>(stored, s').
        if stored then Ret (PROXY_ACTION_FWD, s')
        else bindo (free_at (ch_surfs (ca_heap s')) a) (\<lambda>surfs.
             Ret (PROXY_ACTION_ERR, s'\<lparr>ca_heap := (ca_heap s')\<lparr>ch_surfs := surfs\<rparr>\<rparr>)))))"

definition wl_surface_unattach :: "address \<Rightarrow> cheap \<Rightarrow> cheap outcome" where
  "wl_surface_unattach a h =
     bindo (deref (ch_surfs h) a) (\<lambda>surf.
     case su_buf surf of
       None \<Rightarrow> Ret h
     | Some b \<Rightarrow>
         bindo (deref (ch_bufs h) b) (\<lambda>buf.
         let buf = buf\<lparr>wb_dependents := wb_dependents buf - 1\<rparr>;
             h = h\<lparr>ch_bufs := (ch_bufs h)(b \<mapsto> buf)\<rparr> in
         bindo (if wb_id buf = 0 \<and> wb_dependents buf = 0 then wl_buffer_free b h else Ret h) (\<lambda>h.
         Ret (h\<lparr>ch_surfs := (ch_surfs h)(a \<mapsto> surf\<lparr>su_buf := None\<rparr>)\<rparr>))))"

definition wl_surface_attach :: "env \<Rightarrow> nat \<Rightarrow> proxy_message \<Rightarrow> capture \<Rightarrow> (proxy_action \<times> capture) outcome" where
  "wl_surface_attach env k msg s =
     bindo (session_of k s) (\<lambda>m.
     bindo (as_surface (wl_map_lookup (ps_data m) (ms_sender msg))) (\<lambda>p.
     bindo (nonnull p) (\<lambda>a.
     bindo (closure_args 3 msg) (\<lambda>args.
     bindo (as_buffer (wl_map_lookup (ps_data m) (args ! 0))) (\<lambda>b.
     bindo (wl_surface_unattach a (ca_heap s)) (\<lambda>h.
     bindo (deref (ch_surfs h) a) (\<lambda>surf.
     let h = h\<lparr>ch_surfs := (ch_surfs h)(a \<mapsto> surf\<lparr>su_buf := b\<rparr>)\<rparr> in
     case b of
       None \<Rightarrow> Ret (PROXY_ACTION_FWD, s\<lparr>ca_heap := h\<rparr>)
     | Some b \<Rightarrow>
         bindo (asserto (args ! 1 = 0)) (\<lambda>_.
         bindo (asserto (args ! 2 = 0)) (\<lambda>_.
         bindo (deref (ch_bufs h) b) (\<lambda>buf.
         Ret (PROXY_ACTION_FWD, s\<lparr>ca_heap := h\<lparr>ch_bufs := (ch_bufs h)(b \<mapsto> buf\<lparr>wb_dependents := wb_dependents buf + 1\<rparr>)\<rparr>\<rparr>)))))))))))"

text \<open>The size test compares the signed sizes of the buffer as unsigned numbers.\<close>

definition frame_size_ok :: "wl_buffer \<Rightarrow> capture \<Rightarrow> bool" where
  "frame_size_ok buf s \<longleftrightarrow>
     wb_width buf \<ge> ca_width s \<and> wb_height buf \<ge> ca_height s \<and>
     wb_width buf < ca_width s + 8 \<and> wb_height buf < ca_height s + 8"

text \<open>The frame of the commit; its connection is the one of the client of session \<open>k\<close>.\<close>

definition commit_frame :: "address \<Rightarrow> nat \<Rightarrow> address \<Rightarrow> wl_buffer \<Rightarrow> video_encode_queue_frame" where
  "commit_frame block k b buf =
     \<lparr>vf_block = block, vf_shm_data = map_option sb_p (wb_shm_buf buf),
      vf_dma_data = (if wb_shm_buf buf = None then Some b else None),
      vf_stride = wb_width buf * 4, vf_buf = b, vf_conn = k\<rparr>"

definition commit_push :: "env \<Rightarrow> nat \<Rightarrow> address \<Rightarrow> wl_buffer \<Rightarrow> capture \<Rightarrow> (bool \<times> capture) outcome" where
  "commit_push env k b buf s =
     bindo (asserto ((wb_shm_buf buf = None) \<noteq> (wb_dma_buf buf = None))) (\<lambda>_.
     if \<not> en_malloc1 env then Ret (False, s)
     else
       let h = ca_heap s; f = commit_frame (ch_next h) k b buf;
           h = h\<lparr>ch_next := Suc (ch_next h), ch_frames := hmalloc (vf_block f) (ch_frames h)\<rparr> in
       bindo (rbuf_push (ca_queue s) (Some f) h) (\<lambda>(r, q, h).
       if r < 0
       then bindo (hfree (vf_block f) (ch_frames h)) (\<lambda>fs.
            Ret (False, s\<lparr>ca_queue := q, ca_heap := h\<lparr>ch_frames := fs\<rparr>\<rparr>))
       else bindo (deref (ch_bufs h) b) (\<lambda>buf.
            Ret (True, s\<lparr>ca_queue := q, ca_frame_count := ca_frame_count s + 1,
              ca_heap := h\<lparr>ch_bufs := (ch_bufs h)(b \<mapsto> buf\<lparr>wb_dependents := wb_dependents buf + 1\<rparr>)\<rparr>\<rparr>))))"

definition wl_surface_commit :: "env \<Rightarrow> nat \<Rightarrow> proxy_message \<Rightarrow> capture \<Rightarrow> (proxy_action \<times> capture) outcome" where
  "wl_surface_commit env k msg s =
     bindo (session_of k s) (\<lambda>m.
     bindo (as_surface (wl_map_lookup (ps_data m) (ms_sender msg))) (\<lambda>p.
     bindo (nonnull p) (\<lambda>a.
     bindo (deref (ch_surfs (ca_heap s)) a) (\<lambda>surf.
     case su_buf surf of
       None \<Rightarrow> Ret (PROXY_ACTION_FWD, s)
     | Some b \<Rightarrow>
         bindo (deref (ch_bufs (ca_heap s)) b) (\<lambda>buf.
         bindo (if frame_size_ok buf s then commit_push env k b buf s
                else bindo (send_wl_buffer_release (en_closure env 0) (en_send env) b k (ca_heap s)) (\<lambda>(r, h).
                     Ret (r \<ge> 0, s\<lparr>ca_heap := h\<rparr>))) (\<lambda>(processed, s).
         if \<not> processed then Ret (PROXY_ACTION_ERR, s)
         else bindo (wl_surface_unattach a (ca_heap s)) (\<lambda>h.
              Ret (PROXY_ACTION_FWD, s\<lparr>ca_heap := h\<rparr>))))))))"

text \<open>The free callback of the encode queue. It has no environment of its own: the closure of its event is taken to be
  allocated; the result of sending it is ignored by the source.\<close>

definition free_frame :: "video_encode_queue_frame \<Rightarrow> cheap \<Rightarrow> cheap outcome" where
  "free_frame f h =
     bindo (deref (ch_bufs h) (vf_buf f)) (\<lambda>buf.
     let h = h\<lparr>ch_bufs := (ch_bufs h)(vf_buf f \<mapsto> buf\<lparr>wb_dependents := wb_dependents buf - 1\<rparr>)\<rparr> in
     bindo (send_wl_buffer_release True True (vf_buf f) (vf_conn f) h) (\<lambda>(r, h).
     bindo (hfree (vf_block f) (ch_frames h)) (\<lambda>fs. Ret (h\<lparr>ch_frames := fs\<rparr>))))"

definition wl_surface_free :: "address \<Rightarrow> cheap \<Rightarrow> cheap outcome" where
  "wl_surface_free a h =
     bindo (deref (ch_surfs h) a) (\<lambda>surf.
     bindo (asserto (su_id surf = 0)) (\<lambda>_.
     bindo (free_at (ch_surfs h) a) (\<lambda>surfs. Ret (h\<lparr>ch_surfs := surfs\<rparr>))))"

definition wl_surface_destroy :: "env \<Rightarrow> nat \<Rightarrow> proxy_message \<Rightarrow> capture \<Rightarrow> (proxy_action \<times> capture) outcome" where
  "wl_surface_destroy env k msg s =
     bindo (session_of k s) (\<lambda>m.
     bindo (as_surface (wl_map_lookup (ps_data m) (ms_sender msg))) (\<lambda>p.
     bindo (nonnull p) (\<lambda>a.
     bindo (deref (ch_surfs (ca_heap s)) a) (\<lambda>surf.
     bindo (asserto (su_id surf \<noteq> 0)) (\<lambda>_.
     bindo (remove_object k (ms_sender msg) s) (\<lambda>s.
     let h = (ca_heap s)\<lparr>ch_surfs := (ch_surfs (ca_heap s))(a \<mapsto> surf\<lparr>su_id := 0\<rparr>)\<rparr> in
     bindo (wl_surface_unattach a h) (\<lambda>h.
     bindo (deref (ch_surfs h) a) (\<lambda>surf.
     bindo (if su_dependents surf = 0 then wl_surface_free a h else Ret h) (\<lambda>h.
     Ret (PROXY_ACTION_FWD, s\<lparr>ca_heap := h\<rparr>))))))))))"

section \<open>Client dimensions\<close>

text \<open>The blocks of one \<^verbatim>\<open>xdg_surface_get_toplevel\<close>: the array struct, its data and the closure.\<close>

datatype toplevel_block = Array_Struct | Array_Data | Closure_Block

definition fullscreen_states :: "u32 list" where
  "fullscreen_states = [2, 4, 5, 6, 7, 8]"

text \<open>The label \<^verbatim>\<open>err_send\<close> falls through to \<^verbatim>\<open>err_add\<close>, which frees the array struct again.\<close>

definition xdg_surface_get_toplevel ::
    "env \<Rightarrow> nat \<Rightarrow> proxy_message \<Rightarrow> capture \<Rightarrow> (proxy_action \<times> capture) outcome" where
  "xdg_surface_get_toplevel env k msg s =
     (if \<not> en_malloc1 env then Ret (PROXY_ACTION_ERR, s)
      else
        let blocks = hmalloc Array_Struct {#} in
        if \<not> en_malloc2 env
        then bindo (hfree Array_Struct blocks) (\<lambda>blocks. Ret (PROXY_ACTION_ERR, s))
        else
          let blocks = hmalloc Closure_Block (hmalloc Array_Data blocks) in
          if \<not> en_closure env 0 then Fault Null_Deref
          else
          bindo (closure_args 1 msg) (\<lambda>args.
          if k \<notin> ch_conns (ca_heap s) then Fault Use_After_Free
          else
            let s' = s\<lparr>ca_heap := (ca_heap s)\<lparr>ch_sent := ch_sent (ca_heap s) @
                         [(k, Configure (args ! 0) (ca_width s) (ca_height s) fullscreen_states)]\<rparr>\<rparr> in
            bindo (hfree_all [Array_Data, Array_Struct, Closure_Block] blocks) (\<lambda>blocks.
            if en_send env then Ret (PROXY_ACTION_FWD, s')
            else bindo (hfree Array_Struct blocks) (\<lambda>blocks. Ret (PROXY_ACTION_ERR, s')))))"

definition xdg_toplevel_configure :: "env \<Rightarrow> nat \<Rightarrow> proxy_message \<Rightarrow> capture \<Rightarrow> (proxy_action \<times> capture) outcome" where
  "xdg_toplevel_configure env k msg s = Ret (PROXY_ACTION_DROP, s)"

definition xdg_toplevel_set_fullscreen :: "env \<Rightarrow> nat \<Rightarrow> proxy_message \<Rightarrow> capture \<Rightarrow> (proxy_action \<times> capture) outcome" where
  "xdg_toplevel_set_fullscreen env k msg s = Ret (PROXY_ACTION_DROP, s)"

text \<open>This handler changes the message before it is forwarded.\<close>

definition wl_output_mode ::
    "env \<Rightarrow> nat \<Rightarrow> proxy_message \<Rightarrow> capture \<Rightarrow> (proxy_action \<times> proxy_message \<times> capture) outcome" where
  "wl_output_mode env k msg s =
     bindo (closure_args 3 msg) (\<lambda>args.
     Ret (PROXY_ACTION_FWD, msg\<lparr>ms_args := args[1 := ca_width s, 2 := ca_height s]\<rparr>, s))"

section \<open>Dispatch\<close>

type_synonym message_handler =
  "env \<Rightarrow> nat \<Rightarrow> proxy_message \<Rightarrow> capture \<Rightarrow> (proxy_action \<times> proxy_message \<times> capture) outcome"

text \<open>The handlers that leave the message as it is.\<close>

definition same_message ::
    "(env \<Rightarrow> nat \<Rightarrow> proxy_message \<Rightarrow> capture \<Rightarrow> (proxy_action \<times> capture) outcome) \<Rightarrow> message_handler" where
  "same_message f env k msg s = bindo (f env k msg s) (\<lambda>(act, s). Ret (act, msg, s))"

definition resize_message_handlers :: "(string \<times> string \<times> message_handler) list" where
  "resize_message_handlers =
    [(''xdg_surface'', ''get_toplevel'', same_message xdg_surface_get_toplevel),
     (''xdg_toplevel'', ''configure'', same_message xdg_toplevel_configure),
     (''xdg_toplevel'', ''set_fullscreen'', same_message xdg_toplevel_set_fullscreen),
     (''wl_output'', ''mode'', wl_output_mode)]"

definition shm_buffers_message_handlers :: "(string \<times> string \<times> message_handler) list" where
  "shm_buffers_message_handlers =
    [(''wl_shm'', ''format'', same_message wl_shm_format),
     (''wl_shm'', ''create_pool'', same_message wl_shm_create_pool),
     (''wl_shm_pool'', ''destroy'', same_message wl_shm_pool_destroy),
     (''wl_shm_pool'', ''create_buffer'', same_message wl_shm_pool_create_buffer)]"

definition dma_buffers_message_handlers :: "(string \<times> string \<times> message_handler) list" where
  "dma_buffers_message_handlers =
    [(''zwp_linux_dmabuf_v1'', ''create_params'', same_message zwp_linux_dmabuf_create_params),
     (''zwp_linux_buffer_params_v1'', ''add'', same_message zwp_linux_buffer_params_add),
     (''zwp_linux_buffer_params_v1'', ''create_immed'', same_message zwp_linux_buffer_params_create_immed),
     (''zwp_linux_buffer_params_v1'', ''destroy'', same_message zwp_linux_buffer_params_destroy)]"

definition video_output_message_handlers :: "(string \<times> string \<times> message_handler) list" where
  "video_output_message_handlers =
    [(''wl_buffer'', ''release'', same_message wl_buffer_release),
     (''wl_buffer'', ''destroy'', same_message wl_buffer_destroy),
     (''wl_compositor'', ''create_surface'', same_message wl_compositor_create_surface),
     (''wl_surface'', ''attach'', same_message wl_surface_attach),
     (''wl_surface'', ''commit'', same_message wl_surface_commit),
     (''wl_surface'', ''destroy'', same_message wl_surface_destroy)]"

definition message_handlers :: "(string \<times> string \<times> message_handler) list list" where
  "message_handlers = [resize_message_handlers, shm_buffers_message_handlers, dma_buffers_message_handlers,
     video_output_message_handlers]"

text \<open>The first handler of the tables with the names of the message.\<close>

definition find_handler :: "string \<Rightarrow> string \<Rightarrow> message_handler option" where
  "find_handler iface name =
     map_option (snd \<circ> snd) (find (\<lambda>(i, n, f). i = iface \<and> n = name) (concat message_handlers))"

definition handle_message :: message_handler where
  "handle_message env k msg s =
     bindo (rbuf_free_expired (ca_queue s) (ca_heap s)) (\<lambda>(q, h).
     let s = s\<lparr>ca_queue := q, ca_heap := h\<rparr> in
     case find_handler (ms_interface msg) (ms_name msg) of
       None \<Rightarrow> Ret (PROXY_ACTION_FWD, msg, s)
     | Some handler \<Rightarrow> handler env k msg s)"

section \<open>Sessions\<close>

definition handle_session_create :: "nat \<Rightarrow> capture \<Rightarrow> int \<times> capture" where
  "handle_session_create k s = (0, s)"

text \<open>Destroying one object of session \<open>k\<close>, as the callback of \<open>wl_map_for_each\<close>: a \<^verbatim>\<open>destroy\<close> message
  for it is handled.\<close>

definition destroy_object ::
    "env \<Rightarrow> nat \<Rightarrow> obj option \<Rightarrow> bool \<Rightarrow> nat \<Rightarrow> capture \<Rightarrow> (bool \<times> capture) outcome" where
  "destroy_object env k element flags idx s =
     bindo (session_of k s) (\<lambda>m.
     bindo (derefo (wl_map_lookup (ps_types m) (of_nat idx))) (\<lambda>iface.
     bindo (asserto (list_ex (\<lambda>g. wg_name g = ''destroy'') (if_methods iface))) (\<lambda>_.
     bindo (asserto (en_closure env idx)) (\<lambda>_.
     bindo (handle_message env k \<lparr>ms_interface = if_name iface, ms_name = ''destroy'', ms_sender = of_nat idx, ms_args = []\<rparr> s)
       (\<lambda>(act, msg, s).
     bindo (asserto (act \<noteq> PROXY_ACTION_ERR)) (\<lambda>_.
     bindo (session_of k s) (\<lambda>m.
     bindo (asserto (wl_map_lookup (ps_data m) (of_nat idx) = None)) (\<lambda>_.
     Ret (True, s)))))))))"

definition data_map :: "nat \<Rightarrow> capture \<Rightarrow> obj wl_map" where
  "data_map k s = (case ca_sessions s k of None \<Rightarrow> wl_map_init WL_MAP_CLIENT_SIDE | Some m \<Rightarrow> ps_data m)"

definition handle_session_destroy :: "env \<Rightarrow> nat \<Rightarrow> capture \<Rightarrow> capture outcome" where
  "handle_session_destroy env k s =
     bindo (session_of k s) (\<lambda>_. wl_map_for_each (data_map k) (destroy_object env k) s)"

end
