(* ===== verification/Video_Encode.thy ===== *)
theory Video_Encode
  imports Capture_Model
begin

text \<open>
  The video encoder thread, \<^verbatim>\<open>stratusd/Encode/src\<close> (\<^verbatim>\<open>Encode.c\<close>, \<^verbatim>\<open>EncodeUtils.c\<close>, \<^verbatim>\<open>EGLUtils.c\<close>): it takes the latest frame
  from the encode queue, reads the pixels of a dma-buf through EGL, encodes the frame with H.264 and pushes the packets
  to the transport queue.

  FFmpeg, EGL and OpenGL are not part of the sources: what their calls answer is given for each call, and the objects
  they create are blocks like those of \<^verbatim>\<open>malloc\<close>. The values of pixels are not modelled; that a read of them stays inside
  their memory is. The frames the capture module pushes and the
  packets the transport module takes between two rounds of the loop are given for each round.
\<close>

section \<open>State\<close>

datatype video_block =
    Encoder_State | Codec_Context | Yuv_Frame | Yuv_Data | Shm_Sws | Dma_Sws | Av_Packet
  | Egl_Struct | Egl_Display | Egl_Context | Gl_Framebuffer
  | Pixel_Block nat | Egl_Image nat | Gl_Texture nat
  | Video_Struct nat | Video_Data nat

record video_heap =
  vh_blocks :: "video_block heap"
  vh_next :: nat

record video_transport_queue_frame =
  vt_number :: nat
  vt_length :: int
  vt_data :: "byte list"
  vt_is_description :: bool

type_synonym video_queue = "(video_transport_queue_frame, video_heap) rbuf"

datatype frame_status = FRAME_ENCODED | FRAME_DROPPED_PRE_CONNECT | FRAME_DROPPED_BUF_FULL

text \<open>The functions of EGL extensions, static variables of \<^verbatim>\<open>EGLUtils.c\<close>: whether \<^verbatim>\<open>eglGetProcAddress\<close> found them.\<close>

record egl_procs =
  ep_create_image :: bool
  ep_destroy_image :: bool
  ep_target_texture :: bool

text \<open>The pointers of the context are whether they are set; of the frame also whether its data is, and of the EGL context
  the functions that were loaded with it.\<close>

record encoder_context =
  vc_codec_ctx :: bool
  vc_shm_sws_ctx :: bool
  vc_dma_sws_ctx :: bool
  vc_yuv_frame :: "bool option"
  vc_pkt :: bool
  vc_frame_count :: "frame_status \<Rightarrow> int"
  vc_width :: int
  vc_height :: int
  vc_egl_ctx :: "egl_procs option"
  vc_debug :: bool

definition vh_malloc :: "video_block \<Rightarrow> video_heap \<Rightarrow> video_heap" where
  "vh_malloc b h = h\<lparr>vh_blocks := hmalloc b (vh_blocks h)\<rparr>"

definition vh_free :: "video_block \<Rightarrow> video_heap \<Rightarrow> video_heap outcome" where
  "vh_free b h = bindo (hfree b (vh_blocks h)) (\<lambda>bs. Ret (h\<lparr>vh_blocks := bs\<rparr>))"

definition vh_free_if :: "bool \<Rightarrow> video_block \<Rightarrow> video_heap \<Rightarrow> video_heap outcome" where
  "vh_free_if c b h = (if c then vh_free b h else Ret h)"

section \<open>EGL\<close>

record egl_env =
  eg_procs :: egl_procs
  eg_calloc :: bool
  eg_display :: bool
  eg_initialize :: bool
  eg_config :: bool
  eg_context :: bool
  eg_current :: bool

definition egl_capture_init :: "egl_env \<Rightarrow> video_heap \<Rightarrow> (egl_procs option \<times> video_heap) outcome" where
  "egl_capture_init env h =
     (if \<not> eg_calloc env then Ret (None, h)
      else
        let h = vh_malloc Egl_Struct h in
        if \<not> eg_display env then bindo (vh_free Egl_Struct h) (\<lambda>h. Ret (None, h))
        else if \<not> eg_initialize env then bindo (vh_free Egl_Struct h) (\<lambda>h. Ret (None, h))
        else
          let h = vh_malloc Egl_Display h;
              err = (\<lambda>h. bindo (vh_free Egl_Display h) (\<lambda>h. bindo (vh_free Egl_Struct h) (\<lambda>h. Ret (None, h)))) in
          if \<not> eg_config env then err h
          else if \<not> eg_context env then err h
          else
            let h = vh_malloc Egl_Context h in
            if \<not> eg_current env then bindo (vh_free Egl_Context h) err
            else Ret (Some (eg_procs env), vh_malloc Gl_Framebuffer h))"

definition egl_capture_destroy :: "egl_procs option \<Rightarrow> video_heap \<Rightarrow> video_heap outcome" where
  "egl_capture_destroy ctx h =
     (if ctx = None then Ret h
      else
        bindo (vh_free Gl_Framebuffer h) (\<lambda>h.
        bindo (vh_free Egl_Context h) (\<lambda>h.
        bindo (vh_free Egl_Display h) (vh_free Egl_Struct))))"

text \<open>The names of the attributes, from the headers of EGL.\<close>

record egl_names =
  EGL_WIDTH :: u32
  EGL_HEIGHT :: u32
  EGL_LINUX_DRM_FOURCC_EXT :: u32
  EGL_DMA_BUF_PLANE0_FD_EXT :: u32
  EGL_DMA_BUF_PLANE0_OFFSET_EXT :: u32
  EGL_DMA_BUF_PLANE0_PITCH_EXT :: u32
  EGL_DMA_BUF_PLANE0_MODIFIER_LO_EXT :: u32
  EGL_DMA_BUF_PLANE0_MODIFIER_HI_EXT :: u32
  EGL_NONE :: u32

definition plane_attribs :: "egl_names \<Rightarrow> u64 \<Rightarrow> nat \<times> dma_plane \<Rightarrow> u32 list" where
  "plane_attribs names modifier ip =
     (case ip of (i, p) \<Rightarrow>
        [EGL_DMA_BUF_PLANE0_FD_EXT names + of_nat i * 3, of_int (pl_fd p),
         EGL_DMA_BUF_PLANE0_OFFSET_EXT names + of_nat i * 3, pl_offset p,
         EGL_DMA_BUF_PLANE0_PITCH_EXT names + of_nat i * 3, pl_stride p,
         EGL_DMA_BUF_PLANE0_MODIFIER_LO_EXT names + of_nat i * 2, ucast modifier,
         EGL_DMA_BUF_PLANE0_MODIFIER_HI_EXT names + of_nat i * 2, ucast (drop_bit 32 modifier)])"

text \<open>The array \<^verbatim>\<open>img_attribs\<close>, for the first four planes.\<close>

definition img_attribs :: "egl_names \<Rightarrow> dma_buffer \<Rightarrow> u32 list" where
  "img_attribs names dma_buf =
     [EGL_WIDTH names, db_width dma_buf, EGL_HEIGHT names, db_height dma_buf, EGL_LINUX_DRM_FOURCC_EXT names, db_format dma_buf] @
     concat (map (plane_attribs names (db_modifier dma_buf)) (zip [0..<4] (take (nat (db_num_planes dma_buf)) (db_planes dma_buf)))) @
     [EGL_NONE names]"

record gl_env =
  gl_image :: bool
  gl_bind :: bool
  gl_complete :: bool
  gl_read :: bool

text \<open>
  \<open>i\<close> numbers the objects of this frame and \<open>room\<close> is the size of \<^verbatim>\<open>pixel_data\<close>. Calling a function that was not found is a
  call through NULL. On success the image and the texture stay: only the label \<^verbatim>\<open>cleanup\<close> deletes them.
\<close>

definition egl_capture_dmabuf_frame ::
    "egl_names \<Rightarrow> gl_env \<Rightarrow> egl_procs option \<Rightarrow> nat \<Rightarrow> dma_buffer \<Rightarrow> nat \<Rightarrow> video_heap \<Rightarrow> (int \<times> video_heap) outcome" where
  "egl_capture_dmabuf_frame names env ctx i dma_buf room h =
     (if length (img_attribs names dma_buf) > 128 then Fault Out_Of_Bounds
      else
        bindo (derefo ctx) (\<lambda>procs.
        if \<not> ep_create_image procs then Fault Null_Deref
        else if \<not> gl_image env then Ret (- 1, h)
        else
          let h = vh_malloc (Gl_Texture i) (vh_malloc (Egl_Image i) h);
              cleanup = bindo (vh_free (Gl_Texture i) h) (\<lambda>h.
                if \<not> ep_destroy_image procs then Fault Null_Deref
                else bindo (vh_free (Egl_Image i) h) (\<lambda>h. Ret (- 1, h))) in
          if \<not> ep_target_texture procs then Fault Null_Deref
          else if \<not> gl_bind env then cleanup
          else if \<not> gl_complete env then cleanup
          else if room < unat (db_width dma_buf) * unat (db_height dma_buf) * 4 then Fault Out_Of_Bounds
          else if \<not> gl_read env then cleanup
          else Ret (0, h)))"

section \<open>Encoding\<close>

definition encode_free_frame :: "video_transport_queue_frame \<Rightarrow> video_heap \<Rightarrow> video_heap outcome" where
  "encode_free_frame f h = bindo (vh_free (Video_Data (vt_number f)) h) (vh_free (Video_Struct (vt_number f)))"

text \<open>What \<^verbatim>\<open>avcodec_receive_packet\<close> answers: a packet with its flags, and whether the two allocations for it succeed; no
  packet for now, the end of the stream, or an error. After the answers of a list there is no packet for now.\<close>

datatype receive_answer =
    Received "byte list" u32 bool bool
  | Receive_Again
  | Receive_Eof
  | Receive_Error nat

record codec_env =
  ce_send :: int
  ce_receive :: "receive_answer list"

text \<open>\<^verbatim>\<open>flags && AV_PKT_FLAG_KEY\<close> is whether any flag is set.\<close>

definition queue_packet ::
    "byte list \<Rightarrow> u32 \<Rightarrow> bool \<Rightarrow> bool \<Rightarrow> video_queue \<Rightarrow> video_heap \<Rightarrow> (int \<times> video_queue \<times> video_heap) outcome" where
  "queue_packet data flags ok1 ok2 q h =
     (let i = vh_next h; h = h\<lparr>vh_next := Suc i\<rparr> in
      if \<not> ok1 then Ret (- 1, q, h)
      else
        let h = vh_malloc (Video_Struct i) h in
        if \<not> ok2 then bindo (vh_free (Video_Struct i) h) (\<lambda>h. Ret (- 1, q, h))
        else
          let h = vh_malloc (Video_Data i) h in
          bindo (rbuf_push q (Some \<lparr>vt_number = i, vt_length = int (length data), vt_data = data, vt_is_description = (flags \<noteq> 0)\<rparr>) h)
            (\<lambda>(r, q, h).
             if r < 0
             then bindo (vh_free (Video_Data i) h) (\<lambda>h. bindo (vh_free (Video_Struct i) h) (\<lambda>h. Ret (- 1, q, h)))
             else Ret (0, q, h)))"

primrec receive_loop :: "receive_answer list \<Rightarrow> video_queue \<Rightarrow> video_heap \<Rightarrow> (int \<times> video_queue \<times> video_heap) outcome" where
  "receive_loop [] q h = Ret (0, q, h)"
| "receive_loop (a # as) q h =
     (case a of
        Receive_Again \<Rightarrow> Ret (0, q, h)
      | Receive_Eof \<Rightarrow> Ret (0, q, h)
      | Receive_Error n \<Rightarrow> Ret (- 1 - int n, q, h)
      | Received data flags ok1 ok2 \<Rightarrow>
          bindo (queue_packet data flags ok1 ok2 q h) (\<lambda>(r, q, h). if r < 0 then Ret (- 1, q, h) else receive_loop as q h))"

definition avcodec_send_and_receive :: "codec_env \<Rightarrow> video_queue \<Rightarrow> video_heap \<Rightarrow> (int \<times> video_queue \<times> video_heap) outcome" where
  "avcodec_send_and_receive env q h = (if ce_send env < 0 then Ret (ce_send env, q, h) else receive_loop (ce_receive env) q h)"

record video_core =
  vk_ctx :: encoder_context
  vk_queue :: video_queue
  vk_heap :: video_heap

definition count_frame :: "frame_status \<Rightarrow> video_core \<Rightarrow> video_core" where
  "count_frame st s =
     s\<lparr>vk_ctx := (vk_ctx s)\<lparr>vc_frame_count := (vc_frame_count (vk_ctx s))(st := vc_frame_count (vk_ctx s) st + 1)\<rparr>\<rparr>"

text \<open>The lines \<^verbatim>\<open>sws_scale\<close> reads: \<open>height\<close> lines of \<open>width\<close> pixels of 4 bytes, \<open>stride\<close> bytes apart, of the \<open>room\<close> bytes at
  the buffer.\<close>

definition picture_fits :: "nat \<Rightarrow> int \<Rightarrow> int \<Rightarrow> int \<Rightarrow> bool" where
  "picture_fits room stride width height \<longleftrightarrow>
     height \<le> 0 \<or> 0 \<le> (height - 1) * stride \<and> (height - 1) * stride + 4 * width \<le> int room"

text \<open>\<open>argb\<close> is the number of bytes at the buffer, \<^const>\<open>None\<close> for NULL.\<close>

definition encode_video_frame :: "codec_env \<Rightarrow> nat option \<Rightarrow> i32 \<Rightarrow> int \<Rightarrow> video_core \<Rightarrow> (int \<times> video_core) outcome" where
  "encode_video_frame env argb stride buf_type s =
     (case argb of
        None \<Rightarrow> Ret (- 1, s)
      | Some room \<Rightarrow>
          if buf_type \<noteq> 0 \<and> buf_type \<noteq> 1 then Ret (- 1, s)
          else if \<not> picture_fits room (sint stride) (vc_width (vk_ctx s)) (vc_height (vk_ctx s)) then Fault Out_Of_Bounds
          else
            bindo (avcodec_send_and_receive env (vk_queue s) (vk_heap s)) (\<lambda>(r, q, h).
            Ret (r, count_frame FRAME_ENCODED (s\<lparr>vk_queue := q, vk_heap := h\<rparr>))))"

text \<open>The size of the pixels is a product of 32-bit numbers. When EGL fails the buffer is not freed.\<close>

definition dma_encode_video_frame ::
    "egl_names \<Rightarrow> bool \<Rightarrow> gl_env \<Rightarrow> codec_env \<Rightarrow> dma_buffer \<Rightarrow> i32 \<Rightarrow> video_core \<Rightarrow> (int \<times> video_core) outcome" where
  "dma_encode_video_frame names malloc_ok gl env dma_buf stride s =
     (let pixel_size = unat (db_width dma_buf * db_height dma_buf * 4) in
      if \<not> malloc_ok then Ret (- 1, s)
      else
        let i = vh_next (vk_heap s); h = vh_malloc (Pixel_Block i) ((vk_heap s)\<lparr>vh_next := Suc i\<rparr>) in
        bindo (egl_capture_dmabuf_frame names gl (vc_egl_ctx (vk_ctx s)) i dma_buf pixel_size h) (\<lambda>(r, h).
        if r < 0 then Ret (- 1, s\<lparr>vk_heap := h\<rparr>)
        else
          bindo (encode_video_frame env (Some pixel_size) stride 1 (s\<lparr>vk_heap := h\<rparr>)) (\<lambda>(r, s).
          bindo (vh_free (Pixel_Block i) (vk_heap s)) (\<lambda>h. Ret (r, s\<lparr>vk_heap := h\<rparr>)))))"

section \<open>The thread\<close>

definition cleanup_encoder :: "encoder_context \<Rightarrow> video_heap \<Rightarrow> video_heap outcome" where
  "cleanup_encoder c h =
     bindo (vh_free_if (vc_pkt c) Av_Packet h) (\<lambda>h.
     bindo (vh_free_if (vc_shm_sws_ctx c) Shm_Sws h) (\<lambda>h.
     bindo (vh_free_if (vc_dma_sws_ctx c) Dma_Sws h) (\<lambda>h.
     bindo (case vc_yuv_frame c of
              None \<Rightarrow> Ret h
            | Some data \<Rightarrow> bindo (vh_free_if data Yuv_Data h) (vh_free Yuv_Frame)) (\<lambda>h.
     bindo (vh_free_if (vc_codec_ctx c) Codec_Context h) (vh_free Encoder_State)))))"

record startup_env =
  sa_calloc :: bool
  sa_debug :: bool
  sa_codec :: bool
  sa_codec_ctx :: bool
  sa_open :: bool
  sa_frame :: bool
  sa_image :: bool
  sa_shm_sws :: bool
  sa_dma_sws :: bool
  sa_pkt :: bool
  sa_egl :: egl_env

definition encoder_startup ::
    "startup_env \<Rightarrow> int \<Rightarrow> int \<Rightarrow> video_queue \<Rightarrow> video_heap \<Rightarrow> (encoder_context option \<times> video_queue \<times> video_heap) outcome" where
  "encoder_startup env width height q h =
     (if \<not> sa_calloc env then Ret (None, q, h)
      else
        let h = vh_malloc Encoder_State h;
            c = \<lparr>vc_codec_ctx = False, vc_shm_sws_ctx = False, vc_dma_sws_ctx = False, vc_yuv_frame = None, vc_pkt = False,
                 vc_frame_count = (\<lambda>_. 0), vc_width = width, vc_height = height, vc_egl_ctx = None, vc_debug = sa_debug env\<rparr> in
        bindo (rbuf_set_free q (Some encode_free_frame)) (\<lambda>q.
        let err = (\<lambda>c h. bindo (cleanup_encoder c h) (\<lambda>h. Ret (None, q, h))) in
        if \<not> sa_codec env then bindo (vh_free Encoder_State h) (\<lambda>h. Ret (None, q, h))
        else if \<not> sa_codec_ctx env then bindo (vh_free Encoder_State h) (\<lambda>h. Ret (None, q, h))
        else
          let h = vh_malloc Codec_Context h; c = c\<lparr>vc_codec_ctx := True\<rparr> in
          if \<not> sa_open env then err c h
          else if \<not> sa_frame env then err c h
          else
            let h = vh_malloc Yuv_Frame h; c = c\<lparr>vc_yuv_frame := Some False\<rparr> in
            if \<not> sa_image env then err c h
            else
              let h = vh_malloc Yuv_Data h; c = c\<lparr>vc_yuv_frame := Some True\<rparr> in
              if \<not> sa_shm_sws env then err c h
              else
                let h = vh_malloc Shm_Sws h; c = c\<lparr>vc_shm_sws_ctx := True\<rparr> in
                if \<not> sa_dma_sws env then err c h
                else
                  let h = vh_malloc Dma_Sws h; c = c\<lparr>vc_dma_sws_ctx := True\<rparr> in
                  if \<not> sa_pkt env then err c h
                  else
                    let h = vh_malloc Av_Packet h; c = c\<lparr>vc_pkt := True\<rparr> in
                    bindo (egl_capture_init (sa_egl env) h) (\<lambda>(egl, h).
                    if egl = None then err c h
                    else Ret (Some (c\<lparr>vc_egl_ctx := egl\<rparr>), q, h))))"

text \<open>\<open>env\<close> answers for the flush. The counts are printed.\<close>

definition encoder_teardown :: "codec_env \<Rightarrow> video_core \<Rightarrow> ((frame_status \<Rightarrow> int) \<times> video_queue \<times> video_heap) outcome" where
  "encoder_teardown env s =
     bindo (avcodec_send_and_receive env (vk_queue s) (vk_heap s)) (\<lambda>(_, q, h).
     bindo (vh_free Av_Packet h) (\<lambda>h.
     bindo (vh_free Shm_Sws h) (\<lambda>h.
     bindo (vh_free Dma_Sws h) (\<lambda>h.
     bindo (vh_free Yuv_Data h) (\<lambda>h.
     bindo (vh_free Yuv_Frame h) (\<lambda>h.
     bindo (vh_free Codec_Context h) (\<lambda>h.
     bindo (egl_capture_destroy (vc_egl_ctx (vk_ctx s)) h) (\<lambda>h.
     bindo (vh_free Encoder_State h) (\<lambda>h. Ret (vc_frame_count (vk_ctx s), q, h))))))))))"

text \<open>
  What a round of the loop finds: whether the session is active, the frames captured meanwhile, the dma-bufs they point
  to or how many bytes of the client's mapping there are at their pixels, how many packets the transport thread has taken meanwhile, whether its client is connected, and the answers. Of
  the encode queue only what it frees is followed.
\<close>

type_synonym input_queue = "(video_encode_queue_frame, video_encode_queue_frame list) rbuf"

definition capture_push ::
    "video_encode_queue_frame \<Rightarrow> input_queue \<times> video_encode_queue_frame list \<Rightarrow> (input_queue \<times> video_encode_queue_frame list) outcome" where
  "capture_push f inp = (case inp of (q, freed) \<Rightarrow> bindo (rbuf_push q (Some f) freed) (\<lambda>(_, q, freed). Ret (q, freed)))"

record encode_round =
  er_is_active :: bool
  er_captured :: "video_encode_queue_frame list"
  er_dma :: "address \<Rightarrow> dma_buffer"
  er_room :: "video_encode_queue_frame \<Rightarrow> nat"
  er_taken :: nat
  er_client_connected :: bool
  er_malloc :: bool
  er_gl :: gl_env
  er_codec :: codec_env

definition transport_take :: "video_queue \<Rightarrow> video_queue outcome" where
  "transport_take q = (if rbuf_used_capacity q = 0 then Ret q else rbuf_pop q)"

definition encode_frame :: "egl_names \<Rightarrow> encode_round \<Rightarrow> video_encode_queue_frame \<Rightarrow> video_core \<Rightarrow> (int \<times> video_core) outcome" where
  "encode_frame names r frame s =
     bindo (foldo (\<lambda>_. transport_take) [0..<er_taken r] (vk_queue s)) (\<lambda>q.
     let s = s\<lparr>vk_queue := q\<rparr> in
     if rbuf_free_capacity q = 0 then Ret (0, count_frame FRAME_DROPPED_BUF_FULL s)
     else if \<not> er_client_connected r then Ret (0, count_frame FRAME_DROPPED_PRE_CONNECT s)
     else if vf_shm_data frame \<noteq> None then encode_video_frame (er_codec r) (Some (er_room r frame)) (vf_stride frame) 0 s
     else case vf_dma_data frame of
         Some a \<Rightarrow> dma_encode_video_frame names (er_malloc r) (er_gl r) (er_codec r) (er_dma r a) (vf_stride frame) s
       | None \<Rightarrow> Ret (0, s))"

text \<open>The loop: \<open>Some (- 1)\<close> when it ends with an error, \<^const>\<open>None\<close> when the thread waits, for a frame or to be killed.\<close>

primrec encode_loop ::
    "egl_names \<Rightarrow> encode_round list \<Rightarrow> input_queue \<times> video_encode_queue_frame list \<Rightarrow> video_core \<Rightarrow>
     (int option \<times> (input_queue \<times> video_encode_queue_frame list) \<times> video_core) outcome" where
  "encode_loop names [] inp s = Ret (None, inp, s)"
| "encode_loop names (r # rs) inp s =
     (if \<not> er_is_active r then Ret (None, inp, s)
      else
        bindo (foldo capture_push (er_captured r) inp) (\<lambda>(q, freed).
        case rbuf_wait_peak_latest q of
          Block \<Rightarrow> Ret (None, (q, freed), s)
        | Fault e \<Rightarrow> Fault e
        | Ret (q, d) \<Rightarrow>
            bindo (derefo d) (\<lambda>frame.
            bindo (encode_frame names r frame s) (\<lambda>(ret, s).
            if ret \<noteq> 0 then Ret (Some (- 1), (q, freed), s)
            else bindo (rbuf_pop q) (\<lambda>q. encode_loop names rs (q, freed) s)))))"

text \<open>The cleanup handler runs when the thread is cancelled where it waits and when the loop ends.\<close>

definition encode_main ::
    "egl_names \<Rightarrow> startup_env \<Rightarrow> encode_round list \<Rightarrow> codec_env \<Rightarrow> int \<Rightarrow> int \<Rightarrow> input_queue \<times> video_encode_queue_frame list \<Rightarrow>
     video_queue \<Rightarrow> video_heap \<Rightarrow> (int option \<times> (frame_status \<Rightarrow> int) option \<times> video_queue \<times> video_heap) outcome" where
  "encode_main names env rounds flush width height inp q h =
     bindo (encoder_startup env width height q h) (\<lambda>(c, q, h).
     case c of
       None \<Rightarrow> Ret (Some (- 1), None, q, h)
     | Some c \<Rightarrow>
         bindo (encode_loop names rounds inp \<lparr>vk_ctx = c, vk_queue = q, vk_heap = h\<rparr>) (\<lambda>(ret, _, s).
         bindo (encoder_teardown flush s) (\<lambda>(counts, q, h). Ret (ret, Some counts, q, h))))"

section \<open>Attributes\<close>

lemma plane_attribs_length [simp]: "length (plane_attribs names modifier ip) = 10"
  by (simp add: plane_attribs_def split: prod.split)

text \<open>The array is large enough for every buffer.\<close>

lemma img_attribs_bound: "length (img_attribs names dma_buf) \<le> 47"
proof -
  have "length (concat (map (plane_attribs names m) xs)) = 10 * length xs" for m xs
    by (induction xs) simp_all
  then show ?thesis
    by (simp add: img_attribs_def)
qed

section \<open>Ownership\<close>

definition video_blocks :: "video_transport_queue_frame \<Rightarrow> video_block heap" where
  "video_blocks f = {#Video_Struct (vt_number f), Video_Data (vt_number f)#}"

definition videos_blocks :: "video_transport_queue_frame list \<Rightarrow> video_block heap" where
  "videos_blocks fs = \<Sum>\<^sub># (mset (map video_blocks fs))"

text \<open>The heap holds the blocks of the packets the queue owns, and \<open>base\<close>.\<close>

definition videos_owned ::
    "video_block heap \<Rightarrow> nat \<Rightarrow> video_transport_queue_frame list \<Rightarrow> video_queue \<Rightarrow> video_heap \<Rightarrow> bool" where
  "videos_owned base n qs q h \<longleftrightarrow> (\<exists>e. rbuf_own encode_free_frame q n e qs \<and> vh_blocks h = videos_blocks (e @ qs) + base)"

lemma videos_blocks_simps [simp]:
  "videos_blocks [] = {#}" "videos_blocks (f # fs) = video_blocks f + videos_blocks fs"
  "videos_blocks (fs @ gs) = videos_blocks fs + videos_blocks gs"
  by (simp_all add: videos_blocks_def)

lemma encode_free_frames_ok:
  "vh_blocks h = videos_blocks fs + bs \<Longrightarrow> foldo encode_free_frame fs h = Ret (h\<lparr>vh_blocks := bs\<rparr>)"
proof (induction fs arbitrary: h)
  case (Cons f fs)
  have "encode_free_frame f h = Ret (h\<lparr>vh_blocks := videos_blocks fs + bs\<rparr>)"
    using Cons.prems by (simp add: encode_free_frame_def video_blocks_def vh_free_def)
  then show ?case
    using Cons.IH [of "h\<lparr>vh_blocks := videos_blocks fs + bs\<rparr>"] by simp
qed simp

text \<open>Freeing a block that is part of \<open>base\<close>.\<close>

lemma videos_owned_free:
  assumes "videos_owned (add_mset b base) n qs q h"
  shows "vh_free b h = Ret (h\<lparr>vh_blocks := vh_blocks h - {#b#}\<rparr>)" "videos_owned base n qs q (h\<lparr>vh_blocks := vh_blocks h - {#b#}\<rparr>)"
  using assms by (auto simp: videos_owned_def vh_free_def hfree_def)

lemma videos_owned_malloc: "videos_owned base n qs q h \<Longrightarrow> videos_owned (add_mset b base) n qs q (vh_malloc b h)"
  by (auto simp: videos_owned_def vh_malloc_def hmalloc_def)

lemma videos_owned_next [simp]: "videos_owned base n qs q (h\<lparr>vh_next := i\<rparr>) = videos_owned base n qs q h"
  by (simp add: videos_owned_def)

text \<open>Runs that return.\<close>

definition sound :: "('a \<Rightarrow> bool) \<Rightarrow> 'a outcome \<Rightarrow> bool" where
  "sound P out \<longleftrightarrow> (case out of Ret x \<Rightarrow> P x | Fault f \<Rightarrow> False | Block \<Rightarrow> False)"

lemma sound_simps [simp]: "sound P (Ret x) \<longleftrightarrow> P x" "\<not> sound P Block" "\<not> sound P (Fault f)"
  by (simp_all add: sound_def)

lemma sound_bindo: "sound Q m \<Longrightarrow> (\<And>x. Q x \<Longrightarrow> sound P (f x)) \<Longrightarrow> sound P (bindo m f)"
  by (cases m) simp_all

lemma sound_mono: "sound Q m \<Longrightarrow> (\<And>x. Q x \<Longrightarrow> P x) \<Longrightarrow> sound P m"
  by (cases m) simp_all

definition owned :: "video_block heap \<Rightarrow> nat \<Rightarrow> video_queue \<Rightarrow> video_heap \<Rightarrow> bool" where
  "owned base n q h \<longleftrightarrow> (\<exists>qs. videos_owned base n qs q h)"

lemma queue_packet_owned:
  assumes "owned base n q h"
  shows "sound (\<lambda>(r, q', h'). owned base n q' h') (queue_packet data flags ok1 ok2 q h)"
proof -
  obtain e qs where e: "rbuf_own encode_free_frame q n e qs" "vh_blocks h = videos_blocks (e @ qs) + base"
    using assms by (auto simp: owned_def videos_owned_def)
  let ?i = "vh_next h" and ?f = "\<lparr>vt_number = vh_next h, vt_length = int (length data), vt_data = data, vt_is_description = (flags \<noteq> 0)\<rparr>"
  let ?h = "h\<lparr>vh_next := Suc ?i\<rparr>"
  let ?h2 = "vh_malloc (Video_Data ?i) (vh_malloc (Video_Struct ?i) ?h)"
  have h2: "vh_blocks ?h2 = videos_blocks e + (videos_blocks (qs @ [?f]) + base)"
    using e(2) by (simp add: vh_malloc_def hmalloc_def video_blocks_def)
  have same: "owned base n q ?h"
    using e by (auto simp: owned_def videos_owned_def)
  consider "\<not> ok1 \<or> \<not> ok2" | "ok1" "ok2" "length qs = n" | "ok1" "ok2" "length qs < n"
    using rb.bounded [OF e(1)] by force
  then show ?thesis
  proof cases
    case 1
    then show ?thesis
      using same by (cases ok1) (auto simp: queue_packet_def Let_def vh_malloc_def hmalloc_def vh_free_def)
  next
    case 2
    then show ?thesis
      using rb.push_full [OF e(1), of ?f ?h2] same
      by (simp add: queue_packet_def Let_def) (simp add: vh_malloc_def hmalloc_def vh_free_def)
  next
    case 3
    obtain q' where "rbuf_push q (Some ?f) ?h2 = Ret (0, q', ?h2\<lparr>vh_blocks := videos_blocks (qs @ [?f]) + base\<rparr>)"
      "rbuf_own encode_free_frame q' n [] (qs @ [?f])"
      using rb.push_room [OF e(1) 3(3) encode_free_frames_ok [OF h2], of ?f] by blast
    moreover then have "owned base n q' (?h2\<lparr>vh_blocks := videos_blocks (qs @ [?f]) + base\<rparr>)"
      unfolding owned_def videos_owned_def by (intro exI [of _ "qs @ [?f]"] exI [of _ "[]"]) simp
    ultimately show ?thesis
      using 3 by (simp add: queue_packet_def Let_def)
  qed
qed

lemma receive_loop_owned: "owned base n q h \<Longrightarrow> sound (\<lambda>(r, q', h'). owned base n q' h') (receive_loop as q h)"
proof (induction as arbitrary: q h)
  case (Cons a as)
  then show ?case
    by (cases a) (auto intro!: sound_bindo [OF queue_packet_owned])
qed simp

lemma send_receive_owned: "owned base n q h \<Longrightarrow> sound (\<lambda>(r, q', h'). owned base n q' h') (avcodec_send_and_receive env q h)"
  by (simp add: avcodec_send_and_receive_def receive_loop_owned)

section \<open>A round\<close>

text \<open>What dma-buf frames leave behind: the image and the texture of each frame that was read, the pixels of each that
  was not.\<close>

definition left_over :: "nat list \<Rightarrow> nat list \<Rightarrow> video_block heap" where
  "left_over images pixels = mset (map Egl_Image images) + mset (map Gl_Texture images) + mset (map Pixel_Block pixels)"

definition total_frames :: "(frame_status \<Rightarrow> int) \<Rightarrow> int" where
  "total_frames c = c FRAME_ENCODED + c FRAME_DROPPED_PRE_CONNECT + c FRAME_DROPPED_BUF_FULL"

lemma total_count [simp]: "total_frames (vc_frame_count (vk_ctx (count_frame st s))) = total_frames (vc_frame_count (vk_ctx s)) + 1"
  by (cases st) (simp_all add: total_frames_def count_frame_def)

abbreviation encoded_count :: "video_core \<Rightarrow> int" where
  "encoded_count s \<equiv> vc_frame_count (vk_ctx s) FRAME_ENCODED"

lemma count_frame_simps [simp]:
  "vk_queue (count_frame st s) = vk_queue s" "vk_heap (count_frame st s) = vk_heap s" "vc_egl_ctx (vk_ctx (count_frame st s)) = vc_egl_ctx (vk_ctx s)"
  "vc_width (vk_ctx (count_frame st s)) = vc_width (vk_ctx s)" "vc_height (vk_ctx (count_frame st s)) = vc_height (vk_ctx s)"
  "encoded_count (count_frame st s) = encoded_count s + of_bool (st = FRAME_ENCODED)"
  by (simp_all add: count_frame_def)

definition core_step :: "video_block heap \<Rightarrow> nat \<Rightarrow> video_core \<Rightarrow> int \<Rightarrow> video_core \<Rightarrow> bool" where
  "core_step base n s r s' \<longleftrightarrow> owned base n (vk_queue s') (vk_heap s') \<and> vc_egl_ctx (vk_ctx s') = vc_egl_ctx (vk_ctx s) \<and>
     vc_width (vk_ctx s') = vc_width (vk_ctx s) \<and> vc_height (vk_ctx s') = vc_height (vk_ctx s) \<and>
     (r = 0 \<longrightarrow> total_frames (vc_frame_count (vk_ctx s')) = total_frames (vc_frame_count (vk_ctx s)) + 1)"

lemma encode_video_frame_ok:
  assumes "owned base n (vk_queue s) (vk_heap s)"
    "picture_fits room (sint stride) (vc_width (vk_ctx s)) (vc_height (vk_ctx s))" "t = 0 \<or> t = 1"
  shows "sound (\<lambda>(r, s'). core_step base n s r s' \<and> encoded_count s' = encoded_count s + 1)
    (encode_video_frame env (Some room) stride t s)"
  using assms by (auto simp: encode_video_frame_def core_step_def intro!: sound_bindo [OF send_receive_owned])

definition dma_size_ok :: "dma_buffer \<Rightarrow> bool" where
  "dma_size_ok d \<longleftrightarrow> unat (db_width d) * unat (db_height d) * 4 < 2 ^ 32"

lemma pixel_size:
  assumes "dma_size_ok d"
  shows "unat (db_width d * db_height d * 4) = unat (db_width d) * unat (db_height d) * 4"
proof -
  have small: "x * 4 < 2 ^ 32 \<Longrightarrow> x mod 4294967296 * 4 mod 4294967296 = x * 4" for x :: nat
    by simp
  show ?thesis
    using small [of "unat (db_width d) * unat (db_height d)"] assms by (simp add: dma_size_ok_def unat_word_ariths)
qed

definition procs_found :: "egl_procs \<Rightarrow> bool" where
  "procs_found p \<longleftrightarrow> ep_create_image p \<and> ep_destroy_image p \<and> ep_target_texture p"

lemma capture_frame_ok:
  assumes "owned base n q h" "dma_size_ok d" "ctx = Some p" "procs_found p"
  shows "sound (\<lambda>(r, h'). (r = 0 \<and> owned (add_mset (Gl_Texture i) (add_mset (Egl_Image i) base)) n q h') \<or> (r = - 1 \<and> owned base n q h'))
    (egl_capture_dmabuf_frame names gl ctx i d (unat (db_width d * db_height d * 4)) h)"
proof -
  have len: "\<not> length (img_attribs names d) > 128"
    using img_attribs_bound [of names d] by simp
  let ?h = "vh_malloc (Gl_Texture i) (vh_malloc (Egl_Image i) h)"
  have two: "owned (add_mset (Gl_Texture i) (add_mset (Egl_Image i) base)) n q ?h"
    using assms(1) by (auto simp: owned_def intro: videos_owned_malloc)
  have "bindo (vh_free (Gl_Texture i) ?h) (vh_free (Egl_Image i)) = Ret h"
    by (simp add: vh_free_def vh_malloc_def hmalloc_def)
  then have "bindo (vh_free (Gl_Texture i) ?h) (\<lambda>h. bindo (vh_free (Egl_Image i) h) (\<lambda>h. Ret (- 1 :: int, h))) = Ret (- 1, h)"
    by (metis bindo.simps(1) bindo_assoc)
  then show ?thesis
    using len two assms(1,3,4)
    by (simp add: egl_capture_dmabuf_frame_def pixel_size [OF assms(2)] Let_def procs_found_def)
qed

lemma owned_free: "owned (add_mset b base) n q h \<Longrightarrow> sound (owned base n q) (vh_free b h)"
  using videos_owned_free by (fastforce simp: owned_def)

text \<open>What one frame leaves behind: nothing when its pixels are in shared memory, else an image and a texture if it
  was encoded and pixels at most if there was an error.\<close>

definition left_step :: "bool \<Rightarrow> video_core \<Rightarrow> int \<Rightarrow> video_core \<Rightarrow> nat list \<Rightarrow> nat list \<Rightarrow> bool" where
  "left_step shm s r s' images pixels \<longleftrightarrow>
     (shm \<longrightarrow> images = [] \<and> pixels = []) \<and> (r = 0 \<longrightarrow> pixels = []) \<and> length pixels \<le> 1 \<and>
     int (length images) \<le> encoded_count s' - encoded_count s \<and>
     (\<not> shm \<longrightarrow> int (length images) = encoded_count s' - encoded_count s)"

lemma dma_encode_ok:
  assumes s: "owned base n (vk_queue s) (vk_heap s)" and d: "dma_size_ok d"
    and p: "vc_egl_ctx (vk_ctx s) = Some p" "procs_found p"
    and fits: "picture_fits (unat (db_width d * db_height d * 4)) (sint stride) (vc_width (vk_ctx s)) (vc_height (vk_ctx s))"
  shows "sound (\<lambda>(r, s'). \<exists>images pixels. core_step (left_over images pixels + base) n s r s' \<and> left_step False s r s' images pixels)
    (dma_encode_video_frame names ok gl env d stride s)"
proof (cases ok)
  case False
  then show ?thesis
    using s by (auto simp: dma_encode_video_frame_def core_step_def left_step_def left_over_def intro!: exI [of _ "[]"])
next
  case True
  let ?i = "vh_next (vk_heap s)" and ?room = "unat (db_width d * db_height d * 4)"
  let ?h = "vh_malloc (Pixel_Block ?i) ((vk_heap s)\<lparr>vh_next := Suc ?i\<rparr>)" and ?base = "add_mset (Pixel_Block ?i) base"
  let ?P = "\<lambda>r s'. \<exists>images pixels. core_step (left_over images pixels + base) n s r s' \<and> left_step False s r s' images pixels"
  have h: "owned ?base n (vk_queue s) ?h"
    using s by (auto simp: owned_def intro!: videos_owned_malloc)
  have failed: "?P (- 1) (s\<lparr>vk_heap := h'\<rparr>)" if "owned ?base n (vk_queue s) h'" for h'
    using that by (intro exI [of _ "[]"] exI [of _ "[?i]"]) (simp add: core_step_def left_over_def left_step_def)
  have encoded: "sound (\<lambda>(r, s'). ?P r s')
      (bindo (encode_video_frame env (Some ?room) stride 1 (s\<lparr>vk_heap := h'\<rparr>)) (\<lambda>(r, s).
        bindo (vh_free (Pixel_Block ?i) (vk_heap s)) (\<lambda>h. Ret (r, s\<lparr>vk_heap := h\<rparr>))))"
    if h': "owned (add_mset (Gl_Texture ?i) (add_mset (Egl_Image ?i) ?base)) n (vk_queue s) h'" for h'
  proof -
    let ?s = "s\<lparr>vk_heap := h'\<rparr>"
    have own: "owned (add_mset (Pixel_Block ?i) (left_over [?i] [] + base)) n (vk_queue ?s) (vk_heap ?s)"
      "picture_fits ?room (sint stride) (vc_width (vk_ctx ?s)) (vc_height (vk_ctx ?s))" "(1 :: int) = 0 \<or> (1 :: int) = 1"
      using h' fits by (simp_all add: left_over_def add_mset_commute)
    have "sound (\<lambda>(r, s'). core_step (left_over [?i] [] + base) n s r s' \<and> left_step False s r s' [?i] [])
      (bindo (encode_video_frame env (Some ?room) stride 1 ?s) (\<lambda>(r, s).
        bindo (vh_free (Pixel_Block ?i) (vk_heap s)) (\<lambda>h. Ret (r, s\<lparr>vk_heap := h\<rparr>))))"
      by (rule sound_bindo [OF encode_video_frame_ok [OF own]])
        (auto simp: core_step_def left_step_def intro!: sound_bindo [OF owned_free])
    then show ?thesis
      by (rule sound_mono) blast
  qed
  show ?thesis
    using True failed encoded unfolding dma_encode_video_frame_def Let_def
    by (auto intro!: sound_bindo [OF capture_frame_ok [OF h d p]])
qed

lemma transport_takes_owned:
  assumes "owned base n q h"
  shows "sound (\<lambda>q'. owned base n q' h) (foldo (\<lambda>_. transport_take) xs q)"
  using assms
proof (induction xs arbitrary: q)
  case (Cons x xs)
  obtain e qs where e: "rbuf_own encode_free_frame q n e qs" "vh_blocks h = videos_blocks (e @ qs) + base"
    using Cons.prems by (auto simp: owned_def videos_owned_def)
  have "sound (\<lambda>q'. owned base n q' h) (transport_take q)"
  proof (cases qs)
    case Nil
    then show ?thesis
      using Cons.prems rbuf_own_used [OF e(1)] by (simp add: transport_take_def)
  next
    case (Cons y ys)
    then obtain q' where q': "rbuf_pop q = Ret q'" "rbuf_own encode_free_frame q' n (e @ [y]) ys"
      using rb.pop_first [of encode_free_frame q n e y ys] e(1) by auto
    have "owned base n q' h"
      unfolding owned_def videos_owned_def using q'(2) e(2) Cons by (intro exI [of _ ys] exI [of _ "e @ [y]"]) simp
    then show ?thesis
      using q'(1) rbuf_own_used [OF e(1)] Cons by (simp add: transport_take_def)
  qed
  then show ?case
    using Cons.IH by (auto intro: sound_bindo)
qed simp

text \<open>Frames the encoder can take: of pixels in shared memory, all that is read of them is in the client's mapping; a dma-buf
  needs the functions of EGL and has at most \<open>2\<^sup>3\<^sup>2\<close> bytes, which hold all that is read.\<close>

definition frame_fits ::
    "egl_procs \<Rightarrow> int \<Rightarrow> int \<Rightarrow> encode_round \<Rightarrow> video_encode_queue_frame \<Rightarrow> bool" where
  "frame_fits procs width height r f \<longleftrightarrow>
     (if vf_shm_data f \<noteq> None then picture_fits (er_room r f) (sint (vf_stride f)) width height
      else case vf_dma_data f of
          None \<Rightarrow> False
        | Some a \<Rightarrow> procs_found procs \<and> dma_size_ok (er_dma r a) \<and>
            picture_fits (unat (db_width (er_dma r a)) * unat (db_height (er_dma r a)) * 4) (sint (vf_stride f)) width height)"

definition round_ok :: "egl_procs \<Rightarrow> int \<Rightarrow> int \<Rightarrow> encode_round \<Rightarrow> bool" where
  "round_ok procs width height r \<longleftrightarrow> list_all (frame_fits procs width height r) (er_captured r)"

definition shm_round :: "encode_round \<Rightarrow> bool" where
  "shm_round r \<longleftrightarrow> list_all (\<lambda>f. vf_shm_data f \<noteq> None) (er_captured r)"

definition dma_round :: "encode_round \<Rightarrow> bool" where
  "dma_round r \<longleftrightarrow> list_all (\<lambda>f. vf_shm_data f = None) (er_captured r)"

lemma left_over_Nil [simp]: "left_over [] [] = {#}"
  by (simp add: left_over_def)

lemma encode_frame_ok:
  assumes s: "owned base n (vk_queue s) (vk_heap s)" and p: "vc_egl_ctx (vk_ctx s) = Some p"
    and f: "frame_fits p (vc_width (vk_ctx s)) (vc_height (vk_ctx s)) r f"
  shows "sound (\<lambda>(ret, s'). \<exists>images pixels. core_step (left_over images pixels + base) n s ret s' \<and>
      left_step (vf_shm_data f \<noteq> None) s ret s' images pixels)
    (encode_frame names r f s)"
proof -
  let ?P = "\<lambda>ret s'. \<exists>images pixels. core_step (left_over images pixels + base) n s ret s' \<and>
    left_step (vf_shm_data f \<noteq> None) s ret s' images pixels"
  have dropped: "?P 0 (count_frame st (s\<lparr>vk_queue := q\<rparr>))" if "owned base n q (vk_heap s)" "st \<noteq> FRAME_ENCODED" for st q
    using that by (intro exI [of _ "[]"]) (simp add: core_step_def left_step_def)
  have shm: "sound (\<lambda>(ret, s'). ?P ret s') (encode_video_frame (er_codec r) (Some (er_room r f)) (vf_stride f) 0 (s\<lparr>vk_queue := q\<rparr>))"
    if "owned base n q (vk_heap s)" "vf_shm_data f \<noteq> None" for q
  proof -
    have "sound (\<lambda>(ret, s'). core_step base n (s\<lparr>vk_queue := q\<rparr>) ret s' \<and> encoded_count s' = encoded_count (s\<lparr>vk_queue := q\<rparr>) + 1)
        (encode_video_frame (er_codec r) (Some (er_room r f)) (vf_stride f) 0 (s\<lparr>vk_queue := q\<rparr>))"
      by (rule encode_video_frame_ok) (use that f in \<open>auto simp: frame_fits_def\<close>)
    then show ?thesis
      by (rule sound_mono) (use that(2) in \<open>auto simp: core_step_def left_step_def intro!: exI [of _ "[]"]\<close>)
  qed
  have dma: "sound (\<lambda>(ret, s'). ?P ret s')
      (dma_encode_video_frame names (er_malloc r) (er_gl r) (er_codec r) (er_dma r a) (vf_stride f) (s\<lparr>vk_queue := q\<rparr>))"
    if "owned base n q (vk_heap s)" "vf_shm_data f = None" "vf_dma_data f = Some a" for q a
  proof -
    have "procs_found p" "dma_size_ok (er_dma r a)"
      "picture_fits (unat (db_width (er_dma r a) * db_height (er_dma r a) * 4)) (sint (vf_stride f)) (vc_width (vk_ctx s)) (vc_height (vk_ctx s))"
      using f that by (simp_all add: frame_fits_def pixel_size)
    then have "sound (\<lambda>(ret, s'). \<exists>images pixels. core_step (left_over images pixels + base) n (s\<lparr>vk_queue := q\<rparr>) ret s' \<and>
        left_step False (s\<lparr>vk_queue := q\<rparr>) ret s' images pixels)
        (dma_encode_video_frame names (er_malloc r) (er_gl r) (er_codec r) (er_dma r a) (vf_stride f) (s\<lparr>vk_queue := q\<rparr>))"
      using that(1) p by (intro dma_encode_ok [where p = p]) simp_all
    then show ?thesis
      by (rule sound_mono) (use that(2) in \<open>auto simp: core_step_def left_step_def\<close>)
  qed
  show ?thesis
    unfolding encode_frame_def
  proof (rule sound_bindo [OF transport_takes_owned [OF s]], goal_cases)
    case (1 q)
    show ?case
    proof (cases "vf_shm_data f")
      case None
      then obtain a where a: "vf_dma_data f = Some a"
        using f by (auto simp: frame_fits_def split: option.splits)
      then show ?thesis
        using dropped [OF 1] dma [OF 1 None a] None by (simp add: Let_def)
    next
      case (Some d)
      then show ?thesis
        using dropped [OF 1] shm [OF 1] by (simp add: Let_def)
    qed
  qed
qed

section \<open>The queue of captured frames\<close>

definition input_holds :: "nat \<Rightarrow> input_queue \<times> video_encode_queue_frame list \<Rightarrow> video_encode_queue_frame list \<Rightarrow> bool" where
  "input_holds m inp qs \<longleftrightarrow> (\<exists>e. rbuf_own log_free (fst inp) m e qs)"

lemma capture_push_ok:
  assumes "input_holds m inp qs" "0 < m"
  shows "sound (\<lambda>inp'. \<exists>qs'. input_holds m inp' qs' \<and> qs' \<noteq> [] \<and> set qs' \<subseteq> insert f (set qs)) (capture_push f inp)"
proof -
  obtain q freed e where inp: "inp = (q, freed)" and e: "rbuf_own log_free q m e qs"
    using assms(1) by (cases inp) (auto simp: input_holds_def)
  consider "length qs = m" | "length qs < m"
    using rb.bounded [OF e] by linarith
  then show ?thesis
  proof cases
    case 1
    then show ?thesis
      using rb.push_full [OF e 1, of f freed] assms inp
      by (auto simp: capture_push_def intro!: exI [of _ qs])
  next
    case 2
    obtain q' where "rbuf_push q (Some f) freed = Ret (0, q', freed @ e)" "rbuf_own log_free q' m [] (qs @ [f])"
      using rb.push_room [OF e 2 foldo_log_free, of f freed] by blast
    moreover then have "input_holds m (q', freed @ e) (qs @ [f])"
      by (auto simp: input_holds_def)
    ultimately show ?thesis
      using inp by (auto simp: capture_push_def intro!: exI [of _ "qs @ [f]"])
  qed
qed

lemma capture_pushes_ok:
  assumes "input_holds m inp qs" "0 < m"
  shows "sound (\<lambda>inp'. \<exists>qs'. input_holds m inp' qs' \<and> (fs \<noteq> [] \<longrightarrow> qs' \<noteq> []) \<and> set qs' \<subseteq> set fs \<union> set qs) (foldo capture_push fs inp)"
  using assms
proof (induction fs rule: rev_induct)
  case (snoc f fs)
  show ?case
    unfolding foldo_append
  proof (rule sound_bindo [OF snoc.IH [OF snoc.prems]], goal_cases)
    case (1 inp')
    then obtain qs' where qs': "input_holds m inp' qs'" "set qs' \<subseteq> set fs \<union> set qs"
      by blast
    have "sound (\<lambda>inp'. \<exists>qs'. input_holds m inp' qs' \<and> (fs @ [f] \<noteq> [] \<longrightarrow> qs' \<noteq> []) \<and> set qs' \<subseteq> set (fs @ [f]) \<union> set qs) (capture_push f inp')"
      by (rule sound_mono [OF capture_push_ok [OF qs'(1) assms(2)]]) (use qs'(2) in fastforce)
    then show ?case
      by simp
  qed
qed auto

text \<open>Taking the latest frame leaves none behind.\<close>

lemma take_latest_ok:
  assumes "input_holds m (q, freed) qs"
  shows "if qs = [] then rbuf_wait_peak_latest q = Block
    else \<exists>q1 q2. rbuf_wait_peak_latest q = Ret (q1, Some (last qs)) \<and> rbuf_pop q1 = Ret q2 \<and> input_holds m (q2, freed) []"
proof -
  obtain e where e: "rbuf_own log_free q m e qs"
    using assms by (auto simp: input_holds_def)
  show ?thesis
  proof (cases qs rule: rev_cases)
    case Nil
    then show ?thesis
      using rb.wait_empty [of log_free q m e] e by simp
  next
    case (snoc ys y)
    obtain q1 where q1: "rbuf_wait_peak_latest q = Ret (q1, Some y)" "rbuf_own log_free q1 m (e @ ys) [y]"
      using rb.latest_last [of log_free q m e ys y] e snoc by auto
    then show ?thesis
      using rb.pop_first [OF q1(2)] snoc by (auto simp: input_holds_def)
  qed
qed

section \<open>The thread\<close>

lemma left_over_append: "left_over images pixels + (left_over images' pixels' + base) = left_over (images @ images') (pixels @ pixels') + base"
  by (simp add: left_over_def)

text \<open>What the rounds of a loop leave behind: an image and a texture for frames that were encoded, for each of them when no
  frame is in shared memory and none when all are, and pixels, of one frame, at most when the loop ended with an error.\<close>

definition loop_left :: "encode_round list \<Rightarrow> int \<Rightarrow> int option \<Rightarrow> nat list \<Rightarrow> nat list \<Rightarrow> bool" where
  "loop_left rs encoded ret images pixels \<longleftrightarrow>
     ((\<forall>r \<in> set rs. shm_round r) \<longrightarrow> images = [] \<and> pixels = []) \<and> (ret = None \<longrightarrow> pixels = []) \<and> length pixels \<le> 1 \<and>
     int (length images) \<le> encoded \<and> ((\<forall>r \<in> set rs. dma_round r) \<longrightarrow> int (length images) = encoded)"

definition loop_result :: "video_block heap \<Rightarrow> nat \<Rightarrow> encode_round list \<Rightarrow> video_core \<Rightarrow> int option \<Rightarrow> video_core \<Rightarrow> bool" where
  "loop_result base n rs s ret s' \<longleftrightarrow>
     (\<exists>images pixels. owned (left_over images pixels + base) n (vk_queue s') (vk_heap s') \<and>
       loop_left rs (encoded_count s' - encoded_count s) ret images pixels) \<and>
     vc_egl_ctx (vk_ctx s') = vc_egl_ctx (vk_ctx s) \<and> ret \<in> {None, Some (- 1)} \<and>
     (ret = None \<longrightarrow> (\<forall>r \<in> set rs. er_is_active r \<and> er_captured r \<noteq> []) \<longrightarrow>
       total_frames (vc_frame_count (vk_ctx s')) = total_frames (vc_frame_count (vk_ctx s)) + int (length rs))"

lemma loop_result_stop:
  assumes "owned (left_over images pixels + base) n (vk_queue s') (vk_heap s')"
    "loop_left rs (encoded_count s' - encoded_count s) ret images pixels"
    "vc_egl_ctx (vk_ctx s') = vc_egl_ctx (vk_ctx s)"
    "ret = Some (- 1) \<or> (ret = None \<and> \<not> (\<forall>r \<in> set rs. er_is_active r \<and> er_captured r \<noteq> []))"
  shows "loop_result base n rs s ret s'"
  using assms unfolding loop_result_def by blast

text \<open>A frame of the round \<open>r\<close>, which has no other frames of use.\<close>

lemma left_step_stop:
  assumes "left_step shm s ret s1 images pixels" "shm_round r \<longrightarrow> shm" "dma_round r \<longrightarrow> \<not> shm"
  shows "loop_left (r # rs) (encoded_count s1 - encoded_count s) (Some (- 1)) images pixels"
  using assms by (auto simp: left_step_def loop_left_def)

lemma left_step_more:
  assumes "left_step shm s 0 s1 images pixels" "shm_round r \<longrightarrow> shm" "dma_round r \<longrightarrow> \<not> shm"
    "loop_left rs (encoded_count s' - encoded_count s1) ret images' pixels'"
  shows "loop_left (r # rs) (encoded_count s' - encoded_count s) ret (images' @ images) (pixels' @ pixels)"
  using assms by (auto simp: left_step_def loop_left_def)

lemma loop_result_step:
  assumes step: "core_step (left_over images pixels + base) n s 0 s1" "left_step shm s 0 s1 images pixels"
    "shm_round r \<longrightarrow> shm" "dma_round r \<longrightarrow> \<not> shm"
    and rest: "loop_result (left_over images pixels + base) n rs s1 ret s'"
  shows "loop_result base n (r # rs) s ret s'"
proof -
  obtain images' pixels' where "owned (left_over images' pixels' + (left_over images pixels + base)) n (vk_queue s') (vk_heap s')"
    "loop_left rs (encoded_count s' - encoded_count s1) ret images' pixels'"
    using rest unfolding loop_result_def by blast
  then have "owned (left_over (images' @ images) (pixels' @ pixels) + base) n (vk_queue s') (vk_heap s')"
    "loop_left (r # rs) (encoded_count s' - encoded_count s) ret (images' @ images) (pixels' @ pixels)"
    using left_step_more [OF step(2-4)] by (simp_all add: left_over_append)
  then have "\<exists>images pixels. owned (left_over images pixels + base) n (vk_queue s') (vk_heap s') \<and>
      loop_left (r # rs) (encoded_count s' - encoded_count s) ret images pixels"
    by blast
  then show ?thesis
    using step(1) rest unfolding loop_result_def core_step_def by simp
qed

lemma encode_loop_ok:
  assumes "owned base n (vk_queue s) (vk_heap s)" "\<forall>r \<in> set rs. round_ok p (vc_width (vk_ctx s)) (vc_height (vk_ctx s)) r"
    "input_holds m inp []" "0 < m" "vc_egl_ctx (vk_ctx s) = Some p"
  shows "sound (\<lambda>(ret, inp', s'). loop_result base n rs s ret s') (encode_loop names rs inp s)"
  using assms
proof (induction rs arbitrary: s base inp)
  case Nil
  then show ?case
    by (auto simp: loop_result_def loop_left_def intro!: exI [of _ "[]"])
next
  case (Cons r rs)
  have wait: "loop_result base n (r # rs) s None s" if "\<not> er_is_active r \<or> er_captured r = []"
    by (rule loop_result_stop [of "[]" "[]"]) (use Cons.prems that in \<open>auto simp: loop_left_def\<close>)
  have go: "sound (\<lambda>(ret, inp', s'). loop_result base n (r # rs) s ret s')
      (if ret \<noteq> 0 then Ret (Some (- 1), (q1, freed), s1) else bindo (rbuf_pop q1) (\<lambda>q. encode_loop names rs (q, freed) s1))"
    if s1: "core_step (left_over images pixels + base) n s ret s1" "left_step shm s ret s1 images pixels"
      and shm: "shm_round r \<longrightarrow> shm" "dma_round r \<longrightarrow> \<not> shm"
      and q2: "rbuf_pop q1 = Ret q2" "input_holds m (q2, freed) []" for ret s1 images pixels q1 q2 freed shm
  proof (cases "ret = 0")
    case False
    have "loop_result base n (r # rs) s (Some (- 1)) s1"
      by (rule loop_result_stop [OF _ left_step_stop [OF s1(2) shm]]) (use s1(1) in \<open>auto simp: core_step_def\<close>)
    then show ?thesis
      using False by simp
  next
    case True
    have "sound (\<lambda>(ret, inp', s'). loop_result (left_over images pixels + base) n rs s1 ret s') (encode_loop names rs (q2, freed) s1)"
      by (rule Cons.IH) (use s1 q2(2) Cons.prems(2,4,5) in \<open>auto simp: core_step_def\<close>)
    moreover have "loop_result base n (r # rs) s ret' s'"
      if "loop_result (left_over images pixels + base) n rs s1 ret' s'" for ret' s'
      using loop_result_step [OF _ _ shm that] s1 True by simp
    ultimately show ?thesis
      using True q2(1) by (auto elim!: sound_mono)
  qed
  show ?case
  proof (cases "er_is_active r")
    case False
    then show ?thesis
      using wait by simp
  next
    case True
    have taken: "sound (\<lambda>(ret, inp', s'). loop_result base n (r # rs) s ret s')
        (case rbuf_wait_peak_latest q of
          Block \<Rightarrow> Ret (None, (q, freed), s)
        | Fault e \<Rightarrow> Fault e
        | Ret (q, d) \<Rightarrow>
            bindo (derefo d) (\<lambda>frame.
            bindo (encode_frame names r frame s) (\<lambda>(ret, s).
            if ret \<noteq> 0 then Ret (Some (- 1), (q, freed), s)
            else bindo (rbuf_pop q) (\<lambda>q. encode_loop names rs (q, freed) s))))"
      if q: "input_holds m (q, freed) qs" "er_captured r \<noteq> [] \<longrightarrow> qs \<noteq> []" "set qs \<subseteq> set (er_captured r)" for q freed qs
    proof (cases "qs = []")
      case True
      then show ?thesis
        using take_latest_ok [OF q(1)] wait q(2) by simp
    next
      case False
      obtain q1 q2 where q2: "rbuf_wait_peak_latest q = Ret (q1, Some (last qs))" "rbuf_pop q1 = Ret q2" "input_holds m (q2, freed) []"
        using take_latest_ok [OF q(1)] False by auto
      have f: "frame_fits p (vc_width (vk_ctx s)) (vc_height (vk_ctx s)) r (last qs)"
        "shm_round r \<longrightarrow> vf_shm_data (last qs) \<noteq> None" "dma_round r \<longrightarrow> \<not> vf_shm_data (last qs) \<noteq> None"
        using subsetD [OF q(3) last_in_set [OF False]] Cons.prems(2)
        by (auto simp: round_ok_def shm_round_def dma_round_def list_all_iff)
      have "sound (\<lambda>(ret, inp', s'). loop_result base n (r # rs) s ret s')
          (bindo (encode_frame names r (last qs) s) (\<lambda>(ret, s).
            if ret \<noteq> 0 then Ret (Some (- 1), (q1, freed), s)
            else bindo (rbuf_pop q1) (\<lambda>q. encode_loop names rs (q, freed) s)))"
      proof (rule sound_bindo [OF encode_frame_ok [OF Cons.prems(1,5) f(1)]], clarify, goal_cases)
        case (1 ret s1 images pixels)
        show ?case
          by (rule go [OF 1 f(2,3) q2(2,3)])
      qed
      then show ?thesis
        using q2(1) by simp
    qed
    show ?thesis
      by (simp only: encode_loop.simps True not_True_eq_False if_False, rule sound_bindo [OF capture_pushes_ok [OF Cons.prems(3,4)]],
          clarify, rule taken) simp_all
  qed
qed

text \<open>What the thread holds while it runs.\<close>

definition encoder_blocks :: "video_block heap" where
  "encoder_blocks = {#Av_Packet, Shm_Sws, Dma_Sws, Yuv_Data, Yuv_Frame, Codec_Context, Gl_Framebuffer, Egl_Context, Egl_Display, Egl_Struct,
     Encoder_State#}"

definition startup_result ::
    "egl_procs \<Rightarrow> int \<Rightarrow> int \<Rightarrow> video_queue \<Rightarrow> video_heap \<Rightarrow> encoder_context option \<times> video_queue \<times> video_heap \<Rightarrow> bool" where
  "startup_result p width height q h res \<longleftrightarrow>
     (case res of
        (None, q', h') \<Rightarrow> h' = h
      | (Some c, q', h') \<Rightarrow> q' = q \<and> vh_blocks h' = encoder_blocks + vh_blocks h \<and> vc_egl_ctx c = Some p \<and>
          vc_width c = width \<and> vc_height c = height \<and> vc_frame_count c = (\<lambda>_. 0))"

lemma startup_result_simps [simp]:
  "startup_result p width height q h (None, q', h') \<longleftrightarrow> h' = h"
  "startup_result p width height q h (Some c, q', h') \<longleftrightarrow>
     q' = q \<and> vh_blocks h' = encoder_blocks + vh_blocks h \<and> vc_egl_ctx c = Some p \<and>
     vc_width c = width \<and> vc_height c = height \<and> vc_frame_count c = (\<lambda>_. 0)"
  by (simp_all add: startup_result_def)

lemma egl_init_cases:
  "(\<exists>h'. egl_capture_init env h = Ret (Some (eg_procs env), h') \<and> vh_blocks h' = {#Gl_Framebuffer, Egl_Context, Egl_Display, Egl_Struct#} + vh_blocks h) \<or>
   egl_capture_init env h = Ret (None, h)"
  by (auto simp: egl_capture_init_def Let_def vh_malloc_def vh_free_def hmalloc_def)

text \<open>On every error the startup frees what it has allocated so far.\<close>

lemma encoder_startup_ok:
  assumes "rbuf_set_free q (Some encode_free_frame) = Ret q'"
  shows "sound (startup_result (eg_procs (sa_egl env)) width height q' h) (encoder_startup env width height q h)"
proof -
  have egl: "sound P (bindo (egl_capture_init env h) f)"
    if "\<And>h'. vh_blocks h' = {#Gl_Framebuffer, Egl_Context, Egl_Display, Egl_Struct#} + vh_blocks h \<Longrightarrow> sound P (f (Some (eg_procs env), h'))"
      "sound P (f (None, h))" for P :: "'z \<Rightarrow> bool" and env h f
    using egl_init_cases [of env h] that by auto
  show ?thesis
    unfolding encoder_startup_def Let_def assms bindo.simps
    by (simp add: egl cleanup_encoder_def vh_free_if_def vh_malloc_def vh_free_def hmalloc_def encoder_blocks_def)
qed

lemma encoder_teardown_ok:
  assumes "owned (left_over images pixels + (encoder_blocks + base)) n (vk_queue s) (vk_heap s)" "vc_egl_ctx (vk_ctx s) \<noteq> None"
  shows "sound (\<lambda>(counts, q', h'). counts = vc_frame_count (vk_ctx s) \<and> owned (left_over images pixels + base) n q' h')
    (encoder_teardown env s)"
proof -
  let ?base = "left_over images pixels + base"
  have own: "owned (add_mset Av_Packet (add_mset Shm_Sws (add_mset Dma_Sws (add_mset Yuv_Data (add_mset Yuv_Frame (add_mset Codec_Context
      (add_mset Gl_Framebuffer (add_mset Egl_Context (add_mset Egl_Display (add_mset Egl_Struct (add_mset Encoder_State ?base)))))))))))
      n (vk_queue s) (vk_heap s)"
    using assms(1) by (simp add: encoder_blocks_def)
  show ?thesis
    unfolding encoder_teardown_def egl_capture_destroy_def using assms(2)
    by (auto simp: bindo_assoc intro!: sound_bindo [OF send_receive_owned [OF own]] sound_bindo [OF owned_free])
qed


section \<open>Properties\<close>

lemma loop_result_owned:
  assumes "loop_result base n rs s ret s'"
  obtains images pixels where "owned (left_over images pixels + base) n (vk_queue s') (vk_heap s')"
    "loop_left rs (encoded_count s' - encoded_count s) ret images pixels"
  using assms unfolding loop_result_def by blast

definition encoder_result ::
    "nat \<Rightarrow> encode_round list \<Rightarrow> video_heap \<Rightarrow> int option \<times> (frame_status \<Rightarrow> int) option \<times> video_queue \<times> video_heap \<Rightarrow> bool" where
  "encoder_result n rounds h res \<longleftrightarrow>
     (case res of (ret, counts, q', h') \<Rightarrow>
        case counts of
          None \<Rightarrow> ret = Some (- 1) \<and> h' = h
        | Some c \<Rightarrow> ret \<in> {None, Some (- 1)} \<and>
            (\<exists>images pixels. owned (left_over images pixels + vh_blocks h) n q' h' \<and>
              loop_left rounds (c FRAME_ENCODED) ret images pixels) \<and>
            (ret = None \<longrightarrow> (\<forall>r \<in> set rounds. er_is_active r \<and> er_captured r \<noteq> []) \<longrightarrow> total_frames c = int (length rounds)))"

lemma encoder_result_left:
  assumes "encoder_result n rounds h (ret, counts, q', h')"
  shows "case counts of
      None \<Rightarrow> ret = Some (- 1) \<and> h' = h
    | Some c \<Rightarrow> ret \<in> {None, Some (- 1)} \<and>
        (\<exists>images pixels. owned (left_over images pixels + vh_blocks h) n q' h' \<and>
          ((\<forall>r \<in> set rounds. shm_round r) \<longrightarrow> left_over images pixels = {#}) \<and>
          (ret = None \<longrightarrow> pixels = []) \<and> length pixels \<le> 1 \<and>
          int (length images) \<le> c FRAME_ENCODED \<and>
          ((\<forall>r \<in> set rounds. dma_round r) \<longrightarrow> int (length images) = c FRAME_ENCODED)) \<and>
        (ret = None \<longrightarrow> (\<forall>r \<in> set rounds. er_is_active r \<and> er_captured r \<noteq> []) \<longrightarrow> total_frames c = int (length rounds))"
proof (cases counts)
  case (Some c)
  then obtain images pixels where "owned (left_over images pixels + vh_blocks h) n q' h'"
    "loop_left rounds (c FRAME_ENCODED) ret images pixels" and rest: "ret \<in> {None, Some (- 1)}"
    "ret = None \<longrightarrow> (\<forall>r \<in> set rounds. er_is_active r \<and> er_captured r \<noteq> []) \<longrightarrow> total_frames c = int (length rounds)"
    using assms unfolding encoder_result_def by auto
  then have "\<exists>images pixels. owned (left_over images pixels + vh_blocks h) n q' h' \<and>
      ((\<forall>r \<in> set rounds. shm_round r) \<longrightarrow> left_over images pixels = {#}) \<and> (ret = None \<longrightarrow> pixels = []) \<and> length pixels \<le> 1 \<and>
      int (length images) \<le> c FRAME_ENCODED \<and> ((\<forall>r \<in> set rounds. dma_round r) \<longrightarrow> int (length images) = c FRAME_ENCODED)"
    unfolding loop_left_def by (intro exI [of _ images] exI [of _ pixels]) simp
  then show ?thesis
    using rest unfolding Some option.case by blast
qed (use assms in \<open>simp add: encoder_result_def\<close>)

text \<open>The loop and the cleanup handler of a thread that has started.\<close>

lemma encode_run_ok:
  assumes "rbuf_own encode_free_frame buf n [] []" "input_holds m inp []" "0 < m" "\<forall>r \<in> set rounds. round_ok p width height r"
    and c: "vh_blocks h1 = encoder_blocks + vh_blocks h" "vc_egl_ctx c = Some p" "vc_width c = width" "vc_height c = height"
      "vc_frame_count c = (\<lambda>_. 0)"
  shows "sound (encoder_result n rounds h)
      (bindo (encode_loop names rounds inp \<lparr>vk_ctx = c, vk_queue = buf, vk_heap = h1\<rparr>) (\<lambda>(ret, _, s).
        bindo (encoder_teardown flush s) (\<lambda>(counts, q, h). Ret (ret, Some counts, q, h))))"
proof -
  let ?s = "\<lparr>vk_ctx = c, vk_queue = buf, vk_heap = h1\<rparr>"
  have own: "owned (encoder_blocks + vh_blocks h) n (vk_queue ?s) (vk_heap ?s)"
    using assms(1) c(1) by (auto simp: owned_def videos_owned_def intro!: exI [of _ "[]"])
  have fits: "\<forall>r \<in> set rounds. round_ok p (vc_width (vk_ctx ?s)) (vc_height (vk_ctx ?s)) r" "vc_egl_ctx (vk_ctx ?s) = Some p"
    using assms(4) c by simp_all
  show ?thesis
  proof (rule sound_bindo [OF encode_loop_ok [OF own fits(1) assms(2,3) fits(2)]], clarify, goal_cases)
    case (1 ret _ _ s)
    obtain images pixels where left: "owned (left_over images pixels + (encoder_blocks + vh_blocks h)) n (vk_queue s) (vk_heap s)"
      "loop_left rounds (encoded_count s) ret images pixels"
      using loop_result_owned [OF 1] c(5) by auto
    have "vc_egl_ctx (vk_ctx s) \<noteq> None" "ret \<in> {None, Some (- 1)}"
      "ret = None \<Longrightarrow> \<forall>r \<in> set rounds. er_is_active r \<and> er_captured r \<noteq> [] \<Longrightarrow>
        total_frames (vc_frame_count (vk_ctx s)) = int (length rounds)"
      using 1 c by (auto simp: loop_result_def total_frames_def)
    moreover have "\<exists>images pixels. owned (left_over images pixels + vh_blocks h) n q' h' \<and> loop_left rounds (encoded_count s) ret images pixels"
      if "owned (left_over images pixels + vh_blocks h) n q' h'" for q' h'
      using that left(2) by (intro exI [of _ images] exI [of _ pixels]) simp
    ultimately show ?case
      by (auto simp: encoder_result_def intro!: sound_bindo [OF encoder_teardown_ok [OF left(1)]])
  qed
qed

text \<open>
  C40. The video encoder thread, from its startup to its cleanup handler, whatever FFmpeg, EGL and \<^verbatim>\<open>malloc\<close> answer and however
  the transport thread empties the queue, on every sequence of rounds whose frames it can take: the pixels it reads of a frame in shared memory
  lie in the client's mapping, those of a dma-buf in the at most \<open>2\<^sup>3\<^sup>2\<close> bytes of its size, and dma-bufs only come when
  \<^verbatim>\<open>eglGetProcAddress\<close> found the three functions (the code checks none of this).
  Then it returns and faults nowhere; its status is an error or that it was cancelled; when it ends, the heap holds what it
  held before, the packets that the transport queue owns, each of them whole, and what dma-bufs leave behind: one image and one
  texture for each encoded frame, if all frames are dma-bufs, at most as many in general, and none if all are in
  shared memory; the pixels of one frame at most, and only if the thread ended with an error. A
  thread whose rounds all found a frame, and none an error, has counted each round as one frame, encoded or dropped.
\<close>

theorem video_encoder_memory:
  assumes "0 < capacity" "rbuf_init True True capacity = Ret (Some q)"
    and "0 < in_capacity" "rbuf_new in_capacity log_free = Ret input"
    and "\<forall>r \<in> set rounds. round_ok (eg_procs (sa_egl env)) width height r"
  shows "\<exists>ret counts q' h'. encode_main names env rounds flush width height (input, []) q h = Ret (ret, counts, q', h') \<and>
    (case counts of
       None \<Rightarrow> ret = Some (- 1) \<and> h' = h
     | Some c \<Rightarrow> ret \<in> {None, Some (- 1)} \<and>
         (\<exists>images pixels. owned (left_over images pixels + vh_blocks h) (nat capacity) q' h' \<and>
           ((\<forall>r \<in> set rounds. shm_round r) \<longrightarrow> left_over images pixels = {#}) \<and>
           (ret = None \<longrightarrow> pixels = []) \<and> length pixels \<le> 1 \<and>
           int (length images) \<le> c FRAME_ENCODED \<and>
           ((\<forall>r \<in> set rounds. dma_round r) \<longrightarrow> int (length images) = c FRAME_ENCODED)) \<and>
         (ret = None \<longrightarrow> (\<forall>r \<in> set rounds. er_is_active r \<and> er_captured r \<noteq> []) \<longrightarrow> total_frames c = int (length rounds)))"
proof -
  obtain buf :: video_queue where buf: "rbuf_new capacity encode_free_frame = Ret buf" "rbuf_own encode_free_frame buf (nat capacity) [] []"
    using rbuf_new_own [OF assms(1), where fr = encode_free_frame] .
  then have set: "rbuf_set_free q (Some encode_free_frame) = Ret buf"
    using assms(2) by (simp add: rbuf_new_def)
  obtain inq :: input_queue where inq: "rbuf_new in_capacity log_free = Ret inq" "rbuf_own log_free inq (nat in_capacity) [] []"
    using rbuf_new_own [OF assms(3), where fr = log_free] .
  then have inp: "input_holds (nat in_capacity) (input, []) []" "0 < nat in_capacity"
    using assms(3,4) by (auto simp: input_holds_def)
  have "sound (encoder_result (nat capacity) rounds h) (encode_main names env rounds flush width height (input, []) q h)"
    unfolding encode_main_def
  proof (rule sound_bindo [OF encoder_startup_ok [OF set]], goal_cases)
    case (1 res)
    then show ?case
      by (cases res) (auto simp: startup_result_def encoder_result_def [of _ _ _ "(_, None, _)"] split: option.splits
          intro: encode_run_ok [OF buf(2) inp assms(5)])
  qed
  then obtain ret counts q' h' where main: "encode_main names env rounds flush width height (input, []) q h = Ret (ret, counts, q', h')"
    and res: "encoder_result (nat capacity) rounds h (ret, counts, q', h')"
    by (auto simp: sound_def split: outcome.splits)
  show ?thesis
    by (intro exI [of _ ret] exI [of _ counts] exI [of _ q'] exI [of _ h'] conjI main)
      (rule encoder_result_left [OF res])
qed

definition example_names :: egl_names where
  "example_names = \<lparr>EGL_WIDTH = 0x3057, EGL_HEIGHT = 0x3056, EGL_LINUX_DRM_FOURCC_EXT = 0x3271, EGL_DMA_BUF_PLANE0_FD_EXT = 0x3272,
     EGL_DMA_BUF_PLANE0_OFFSET_EXT = 0x3273, EGL_DMA_BUF_PLANE0_PITCH_EXT = 0x3274, EGL_DMA_BUF_PLANE0_MODIFIER_LO_EXT = 0x3443,
     EGL_DMA_BUF_PLANE0_MODIFIER_HI_EXT = 0x3444, EGL_NONE = 0x3038\<rparr>"

definition example_startup :: startup_env where
  "example_startup = \<lparr>sa_calloc = True, sa_debug = False, sa_codec = True, sa_codec_ctx = True, sa_open = True, sa_frame = True,
     sa_image = True, sa_shm_sws = True, sa_dma_sws = True, sa_pkt = True,
     sa_egl = \<lparr>eg_procs = \<lparr>ep_create_image = True, ep_destroy_image = True, ep_target_texture = True\<rparr>, eg_calloc = True, eg_display = True, eg_initialize = True, eg_config = True, eg_context = True, eg_current = True\<rparr>\<rparr>"

definition example_frame :: "int option \<Rightarrow> address option \<Rightarrow> video_encode_queue_frame" where
  "example_frame shm dma = \<lparr>vf_block = 0, vf_shm_data = shm, vf_dma_data = dma, vf_stride = 8, vf_buf = 1, vf_conn = 0\<rparr>"

definition example_round :: "video_encode_queue_frame list \<Rightarrow> encode_round" where
  "example_round fs = \<lparr>er_is_active = True, er_captured = fs,
     er_dma = (\<lambda>_. \<lparr>db_width = 2, db_height = 2, db_format = 0, db_modifier = 0, db_num_planes = 1,
       db_planes = [\<lparr>pl_fd = 5, pl_offset = 0, pl_stride = 8\<rparr>]\<rparr>),
     er_room = (\<lambda>_. 16), er_taken = 0, er_client_connected = True, er_malloc = True,
     er_gl = \<lparr>gl_image = True, gl_bind = True, gl_complete = True, gl_read = True\<rparr>,
     er_codec = \<lparr>ce_send = 0, ce_receive = [Received [1, 2] 0 True True]\<rparr>\<rparr>"

definition example_rounds :: "encode_round list" where
  "example_rounds = [example_round [example_frame (Some 0) None, example_frame (Some 8) None], example_round [example_frame None (Some 1)]]"

definition example_output :: video_queue where
  "example_output = \<lparr>rf_size = 3, rf_head = 0, rf_tail = 2, rf_entries = [None, None, None], rf_sem = 0, rf_free = None\<rparr>"

definition example_input :: input_queue where
  "example_input = \<lparr>rf_size = 3, rf_head = 0, rf_tail = 2, rf_entries = [None, None, None], rf_sem = 0, rf_free = Some log_free\<rparr>"

text \<open>A frame in shared memory and one in a dma-buf: two packets are queued, an image and a texture stay.\<close>

theorem video_encoder_memory_witness:
  "\<exists>c q' h'. encode_main example_names example_startup example_rounds \<lparr>ce_send = 0, ce_receive = [Receive_Eof]\<rparr> 2 2 (example_input, [])
       example_output \<lparr>vh_blocks = {#}, vh_next = 0\<rparr> = Ret (None, Some c, q', h') \<and>
     vh_blocks h' = {#Video_Struct 0, Video_Data 0, Egl_Image 1, Gl_Texture 1, Video_Struct 2, Video_Data 2#} \<and>
     total_frames c = 2 \<and> (\<exists>images. owned (left_over images []) 2 q' h')"
proof -
  let ?main = "encode_main example_names example_startup example_rounds \<lparr>ce_send = 0, ce_receive = [Receive_Eof]\<rparr> 2 2 (example_input, [])
       example_output \<lparr>vh_blocks = {#}, vh_next = 0\<rparr>"
  have q: "rbuf_init True True 2 = Ret (Some example_output)"
    by (simp add: rbuf_init_def example_output_def numeral_eq_Suc)
  have inp: "rbuf_new 2 log_free = Ret example_input"
    by (simp add: rbuf_new_def rbuf_init_def rbuf_set_free_def derefo_def example_input_def numeral_eq_Suc)
  have rounds: "\<forall>r \<in> set example_rounds. round_ok (eg_procs (sa_egl example_startup)) 2 2 r" "\<forall>r \<in> set example_rounds. er_is_active r \<and> er_captured r \<noteq> []"
    by (simp_all add: example_rounds_def example_round_def example_frame_def round_ok_def frame_fits_def dma_size_ok_def
        picture_fits_def example_startup_def procs_found_def)
  have "bindo ?main (\<lambda>(r, c, q, h). Ret (r, c = None, vh_blocks h)) =
      Ret (None, False, {#Video_Struct 0, Video_Data 0, Egl_Image 1, Gl_Texture 1, Video_Struct 2, Video_Data 2#})"
    by code_simp
  then obtain c q' h' where m: "?main = Ret (None, Some c, q', h')"
    "vh_blocks h' = {#Video_Struct 0, Video_Data 0, Egl_Image 1, Gl_Texture 1, Video_Struct 2, Video_Data 2#}"
    by (auto simp: bindo_Ret_iff)
  have "length example_rounds = 2"
    by (simp add: example_rounds_def)
  then show ?thesis
    using video_encoder_memory [OF _ q _ inp rounds(1), of example_names "\<lparr>ce_send = 0, ce_receive = [Receive_Eof]\<rparr>"
        "\<lparr>vh_blocks = {#}, vh_next = 0\<rparr>"] m rounds(2) by auto
qed

end
