(* ===== verification/Capture_Refs.thy ===== *)
theory Capture_Refs
  imports Capture_Model
begin

text \<open>
  The reference counts of the capture module. The comment at the top of \<^verbatim>\<open>Capture.c\<close> says that a
  destroyed object has number 0 and is freed once its \<^verbatim>\<open>dependents\<close> are gone. \<open>hinv\<close> is that rule as
  an invariant of the store: the count of a pool is the number of buffers in it, the count of a
  buffer the number of surfaces it is attached to and of queued frames that show it, and a struct
  with number 0 is still counted by someone. Mappings and descriptors are accounted for exactly.

  References that no struct holds any more are kept in \<open>lk\<close> and descriptors in \<open>lf\<close>: between two
  statements of the source these are the reference or descriptors about to be given up; at the end of
  a handler they are what has been lost for good.
\<close>

section \<open>Sums over a store\<close>

definition hsum :: "('a \<Rightarrow> 'c :: comm_monoid_add) \<Rightarrow> (address \<rightharpoonup> 'a) \<Rightarrow> 'c" where
  "hsum g m = (\<Sum>a \<in> dom m. g (the (m a)))"

lemma hsum_cong: "(\<And>a. a \<in> dom m \<Longrightarrow> g (the (m a)) = g' (the (m' a))) \<Longrightarrow> dom m = dom m' \<Longrightarrow> hsum g m = hsum g' m'"
  by (simp add: hsum_def)

lemma hsum_insert [simp]:
  assumes "finite (dom m)" "m a = None"
  shows "hsum g (m(a \<mapsto> x)) = g x + hsum g m"
proof -
  have "a \<notin> dom m"
    using assms(2) by auto
  then have "(\<Sum>b \<in> dom m. g (the ((m(a \<mapsto> x)) b))) = (\<Sum>b \<in> dom m. g (the (m b)))"
    by (intro sum.cong) auto
  then show ?thesis
    using assms \<open>a \<notin> dom m\<close> by (simp add: hsum_def)
qed

lemma hsum_remove:
  assumes "finite (dom m)" "m a = Some x"
  shows "hsum g m = g x + hsum g (m(a := None))"
proof -
  have "m = (m(a := None))(a \<mapsto> x)"
    using assms(2) by auto
  then show ?thesis
    using hsum_insert [of "m(a := None)" a g x] assms(1) by simp
qed

lemma hsum_update:
  assumes "finite (dom m)" "m a = Some x"
  shows "hsum g (m(a \<mapsto> y)) = g y + hsum g (m(a := None))"
  using assms hsum_insert [of "m(a := None)" a g y] by simp

lemma hsum_update_same [simp]:
  assumes "finite (dom m)" "m a = Some x" "g y = g x"
  shows "hsum g (m(a \<mapsto> y)) = hsum g m"
  using assms hsum_update [OF assms(1,2), of g y] hsum_remove [OF assms(1,2), of g] by simp

lemma hsum_ge:
  fixes g :: "'a \<Rightarrow> nat"
  assumes "finite (dom m)" "m a = Some x"
  shows "g x \<le> hsum g m"
  using hsum_remove [OF assms, of g] by simp

lemma hsum_le_card:
  fixes g :: "'a \<Rightarrow> nat"
  assumes "\<And>x. g x \<le> 1" "finite (dom m)" "dom m \<subseteq> {..<n}"
  shows "hsum g m \<le> n"
proof -
  have "hsum g m \<le> card (dom m)"
    unfolding hsum_def using sum_bounded_above [of "dom m" "\<lambda>a. g (the (m a))" 1] assms(1) by simp
  also have "card (dom m) \<le> n"
    using card_mono [OF _ assms(3)] by simp
  finally show ?thesis .
qed

section \<open>The invariant\<close>

definition pool_refs :: "cheap \<Rightarrow> address \<Rightarrow> nat" where
  "pool_refs h p = hsum (\<lambda>b. of_bool (map_option sb_pool (wb_shm_buf b) = Some p)) (ch_bufs h)"

definition surf_refs :: "cheap \<Rightarrow> address \<Rightarrow> nat" where
  "surf_refs h b = hsum (\<lambda>s. of_bool (su_buf s = Some b)) (ch_surfs h)"

definition frame_refs :: "video_encode_queue_frame list \<Rightarrow> address \<Rightarrow> nat" where
  "frame_refs fs b = count (mset (map vf_buf fs)) b"

definition plane_fds :: "dma_plane list \<Rightarrow> int heap" where
  "plane_fds ps = mset (filter (\<lambda>fd. fd \<ge> 0) (map pl_fd ps))"

definition dma_fds :: "dma_buffer \<Rightarrow> int heap" where
  "dma_fds d = plane_fds (take (nat (db_num_planes d)) (db_planes d))"

definition buf_fds :: "wl_buffer \<Rightarrow> int heap" where
  "buf_fds b = (case wb_dma_buf b of None \<Rightarrow> {#} | Some d \<Rightarrow> dma_fds d)"

definition store_ok :: "cheap \<Rightarrow> bool" where
  "store_ok h \<longleftrightarrow> dom (ch_pools h) \<subseteq> {..<ch_next h} \<and> dom (ch_bufs h) \<subseteq> {..<ch_next h} \<and>
     dom (ch_surfs h) \<subseteq> {..<ch_next h} \<and> dom (ch_params h) \<subseteq> {..<ch_next h}"

definition pool_ok :: "(obj \<Rightarrow> nat) \<Rightarrow> cheap \<Rightarrow> address \<Rightarrow> wl_shm_pool \<Rightarrow> bool" where
  "pool_ok lk h a p \<longleftrightarrow> unat (sp_dependents p) = pool_refs h a + lk (Pool_Obj a) \<and>
     (sp_id p = 0 \<longrightarrow> sp_dependents p \<noteq> 0)"

definition buf_ok :: "(obj \<Rightarrow> nat) \<Rightarrow> video_encode_queue_frame list \<Rightarrow> cheap \<Rightarrow> address \<Rightarrow> wl_buffer \<Rightarrow> bool" where
  "buf_ok lk fs h a b \<longleftrightarrow> unat (wb_dependents b) = surf_refs h a + frame_refs fs a + lk (Buffer_Obj a) \<and>
     (wb_id b = 0 \<longrightarrow> wb_dependents b \<noteq> 0) \<and>
     (\<forall>sb. wb_shm_buf b = Some sb \<longrightarrow> ch_pools h (sb_pool sb) \<noteq> None) \<and>
     (\<forall>d. wb_dma_buf b = Some d \<longrightarrow> db_num_planes d \<le> 4) \<and>
     (wb_shm_buf b = None) \<noteq> (wb_dma_buf b = None)"

definition surf_ok :: "cheap \<Rightarrow> wl_surface \<Rightarrow> bool" where
  "surf_ok h s \<longleftrightarrow> su_dependents s = 0 \<and> (\<forall>b. su_buf s = Some b \<longrightarrow> ch_bufs h b \<noteq> None)"

definition frames_ok :: "video_encode_queue_frame list \<Rightarrow> cheap \<Rightarrow> bool" where
  "frames_ok fs h \<longleftrightarrow> ch_frames h = mset (map vf_block fs) \<and> distinct (map vf_block fs) \<and>
     vf_block ` set fs \<subseteq> {..<ch_next h} \<and> (\<forall>f \<in> set fs. ch_bufs h (vf_buf f) \<noteq> None)"

definition hinv :: "(obj \<Rightarrow> nat) \<Rightarrow> int heap \<Rightarrow> video_encode_queue_frame list \<Rightarrow> cheap \<Rightarrow> bool" where
  "hinv lk lf fs h \<longleftrightarrow> store_ok h \<and> frames_ok fs h \<and>
     (\<forall>a p. ch_pools h a = Some p \<longrightarrow> pool_ok lk h a p) \<and>
     (\<forall>a b. ch_bufs h a = Some b \<longrightarrow> buf_ok lk fs h a b) \<and>
     (\<forall>a s. ch_surfs h a = Some s \<longrightarrow> surf_ok h s) \<and>
     (\<forall>a p. ch_params h a = Some p \<longrightarrow> length (bp_planes p) = 4) \<and>
     ch_mmaps h = hsum (\<lambda>p. {#(sp_p p, sp_size p)#}) (ch_pools h) \<and>
     ch_fds h = hsum (\<lambda>p. plane_fds (bp_planes p)) (ch_params h) + hsum buf_fds (ch_bufs h) + lf"

lemma store_ok_finite:
  assumes "store_ok h"
  shows "finite (dom (ch_pools h))" "finite (dom (ch_bufs h))" "finite (dom (ch_surfs h))" "finite (dom (ch_params h))"
  using assms by (auto simp: store_ok_def intro: finite_subset)

lemma hinvD:
  assumes "hinv lk lf fs h"
  shows "store_ok h" "frames_ok fs h" "ch_pools h a = Some p \<Longrightarrow> pool_ok lk h a p"
    "ch_bufs h a = Some b \<Longrightarrow> buf_ok lk fs h a b" "ch_surfs h a = Some s \<Longrightarrow> surf_ok h s"
    "ch_params h a = Some q \<Longrightarrow> length (bp_planes q) = 4"
    "ch_mmaps h = hsum (\<lambda>p. {#(sp_p p, sp_size p)#}) (ch_pools h)"
    "ch_fds h = hsum (\<lambda>p. plane_fds (bp_planes p)) (ch_params h) + hsum buf_fds (ch_bufs h) + lf"
  using assms by (auto simp: hinv_def)

lemmas hinv_finite = store_ok_finite [OF hinvD(1)]

section \<open>What the heap operations leave alone\<close>

text \<open>The number under which a struct is still an object.\<close>

primrec view :: "cheap \<Rightarrow> obj \<Rightarrow> u32 option" where
  "view h (Pool_Obj a) = (case ch_pools h a of None \<Rightarrow> None | Some p \<Rightarrow> if sp_id p = 0 then None else Some (sp_id p))"
| "view h (Buffer_Obj a) = (case ch_bufs h a of None \<Rightarrow> None | Some b \<Rightarrow> if wb_id b = 0 then None else Some (wb_id b))"
| "view h (Surface_Obj a) = (case ch_surfs h a of None \<Rightarrow> None | Some s \<Rightarrow> if su_id s = 0 then None else Some (su_id s))"
| "view h (Params_Obj a) = (case ch_params h a of None \<Rightarrow> None | Some p \<Rightarrow> if bp_id p = 0 then None else Some (bp_id p))"

definition attached :: "cheap \<Rightarrow> address \<Rightarrow> address \<Rightarrow> bool" where
  "attached h a b \<longleftrightarrow> (\<exists>s. ch_surfs h a = Some s \<and> su_buf s = Some b)"

text \<open>Giving up references changes no object that has a number, opens nothing and attaches nothing.\<close>

definition gives_up :: "cheap \<Rightarrow> cheap \<Rightarrow> bool" where
  "gives_up h h' \<longleftrightarrow> view h' = view h \<and> ch_conns h' = ch_conns h \<and> ch_next h' = ch_next h \<and>
     ch_params h' = ch_params h \<and> (\<forall>a b. attached h' a b \<longrightarrow> attached h a b)"

lemma gives_up_refl [simp]: "gives_up h h"
  by (simp add: gives_up_def)

lemma gives_up_trans [trans]: "gives_up h h' \<Longrightarrow> gives_up h' h'' \<Longrightarrow> gives_up h h''"
  by (simp add: gives_up_def)

lemma view_eqI:
  assumes "\<And>a. view h' (Pool_Obj a) = view h (Pool_Obj a)" "\<And>a. view h' (Buffer_Obj a) = view h (Buffer_Obj a)"
    "\<And>a. view h' (Surface_Obj a) = view h (Surface_Obj a)" "\<And>a. view h' (Params_Obj a) = view h (Params_Obj a)"
  shows "view h' = view h"
proof (rule ext)
  show "view h' ob = view h ob" for ob
    using assms by (cases ob) simp_all
qed

section \<open>Giving up a reference to a pool\<close>

named_theorems heap_defs "definitions of the parts of the invariant"

lemmas [heap_defs] = store_ok_def frames_ok_def pool_ok_def buf_ok_def surf_ok_def pool_refs_def surf_refs_def

lemma unat_dec: "(d :: u32) \<noteq> 0 \<Longrightarrow> unat (d - 1) = unat d - 1"
  by (simp add: unat_sub_if' unat_eq_0 [symmetric] Suc_le_eq)

lemma unat_count:
  assumes "unat (d :: u32) = Suc n"
  shows "d \<noteq> 0" "unat (d - 1) = n" "d - 1 = 0 \<longleftrightarrow> n = 0"
proof -
  show "d \<noteq> 0"
    using assms by auto
  then show n: "unat (d - 1) = n"
    using assms by (simp add: unat_dec)
  show "d - 1 = 0 \<longleftrightarrow> n = 0"
    using n by (metis unat_eq_0)
qed

lemma pool_refs_use:
  assumes "hinv lk lf fs h" "ch_bufs h a = Some b" "wb_shm_buf b = Some sb"
  shows "0 < pool_refs h (sb_pool sb)"
  using hsum_ge [OF hinv_finite(2) [OF assms(1)] assms(2), of "\<lambda>b. of_bool (map_option sb_pool (wb_shm_buf b) = Some (sb_pool sb))"]
    assms(3) by (simp add: pool_refs_def)

lemma hinv_drop_pool:
  assumes inv: "hinv lk lf fs h" and pool: "ch_pools h p = Some pool" and refs: "pool_refs h p = 0"
  shows "hinv (lk(Pool_Obj p := 0)) lf fs
    (h\<lparr>ch_pools := (ch_pools h)(p := None), ch_mmaps := ch_mmaps h - {#(sp_p pool, sp_size pool)#}\<rparr>)" (is "hinv _ _ _ ?h")
  unfolding hinv_def
proof (intro conjI allI impI)
  note inv' = hinvD [OF inv]
  show "store_ok ?h" "frames_ok fs ?h"
    using inv'(1,2) by (auto simp: heap_defs)
  show "pool_ok (lk(Pool_Obj p := 0)) ?h a q" if "ch_pools ?h a = Some q" for a q
    using that inv'(3) by (auto simp: heap_defs split: if_splits)
  show "buf_ok (lk(Pool_Obj p := 0)) fs ?h a b" if "ch_bufs ?h a = Some b" for a b
    using that inv'(4) [of a b] pool_refs_use [OF inv, of a b] refs by (auto simp: heap_defs)
  show "surf_ok ?h su" if "ch_surfs ?h a = Some su" for a su
    using that inv'(5) by (simp add: heap_defs)
  show "ch_mmaps ?h = hsum (\<lambda>p. {#(sp_p p, sp_size p)#}) (ch_pools ?h)"
    using inv'(7) hsum_remove [OF hinv_finite(1) [OF inv] pool, of "\<lambda>p. {#(sp_p p, sp_size p)#}"] by simp
qed (use hinvD(6,8) [OF inv] in auto)

lemma hinv_set_pool:
  assumes inv: "hinv lk lf fs h" and pool: "ch_pools h p = Some pool"
    and pool': "sp_p pool' = sp_p pool" "sp_size pool' = sp_size pool"
    and dep: "unat (sp_dependents pool') = pool_refs h p + n" "sp_id pool' = 0 \<longrightarrow> sp_dependents pool' \<noteq> 0"
  shows "hinv (lk(Pool_Obj p := n)) lf fs (h\<lparr>ch_pools := (ch_pools h)(p \<mapsto> pool')\<rparr>)" (is "hinv _ _ _ ?h")
  unfolding hinv_def
proof (intro conjI allI impI)
  note inv' = hinvD [OF inv]
  show "store_ok ?h" "frames_ok fs ?h"
    using inv'(1,2) pool by (auto simp: heap_defs)
  show "pool_ok (lk(Pool_Obj p := n)) ?h a q" if "ch_pools ?h a = Some q" for a q
    using that inv'(3) dep by (auto simp: heap_defs split: if_splits)
  show "buf_ok (lk(Pool_Obj p := n)) fs ?h a b" if "ch_bufs ?h a = Some b" for a b
    using that inv'(4) [of a b] by (auto simp: heap_defs)
  show "surf_ok ?h su" if "ch_surfs ?h a = Some su" for a su
    using that inv'(5) by (simp add: heap_defs)
  show "ch_mmaps ?h = hsum (\<lambda>p. {#(sp_p p, sp_size p)#}) (ch_pools ?h)"
    using inv'(7) hsum_update_same [OF hinv_finite(1) [OF inv] pool, of "\<lambda>p. {#(sp_p p, sp_size p)#}" pool'] pool' by simp
qed (use hinvD(6,8) [OF inv] in auto)

lemma mmap_in: "hinv lk lf fs h \<Longrightarrow> ch_pools h p = Some pool \<Longrightarrow> (sp_p pool, sp_size pool) \<in># ch_mmaps h"
  using hsum_remove [OF hinv_finite(1), of lk lf fs h p pool "\<lambda>p. {#(sp_p p, sp_size p)#}"] hinvD(7) [of lk lf fs h] by simp

lemma wl_shm_pool_free_ok:
  assumes "(sp_p pool, sp_size pool) \<in># ch_mmaps h" "ch_pools h p = Some pool" "sp_id pool = 0" "sp_dependents pool = 0"
  shows "wl_shm_pool_free p h =
    Ret (h\<lparr>ch_pools := (ch_pools h)(p := None), ch_mmaps := ch_mmaps h - {#(sp_p pool, sp_size pool)#}\<rparr>)"
  using assms by (simp add: wl_shm_pool_free_def deref_def munmap_def free_at_def)

lemma view_pool_gone:
  assumes "ch_pools h p = Some pool" "sp_id pool = 0"
  shows "view (h\<lparr>ch_pools := (ch_pools h)(p := None), ch_mmaps := x\<rparr>) = view h"
  by (rule view_eqI) (use assms in auto)

lemma view_pool_update:
  assumes "ch_pools h p = Some pool" "sp_id pool' = sp_id pool"
  shows "view (h\<lparr>ch_pools := (ch_pools h)(p \<mapsto> pool')\<rparr>) = view h"
  by (rule view_eqI) (use assms in auto)

lemma wl_shm_buffer_free_ok:
  assumes inv: "hinv lk lf fs h" and pool: "ch_pools h (sb_pool sb) = Some pool" and lk: "lk (Pool_Obj (sb_pool sb)) = Suc n"
  shows "\<exists>h'. wl_shm_buffer_free sb h = Ret h' \<and> hinv (lk(Pool_Obj (sb_pool sb) := n)) lf fs h' \<and> gives_up h h' \<and>
    ch_bufs h' = ch_bufs h \<and> ch_surfs h' = ch_surfs h"
proof -
  let ?p = "sb_pool sb" and ?dep = "sp_dependents pool"
  let ?pool = "pool\<lparr>sp_dependents := ?dep - 1\<rparr>"
  let ?h1 = "h\<lparr>ch_pools := (ch_pools h)(?p \<mapsto> ?pool)\<rparr>"
  have dep: "unat ?dep = Suc (pool_refs h ?p + n)"
    using hinvD(3) [OF inv pool] lk by (simp add: pool_ok_def)
  note u = unat_count [OF dep]
  show ?thesis
  proof (cases "sp_id pool = 0 \<and> ?dep - 1 = 0")
    case True
    then have z: "pool_refs h ?p = 0" "n = 0"
      using u(3) by auto
    let ?h' = "h\<lparr>ch_pools := (ch_pools h)(?p := None), ch_mmaps := ch_mmaps h - {#(sp_p pool, sp_size pool)#}\<rparr>"
    have "wl_shm_pool_free ?p ?h1 = Ret ?h'"
      using wl_shm_pool_free_ok [of ?pool ?h1 ?p] mmap_in [OF inv pool] True by simp
    then have "wl_shm_buffer_free sb h = Ret ?h'"
      using True pool by (simp add: wl_shm_buffer_free_def deref_def)
    then show ?thesis
      using hinv_drop_pool [OF inv pool z(1)] z(2) view_pool_gone [OF pool, of "ch_mmaps h - {#(sp_p pool, sp_size pool)#}"] True
      by (simp add: gives_up_def attached_def)
  next
    case False
    then have "wl_shm_buffer_free sb h = Ret ?h1"
      using pool by (auto simp: wl_shm_buffer_free_def deref_def)
    moreover have "hinv (lk(Pool_Obj ?p := n)) lf fs ?h1"
      using hinv_set_pool [OF inv pool, of ?pool n] u(2) False by simp
    ultimately show ?thesis
      using view_pool_update [OF pool, of ?pool] by (simp add: gives_up_def attached_def)
  qed
qed

section \<open>Closing descriptors\<close>

lemma plane_fds_simps [simp]:
  "plane_fds [] = {#}"
  "plane_fds (p # ps) = (if pl_fd p \<ge> 0 then add_mset (pl_fd p) (plane_fds ps) else plane_fds ps)"
  by (simp_all add: plane_fds_def)

lemma close_planes_ok:
  "ch_fds h = plane_fds ps + r \<Longrightarrow> close_planes ps h = Ret (h\<lparr>ch_fds := r\<rparr>)"
proof (induction ps arbitrary: h)
  case (Cons p ps)
  show ?case
  proof (cases "pl_fd p \<ge> 0")
    case True
    then have "close_fd (pl_fd p) h = Ret (h\<lparr>ch_fds := plane_fds ps + r\<rparr>)"
      using Cons.prems by (simp add: close_fd_def)
    then show ?thesis
      using True Cons.IH [of "h\<lparr>ch_fds := plane_fds ps + r\<rparr>"] by (simp add: close_planes_def)
  qed (use Cons in \<open>simp add: close_planes_def\<close>)
qed (simp add: close_planes_def)

lemma hinv_fds: "hinv lk lf fs h \<Longrightarrow> lf = x + lf' \<Longrightarrow> hinv lk lf' fs (h\<lparr>ch_fds := ch_fds h - x\<rparr>)"
  by (auto simp: hinv_def heap_defs)

lemma view_fds [simp]: "view (h\<lparr>ch_fds := x\<rparr>) = view h"
  by (rule view_eqI) simp_all

lemma dma_buffer_free_ok:
  assumes inv: "hinv lk (dma_fds d + lf) fs h" and "db_num_planes d \<le> 4"
  shows "\<exists>h'. dma_buffer_free d h = Ret h' \<and> hinv lk lf fs h' \<and> gives_up h h' \<and> ch_bufs h' = ch_bufs h \<and> ch_surfs h' = ch_surfs h"
proof -
  have "dma_fds d + (ch_fds h - dma_fds d) = ch_fds h"
    using hinvD(8) [OF inv] by simp
  then have "dma_buffer_free d h = Ret (h\<lparr>ch_fds := ch_fds h - dma_fds d\<rparr>)"
    using assms(2) close_planes_ok [of h "take (nat (db_num_planes d)) (db_planes d)" "ch_fds h - dma_fds d"]
    by (simp add: dma_buffer_free_def dma_fds_def)
  then show ?thesis
    using hinv_fds [OF inv refl] by (simp add: gives_up_def attached_def)
qed

section \<open>Giving up a reference to a buffer\<close>

text \<open>
  The source updates a surface or frees a frame after it has given up the buffer. The operations on
  buffers and pools do not read these parts of the store, so both orders have the same result.
\<close>

definition onto :: "(cheap \<Rightarrow> cheap) \<Rightarrow> cheap outcome \<Rightarrow> cheap outcome" where
  "onto f r = bindo r (\<lambda>h. Ret (f h))"

lemma onto_simps [simp]: "onto f (Ret h) = Ret (f h)" "onto f (Fault e) = Fault e" "onto f Block = Block"
  by (simp_all add: onto_def)

lemma wl_shm_buffer_free_frame:
  "wl_shm_buffer_free sb (h\<lparr>ch_bufs := x\<rparr>) = onto (\<lambda>h. h\<lparr>ch_bufs := x\<rparr>) (wl_shm_buffer_free sb h)"
  "wl_shm_buffer_free sb (h\<lparr>ch_surfs := y\<rparr>) = onto (\<lambda>h. h\<lparr>ch_surfs := y\<rparr>) (wl_shm_buffer_free sb h)"
  "wl_shm_buffer_free sb (h\<lparr>ch_frames := z\<rparr>) = onto (\<lambda>h. h\<lparr>ch_frames := z\<rparr>) (wl_shm_buffer_free sb h)"
  by (auto simp: wl_shm_buffer_free_def wl_shm_pool_free_def deref_def munmap_def free_at_def asserto_def Let_def
      split: option.split)

lemma foldo_onto:
  assumes "\<And>x h. f x (g h) = onto g (f x h)"
  shows "foldo f xs (g h) = onto g (foldo f xs h)"
proof (induction xs arbitrary: h)
  case (Cons x xs)
  then show ?case
    using assms by (cases "f x h") simp_all
qed simp

lemma close_planes_frame:
  "close_planes ps (h\<lparr>ch_bufs := x\<rparr>) = onto (\<lambda>h. h\<lparr>ch_bufs := x\<rparr>) (close_planes ps h)"
  "close_planes ps (h\<lparr>ch_surfs := y\<rparr>) = onto (\<lambda>h. h\<lparr>ch_surfs := y\<rparr>) (close_planes ps h)"
  "close_planes ps (h\<lparr>ch_frames := z\<rparr>) = onto (\<lambda>h. h\<lparr>ch_frames := z\<rparr>) (close_planes ps h)"
  unfolding close_planes_def by (rule foldo_onto, simp add: close_fd_def hfree_def)+

lemma dma_buffer_free_frame:
  "dma_buffer_free d (h\<lparr>ch_bufs := x\<rparr>) = onto (\<lambda>h. h\<lparr>ch_bufs := x\<rparr>) (dma_buffer_free d h)"
  "dma_buffer_free d (h\<lparr>ch_surfs := y\<rparr>) = onto (\<lambda>h. h\<lparr>ch_surfs := y\<rparr>) (dma_buffer_free d h)"
  "dma_buffer_free d (h\<lparr>ch_frames := z\<rparr>) = onto (\<lambda>h. h\<lparr>ch_frames := z\<rparr>) (dma_buffer_free d h)"
  by (simp_all add: dma_buffer_free_def close_planes_frame)

lemma wl_buffer_free_frame:
  "wl_buffer_free b (h\<lparr>ch_surfs := y\<rparr>) = onto (\<lambda>h. h\<lparr>ch_surfs := y\<rparr>) (wl_buffer_free b h)"
  "wl_buffer_free b (h\<lparr>ch_frames := z\<rparr>) = onto (\<lambda>h. h\<lparr>ch_frames := z\<rparr>) (wl_buffer_free b h)"
proof -
  have bind: "bindo (onto f r) g = onto f (bindo r g')" if "\<And>h. g (f h) = onto f (g' h)" for f r g g'
    using that by (cases r) simp_all
  have shm: "(case sb of None \<Rightarrow> Ret (h\<lparr>ch_surfs := y\<rparr>) | Some b \<Rightarrow> wl_shm_buffer_free b (h\<lparr>ch_surfs := y\<rparr>)) =
      onto (\<lambda>h. h\<lparr>ch_surfs := y\<rparr>) (case sb of None \<Rightarrow> Ret h | Some b \<Rightarrow> wl_shm_buffer_free b h)"
    "(case sb of None \<Rightarrow> Ret (h\<lparr>ch_frames := z\<rparr>) | Some b \<Rightarrow> wl_shm_buffer_free b (h\<lparr>ch_frames := z\<rparr>)) =
      onto (\<lambda>h. h\<lparr>ch_frames := z\<rparr>) (case sb of None \<Rightarrow> Ret h | Some b \<Rightarrow> wl_shm_buffer_free b h)" for sb h
    by (cases sb; simp add: wl_shm_buffer_free_frame)+
  have dma: "(case d of None \<Rightarrow> Ret (h\<lparr>ch_surfs := y\<rparr>) | Some b \<Rightarrow> dma_buffer_free b (h\<lparr>ch_surfs := y\<rparr>)) =
      onto (\<lambda>h. h\<lparr>ch_surfs := y\<rparr>) (case d of None \<Rightarrow> Ret h | Some b \<Rightarrow> dma_buffer_free b h)"
    "(case d of None \<Rightarrow> Ret (h\<lparr>ch_frames := z\<rparr>) | Some b \<Rightarrow> dma_buffer_free b (h\<lparr>ch_frames := z\<rparr>)) =
      onto (\<lambda>h. h\<lparr>ch_frames := z\<rparr>) (case d of None \<Rightarrow> Ret h | Some b \<Rightarrow> dma_buffer_free b h)" for d h
    by (cases d; simp add: dma_buffer_free_frame)+
  show "wl_buffer_free b (h\<lparr>ch_surfs := y\<rparr>) = onto (\<lambda>h. h\<lparr>ch_surfs := y\<rparr>) (wl_buffer_free b h)"
    unfolding wl_buffer_free_def shm(1)
    by (cases "ch_bufs h b") (auto simp: deref_def asserto_def free_at_def dma(1) intro!: bind)
  show "wl_buffer_free b (h\<lparr>ch_frames := z\<rparr>) = onto (\<lambda>h. h\<lparr>ch_frames := z\<rparr>) (wl_buffer_free b h)"
    unfolding wl_buffer_free_def shm(2)
    by (cases "ch_bufs h b") (auto simp: deref_def asserto_def free_at_def dma(2) intro!: bind)
qed

text \<open>A buffer nobody refers to, taken out of the store: its pool is counted once too often and its
  descriptors belong to no one.\<close>

definition lost_pool :: "wl_buffer \<Rightarrow> (obj \<Rightarrow> nat) \<Rightarrow> obj \<Rightarrow> nat" where
  "lost_pool buf lk = (case wb_shm_buf buf of None \<Rightarrow> lk | Some sb \<Rightarrow> lk(Pool_Obj (sb_pool sb) := Suc (lk (Pool_Obj (sb_pool sb)))))"

lemma surf_refs_use:
  assumes "hinv lk lf fs h" "ch_surfs h a = Some s" "su_buf s = Some b"
  shows "0 < surf_refs h b"
  using hsum_ge [OF hinv_finite(3) [OF assms(1)] assms(2), of "\<lambda>s. of_bool (su_buf s = Some b)"] assms(3)
  by (simp add: surf_refs_def)

lemma hinv_drop_buf:
  assumes inv: "hinv lk lf fs h" and buf: "ch_bufs h b = Some buf" and refs: "surf_refs h b = 0" "frame_refs fs b = 0"
  shows "hinv (lost_pool buf (lk(Buffer_Obj b := 0))) (buf_fds buf + lf) fs (h\<lparr>ch_bufs := (ch_bufs h)(b := None)\<rparr>)"
    (is "hinv ?lk _ _ ?h")
  unfolding hinv_def
proof (intro conjI allI impI)
  note inv' = hinvD [OF inv]
  have fin: "finite (dom (ch_bufs h))"
    by (rule hinv_finite [OF inv])
  show "store_ok ?h"
    using inv'(1) by (auto simp: heap_defs)
  have "vf_buf f \<noteq> b" if "f \<in> set fs" for f
    using that refs(2) by (auto simp: frame_refs_def count_eq_zero_iff)
  then show "frames_ok fs ?h"
    using inv'(2) by (simp add: heap_defs)
  have pool: "pool_refs h a = of_bool (map_option sb_pool (wb_shm_buf buf) = Some a) + pool_refs ?h a" for a
    unfolding pool_refs_def by (subst hsum_remove [OF fin buf]) simp
  show "pool_ok ?lk ?h a q" if "ch_pools ?h a = Some q" for a q
    using that inv'(3) [of a q] pool [of a] unfolding pool_ok_def
    by (cases "wb_shm_buf buf") (auto simp: lost_pool_def)
  show "buf_ok ?lk fs ?h a b'" if "ch_bufs ?h a = Some b'" for a b'
    using that inv'(4) [of a b'] by (auto simp: heap_defs lost_pool_def split: if_splits option.split)
  show "surf_ok ?h su" if "ch_surfs ?h a = Some su" for a su
    using that inv'(5) [of a su] surf_refs_use [OF inv, of a su b] refs(1) by (auto simp: heap_defs)
  show "ch_fds ?h = hsum (\<lambda>p. plane_fds (bp_planes p)) (ch_params ?h) + hsum buf_fds (ch_bufs ?h) + (buf_fds buf + lf)"
    using inv'(8) hsum_remove [OF fin buf, of buf_fds] by simp
qed (use hinvD(6,7) [OF inv] in auto)

lemma wl_buffer_free_ok:
  assumes inv: "hinv lk lf fs h" and buf: "ch_bufs h b = Some buf" and refs: "surf_refs h b = 0" "frame_refs fs b = 0"
    and buf': "wb_shm_buf buf' = wb_shm_buf buf" "wb_dma_buf buf' = wb_dma_buf buf" "wb_id buf' = 0" "wb_dependents buf' = 0"
  shows "\<exists>h'. wl_buffer_free b (h\<lparr>ch_bufs := (ch_bufs h)(b \<mapsto> buf')\<rparr>) = Ret h' \<and> hinv (lk(Buffer_Obj b := 0)) lf fs h' \<and>
    gives_up (h\<lparr>ch_bufs := (ch_bufs h)(b := None)\<rparr>) h' \<and> ch_bufs h' = (ch_bufs h)(b := None) \<and> ch_surfs h' = ch_surfs h"
proof -
  let ?h0 = "h\<lparr>ch_bufs := (ch_bufs h)(b := None)\<rparr>" and ?h1 = "h\<lparr>ch_bufs := (ch_bufs h)(b \<mapsto> buf')\<rparr>"
  let ?lk = "lk(Buffer_Obj b := 0)"
  note inv0 = hinv_drop_buf [OF inv buf refs]
  have ok: "buf_ok lk fs h b buf"
    by (rule hinvD(4) [OF inv buf])
  consider sb where "wb_shm_buf buf = Some sb" "wb_dma_buf buf = None" | d where "wb_shm_buf buf = None" "wb_dma_buf buf = Some d"
    using ok by (auto simp: buf_ok_def)
  then show ?thesis
  proof cases
    case (1 sb)
    obtain pool where pool: "ch_pools h (sb_pool sb) = Some pool"
      using ok 1(1) by (auto simp: buf_ok_def)
    have lk: "lost_pool buf ?lk (Pool_Obj (sb_pool sb)) = Suc (lk (Pool_Obj (sb_pool sb)))"
      by (simp add: lost_pool_def 1)
    have undo: "(lost_pool buf ?lk)(Pool_Obj (sb_pool sb) := lk (Pool_Obj (sb_pool sb))) = ?lk"
      by (auto simp: lost_pool_def 1)
    obtain h' where h': "wl_shm_buffer_free sb ?h0 = Ret h'" "hinv ?lk lf fs h'" "gives_up ?h0 h'"
      "ch_bufs h' = (ch_bufs h)(b := None)" "ch_surfs h' = ch_surfs h"
      using wl_shm_buffer_free_ok [OF inv0 _ lk, of pool] pool unfolding undo by (auto simp: buf_fds_def 1)
    have "wl_shm_buffer_free sb ?h1 = onto (\<lambda>h. h\<lparr>ch_bufs := (ch_bufs ?h1)\<rparr>) (wl_shm_buffer_free sb ?h0)"
      using wl_shm_buffer_free_frame(1) [of sb "ch_bufs ?h1" ?h0] by simp
    then have "wl_buffer_free b ?h1 = Ret (h'\<lparr>ch_bufs := (ch_bufs h)(b := None)\<rparr>)"
      using 1 buf' h'(1) by (simp add: wl_buffer_free_def deref_def free_at_def)
    moreover have "h'\<lparr>ch_bufs := (ch_bufs h)(b := None)\<rparr> = h'"
      using h'(4) by simp
    ultimately show ?thesis
      using h' by simp
  next
    case (2 d)
    have planes: "db_num_planes d \<le> 4"
      using ok 2(2) by (simp add: buf_ok_def)
    have "hinv ?lk (dma_fds d + lf) fs ?h0"
      using inv0 2 by (simp add: lost_pool_def buf_fds_def)
    then obtain h' where h': "dma_buffer_free d ?h0 = Ret h'" "hinv ?lk lf fs h'" "gives_up ?h0 h'"
      "ch_bufs h' = (ch_bufs h)(b := None)" "ch_surfs h' = ch_surfs h"
      using dma_buffer_free_ok [OF _ planes] by fastforce
    have "dma_buffer_free d ?h1 = onto (\<lambda>h. h\<lparr>ch_bufs := (ch_bufs ?h1)\<rparr>) (dma_buffer_free d ?h0)"
      using dma_buffer_free_frame(1) [of d "ch_bufs ?h1" ?h0] by simp
    then have "wl_buffer_free b ?h1 = Ret (h'\<lparr>ch_bufs := (ch_bufs h)(b := None)\<rparr>)"
      using 2 buf' h'(1) by (simp add: wl_buffer_free_def deref_def free_at_def)
    moreover have "h'\<lparr>ch_bufs := (ch_bufs h)(b := None)\<rparr> = h'"
      using h'(4) by simp
    ultimately show ?thesis
      using h' by simp
  qed
qed

lemma hinv_set_buf:
  assumes inv: "hinv lk lf fs h" and buf: "ch_bufs h b = Some buf"
    and buf': "wb_shm_buf buf' = wb_shm_buf buf" "wb_dma_buf buf' = wb_dma_buf buf"
    and dep: "unat (wb_dependents buf') = surf_refs h b + frame_refs fs b + n" "wb_id buf' = 0 \<longrightarrow> wb_dependents buf' \<noteq> 0"
  shows "hinv (lk(Buffer_Obj b := n)) lf fs (h\<lparr>ch_bufs := (ch_bufs h)(b \<mapsto> buf')\<rparr>)" (is "hinv _ _ _ ?h")
  unfolding hinv_def
proof (intro conjI allI impI)
  note inv' = hinvD [OF inv]
  note same = hsum_update_same [OF hinv_finite(2) [OF inv] buf]
  show "store_ok ?h" "frames_ok fs ?h"
    using inv'(1,2) buf by (auto simp: heap_defs)
  have "pool_refs ?h a = pool_refs h a" for a
    unfolding pool_refs_def using buf' by (simp add: same)
  then show "pool_ok (lk(Buffer_Obj b := n)) ?h a q" if "ch_pools ?h a = Some q" for a q
    using that inv'(3) [of a q] by (simp add: pool_ok_def)
  show "buf_ok (lk(Buffer_Obj b := n)) fs ?h a b'" if "ch_bufs ?h a = Some b'" for a b'
    using that inv'(4) [OF buf] inv'(4) [of a b'] dep buf' by (auto simp: heap_defs split: if_splits)
  show "surf_ok ?h su" if "ch_surfs ?h a = Some su" for a su
    using that inv'(5) [of a su] by (auto simp: heap_defs)
  show "ch_fds ?h = hsum (\<lambda>p. plane_fds (bp_planes p)) (ch_params ?h) + hsum buf_fds (ch_bufs ?h) + lf"
    using inv'(8) same [of buf_fds buf'] buf' by (simp add: buf_fds_def)
qed (use hinvD(6,7) [OF inv] in auto)

lemma view_buf_update:
  assumes "ch_bufs h b = Some buf" "wb_id buf' = wb_id buf"
  shows "view (h\<lparr>ch_bufs := (ch_bufs h)(b \<mapsto> buf')\<rparr>) = view h"
  by (rule view_eqI) (use assms in auto)

lemma view_buf_gone:
  assumes "ch_bufs h b = Some buf" "wb_id buf = 0"
  shows "view (h\<lparr>ch_bufs := (ch_bufs h)(b := None)\<rparr>) = view h"
  by (rule view_eqI) (use assms in auto)

text \<open>The statements of the source that give up a reference to a buffer.\<close>

definition give_up_buf :: "address \<Rightarrow> cheap \<Rightarrow> cheap outcome" where
  "give_up_buf b h =
     bindo (deref (ch_bufs h) b) (\<lambda>buf.
     let buf = buf\<lparr>wb_dependents := wb_dependents buf - 1\<rparr>; h = h\<lparr>ch_bufs := (ch_bufs h)(b \<mapsto> buf)\<rparr> in
     if wb_id buf = 0 \<and> wb_dependents buf = 0 then wl_buffer_free b h else Ret h)"

lemma give_up_buf_ok:
  assumes inv: "hinv lk lf fs h" and b: "ch_bufs h b \<noteq> None" and lk: "lk (Buffer_Obj b) = Suc n"
  shows "\<exists>h'. give_up_buf b h = Ret h' \<and> hinv (lk(Buffer_Obj b := n)) lf fs h' \<and> gives_up h h' \<and> ch_surfs h' = ch_surfs h"
proof -
  obtain buf where buf: "ch_bufs h b = Some buf"
    using b by blast
  let ?buf = "buf\<lparr>wb_dependents := wb_dependents buf - 1\<rparr>"
  let ?h = "h\<lparr>ch_bufs := (ch_bufs h)(b \<mapsto> ?buf)\<rparr>"
  have dep: "unat (wb_dependents buf) = Suc (surf_refs h b + frame_refs fs b + n)"
    using hinvD(4) [OF inv buf] lk by (simp add: buf_ok_def)
  note u = unat_count [OF dep]
  show ?thesis
  proof (cases "wb_id buf = 0 \<and> wb_dependents buf - 1 = 0")
    case True
    then have z: "surf_refs h b = 0" "frame_refs fs b = 0" "n = 0"
      using u(3) by auto
    obtain h' where h': "wl_buffer_free b ?h = Ret h'" "hinv (lk(Buffer_Obj b := 0)) lf fs h'"
      "gives_up (h\<lparr>ch_bufs := (ch_bufs h)(b := None)\<rparr>) h'" "ch_surfs h' = ch_surfs h"
      using wl_buffer_free_ok [OF inv buf z(1,2), of ?buf] True by auto
    have "gives_up h (h\<lparr>ch_bufs := (ch_bufs h)(b := None)\<rparr>)"
      using view_buf_gone [OF buf] True by (simp add: gives_up_def attached_def)
    then show ?thesis
      using h' True z(3) buf gives_up_trans by (auto simp: give_up_buf_def deref_def)
  next
    case False
    then have "give_up_buf b h = Ret ?h"
      using buf by (auto simp: give_up_buf_def deref_def)
    moreover have "hinv (lk(Buffer_Obj b := n)) lf fs ?h"
      using hinv_set_buf [OF inv buf, of ?buf n] u(2) False by simp
    ultimately show ?thesis
      using view_buf_update [OF buf, of ?buf] by (simp add: gives_up_def attached_def)
  qed
qed

lemma give_up_buf_frame:
  "give_up_buf b (h\<lparr>ch_surfs := y\<rparr>) = onto (\<lambda>h. h\<lparr>ch_surfs := y\<rparr>) (give_up_buf b h)"
  "give_up_buf b (h\<lparr>ch_frames := z\<rparr>) = onto (\<lambda>h. h\<lparr>ch_frames := z\<rparr>) (give_up_buf b h)"
proof -
  have comm: "h\<lparr>ch_surfs := y, ch_bufs := x\<rparr> = h\<lparr>ch_bufs := x, ch_surfs := y\<rparr>"
    "h\<lparr>ch_frames := z, ch_bufs := x\<rparr> = h\<lparr>ch_bufs := x, ch_frames := z\<rparr>" for x
    by simp_all
  show "give_up_buf b (h\<lparr>ch_surfs := y\<rparr>) = onto (\<lambda>h. h\<lparr>ch_surfs := y\<rparr>) (give_up_buf b h)"
    by (cases "ch_bufs h b") (simp_all add: give_up_buf_def deref_def comm wl_buffer_free_frame Let_def)
  show "give_up_buf b (h\<lparr>ch_frames := z\<rparr>) = onto (\<lambda>h. h\<lparr>ch_frames := z\<rparr>) (give_up_buf b h)"
    by (cases "ch_bufs h b") (simp_all add: give_up_buf_def deref_def comm wl_buffer_free_frame Let_def)
qed

section \<open>Surfaces\<close>

lemma hinv_set_surf:
  assumes inv: "hinv lk lf fs h" and surf: "ch_surfs h a = Some surf"
    and surf': "su_dependents surf' = 0" "\<And>b. su_buf surf' = Some b \<Longrightarrow> ch_bufs h b \<noteq> None"
    and lk': "\<And>b. lk' (Buffer_Obj b) + of_bool (su_buf surf' = Some b) = lk (Buffer_Obj b) + of_bool (su_buf surf = Some b)"
      "\<And>b. lk' (Pool_Obj b) = lk (Pool_Obj b)"
  shows "hinv lk' lf fs (h\<lparr>ch_surfs := (ch_surfs h)(a \<mapsto> surf')\<rparr>)" (is "hinv _ _ _ ?h")
  unfolding hinv_def
proof (intro conjI allI impI)
  note inv' = hinvD [OF inv]
  have fin: "finite (dom (ch_surfs h))"
    by (rule hinv_finite [OF inv])
  show "store_ok ?h" "frames_ok fs ?h"
    using inv'(1,2) surf by (auto simp: heap_defs)
  have refs: "surf_refs ?h b + of_bool (su_buf surf = Some b) = surf_refs h b + of_bool (su_buf surf' = Some b)" for b
    using hsum_update [OF fin surf, of "\<lambda>s. of_bool (su_buf s = Some b) :: nat" surf']
      hsum_remove [OF fin surf, of "\<lambda>s. of_bool (su_buf s = Some b) :: nat"] by (simp add: surf_refs_def)
  have counts: "surf_refs ?h b + lk' (Buffer_Obj b) = surf_refs h b + lk (Buffer_Obj b)" for b
    using refs [of b] lk'(1) [of b] by linarith
  show "pool_ok lk' ?h b q" if "ch_pools ?h b = Some q" for b q
    using that inv'(3) [of b q] lk'(2) by (simp add: heap_defs)
  show "buf_ok lk' fs ?h b b'" if "ch_bufs ?h b = Some b'" for b b'
  proof -
    have "buf_ok lk fs h b b'"
      using that inv'(4) [of b b'] by simp
    then show ?thesis
      unfolding buf_ok_def using counts [of b] by simp
  qed
  show "surf_ok ?h su" if "ch_surfs ?h b = Some su" for b su
    using that inv'(5) [of b su] surf' by (auto simp: surf_ok_def split: if_splits)
qed (use hinvD(6,7,8) [OF inv] in auto)

lemma view_surf_update:
  assumes "ch_surfs h a = Some surf" "su_id surf' = su_id surf"
  shows "view (h\<lparr>ch_surfs := (ch_surfs h)(a \<mapsto> surf')\<rparr>) = view h"
  by (rule view_eqI) (use assms in auto)

lemma wl_surface_unattach_ok:
  assumes inv: "hinv lk lf fs h" and surf: "ch_surfs h a = Some surf"
  shows "\<exists>h'. wl_surface_unattach a h = Ret h' \<and> hinv lk lf fs h' \<and> gives_up h h' \<and>
    ch_surfs h' = (ch_surfs h)(a \<mapsto> surf\<lparr>su_buf := None\<rparr>)"
proof (cases "su_buf surf")
  case None
  then have e: "surf\<lparr>su_buf := None\<rparr> = surf" "(ch_surfs h)(a \<mapsto> surf) = ch_surfs h"
    using surf by auto
  show ?thesis
    unfolding e using None surf inv by (simp add: wl_surface_unattach_def deref_def)
next
  case (Some b)
  let ?surf = "surf\<lparr>su_buf := None\<rparr>" and ?surfs = "(ch_surfs h)(a \<mapsto> surf\<lparr>su_buf := None\<rparr>)"
  let ?h0 = "h\<lparr>ch_surfs := ?surfs\<rparr>"
  let ?lk = "lk(Buffer_Obj b := Suc (lk (Buffer_Obj b)))"
  have ok: "surf_ok h surf"
    by (rule hinvD(5) [OF inv surf])
  then have b: "ch_bufs h b \<noteq> None"
    using Some by (simp add: surf_ok_def)
  have inv0: "hinv ?lk lf fs ?h0"
    by (rule hinv_set_surf [OF inv surf]) (use ok Some in \<open>auto simp: surf_ok_def\<close>)
  obtain h1 where h1: "give_up_buf b ?h0 = Ret h1" "hinv (?lk(Buffer_Obj b := lk (Buffer_Obj b))) lf fs h1" "gives_up ?h0 h1"
    "ch_surfs h1 = ?surfs"
    using give_up_buf_ok [OF inv0, of b "lk (Buffer_Obj b)"] b by auto
  have "gives_up h ?h0"
    using view_surf_update [OF surf, of ?surf] by (auto simp: gives_up_def attached_def)
  with h1(3) have up: "gives_up h h1"
    using gives_up_trans by blast
  have "onto (\<lambda>h. h\<lparr>ch_surfs := ?surfs\<rparr>) (give_up_buf b h) = Ret h1"
    using h1(1) by (simp add: give_up_buf_frame)
  then obtain h2 where h2: "give_up_buf b h = Ret h2" "h1 = h2\<lparr>ch_surfs := ?surfs\<rparr>"
    by (cases "give_up_buf b h") auto
  have same: "ch_surfs h2 = ch_surfs h"
  proof -
    have "h2 = h2\<lparr>ch_surfs := ch_surfs h\<rparr>"
      using give_up_buf_frame(1) [of b "ch_surfs h" h] by (simp add: h2(1))
    then show ?thesis
      by (metis cheap.select_convs(4) cheap.surjective cheap.update_convs(4))
  qed
  have "wl_surface_unattach a h = bindo (give_up_buf b h) (\<lambda>h. Ret (h\<lparr>ch_surfs := (ch_surfs h)(a \<mapsto> surf\<lparr>su_buf := None\<rparr>)\<rparr>))"
    using surf Some by (cases "ch_bufs h b") (simp_all add: wl_surface_unattach_def give_up_buf_def deref_def Let_def)
  then have "wl_surface_unattach a h = Ret h1"
    using h2 same by simp
  then show ?thesis
    using h1 up by (simp add: fun_upd_idem)
qed

section \<open>Frames\<close>

lemma view_sent [simp]: "view (h\<lparr>ch_sent := x\<rparr>) = view h" "view (h\<lparr>ch_frames := y\<rparr>) = view h"
  by (rule view_eqI; simp)+

lemma hinv_sent [simp]: "hinv lk lf fs (h\<lparr>ch_sent := x\<rparr>) = hinv lk lf fs h"
  by (simp add: hinv_def heap_defs)

lemma hinv_drop_frame:
  assumes inv: "hinv lk lf (f # fs) h"
  shows "hinv (lk(Buffer_Obj (vf_buf f) := Suc (lk (Buffer_Obj (vf_buf f))))) lf fs
    (h\<lparr>ch_frames := ch_frames h - {#vf_block f#}\<rparr>)" (is "hinv ?lk _ _ ?h")
  unfolding hinv_def
proof (intro conjI allI impI)
  note inv' = hinvD [OF inv]
  show "store_ok ?h" "frames_ok fs ?h"
    using inv'(1,2) by (auto simp: heap_defs)
  show "pool_ok ?lk ?h a q" if "ch_pools ?h a = Some q" for a q
    using that inv'(3) [of a q] by (simp add: heap_defs)
  show "buf_ok ?lk fs ?h a b" if "ch_bufs ?h a = Some b" for a b
    using that inv'(4) [of a b] by (simp add: heap_defs frame_refs_def)
  show "surf_ok ?h su" if "ch_surfs ?h a = Some su" for a su
    using that inv'(5) [of a su] by (simp add: heap_defs)
qed (use hinvD(6,7,8) [OF inv] in auto)

text \<open>A send on a live connection only adds to the log.\<close>

lemma release_give_up:
  assumes "ch_bufs h b = Some buf" "wb_id buf \<noteq> 0 \<longrightarrow> conn \<in> ch_conns h"
  shows "\<exists>sent. send_wl_buffer_release True send_ok b conn (h\<lparr>ch_bufs := (ch_bufs h)(b \<mapsto> buf\<lparr>wb_dependents := wb_dependents buf - 1\<rparr>)\<rparr>) =
    bindo (give_up_buf b (h\<lparr>ch_sent := sent\<rparr>)) (\<lambda>h. Ret (if wb_id buf \<noteq> 0 \<and> \<not> send_ok then - 1 else 0, h))"
proof (cases "wb_id buf = 0")
  case True
  then have "send_wl_buffer_release True send_ok b conn (h\<lparr>ch_bufs := (ch_bufs h)(b \<mapsto> buf\<lparr>wb_dependents := wb_dependents buf - 1\<rparr>)\<rparr>) =
    bindo (give_up_buf b (h\<lparr>ch_sent := ch_sent h\<rparr>)) (\<lambda>h. Ret (if wb_id buf \<noteq> 0 \<and> \<not> send_ok then - 1 else 0, h))"
    using assms(1) by (simp add: send_wl_buffer_release_def give_up_buf_def deref_def Let_def)
  then show ?thesis
    by blast
next
  case False
  then have "send_wl_buffer_release True send_ok b conn (h\<lparr>ch_bufs := (ch_bufs h)(b \<mapsto> buf\<lparr>wb_dependents := wb_dependents buf - 1\<rparr>)\<rparr>) =
    bindo (give_up_buf b (h\<lparr>ch_sent := ch_sent h @ [(conn, Release (wb_id buf))]\<rparr>)) (\<lambda>h. Ret (if wb_id buf \<noteq> 0 \<and> \<not> send_ok then - 1 else 0, h))"
    using assms by (simp add: send_wl_buffer_release_def give_up_buf_def deref_def Let_def)
  then show ?thesis
    by blast
qed

text \<open>The connection of a frame is live while its buffer is an object.\<close>

definition conn_ok :: "cheap \<Rightarrow> video_encode_queue_frame \<Rightarrow> bool" where
  "conn_ok h f \<longleftrightarrow> view h (Buffer_Obj (vf_buf f)) \<noteq> None \<longrightarrow> vf_conn f \<in> ch_conns h"

lemma conn_ok_gives_up: "gives_up h h' \<Longrightarrow> conn_ok h' f = conn_ok h f"
  by (simp add: gives_up_def conn_ok_def)

lemma frame_given_up:
  assumes inv: "hinv lk lf (f # fs) h" and conn: "conn_ok h f"
  shows "\<exists>h'. free_frame f h = Ret h' \<and> hinv lk lf fs h' \<and> gives_up h h' \<and> ch_surfs h' = ch_surfs h"
proof -
  let ?b = "vf_buf f"
  let ?z = "ch_frames h - {#vf_block f#}" and ?lk = "lk(Buffer_Obj ?b := Suc (lk (Buffer_Obj ?b)))"
  have fr: "ch_frames h = add_mset (vf_block f) ?z" and "ch_bufs h ?b \<noteq> None"
    using hinvD(2) [OF inv] by (auto simp: frames_ok_def)
  then obtain buf where buf: "ch_bufs h ?b = Some buf"
    by blast
  have live: "wb_id buf \<noteq> 0 \<longrightarrow> vf_conn f \<in> ch_conns h"
    using conn buf by (simp add: conn_ok_def)
  obtain sent where sent: "send_wl_buffer_release True True ?b (vf_conn f)
      (h\<lparr>ch_bufs := (ch_bufs h)(?b \<mapsto> buf\<lparr>wb_dependents := wb_dependents buf - 1\<rparr>)\<rparr>) =
    bindo (give_up_buf ?b (h\<lparr>ch_sent := sent\<rparr>)) (\<lambda>h. Ret (if wb_id buf \<noteq> 0 \<and> \<not> True then - 1 else 0, h))"
    using release_give_up [OF buf live] by blast
  let ?h0 = "h\<lparr>ch_sent := sent, ch_frames := ?z\<rparr>"
  have "?h0 = (h\<lparr>ch_frames := ?z\<rparr>)\<lparr>ch_sent := sent\<rparr>"
    by simp
  then have inv0: "hinv ?lk lf fs ?h0"
    using hinv_drop_frame [OF inv] by (simp only: hinv_sent)
  obtain h1 where h1: "give_up_buf ?b ?h0 = Ret h1" "hinv (?lk(Buffer_Obj ?b := lk (Buffer_Obj ?b))) lf fs h1" "gives_up ?h0 h1"
    "ch_surfs h1 = ch_surfs h"
    using give_up_buf_ok [OF inv0, of ?b "lk (Buffer_Obj ?b)"] buf by auto
  have frame: "give_up_buf ?b ?h0 = onto (\<lambda>h. h\<lparr>ch_frames := ?z\<rparr>) (give_up_buf ?b (h\<lparr>ch_sent := sent\<rparr>))"
    by (rule give_up_buf_frame(2) [of ?b ?z "h\<lparr>ch_sent := sent\<rparr>"])
  then obtain h2 where h2: "give_up_buf ?b (h\<lparr>ch_sent := sent\<rparr>) = Ret h2" "h1 = h2\<lparr>ch_frames := ?z\<rparr>"
    using h1(1) by (cases "give_up_buf ?b (h\<lparr>ch_sent := sent\<rparr>)") auto
  have "h2 = h2\<lparr>ch_frames := ch_frames h\<rparr>"
    using give_up_buf_frame(2) [of ?b "ch_frames h" "h\<lparr>ch_sent := sent\<rparr>"] by (simp add: h2(1))
  then have "ch_frames h2 = ch_frames h"
    by (metis cheap.select_convs(6) cheap.surjective cheap.update_convs(6))
  then have "free_frame f h = Ret h1"
    using buf sent h2 fr by (simp add: free_frame_def deref_def) (metis hfree_add bindo.simps(1))
  moreover have "gives_up h ?h0"
    using view_sent(2) [of ?z "h\<lparr>ch_sent := sent\<rparr>"] by (simp add: gives_up_def attached_def)
  ultimately show ?thesis
    using h1 gives_up_trans [OF _ h1(3)] by (simp add: fun_upd_idem)
qed

lemma frames_given_up:
  assumes "hinv lk lf (e @ q) h" "\<forall>f \<in> set e. conn_ok h f"
  shows "\<exists>h'. foldo free_frame e h = Ret h' \<and> hinv lk lf q h' \<and> gives_up h h' \<and> ch_surfs h' = ch_surfs h"
  using assms
proof (induction e arbitrary: h)
  case (Cons f e)
  obtain h1 where h1: "free_frame f h = Ret h1" "hinv lk lf (e @ q) h1" "gives_up h h1" "ch_surfs h1 = ch_surfs h"
    using frame_given_up [of lk lf f "e @ q" h] Cons.prems by auto
  then have "\<forall>f \<in> set e. conn_ok h1 f"
    using Cons.prems(2) conn_ok_gives_up [OF h1(3)] by simp
  then show ?case
    using Cons.IH [OF h1(2)] h1 gives_up_trans [OF h1(3)] by fastforce
qed simp

end
