(* ===== verification/Capture_Inv.thy ===== *)
theory Capture_Inv
  imports Capture_Refs
begin

text \<open>
  The invariant of the capture module as a whole and that every message handler keeps it: the
  reference counts of \<open>Capture_Refs\<close>, the encode queue, and the tables that say which struct is
  which object of which client.
\<close>

section \<open>Tables\<close>

definition objects :: "capture \<Rightarrow> nat \<Rightarrow> u32 \<Rightarrow> obj option" where
  "objects s k i = (case ca_sessions s k of None \<Rightarrow> None | Some m \<Rightarrow> wl_map_lookup (ps_data m) i)"

text \<open>
  \<open>obs\<close> are the objects of the sessions, \<open>vw\<close> the numbers of the structs, \<open>att\<close> the attached buffers
  and \<open>fs\<close> the frames of the queue. A struct with a number is the object of exactly one session under
  that number; the buffers attached to surfaces of a session and shown by frames for its client are
  objects of that session, as long as they are objects at all.
\<close>

definition tabs_ok ::
    "(nat \<Rightarrow> u32 \<Rightarrow> obj option) \<Rightarrow> (obj \<Rightarrow> u32 option) \<Rightarrow> (address \<Rightarrow> address \<Rightarrow> bool) \<Rightarrow>
     video_encode_queue_frame list \<Rightarrow> bool" where
  "tabs_ok obs vw att fs \<longleftrightarrow>
     (\<forall>k i ob. obs k i = Some ob \<longrightarrow> vw ob = Some i \<and> 0 < i \<and> i < WL_SERVER_ID_START) \<and>
     (\<forall>k k' i i' ob. obs k i = Some ob \<longrightarrow> obs k' i' = Some ob \<longrightarrow> k = k') \<and>
     (\<forall>ob i. vw ob = Some i \<longrightarrow> (\<exists>k. obs k i = Some ob)) \<and>
     (\<forall>a b k i j. att a b \<longrightarrow> obs k i = Some (Surface_Obj a) \<longrightarrow> vw (Buffer_Obj b) = Some j \<longrightarrow> obs k j = Some (Buffer_Obj b)) \<and>
     (\<forall>f j. f \<in> set fs \<longrightarrow> vw (Buffer_Obj (vf_buf f)) = Some j \<longrightarrow> obs (vf_conn f) j = Some (Buffer_Obj (vf_buf f)))"

lemma tabs_okD:
  assumes "tabs_ok obs vw att fs"
  shows "obs k i = Some ob \<Longrightarrow> vw ob = Some i" "obs k i = Some ob \<Longrightarrow> 0 < i" "obs k i = Some ob \<Longrightarrow> i < WL_SERVER_ID_START"
    "obs k i = Some ob \<Longrightarrow> obs k' i' = Some ob \<Longrightarrow> k = k'" "vw ob = Some i \<Longrightarrow> \<exists>k. obs k i = Some ob"
    "att a b \<Longrightarrow> obs k i = Some (Surface_Obj a) \<Longrightarrow> vw (Buffer_Obj b) = Some j \<Longrightarrow> obs k j = Some (Buffer_Obj b)"
    "f \<in> set fs \<Longrightarrow> vw (Buffer_Obj (vf_buf f)) = Some j \<Longrightarrow> obs (vf_conn f) j = Some (Buffer_Obj (vf_buf f))"
  using assms unfolding tabs_ok_def by blast+

lemma tabs_okI:
  assumes "\<And>k i ob. obs k i = Some ob \<Longrightarrow> vw ob = Some i" "\<And>k i ob. obs k i = Some ob \<Longrightarrow> 0 < i"
    "\<And>k i ob. obs k i = Some ob \<Longrightarrow> i < WL_SERVER_ID_START"
    "\<And>k i ob k' i'. obs k i = Some ob \<Longrightarrow> obs k' i' = Some ob \<Longrightarrow> k = k'" "\<And>ob i. vw ob = Some i \<Longrightarrow> \<exists>k. obs k i = Some ob"
    "\<And>a b k i j. att a b \<Longrightarrow> obs k i = Some (Surface_Obj a) \<Longrightarrow> vw (Buffer_Obj b) = Some j \<Longrightarrow> obs k j = Some (Buffer_Obj b)"
    "\<And>f j. f \<in> set fs \<Longrightarrow> vw (Buffer_Obj (vf_buf f)) = Some j \<Longrightarrow> obs (vf_conn f) j = Some (Buffer_Obj (vf_buf f))"
  shows "tabs_ok obs vw att fs"
  unfolding tabs_ok_def by (intro conjI allI impI) (rule assms, assumption+)+

lemma tabs_ok_mono:
  assumes tabs: "tabs_ok obs vw att fs" and "\<And>a b. att' a b \<Longrightarrow> att a b" "set fs' \<subseteq> set fs"
  shows "tabs_ok obs vw att' fs'"
proof (rule tabs_okI)
  show "obs k j = Some (Buffer_Obj b)"
    if "att' a b" "obs k i = Some (Surface_Obj a)" "vw (Buffer_Obj b) = Some j" for a b k i j
    using tabs_okD(6) [OF tabs assms(2) [OF that(1)] that(2,3)] .
  show "obs (vf_conn f) j = Some (Buffer_Obj (vf_buf f))" if "f \<in> set fs'" "vw (Buffer_Obj (vf_buf f)) = Some j" for f j
    using tabs_okD(7) [OF tabs _ that(2)] that(1) assms(3) by blast
qed (rule tabs_okD(1-5) [OF tabs], assumption+)+

lemma tabs_ok_insert:
  assumes tabs: "tabs_ok obs vw att fs" and new: "obs k i = None" "vw ob = None" "0 < i" "i < WL_SERVER_ID_START"
    and att: "\<And>a b. ob = Surface_Obj a \<Longrightarrow> \<not> att a b" "\<And>a b. ob = Buffer_Obj b \<Longrightarrow> \<not> att a b"
    and fs: "\<And>f. f \<in> set fs \<Longrightarrow> ob \<noteq> Buffer_Obj (vf_buf f)"
  shows "tabs_ok (obs(k := (obs k)(i \<mapsto> ob))) (vw(ob \<mapsto> i)) att fs"
proof -
  have fresh: "obs k' i' \<noteq> Some ob" for k' i'
    using tabs_okD(1) [OF tabs, of k' i' ob] new(2) by auto
  have old: "(obs(k := (obs k)(i \<mapsto> ob))) k' i' = Some ob' \<longleftrightarrow> (k' = k \<and> i' = i \<and> ob' = ob) \<or> obs k' i' = Some ob'" for k' i' ob'
    using new(1) by auto
  have vw: "(vw(ob \<mapsto> i)) ob' = Some i' \<longleftrightarrow> (ob' = ob \<and> i' = i) \<or> vw ob' = Some i'" for ob' i'
    using new(2) by auto
  show ?thesis
  proof (rule tabs_okI; unfold old vw)
    show "(ob' = ob \<and> i' = i) \<or> vw ob' = Some i'" "0 < i'" "i' < WL_SERVER_ID_START"
      if "k' = k \<and> i' = i \<and> ob' = ob \<or> obs k' i' = Some ob'" for k' i' ob'
      using that tabs_okD(1-3) [OF tabs, of k' i' ob'] new(3,4) by auto
    show "k1 = k2" if "k1 = k \<and> i1 = i \<and> ob' = ob \<or> obs k1 i1 = Some ob'" "k2 = k \<and> i2 = i \<and> ob' = ob \<or> obs k2 i2 = Some ob'"
      for k1 i1 ob' k2 i2
      using that fresh tabs_okD(4) [OF tabs, of k1 i1 ob' k2 i2] by auto
    show "\<exists>k'. k' = k \<and> i' = i \<and> ob' = ob \<or> obs k' i' = Some ob'" if "(ob' = ob \<and> i' = i) \<or> vw ob' = Some i'" for ob' i'
      using that tabs_okD(5) [OF tabs, of ob' i'] by auto
    show "k' = k \<and> j = i \<and> Buffer_Obj b = ob \<or> obs k' j = Some (Buffer_Obj b)"
      if "att a b" "k' = k \<and> i' = i \<and> Surface_Obj a = ob \<or> obs k' i' = Some (Surface_Obj a)"
        "(Buffer_Obj b = ob \<and> j = i) \<or> vw (Buffer_Obj b) = Some j" for a b k' i' j
      using that att tabs_okD(6) [OF tabs, of a b k' i' j] by auto
    show "vf_conn f = k \<and> j = i \<and> Buffer_Obj (vf_buf f) = ob \<or> obs (vf_conn f) j = Some (Buffer_Obj (vf_buf f))"
      if "f \<in> set fs" "(Buffer_Obj (vf_buf f) = ob \<and> j = i) \<or> vw (Buffer_Obj (vf_buf f)) = Some j" for f j
      using that fs [OF that(1)] tabs_okD(7) [OF tabs, of f j] by auto
  qed
qed

lemma tabs_ok_remove:
  assumes tabs: "tabs_ok obs vw att fs" and old: "obs k i = Some ob"
  shows "tabs_ok (obs(k := (obs k)(i := None))) (vw(ob := None)) att fs"
proof -
  have only: "k' = k \<and> i' = i" if "obs k' i' = Some ob" for k' i'
    using tabs_okD(1) [OF tabs that] tabs_okD(1) [OF tabs old] tabs_okD(4) [OF tabs that old] by simp
  have obs: "(obs(k := (obs k)(i := None))) k' i' = Some ob' \<longleftrightarrow> obs k' i' = Some ob' \<and> ob' \<noteq> ob" for k' i' ob'
  proof (cases "k' = k \<and> i' = i")
    case True
    then show ?thesis
      using old by simp
  next
    case False
    then have "obs k' i' \<noteq> Some ob"
      using only by blast
    then show ?thesis
      using False by auto
  qed
  have vw: "(vw(ob := None)) ob' = Some i' \<longleftrightarrow> vw ob' = Some i' \<and> ob' \<noteq> ob" for ob' i'
    by auto
  show ?thesis
  proof (rule tabs_okI; unfold obs vw)
    show "vw ob' = Some i' \<and> ob' \<noteq> ob" "0 < i'" "i' < WL_SERVER_ID_START" if "obs k' i' = Some ob' \<and> ob' \<noteq> ob" for k' i' ob'
      using that tabs_okD(1-3) [OF tabs, of k' i' ob'] by auto
    show "k1 = k2" if "obs k1 i1 = Some ob' \<and> ob' \<noteq> ob" "obs k2 i2 = Some ob' \<and> ob' \<noteq> ob" for k1 i1 ob' k2 i2
      using that tabs_okD(4) [OF tabs, of k1 i1 ob' k2 i2] by auto
    show "\<exists>k'. obs k' i' = Some ob' \<and> ob' \<noteq> ob" if "vw ob' = Some i' \<and> ob' \<noteq> ob" for ob' i'
      using that tabs_okD(5) [OF tabs, of ob' i'] by auto
    show "obs k' j = Some (Buffer_Obj b) \<and> Buffer_Obj b \<noteq> ob"
      if "att a b" "obs k' i' = Some (Surface_Obj a) \<and> Surface_Obj a \<noteq> ob" "vw (Buffer_Obj b) = Some j \<and> Buffer_Obj b \<noteq> ob" for a b k' i' j
      using that tabs_okD(6) [OF tabs, of a b k' i' j] by auto
    show "obs (vf_conn f) j = Some (Buffer_Obj (vf_buf f)) \<and> Buffer_Obj (vf_buf f) \<noteq> ob"
      if "f \<in> set fs" "vw (Buffer_Obj (vf_buf f)) = Some j \<and> Buffer_Obj (vf_buf f) \<noteq> ob" for f j
      using that tabs_okD(7) [OF tabs, of f j] by auto
  qed
qed

lemma tabs_ok_attach:
  assumes tabs: "tabs_ok obs vw att fs" and at: "obs k i = Some (Surface_Obj a)" "obs k j = Some (Buffer_Obj b)"
    and att': "\<And>x y. att' x y \<Longrightarrow> att x y \<or> (x = a \<and> y = b)"
  shows "tabs_ok obs vw att' fs"
proof (rule tabs_okI)
  fix x y k' i' j'
  assume x: "att' x y" "obs k' i' = Some (Surface_Obj x)" "vw (Buffer_Obj y) = Some j'"
  show "obs k' j' = Some (Buffer_Obj y)"
  proof (cases "att x y")
    case True
    then show ?thesis
      using tabs_okD(6) [OF tabs _ x(2,3)] by blast
  next
    case False
    then have "x = a" "y = b"
      using att' [OF x(1)] by auto
    then show ?thesis
      using x(2,3) at tabs_okD(4) [OF tabs at(1), of k' i'] tabs_okD(1) [OF tabs at(2)] by simp
  qed
qed (rule tabs_okD(1-5,7) [OF tabs], assumption+)+

lemma tabs_ok_push:
  assumes tabs: "tabs_ok obs vw att fs" and at: "obs k i = Some (Surface_Obj a)" "att a (vf_buf f)" "vf_conn f = k"
  shows "tabs_ok obs vw att (fs @ [f])"
proof (rule tabs_okI)
  show "obs (vf_conn g) j = Some (Buffer_Obj (vf_buf g))"
    if "g \<in> set (fs @ [f])" "vw (Buffer_Obj (vf_buf g)) = Some j" for g j
    using that tabs_okD(7) [OF tabs, of g j] tabs_okD(6) [OF tabs at(2,1), of j] at(3) by auto
qed (rule tabs_okD(1-6) [OF tabs], assumption+)+

section \<open>The maps of a session\<close>

primrec obj_interface :: "obj \<Rightarrow> string" where
  "obj_interface (Pool_Obj a) = ''wl_shm_pool''"
| "obj_interface (Buffer_Obj a) = ''wl_buffer''"
| "obj_interface (Surface_Obj a) = ''wl_surface''"
| "obj_interface (Params_Obj a) = ''zwp_linux_buffer_params_v1''"

text \<open>The map of types knows number \<open>i\<close> as an object of interface \<open>nm\<close>, which can be destroyed.\<close>

definition has_type :: "wl_interface wl_map \<Rightarrow> u32 \<Rightarrow> string \<Rightarrow> bool" where
  "has_type t i nm \<longleftrightarrow>
     (case wl_map_lookup t i of
        None \<Rightarrow> False
      | Some f \<Rightarrow> if_name f = nm \<and> list_ex (\<lambda>g. wg_name g = ''destroy'') (if_methods f))"

text \<open>The map of object data is on the client side, sets no flags and keeps its size limit, and every
  object in it has the type its struct stands for.\<close>

definition data_ok :: "obj wl_map \<Rightarrow> bool" where
  "data_ok d \<longleftrightarrow> wm_side d = WL_MAP_CLIENT_SIDE \<and> length (wa_items (wm_client d)) \<le> Suc (unat WL_MAP_MAX_OBJECTS) \<and>
     length (wa_items (wm_server d)) \<le> Suc (unat WL_MAP_MAX_OBJECTS) \<and>
     list_all (\<lambda>e. \<not> map_entry_get_flags e) (wa_items (wm_client d)) \<and>
     list_all (\<lambda>e. \<not> map_entry_get_flags e) (wa_items (wm_server d))"

definition sess_ok :: "session_maps \<Rightarrow> bool" where
  "sess_ok m \<longleftrightarrow> data_ok (ps_data m) \<and>
     (\<forall>i ob. wl_map_lookup (ps_data m) i = Some ob \<longrightarrow> has_type (ps_types m) i (obj_interface ob))"

lemma no_flag_entries [simp]:
  "\<not> map_entry_get_flags (entry_of False d)" "\<not> map_entry_get_flags (if b then Null False else Free x)"
  by (cases d) (simp_all add: entry_of_def)

lemma data_ok_insert:
  assumes ins: "wl_map_insert_at ok False i x d = (0, d')" and d: "data_ok d"
  shows "data_ok d'"
proof -
  let ?a = "map_entries i d" and ?k = "unat (map_index i)"
  obtain a where a: "(if length (wa_items ?a) = ?k then wl_array_add ok entry_size (Null False) ?a else Some ?a) = Some a"
    and d': "d' = set_map_entries i (a\<lparr>wa_items := (wa_items a)[?k := entry_of False x]\<rparr>) d"
    and max: "\<not> map_index i > WL_MAP_MAX_OBJECTS"
    using ins by (auto simp: wl_map_insert_at_def Let_def split: if_splits option.splits)
  have k: "?k \<le> unat WL_MAP_MAX_OBJECTS"
    using max by (simp add: not_less word_le_nat_alt)
  have items: "wa_items a = wa_items ?a \<or> (wa_items a = wa_items ?a @ [Null False] \<and> length (wa_items ?a) = ?k)"
    using a wl_array_add_items [of ok entry_size "Null False" ?a a] by (auto split: if_splits)
  have flags: "list_all (\<lambda>e. \<not> map_entry_get_flags e) (wa_items ?a)"
    using d by (simp add: data_ok_def map_entries_def)
  have "list_all (\<lambda>e. \<not> map_entry_get_flags e) ((wa_items a)[?k := entry_of False x])"
    using items flags by (intro list_all_update) auto
  moreover have "length (wa_items a) \<le> Suc (unat WL_MAP_MAX_OBJECTS)"
    using items k d by (auto simp: data_ok_def map_entries_def)
  ultimately show ?thesis
    using d unfolding d' data_ok_def set_map_entries_def by simp
qed

lemma data_ok_remove:
  assumes rem: "wl_map_remove i d = Ret d'" and d: "data_ok d"
  shows "data_ok d'"
  using assms
  by (auto simp: wl_map_remove_def data_ok_def set_map_entries_def map_entries_def Let_def list_all_update split: if_splits)

section \<open>The invariant\<close>

text \<open>
  \<open>n\<close> is the capacity of the queue, \<open>e\<close> its expired and \<open>q\<close> its waiting frames. Counts and
  descriptors are lost as \<open>lk\<close> and \<open>lf\<close> say.
\<close>

definition cinv ::
    "(obj \<Rightarrow> nat) \<Rightarrow> int heap \<Rightarrow> nat \<Rightarrow> video_encode_queue_frame list \<Rightarrow> video_encode_queue_frame list \<Rightarrow> capture \<Rightarrow> bool" where
  "cinv lk lf n e q s \<longleftrightarrow>
     hinv lk lf (e @ q) (ca_heap s) \<and> rbuf_own free_frame (ca_queue s) n e q \<and>
     tabs_ok (objects s) (view (ca_heap s)) (attached (ca_heap s)) (e @ q) \<and>
     dom (ca_sessions s) = ch_conns (ca_heap s) \<and>
     (\<forall>k m. ca_sessions s k = Some m \<longrightarrow> sess_ok m) \<and>
     (\<forall>a. lk (Buffer_Obj a) = 0) \<and> (\<forall>a. lk (Pool_Obj a) \<le> ch_next (ca_heap s)) \<and>
     (\<forall>a \<ge> ch_next (ca_heap s). lk (Pool_Obj a) = 0) \<and>
     (\<forall>a. ch_surfs (ca_heap s) a \<noteq> None \<longrightarrow> view (ca_heap s) (Surface_Obj a) \<noteq> None) \<and>
     (\<forall>a. ch_params (ca_heap s) a \<noteq> None \<longrightarrow> view (ca_heap s) (Params_Obj a) \<noteq> None)"

lemma cinvD:
  assumes "cinv lk lf n e q s"
  shows "hinv lk lf (e @ q) (ca_heap s)" "rbuf_own free_frame (ca_queue s) n e q"
    "tabs_ok (objects s) (view (ca_heap s)) (attached (ca_heap s)) (e @ q)" "dom (ca_sessions s) = ch_conns (ca_heap s)"
    "ca_sessions s k = Some m \<Longrightarrow> sess_ok m"
    "lk (Buffer_Obj a) = 0" "lk (Pool_Obj a) \<le> ch_next (ca_heap s)"
    "ch_surfs (ca_heap s) a \<noteq> None \<Longrightarrow> view (ca_heap s) (Surface_Obj a) \<noteq> None"
    "ch_params (ca_heap s) a \<noteq> None \<Longrightarrow> view (ca_heap s) (Params_Obj a) \<noteq> None"
    "ch_next (ca_heap s) \<le> a \<Longrightarrow> lk (Pool_Obj a) = 0"
  using assms unfolding cinv_def by auto

lemma objects_updates [simp]:
  "objects (s\<lparr>ca_heap := h\<rparr>) = objects s" "objects (s\<lparr>ca_queue := buf\<rparr>) = objects s"
  "objects (s\<lparr>ca_frame_count := c\<rparr>) = objects s"
  by (rule ext, rule ext, simp add: objects_def)+

lemma objects_session: "objects s k i = Some ob \<Longrightarrow> \<exists>m. ca_sessions s k = Some m \<and> wl_map_lookup (ps_data m) i = Some ob"
  by (simp add: objects_def split: option.splits)

lemma session_objects: "ca_sessions s k = Some m \<Longrightarrow> wl_map_lookup (ps_data m) i = objects s k i"
  by (simp add: objects_def)

lemma cinv_conn_ok:
  assumes "cinv lk lf n e q s" "f \<in> set (e @ q)"
  shows "conn_ok (ca_heap s) f"
proof -
  have "vf_conn f \<in> ch_conns (ca_heap s)" if "view (ca_heap s) (Buffer_Obj (vf_buf f)) = Some j" for j
    using tabs_okD(7) [OF cinvD(3) [OF assms(1)] assms(2) that] objects_session cinvD(4) [OF assms(1)] by blast
  then show ?thesis
    by (auto simp: conn_ok_def)
qed

text \<open>Giving up references keeps the invariant.\<close>

lemma cinv_give_up:
  assumes inv: "cinv lk lf n e q s" and h': "hinv lk lf (e' @ q') h'" "gives_up (ca_heap s) h'"
    and surfs: "dom (ch_surfs h') = dom (ch_surfs (ca_heap s))"
    and buf: "rbuf_own free_frame buf n e' q'" and sub: "set (e' @ q') \<subseteq> set (e @ q)"
  shows "cinv lk lf n e' q' (s\<lparr>ca_queue := buf, ca_heap := h'\<rparr>)"
proof -
  have up: "view h' = view (ca_heap s)" "ch_conns h' = ch_conns (ca_heap s)" "ch_next h' = ch_next (ca_heap s)"
    "ch_params h' = ch_params (ca_heap s)" "\<And>a b. attached h' a b \<Longrightarrow> attached (ca_heap s) a b"
    using h'(2) by (auto simp: gives_up_def)
  have "tabs_ok (objects s) (view (ca_heap s)) (attached h') (e' @ q')"
    by (rule tabs_ok_mono [OF cinvD(3) [OF inv] up(5) sub])
  moreover have "view (ca_heap s) (Surface_Obj a) \<noteq> None" if "ch_surfs h' a \<noteq> None" for a
    using that surfs cinvD(8) [OF inv, of a] by blast
  ultimately show ?thesis
    unfolding cinv_def using cinvD [OF inv] h'(1) buf up by simp
qed

lemma cinv_heap:
  assumes "cinv lk lf n e q s" "hinv lk lf (e @ q) h'" "gives_up (ca_heap s) h'" "dom (ch_surfs h') = dom (ch_surfs (ca_heap s))"
  shows "cinv lk lf n e q (s\<lparr>ca_heap := h'\<rparr>)"
  using cinv_give_up [OF assms(1-4) cinvD(2) [OF assms(1)]] by simp

section \<open>Inserting and removing objects\<close>

lemma objects_set_data:
  assumes "ca_sessions s k = Some m"
  shows "objects (set_data k d s) = (objects s)(k := wl_map_lookup d)"
  using assms by (intro ext) (auto simp: objects_def set_data_def)

lemma set_data_simps [simp]:
  "ca_heap (set_data k d s) = ca_heap s" "ca_queue (set_data k d s) = ca_queue s"
  "dom (ca_sessions (set_data k d s)) = dom (ca_sessions s)"
  by (auto simp: set_data_def split: if_splits)

text \<open>What an insertion into the object data of session \<open>k\<close> makes of the state.\<close>

definition stored :: "nat \<Rightarrow> u32 \<Rightarrow> obj \<Rightarrow> capture \<Rightarrow> capture \<Rightarrow> bool" where
  "stored k i ob s s' \<longleftrightarrow>
     (\<exists>d m. s' = set_data k d s \<and> ca_sessions s k = Some m \<and> (data_ok (ps_data m) \<longrightarrow> data_ok d) \<and>
       wl_map_lookup d = (objects s k)(i \<mapsto> ob))"

lemma storedD:
  assumes "stored k i ob s s'"
  shows "objects s' = (objects s)(k := (objects s k)(i \<mapsto> ob))" "ca_heap s' = ca_heap s" "ca_queue s' = ca_queue s"
    "dom (ca_sessions s') = dom (ca_sessions s)"
proof -
  obtain d m where d: "s' = set_data k d s" "ca_sessions s k = Some m" "wl_map_lookup d = (objects s k)(i \<mapsto> ob)"
    using assms by (auto simp: stored_def)
  show "objects s' = (objects s)(k := (objects s k)(i \<mapsto> ob))" "ca_heap s' = ca_heap s" "ca_queue s' = ca_queue s"
    "dom (ca_sessions s') = dom (ca_sessions s)"
    using d by (simp_all only: objects_set_data set_data_simps)
qed

lemma stored_sess_ok:
  assumes st: "stored k i ob s s'" and ok: "\<And>k m. ca_sessions s k = Some m \<Longrightarrow> sess_ok m"
    and ty: "\<And>m. ca_sessions s k = Some m \<Longrightarrow> has_type (ps_types m) i (obj_interface ob)"
    and m': "ca_sessions s' k' = Some m'"
  shows "sess_ok m'"
proof -
  obtain d m where d: "s' = set_data k d s" "ca_sessions s k = Some m" "data_ok (ps_data m) \<longrightarrow> data_ok d"
    "wl_map_lookup d = (objects s k)(i \<mapsto> ob)"
    using st by (auto simp: stored_def)
  show ?thesis
  proof (cases "k' = k")
    case True
    then have "m' = m\<lparr>ps_data := d\<rparr>"
      using m' d(1,2) by (simp add: set_data_def)
    then show ?thesis
      using ok [OF d(2)] d(3,4) ty [OF d(2)] session_objects [OF d(2)] by (auto simp: sess_ok_def)
  next
    case False
    then show ?thesis
      using m' d(1) ok [of k' m'] by (simp add: set_data_def)
  qed
qed

lemma store_object_cases:
  assumes "ca_sessions s k \<noteq> None"
  obtains (fault) "objects s k i \<noteq> None" "store_object env k i ob s = Fault Assert_Failed"
  | (full) "objects s k i = None" "store_object env k i ob s = Ret (False, s)"
      "\<not> (known (data_map k s) i \<and> map_index i \<le> WL_MAP_MAX_OBJECTS)"
  | (ok) s' where "objects s k i = None" "store_object env k i ob s = Ret (True, s')" "stored k i ob s s'"
proof -
  obtain m where m: "ca_sessions s k = Some m"
    using assms by blast
  note look = session_objects [OF m, of i]
  show thesis
  proof (cases "objects s k i = None")
    case False
    then show thesis
      using m look by (intro fault) (auto simp: store_object_def session_of_def)
  next
    case True
    obtain r d where rd: "wl_map_insert_at (en_insert env) False i (Some ob) (ps_data m) = (r, d)"
      by fastforce
    show thesis
    proof (cases "r = 0")
      case r: True
      then have "store_object env k i ob s = Ret (True, set_data k d s)"
        using m look True rd by (simp add: store_object_def session_of_def)
      moreover have "stored k i ob s (set_data k d s)"
        unfolding stored_def
        using wl_map_insert_at_lookup(1) [of "en_insert env" False i "Some ob" "ps_data m" d] rd r m session_objects [OF m]
          data_ok_insert [of "en_insert env" i "Some ob" "ps_data m" d]
        by (intro exI [of _ d] exI [of _ m]) (auto simp: fun_eq_iff)
      ultimately show thesis
        using ok True by blast
    next
      case r: False
      then have "r = - 1"
        using wl_map_insert_at_result [of "en_insert env" False i "Some ob" "ps_data m"] rd by auto
      then have "store_object env k i ob s = Ret (False, s)"
        using m look True rd by (simp add: store_object_def session_of_def)
      moreover have "\<not> (known (data_map k s) i \<and> map_index i \<le> WL_MAP_MAX_OBJECTS)"
        using wl_map_insert_at_known [of "ps_data m" i "en_insert env" False "Some ob"] rd r m by (auto simp: data_map_def)
      ultimately show thesis
        using full True by blast
    qed
  qed
qed

lemma remove_object_ok:
  assumes inv: "cinv lk lf n e q s" and ob: "objects s k i = Some ob"
  obtains s' where "remove_object k i s = Ret s'" "objects s' = (objects s)(k := (objects s k)(i := None))"
    "ca_heap s' = ca_heap s" "ca_queue s' = ca_queue s" "dom (ca_sessions s') = dom (ca_sessions s)"
    "\<And>k m. ca_sessions s' k = Some m \<Longrightarrow> sess_ok m"
    "\<And>k. map_option ps_types (ca_sessions s' k) = map_option ps_types (ca_sessions s k)"
    "known (data_map k s') = known (data_map k s)"
proof -
  obtain m where m: "ca_sessions s k = Some m" "wl_map_lookup (ps_data m) i = Some ob"
    using objects_session [OF ob] by blast
  have ok: "sess_ok m"
    by (rule cinvD(5) [OF inv m(1)])
  then have "wm_side (ps_data m) = WL_MAP_CLIENT_SIDE"
    by (simp add: sess_ok_def data_ok_def)
  from wl_map_remove_lookup [OF wl_map_lookup_known [OF m(2)] tabs_okD(3) [OF cinvD(3) [OF inv] ob] this]
  obtain d where d: "wl_map_remove i (ps_data m) = Ret d" "wl_map_lookup d = (wl_map_lookup (ps_data m))(i := None)"
    "known d = known (ps_data m)" .
  have ok': "sess_ok (m\<lparr>ps_data := d\<rparr>)"
    using ok data_ok_remove [OF d(1)] d(2) by (auto simp: sess_ok_def split: if_splits)
  let ?s = "set_data k d s"
  have "remove_object k i s = Ret ?s"
    using m(1) d(1) by (simp add: remove_object_def session_of_def)
  moreover have "objects ?s = (objects s)(k := (objects s k)(i := None))"
    using objects_set_data [OF m(1)] d(2) session_objects [OF m(1)] by (auto simp: fun_eq_iff)
  moreover have "sess_ok m'" if "ca_sessions ?s k' = Some m'" for k' m'
    using that cinvD(5) [OF inv, of k' m'] m(1) ok' by (auto simp: set_data_def split: if_splits)
  moreover have "map_option ps_types (ca_sessions ?s k') = map_option ps_types (ca_sessions s k')" for k'
    by (cases "ca_sessions s k'") (auto simp: set_data_def)
  moreover have "known (data_map k ?s) = known (data_map k s)"
    using m(1) d(3) by (simp add: data_map_def set_data_def)
  ultimately show thesis
    using that [of ?s] by simp
qed

section \<open>New structs\<close>

lemma hsum_zero: "(\<And>a x. m a = Some x \<Longrightarrow> g x = 0) \<Longrightarrow> hsum g m = 0"
  unfolding hsum_def by (rule sum.neutral) auto

lemma pool_refs_fresh:
  assumes "hinv lk lf fs h" "ch_pools h a = None"
  shows "pool_refs h a = 0"
  unfolding pool_refs_def
proof (rule hsum_zero)
  show "of_bool (map_option sb_pool (wb_shm_buf b) = Some a) = (0 :: nat)" if "ch_bufs h x = Some b" for x b
    using hinvD(4) [OF assms(1) that] assms(2) by (auto simp: buf_ok_def)
qed

lemma surf_refs_fresh:
  assumes "hinv lk lf fs h" "ch_bufs h a = None"
  shows "surf_refs h a = 0"
  unfolding surf_refs_def
proof (rule hsum_zero)
  show "of_bool (su_buf su = Some a) = (0 :: nat)" if "ch_surfs h x = Some su" for x su
    using hinvD(5) [OF assms(1) that] assms(2) by (auto simp: surf_ok_def)
qed

lemma frame_refs_fresh: "hinv lk lf fs h \<Longrightarrow> ch_bufs h a = None \<Longrightarrow> frame_refs fs a = 0"
  using hinvD(2) [of lk lf fs h] by (auto simp: frames_ok_def frame_refs_def count_eq_zero_iff)

lemma fresh_address:
  assumes "hinv lk lf fs h"
  shows "ch_pools h (ch_next h) = None" "ch_bufs h (ch_next h) = None" "ch_surfs h (ch_next h) = None" "ch_params h (ch_next h) = None"
  using hinvD(1) [OF assms] by (auto simp: store_ok_def)

lemma hinv_next: "hinv lk lf fs h \<Longrightarrow> hinv lk lf fs (h\<lparr>ch_next := Suc (ch_next h)\<rparr>)"
  by (auto simp: hinv_def heap_defs)

lemma hinv_new_pool:
  assumes inv: "hinv lk lf fs h" and "sp_id pool \<noteq> 0" "sp_dependents pool = 0" "lk (Pool_Obj (ch_next h)) = 0"
  shows "hinv lk lf fs (h\<lparr>ch_next := Suc (ch_next h), ch_pools := (ch_pools h)(ch_next h \<mapsto> pool),
    ch_mmaps := hmalloc (sp_p pool, sp_size pool) (ch_mmaps h)\<rparr>)" (is "hinv _ _ _ ?h")
  unfolding hinv_def
proof (intro conjI allI impI)
  note inv' = hinvD [OF inv] and new = fresh_address [OF inv]
  show "store_ok ?h" "frames_ok fs ?h"
    using inv'(1,2) by (auto simp: heap_defs)
  have "pool_refs ?h a = pool_refs h a" for a
    by (simp add: pool_refs_def)
  then show "pool_ok lk ?h a p" if "ch_pools ?h a = Some p" for a p
    using that inv'(3) [of a p] pool_refs_fresh [OF inv new(1)] assms(2-4) by (auto simp: pool_ok_def split: if_splits)
  show "buf_ok lk fs ?h a b" if "ch_bufs ?h a = Some b" for a b
    using that inv'(4) [of a b] by (auto simp: heap_defs)
  show "surf_ok ?h su" if "ch_surfs ?h a = Some su" for a su
    using that inv'(5) [of a su] by (simp add: heap_defs)
  show "ch_mmaps ?h = hsum (\<lambda>p. {#(sp_p p, sp_size p)#}) (ch_pools ?h)"
    using inv'(7) hinv_finite(1) [OF inv] new by (simp add: hmalloc_def)
qed (use hinvD(6,8) [OF inv] in auto)

lemma hinv_new_surf:
  assumes inv: "hinv lk lf fs h"
  shows "hinv lk lf fs (h\<lparr>ch_next := Suc (ch_next h),
    ch_surfs := (ch_surfs h)(ch_next h \<mapsto> \<lparr>su_id = i, su_buf = None, su_dependents = 0\<rparr>)\<rparr>)" (is "hinv _ _ _ ?h")
  unfolding hinv_def
proof (intro conjI allI impI)
  note inv' = hinvD [OF inv] and new = fresh_address [OF inv]
  show "store_ok ?h" "frames_ok fs ?h"
    using inv'(1,2) by (auto simp: heap_defs)
  show "pool_ok lk ?h a p" if "ch_pools ?h a = Some p" for a p
    using that inv'(3) [of a p] by (auto simp: heap_defs)
  have "surf_refs ?h a = surf_refs h a" for a
    unfolding surf_refs_def using hinv_finite(3) [OF inv] new by simp
  then show "buf_ok lk fs ?h a b" if "ch_bufs ?h a = Some b" for a b
    using that inv'(4) [of a b] by (auto simp: buf_ok_def)
  show "surf_ok ?h su" if "ch_surfs ?h a = Some su" for a su
    using that inv'(5) [of a su] by (auto simp: heap_defs split: if_splits)
qed (use hinvD(6-8) [OF inv] in auto)

lemma plane_fds_empty: "plane_fds (replicate k no_plane) = {#}"
  by (induction k) (simp_all add: no_plane_def)

lemma hinv_new_params:
  assumes inv: "hinv lk lf fs h"
  shows "hinv lk lf fs (h\<lparr>ch_next := Suc (ch_next h), ch_params := (ch_params h)(ch_next h \<mapsto>
    \<lparr>bp_id = i, bp_num_planes = 0, bp_planes = replicate 4 no_plane, bp_modifier = 0\<rparr>)\<rparr>)" (is "hinv _ _ _ ?h")
  unfolding hinv_def
proof (intro conjI allI impI)
  note inv' = hinvD [OF inv] and new = fresh_address [OF inv]
  show "store_ok ?h" "frames_ok fs ?h"
    using inv'(1,2) by (auto simp: heap_defs)
  show "pool_ok lk ?h a p" if "ch_pools ?h a = Some p" for a p
    using that inv'(3) [of a p] by (auto simp: heap_defs)
  show "buf_ok lk fs ?h a b" if "ch_bufs ?h a = Some b" for a b
    using that inv'(4) [of a b] by (auto simp: heap_defs)
  show "surf_ok ?h su" if "ch_surfs ?h a = Some su" for a su
    using that inv'(5) [of a su] by (simp add: heap_defs)
  show "length (bp_planes p) = 4" if "ch_params ?h a = Some p" for a p
    using that inv'(6) [of a p] by (auto split: if_splits)
  show "ch_fds ?h = hsum (\<lambda>p. plane_fds (bp_planes p)) (ch_params ?h) + hsum buf_fds (ch_bufs ?h) + lf"
    using inv'(8) hinv_finite(4) [OF inv] new by (simp add: plane_fds_empty)
qed (use hinvD(7) [OF inv] in auto)

text \<open>A new buffer takes over a count of its pool and descriptors that belonged to no one.\<close>

lemma hinv_new_buf:
  assumes inv: "hinv (lost_pool buf lk) (buf_fds buf + lf) fs h" and lk: "lk (Buffer_Obj (ch_next h)) = 0"
    and buf: "wb_id buf \<noteq> 0" "wb_dependents buf = 0" "(wb_shm_buf buf = None) \<noteq> (wb_dma_buf buf = None)"
      "\<And>sb. wb_shm_buf buf = Some sb \<Longrightarrow> ch_pools h (sb_pool sb) \<noteq> None" "\<And>d. wb_dma_buf buf = Some d \<Longrightarrow> db_num_planes d \<le> 4"
  shows "hinv lk lf fs (h\<lparr>ch_next := Suc (ch_next h), ch_bufs := (ch_bufs h)(ch_next h \<mapsto> buf)\<rparr>)" (is "hinv _ _ _ ?h")
  unfolding hinv_def
proof (intro conjI allI impI)
  note inv' = hinvD [OF inv] and new = fresh_address [OF inv]
  show "store_ok ?h" "frames_ok fs ?h"
    using inv'(1,2) by (auto simp: heap_defs)
  have pool: "pool_refs ?h a = of_bool (map_option sb_pool (wb_shm_buf buf) = Some a) + pool_refs h a" for a
    unfolding pool_refs_def using hinv_finite(2) [OF inv] new by simp
  show "pool_ok lk ?h a p" if "ch_pools ?h a = Some p" for a p
  proof -
    have "pool_ok (lost_pool buf lk) h a p"
      using that inv'(3) by simp
    then show ?thesis
      unfolding pool_ok_def pool by (cases "wb_shm_buf buf") (auto simp: lost_pool_def split: if_splits)
  qed
  have lost: "lost_pool buf lk (Buffer_Obj a) = lk (Buffer_Obj a)" for a
    by (simp add: lost_pool_def split: option.split)
  show "buf_ok lk fs ?h a b" if "ch_bufs ?h a = Some b" for a b
  proof (cases "a = ch_next h")
    case True
    then show ?thesis
      using that buf lk surf_refs_fresh [OF inv new(2)] frame_refs_fresh [OF inv new(2)] by (simp add: buf_ok_def surf_refs_def)
  next
    case False
    then show ?thesis
      using that inv'(4) [of a b] lost by (simp add: buf_ok_def surf_refs_def)
  qed
  show "surf_ok ?h su" if "ch_surfs ?h a = Some su" for a su
    using that inv'(5) [of a su] by (auto simp: heap_defs)
  show "ch_fds ?h = hsum (\<lambda>p. plane_fds (bp_planes p)) (ch_params ?h) + hsum buf_fds (ch_bufs ?h) + lf"
    using inv'(8) hinv_finite(2) [OF inv] new by simp
qed (use hinvD(6,7) [OF inv] in auto)

end
