(* ===== verification/Capture_Handlers.thy ===== *)
theory Capture_Handlers
  imports Capture_Inv
begin

text \<open>
  Every message handler of the capture module keeps the invariant of \<open>Capture_Inv\<close>, whatever the
  message and the environment: it returns, or it stops on an assertion or on a message that is not of
  its interface; it never uses or frees a struct that has been freed.
\<close>

section \<open>Results of handlers\<close>

text \<open>The faults a message can provoke by not being what the protocol says.\<close>

definition benign :: "fault \<Rightarrow> bool" where
  "benign f \<longleftrightarrow> f \<in> {Assert_Failed, Null_Deref, Out_Of_Bounds, Indeterminate, Bad_Cast}"

definition handled ::
    "((obj \<Rightarrow> nat) \<Rightarrow> int heap \<Rightarrow> bool) \<Rightarrow> nat \<Rightarrow> nat \<Rightarrow> (proxy_action \<times> capture) outcome \<Rightarrow> bool" where
  "handled Q n nx r \<longleftrightarrow>
     (case r of
        Ret (act, s) \<Rightarrow> \<exists>lk lf e q. cinv lk lf n e q s \<and> Q lk lf \<and> ch_next (ca_heap s) \<le> nx
      | Fault f \<Rightarrow> benign f
      | Block \<Rightarrow> False)"

lemma handled_Ret: "cinv lk lf n e q s \<Longrightarrow> Q lk lf \<Longrightarrow> ch_next (ca_heap s) \<le> nx \<Longrightarrow> handled Q n nx (Ret (act, s))"
  by (auto simp: handled_def)

lemma handled_Fault [simp]: "handled Q n nx (Fault f) \<longleftrightarrow> benign f"
  by (simp add: handled_def)

lemma benign_simps [simp]:
  "benign Assert_Failed" "benign Null_Deref" "benign Out_Of_Bounds" "benign Indeterminate" "benign Bad_Cast"
  by (simp_all add: benign_def)

lemma handled_args: "(n' \<le> length (ms_args msg) \<Longrightarrow> handled Q n nx (f (ms_args msg))) \<Longrightarrow> handled Q n nx (bindo (closure_args n' msg) f)"
  by (simp add: closure_args_def)

lemma handled_session: "(\<And>m. ca_sessions s k = Some m \<Longrightarrow> handled Q n nx (f m)) \<Longrightarrow> handled Q n nx (bindo (session_of k s) f)"
  by (cases "ca_sessions s k") (simp_all add: session_of_def)

lemma handled_assert: "(b \<Longrightarrow> handled Q n nx (f ())) \<Longrightarrow> handled Q n nx (bindo (asserto b) f)"
  by (cases b) simp_all

lemma handled_nonnull: "(\<And>a. p = Some a \<Longrightarrow> handled Q n nx (f a)) \<Longrightarrow> handled Q n nx (bindo (nonnull p) f)"
  by (cases p) (simp_all add: nonnull_def)

lemma handled_derefo: "(\<And>a. p = Some a \<Longrightarrow> handled Q n nx (f a)) \<Longrightarrow> handled Q n nx (bindo (derefo p) f)"
  by (cases p) simp_all

lemma handled_cast:
  "(p = None \<Longrightarrow> handled Q n nx (f None)) \<Longrightarrow> (\<And>a. p = Some (Pool_Obj a) \<Longrightarrow> handled Q n nx (f (Some a))) \<Longrightarrow>
    handled Q n nx (bindo (as_pool p) f)"
  "(p = None \<Longrightarrow> handled Q n nx (f None)) \<Longrightarrow> (\<And>a. p = Some (Buffer_Obj a) \<Longrightarrow> handled Q n nx (f (Some a))) \<Longrightarrow>
    handled Q n nx (bindo (as_buffer p) f)"
  "(p = None \<Longrightarrow> handled Q n nx (f None)) \<Longrightarrow> (\<And>a. p = Some (Surface_Obj a) \<Longrightarrow> handled Q n nx (f (Some a))) \<Longrightarrow>
    handled Q n nx (bindo (as_surface p) f)"
  "(p = None \<Longrightarrow> handled Q n nx (f None)) \<Longrightarrow> (\<And>a. p = Some (Params_Obj a) \<Longrightarrow> handled Q n nx (f (Some a))) \<Longrightarrow>
    handled Q n nx (bindo (as_params p) f)"
  by (auto simp: as_pool_def as_buffer_def as_surface_def as_params_def split: option.split obj.split)

lemmas handled_intros = handled_args handled_session handled_assert handled_nonnull handled_derefo handled_cast

section \<open>Creating objects\<close>

lemma cinv_next: "cinv lk lf n e q s \<Longrightarrow> cinv lk lf n e q (s\<lparr>ca_heap := (ca_heap s)\<lparr>ch_next := Suc (ch_next (ca_heap s))\<rparr>\<rparr>)"
proof -
  assume inv: "cinv lk lf n e q s"
  have "view ((ca_heap s)\<lparr>ch_next := Suc (ch_next (ca_heap s))\<rparr>) = view (ca_heap s)"
    by (rule view_eqI) simp_all
  moreover have "attached ((ca_heap s)\<lparr>ch_next := Suc (ch_next (ca_heap s))\<rparr>) = attached (ca_heap s)"
    by (simp add: attached_def fun_eq_iff)
  moreover have "lk (Pool_Obj a) \<le> Suc (ch_next (ca_heap s))" for a
    using cinvD(7) [OF inv, of a] by simp
  ultimately show ?thesis
    unfolding cinv_def using cinvD [OF inv] hinv_next [OF cinvD(1) [OF inv]] by simp
qed

text \<open>Number \<open>i\<close> of session \<open>k\<close>, which has been registered with its type, becomes the struct \<open>ob\<close> of the new store \<open>h\<close>.\<close>

definition typed_at :: "capture \<Rightarrow> nat \<Rightarrow> u32 \<Rightarrow> string \<Rightarrow> bool" where
  "typed_at s k i nm \<longleftrightarrow> (\<forall>m. ca_sessions s k = Some m \<longrightarrow> has_type (ps_types m) i nm)"

lemma cinv_store:
  assumes inv: "cinv lk lf n e q s" and ty: "typed_at s k i (obj_interface ob)" and st: "stored k i ob (s\<lparr>ca_heap := h\<rparr>) s'" and free: "objects s k i = None"
    and h: "hinv lk' lf' (e @ q) h" "view h = (view (ca_heap s))(ob \<mapsto> i)" "attached h = attached (ca_heap s)"
      "ch_conns h = ch_conns (ca_heap s)" "ch_next (ca_heap s) \<le> ch_next h"
    and new: "view (ca_heap s) ob = None" "\<And>a b. ob = Surface_Obj a \<Longrightarrow> \<not> attached (ca_heap s) a b"
      "\<And>b. ob = Buffer_Obj b \<Longrightarrow> ch_bufs (ca_heap s) b = None" and i: "0 < i" "i < WL_SERVER_ID_START"
    and lk': "lk' = lk"
    and dom: "\<And>a. ch_surfs h a \<noteq> None \<Longrightarrow> ch_surfs (ca_heap s) a \<noteq> None \<or> ob = Surface_Obj a"
      "\<And>a. ch_params h a \<noteq> None \<Longrightarrow> ch_params (ca_heap s) a \<noteq> None \<or> ob = Params_Obj a"
  shows "cinv lk lf' n e q s'"
proof -
  note st' = storedD [OF st]
  note hi = cinvD(1) [OF inv]
  have noatt: "\<not> attached (ca_heap s) a b" if "ob = Buffer_Obj b" for a b
    using new(3) [OF that] hinvD(5) [OF hi, of a] by (auto simp: attached_def surf_ok_def)
  have nofr: "ob \<noteq> Buffer_Obj (vf_buf f)" if "f \<in> set (e @ q)" for f
    using that new(3) [of "vf_buf f"] hinvD(2) [OF hi] unfolding frames_ok_def by blast
  have "tabs_ok ((objects s)(k := (objects s k)(i \<mapsto> ob))) ((view (ca_heap s))(ob \<mapsto> i)) (attached (ca_heap s)) (e @ q)"
    by (rule tabs_ok_insert [OF cinvD(3) [OF inv] free new(1) i new(2)]) (use noatt nofr in blast)+
  moreover have "sess_ok m" if "ca_sessions s' k' = Some m" for k' m
    by (rule stored_sess_ok [OF st _ _ that]) (use cinvD(5) [OF inv] ty in \<open>auto simp: typed_at_def\<close>)
  moreover have "view h (Surface_Obj a) \<noteq> None" if "ch_surfs h a \<noteq> None" for a
    using dom(1) [OF that] cinvD(8) [OF inv, of a] h(2) by auto
  moreover have "view h (Params_Obj a) \<noteq> None" if "ch_params h a \<noteq> None" for a
    using dom(2) [OF that] cinvD(9) [OF inv, of a] h(2) by auto
  moreover have "lk (Pool_Obj a) \<le> ch_next h" for a
    using cinvD(7) [OF inv, of a] h(5) by simp
  ultimately show ?thesis
    unfolding cinv_def using cinvD(2,4,6,10) [OF inv] st' h lk' by simp
qed

lemma view_new:
  "sp_id p \<noteq> 0 \<Longrightarrow> view (h\<lparr>ch_next := x, ch_pools := (ch_pools h)(a \<mapsto> p), ch_mmaps := y\<rparr>) = (view h)(Pool_Obj a \<mapsto> sp_id p)"
  "su_id su \<noteq> 0 \<Longrightarrow> view (h\<lparr>ch_next := x, ch_surfs := (ch_surfs h)(a \<mapsto> su)\<rparr>) = (view h)(Surface_Obj a \<mapsto> su_id su)"
  "bp_id bp \<noteq> 0 \<Longrightarrow> view (h\<lparr>ch_next := x, ch_params := (ch_params h)(a \<mapsto> bp)\<rparr>) = (view h)(Params_Obj a \<mapsto> bp_id bp)"
  "wb_id b \<noteq> 0 \<Longrightarrow> view (h\<lparr>ch_next := x, ch_bufs := (ch_bufs h)(a \<mapsto> b)\<rparr>) = (view h)(Buffer_Obj a \<mapsto> wb_id b)"
proof -
  have "view h1 = f" if "\<And>ob. view h1 ob = f ob" for h1 f
    using that by (rule ext)
  note eq = this
  show "sp_id p \<noteq> 0 \<Longrightarrow> view (h\<lparr>ch_next := x, ch_pools := (ch_pools h)(a \<mapsto> p), ch_mmaps := y\<rparr>) = (view h)(Pool_Obj a \<mapsto> sp_id p)"
    by (rule eq, case_tac ob) auto
  show "su_id su \<noteq> 0 \<Longrightarrow> view (h\<lparr>ch_next := x, ch_surfs := (ch_surfs h)(a \<mapsto> su)\<rparr>) = (view h)(Surface_Obj a \<mapsto> su_id su)"
    by (rule eq, case_tac ob) auto
  show "bp_id bp \<noteq> 0 \<Longrightarrow> view (h\<lparr>ch_next := x, ch_params := (ch_params h)(a \<mapsto> bp)\<rparr>) = (view h)(Params_Obj a \<mapsto> bp_id bp)"
    by (rule eq, case_tac ob) auto
  show "wb_id b \<noteq> 0 \<Longrightarrow> view (h\<lparr>ch_next := x, ch_bufs := (ch_bufs h)(a \<mapsto> b)\<rparr>) = (view h)(Buffer_Obj a \<mapsto> wb_id b)"
    by (rule eq, case_tac ob) auto
qed

text \<open>A new number: as \<^verbatim>\<open>wl_connection_demarshal\<close> hands it over, not 0, and from the range of clients.\<close>

definition client_id :: "u32 \<Rightarrow> bool" where
  "client_id i \<longleftrightarrow> 0 < i \<and> i < WL_SERVER_ID_START"

text \<open>The common end of the creating handlers; \<open>cleanup\<close> runs when the map does not take the number.\<close>

lemma create_ok:
  assumes inv: "cinv lk lf n e q s" and i: "client_id i" and ty: "typed_at s k i (obj_interface ob)"
    and h: "hinv lk lf' (e @ q) h" "view h = (view (ca_heap s))(ob \<mapsto> i)" "attached h = attached (ca_heap s)"
      "ch_conns h = ch_conns (ca_heap s)" "ch_next (ca_heap s) \<le> ch_next h" "ch_next h \<le> nx"
    and new: "view (ca_heap s) ob = None" "\<And>a b. ob = Surface_Obj a \<Longrightarrow> \<not> attached (ca_heap s) a b"
      "\<And>b. ob = Buffer_Obj b \<Longrightarrow> ch_bufs (ca_heap s) b = None"
    and dom: "\<And>a. ch_surfs h a \<noteq> None \<Longrightarrow> ch_surfs (ca_heap s) a \<noteq> None \<or> ob = Surface_Obj a"
      "\<And>a. ch_params h a \<noteq> None \<Longrightarrow> ch_params (ca_heap s) a \<noteq> None \<or> ob = Params_Obj a"
    and Q: "Q lk lf'"
    and cleanup: "\<not> (known (data_map k s) i \<and> map_index i \<le> WL_MAP_MAX_OBJECTS) \<Longrightarrow> handled Q n nx (cleanup (s\<lparr>ca_heap := h\<rparr>))"
  shows "handled Q n nx (bindo (store_object env k i ob (s\<lparr>ca_heap := h\<rparr>)) (\<lambda>(ok, s').
    if ok then Ret (PROXY_ACTION_FWD, s') else cleanup s'))"
proof (cases "ca_sessions s k")
  case None
  then show ?thesis
    by (simp add: store_object_def session_of_def)
next
  case (Some m)
  then have "ca_sessions (s\<lparr>ca_heap := h\<rparr>) k \<noteq> None"
    by simp
  then show ?thesis
  proof (cases rule: store_object_cases [where i = i and env = env and ob = ob])
    case full
    then show ?thesis
      using cleanup by (simp add: data_map_def)
  next
    case (ok s')
    have "cinv lk lf' n e q s'"
      by (rule cinv_store [OF inv ty ok(3) _ h(1-5) new]) (use dom ok(1) i in \<open>auto simp: client_id_def\<close>)
    then show ?thesis
      using ok(2) storedD(2) [OF ok(3)] h(6) Q handled_Ret [of lk lf' n e q s' Q nx PROXY_ACTION_FWD] by simp
  qed simp
qed

abbreviation (input) lossless :: "(obj \<Rightarrow> nat) \<Rightarrow> int heap \<Rightarrow> (obj \<Rightarrow> nat) \<Rightarrow> int heap \<Rightarrow> bool" where
  "lossless lk lf lk' lf' \<equiv> lk' = lk \<and> lf' = lf"

lemma fresh_attached:
  assumes "hinv lk lf fs h"
  shows "\<not> attached h (ch_next h) b"
  using fresh_address [OF assms] by (simp add: attached_def)

lemma wl_compositor_create_surface_ok:
  assumes inv: "cinv lk lf n e q s" and i: "client_id (ms_args msg ! 0)" and ty: "typed_at s k (ms_args msg ! 0) ''wl_surface''"
  shows "handled (lossless lk lf) n (Suc (ch_next (ca_heap s))) (wl_compositor_create_surface env k msg s)"
proof (cases "en_malloc1 env")
  case False
  then show ?thesis
    using handled_Ret [OF inv] by (simp add: wl_compositor_create_surface_def)
next
  case True
  let ?h = "ca_heap s" and ?a = "ch_next (ca_heap s)" and ?i = "ms_args msg ! 0"
  let ?su = "\<lparr>su_id = ?i, su_buf = None, su_dependents = 0\<rparr>"
  let ?h1 = "?h\<lparr>ch_next := Suc ?a, ch_surfs := (ch_surfs ?h)(?a \<mapsto> ?su)\<rparr>"
  note hi = cinvD(1) [OF inv] note new = fresh_address [OF hi]
  have vw: "view ?h1 = (view ?h)(Surface_Obj ?a \<mapsto> ?i)"
    using view_new(2) [where su = ?su and h = ?h and x = "Suc ?a" and a = ?a] i by (auto simp: client_id_def)
  have att: "attached ?h1 = attached ?h"
    using new by (auto simp: attached_def fun_eq_iff)
  have undo: "(ch_surfs ?h)(?a := None) = ch_surfs ?h"
    using new by auto
  have "handled (lossless lk lf) n (Suc ?a)
      (bindo (store_object env k ?i (Surface_Obj ?a) (s\<lparr>ca_heap := ?h1\<rparr>)) (\<lambda>(ok, s').
        if ok then Ret (PROXY_ACTION_FWD, s')
        else bindo (free_at (ch_surfs (ca_heap s')) ?a) (\<lambda>surfs.
             Ret (PROXY_ACTION_ERR, s'\<lparr>ca_heap := (ca_heap s')\<lparr>ch_surfs := surfs\<rparr>\<rparr>))))"
    by (rule create_ok [OF inv i _ hinv_new_surf [OF hi] vw att])
      (use ty new fresh_attached [OF hi] handled_Ret [OF cinv_next [OF inv], of "lossless lk lf"]
        in \<open>auto simp: free_at_def undo split: if_splits\<close>)
  then show ?thesis
    using True unfolding wl_compositor_create_surface_def by (simp add: closure_args_def Let_def)
qed

lemma zwp_linux_dmabuf_create_params_ok:
  assumes inv: "cinv lk lf n e q s" and i: "client_id (ms_args msg ! 0)" and ty: "typed_at s k (ms_args msg ! 0) ''zwp_linux_buffer_params_v1''"
  shows "handled (lossless lk lf) n (Suc (ch_next (ca_heap s))) (zwp_linux_dmabuf_create_params env k msg s)"
proof (cases "en_malloc1 env")
  case False
  then show ?thesis
    using handled_Ret [OF inv] by (simp add: zwp_linux_dmabuf_create_params_def)
next
  case True
  let ?h = "ca_heap s" and ?a = "ch_next (ca_heap s)" and ?i = "ms_args msg ! 0"
  let ?bp = "\<lparr>bp_id = ?i, bp_num_planes = 0, bp_planes = replicate 4 no_plane, bp_modifier = 0\<rparr>"
  let ?h1 = "?h\<lparr>ch_next := Suc ?a, ch_params := (ch_params ?h)(?a \<mapsto> ?bp)\<rparr>"
  note hi = cinvD(1) [OF inv] note new = fresh_address [OF hi]
  have vw: "view ?h1 = (view ?h)(Params_Obj ?a \<mapsto> ?i)"
    using view_new(3) [where bp = ?bp and h = ?h and x = "Suc ?a" and a = ?a] i by (auto simp: client_id_def)
  have att: "attached ?h1 = attached ?h"
    by (simp add: attached_def fun_eq_iff)
  have undo: "(ch_params ?h)(?a := None) = ch_params ?h"
    using new by auto
  have "handled (lossless lk lf) n (Suc ?a)
      (bindo (store_object env k ?i (Params_Obj ?a) (s\<lparr>ca_heap := ?h1\<rparr>)) (\<lambda>(ok, s').
        if ok then Ret (PROXY_ACTION_FWD, s')
        else bindo (free_at (ch_params (ca_heap s')) ?a) (\<lambda>params.
             Ret (PROXY_ACTION_ERR, s'\<lparr>ca_heap := (ca_heap s')\<lparr>ch_params := params\<rparr>\<rparr>))))"
    by (rule create_ok [OF inv i _ hinv_new_params [OF hi] vw att])
      (use ty new handled_Ret [OF cinv_next [OF inv], of "lossless lk lf"] in \<open>auto simp: free_at_def undo split: if_splits\<close>)
  then show ?thesis
    using True unfolding zwp_linux_dmabuf_create_params_def by (simp add: closure_args_def Let_def)
qed

lemma wl_shm_create_pool_ok:
  assumes inv: "cinv lk lf n e q s" and i: "client_id (ms_args msg ! 0)" and ty: "typed_at s k (ms_args msg ! 0) ''wl_shm_pool''"
  shows "handled (lossless lk lf) n (Suc (ch_next (ca_heap s))) (wl_shm_create_pool env k msg s)"
proof (cases "en_malloc1 env \<and> en_mmap env \<noteq> None")
  case False
  then consider "\<not> en_malloc1 env" | "en_malloc1 env" "en_mmap env = None"
    by blast
  then show ?thesis
    using handled_Ret [OF inv, of "lossless lk lf"] handled_Ret [OF cinv_next [OF inv], of "lossless lk lf"]
    by cases (auto simp: wl_shm_create_pool_def closure_args_def Let_def)
next
  case True
  then obtain p where p: "en_mmap env = Some p"
    by blast
  let ?h = "ca_heap s" and ?a = "ch_next (ca_heap s)" and ?i = "ms_args msg ! 0" and ?size = "ms_args msg ! 2"
  let ?pool = "\<lparr>sp_id = ?i, sp_p = p, sp_size = ?size, sp_dependents = 0\<rparr>"
  let ?h1 = "?h\<lparr>ch_next := Suc ?a, ch_pools := (ch_pools ?h)(?a \<mapsto> ?pool), ch_mmaps := hmalloc (p, ?size) (ch_mmaps ?h)\<rparr>"
  note hi = cinvD(1) [OF inv] note new = fresh_address [OF hi]
  have vw: "view ?h1 = (view ?h)(Pool_Obj ?a \<mapsto> ?i)"
    using view_new(1) [where p = ?pool and h = ?h and x = "Suc ?a" and a = ?a] i by (auto simp: client_id_def)
  have att: "attached ?h1 = attached ?h"
    by (simp add: attached_def fun_eq_iff)
  have undo: "(ch_pools ?h)(?a := None) = ch_pools ?h"
    using new by auto
  have inv1: "hinv lk lf (e @ q) ?h1"
    using hinv_new_pool [OF hi, of ?pool] cinvD(10) [OF inv, of ?a] i by (auto simp: client_id_def)
  have "handled (lossless lk lf) n (Suc ?a)
      (bindo (store_object env k ?i (Pool_Obj ?a) (s\<lparr>ca_heap := ?h1\<rparr>)) (\<lambda>(ok, s').
        if ok then Ret (PROXY_ACTION_FWD, s')
        else bindo (munmap p ?size (ca_heap s')) (\<lambda>h.
             bindo (free_at (ch_pools h) ?a) (\<lambda>pools.
             Ret (PROXY_ACTION_ERR, s'\<lparr>ca_heap := h\<lparr>ch_pools := pools\<rparr>\<rparr>)))))"
    by (rule create_ok [OF inv i _ inv1 vw att])
      (use ty new handled_Ret [OF cinv_next [OF inv], of "lossless lk lf"]
        in \<open>auto simp: free_at_def munmap_def hmalloc_def undo split: if_splits\<close>)
  then show ?thesis
    using True p unfolding wl_shm_create_pool_def by (simp add: closure_args_def Let_def)
qed

text \<open>A buffer whose number the map does not take leaves its pool counted once too often.\<close>

lemma unat_inc:
  assumes "unat (d :: u32) + 1 < 4294967296"
  shows "unat (d + 1) = unat d + 1"
  using assms unat_plus_small [of d 1] by simp

lemma pool_count_bound:
  assumes inv: "cinv lk lf n e q s" and pool: "ch_pools (ca_heap s) p = Some pool" and room: "ch_next (ca_heap s) < 2147483648"
  shows "unat (sp_dependents pool + 1) = unat (sp_dependents pool) + 1"
proof -
  note hi = cinvD(1) [OF inv]
  have "pool_refs (ca_heap s) p \<le> ch_next (ca_heap s)"
    unfolding pool_refs_def
    by (rule hsum_le_card) (use hinvD(1) [OF hi] hinv_finite [OF hi] in \<open>auto simp: store_ok_def\<close>)
  then have "unat (sp_dependents pool) \<le> 2 * ch_next (ca_heap s)"
    using hinvD(3) [OF hi pool] cinvD(7) [OF inv, of p] by (simp add: pool_ok_def)
  then show ?thesis
    using room by (intro unat_inc) simp
qed

lemma view_pool_count:
  "ch_pools h p = Some pool \<Longrightarrow> view (h\<lparr>ch_pools := (ch_pools h)(p \<mapsto> pool\<lparr>sp_dependents := d\<rparr>)\<rparr>) = view h"
  by (rule view_pool_update) simp_all

lemma hinv_lost_pool:
  assumes inv: "cinv lk lf n e q s" and pool: "ch_pools (ca_heap s) p = Some pool" and room: "ch_next (ca_heap s) < 2147483648"
  shows "hinv (lk(Pool_Obj p := Suc (lk (Pool_Obj p)))) lf (e @ q)
    ((ca_heap s)\<lparr>ch_pools := (ch_pools (ca_heap s))(p \<mapsto> pool\<lparr>sp_dependents := sp_dependents pool + 1\<rparr>)\<rparr>)"
proof (rule hinv_set_pool [OF cinvD(1) [OF inv] pool])
  note b = pool_count_bound [OF inv pool room]
  show "unat (sp_dependents (pool\<lparr>sp_dependents := sp_dependents pool + 1\<rparr>)) =
      pool_refs (ca_heap s) p + Suc (lk (Pool_Obj p))"
    using hinvD(3) [OF cinvD(1) [OF inv] pool] b by (simp add: pool_ok_def)
  show "sp_id (pool\<lparr>sp_dependents := sp_dependents pool + 1\<rparr>) = 0 \<longrightarrow>
      sp_dependents (pool\<lparr>sp_dependents := sp_dependents pool + 1\<rparr>) \<noteq> 0"
    using b by auto
qed simp_all

lemma cinv_lost_pool:
  assumes inv: "cinv lk lf n e q s" and pool: "ch_pools (ca_heap s) p = Some pool" and room: "ch_next (ca_heap s) < 2147483648"
  shows "cinv (lk(Pool_Obj p := Suc (lk (Pool_Obj p)))) lf n e q
    (s\<lparr>ca_heap := (ca_heap s)\<lparr>ch_next := Suc (ch_next (ca_heap s)),
       ch_pools := (ch_pools (ca_heap s))(p \<mapsto> pool\<lparr>sp_dependents := sp_dependents pool + 1\<rparr>)\<rparr>\<rparr>)"
proof -
  let ?h = "ca_heap s" and ?pools = "(ch_pools (ca_heap s))(p \<mapsto> pool\<lparr>sp_dependents := sp_dependents pool + 1\<rparr>)"
  let ?h1 = "?h\<lparr>ch_next := Suc (ch_next ?h), ch_pools := ?pools\<rparr>"
  have eq: "?h1 = (?h\<lparr>ch_pools := ?pools\<rparr>)\<lparr>ch_next := Suc (ch_next (?h\<lparr>ch_pools := ?pools\<rparr>))\<rparr>"
    by simp
  have h1: "hinv (lk(Pool_Obj p := Suc (lk (Pool_Obj p)))) lf (e @ q) ?h1"
    unfolding eq by (rule hinv_next [OF hinv_lost_pool [OF inv pool room]])
  have vw: "view ?h1 = view ?h"
    by (rule view_eqI) (use pool in auto)
  have att: "attached ?h1 = attached ?h"
    by (simp add: attached_def fun_eq_iff)
  have p: "p < ch_next ?h"
    using hinvD(1) [OF cinvD(1) [OF inv]] pool by (auto simp: store_ok_def)
  have lk: "(lk(Pool_Obj p := Suc (lk (Pool_Obj p)))) (Pool_Obj a) \<le> Suc (ch_next ?h)" for a
    using cinvD(7) [OF inv, of a] by auto
  show ?thesis
    unfolding cinv_def using cinvD [OF inv] h1 vw att lk p by simp
qed

lemma wl_shm_pool_create_buffer_ok:
  assumes inv: "cinv lk lf n e q s" and i: "client_id (ms_args msg ! 0)" and ty: "typed_at s k (ms_args msg ! 0) ''wl_buffer''"
    and room: "ch_next (ca_heap s) < 2147483648"
  shows "handled (\<lambda>lk' lf'. lf' = lf \<and> (known (data_map k s) (ms_args msg ! 0) \<and> map_index (ms_args msg ! 0) \<le> WL_MAP_MAX_OBJECTS \<longrightarrow> lk' = lk)) n
    (Suc (ch_next (ca_heap s))) (wl_shm_pool_create_buffer env k msg s)" (is "handled ?Q n ?nx _")
proof (cases "en_malloc1 env \<and> en_malloc2 env")
  case False
  then show ?thesis
    using handled_Ret [OF inv, of ?Q] by (auto simp: wl_shm_pool_create_buffer_def)
next
  case True
  have goal: "handled ?Q n ?nx (bindo (store_object env k (ms_args msg ! 0) (Buffer_Obj (ch_next (ca_heap s)))
      (s\<lparr>ca_heap := (ca_heap s)\<lparr>ch_next := Suc (ch_next (ca_heap s)), ch_bufs := (ch_bufs (ca_heap s))(ch_next (ca_heap s) \<mapsto> buf),
        ch_pools := (ch_pools (ca_heap s))(p \<mapsto> pool\<lparr>sp_dependents := sp_dependents pool + 1\<rparr>)\<rparr>\<rparr>)) (\<lambda>(ok, s').
        if ok then Ret (PROXY_ACTION_FWD, s')
        else bindo (free_at (ch_bufs (ca_heap s')) (ch_next (ca_heap s))) (\<lambda>bufs.
             Ret (PROXY_ACTION_ERR, s'\<lparr>ca_heap := (ca_heap s')\<lparr>ch_bufs := bufs\<rparr>\<rparr>))))"
    if pool: "ch_pools (ca_heap s) p = Some pool" and buf: "wb_id buf = ms_args msg ! 0" "map_option sb_pool (wb_shm_buf buf) = Some p"
      "wb_dma_buf buf = None" "wb_dependents buf = 0" for p pool buf
  proof -
    let ?h = "ca_heap s" and ?a = "ch_next (ca_heap s)" and ?pools = "(ch_pools (ca_heap s))(p \<mapsto> pool\<lparr>sp_dependents := sp_dependents pool + 1\<rparr>)"
    let ?h1 = "?h\<lparr>ch_next := Suc ?a, ch_bufs := (ch_bufs ?h)(?a \<mapsto> buf), ch_pools := ?pools\<rparr>"
    note hi = cinvD(1) [OF inv] note new = fresh_address [OF hi]
    have eq: "?h1 = (?h\<lparr>ch_pools := ?pools\<rparr>)\<lparr>ch_next := Suc (ch_next (?h\<lparr>ch_pools := ?pools\<rparr>)),
        ch_bufs := (ch_bufs (?h\<lparr>ch_pools := ?pools\<rparr>))(ch_next (?h\<lparr>ch_pools := ?pools\<rparr>) \<mapsto> buf)\<rparr>"
      by simp
    have inv1: "hinv lk lf (e @ q) ?h1"
      unfolding eq
      by (rule hinv_new_buf) (use hinv_lost_pool [OF inv pool room] buf i cinvD(6) [OF inv]
          in \<open>auto simp: lost_pool_def buf_fds_def client_id_def\<close>)
    have vw: "view ?h1 = (view ?h)(Buffer_Obj ?a \<mapsto> ms_args msg ! 0)"
      unfolding eq using view_new(4) [where b = buf and h = "?h\<lparr>ch_pools := ?pools\<rparr>" and x = "Suc ?a" and a = ?a]
        view_pool_count [OF pool] buf(1) i by (auto simp: client_id_def)
    have att: "attached ?h1 = attached ?h"
      by (simp add: attached_def fun_eq_iff)
    have undo: "(ch_bufs ?h)(?a := None) = ch_bufs ?h"
      using new by auto
    show ?thesis
      by (rule create_ok [OF inv i _ inv1 vw att])
        (use ty new handled_Ret [OF cinv_lost_pool [OF inv pool room], of ?Q] in \<open>auto simp: free_at_def undo split: if_splits\<close>)
  qed
  have live: "\<exists>pool. ch_pools (ca_heap s) p = Some pool" if "ca_sessions s k = Some m" "wl_map_lookup (ps_data m) (ms_sender msg) = Some (Pool_Obj p)" for m p
    using tabs_okD(1) [OF cinvD(3) [OF inv], of k "ms_sender msg" "Pool_Obj p"] that by (auto simp: objects_def split: option.splits)
  show ?thesis
    unfolding wl_shm_pool_create_buffer_def using True
    apply (simp only: simp_thms if_False not_True_eq_False)
    apply (intro handled_intros)
     apply (simp add: nonnull_def)
    subgoal premises prems for m p pa
    proof -
      obtain pool where pool: "ch_pools (ca_heap s) pa = Some pool"
        using live prems by blast
      show ?thesis
        unfolding deref_def pool option.case bindo.simps Let_def
        by (intro handled_intros goal [OF pool]) simp_all
    qed
    done
qed

section \<open>Dma-buf parameters\<close>

lemma plane_fds_append: "plane_fds (ps @ qs) = plane_fds ps + plane_fds qs"
  by (simp add: plane_fds_def)

lemma plane_fds_update: "i < length ps \<Longrightarrow> plane_fds (ps[i := x]) + plane_fds [ps ! i] = plane_fds ps + plane_fds [x]"
proof -
  assume i: "i < length ps"
  have "plane_fds ps = plane_fds (take i ps @ ps ! i # drop (Suc i) ps)"
    using id_take_nth_drop [OF i] by simp
  then show ?thesis
    by (simp add: upd_conv_take_nth_drop [OF i] plane_fds_append)
qed

lemma hinv_set_params:
  assumes inv: "hinv lk lf fs h" and p: "ch_params h a = Some p" and p': "length (bp_planes p') = 4"
    and fds: "\<And>r. ch_fds h = plane_fds (bp_planes p) + r + lf \<Longrightarrow> fds = plane_fds (bp_planes p') + r + lf'"
  shows "hinv lk lf' fs (h\<lparr>ch_params := (ch_params h)(a \<mapsto> p'), ch_fds := fds\<rparr>)" (is "hinv _ _ _ ?h")
  unfolding hinv_def
proof (intro conjI allI impI)
  note inv' = hinvD [OF inv]
  have fin: "finite (dom (ch_params h))"
    by (rule hinv_finite [OF inv])
  show "store_ok ?h" "frames_ok fs ?h"
    using inv'(1,2) p by (auto simp: heap_defs)
  show "pool_ok lk ?h b q" if "ch_pools ?h b = Some q" for b q
    using that inv'(3) [of b q] by (auto simp: heap_defs)
  show "buf_ok lk fs ?h b q" if "ch_bufs ?h b = Some q" for b q
    using that inv'(4) [of b q] by (auto simp: heap_defs)
  show "surf_ok ?h su" if "ch_surfs ?h b = Some su" for b su
    using that inv'(5) [of b su] by (simp add: heap_defs)
  show "length (bp_planes q) = 4" if "ch_params ?h b = Some q" for b q
    using that inv'(6) [of b q] p' by (auto split: if_splits)
  let ?r = "hsum (\<lambda>p. plane_fds (bp_planes p)) ((ch_params h)(a := None)) + hsum buf_fds (ch_bufs h)"
  have "ch_fds h = plane_fds (bp_planes p) + ?r + lf"
    using inv'(8) hsum_remove [OF fin p, of "\<lambda>p. plane_fds (bp_planes p)"] by (simp add: ac_simps)
  from fds [OF this] show "ch_fds ?h = hsum (\<lambda>p. plane_fds (bp_planes p)) (ch_params ?h) + hsum buf_fds (ch_bufs ?h) + lf'"
    using hsum_update [OF fin p, of "\<lambda>p. plane_fds (bp_planes p)" p'] by (simp add: ac_simps)
qed (use hinvD(7) [OF inv] in auto)

lemma cinv_set_params:
  assumes inv: "cinv lk lf n e q s" and p: "ch_params (ca_heap s) a = Some p" "bp_id p' = bp_id p"
    and h: "hinv lk lf' (e @ q) ((ca_heap s)\<lparr>ch_params := (ch_params (ca_heap s))(a \<mapsto> p'), ch_fds := fds\<rparr>)"
  shows "cinv lk lf' n e q (s\<lparr>ca_heap := (ca_heap s)\<lparr>ch_params := (ch_params (ca_heap s))(a \<mapsto> p'), ch_fds := fds\<rparr>\<rparr>)"
proof -
  have "view ((ca_heap s)\<lparr>ch_params := (ch_params (ca_heap s))(a \<mapsto> p'), ch_fds := fds\<rparr>) = view (ca_heap s)"
    by (rule view_eqI) (use p in auto)
  moreover have "attached ((ca_heap s)\<lparr>ch_params := (ch_params (ca_heap s))(a \<mapsto> p'), ch_fds := fds\<rparr>) = attached (ca_heap s)"
    by (simp add: attached_def fun_eq_iff)
  moreover have "view (ca_heap s) (Params_Obj a) \<noteq> None"
    using cinvD(9) [OF inv, of a] p(1) by simp
  ultimately show ?thesis
    unfolding cinv_def using cinvD [OF inv] h by (auto simp: fun_upd_def)
qed

lemma object_live:
  assumes "cinv lk lf n e q s" "ca_sessions s k = Some m" "wl_map_lookup (ps_data m) i = Some ob"
  shows "view (ca_heap s) ob = Some i" "objects s k i = Some ob" "0 < i"
  using tabs_okD(1,2) [OF cinvD(3) [OF assms(1)], of k i ob] assms(2,3) by (auto simp: objects_def)

text \<open>A plane that already has a descriptor loses it.\<close>

definition plane_unset :: "nat \<Rightarrow> proxy_message \<Rightarrow> capture \<Rightarrow> bool" where
  "plane_unset k msg s \<longleftrightarrow>
     (\<forall>a p. objects s k (ms_sender msg) = Some (Params_Obj a) \<longrightarrow> ch_params (ca_heap s) a = Some p \<longrightarrow>
       pl_fd (bp_planes p ! unat (ms_args msg ! 1)) < 0)"

lemma zwp_linux_buffer_params_add_ok:
  assumes inv: "cinv lk lf n e q s"
  shows "handled (\<lambda>lk' lf'. lk' = lk \<and> (plane_unset k msg s \<longrightarrow> lf' = lf)) n (ch_next (ca_heap s)) (zwp_linux_buffer_params_add env k msg s)"
    (is "handled ?Q n ?nx _")
proof -
  let ?h = "ca_heap s" and ?args = "ms_args msg"
  have goal: "handled ?Q n ?nx (Ret (act, s\<lparr>ca_heap := ?h\<lparr>ch_params := (ch_params ?h)(a \<mapsto> p'), ch_fds := fds\<rparr>\<rparr>))"
    if p: "ch_params ?h a = Some p" "bp_id p' = bp_id p" and ob: "objects s k (ms_sender msg) = Some (Params_Obj a)"
      and i: "?args ! 1 < 4" and x: "bp_planes p' = (bp_planes p)[unat (?args ! 1) := x]" "fds = plane_fds [x] + ch_fds ?h" for a p p' x fds act
  proof -
    let ?old = "bp_planes p ! unat (?args ! 1)"
    have len: "length (bp_planes p) = 4"
      by (rule hinvD(6) [OF cinvD(1) [OF inv] p(1)])
    then have i': "unat (?args ! 1) < length (bp_planes p)"
      using i by (simp add: word_less_nat_alt)
    have "hinv lk (plane_fds [?old] + lf) (e @ q) (?h\<lparr>ch_params := (ch_params ?h)(a \<mapsto> p'), ch_fds := fds\<rparr>)"
    proof (rule hinv_set_params [OF cinvD(1) [OF inv] p(1)])
      show "length (bp_planes p') = 4"
        by (simp add: x len)
      show "fds = plane_fds (bp_planes p') + r + (plane_fds [?old] + lf)" if "ch_fds ?h = plane_fds (bp_planes p) + r + lf" for r
        using that plane_fds_update [OF i', of x] by (simp add: x ac_simps del: plane_fds_simps(2))
    qed
    from cinv_set_params [OF inv p this] show ?thesis
      by (rule handled_Ret) (use ob p(1) in \<open>auto simp: plane_unset_def\<close>)
  qed
  show ?thesis
    unfolding zwp_linux_buffer_params_add_def
    apply (intro handled_intros)
     apply simp
    subgoal premises prems for m a' a
    proof -
      have "view ?h (Params_Obj a) = Some (ms_sender msg)" and ob: "objects s k (ms_sender msg) = Some (Params_Obj a)"
        using object_live [OF inv] prems by blast+
      then obtain p where p: "ch_params ?h a = Some p"
        by (auto split: option.splits)
      have i: "?args ! 1 < 4"
        using prems by simp
      show ?thesis
      proof (cases "en_dup env < 0")
        case True
        then show ?thesis
          using goal [OF p _ ob i, where x = "(bp_planes p ! unat (?args ! 1))\<lparr>pl_fd := en_dup env\<rparr>" and fds = "ch_fds ?h"]
          by (simp add: deref_def p Let_def)
      next
        case False
        then show ?thesis
          using goal [OF p _ ob i, where x = "\<lparr>pl_fd = en_dup env, pl_offset = ?args ! 2, pl_stride = ?args ! 3\<rparr>"
              and fds = "hmalloc (en_dup env) (ch_fds ?h)"]
          by (simp add: deref_def p Let_def hmalloc_def)
      qed
    qed
    done
qed

text \<open>The descriptors beyond the number of planes are lost.\<close>

definition planes_dense :: "nat \<Rightarrow> proxy_message \<Rightarrow> capture \<Rightarrow> bool" where
  "planes_dense k msg s \<longleftrightarrow>
     (\<forall>a p. objects s k (ms_sender msg) = Some (Params_Obj a) \<longrightarrow> ch_params (ca_heap s) a = Some p \<longrightarrow>
       list_all (\<lambda>pl. pl_fd pl < 0) (drop (nat (bp_num_planes p)) (bp_planes p)))"

lemma plane_fds_unset: "list_all (\<lambda>pl. pl_fd pl < 0) ps \<Longrightarrow> plane_fds ps = {#}"
  by (induction ps) auto

lemma plane_fds_moved: "plane_fds (map (\<lambda>p. p\<lparr>pl_fd := - 1\<rparr>) ps) = {#}"
  by (induction ps) auto

lemma cinv_next_params:
  assumes inv: "cinv lk lf n e q s" and p: "ch_params (ca_heap s) a = Some p" "bp_id p' = bp_id p"
    and h: "hinv lk lf' (e @ q) ((ca_heap s)\<lparr>ch_params := (ch_params (ca_heap s))(a \<mapsto> p')\<rparr>)"
  shows "cinv lk lf' n e q (s\<lparr>ca_heap := (ca_heap s)\<lparr>ch_next := Suc (ch_next (ca_heap s)), ch_params := (ch_params (ca_heap s))(a \<mapsto> p')\<rparr>\<rparr>)"
proof -
  let ?h = "ca_heap s"
  have "hinv lk lf' (e @ q) (?h\<lparr>ch_params := (ch_params ?h)(a \<mapsto> p'), ch_fds := ch_fds ?h\<rparr>)"
    using h by simp
  from cinv_set_params [OF inv p this] have "cinv lk lf' n e q (s\<lparr>ca_heap := ?h\<lparr>ch_params := (ch_params ?h)(a \<mapsto> p')\<rparr>\<rparr>)"
    by simp
  note st = cinv_next [OF this]
  let ?s = "s\<lparr>ca_heap := ?h\<lparr>ch_params := (ch_params ?h)(a \<mapsto> p')\<rparr>\<rparr>"
  have eq: "s\<lparr>ca_heap := ?h\<lparr>ch_next := Suc (ch_next ?h), ch_params := (ch_params ?h)(a \<mapsto> p')\<rparr>\<rparr> =
      ?s\<lparr>ca_heap := (ca_heap ?s)\<lparr>ch_next := Suc (ch_next (ca_heap ?s))\<rparr>\<rparr>"
    by simp
  show ?thesis
    unfolding eq by (rule st)
qed

lemma zwp_linux_buffer_params_create_immed_ok:
  assumes inv: "cinv lk lf n e q s" and i: "client_id (ms_args msg ! 0)" and ty: "typed_at s k (ms_args msg ! 0) ''wl_buffer''"
  shows "handled (\<lambda>lk' lf'. lk' = lk \<and> (known (data_map k s) (ms_args msg ! 0) \<and> map_index (ms_args msg ! 0) \<le> WL_MAP_MAX_OBJECTS \<and>
      planes_dense k msg s \<longrightarrow> lf' = lf)) n
    (Suc (ch_next (ca_heap s))) (zwp_linux_buffer_params_create_immed env k msg s)" (is "handled ?Q n ?nx _")
proof -
  let ?h = "ca_heap s" and ?args = "ms_args msg" and ?a = "ch_next (ca_heap s)"
  note hi = cinvD(1) [OF inv] note new = fresh_address [OF hi]
  have goal: "handled ?Q n ?nx (bindo (store_object env k (?args ! 0) (Buffer_Obj ?a)
      (s\<lparr>ca_heap := ?h\<lparr>ch_next := Suc ?a, ch_bufs := (ch_bufs ?h)(?a \<mapsto> buf), ch_params := (ch_params ?h)(pa \<mapsto> p')\<rparr>\<rparr>)) (\<lambda>(ok, s').
        if ok then Ret (PROXY_ACTION_FWD, s')
        else bindo (free_at (ch_bufs (ca_heap s')) ?a) (\<lambda>bufs.
             Ret (PROXY_ACTION_ERR, s'\<lparr>ca_heap := (ca_heap s')\<lparr>ch_bufs := bufs\<rparr>\<rparr>))))"
    if p: "ch_params ?h pa = Some p" and ob: "objects s k (ms_sender msg) = Some (Params_Obj pa)" and four: "bp_num_planes p \<le> 4"
      and p': "p' = p\<lparr>bp_planes := map (\<lambda>p. p\<lparr>pl_fd := - 1\<rparr>) (bp_planes p)\<rparr>"
      and buf: "wb_id buf = ?args ! 0" "wb_shm_buf buf = None" "wb_dependents buf = 0"
        "\<exists>d. wb_dma_buf buf = Some d \<and> db_num_planes d = bp_num_planes p \<and>
          take (nat (bp_num_planes p)) (db_planes d) = take (nat (bp_num_planes p)) (bp_planes p)" for pa p p' buf
  proof -
    let ?n = "nat (bp_num_planes p)"
    let ?params = "(ch_params ?h)(pa \<mapsto> p')"
    let ?lost = "plane_fds (drop ?n (bp_planes p))"
    let ?h1 = "?h\<lparr>ch_next := Suc ?a, ch_bufs := (ch_bufs ?h)(?a \<mapsto> buf), ch_params := ?params\<rparr>"
    obtain d where d: "wb_dma_buf buf = Some d" "db_num_planes d = bp_num_planes p" "dma_fds d = plane_fds (take ?n (bp_planes p))"
      using buf(4) by (auto simp: dma_fds_def)
    have fds: "buf_fds buf + ?lost = plane_fds (bp_planes p)"
      using plane_fds_append [of "take ?n (bp_planes p)" "drop ?n (bp_planes p)"] by (simp add: buf_fds_def d)
    have len: "length (bp_planes p) = 4"
      by (rule hinvD(6) [OF hi p])
    have moved: "hinv lk (buf_fds buf + (?lost + lf)) (e @ q) (?h\<lparr>ch_params := ?params\<rparr>)"
      using hinv_set_params [OF hi p, of p' "ch_fds ?h" "buf_fds buf + (?lost + lf)"] len fds
      by (simp add: p' plane_fds_moved ac_simps)
    have eq: "?h1 = (?h\<lparr>ch_params := ?params\<rparr>)\<lparr>ch_next := Suc (ch_next (?h\<lparr>ch_params := ?params\<rparr>)),
        ch_bufs := (ch_bufs (?h\<lparr>ch_params := ?params\<rparr>))(ch_next (?h\<lparr>ch_params := ?params\<rparr>) \<mapsto> buf)\<rparr>"
      by simp
    have inv1: "hinv lk (?lost + lf) (e @ q) ?h1"
      unfolding eq by (rule hinv_new_buf) (use moved buf d four i cinvD(6) [OF inv] in \<open>auto simp: lost_pool_def client_id_def\<close>)
    have "view (?h\<lparr>ch_params := ?params\<rparr>) = view ?h"
      by (rule view_eqI) (use p p' in auto)
    then have vw: "view ?h1 = (view ?h)(Buffer_Obj ?a \<mapsto> ?args ! 0)"
      unfolding eq using view_new(4) [where b = buf and h = "?h\<lparr>ch_params := ?params\<rparr>" and x = "Suc ?a" and a = ?a]
        buf(1) i by (auto simp: client_id_def)
    have att: "attached ?h1 = attached ?h"
      by (simp add: attached_def fun_eq_iff)
    have undo: "(ch_bufs ?h)(?a := None) = ch_bufs ?h"
      using new by auto
    have lost: "planes_dense k msg s \<longrightarrow> ?lost = {#}"
      using ob p by (auto simp: planes_dense_def plane_fds_unset)
    have fail: "cinv lk (buf_fds buf + (?lost + lf)) n e q (s\<lparr>ca_heap := ?h\<lparr>ch_next := Suc ?a, ch_params := ?params\<rparr>\<rparr>)"
      by (rule cinv_next_params [OF inv p _ moved]) (simp add: p')
    show ?thesis
      by (rule create_ok [OF inv i _ inv1 vw att])
        (use ty new p lost handled_Ret [OF fail, of ?Q] in \<open>auto simp: free_at_def undo split: if_splits\<close>)
  qed
  show ?thesis
    unfolding zwp_linux_buffer_params_create_immed_def
    apply (intro handled_intros)
     apply simp
    subgoal premises prems for m a' a
    proof (cases "en_malloc1 env \<and> en_malloc2 env")
      case True
      have "view ?h (Params_Obj a) = Some (ms_sender msg)" and ob: "objects s k (ms_sender msg) = Some (Params_Obj a)"
        using object_live [OF inv] prems by blast+
      then obtain p where p: "ch_params ?h a = Some p"
        by (auto split: option.splits)
      have len: "length (bp_planes p) = 4"
        by (rule hinvD(6) [OF hi p])
      show ?thesis
      proof (cases "bp_num_planes p \<le> 4")
        case four: True
        show ?thesis
          unfolding deref_def p option.case bindo.simps Let_def copy_planes_def
          using True four by (simp, intro goal [OF p ob four]) (simp_all add: len)
      qed (use True in \<open>simp add: deref_def p copy_planes_def\<close>)
    qed (use handled_Ret [OF inv, of ?Q] in auto)
    done
qed

end
