(* ===== verification/Capture_Destroy.thy ===== *)
theory Capture_Destroy
  imports Capture_Handlers
begin

text \<open>
  The handlers that destroy objects. Each takes its object out of the table of its session, and
  frees the struct now or leaves it to those that still refer to it.
\<close>

section \<open>Removing an object\<close>

text \<open>The object under number \<open>i\<close> of session \<open>k\<close> is gone, and nothing else has changed in the tables.\<close>

definition removed :: "nat \<Rightarrow> u32 \<Rightarrow> capture \<Rightarrow> capture \<Rightarrow> bool" where
  "removed k i s s' \<longleftrightarrow> objects s' = (objects s)(k := (objects s k)(i := None)) \<and> ca_queue s' = ca_queue s \<and>
     dom (ca_sessions s') = dom (ca_sessions s) \<and>
     (\<forall>k m. ca_sessions s' k = Some m \<longrightarrow> sess_ok m) \<and>
     (\<forall>k. map_option ps_types (ca_sessions s' k) = map_option ps_types (ca_sessions s k)) \<and>
     known (data_map k s') = known (data_map k s)"

lemma removedE:
  assumes inv: "cinv lk lf n e q s" and ob: "objects s k i = Some ob"
  obtains s' where "remove_object k i s = Ret s'" "removed k i s s'" "ca_heap s' = ca_heap s"
proof (rule remove_object_ok [OF inv ob])
  fix s'
  assume r: "remove_object k i s = Ret s'" "ca_heap s' = ca_heap s" "objects s' = (objects s)(k := (objects s k)(i := None))"
    "ca_queue s' = ca_queue s" "dom (ca_sessions s') = dom (ca_sessions s)" "known (data_map k s') = known (data_map k s)"
    and m: "\<And>k m. ca_sessions s' k = Some m \<Longrightarrow> sess_ok m"
      "\<And>k. map_option ps_types (ca_sessions s' k) = map_option ps_types (ca_sessions s k)"
  have "removed k i s s'"
    unfolding removed_def using r m by blast
  with r(1) show thesis
    by (rule that) (rule r(2))
qed

lemma remove_object_heap:
  "remove_object k i (s\<lparr>ca_heap := h\<rparr>) = bindo (remove_object k i s) (\<lambda>s'. Ret (s'\<lparr>ca_heap := h\<rparr>))"
proof (cases "ca_sessions s k")
  case (Some m)
  then show ?thesis
    by (cases "wl_map_remove i (ps_data m)") (simp_all add: remove_object_def session_of_def set_data_def)
qed (simp add: remove_object_def session_of_def)

lemma removed_heap [simp]: "removed k i s (s'\<lparr>ca_heap := h\<rparr>) = removed k i s s'"
  by (simp add: removed_def data_map_def)

lemma cinv_removed:
  assumes inv: "cinv lk lf n e q s" and rem: "removed k i s s'" and ob: "objects s k i = Some ob"
    and h': "hinv lk lf (e @ q) h'" "view h' = (view (ca_heap s))(ob := None)" "\<And>a b. attached h' a b \<Longrightarrow> attached (ca_heap s) a b"
      "ch_conns h' = ch_conns (ca_heap s)" "ch_next h' = ch_next (ca_heap s)"
      "\<And>a. ch_surfs h' a \<noteq> None \<Longrightarrow> ch_surfs (ca_heap s) a \<noteq> None \<and> ob \<noteq> Surface_Obj a"
      "\<And>a. ch_params h' a \<noteq> None \<Longrightarrow> ch_params (ca_heap s) a \<noteq> None \<and> ob \<noteq> Params_Obj a"
  shows "cinv lk lf n e q (s'\<lparr>ca_heap := h'\<rparr>)"
proof -
  have "tabs_ok (objects s') (view h') (attached h') (e @ q)"
    using tabs_ok_mono [OF tabs_ok_remove [OF cinvD(3) [OF inv] ob] h'(3) order_refl] rem h'(2) by (simp add: removed_def)
  moreover have "view h' (Surface_Obj a) \<noteq> None" if "ch_surfs h' a \<noteq> None" for a
    using h'(6) [OF that] cinvD(8) [OF inv, of a] h'(2) by auto
  moreover have "view h' (Params_Obj a) \<noteq> None" if "ch_params h' a \<noteq> None" for a
    using h'(7) [OF that] cinvD(9) [OF inv, of a] h'(2) by auto
  ultimately show ?thesis
    unfolding cinv_def using cinvD [OF inv] rem h' by (simp add: removed_def)
qed

lemma object_at:
  assumes "cinv lk lf n e q s" "objects s k i = Some ob"
  shows "\<exists>m. ca_sessions s k = Some m \<and> wl_map_lookup (ps_data m) i = Some ob" "view (ca_heap s) ob = Some i" "0 < i"
  using objects_session [OF assms(2)] tabs_okD(1,2) [OF cinvD(3) [OF assms(1)] assms(2)] by auto

section \<open>Pools\<close>

lemma wl_shm_pool_destroy_ok:
  assumes inv: "cinv lk lf n e q s" and ob: "objects s k (ms_sender msg) = Some (Pool_Obj a)"
  obtains s' where "wl_shm_pool_destroy env k msg s = Ret (PROXY_ACTION_FWD, s')" "cinv lk lf n e q s'"
    "removed k (ms_sender msg) s s'" "ch_next (ca_heap s') = ch_next (ca_heap s)"
proof -
  let ?h = "ca_heap s" and ?i = "ms_sender msg"
  note hi = cinvD(1) [OF inv]
  obtain m where m: "ca_sessions s k = Some m" "wl_map_lookup (ps_data m) ?i = Some (Pool_Obj a)"
    using object_at(1) [OF inv ob] by blast
  obtain pool where pool: "ch_pools ?h a = Some pool" and i: "sp_id pool = ?i" "sp_id pool \<noteq> 0"
    using object_at(2) [OF inv ob] by (auto split: option.splits if_splits)
  obtain s1 where s1: "remove_object k ?i s = Ret s1" "removed k ?i s s1" "ca_heap s1 = ?h"
    by (rule removedE [OF inv ob])
  have ok: "unat (sp_dependents pool) = pool_refs ?h a + lk (Pool_Obj a)"
    using hinvD(3) [OF hi pool] by (simp add: pool_ok_def)
  let ?pool = "pool\<lparr>sp_id := 0\<rparr>"
  let ?hz = "?h\<lparr>ch_pools := (ch_pools ?h)(a \<mapsto> ?pool)\<rparr>"
  define h' where "h' = (if sp_dependents pool = 0
    then ?h\<lparr>ch_pools := (ch_pools ?h)(a := None), ch_mmaps := ch_mmaps ?h - {#(sp_p pool, sp_size pool)#}\<rparr> else ?hz)"
  have run: "wl_shm_pool_destroy env k msg s = Ret (PROXY_ACTION_FWD, s1\<lparr>ca_heap := h'\<rparr>)"
  proof (cases "sp_dependents pool = 0")
    case True
    then have "wl_shm_pool_free a ?hz = Ret h'"
      using wl_shm_pool_free_ok [of ?pool ?hz a] mmap_in [OF hi pool] by (simp add: h'_def)
    then show ?thesis
      using m pool i s1 True by (simp add: wl_shm_pool_destroy_def session_of_def as_pool_def nonnull_def deref_def)
  next
    case False
    then show ?thesis
      using m pool i s1 by (simp add: wl_shm_pool_destroy_def session_of_def as_pool_def nonnull_def deref_def h'_def)
  qed
  have "hinv lk lf (e @ q) h'"
  proof (cases "sp_dependents pool = 0")
    case True
    then have "pool_refs ?h a = 0" "lk (Pool_Obj a) = 0"
      using ok by simp_all
    then show ?thesis
      using hinv_drop_pool [OF hi pool] True by (simp add: h'_def fun_upd_idem)
  next
    case False
    then show ?thesis
      using hinv_set_pool [OF hi pool, of ?pool "lk (Pool_Obj a)"] ok by (simp add: h'_def fun_upd_idem)
  qed
  moreover have "view h' = (view ?h)(Pool_Obj a := None)"
  proof (rule ext)
    show "view h' x = ((view ?h)(Pool_Obj a := None)) x" for x
      by (cases x) (auto simp: h'_def)
  qed
  moreover have same: "ch_surfs h' = ch_surfs ?h" "ch_params h' = ch_params ?h" "ch_conns h' = ch_conns ?h" "ch_next h' = ch_next ?h"
    by (simp_all add: h'_def)
  ultimately have "cinv lk lf n e q (s1\<lparr>ca_heap := h'\<rparr>)"
    by (intro cinv_removed [OF inv s1(2) ob]) (auto simp: attached_def same)
  with run show thesis
    by (rule that) (simp_all add: s1 same)
qed

section \<open>Buffers\<close>

lemma wl_buffer_destroy_ok:
  assumes inv: "cinv lk lf n e q s" and ob: "objects s k (ms_sender msg) = Some (Buffer_Obj b)"
  obtains s' where "wl_buffer_destroy env k msg s = Ret (PROXY_ACTION_FWD, s')" "cinv lk lf n e q s'"
    "removed k (ms_sender msg) s s'" "ch_next (ca_heap s') = ch_next (ca_heap s)"
proof -
  let ?h = "ca_heap s" and ?i = "ms_sender msg"
  note hi = cinvD(1) [OF inv]
  obtain m where m: "ca_sessions s k = Some m" "wl_map_lookup (ps_data m) ?i = Some (Buffer_Obj b)"
    using object_at(1) [OF inv ob] by blast
  obtain buf where buf: "ch_bufs ?h b = Some buf" and i: "wb_id buf = ?i" "wb_id buf \<noteq> 0"
    using object_at(2) [OF inv ob] by (auto split: option.splits if_splits)
  obtain s1 where s1: "remove_object k ?i s = Ret s1" "removed k ?i s s1" "ca_heap s1 = ?h"
    by (rule removedE [OF inv ob])
  have ok: "unat (wb_dependents buf) = surf_refs ?h b + frame_refs (e @ q) b"
    using hinvD(4) [OF hi buf] cinvD(6) [OF inv, of b] by (simp add: buf_ok_def)
  let ?buf = "buf\<lparr>wb_id := 0\<rparr>" and ?gone = "?h\<lparr>ch_bufs := (ch_bufs ?h)(b := None)\<rparr>"
  let ?hz = "?h\<lparr>ch_bufs := (ch_bufs ?h)(b \<mapsto> ?buf)\<rparr>"
  have gone: "view ?gone = (view ?h)(Buffer_Obj b := None)" "view ?hz = (view ?h)(Buffer_Obj b := None)"
    by (rule ext, case_tac x; simp)+
  have lk: "lk(Buffer_Obj b := 0) = lk"
    using cinvD(6) [OF inv, of b] by auto
  have "\<exists>h'. (if wb_dependents buf = 0 then wl_buffer_free b ?hz else Ret ?hz) = Ret h' \<and> hinv lk lf (e @ q) h' \<and>
    view h' = (view ?h)(Buffer_Obj b := None) \<and> (\<forall>a b. attached h' a b \<longrightarrow> attached ?h a b) \<and> ch_conns h' = ch_conns ?h \<and>
    ch_next h' = ch_next ?h \<and> ch_surfs h' = ch_surfs ?h \<and> ch_params h' = ch_params ?h"
  proof (cases "wb_dependents buf = 0")
    case True
    then have z: "surf_refs ?h b = 0" "frame_refs (e @ q) b = 0"
      using ok by simp_all
    obtain h' where h': "wl_buffer_free b ?hz = Ret h'" "hinv lk lf (e @ q) h'" "gives_up ?gone h'" "ch_surfs h' = ch_surfs ?h"
      using wl_buffer_free_ok [OF hi buf z, of ?buf] True unfolding lk by auto
    then show ?thesis
      using True gone(1) by (auto simp: gives_up_def attached_def)
  next
    case False
    then have "hinv lk lf (e @ q) ?hz"
      using hinv_set_buf [OF hi buf, of ?buf 0] ok lk by simp
    then show ?thesis
      using False gone(2) by (simp add: attached_def)
  qed
  then obtain h' where h': "(if wb_dependents buf = 0 then wl_buffer_free b ?hz else Ret ?hz) = Ret h'" "hinv lk lf (e @ q) h'"
    "view h' = (view ?h)(Buffer_Obj b := None)" "\<And>a b. attached h' a b \<Longrightarrow> attached ?h a b" "ch_conns h' = ch_conns ?h"
    "ch_next h' = ch_next ?h" "ch_surfs h' = ch_surfs ?h" "ch_params h' = ch_params ?h"
    by blast
  have "cinv lk lf n e q (s1\<lparr>ca_heap := h'\<rparr>)"
    by (rule cinv_removed [OF inv s1(2) ob h'(2-6)]) (simp_all add: h')
  moreover have "wl_buffer_destroy env k msg s = Ret (PROXY_ACTION_FWD, s1\<lparr>ca_heap := h'\<rparr>)"
    using m buf i s1 h'(1) by (simp add: wl_buffer_destroy_def session_of_def as_buffer_def deref_def)
  ultimately show thesis
    using that [of "s1\<lparr>ca_heap := h'\<rparr>"] s1 h' by simp
qed

section \<open>Surfaces\<close>

lemma hinv_drop_surf:
  assumes inv: "hinv lk lf fs h" and surf: "ch_surfs h a = Some surf" "su_buf surf = None"
  shows "hinv lk lf fs (h\<lparr>ch_surfs := (ch_surfs h)(a := None)\<rparr>)" (is "hinv _ _ _ ?h")
  unfolding hinv_def
proof (intro conjI allI impI)
  note inv' = hinvD [OF inv]
  show "store_ok ?h" "frames_ok fs ?h"
    using inv'(1,2) by (auto simp: heap_defs)
  have "surf_refs ?h b = surf_refs h b" for b
    using hsum_remove [OF hinv_finite(3) [OF inv] surf(1), of "\<lambda>s. of_bool (su_buf s = Some b) :: nat"] surf(2)
    by (simp add: surf_refs_def)
  then show "buf_ok lk fs ?h b b'" if "ch_bufs ?h b = Some b'" for b b'
    using that inv'(4) [of b b'] by (simp add: buf_ok_def)
  show "pool_ok lk ?h b q" if "ch_pools ?h b = Some q" for b q
    using that inv'(3) [of b q] by (simp add: heap_defs)
  show "surf_ok ?h su" if "ch_surfs ?h b = Some su" for b su
    using that inv'(5) [of b su] by (auto simp: heap_defs split: if_splits)
qed (use hinvD(6-8) [OF inv] in auto)

lemma wl_surface_destroy_ok:
  assumes inv: "cinv lk lf n e q s" and ob: "objects s k (ms_sender msg) = Some (Surface_Obj a)"
  obtains s' where "wl_surface_destroy env k msg s = Ret (PROXY_ACTION_FWD, s')" "cinv lk lf n e q s'"
    "removed k (ms_sender msg) s s'" "ch_next (ca_heap s') = ch_next (ca_heap s)"
proof -
  let ?h = "ca_heap s" and ?i = "ms_sender msg"
  note hi = cinvD(1) [OF inv]
  obtain m where m: "ca_sessions s k = Some m" "wl_map_lookup (ps_data m) ?i = Some (Surface_Obj a)"
    using object_at(1) [OF inv ob] by blast
  obtain surf where surf: "ch_surfs ?h a = Some surf" and i: "su_id surf = ?i" "su_id surf \<noteq> 0"
    using object_at(2) [OF inv ob] by (auto split: option.splits if_splits)
  obtain s1 where s1: "remove_object k ?i s = Ret s1" "removed k ?i s s1" "ca_heap s1 = ?h"
    by (rule removedE [OF inv ob])
  have ok: "surf_ok ?h surf"
    by (rule hinvD(5) [OF hi surf])
  let ?surf = "surf\<lparr>su_id := 0\<rparr>"
  let ?hz = "?h\<lparr>ch_surfs := (ch_surfs ?h)(a \<mapsto> ?surf)\<rparr>"
  have "hinv lk lf (e @ q) ?hz"
    by (rule hinv_set_surf [OF hi surf]) (use ok in \<open>auto simp: surf_ok_def\<close>)
  from wl_surface_unattach_ok [OF this, of a ?surf] obtain h2 where
    h2: "wl_surface_unattach a ?hz = Ret h2" "hinv lk lf (e @ q) h2" "gives_up ?hz h2"
    "ch_surfs h2 = (ch_surfs ?h)(a \<mapsto> ?surf\<lparr>su_buf := None\<rparr>)"
    by auto
  let ?h' = "h2\<lparr>ch_surfs := (ch_surfs h2)(a := None)\<rparr>"
  have up: "view h2 = view ?hz" "ch_conns h2 = ch_conns ?h" "ch_next h2 = ch_next ?h" "ch_params h2 = ch_params ?h"
    using h2(3) by (auto simp: gives_up_def)
  have h': "hinv lk lf (e @ q) ?h'"
    by (rule hinv_drop_surf [OF h2(2), of a "?surf\<lparr>su_buf := None\<rparr>"]) (simp_all add: h2(4))
  have "view ?h' = view h2"
    by (rule view_eqI) (use h2(4) in auto)
  moreover have "view ?hz = (view ?h)(Surface_Obj a := None)"
    by (rule ext, case_tac x; simp)
  ultimately have vw: "view ?h' = (view ?h)(Surface_Obj a := None)"
    using up(1) by simp
  have att: "attached ?h x b" if "attached ?h' x b" for x b
    using that h2(4) by (auto simp: attached_def split: if_splits)
  have "cinv lk lf n e q (s1\<lparr>ca_heap := ?h'\<rparr>)"
    by (rule cinv_removed [OF inv s1(2) ob h' vw att]) (auto simp: up h2(4) split: if_splits)
  moreover have "su_dependents surf = 0"
    using ok by (simp add: surf_ok_def)
  then have "wl_surface_destroy env k msg s = Ret (PROXY_ACTION_FWD, s1\<lparr>ca_heap := ?h'\<rparr>)"
    using m surf i s1 h2(1,4)
    by (simp add: wl_surface_destroy_def session_of_def as_surface_def nonnull_def deref_def wl_surface_free_def free_at_def)
  ultimately show thesis
    using that [of "s1\<lparr>ca_heap := ?h'\<rparr>"] s1 up by simp
qed

section \<open>Parameters\<close>

lemma hinv_drop_params:
  assumes inv: "hinv lk lf fs h" and p: "ch_params h a = Some p"
  shows "hinv lk lf fs (h\<lparr>ch_fds := ch_fds h - plane_fds (bp_planes p), ch_params := (ch_params h)(a := None)\<rparr>)" (is "hinv _ _ _ ?h")
  unfolding hinv_def
proof (intro conjI allI impI)
  note inv' = hinvD [OF inv]
  show "store_ok ?h" "frames_ok fs ?h"
    using inv'(1,2) by (auto simp: heap_defs)
  show "pool_ok lk ?h b q" if "ch_pools ?h b = Some q" for b q
    using that inv'(3) [of b q] by (simp add: heap_defs)
  show "buf_ok lk fs ?h b b'" if "ch_bufs ?h b = Some b'" for b b'
    using that inv'(4) [of b b'] by (simp add: heap_defs)
  show "surf_ok ?h su" if "ch_surfs ?h b = Some su" for b su
    using that inv'(5) [of b su] by (simp add: heap_defs)
  show "length (bp_planes q) = 4" if "ch_params ?h b = Some q" for b q
    using that inv'(6) [of b q] by (auto split: if_splits)
  show "ch_fds ?h = hsum (\<lambda>p. plane_fds (bp_planes p)) (ch_params ?h) + hsum buf_fds (ch_bufs ?h) + lf"
    using inv'(8) hsum_remove [OF hinv_finite(4) [OF inv] p, of "\<lambda>p. plane_fds (bp_planes p)"] by simp
qed (use hinvD(7) [OF inv] in auto)

lemma zwp_linux_buffer_params_destroy_ok:
  assumes inv: "cinv lk lf n e q s" and ob: "objects s k (ms_sender msg) = Some (Params_Obj a)"
  obtains s' where "zwp_linux_buffer_params_destroy env k msg s = Ret (PROXY_ACTION_FWD, s')" "cinv lk lf n e q s'"
    "removed k (ms_sender msg) s s'" "ch_next (ca_heap s') = ch_next (ca_heap s)"
proof -
  let ?h = "ca_heap s" and ?i = "ms_sender msg"
  note hi = cinvD(1) [OF inv]
  obtain m where m: "ca_sessions s k = Some m" "wl_map_lookup (ps_data m) ?i = Some (Params_Obj a)"
    using object_at(1) [OF inv ob] by blast
  obtain p where p: "ch_params ?h a = Some p" and i: "bp_id p = ?i"
    using object_at(2) [OF inv ob] by (auto split: option.splits if_splits)
  obtain s1 where s1: "remove_object k ?i s = Ret s1" "removed k ?i s s1" "ca_heap s1 = ?h"
    by (rule removedE [OF inv ob])
  let ?hz = "?h\<lparr>ch_fds := ch_fds ?h - plane_fds (bp_planes p)\<rparr>"
  let ?h' = "?hz\<lparr>ch_params := (ch_params ?h)(a := None)\<rparr>"
  have "ch_fds ?h = plane_fds (bp_planes p) + (ch_fds ?h - plane_fds (bp_planes p))"
    using hinvD(8) [OF hi] hsum_remove [OF hinv_finite(4) [OF hi] p, of "\<lambda>p. plane_fds (bp_planes p)"] by simp
  then have close: "close_planes (bp_planes p) ?h = Ret ?hz"
    by (rule close_planes_ok)
  have vw: "view ?h' = (view ?h)(Params_Obj a := None)"
    by (rule ext, case_tac x; simp)
  have "cinv lk lf n e q (s1\<lparr>ca_heap := ?h'\<rparr>)"
    by (rule cinv_removed [OF inv s1(2) ob hinv_drop_params [OF hi p] vw]) (auto simp: attached_def split: if_splits)
  moreover have "zwp_linux_buffer_params_destroy env k msg s = Ret (PROXY_ACTION_FWD, s1\<lparr>ca_heap := ?h'\<rparr>)"
    using m p i s1 close
    by (simp add: zwp_linux_buffer_params_destroy_def session_of_def as_params_def deref_def remove_object_heap free_at_def)
  ultimately show thesis
    using that [of "s1\<lparr>ca_heap := ?h'\<rparr>"] s1 by simp
qed

end
