(* ===== verification/Capture_Commit.thy ===== *)
theory Capture_Commit
  imports Capture_Destroy
begin

text \<open>
  Attaching buffers to surfaces and committing them: the handlers that take references, and the one
  that hands a frame to the encode queue.
\<close>

section \<open>Attaching\<close>

lemma buf_count_bound:
  assumes inv: "hinv lk lf fs h" and buf: "ch_bufs h b = Some buf" "lk (Buffer_Obj b) = 0" and room: "ch_next h < 2147483648"
  shows "unat (wb_dependents buf + 1) = surf_refs h b + frame_refs fs b + 1"
proof -
  have "surf_refs h b \<le> ch_next h"
    unfolding surf_refs_def
    by (rule hsum_le_card) (use hinvD(1) [OF inv] hinv_finite [OF inv] in \<open>auto simp: store_ok_def\<close>)
  moreover have "frame_refs fs b \<le> ch_next h"
  proof -
    have "frame_refs fs b \<le> length fs"
      unfolding frame_refs_def by (metis count_le_size size_mset length_map)
    also have "length fs = card (vf_block ` set fs)"
      using hinvD(2) [OF inv] distinct_card [of "map vf_block fs"] by (simp add: frames_ok_def)
    also have "\<dots> \<le> card {..<ch_next h}"
      using hinvD(2) [OF inv] by (intro card_mono) (auto simp: frames_ok_def)
    finally show ?thesis
      by simp
  qed
  moreover have "unat (wb_dependents buf) = surf_refs h b + frame_refs fs b"
    using hinvD(4) [OF inv buf(1)] buf(2) by (simp add: buf_ok_def)
  ultimately show ?thesis
    using room unat_inc [of "wb_dependents buf"] by simp
qed

lemma hinv_attach:
  assumes inv: "hinv lk lf fs h" and surf: "ch_surfs h a = Some surf" "su_buf surf = None"
    and buf: "ch_bufs h b = Some buf" "lk (Buffer_Obj b) = 0" and room: "ch_next h < 2147483648"
  shows "hinv lk lf fs (h\<lparr>ch_surfs := (ch_surfs h)(a \<mapsto> surf\<lparr>su_buf := Some b\<rparr>),
    ch_bufs := (ch_bufs h)(b \<mapsto> buf\<lparr>wb_dependents := wb_dependents buf + 1\<rparr>)\<rparr>)"
proof -
  let ?buf = "buf\<lparr>wb_dependents := wb_dependents buf + 1\<rparr>"
  let ?g = "h\<lparr>ch_bufs := (ch_bufs h)(b \<mapsto> ?buf)\<rparr>"
  note bound = buf_count_bound [OF inv buf room]
  have "hinv (lk(Buffer_Obj b := 1)) lf fs ?g"
    by (rule hinv_set_buf [OF inv buf(1)]) (use bound in auto)
  then have st: "hinv lk lf fs (?g\<lparr>ch_surfs := (ch_surfs ?g)(a \<mapsto> surf\<lparr>su_buf := Some b\<rparr>)\<rparr>)"
    by (rule hinv_set_surf [of _ _ _ _ a surf]) (use surf buf hinvD(5) [OF inv surf(1)] in \<open>auto simp: surf_ok_def\<close>)
  have eq: "h\<lparr>ch_surfs := (ch_surfs h)(a \<mapsto> surf\<lparr>su_buf := Some b\<rparr>), ch_bufs := (ch_bufs h)(b \<mapsto> ?buf)\<rparr> =
      ?g\<lparr>ch_surfs := (ch_surfs ?g)(a \<mapsto> surf\<lparr>su_buf := Some b\<rparr>)\<rparr>"
    by simp
  show ?thesis
    unfolding eq by (rule st)
qed

lemma wl_surface_attach_ok:
  assumes inv: "cinv lk lf n e q s" and room: "ch_next (ca_heap s) < 2147483648"
  shows "handled (lossless lk lf) n (ch_next (ca_heap s)) (wl_surface_attach env k msg s)" (is "handled ?Q n ?nx _")
proof -
  let ?h = "ca_heap s"
  have goal: "handled ?Q n ?nx
     (bindo (wl_surface_unattach a ?h) (\<lambda>h.
      bindo (deref (ch_surfs h) a) (\<lambda>surf.
      let h = h\<lparr>ch_surfs := (ch_surfs h)(a \<mapsto> surf\<lparr>su_buf := b\<rparr>)\<rparr> in
      case b of
        None \<Rightarrow> Ret (PROXY_ACTION_FWD, s\<lparr>ca_heap := h\<rparr>)
      | Some b \<Rightarrow>
          bindo (asserto (ms_args msg ! 1 = 0)) (\<lambda>_.
          bindo (asserto (ms_args msg ! 2 = 0)) (\<lambda>_.
          bindo (deref (ch_bufs h) b) (\<lambda>buf.
          Ret (PROXY_ACTION_FWD, s\<lparr>ca_heap := h\<lparr>ch_bufs := (ch_bufs h)(b \<mapsto> buf\<lparr>wb_dependents := wb_dependents buf + 1\<rparr>)\<rparr>\<rparr>)))))))"
    if m: "ca_sessions s k = Some m" "wl_map_lookup (ps_data m) (ms_sender msg) = Some (Surface_Obj a)"
      and b: "\<And>x. b = Some x \<Longrightarrow> wl_map_lookup (ps_data m) (ms_args msg ! 0) = Some (Buffer_Obj x)" for m a b
  proof -
    note ob = object_live [OF inv m]
    obtain surf where surf: "ch_surfs ?h a = Some surf"
      using ob(1) by (auto split: option.splits)
    obtain h1 where h1: "wl_surface_unattach a ?h = Ret h1" "hinv lk lf (e @ q) h1" "gives_up ?h h1"
      "ch_surfs h1 = (ch_surfs ?h)(a \<mapsto> surf\<lparr>su_buf := None\<rparr>)"
      using wl_surface_unattach_ok [OF cinvD(1) [OF inv] surf] by blast
    have inv1: "cinv lk lf n e q (s\<lparr>ca_heap := h1\<rparr>)"
      by (rule cinv_heap [OF inv h1(2,3)]) (use h1(4) surf in auto)
    have next1: "ch_next h1 = ?nx"
      using h1(3) by (simp add: gives_up_def)
    show ?thesis
    proof (cases b)
      case None
      have same: "h1\<lparr>ch_surfs := (ch_surfs ?h)(a \<mapsto> surf\<lparr>su_buf := None\<rparr>)\<rparr> = h1"
        by (simp add: h1(4) [symmetric])
      show ?thesis
        using None h1(1,4) handled_Ret [OF inv1, of ?Q ?nx PROXY_ACTION_FWD] next1 by (simp add: deref_def same)
    next
      case (Some x)
      note bo = object_live [OF inv m(1) b [OF Some]]
      have "view h1 (Buffer_Obj x) = Some (ms_args msg ! 0)"
        using bo(1) h1(3) by (simp add: gives_up_def del: view.simps)
      then obtain buf where buf: "ch_bufs h1 x = Some buf"
        by (auto split: option.splits)
      let ?h' = "h1\<lparr>ch_surfs := (ch_surfs h1)(a \<mapsto> surf\<lparr>su_buf := Some x\<rparr>),
        ch_bufs := (ch_bufs h1)(x \<mapsto> buf\<lparr>wb_dependents := wb_dependents buf + 1\<rparr>)\<rparr>"
      have h': "hinv lk lf (e @ q) ?h'"
        using hinv_attach [OF h1(2), of a "surf\<lparr>su_buf := None\<rparr>" x buf] h1(4) buf cinvD(6) [OF inv] room next1 by simp
      have vw: "view ?h' = view h1"
        by (rule view_eqI) (use buf h1(4) in auto)
      have att: "attached h1 y z \<or> (y = a \<and> z = x)" if "attached ?h' y z" for y z
        using that by (auto simp: attached_def split: if_splits)
      have "tabs_ok (objects s) (view h1) (attached h1) (e @ q)"
        using cinvD(3) [OF inv1] by simp
      from tabs_ok_attach [OF this ob(2) bo(2) att] have "tabs_ok (objects s) (view h1) (attached ?h') (e @ q)" .
      moreover have "view h1 (Surface_Obj x) \<noteq> None" if "ch_surfs ?h' x \<noteq> None" for x
        using that cinvD(8) [OF inv1, of x] h1(4) by (auto split: if_splits)
      ultimately have "cinv lk lf n e q (s\<lparr>ca_heap := ?h'\<rparr>)"
        unfolding cinv_def using cinvD [OF inv1] h' vw by simp
      from handled_Ret [OF this, of ?Q ?nx PROXY_ACTION_FWD] show ?thesis
        using Some h1 buf next1 by (auto simp: deref_def asserto_def)
    qed
  qed
  show ?thesis
    unfolding wl_surface_attach_def
    by (intro handled_intros goal; (assumption | simp))
qed

section \<open>Pushing a frame\<close>

text \<open>The block of the new frame is allocated before the expired frames are freed; these do not see it.\<close>

definition add_frame :: "address \<Rightarrow> cheap \<Rightarrow> cheap" where
  "add_frame x h = h\<lparr>ch_frames := add_mset x (ch_frames h)\<rparr>"

lemma give_up_buf_add_frame:
  assumes "give_up_buf b h = Ret h'"
  shows "give_up_buf b (add_frame x h) = Ret (add_frame x h')" "ch_frames h' = ch_frames h"
proof -
  have "h' = h'\<lparr>ch_frames := ch_frames h\<rparr>"
    using give_up_buf_frame(2) [of b "ch_frames h" h] assms by simp
  then show same: "ch_frames h' = ch_frames h"
    by (metis cheap.select_convs(6) cheap.surjective cheap.update_convs(6))
  show "give_up_buf b (add_frame x h) = Ret (add_frame x h')"
    using give_up_buf_frame(2) [of b "add_mset x (ch_frames h)" h] assms by (simp add: add_frame_def same)
qed

lemma send_release_eq:
  assumes "ch_bufs h b = Some buf" "wb_id buf \<noteq> 0 \<longrightarrow> conn \<in> ch_conns h"
  shows "send_wl_buffer_release True True b conn (h\<lparr>ch_bufs := (ch_bufs h)(b \<mapsto> buf\<lparr>wb_dependents := wb_dependents buf - 1\<rparr>)\<rparr>) =
    bindo (give_up_buf b (h\<lparr>ch_sent := ch_sent h @ (if wb_id buf = 0 then [] else [(conn, Release (wb_id buf))])\<rparr>)) (\<lambda>h. Ret (0, h))"
  using assms by (simp add: send_wl_buffer_release_def give_up_buf_def deref_def Let_def)

lemma free_frame_cases:
  assumes "free_frame f h = Ret h'"
  obtains buf sent h2 where "ch_bufs h (vf_buf f) = Some buf" "wb_id buf \<noteq> 0 \<longrightarrow> vf_conn f \<in> ch_conns h"
    "sent = ch_sent h @ (if wb_id buf = 0 then [] else [(vf_conn f, Release (wb_id buf))])"
    "give_up_buf (vf_buf f) (h\<lparr>ch_sent := sent\<rparr>) = Ret h2" "vf_block f \<in># ch_frames h"
    "h' = h2\<lparr>ch_frames := ch_frames h - {#vf_block f#}\<rparr>"
proof -
  obtain buf where buf: "ch_bufs h (vf_buf f) = Some buf"
    using assms by (cases "ch_bufs h (vf_buf f)") (simp_all add: free_frame_def deref_def)
  let ?sent = "ch_sent h @ (if wb_id buf = 0 then [] else [(vf_conn f, Release (wb_id buf))])"
  have conn: "wb_id buf \<noteq> 0 \<longrightarrow> vf_conn f \<in> ch_conns h"
    using assms buf by (auto simp: free_frame_def deref_def send_wl_buffer_release_def Let_def split: if_splits)
  then have "send_wl_buffer_release True True (vf_buf f) (vf_conn f)
      (h\<lparr>ch_bufs := (ch_bufs h)(vf_buf f \<mapsto> buf\<lparr>wb_dependents := wb_dependents buf - 1\<rparr>)\<rparr>) =
    bindo (give_up_buf (vf_buf f) (h\<lparr>ch_sent := ?sent\<rparr>)) (\<lambda>h. Ret (0, h))"
    by (rule send_release_eq [OF buf])
  then have run: "free_frame f h = bindo (give_up_buf (vf_buf f) (h\<lparr>ch_sent := ?sent\<rparr>)) (\<lambda>h.
      bindo (hfree (vf_block f) (ch_frames h)) (\<lambda>fs. Ret (h\<lparr>ch_frames := fs\<rparr>)))"
    using buf by (simp add: free_frame_def deref_def bindo_assoc)
  then obtain h2 where h2: "give_up_buf (vf_buf f) (h\<lparr>ch_sent := ?sent\<rparr>) = Ret h2"
    using assms by (cases "give_up_buf (vf_buf f) (h\<lparr>ch_sent := ?sent\<rparr>)") auto
  have fr: "ch_frames h2 = ch_frames h"
    using give_up_buf_add_frame(2) [OF h2] by simp
  have "vf_block f \<in># ch_frames h" "h' = h2\<lparr>ch_frames := ch_frames h - {#vf_block f#}\<rparr>"
    using assms run h2 fr by (auto simp: hfree_def split: if_splits)
  with buf conn refl h2 show thesis
    by (rule that)
qed

lemma free_frame_add_frame:
  assumes "free_frame f h = Ret h'"
  shows "free_frame f (add_frame x h) = Ret (add_frame x h')"
proof -
  obtain buf sent h2 where f: "ch_bufs h (vf_buf f) = Some buf" "wb_id buf \<noteq> 0 \<longrightarrow> vf_conn f \<in> ch_conns h"
    "sent = ch_sent h @ (if wb_id buf = 0 then [] else [(vf_conn f, Release (wb_id buf))])"
    "give_up_buf (vf_buf f) (h\<lparr>ch_sent := sent\<rparr>) = Ret h2" "vf_block f \<in># ch_frames h"
    "h' = h2\<lparr>ch_frames := ch_frames h - {#vf_block f#}\<rparr>"
    by (rule free_frame_cases [OF assms])
  define g where "g = add_frame x h"
  have g: "ch_bufs g (vf_buf f) = Some buf" "wb_id buf \<noteq> 0 \<longrightarrow> vf_conn f \<in> ch_conns g" "ch_sent g = ch_sent h"
    using f(1,2) by (simp_all add: g_def add_frame_def)
  have "g\<lparr>ch_sent := sent\<rparr> = add_frame x (h\<lparr>ch_sent := sent\<rparr>)"
    by (simp add: g_def add_frame_def)
  then have "give_up_buf (vf_buf f) (g\<lparr>ch_sent := sent\<rparr>) = Ret (add_frame x h2)"
    using give_up_buf_add_frame(1) [OF f(4)] by simp
  then have "send_wl_buffer_release True True (vf_buf f) (vf_conn f)
      (g\<lparr>ch_bufs := (ch_bufs g)(vf_buf f \<mapsto> buf\<lparr>wb_dependents := wb_dependents buf - 1\<rparr>)\<rparr>) = Ret (0, add_frame x h2)"
    unfolding send_release_eq [OF g(1,2)] g(3) f(3) by simp
  moreover have "ch_frames h2 = ch_frames h"
    using give_up_buf_add_frame(2) [OF f(4)] by simp
  ultimately have "free_frame f g = Ret (add_frame x h')"
    using g(1) f(5,6) by (simp add: free_frame_def deref_def hfree_def) (simp add: add_frame_def)
  then show ?thesis
    by (simp add: g_def)
qed

lemma free_frames_add_frame: "foldo free_frame e h = Ret h' \<Longrightarrow> foldo free_frame e (add_frame x h) = Ret (add_frame x h')"
proof (induction e arbitrary: h)
  case (Cons f e)
  then show ?case
    by (auto simp: free_frame_add_frame)
qed simp

text \<open>A new frame takes over one count of its buffer.\<close>

lemma hinv_add_frame:
  assumes inv: "hinv lk lf fs h" and lk: "lk (Buffer_Obj (vf_buf f)) = Suc n" and b: "ch_bufs h (vf_buf f) \<noteq> None"
    and block: "vf_block f \<notin> vf_block ` set fs" "vf_block f < ch_next h"
  shows "hinv (lk(Buffer_Obj (vf_buf f) := n)) lf (fs @ [f]) (add_frame (vf_block f) h)" (is "hinv ?lk _ _ ?h")
  unfolding hinv_def
proof (intro conjI allI impI)
  note inv' = hinvD [OF inv]
  show "store_ok ?h" "frames_ok (fs @ [f]) ?h"
    using inv'(1,2) b block by (auto simp: heap_defs add_frame_def)
  show "pool_ok ?lk ?h a p" if "ch_pools ?h a = Some p" for a p
    using that inv'(3) [of a p] by (auto simp: heap_defs add_frame_def)
  show "buf_ok ?lk (fs @ [f]) ?h a b'" if "ch_bufs ?h a = Some b'" for a b'
    using that inv'(4) [of a b'] lk by (auto simp: heap_defs add_frame_def frame_refs_def)
  show "surf_ok ?h su" if "ch_surfs ?h a = Some su" for a su
    using that inv'(5) [of a su] by (auto simp: heap_defs add_frame_def)
qed (use hinvD(6-8) [OF inv] in \<open>auto simp: add_frame_def\<close>)

section \<open>Committing\<close>

lemma commit_push_ok:
  assumes inv: "cinv lk lf n e q s" and room: "Suc (ch_next (ca_heap s)) < 2147483648" and k: "objects s k i = Some (Surface_Obj a)"
    and surf: "ch_surfs (ca_heap s) a = Some surf" "su_buf surf = Some b" and buf: "ch_bufs (ca_heap s) b = Some buf"
  shows "\<exists>ok s' e' q'. commit_push env k b buf s = Ret (ok, s') \<and> cinv lk lf n e' q' s' \<and> objects s' = objects s \<and>
    ch_surfs (ca_heap s') = ch_surfs (ca_heap s) \<and> ch_next (ca_heap s') \<le> Suc (ch_next (ca_heap s)) \<and>
    (ok \<longleftrightarrow> en_malloc1 env \<and> length q < n) \<and>
    (ok \<longrightarrow> e' = [] \<and> q' = q @ [commit_frame (ch_next (ca_heap s)) k b buf] \<and> ca_frame_count s' = ca_frame_count s + 1)"
proof -
  let ?h = "ca_heap s" and ?f = "commit_frame (ch_next (ca_heap s)) k b buf"
  let ?hn = "?h\<lparr>ch_next := Suc (ch_next ?h)\<rparr>"
  note hi = cinvD(1) [OF inv] note own = cinvD(2) [OF inv]
  have f: "vf_block ?f = ch_next ?h" "vf_buf ?f = b" "vf_conn ?f = k"
    by (simp_all add: commit_frame_def)
  have two: "(wb_shm_buf buf = None) \<noteq> (wb_dma_buf buf = None)"
    using hinvD(4) [OF hi buf] by (simp add: buf_ok_def)
  have n: "length q \<le> n"
    using own by (elim rbuf_ownE) simp
  note invn = cinv_next [OF inv]
  consider (nomem) "\<not> en_malloc1 env" | (full) "en_malloc1 env" "length q = n" | (room) "en_malloc1 env" "length q < n"
    using n by linarith
  then show ?thesis
  proof cases
    case nomem
    then show ?thesis
      using two inv by (auto simp: commit_push_def)
  next
    case full
    have "rbuf_push (ca_queue s) (Some ?f) h = Ret (-1, ca_queue s, h)" for h
      by (rule rbuf_own_push_full [OF own full(2)])
    then have "commit_push env k b buf s = Ret (False, s\<lparr>ca_heap := ?hn\<rparr>)"
      using two full(1) f by (simp add: commit_push_def hmalloc_def Let_def)
    then show ?thesis
      using invn full by auto
  next
    case room': room
    have conn: "\<forall>f \<in> set e. conn_ok ?hn f"
      using cinv_conn_ok [OF invn] by simp
    obtain h2 where h2: "foldo free_frame e ?hn = Ret h2" "hinv lk lf q h2" "gives_up ?hn h2" "ch_surfs h2 = ch_surfs ?h"
      using frames_given_up [of lk lf e q ?hn] cinvD(1) [OF invn] conn by auto
    have "foldo free_frame e (add_frame (ch_next ?h) ?hn) = Ret (add_frame (ch_next ?h) h2)"
      by (rule free_frames_add_frame [OF h2(1)])
    from rbuf_own_push_room [OF own room'(2) this] obtain buf' where
      push: "rbuf_push (ca_queue s) (Some ?f) (add_frame (ch_next ?h) ?hn) = Ret (0, buf', add_frame (ch_next ?h) h2)"
        "rbuf_own free_frame buf' n [] (q @ [?f])"
      by blast
    have up: "view h2 = view ?hn" "ch_next h2 = Suc (ch_next ?h)"
      using h2(3) by (simp_all add: gives_up_def del: view.simps)
    have inv2: "hinv lk lf q h2" "ch_surfs h2 a = Some surf"
      using h2 surf by simp_all
    have "ch_bufs h2 b \<noteq> None"
      using hinvD(5) [OF inv2] surf(2) by (simp add: surf_ok_def)
    then obtain buf2 where buf2: "ch_bufs h2 b = Some buf2"
      by blast
    let ?buf2 = "buf2\<lparr>wb_dependents := wb_dependents buf2 + 1\<rparr>"
    let ?h3 = "h2\<lparr>ch_bufs := (ch_bufs h2)(b \<mapsto> ?buf2)\<rparr>"
    have fresh: "vf_block ?f \<notin> vf_block ` set q"
      using hinvD(2) [OF hi] f(1) by (auto simp: frames_ok_def)
    have "unat (wb_dependents buf2 + 1) = surf_refs h2 b + frame_refs q b + 1"
      using buf_count_bound [OF inv2(1) buf2 cinvD(6) [OF inv]] up(2) room by simp
    then have inv3: "hinv (lk(Buffer_Obj b := 1)) lf q ?h3"
      by (intro hinv_set_buf [OF inv2(1) buf2]) auto
    have inv4: "hinv lk lf (q @ [?f]) (add_frame (ch_next ?h) ?h3)"
      using hinv_add_frame [OF inv3, of ?f 0] f fresh up(2) cinvD(6) [OF inv, of b] by (simp add: fun_upd_idem)
    let ?s' = "s\<lparr>ca_queue := buf', ca_frame_count := ca_frame_count s + 1, ca_heap := add_frame (ch_next ?h) ?h3\<rparr>"
    have run: "commit_push env k b buf s = Ret (True, ?s')"
    proof -
      have "?h\<lparr>ch_next := Suc (ch_next ?h), ch_frames := hmalloc (vf_block ?f) (ch_frames ?h)\<rparr> = add_frame (ch_next ?h) ?hn"
        using f by (simp add: add_frame_def hmalloc_def)
      moreover have "(add_frame (ch_next ?h) h2)\<lparr>ch_bufs := (ch_bufs h2)(b \<mapsto> ?buf2)\<rparr> = add_frame (ch_next ?h) ?h3"
        "ch_bufs (add_frame (ch_next ?h) h2) = ch_bufs h2"
        by (simp_all add: add_frame_def)
      ultimately show ?thesis
        using two room'(1) push(1) buf2 unfolding commit_push_def by (simp add: Let_def deref_def)
    qed
    have vw: "view (add_frame (ch_next ?h) ?h3) = view ?h"
    proof -
      have "view (add_frame (ch_next ?h) ?h3) = view h2"
        by (rule view_eqI) (use buf2 in \<open>auto simp: add_frame_def\<close>)
      moreover have "view ?hn = view ?h"
        by (rule view_eqI) simp_all
      ultimately show ?thesis
        using up(1) by simp
    qed
    have att: "attached (add_frame (ch_next ?h) ?h3) = attached ?h"
      using h2(4) by (simp add: attached_def add_frame_def fun_eq_iff)
    have same: "ch_conns h2 = ch_conns ?h" "ch_params h2 = ch_params ?h"
      using h2(3) by (simp_all add: gives_up_def)
    have "tabs_ok (objects s) (view ?h) (attached ?h) (q @ [?f])"
      by (rule tabs_ok_push [OF tabs_ok_mono [OF cinvD(3) [OF inv]] k]) (use surf f in \<open>auto simp: attached_def\<close>)
    then have "cinv lk lf n [] (q @ [?f]) ?s'"
      unfolding cinv_def using cinvD [OF invn] inv4 push(2) vw att same up(2) h2(4)
      by (simp add: add_frame_def)
    then show ?thesis
      using run room' up(2) h2(4) by (auto simp: add_frame_def)
  qed
qed

lemma cinv_sent:
  assumes inv: "cinv lk lf n e q s"
  shows "cinv lk lf n e q (s\<lparr>ca_heap := (ca_heap s)\<lparr>ch_sent := x\<rparr>\<rparr>)"
proof -
  have "attached ((ca_heap s)\<lparr>ch_sent := x\<rparr>) = attached (ca_heap s)"
    by (simp add: attached_def fun_eq_iff)
  then show ?thesis
    unfolding cinv_def using cinvD [OF inv] by (simp del: view.simps)
qed

text \<open>The buffer of a commit with another size is released at once; it is still attached, so it stays.\<close>

lemma release_attached:
  assumes inv: "cinv lk lf n e q s" and k: "ca_sessions s k = Some m" and surf: "ch_surfs (ca_heap s) a = Some surf" "su_buf surf = Some b"
    and buf: "ch_bufs (ca_heap s) b = Some buf"
  shows "send_wl_buffer_release True ok b k (ca_heap s) =
    Ret (if wb_id buf \<noteq> 0 \<and> \<not> ok then - 1 else 0,
      (ca_heap s)\<lparr>ch_sent := ch_sent (ca_heap s) @ (if wb_id buf = 0 then [] else [(k, Release (wb_id buf))])\<rparr>)"
proof -
  have "wb_dependents buf \<noteq> 0"
    using hinvD(4) [OF cinvD(1) [OF inv] buf] surf_refs_use [OF cinvD(1) [OF inv] surf] by (auto simp: buf_ok_def)
  moreover have "k \<in> ch_conns (ca_heap s)"
    using cinvD(4) [OF inv] k by blast
  ultimately show ?thesis
    using buf by (simp add: send_wl_buffer_release_def deref_def)
qed

lemma wl_surface_commit_ok:
  assumes inv: "cinv lk lf n e q s" and room: "Suc (ch_next (ca_heap s)) < 2147483648"
  shows "handled (lossless lk lf) n (Suc (ch_next (ca_heap s))) (wl_surface_commit env k msg s)" (is "handled ?Q n ?nx _")
proof -
  let ?h = "ca_heap s"
  have tail: "handled ?Q n ?nx (bindo (wl_surface_unattach a (ca_heap s')) (\<lambda>h. Ret (PROXY_ACTION_FWD, s'\<lparr>ca_heap := h\<rparr>)))"
    if inv': "cinv lk lf n e' q' s'" and s': "ch_surfs (ca_heap s') a = Some surf" "ch_next (ca_heap s') \<le> ?nx" for a s' e' q' surf
  proof -
    obtain h1 where h1: "wl_surface_unattach a (ca_heap s') = Ret h1" "hinv lk lf (e' @ q') h1" "gives_up (ca_heap s') h1"
      "ch_surfs h1 = (ch_surfs (ca_heap s'))(a \<mapsto> surf\<lparr>su_buf := None\<rparr>)"
      using wl_surface_unattach_ok [OF cinvD(1) [OF inv'] s'(1)] by blast
    have "cinv lk lf n e' q' (s'\<lparr>ca_heap := h1\<rparr>)"
      by (rule cinv_heap [OF inv' h1(2,3)]) (use h1(4) s'(1) in auto)
    from handled_Ret [OF this, of ?Q ?nx] show ?thesis
      using h1(1,3) s'(2) by (simp add: gives_up_def)
  qed
  show ?thesis
    unfolding wl_surface_commit_def
    apply (intro handled_intros)
     apply simp
    subgoal premises prems for m a' a
    proof -
      have m: "ca_sessions s k = Some m" "wl_map_lookup (ps_data m) (ms_sender msg) = Some (Surface_Obj a)"
        using prems by simp_all
      note ob = object_live [OF inv m]
      obtain surf where surf: "ch_surfs ?h a = Some surf"
        using ob(1) by (auto split: option.splits)
      show ?thesis
      proof (cases "su_buf surf")
        case None
        then show ?thesis
          using surf handled_Ret [OF inv, of ?Q] by (simp add: deref_def)
      next
        case (Some b)
        have "ch_bufs ?h b \<noteq> None"
          using hinvD(5) [OF cinvD(1) [OF inv] surf] Some by (simp add: surf_ok_def)
        then obtain buf where buf: "ch_bufs ?h b = Some buf"
          by blast
        show ?thesis
        proof (cases "frame_size_ok buf s")
          case True
          obtain ok s' e' q' where push: "commit_push env k b buf s = Ret (ok, s')" "cinv lk lf n e' q' s'"
            "ch_surfs (ca_heap s') = ch_surfs ?h" "ch_next (ca_heap s') \<le> ?nx"
            using commit_push_ok [OF inv room ob(2) surf Some buf] by blast
          show ?thesis
            using True surf Some buf push tail [OF push(2), of a surf] handled_Ret [OF push(2), of ?Q ?nx]
            by (simp add: deref_def)
        next
          case False
          let ?sent = "ch_sent ?h @ (if wb_id buf = 0 then [] else [(k, Release (wb_id buf))])"
          have null: "send_wl_buffer_release False ok b k ?h = (if wb_id buf = 0 then send_wl_buffer_release True ok b k ?h else Fault Null_Deref)" for ok
            using buf by (simp add: send_wl_buffer_release_def deref_def)
          have rel: "send_wl_buffer_release True (en_send env) b k ?h = Ret (if wb_id buf \<noteq> 0 \<and> \<not> en_send env then - 1 else 0, ?h\<lparr>ch_sent := ?sent\<rparr>)"
            by (rule release_attached [OF inv m(1) surf Some buf])
          note invs = cinv_sent [OF inv, of ?sent]
          have "handled ?Q n ?nx (bindo (wl_surface_unattach a (?h\<lparr>ch_sent := ?sent\<rparr>)) (\<lambda>h. Ret (PROXY_ACTION_FWD, s\<lparr>ca_heap := h\<rparr>)))"
            using tail [OF invs, of a surf] surf by simp
          then show ?thesis
            using False handled_Ret [OF invs, of ?Q ?nx PROXY_ACTION_ERR]
            unfolding deref_def surf option.case bindo.simps Some buf by (cases "en_closure env 0") (auto simp: rel null)
        qed
      qed
    qed
    done
qed

section \<open>The other handlers\<close>

lemma wl_shm_format_ok: "cinv lk lf n e q s \<Longrightarrow> handled (lossless lk lf) n (ch_next (ca_heap s)) (wl_shm_format env k msg s)"
  unfolding wl_shm_format_def by (intro handled_args) (auto intro: handled_Ret)

lemma wl_buffer_release_ok: "cinv lk lf n e q s \<Longrightarrow> handled (lossless lk lf) n (ch_next (ca_heap s)) (wl_buffer_release env k msg s)"
  unfolding wl_buffer_release_def by (intro handled_session) (auto intro: handled_Ret)

end
