(* ===== verification/Capture_Session.thy ===== *)
theory Capture_Session
  imports Capture_Commit
begin

text \<open>
  The capture module as a whole: the dispatch of messages to the handlers, and the destruction of all
  objects of a client that disconnects. Both keep the invariant of \<open>Capture_Inv\<close>.
\<close>

section \<open>Dispatch\<close>

lemma handled_mono: "handled Q n nx r \<Longrightarrow> (\<And>lk lf. Q lk lf \<Longrightarrow> Q' lk lf) \<Longrightarrow> nx \<le> nx' \<Longrightarrow> handled Q' n nx' r"
  unfolding handled_def by (auto split: outcome.splits) (meson order_trans)

definition drop_message :: "(proxy_action \<times> proxy_message \<times> capture) outcome \<Rightarrow> (proxy_action \<times> capture) outcome" where
  "drop_message r = bindo r (\<lambda>(act, msg, s). Ret (act, s))"

lemma drop_same_message [simp]: "drop_message (same_message f env k msg s) = f env k msg s"
  by (cases "f env k msg s") (auto simp: drop_message_def same_message_def)

text \<open>The interface of the object a message creates, when the module keeps a struct for it.\<close>

definition creates :: "proxy_message \<Rightarrow> string option" where
  "creates msg = map_of
     [((''wl_shm'', ''create_pool''), ''wl_shm_pool''), ((''wl_shm_pool'', ''create_buffer''), ''wl_buffer''),
      ((''zwp_linux_dmabuf_v1'', ''create_params''), ''zwp_linux_buffer_params_v1''),
      ((''zwp_linux_buffer_params_v1'', ''create_immed''), ''wl_buffer''), ((''wl_compositor'', ''create_surface''), ''wl_surface'')]
     (ms_interface msg, ms_name msg)"

text \<open>
  What the proxy ensures of a message before it is handled: the session exists, and a new number is one
  of a client and has been registered with the type the protocol gives it. The last condition is not
  ensured: \<^verbatim>\<open>xdg_surface_get_toplevel\<close> must not fail to send.
\<close>

definition message_ok :: "env \<Rightarrow> nat \<Rightarrow> proxy_message \<Rightarrow> capture \<Rightarrow> bool" where
  "message_ok env k msg s \<longleftrightarrow> ca_sessions s k \<noteq> None \<and>
     (\<forall>nm. creates msg = Some nm \<longrightarrow> client_id (ms_args msg ! 0) \<and> typed_at s k (ms_args msg ! 0) nm) \<and>
     (ms_interface msg = ''xdg_surface'' \<longrightarrow> ms_name msg = ''get_toplevel'' \<longrightarrow> en_send env)"

text \<open>What a conforming client does: a number it creates is one the map can take, a plane is set once,
  and the planes are numbered from 0.\<close>

definition conforming :: "nat \<Rightarrow> proxy_message \<Rightarrow> capture \<Rightarrow> bool" where
  "conforming k msg s \<longleftrightarrow>
     (creates msg = Some ''wl_buffer'' \<longrightarrow>
       known (data_map k s) (ms_args msg ! 0) \<and> map_index (ms_args msg ! 0) \<le> WL_MAP_MAX_OBJECTS) \<and>
     (ms_interface msg = ''zwp_linux_buffer_params_v1'' \<longrightarrow>
       (ms_name msg = ''add'' \<longrightarrow> plane_unset k msg s) \<and> (ms_name msg = ''create_immed'' \<longrightarrow> planes_dense k msg s))"

lemma destroy_handled:
  assumes inv: "cinv lk lf n e q s"
  shows "handled (lossless lk lf) n (ch_next (ca_heap s)) (wl_shm_pool_destroy env k msg s)"
    "handled (lossless lk lf) n (ch_next (ca_heap s)) (wl_buffer_destroy env k msg s)"
    "handled (lossless lk lf) n (ch_next (ca_heap s)) (wl_surface_destroy env k msg s)"
    "handled (lossless lk lf) n (ch_next (ca_heap s)) (zwp_linux_buffer_params_destroy env k msg s)"
proof -
  let ?ob = "objects s k (ms_sender msg)"
  have look: "wl_map_lookup (ps_data m) (ms_sender msg) = ?ob" if "ca_sessions s k = Some m" for m
    by (rule session_objects [OF that])
  have ok: "handled (lossless lk lf) n (ch_next (ca_heap s)) (Ret (act, s'))"
    if "cinv lk lf n e q s'" "ch_next (ca_heap s') = ch_next (ca_heap s)" for act s'
    using handled_Ret [OF that(1)] that(2) by simp
  show "handled (lossless lk lf) n (ch_next (ca_heap s)) (wl_shm_pool_destroy env k msg s)"
  proof (cases "\<exists>a. ?ob = Some (Pool_Obj a)")
    case True
    then show ?thesis
      by (elim exE) (rule wl_shm_pool_destroy_ok [OF inv, of k msg _ env], auto intro: ok)
  next
    case False
    then show ?thesis
      unfolding wl_shm_pool_destroy_def by (intro handled_intros) (auto simp: look)
  qed
  show "handled (lossless lk lf) n (ch_next (ca_heap s)) (wl_buffer_destroy env k msg s)"
  proof (cases "\<exists>a. ?ob = Some (Buffer_Obj a)")
    case True
    then show ?thesis
      by (elim exE) (rule wl_buffer_destroy_ok [OF inv, of k msg _ env], auto intro: ok)
  next
    case False
    then show ?thesis
      unfolding wl_buffer_destroy_def using handled_Ret [OF inv, of "lossless lk lf"]
      by (intro handled_intros) (auto simp: look)
  qed
  show "handled (lossless lk lf) n (ch_next (ca_heap s)) (wl_surface_destroy env k msg s)"
  proof (cases "\<exists>a. ?ob = Some (Surface_Obj a)")
    case True
    then show ?thesis
      by (elim exE) (rule wl_surface_destroy_ok [OF inv, of k msg _ env], auto intro: ok)
  next
    case False
    then show ?thesis
      unfolding wl_surface_destroy_def by (intro handled_intros) (auto simp: look)
  qed
  show "handled (lossless lk lf) n (ch_next (ca_heap s)) (zwp_linux_buffer_params_destroy env k msg s)"
  proof (cases "\<exists>a. ?ob = Some (Params_Obj a)")
    case True
    then show ?thesis
      by (elim exE) (rule zwp_linux_buffer_params_destroy_ok [OF inv, of k msg _ env], auto intro: ok)
  next
    case False
    then show ?thesis
      unfolding zwp_linux_buffer_params_destroy_def by (intro handled_intros) (auto simp: look)
  qed
qed

lemma resize_handled:
  assumes inv: "cinv lk lf n e q s" and k: "ca_sessions s k \<noteq> None"
  shows "en_send env \<Longrightarrow> handled (lossless lk lf) n (ch_next (ca_heap s)) (xdg_surface_get_toplevel env k msg s)"
    "handled (lossless lk lf) n (ch_next (ca_heap s)) (xdg_toplevel_configure env k msg s)"
    "handled (lossless lk lf) n (ch_next (ca_heap s)) (xdg_toplevel_set_fullscreen env k msg s)"
    "handled (lossless lk lf) n (ch_next (ca_heap s)) (drop_message (wl_output_mode env k msg s))"
proof -
  have conn: "k \<in> ch_conns (ca_heap s)"
    using k cinvD(4) [OF inv] by blast
  show "handled (lossless lk lf) n (ch_next (ca_heap s)) (xdg_surface_get_toplevel env k msg s)" if "en_send env"
    using that conn handled_Ret [OF inv, of "lossless lk lf"] handled_Ret [OF cinv_sent [OF inv], of "lossless lk lf"]
    by (auto simp: xdg_surface_get_toplevel_def hmalloc_def hfree_all_def closure_args_def hfree_def Let_def)
  show "handled (lossless lk lf) n (ch_next (ca_heap s)) (xdg_toplevel_configure env k msg s)"
    "handled (lossless lk lf) n (ch_next (ca_heap s)) (xdg_toplevel_set_fullscreen env k msg s)"
    using handled_Ret [OF inv, of "lossless lk lf"] by (simp_all add: xdg_toplevel_configure_def xdg_toplevel_set_fullscreen_def)
  show "handled (lossless lk lf) n (ch_next (ca_heap s)) (drop_message (wl_output_mode env k msg s))"
    using handled_Ret [OF inv, of "lossless lk lf"] by (simp add: drop_message_def wl_output_mode_def closure_args_def)
qed

text \<open>Every handler of the tables, on a message of its names.\<close>

lemma handlers_ok:
  assumes inv: "cinv lk lf n e q s" and room: "Suc (ch_next (ca_heap s)) < 2147483648" and ok: "message_ok env k msg s"
    and f: "(ms_interface msg, ms_name msg, f) \<in> set (concat message_handlers)"
  shows "handled (\<lambda>lk' lf'. conforming k msg s \<longrightarrow> lossless lk lf lk' lf') n (Suc (ch_next (ca_heap s))) (drop_message (f env k msg s))"
    (is "handled ?Q n ?nx _")
proof -
  have room': "ch_next (ca_heap s) < 2147483648" and k: "ca_sessions s k \<noteq> None"
    using room ok by (simp_all add: message_ok_def)
  have weaken: "handled ?Q n ?nx r" if "handled (lossless lk lf) n nx r" "nx \<le> ?nx" for nx r
    by (rule handled_mono [OF that(1) _ that(2)]) simp
  have weak: "handled ?Q n ?nx r" if "handled Q n nx r" "nx \<le> ?nx" "\<And>lk' lf'. Q lk' lf' \<Longrightarrow> ?Q lk' lf'" for Q nx r
    by (rule handled_mono [OF that(1,3,2)])
  have new: "client_id (ms_args msg ! 0)" "typed_at s k (ms_args msg ! 0) nm" if "creates msg = Some nm" for nm
    using ok that by (auto simp: message_ok_def)
  consider (resize) "(ms_interface msg, ms_name msg, f) \<in> set resize_message_handlers"
    | (shm) "(ms_interface msg, ms_name msg, f) \<in> set shm_buffers_message_handlers"
    | (dma) "(ms_interface msg, ms_name msg, f) \<in> set dma_buffers_message_handlers"
    | (video) "(ms_interface msg, ms_name msg, f) \<in> set video_output_message_handlers"
    using f by (auto simp: message_handlers_def)
  then show ?thesis
  proof cases
    case resize
    have send: "ms_interface msg = ''xdg_surface'' \<Longrightarrow> ms_name msg = ''get_toplevel'' \<Longrightarrow> en_send env"
      using ok by (simp add: message_ok_def)
    from resize send consider "f = same_message xdg_surface_get_toplevel" "en_send env" | "f = same_message xdg_toplevel_configure"
      | "f = same_message xdg_toplevel_set_fullscreen" | "f = wl_output_mode"
      unfolding resize_message_handlers_def by auto
    then show ?thesis
      by cases (auto intro!: weaken resize_handled [OF inv k])
  next
    case shm
    then consider "f = same_message wl_shm_format" | "f = same_message wl_shm_create_pool" "creates msg = Some ''wl_shm_pool''"
      | "f = same_message wl_shm_pool_destroy" | "f = same_message wl_shm_pool_create_buffer" "creates msg = Some ''wl_buffer''"
      unfolding shm_buffers_message_handlers_def by (auto simp: creates_def)
    then show ?thesis
    proof cases
      case 4
      show ?thesis
        unfolding 4(1) drop_same_message
        by (rule weak [OF wl_shm_pool_create_buffer_ok [OF inv new [OF 4(2)] room']]) (simp_all add: conforming_def 4(2))
    qed (auto intro!: weaken wl_shm_format_ok [OF inv] wl_shm_create_pool_ok [OF inv] destroy_handled [OF inv] simp: new)
  next
    case dma
    then consider "f = same_message zwp_linux_dmabuf_create_params" "creates msg = Some ''zwp_linux_buffer_params_v1''"
      | "f = same_message zwp_linux_buffer_params_add" "ms_interface msg = ''zwp_linux_buffer_params_v1''" "ms_name msg = ''add''"
      | "f = same_message zwp_linux_buffer_params_create_immed" "creates msg = Some ''wl_buffer''"
        "ms_interface msg = ''zwp_linux_buffer_params_v1''" "ms_name msg = ''create_immed''"
      | "f = same_message zwp_linux_buffer_params_destroy"
      unfolding dma_buffers_message_handlers_def by (auto simp: creates_def)
    then show ?thesis
    proof cases
      case 2
      show ?thesis
        unfolding 2(1) drop_same_message
        by (rule weak [OF zwp_linux_buffer_params_add_ok [OF inv, of k msg env]]) (simp_all add: conforming_def 2)
    next
      case 3
      show ?thesis
        unfolding 3(1) drop_same_message
        by (rule weak [OF zwp_linux_buffer_params_create_immed_ok [OF inv new [OF 3(2)]]]) (simp_all add: conforming_def 3)
    qed (auto intro!: weaken zwp_linux_dmabuf_create_params_ok [OF inv] destroy_handled [OF inv] simp: new)
  next
    case video
    then consider "f = same_message wl_buffer_release" | "f = same_message wl_buffer_destroy"
      | "f = same_message wl_compositor_create_surface" "creates msg = Some ''wl_surface''"
      | "f = same_message wl_surface_attach" | "f = same_message wl_surface_commit" | "f = same_message wl_surface_destroy"
      unfolding video_output_message_handlers_def by (auto simp: creates_def)
    then show ?thesis
      by cases (auto intro!: weaken wl_buffer_release_ok [OF inv] wl_compositor_create_surface_ok [OF inv]
          wl_surface_attach_ok [OF inv room'] wl_surface_commit_ok [OF inv room] destroy_handled [OF inv] simp: new)
  qed
qed

lemma find_handler_in:
  assumes "find_handler i nm = Some f"
  shows "(i, nm, f) \<in> set (concat message_handlers)"
proof -
  obtain x where x: "find (\<lambda>(i', n, f). i' = i \<and> n = nm) (concat message_handlers) = Some x" "f = snd (snd x)"
    using assms by (auto simp: find_handler_def)
  have "x \<in> set (concat message_handlers)" "(\<lambda>(i', n, f). i' = i \<and> n = nm) x"
    using x(1) unfolding find_Some_iff by (metis nth_mem)+
  then show ?thesis
    using x(2) by (cases x) auto
qed

text \<open>Freeing the expired frames at the beginning of every message.\<close>

lemma free_expired_ok:
  assumes inv: "cinv lk lf n e q s"
  shows "\<exists>buf h. rbuf_free_expired (ca_queue s) (ca_heap s) = Ret (buf, h) \<and> cinv lk lf n [] q (s\<lparr>ca_queue := buf, ca_heap := h\<rparr>) \<and>
    ch_next h = ch_next (ca_heap s) \<and> ch_params h = ch_params (ca_heap s)"
proof -
  have "\<forall>f \<in> set e. conn_ok (ca_heap s) f"
    using cinv_conn_ok [OF inv] by simp
  then obtain h where h: "foldo free_frame e (ca_heap s) = Ret h" "hinv lk lf q h" "gives_up (ca_heap s) h" "ch_surfs h = ch_surfs (ca_heap s)"
    using frames_given_up [OF cinvD(1) [OF inv]] by blast
  obtain buf where buf: "rbuf_free_expired (ca_queue s) (ca_heap s) = Ret (buf, h)" "rbuf_own free_frame buf n [] q"
    using rbuf_own_free_expired [OF cinvD(2) [OF inv] h(1)] by blast
  have "cinv lk lf n [] q (s\<lparr>ca_queue := buf, ca_heap := h\<rparr>)"
    by (rule cinv_give_up [OF inv _ h(3) _ buf(2)]) (use h in auto)
  then show ?thesis
    using buf(1) h(3) by (auto simp: gives_up_def)
qed

lemma handle_message_ok:
  assumes inv: "cinv lk lf n e q s" and room: "Suc (ch_next (ca_heap s)) < 2147483648" and ok: "message_ok env k msg s"
  shows "handled (\<lambda>lk' lf'. conforming k msg s \<longrightarrow> lossless lk lf lk' lf') n (Suc (ch_next (ca_heap s)))
    (drop_message (handle_message env k msg s))"
proof -
  obtain buf h where fe: "rbuf_free_expired (ca_queue s) (ca_heap s) = Ret (buf, h)"
    "cinv lk lf n [] q (s\<lparr>ca_queue := buf, ca_heap := h\<rparr>)" "ch_next h = ch_next (ca_heap s)" "ch_params h = ch_params (ca_heap s)"
    using free_expired_ok [OF inv] by blast
  let ?s = "s\<lparr>ca_queue := buf, ca_heap := h\<rparr>"
  have ok': "message_ok env k msg ?s"
    using ok by (simp add: message_ok_def typed_at_def)
  have conf: "conforming k msg ?s = conforming k msg s"
    using fe(4) by (simp add: conforming_def data_map_def plane_unset_def planes_dense_def)
  show ?thesis
  proof (cases "find_handler (ms_interface msg) (ms_name msg)")
    case None
    then show ?thesis
      using handled_Ret [OF fe(2)] fe(1,3) by (simp add: handle_message_def drop_message_def)
  next
    case (Some f)
    then show ?thesis
      using handlers_ok [OF fe(2) _ ok' find_handler_in [OF Some]] room fe(1,3) conf by (simp add: handle_message_def)
  qed
qed

section \<open>Destroying the objects of a session\<close>

lemma destroy_dispatch:
  "find_handler (obj_interface (Pool_Obj a)) ''destroy'' = Some (same_message wl_shm_pool_destroy)"
  "find_handler (obj_interface (Buffer_Obj a)) ''destroy'' = Some (same_message wl_buffer_destroy)"
  "find_handler (obj_interface (Surface_Obj a)) ''destroy'' = Some (same_message wl_surface_destroy)"
  "find_handler (obj_interface (Params_Obj a)) ''destroy'' = Some (same_message zwp_linux_buffer_params_destroy)"
  by (simp_all add: find_handler_def message_handlers_def resize_message_handlers_def shm_buffers_message_handlers_def
      dma_buffers_message_handlers_def video_output_message_handlers_def)

lemma destroy_message_ok:
  assumes inv: "cinv lk lf n e q s" and ob: "objects s k i = Some ob"
  shows "\<exists>s' msg'. handle_message env k \<lparr>ms_interface = obj_interface ob, ms_name = ''destroy'', ms_sender = i, ms_args = []\<rparr> s =
      Ret (PROXY_ACTION_FWD, msg', s') \<and> cinv lk lf n [] q s' \<and>
    objects s' = (objects s)(k := (objects s k)(i := None)) \<and> dom (ca_sessions s') = dom (ca_sessions s) \<and>
    known (data_map k s') = known (data_map k s) \<and> ch_next (ca_heap s') = ch_next (ca_heap s)"
proof -
  let ?msg = "\<lparr>ms_interface = obj_interface ob, ms_name = ''destroy'', ms_sender = i, ms_args = []\<rparr>"
  obtain buf h where fe: "rbuf_free_expired (ca_queue s) (ca_heap s) = Ret (buf, h)"
    "cinv lk lf n [] q (s\<lparr>ca_queue := buf, ca_heap := h\<rparr>)" "ch_next h = ch_next (ca_heap s)"
    using free_expired_ok [OF inv] by blast
  let ?s = "s\<lparr>ca_queue := buf, ca_heap := h\<rparr>"
  have ob': "objects ?s k (ms_sender ?msg) = Some ob"
    using ob by simp
  have "\<exists>s' f. find_handler (obj_interface ob) ''destroy'' = Some (same_message f) \<and> f env k ?msg ?s = Ret (PROXY_ACTION_FWD, s') \<and>
    cinv lk lf n [] q s' \<and> removed k i ?s s' \<and> ch_next (ca_heap s') = ch_next h"
  proof (cases ob)
    case (Pool_Obj a)
    show ?thesis
      using ob' unfolding Pool_Obj destroy_dispatch
      by (elim wl_shm_pool_destroy_ok [OF fe(2), where env = env]) auto
  next
    case (Buffer_Obj a)
    show ?thesis
      using ob' unfolding Buffer_Obj destroy_dispatch
      by (elim wl_buffer_destroy_ok [OF fe(2), where env = env]) auto
  next
    case (Surface_Obj a)
    show ?thesis
      using ob' unfolding Surface_Obj destroy_dispatch
      by (elim wl_surface_destroy_ok [OF fe(2), where env = env]) auto
  next
    case (Params_Obj a)
    show ?thesis
      using ob' unfolding Params_Obj destroy_dispatch
      by (elim zwp_linux_buffer_params_destroy_ok [OF fe(2), where env = env]) auto
  qed
  then obtain s' f where f: "find_handler (obj_interface ob) ''destroy'' = Some (same_message f)" "f env k ?msg ?s = Ret (PROXY_ACTION_FWD, s')"
    "cinv lk lf n [] q s'" "removed k i ?s s'" "ch_next (ca_heap s') = ch_next h"
    by blast
  have "handle_message env k ?msg s = Ret (PROXY_ACTION_FWD, ?msg, s')"
    using fe(1) f(1,2) by (simp add: handle_message_def same_message_def)
  moreover have "known (data_map k s') = known (data_map k s)"
    using f(4) by (simp add: removed_def data_map_def)
  ultimately show ?thesis
    using f(3-5) fe(3) by (auto simp: removed_def)
qed

lemma destroy_object_ok:
  assumes inv: "cinv lk lf n e q s" and ob: "objects s k (of_nat idx) = Some ob"
  shows "if en_closure env idx
    then \<exists>s'. destroy_object env k x fl idx s = Ret (True, s') \<and> cinv lk lf n [] q s' \<and>
      objects s' = (objects s)(k := (objects s k)(of_nat idx := None)) \<and> dom (ca_sessions s') = dom (ca_sessions s) \<and>
      known (data_map k s') = known (data_map k s) \<and> ch_next (ca_heap s') = ch_next (ca_heap s)
    else destroy_object env k x fl idx s = Fault Assert_Failed"
proof -
  obtain m where m: "ca_sessions s k = Some m" "wl_map_lookup (ps_data m) (of_nat idx) = Some ob"
    using objects_session [OF ob] by blast
  have "has_type (ps_types m) (of_nat idx) (obj_interface ob)"
    using cinvD(5) [OF inv m(1)] m(2) by (simp add: sess_ok_def)
  then obtain f where f: "wl_map_lookup (ps_types m) (of_nat idx) = Some f" "if_name f = obj_interface ob"
    "list_ex (\<lambda>g. wg_name g = ''destroy'') (if_methods f)"
    by (auto simp: has_type_def split: option.splits)
  from destroy_message_ok [OF inv ob, of env] obtain s' msg' where
    s': "handle_message env k \<lparr>ms_interface = obj_interface ob, ms_name = ''destroy'', ms_sender = of_nat idx, ms_args = []\<rparr> s =
      Ret (PROXY_ACTION_FWD, msg', s')" "cinv lk lf n [] q s'" "objects s' = (objects s)(k := (objects s k)(of_nat idx := None))"
      "dom (ca_sessions s') = dom (ca_sessions s)" "known (data_map k s') = known (data_map k s)" "ch_next (ca_heap s') = ch_next (ca_heap s)"
    by blast
  obtain m' where m': "ca_sessions s' k = Some m'"
    using s'(4) m(1) by blast
  have "wl_map_lookup (ps_data m') (of_nat idx) = None"
    using session_objects [OF m'] s'(3) by simp
  then have "destroy_object env k x fl idx s = (if en_closure env idx then Ret (True, s') else Fault Assert_Failed)"
    using m(1) f s'(1) m' by (simp add: destroy_object_def session_of_def)
  then show ?thesis
    using s' by simp
qed

lemma client_index:
  assumes "i < length (wa_items (wm_client d))" "data_ok d"
  shows "unat (of_nat i :: u32) = i" "(of_nat i :: u32) < WL_SERVER_ID_START"
    "map_index (of_nat i) = of_nat i" "map_entries (of_nat i) d = wm_client d"
proof -
  have i: "i < 15728641"
    using assms by (simp add: data_ok_def)
  then show u: "unat (of_nat i :: u32) = i"
    by (intro unat_of_nat_small) simp
  show l: "(of_nat i :: u32) < WL_SERVER_ID_START"
    using i u by (simp add: word_less_nat_alt)
  show "map_index (of_nat i) = of_nat i" "map_entries (of_nat i) d = wm_client d"
    using l by (simp_all add: map_index_def map_entries_def)
qed

lemma known_length:
  assumes d: "data_ok d" "data_ok d'" and k: "known d' = known d"
  shows "length (wa_items (wm_client d')) = length (wa_items (wm_client d))"
proof -
  have less: "\<not> length (wa_items (wm_client x)) < length (wa_items (wm_client y))" if "data_ok y" "known x = known y" for x y
  proof
    assume l: "length (wa_items (wm_client x)) < length (wa_items (wm_client y))"
    let ?i = "of_nat (length (wa_items (wm_client x))) :: u32"
    note i = client_index [OF l that(1)]
    have "known y ?i"
      using i l by (simp add: known_def)
    moreover have "\<not> known x ?i"
      using i by (simp add: known_def map_entries_def)
    ultimately show False
      using that(2) by simp
  qed
  show ?thesis
    using less [OF d(1) k] less [OF d(2) k [symmetric]] by linarith
qed

text \<open>What the loop over the entries finds under index \<open>i\<close>.\<close>

lemma client_entry:
  assumes m: "ca_sessions s k = Some m" and ok: "data_ok (ps_data m)" and i: "i < length (wa_items (wm_client (ps_data m)))"
  shows "objects s k (of_nat i) = map_entry_get_data (wa_items (wm_client (ps_data m)) ! i)"
    "wa_items (wm_client (ps_data m)) ! i \<noteq> Null True"
proof -
  note c = client_index [OF i ok]
  show "objects s k (of_nat i) = map_entry_get_data (wa_items (wm_client (ps_data m)) ! i)"
    using c i session_objects [OF m, of "of_nat i"]
    by (cases "wa_items (wm_client (ps_data m)) ! i") (auto simp: wl_map_lookup_entry entry_data_def)
  have "\<not> map_entry_get_flags (wa_items (wm_client (ps_data m)) ! i)"
    using ok i by (auto simp: data_ok_def list_all_length)
  then show "wa_items (wm_client (ps_data m)) ! i \<noteq> Null True"
    by auto
qed

lemma server_entry:
  assumes inv: "cinv lk lf n e q s" and m: "ca_sessions s k = Some m" and i: "i < length (wa_items (wm_server (ps_data m)))"
  shows "map_entry_is_free (wa_items (wm_server (ps_data m)) ! i) \<or> wa_items (wm_server (ps_data m)) ! i = Null False"
proof (cases "wa_items (wm_server (ps_data m)) ! i")
  case (Null f)
  have "\<not> map_entry_get_flags (wa_items (wm_server (ps_data m)) ! i)"
    using cinvD(5) [OF inv m] i by (auto simp: sess_ok_def data_ok_def list_all_length)
  then show ?thesis
    using Null by simp
next
  case (Data f p)
  let ?id = "WL_SERVER_ID_START + of_nat i :: u32"
  have small: "i < 15728641"
    using cinvD(5) [OF inv m] i by (simp add: sess_ok_def data_ok_def)
  then have u: "unat ?id = 4278190080 + i"
    by (simp add: unat_word_ariths unat_of_nat_small)
  then have id: "\<not> ?id < WL_SERVER_ID_START" "unat (map_index ?id) = i"
    using small by (simp_all add: word_less_nat_alt map_index_def unat_of_nat_small)
  have "wl_map_lookup (ps_data m) ?id = Some p"
    using i Data id by (simp add: wl_map_lookup_entry entry_data_def map_entries_def)
  then have "objects s k ?id = Some p"
    using session_objects [OF m] by simp
  from tabs_okD(3) [OF cinvD(3) [OF inv] this] show ?thesis
    using id(1) by simp
qed simp

text \<open>The end of a session; it aborts when the closure of a message for one of its objects cannot be allocated.\<close>

lemma handle_session_destroy_ok:
  assumes inv: "cinv lk lf n e q s" and k: "ca_sessions s k \<noteq> None"
  shows "(\<exists>s' e'. handle_session_destroy env k s = Ret s' \<and> cinv lk lf n e' q s' \<and> objects s' = (objects s)(k := (\<lambda>_. None)) \<and>
      dom (ca_sessions s') = dom (ca_sessions s) \<and> ch_next (ca_heap s') = ch_next (ca_heap s)) \<or>
    ((\<exists>i. \<not> en_closure env i) \<and> handle_session_destroy env k s = Fault Assert_Failed)"
proof -
  let ?get = "\<lambda>s. wa_items (wm_client (data_map k s))" and ?gets = "\<lambda>s. wa_items (wm_server (data_map k s))"
  let ?n = "length (?get s)"
  have sess: "\<exists>m. ca_sessions t k = Some m \<and> data_map k t = ps_data m" if d: "dom (ca_sessions t) = dom (ca_sessions s)" for t
  proof -
    have "k \<in> dom (ca_sessions t)"
      unfolding d using k by (simp add: domIff)
    then obtain m where "ca_sessions t k = Some m"
      by blast
    then show ?thesis
      by (simp add: data_map_def)
  qed
  define I where "I i t \<longleftrightarrow> (\<exists>e'. cinv lk lf n e' q t) \<and> length (?get t) = ?n \<and> (\<forall>j < i. objects t k (of_nat j) = None) \<and>
    (\<forall>k'. k' \<noteq> k \<longrightarrow> objects t k' = objects s k') \<and> dom (ca_sessions t) = dom (ca_sessions s) \<and> ch_next (ca_heap t) = ch_next (ca_heap s)"
    for i t
  have each: "(\<exists>t. for_each_helper ?get (destroy_object env k) ?n 0 s = Ret (True, t) \<and> I ?n t) \<or>
      ((\<exists>i. \<not> en_closure env i) \<and> for_each_helper ?get (destroy_object env k) ?n 0 s = Fault Assert_Failed)"
  proof (rule for_each_helper_or_fault [where I = I])
    show "I 0 s"
      using inv by (auto simp: I_def)
    show "i < length (?get t)" if "I i t" "i < ?n" for i t
      using that by (simp add: I_def)
    fix i t
    assume I: "I i t" and i: "i < ?n"
    obtain e' where inv': "cinv lk lf n e' q t"
      using I by (auto simp: I_def)
    obtain m where m: "ca_sessions t k = Some m" "data_map k t = ps_data m"
      using sess [of t] I unfolding I_def by blast
    have ok: "data_ok (ps_data m)"
      using cinvD(5) [OF inv' m(1)] by (simp add: sess_ok_def)
    have len: "i < length (wa_items (wm_client (ps_data m)))"
      using I i m(2) by (simp add: I_def)
    note entry = client_entry [OF m(1) ok len]
    show "I (Suc i) t" if "map_entry_is_free (?get t ! i) \<or> ?get t ! i = Null False"
    proof -
      have "objects t k (of_nat i) = None"
        using entry(1) that m(2) by (cases "?get t ! i") auto
      then show ?thesis
        using I by (auto simp: I_def less_Suc_eq)
    qed
    show "(\<exists>t'. destroy_object env k (map_entry_get_data (?get t ! i)) (map_entry_get_flags (?get t ! i)) i t = Ret (True, t') \<and> I (Suc i) t') \<or>
        ((\<exists>i. \<not> en_closure env i) \<and> destroy_object env k (map_entry_get_data (?get t ! i)) (map_entry_get_flags (?get t ! i)) i t = Fault Assert_Failed)"
      if e: "\<not> map_entry_is_free (?get t ! i)" "?get t ! i \<noteq> Null False"
    proof -
      obtain ob where ob: "objects t k (of_nat i) = Some ob"
      proof (cases "?get t ! i")
        case (Null f)
        then show ?thesis
          using e entry(2) m(2) by (cases f) auto
      qed (use that entry(1) m(2) e in auto)
      show ?thesis
      proof (cases "en_closure env i")
        case False
        then show ?thesis
          using destroy_object_ok [OF inv' ob, of env "map_entry_get_data (?get t ! i)" "map_entry_get_flags (?get t ! i)"] by auto
      next
        case True
        then obtain t' where
          t': "destroy_object env k (map_entry_get_data (?get t ! i)) (map_entry_get_flags (?get t ! i)) i t = Ret (True, t')"
            "cinv lk lf n [] q t'" "objects t' = (objects t)(k := (objects t k)(of_nat i := None))"
            "dom (ca_sessions t') = dom (ca_sessions t)" "known (data_map k t') = known (data_map k t)" "ch_next (ca_heap t') = ch_next (ca_heap t)"
          using destroy_object_ok [OF inv' ob, of env "map_entry_get_data (?get t ! i)" "map_entry_get_flags (?get t ! i)"] by auto
        obtain m' where m': "ca_sessions t' k = Some m'" "data_map k t' = ps_data m'"
          using sess [of t'] t'(4) I unfolding I_def by auto
        have "length (?get t') = length (?get t)"
          using known_length [of "data_map k t" "data_map k t'"] ok m(2) m'(2) cinvD(5) [OF t'(2) m'(1)] t'(5) by (simp add: sess_ok_def)
        then have "I (Suc i) t'"
          using I t' by (auto simp: I_def less_Suc_eq)
        then show ?thesis
          using t'(1) by blast
      qed
    qed
  qed simp
  show ?thesis
  proof (cases "for_each_helper ?get (destroy_object env k) ?n 0 s")
    case (Fault f)
    then show ?thesis
      using each k by (auto simp: handle_session_destroy_def wl_map_for_each_def session_of_def)
  next
    case Block
    then show ?thesis
      using each by simp
  next
    case (Ret r)
    then obtain t where t: "for_each_helper ?get (destroy_object env k) ?n 0 s = Ret (True, t)" "I ?n t"
      using each by auto
    obtain e' where inv': "cinv lk lf n e' q t"
      using t(2) by (auto simp: I_def)
    obtain m where m: "ca_sessions t k = Some m" "data_map k t = ps_data m"
      using sess [of t] t(2) unfolding I_def by blast
    have gone: "objects t k i = None" for i
    proof (rule ccontr)
      assume "objects t k i \<noteq> None"
      then obtain ob where ob: "objects t k i = Some ob"
        by blast
      have i: "i < WL_SERVER_ID_START"
        by (rule tabs_okD(3) [OF cinvD(3) [OF inv'] ob])
      have "known (ps_data m) i"
        using wl_map_lookup_known [of "ps_data m" i ob] session_objects [OF m(1), of i] ob by simp
      then have "unat i < ?n"
        using i t(2) m(2) by (simp add: known_def map_index_def map_entries_def I_def)
      then have "objects t k (of_nat (unat i)) = None"
        using t(2) unfolding I_def by blast
      then show False
        using ob by simp
    qed
    have "\<exists>t'. for_each_helper ?gets (destroy_object env k) (length (?gets t)) 0 t = Ret (True, t') \<and> t' = t"
      by (rule for_each_helper_rule [where I = "\<lambda>i t'. t' = t"]) (use server_entry [OF inv' m(1)] m(2) in auto)
    then have "handle_session_destroy env k s = Ret t"
      using t(1) k by (auto simp: handle_session_destroy_def wl_map_for_each_def session_of_def)
    moreover have "objects t = (objects s)(k := (\<lambda>_. None))"
      using gone t(2) by (auto simp: I_def fun_eq_iff)
    ultimately show ?thesis
      using inv' t(2) by (auto simp: I_def)
  qed
qed

end
