(* ===== verification/Wl_Connection.thy ===== *)
theory Wl_Connection
  imports Wl_Closure
begin

text \<open>
  The connections of the patched libwayland, \<^verbatim>\<open>libs/wayland/src/connection.c\<close>: the growing ring buffers,
  reading from and writing to a socket through them, and reading and sending whole messages.

  The rings of bytes are modelled as they are: a block of a power of two bytes, indexed by two 64-bit
  counters that only grow and wrap. The rings of descriptors use the same code on 4-byte items; they are
  lists here. The answers of \<^verbatim>\<open>recvmsg\<close> and \<^verbatim>\<open>sendmsg\<close> are lists of arguments, one per call; a list that
  ends means that the call does not return.
\<close>

section \<open>Ring buffers\<close>

record wl_ring_buffer =
  rg_data :: "byte list"
  rg_head :: u64
  rg_tail :: u64
  rg_size_bits :: u32
  rg_max_size_bits :: u32

abbreviation WL_BUFFER_DEFAULT_SIZE_POT :: u32 where
  "WL_BUFFER_DEFAULT_SIZE_POT \<equiv> 12"

abbreviation WL_BUFFER_DEFAULT_MAX_SIZE :: u64 where
  "WL_BUFFER_DEFAULT_MAX_SIZE \<equiv> 4096"

definition size_pot :: "u32 \<Rightarrow> u64 outcome" where
  "size_pot size_bits = (if size_bits < 64 then Ret (push_bit (unat size_bits) 1) else Fault Assert_Failed)"

definition ring_buffer_capacity :: "wl_ring_buffer \<Rightarrow> u64 outcome" where
  "ring_buffer_capacity b = size_pot (rg_size_bits b)"

definition ring_buffer_mask :: "wl_ring_buffer \<Rightarrow> u64 \<Rightarrow> u64 outcome" where
  "ring_buffer_mask b i = bindo (ring_buffer_capacity b) (\<lambda>c. Ret (i AND (c - 1)))"

definition ring_buffer_put :: "wl_ring_buffer \<Rightarrow> byte list \<Rightarrow> wl_ring_buffer outcome" where
  "ring_buffer_put b data =
     (let n = of_nat (length data) in
      if n = 0 then Ret b
      else
        bindo (ring_buffer_mask b (rg_head b)) (\<lambda>head.
        bindo (ring_buffer_capacity b) (\<lambda>capacity.
        bindo (if head + n \<le> capacity
               then memcpy (rg_data b) (unat head) data 0 (unat n)
               else let size = capacity - head in
                    bindo (memcpy (rg_data b) (unat head) data 0 (unat size)) (\<lambda>d.
                    memcpy d 0 data (unat size) (unat (n - size)))) (\<lambda>d.
        Ret (b\<lparr>rg_data := d, rg_head := rg_head b + n\<rparr>)))))"

definition ring_buffer_copy :: "wl_ring_buffer \<Rightarrow> u64 \<Rightarrow> byte list outcome" where
  "ring_buffer_copy b n =
     (if n = 0 then Ret []
      else
        bindo (ring_buffer_mask b (rg_tail b)) (\<lambda>tail.
        bindo (ring_buffer_capacity b) (\<lambda>capacity.
        let out = replicate (unat n) 0 in
        if tail + n \<le> capacity
        then memcpy out 0 (rg_data b) (unat tail) (unat n)
        else let size = capacity - tail in
             bindo (memcpy out 0 (rg_data b) (unat tail) (unat size)) (\<lambda>out.
             memcpy out (unat size) (rg_data b) 0 (unat (n - size))))))"

definition ring_buffer_size :: "wl_ring_buffer \<Rightarrow> u64" where
  "ring_buffer_size b = rg_head b - rg_tail b"

text \<open>The segments \<^verbatim>\<open>recvmsg\<close> may fill and \<^verbatim>\<open>sendmsg\<close> takes from, as offsets and lengths.\<close>

definition ring_buffer_put_iov :: "wl_ring_buffer \<Rightarrow> (u64 \<times> u64) list outcome" where
  "ring_buffer_put_iov b =
     bindo (ring_buffer_mask b (rg_head b)) (\<lambda>head.
     bindo (ring_buffer_mask b (rg_tail b)) (\<lambda>tail.
     bindo (ring_buffer_capacity b) (\<lambda>capacity.
     Ret (if head < tail then [(head, tail - head)]
          else if tail = 0 then [(head, capacity - head)]
          else [(head, capacity - head), (0, tail)]))))"

definition ring_buffer_get_iov :: "wl_ring_buffer \<Rightarrow> (u64 \<times> u64) list outcome" where
  "ring_buffer_get_iov b =
     bindo (ring_buffer_mask b (rg_head b)) (\<lambda>head.
     bindo (ring_buffer_mask b (rg_tail b)) (\<lambda>tail.
     bindo (ring_buffer_capacity b) (\<lambda>capacity.
     Ret (if tail < head then [(tail, head - tail)]
          else if head = 0 then [(tail, capacity - tail)]
          else [(tail, capacity - tail), (0, head)]))))"

text \<open>The loop of \<^verbatim>\<open>get_max_size_bits_for_size\<close>, from \<open>bits\<close> on.\<close>

function max_size_bits_from :: "nat \<Rightarrow> u64 \<Rightarrow> nat" where
  "max_size_bits_from bits buffer_size =
     (if bits < 64 \<and> push_bit bits 1 < buffer_size then max_size_bits_from (Suc bits) buffer_size else bits)"
  by pat_completeness auto
termination
  by (relation "measure (\<lambda>(bits, _). 64 - bits)") auto

declare max_size_bits_from.simps [simp del]

definition get_max_size_bits_for_size :: "u64 \<Rightarrow> u32" where
  "get_max_size_bits_for_size buffer_size =
     (if buffer_size = 0 then 0 else of_nat (max_size_bits_from (unat WL_BUFFER_DEFAULT_SIZE_POT) buffer_size))"

definition ring_buffer_allocate :: "bool \<Rightarrow> wl_ring_buffer \<Rightarrow> u32 \<Rightarrow> (int \<times> wl_ring_buffer) outcome" where
  "ring_buffer_allocate calloc_ok b size_bits =
     bindo (size_pot size_bits) (\<lambda>capacity.
     if \<not> calloc_ok then Ret (- 1, b)
     else
       bindo (ring_buffer_copy b (ring_buffer_size b)) (\<lambda>old.
       bindo (memcpy (replicate (unat capacity) 0) 0 old 0 (length old)) (\<lambda>new_data.
       Ret (0, b\<lparr>rg_data := new_data, rg_size_bits := size_bits, rg_head := ring_buffer_size b, rg_tail := 0\<rparr>))))"

definition ring_buffer_get_bits_for_size :: "wl_ring_buffer \<Rightarrow> u64 \<Rightarrow> u32" where
  "ring_buffer_get_bits_for_size b net_size =
     (let bits = get_max_size_bits_for_size net_size;
          bits = (if bits < WL_BUFFER_DEFAULT_SIZE_POT then WL_BUFFER_DEFAULT_SIZE_POT else bits) in
      if rg_max_size_bits b > 0 \<and> bits > rg_max_size_bits b then rg_max_size_bits b else bits)"

definition ring_buffer_is_max_size_reached :: "wl_ring_buffer \<Rightarrow> bool outcome" where
  "ring_buffer_is_max_size_reached b =
     (let net_size = ring_buffer_size b + 1 in
      bindo (size_pot (ring_buffer_get_bits_for_size b net_size)) (\<lambda>capacity. Ret (net_size \<ge> capacity)))"

definition ring_buffer_ensure_space :: "bool \<Rightarrow> wl_ring_buffer \<Rightarrow> u64 \<Rightarrow> (int \<times> wl_ring_buffer) outcome" where
  "ring_buffer_ensure_space calloc_ok b n =
     (let net_size = ring_buffer_size b + n; size_bits = ring_buffer_get_bits_for_size b net_size in
      bindo (size_pot size_bits) (\<lambda>capacity.
      if net_size > capacity then Ret (- 1, b)
      else if size_bits = rg_size_bits b then Ret (0, b)
      else ring_buffer_allocate calloc_ok b size_bits))"

section \<open>Connections\<close>

record wl_connection =
  wc_in :: wl_ring_buffer
  wc_out :: wl_ring_buffer
  wc_fds_in :: "int list"
  wc_fds_out :: "int list"
  wc_fd :: int
  wc_want_flush :: bool

abbreviation MAX_FDS_OUT :: nat where
  "MAX_FDS_OUT \<equiv> 28"

definition zeroed_ring :: wl_ring_buffer where
  "zeroed_ring = \<lparr>rg_data = [], rg_head = 0, rg_tail = 0, rg_size_bits = 0, rg_max_size_bits = 0\<rparr>"

text \<open>Setting the limit makes room in each ring; that this may fail is ignored.\<close>

definition set_max_size :: "bool \<Rightarrow> u64 \<Rightarrow> wl_ring_buffer \<Rightarrow> wl_ring_buffer outcome" where
  "set_max_size calloc_ok max_buffer_size b =
     bindo (ring_buffer_ensure_space calloc_ok (b\<lparr>rg_max_size_bits := get_max_size_bits_for_size max_buffer_size\<rparr>) 0)
       (\<lambda>(_, b). Ret b)"

definition wl_connection_set_max_buffer_size ::
    "bool \<Rightarrow> bool \<Rightarrow> u64 \<Rightarrow> wl_connection \<Rightarrow> wl_connection outcome" where
  "wl_connection_set_max_buffer_size in_ok out_ok max_buffer_size c =
     bindo (set_max_size in_ok max_buffer_size (wc_in c)) (\<lambda>i.
     bindo (set_max_size out_ok max_buffer_size (wc_out c)) (\<lambda>out.
     Ret (c\<lparr>wc_in := i, wc_out := out\<rparr>)))"

definition wl_connection_create :: "bool \<Rightarrow> bool \<Rightarrow> bool \<Rightarrow> int \<Rightarrow> u64 \<Rightarrow> wl_connection option outcome" where
  "wl_connection_create zalloc_ok in_ok out_ok fd max_buffer_size =
     (if \<not> zalloc_ok then Ret None
      else
        bindo (wl_connection_set_max_buffer_size in_ok out_ok max_buffer_size
          \<lparr>wc_in = zeroed_ring, wc_out = zeroed_ring, wc_fds_in = [], wc_fds_out = [], wc_fd = 0, wc_want_flush = False\<rparr>)
        (\<lambda>c. Ret (Some (c\<lparr>wc_fd := fd\<rparr>))))"

text \<open>The descriptors closed and the descriptor of the socket.\<close>

definition wl_connection_destroy :: "wl_connection \<Rightarrow> int list \<times> int" where
  "wl_connection_destroy c = (wc_fds_out c @ wc_fds_in c, wc_fd c)"

definition wl_connection_copy :: "wl_connection \<Rightarrow> u64 \<Rightarrow> byte list outcome" where
  "wl_connection_copy c n = ring_buffer_copy (wc_in c) n"

definition wl_connection_consume :: "wl_connection \<Rightarrow> u64 \<Rightarrow> wl_connection" where
  "wl_connection_consume c n = c\<lparr>wc_in := (wc_in c)\<lparr>rg_tail := rg_tail (wc_in c) + n\<rparr>\<rparr>"

subsection \<open>Writing to the socket\<close>

text \<open>An answer of \<^verbatim>\<open>sendmsg\<close>: the number of bytes it took, or an error, \<^verbatim>\<open>EAGAIN\<close> or another one. The calls
  that were interrupted and made again are not in the list.\<close>

datatype send_answer = Sent u64 | Send_Again | Send_Failed

text \<open>What went out on the socket: bytes and descriptors.\<close>

type_synonym wire_out = "byte list \<times> int list"

definition iov_bytes :: "byte list \<Rightarrow> (u64 \<times> u64) list \<Rightarrow> byte list" where
  "iov_bytes data iov = concat (map (\<lambda>(p, n). take (unat n) (drop (unat p) data)) iov)"

text \<open>
  One call of \<^verbatim>\<open>sendmsg\<close>, with up to \<open>MAX_FDS_OUT\<close> descriptors; with all of them only one byte is offered.
  \<^verbatim>\<open>sendmsg\<close> takes no more than it is offered.
\<close>

definition flush_step ::
    "u64 \<Rightarrow> wl_connection \<Rightarrow> (wl_connection \<times> byte list \<times> int list) outcome" where
  "flush_step len c =
     (let fds = take MAX_FDS_OUT (wc_fds_out c) in
      bindo (if length fds = MAX_FDS_OUT
             then bindo (ring_buffer_mask (wc_out c) (rg_tail (wc_out c))) (\<lambda>tail. Ret [(tail, 1)])
             else ring_buffer_get_iov (wc_out c)) (\<lambda>iov.
      let bytes = take (unat len) (iov_bytes (rg_data (wc_out c)) iov) in
      Ret (c\<lparr>wc_out := (wc_out c)\<lparr>rg_tail := rg_tail (wc_out c) + of_nat (length bytes)\<rparr>,
             wc_fds_out := drop MAX_FDS_OUT (wc_fds_out c)\<rparr>, bytes, fds)))"

text \<open>The result is the answer of the call (0 for success, the number the source returns is not used), whether
  \<^verbatim>\<open>errno\<close> is \<^verbatim>\<open>EAGAIN\<close>, what was sent, and the answers left.\<close>

fun flush_loop ::
    "send_answer list \<Rightarrow> wl_connection \<Rightarrow> wire_out \<Rightarrow> (send_answer \<times> wl_connection \<times> wire_out \<times> send_answer list) outcome" where
  "flush_loop answers c w =
     (if ring_buffer_size (wc_out c) > 0
      then (case answers of
              [] \<Rightarrow> Block
            | Sent len # answers \<Rightarrow>
                bindo (flush_step len c) (\<lambda>(c, bytes, fds). flush_loop answers c (fst w @ bytes, snd w @ fds))
            | err # answers \<Rightarrow> Ret (err, c, w, answers))
      else Ret (Sent 0, c\<lparr>wc_want_flush := False\<rparr>, w, answers))"

declare flush_loop.simps [simp del]

definition wl_connection_flush ::
    "send_answer list \<Rightarrow> wl_connection \<Rightarrow> wire_out \<Rightarrow> (send_answer \<times> wl_connection \<times> wire_out \<times> send_answer list) outcome" where
  "wl_connection_flush answers c w =
     (if \<not> wc_want_flush c then Ret (Sent 0, c, w, answers) else flush_loop answers c w)"

definition wl_connection_queue ::
    "bool \<Rightarrow> byte list \<Rightarrow> send_answer list \<Rightarrow> wl_connection \<Rightarrow> wire_out \<Rightarrow>
     (int \<times> wl_connection \<times> wire_out \<times> send_answer list) outcome" where
  "wl_connection_queue calloc_ok data answers c w =
     (let n = of_nat (length data) in
      bindo (if ring_buffer_size (wc_out c) + n > WL_BUFFER_DEFAULT_MAX_SIZE
             then wl_connection_flush answers (c\<lparr>wc_want_flush := True\<rparr>) w
             else Ret (Sent 0, c, w, answers)) (\<lambda>(r, c, w, answers).
      if r = Send_Failed then Ret (- 1, c, w, answers)
      else
        bindo (ring_buffer_ensure_space calloc_ok (wc_out c) n) (\<lambda>(r, out).
        if r < 0 then Ret (- 1, c\<lparr>wc_out := out\<rparr>, w, answers)
        else bindo (ring_buffer_put out data) (\<lambda>out. Ret (0, c\<lparr>wc_out := out\<rparr>, w, answers)))))"

definition wl_connection_write ::
    "bool \<Rightarrow> byte list \<Rightarrow> send_answer list \<Rightarrow> wl_connection \<Rightarrow> wire_out \<Rightarrow>
     (int \<times> wl_connection \<times> wire_out \<times> send_answer list) outcome" where
  "wl_connection_write calloc_ok data answers c w =
     bindo (wl_connection_queue calloc_ok data answers c w) (\<lambda>(r, c, w, answers).
     if r < 0 then Ret (- 1, c, w, answers) else Ret (0, c\<lparr>wc_want_flush := True\<rparr>, w, answers))"

definition wl_connection_put_fd ::
    "bool \<Rightarrow> int \<Rightarrow> send_answer list \<Rightarrow> wl_connection \<Rightarrow> wire_out \<Rightarrow>
     (int \<times> wl_connection \<times> wire_out \<times> send_answer list) outcome" where
  "wl_connection_put_fd calloc_ok fd answers c w =
     bindo (if length (wc_fds_out c) \<ge> MAX_FDS_OUT
            then wl_connection_flush answers (c\<lparr>wc_want_flush := True\<rparr>) w
            else Ret (Sent 0, c, w, answers)) (\<lambda>(r, c, w, answers).
     if r = Send_Failed then Ret (- 1, c, w, answers)
     else if \<not> calloc_ok then Ret (- 1, c, w, answers)
     else Ret (0, c\<lparr>wc_fds_out := wc_fds_out c @ [fd]\<rparr>, w, answers))"

subsection \<open>Reading from the socket\<close>

text \<open>An answer of \<^verbatim>\<open>recvmsg\<close>: bytes and descriptors, the end of the stream, \<^verbatim>\<open>EAGAIN\<close>, or another error.\<close>

datatype recv_answer = Received "byte list" "int list" | Recv_Eof | Recv_Again | Recv_Failed

primrec fill_iov :: "(u64 \<times> u64) list \<Rightarrow> byte list \<Rightarrow> byte list \<Rightarrow> byte list" where
  "fill_iov [] bs data = data"
| "fill_iov (seg # iov) bs data =
     (case seg of (p, n) \<Rightarrow>
        fill_iov iov (drop (unat n) bs)
          (take (unat p) data @ take (unat n) bs @ drop (unat p + min (unat n) (length bs)) data))"

text \<open>\<^verbatim>\<open>recvmsg\<close> fills no more than the segments have room for. When there is no memory for the descriptors they
  are closed, and the bytes that came with them are not counted.\<close>

fun wl_connection_read ::
    "bool \<Rightarrow> bool \<Rightarrow> recv_answer list \<Rightarrow> wl_connection \<Rightarrow> (int \<times> wl_connection \<times> recv_answer list) outcome" where
  "wl_connection_read calloc_ok fds_ok answers c =
     (let data_size = sint (ucast (ring_buffer_size (wc_in c)) :: u32) in
      bindo (ring_buffer_is_max_size_reached (wc_in c)) (\<lambda>full.
      if full then Ret (data_size, c, answers)
      else
        bindo (ring_buffer_ensure_space calloc_ok (wc_in c) 1) (\<lambda>(r, ring).
        let c = c\<lparr>wc_in := ring\<rparr> in
        if r < 0 then Ret (- 1, c, answers)
        else
          bindo (ring_buffer_put_iov ring) (\<lambda>iov.
          case answers of
            [] \<Rightarrow> Block
          | Recv_Eof # answers \<Rightarrow> Ret (data_size, c, answers)
          | Recv_Again # answers \<Rightarrow> Ret (if data_size > 0 then data_size else - 1, c, answers)
          | Recv_Failed # answers \<Rightarrow> Ret (- 1, c, answers)
          | Received bs fds # answers \<Rightarrow>
              let bs = take (sum_list (map (\<lambda>(p, n). unat n) iov)) bs;
                  ring = ring\<lparr>rg_data := fill_iov iov bs (rg_data ring)\<rparr> in
              if bs = [] then Ret (data_size, c, answers)
              else if fds \<noteq> [] \<and> \<not> fds_ok then Ret (- 1, c\<lparr>wc_in := ring\<rparr>, answers)
              else wl_connection_read calloc_ok fds_ok answers
                     (c\<lparr>wc_in := ring\<lparr>rg_head := rg_head ring + of_nat (length bs)\<rparr>, wc_fds_in := wc_fds_in c @ fds\<rparr>)))))"

declare wl_connection_read.simps [simp del]

section \<open>Messages\<close>

text \<open>
  The message of \<open>size\<close> bytes at the front of the connection, if it can be read, with the descriptors closed
  on the way. The bytes are consumed in every case; whether so many have arrived is not checked here.
\<close>

definition wl_connection_demarshal ::
    "bool \<Rightarrow> bool \<Rightarrow> wl_connection \<Rightarrow> u32 \<Rightarrow> 'a wl_map \<Rightarrow> wl_message \<Rightarrow>
     (wl_closure option \<times> int list \<times> wl_connection \<times> 'a wl_map) outcome" where
  "wl_connection_demarshal init_ok malloc_ok c n objects message =
     (if n < 8 \<or> wl_closure_init init_ok message = None
      then Ret (None, [], wl_connection_consume c (ucast n), objects)
      else
        bindo (wl_connection_copy c (ucast n)) (\<lambda>msg.
        case demarshal_bytes init_ok malloc_ok message msg (wc_fds_in c) objects of
          (r, fds, objects) \<Rightarrow>
            let c = wl_connection_consume (c\<lparr>wc_fds_in := fds\<rparr>) (ucast n) in
            (case r of Inl closed \<Rightarrow> Ret (None, closed, c, objects) | Inr closure \<Rightarrow> Ret (Some closure, [], c, objects))))"

text \<open>The descriptors of a message go to the connection; those that do not fit stay in the closure.\<close>

primrec copy_fds_to_connection ::
    "bool \<Rightarrow> wl_argument list \<Rightarrow> send_answer list \<Rightarrow> wl_connection \<Rightarrow> wire_out \<Rightarrow>
     (int \<times> wl_argument list \<times> wl_connection \<times> wire_out \<times> send_answer list) outcome" where
  "copy_fds_to_connection calloc_ok [] answers c w = Ret (0, [], c, w, answers)"
| "copy_fds_to_connection calloc_ok (a # args) answers c w =
     (case a of
        Fd fd \<Rightarrow>
          bindo (wl_connection_put_fd calloc_ok fd answers c w) (\<lambda>(r, c, w, answers).
          if r \<noteq> 0 then Ret (- 1, a # args, c, w, answers)
          else bindo (copy_fds_to_connection calloc_ok args answers c w) (\<lambda>(r, args, c, w, answers).
               Ret (r, Fd (- 1) # args, c, w, answers)))
      | _ \<Rightarrow>
          bindo (copy_fds_to_connection calloc_ok args answers c w) (\<lambda>(r, args, c, w, answers).
          Ret (r, a # args, c, w, answers)))"

definition wl_closure_send ::
    "bool \<Rightarrow> bool \<Rightarrow> bool \<Rightarrow> wl_closure \<Rightarrow> send_answer list \<Rightarrow> wl_connection \<Rightarrow> wire_out \<Rightarrow>
     (int \<times> wl_closure \<times> wl_connection \<times> wire_out \<times> send_answer list) outcome" where
  "wl_closure_send fds_ok zalloc_ok calloc_ok closure answers c w =
     bindo (copy_fds_to_connection fds_ok (cl_args closure) answers c w) (\<lambda>(r, args, c, w, answers).
     let closure = closure\<lparr>cl_args := args\<rparr> in
     if r \<noteq> 0 \<or> \<not> zalloc_ok then Ret (- 1, closure, c, w, answers)
     else
       (case serialize_closure closure (unat (buffer_size_for_closure closure)) of
          None \<Rightarrow> Ret (- 1, closure, c, w, answers)
        | Some bs \<Rightarrow>
            bindo (wl_connection_write calloc_ok bs answers c w) (\<lambda>(r, c, w, answers).
            Ret (r, closure, c, w, answers))))"

text \<open>\<^verbatim>\<open>wl_closure_destroy\<close> closes the descriptors that are still in the closure.\<close>

definition wl_closure_destroy :: "wl_closure \<Rightarrow> int list" where
  "wl_closure_destroy closure = arg_fds (cl_args closure)"

section \<open>Rings as queues\<close>

text \<open>Items of a ring of \<open>n\<close> items, from position \<open>t\<close> on.\<close>

definition ring_list :: "nat \<Rightarrow> 'a list \<Rightarrow> nat \<Rightarrow> nat \<Rightarrow> 'a list" where
  "ring_list n xs t k = map (\<lambda>i. xs ! ((t + i) mod n)) [0..<k]"

lemma length_ring_list [simp]: "length (ring_list n xs t k) = k"
  by (simp add: ring_list_def)

lemma ring_list_mod: "ring_list n xs (t mod n) k = ring_list n xs t k"
  by (simp add: ring_list_def mod_add_left_eq)

lemma ring_list_wrap:
  assumes "length xs = n" "t < n" "k \<le> n"
  shows "ring_list n xs t k = (if t + k \<le> n then take k (drop t xs) else drop t xs @ take (t + k - n) xs)"
proof (rule nth_equalityI)
  show "length (ring_list n xs t k) = length (if t + k \<le> n then take k (drop t xs) else drop t xs @ take (t + k - n) xs)"
    using assms by auto
  fix i
  assume "i < length (ring_list n xs t k)"
  then have i: "i < k"
    by simp
  have "(t + i) mod n = (if t + i < n then t + i else t + i - n)"
    using assms i by (intro mod_add_wrap) simp_all
  then show "ring_list n xs t k ! i = (if t + k \<le> n then take k (drop t xs) else drop t xs @ take (t + k - n) xs) ! i"
    using assms i by (auto simp: ring_list_def nth_append add.commute)
qed

lemma ring_list_take: "j \<le> k \<Longrightarrow> take j (ring_list n xs t k) = ring_list n xs t j"
  by (simp add: ring_list_def take_map)

lemma ring_list_drop: "j \<le> k \<Longrightarrow> drop j (ring_list n xs t k) = ring_list n xs (t + j) (k - j)"
  by (rule nth_equalityI) (simp_all add: ring_list_def less_diff_conv ac_simps)

text \<open>Writing \<open>ys\<close> at position \<open>h\<close>, in one piece or around the end.\<close>

definition ring_store :: "nat \<Rightarrow> 'a list \<Rightarrow> nat \<Rightarrow> 'a list \<Rightarrow> 'a list" where
  "ring_store n xs h ys =
     (if h + length ys \<le> n then take h xs @ ys @ drop (h + length ys) xs
      else drop (n - h) ys @ drop (h + length ys - n) (take h xs) @ take (n - h) ys)"

lemma length_ring_store: "length xs = n \<Longrightarrow> h < n \<Longrightarrow> length ys \<le> n \<Longrightarrow> length (ring_store n xs h ys) = n"
  by (auto simp: ring_store_def)

lemma ring_store_new:
  assumes "length xs = n" "h < n" "length ys \<le> n" "j < length ys"
  shows "ring_store n xs h ys ! ((h + j) mod n) = ys ! j"
proof -
  have "(h + j) mod n = (if h + j < n then h + j else h + j - n)"
    using assms by (intro mod_add_wrap) simp_all
  then show ?thesis
    using assms by (auto simp: ring_store_def nth_append)
qed

lemma ring_store_old:
  assumes "length xs = n" "h < n" "length ys + j < n"
  shows "ring_store n xs h ys ! ((h + length ys + j) mod n) = xs ! ((h + length ys + j) mod n)"
proof -
  have "(h + (length ys + j)) mod n = (if h + (length ys + j) < n then h + (length ys + j) else h + (length ys + j) - n)"
    using assms by (intro mod_add_wrap) simp_all
  then show ?thesis
    using assms by (auto simp: ring_store_def nth_append ac_simps)
qed

lemma ring_list_store:
  assumes xs: "length xs = n" "k + length ys \<le> n" "0 < n"
  shows "ring_list n (ring_store n xs ((t + k) mod n) ys) t (k + length ys) = ring_list n xs t k @ ys"
proof (rule nth_equalityI)
  fix i
  assume "i < length (ring_list n (ring_store n xs ((t + k) mod n) ys) t (k + length ys))"
  then have i: "i < k + length ys"
    by simp
  let ?h = "(t + k) mod n"
  show "ring_list n (ring_store n xs ?h ys) t (k + length ys) ! i = (ring_list n xs t k @ ys) ! i"
  proof (cases "i < k")
    case True
    define j where "j = n - length ys - k + i"
    have "(?h + length ys + j) mod n = (t + k + (length ys + j)) mod n"
      by (simp add: mod_add_left_eq add.assoc)
    also have "t + k + (length ys + j) = (t + i) + n"
      using xs(2) True by (simp add: j_def)
    finally have p: "(?h + length ys + j) mod n = (t + i) mod n"
      by simp
    have "length ys + j < n"
      using xs(2,3) True by (simp add: j_def)
    then show ?thesis
      using ring_store_old [OF xs(1) _ \<open>length ys + j < n\<close>, of ?h] p i True xs(3) by (simp add: ring_list_def nth_append)
  next
    case False
    then obtain j where j: "i = k + j" "j < length ys"
      using i by (metis add_less_cancel_left le_add_diff_inverse not_less)
    have p: "(?h + j) mod n = (t + i) mod n"
      by (simp add: j mod_add_left_eq add.assoc)
    have "length ys \<le> n"
      using xs(2) by simp
    then show ?thesis
      using ring_store_new [OF xs(1) _ _ j(2), of ?h] p i j(1) xs(3) by (simp add: ring_list_def nth_append)
  qed
qed simp

text \<open>The two copies of the source write around the end.\<close>

lemma memcpy_wrap:
  assumes "length xs = n" "h < n" "length ys \<le> n" "n < h + length ys"
  shows "bindo (memcpy xs h ys 0 (n - h)) (\<lambda>d. memcpy d 0 ys (n - h) (length ys - (n - h))) = Ret (ring_store n xs h ys)"
proof -
  have "drop (length ys - (n - h)) (take h xs @ take (n - h) ys) = drop (h + length ys - n) (take h xs) @ take (n - h) ys"
    using assms by (auto simp: add.commute)
  then show ?thesis
    using assms by (simp add: ring_store_def)
qed

lemma memcpy_flat:
  "h + length ys \<le> length xs \<Longrightarrow> memcpy xs h ys 0 (length ys) = Ret (ring_store (length xs) xs h ys)"
  by (simp add: ring_store_def)

section \<open>The rings of the source\<close>

text \<open>A ring is not yet allocated, or has a block of its size; then \<open>ring_bytes\<close> are the bytes in it.\<close>

definition ring_cap :: "wl_ring_buffer \<Rightarrow> nat" where
  "ring_cap b = 2 ^ unat (rg_size_bits b)"

definition ring_ok :: "wl_ring_buffer \<Rightarrow> bool" where
  "ring_ok b \<longleftrightarrow>
     (if rg_data b = [] then rg_size_bits b = 0 \<and> rg_head b = rg_tail b
      else WL_BUFFER_DEFAULT_SIZE_POT \<le> rg_size_bits b \<and> rg_size_bits b < 64 \<and> length (rg_data b) = ring_cap b \<and>
        unat (ring_buffer_size b) \<le> ring_cap b)"

definition ring_bytes :: "wl_ring_buffer \<Rightarrow> byte list" where
  "ring_bytes b = ring_list (ring_cap b) (rg_data b) (unat (rg_tail b)) (unat (ring_buffer_size b))"

lemma size_pot_simp: "k < 64 \<Longrightarrow> size_pot k = Ret (2 ^ unat k)"
  by (simp add: size_pot_def)

lemma bits_less: "k < (64 :: u32) \<Longrightarrow> unat k < 64"
  by (simp add: word_less_nat_alt)

lemma unat_pot: "j < 64 \<Longrightarrow> unat (2 ^ j :: u64) = 2 ^ j"
proof -
  assume "j < 64"
  then have "(2 :: nat) ^ j < 2 ^ LENGTH(64)"
    by (intro power_strict_increasing) simp_all
  from unat_of_nat_small [OF this] show ?thesis
    by simp
qed

lemma unat_mask_pot:
  assumes "j < 64"
  shows "unat ((i :: u64) AND (2 ^ j - 1)) = unat i mod 2 ^ j"
proof -
  have "2 ^ j - 1 = (mask j :: u64)"
    by (simp add: mask_eq_exp_minus_1)
  then have "i AND (2 ^ j - 1) = take_bit j i"
    by (simp only: take_bit_eq_mask)
  then have "unat (i AND (2 ^ j - 1)) = take_bit j (unat i)"
    by (simp only: unsigned_take_bit_eq)
  then show ?thesis
    by (simp only: take_bit_eq_mod)
qed

lemma ring_capacity_simp: "rg_size_bits b < 64 \<Longrightarrow> ring_buffer_capacity b = Ret (2 ^ unat (rg_size_bits b))"
  by (simp add: ring_buffer_capacity_def size_pot_simp)

lemma ring_mask_simp:
  assumes "rg_size_bits b < 64"
  obtains m where "ring_buffer_mask b i = Ret m" "unat m = unat i mod ring_cap b"
  using assms unat_mask_pot [OF bits_less [OF assms], of i]
  by (simp add: ring_buffer_mask_def ring_capacity_simp ring_cap_def)

lemma unat_add_mod_pot:
  assumes "j \<le> 64"
  shows "unat ((a :: u64) + b) mod 2 ^ j = (unat a + unat b) mod 2 ^ j"
proof -
  have "(2 :: nat) ^ j dvd 2 ^ 64"
    using assms by (rule le_imp_power_dvd)
  then show ?thesis
    unfolding unat_word_ariths by (simp add: mod_mod_cancel)
qed

lemma ring_head_mod:
  assumes "rg_size_bits b < 64"
  shows "unat (rg_head b) mod ring_cap b = (unat (rg_tail b) + unat (ring_buffer_size b)) mod ring_cap b"
proof -
  have "rg_head b = rg_tail b + ring_buffer_size b"
    by (simp add: ring_buffer_size_def)
  then show ?thesis
    using unat_add_mod_pot [of "unat (rg_size_bits b)" "rg_tail b" "ring_buffer_size b"] bits_less [OF assms]
    by (simp add: ring_cap_def)
qed

lemma ring_cap_bound: "rg_size_bits b < 64 \<Longrightarrow> ring_cap b \<le> 2 ^ 63" "0 < ring_cap b"
  using bits_less [of "rg_size_bits b"] power_increasing [of "unat (rg_size_bits b)" 63 "2 :: nat"]
  by (auto simp: ring_cap_def)

lemma ring_copy_ok:
  assumes ok: "ring_ok b" and n: "unat n \<le> unat (ring_buffer_size b)"
  shows "ring_buffer_copy b n = Ret (take (unat n) (ring_bytes b))"
proof (cases "n = 0")
  case True
  then show ?thesis
    by (simp add: ring_buffer_copy_def)
next
  case False
  then have pos: "0 < unat n"
    by (simp add: unat_gt_0)
  then have "rg_data b \<noteq> []"
    using ok n by (auto simp: ring_ok_def ring_buffer_size_def)
  then have bits: "rg_size_bits b < 64" and len: "length (rg_data b) = ring_cap b" and size: "unat (ring_buffer_size b) \<le> ring_cap b"
    using ok by (simp_all add: ring_ok_def)
  obtain tail where tail: "ring_buffer_mask b (rg_tail b) = Ret tail" "unat tail = unat (rg_tail b) mod ring_cap b"
    using ring_mask_simp [OF bits] by blast
  have lt: "unat tail < ring_cap b"
    using tail(2) ring_cap_bound(2) [of b] by simp
  let ?cap = "2 ^ unat (rg_size_bits b) :: u64"
  have cap: "unat ?cap = ring_cap b"
    using unat_pot [OF bits_less [OF bits]] by (simp add: ring_cap_def)
  have sum: "unat (tail + n) = unat tail + unat n"
    using lt n size ring_cap_bound(1) [OF bits] by (intro unat_plus_small) simp
  have le: "tail + n \<le> ?cap \<longleftrightarrow> unat tail + unat n \<le> ring_cap b"
    by (simp add: word_le_nat_alt sum cap)
  have rest: "unat (?cap - tail) = ring_cap b - unat tail"
    using lt by (subst unat_minus_ge) (simp_all add: cap)
  have "take (unat n) (ring_bytes b) = ring_list (ring_cap b) (rg_data b) (unat tail) (unat n)"
    using n by (simp add: ring_bytes_def ring_list_take tail(2) ring_list_mod)
  also have "\<dots> = (if unat tail + unat n \<le> ring_cap b then take (unat n) (drop (unat tail) (rg_data b))
      else drop (unat tail) (rg_data b) @ take (unat tail + unat n - ring_cap b) (rg_data b))"
    by (rule ring_list_wrap [OF len lt]) (use n size in simp)
  finally have want: "take (unat n) (ring_bytes b) = \<dots>" .
  show ?thesis
  proof (cases "tail + n \<le> ?cap")
    case True
    then show ?thesis
      using False tail(1) bits want le len by (simp add: ring_buffer_copy_def ring_capacity_simp Let_def)
  next
    case wrap: False
    have more: "ring_cap b < unat tail + unat n" "unat n \<le> ring_cap b"
      using wrap le n size by simp_all
    have "unat (n - (?cap - tail)) = unat n - (ring_cap b - unat tail)"
      using more lt rest by (subst unat_minus_ge) simp_all
    then show ?thesis
      using False wrap tail(1) bits want le len rest more lt
      by (simp add: ring_buffer_copy_def ring_capacity_simp Let_def add.commute)
  qed
qed

lemma ring_consume:
  assumes ok: "ring_ok b" and n: "unat n \<le> unat (ring_buffer_size b)"
  shows "ring_ok (b\<lparr>rg_tail := rg_tail b + n\<rparr>) \<and> ring_bytes (b\<lparr>rg_tail := rg_tail b + n\<rparr>) = drop (unat n) (ring_bytes b)"
proof -
  let ?b = "b\<lparr>rg_tail := rg_tail b + n\<rparr>"
  have "ring_buffer_size ?b = ring_buffer_size b - n"
    by (simp add: ring_buffer_size_def)
  then have size: "unat (ring_buffer_size ?b) = unat (ring_buffer_size b) - unat n"
    using n by (simp add: unat_minus_ge)
  have ok': "ring_ok ?b"
  proof (cases "rg_data b = []")
    case True
    then have "n = 0"
      using ok n by (simp add: ring_ok_def ring_buffer_size_def unat_eq_0)
    then show ?thesis
      using ok by simp
  next
    case False
    then show ?thesis
      using ok size by (auto simp: ring_ok_def ring_cap_def)
  qed
  have "unat (rg_size_bits b) \<le> 64"
    using ok bits_less [of "rg_size_bits b"] by (auto simp: ring_ok_def split: if_splits)
  then have t: "unat (rg_tail b + n) mod ring_cap b = (unat (rg_tail b) + unat n) mod ring_cap b"
    by (simp add: ring_cap_def unat_add_mod_pot)
  have "ring_bytes ?b = ring_list (ring_cap b) (rg_data b) (unat (rg_tail b + n) mod ring_cap b) (unat (ring_buffer_size b) - unat n)"
    by (simp add: ring_bytes_def size ring_list_mod ring_cap_def)
  also have "\<dots> = drop (unat n) (ring_bytes b)"
    unfolding t using n by (simp add: ring_bytes_def ring_list_drop ring_list_mod)
  finally show ?thesis
    using ok' by blast
qed

text \<open>Writing at the head appends to the bytes.\<close>

lemma ring_received:
  assumes ok: "ring_ok b" "rg_data b \<noteq> []" and room: "unat (ring_buffer_size b) + length bs \<le> ring_cap b"
  shows "ring_ok (b\<lparr>rg_data := ring_store (ring_cap b) (rg_data b) (unat (rg_head b) mod ring_cap b) bs, rg_head := rg_head b + of_nat (length bs)\<rparr>)
      \<and> ring_bytes (b\<lparr>rg_data := ring_store (ring_cap b) (rg_data b) (unat (rg_head b) mod ring_cap b) bs, rg_head := rg_head b + of_nat (length bs)\<rparr>) =
        ring_bytes b @ bs"
proof -
  let ?d = "ring_store (ring_cap b) (rg_data b) (unat (rg_head b) mod ring_cap b) bs"
  let ?b = "b\<lparr>rg_data := ?d, rg_head := rg_head b + of_nat (length bs)\<rparr>"
  have bits: "rg_size_bits b < 64" "WL_BUFFER_DEFAULT_SIZE_POT \<le> rg_size_bits b" and len: "length (rg_data b) = ring_cap b"
    using ok by (simp_all add: ring_ok_def)
  note bound = ring_cap_bound(1) [OF bits(1)] ring_cap_bound(2) [of b]
  have n: "unat (of_nat (length bs) :: u64) = length bs"
    using room bound by (intro unat_of_nat_small) simp
  have "ring_buffer_size ?b = ring_buffer_size b + of_nat (length bs)"
    by (simp add: ring_buffer_size_def)
  then have size: "unat (ring_buffer_size ?b) = unat (ring_buffer_size b) + length bs"
    using room bound n by (simp add: unat_plus_small)
  have "length ?d = ring_cap b"
    using length_ring_store [OF len, of "unat (rg_head b) mod ring_cap b" bs] room bound by simp
  then have "ring_ok ?b"
    using bits size room bound(2) by (auto simp: ring_ok_def ring_cap_def)
  moreover have "ring_bytes ?b = ring_bytes b @ bs"
    using ring_list_store [OF len room bound(2), of "unat (rg_tail b)"] ring_head_mod [OF bits(1)] size
    by (simp add: ring_bytes_def ring_cap_def)
  ultimately show ?thesis
    by blast
qed

text \<open>Bytes written at the head that are not counted do not show.\<close>

lemma ring_received_uncounted:
  assumes ok: "ring_ok b" "rg_data b \<noteq> []" and room: "unat (ring_buffer_size b) + length bs \<le> ring_cap b"
  shows "ring_ok (b\<lparr>rg_data := ring_store (ring_cap b) (rg_data b) (unat (rg_head b) mod ring_cap b) bs\<rparr>) \<and>
    ring_bytes (b\<lparr>rg_data := ring_store (ring_cap b) (rg_data b) (unat (rg_head b) mod ring_cap b) bs\<rparr>) = ring_bytes b"
proof -
  let ?d = "ring_store (ring_cap b) (rg_data b) (unat (rg_head b) mod ring_cap b) bs"
  let ?b = "b\<lparr>rg_data := ?d\<rparr>" and ?k = "unat (ring_buffer_size b)"
  have bits: "rg_size_bits b < 64" and len: "length (rg_data b) = ring_cap b"
    using ok by (simp_all add: ring_ok_def)
  have pos: "0 < ring_cap b"
    by (rule ring_cap_bound(2))
  have d: "length ?d = ring_cap b"
    using length_ring_store [OF len, of "unat (rg_head b) mod ring_cap b" bs] room pos by simp
  then have "?d \<noteq> []"
    using pos by (metis length_0_conv not_gr0)
  then have "ring_ok ?b"
    using ok d by (simp add: ring_ok_def ring_cap_def ring_buffer_size_def)
  moreover have "ring_bytes ?b = take ?k (ring_list (ring_cap b) ?d (unat (rg_tail b)) (?k + length bs))"
    by (simp add: ring_list_take ring_bytes_def ring_cap_def ring_buffer_size_def)
  then have "ring_bytes ?b = ring_bytes b"
    using ring_list_store [OF len room pos, of "unat (rg_tail b)"] ring_head_mod [OF bits] by (simp add: ring_bytes_def)
  ultimately show ?thesis
    by blast
qed

lemma ring_buffer_put_ok:
  assumes ok: "ring_ok b" "rg_data b \<noteq> []" and room: "unat (ring_buffer_size b) + length data \<le> ring_cap b"
  shows "\<exists>b'. ring_buffer_put b data = Ret b' \<and> ring_ok b' \<and> ring_bytes b' = ring_bytes b @ data \<and>
    rg_max_size_bits b' = rg_max_size_bits b"
proof (cases "data = []")
  case True
  then show ?thesis
    using ok by (simp add: ring_buffer_put_def)
next
  case False
  let ?n = "of_nat (length data) :: u64"
  have bits: "rg_size_bits b < 64" "WL_BUFFER_DEFAULT_SIZE_POT \<le> rg_size_bits b" and len: "length (rg_data b) = ring_cap b"
    using ok by (simp_all add: ring_ok_def)
  note bound = ring_cap_bound(1) [OF bits(1)] ring_cap_bound(2) [of b]
  have n: "unat ?n = length data"
    using room bound by (intro unat_of_nat_small) simp
  then have n0: "?n \<noteq> 0"
    using False by (metis length_0_conv unsigned_0)
  obtain head where head: "ring_buffer_mask b (rg_head b) = Ret head" "unat head = unat (rg_head b) mod ring_cap b"
    using ring_mask_simp [OF bits(1)] by blast
  have lt: "unat head < ring_cap b"
    using head(2) bound(2) by simp
  let ?cap = "2 ^ unat (rg_size_bits b) :: u64"
  have cap: "unat ?cap = ring_cap b"
    using unat_pot [OF bits_less [OF bits(1)]] by (simp add: ring_cap_def)
  have sum: "unat (head + ?n) = unat head + length data"
    using lt n room bound by (subst unat_plus_small) simp_all
  have le: "head + ?n \<le> ?cap \<longleftrightarrow> unat head + length data \<le> ring_cap b"
    by (simp only: word_le_nat_alt sum cap)
  have rest: "unat (?cap - head) = ring_cap b - unat head"
    using lt by (subst unat_minus_ge) (simp_all only: cap)
  let ?d = "ring_store (ring_cap b) (rg_data b) (unat head) data"
  have "(if head + ?n \<le> ?cap then memcpy (rg_data b) (unat head) data 0 (unat ?n)
    else let size = ?cap - head in bindo (memcpy (rg_data b) (unat head) data 0 (unat size)) (\<lambda>d.
      memcpy d 0 data (unat size) (unat (?n - size)))) = Ret ?d"
  proof (cases "head + ?n \<le> ?cap")
    case True
    then show ?thesis
      using memcpy_flat [of "unat head" data "rg_data b"] le n len by simp
  next
    case wrap: False
    then have "ring_cap b < unat head + length data"
      using le by simp
    moreover from this have "unat (?n - (?cap - head)) = length data - (ring_cap b - unat head)"
      using n rest by (subst unat_minus_ge) simp_all
    ultimately show ?thesis
      using wrap memcpy_wrap [OF len lt, of data] room rest by (simp add: Let_def)
  qed
  then have put: "ring_buffer_put b data = Ret (b\<lparr>rg_data := ?d, rg_head := rg_head b + ?n\<rparr>)"
    using head(1) bits n0 by (simp add: ring_buffer_put_def ring_capacity_simp Let_def)
  then show ?thesis
    using ring_received [OF ok room] head(2) by simp
qed

lemma max_size_bits_from_spec:
  "start \<le> 64 \<Longrightarrow> start \<le> max_size_bits_from start n \<and> max_size_bits_from start n \<le> 64 \<and>
    (max_size_bits_from start n < 64 \<longrightarrow> unat n \<le> 2 ^ max_size_bits_from start n) \<and>
    (\<forall>m. start \<le> m \<longrightarrow> m < 64 \<longrightarrow> unat n \<le> 2 ^ m \<longrightarrow> max_size_bits_from start n \<le> m)"
proof (induction start n rule: max_size_bits_from.induct)
  case (1 start n)
  show ?case
  proof (cases "start < 64 \<and> push_bit start 1 < n")
    case True
    then have pot: "2 ^ start < unat n"
      using unat_pot [of start] by (simp add: word_less_nat_alt)
    have step: "max_size_bits_from start n = max_size_bits_from (Suc start) n"
      using True by (subst max_size_bits_from.simps) simp
    have "Suc start \<le> m" if "start \<le> m" "unat n \<le> 2 ^ m" for m
      using that pot by (cases "m = start") auto
    then show ?thesis
      using 1 True unfolding step by auto
  next
    case False
    then have "max_size_bits_from start n = start"
      by (subst max_size_bits_from.simps) auto
    then show ?thesis
      using False 1(2) unat_pot [of start] by (auto simp: word_less_nat_alt not_less)
  qed
qed

text \<open>The smallest ring of at least the default size that holds the bytes.\<close>

lemma bits_for_size:
  assumes "rg_max_size_bits b = 0" "unat n \<le> 2 ^ 63"
  shows "WL_BUFFER_DEFAULT_SIZE_POT \<le> ring_buffer_get_bits_for_size b n" "ring_buffer_get_bits_for_size b n < 64"
    "unat n \<le> 2 ^ unat (ring_buffer_get_bits_for_size b n)"
proof -
  let ?m = "max_size_bits_from 12 n"
  have m: "12 \<le> ?m" "?m \<le> 63" "unat n \<le> 2 ^ ?m"
    using max_size_bits_from_spec [of 12 n] assms(2) by (auto dest: spec [of _ "63 :: nat"])
  have w: "unat (of_nat ?m :: u32) = ?m"
    using m by (intro unat_of_nat_small) simp
  have "ring_buffer_get_bits_for_size b n = (if n = 0 then 12 else of_nat ?m)"
    using assms(1) m w by (auto simp: ring_buffer_get_bits_for_size_def get_max_size_bits_for_size_def Let_def word_less_nat_alt)
  then show "WL_BUFFER_DEFAULT_SIZE_POT \<le> ring_buffer_get_bits_for_size b n" "ring_buffer_get_bits_for_size b n < 64"
    "unat n \<le> 2 ^ unat (ring_buffer_get_bits_for_size b n)"
    using m w by (auto simp: word_le_nat_alt word_less_nat_alt)
qed

lemma ring_list_whole: "length xs \<le> n \<Longrightarrow> ring_list n (xs @ ys) 0 (length xs) = xs"
  by (rule nth_equalityI) (auto simp: ring_list_def nth_append)

lemma ring_allocate_ok:
  assumes ok: "ring_ok b" and bits: "WL_BUFFER_DEFAULT_SIZE_POT \<le> bits" "bits < 64" and fits: "unat (ring_buffer_size b) \<le> 2 ^ unat bits"
  shows "ring_buffer_allocate False b bits = Ret (- 1, b)"
    "\<exists>b'. ring_buffer_allocate True b bits = Ret (0, b') \<and> ring_ok b' \<and> ring_bytes b' = ring_bytes b \<and>
      rg_size_bits b' = bits \<and> rg_data b' \<noteq> [] \<and> rg_max_size_bits b' = rg_max_size_bits b"
proof -
  show "ring_buffer_allocate False b bits = Ret (- 1, b)"
    using bits by (simp add: ring_buffer_allocate_def size_pot_simp)
  let ?n = "unat (ring_buffer_size b)" and ?cap = "2 ^ unat bits :: nat"
  have cap: "unat (2 ^ unat bits :: u64) = ?cap"
    by (rule unat_pot [OF bits_less [OF bits(2)]])
  have len: "length (ring_bytes b) = ?n"
    by (simp add: ring_bytes_def)
  have copy: "ring_buffer_copy b (ring_buffer_size b) = Ret (ring_bytes b)"
    using ring_copy_ok [OF ok, of "ring_buffer_size b"] len by simp
  let ?d = "ring_bytes b @ replicate (?cap - ?n) 0"
  let ?b = "b\<lparr>rg_data := ?d, rg_size_bits := bits, rg_head := ring_buffer_size b, rg_tail := 0\<rparr>"
  have "memcpy (replicate ?cap 0) 0 (ring_bytes b) 0 (length (ring_bytes b)) = Ret ?d"
    using fits len by simp
  then have "ring_buffer_allocate True b bits = Ret (0, ?b)"
    using bits copy cap by (simp add: ring_buffer_allocate_def size_pot_simp)
  moreover have "length ?d = ?cap"
    using fits len by simp
  moreover from this have "?d \<noteq> []"
    by (metis length_0_conv power_not_zero zero_neq_numeral)
  moreover have "ring_buffer_size ?b = ring_buffer_size b"
    by (simp add: ring_buffer_size_def)
  moreover have "ring_list ?cap ?d 0 ?n = ring_bytes b"
    using ring_list_whole [of "ring_bytes b" ?cap] fits len by simp
  ultimately show "\<exists>b'. ring_buffer_allocate True b bits = Ret (0, b') \<and> ring_ok b' \<and> ring_bytes b' = ring_bytes b \<and>
      rg_size_bits b' = bits \<and> rg_data b' \<noteq> [] \<and> rg_max_size_bits b' = rg_max_size_bits b"
    using bits fits by (intro exI [of _ ?b]) (auto simp: ring_ok_def ring_cap_def ring_bytes_def)
qed

lemma ring_ensure_space_ok:
  assumes ok: "ring_ok b" "rg_max_size_bits b = 0" and small: "unat (ring_buffer_size b) + unat n \<le> 2 ^ 63"
  shows "(\<exists>b'. ring_buffer_ensure_space calloc_ok b n = Ret (0, b') \<and> ring_ok b' \<and> ring_bytes b' = ring_bytes b \<and> rg_data b' \<noteq> [] \<and>
      unat (ring_buffer_size b') + unat n \<le> ring_cap b' \<and> rg_max_size_bits b' = 0) \<or>
    (\<not> calloc_ok \<and> ring_buffer_ensure_space calloc_ok b n = Ret (- 1, b))"
proof -
  let ?net = "ring_buffer_size b + n" and ?bits = "ring_buffer_get_bits_for_size b (ring_buffer_size b + n)"
  have net: "unat ?net = unat (ring_buffer_size b) + unat n"
    using small by (intro unat_plus_small) simp
  have bits: "WL_BUFFER_DEFAULT_SIZE_POT \<le> ?bits" "?bits < 64" "unat ?net \<le> 2 ^ unat ?bits"
    using bits_for_size [OF ok(2), of ?net] small net by simp_all
  have fits: "\<not> ?net > 2 ^ unat ?bits"
    using bits(3) unat_pot [OF bits_less [OF bits(2)]] by (simp add: word_less_nat_alt)
  have size: "unat (ring_buffer_size x) = length (ring_bytes x)" for x
    by (simp add: ring_bytes_def)
  show ?thesis
  proof (cases "?bits = rg_size_bits b")
    case True
    then have "rg_data b \<noteq> []"
      using ok(1) bits(1) by (auto simp: ring_ok_def)
    moreover have "ring_buffer_ensure_space calloc_ok b n = Ret (0, b)"
      using True fits bits(2) by (simp add: ring_buffer_ensure_space_def Let_def size_pot_simp)
    ultimately show ?thesis
      using ok bits(3) net True by (intro disjI1 exI [of _ b]) (simp add: ring_cap_def)
  next
    case False
    have e: "ring_buffer_ensure_space calloc_ok b n = ring_buffer_allocate calloc_ok b ?bits"
      using False fits bits(2) by (simp add: ring_buffer_ensure_space_def Let_def size_pot_simp)
    have small': "unat (ring_buffer_size b) \<le> 2 ^ unat ?bits"
      using bits(3) net by simp
    show ?thesis
    proof (cases calloc_ok)
      case True
      obtain b' where b': "ring_buffer_allocate True b ?bits = Ret (0, b')" "ring_ok b'" "ring_bytes b' = ring_bytes b"
        "rg_size_bits b' = ?bits" "rg_data b' \<noteq> []" "rg_max_size_bits b' = rg_max_size_bits b"
        using ring_allocate_ok(2) [OF ok(1) bits(1,2) small'] by blast
      have "unat (ring_buffer_size b') + unat n \<le> ring_cap b'"
        using bits(3) net b'(3,4) by (simp add: size ring_cap_def)
      then show ?thesis
        using b' e True ok(2) by auto
    next
      case False
      then show ?thesis
        using ring_allocate_ok(1) [OF ok(1) bits(1,2) small'] e by simp
    qed
  qed
qed

text \<open>The segments handed to \<^verbatim>\<open>sendmsg\<close> are the bytes of the ring, in order.\<close>

lemma ring_get_iov_ok:
  assumes ok: "ring_ok b" and some: "0 < ring_buffer_size b"
  shows "\<exists>iov. ring_buffer_get_iov b = Ret iov \<and> iov_bytes (rg_data b) iov = ring_bytes b"
    "\<exists>tail. ring_buffer_mask b (rg_tail b) = Ret tail \<and> iov_bytes (rg_data b) [(tail, 1)] = take 1 (ring_bytes b)"
proof -
  let ?k = "unat (ring_buffer_size b)" and ?n = "ring_cap b"
  have k: "0 < ?k"
    using some by (simp add: unat_gt_0)
  then have "rg_data b \<noteq> []"
    using ok by (auto simp: ring_ok_def ring_buffer_size_def)
  then have bits: "rg_size_bits b < 64" and len: "length (rg_data b) = ?n" and size: "?k \<le> ?n"
    using ok by (simp_all add: ring_ok_def)
  obtain tail where tail: "ring_buffer_mask b (rg_tail b) = Ret tail" "unat tail = unat (rg_tail b) mod ?n"
    using ring_mask_simp [OF bits] by blast
  obtain head where head: "ring_buffer_mask b (rg_head b) = Ret head" "unat head = unat (rg_head b) mod ?n"
    using ring_mask_simp [OF bits] by blast
  have lt: "unat tail < ?n"
    using tail(2) ring_cap_bound(2) [of b] by simp
  have h: "unat head = (if unat tail + ?k < ?n then unat tail + ?k else unat tail + ?k - ?n)"
    using mod_add_wrap [OF lt size] head(2) tail(2) ring_head_mod [OF bits] by (simp add: mod_add_left_eq)
  have cap: "unat (2 ^ unat (rg_size_bits b) :: u64) = ?n"
    using unat_pot [OF bits_less [OF bits]] by (simp add: ring_cap_def)
  have rest: "unat (2 ^ unat (rg_size_bits b) - tail) = ?n - unat tail"
    using lt by (subst unat_minus_ge) (simp_all only: cap)
  have bytes: "ring_bytes b = (if unat tail + ?k \<le> ?n then take ?k (drop (unat tail) (rg_data b))
      else drop (unat tail) (rg_data b) @ take (unat tail + ?k - ?n) (rg_data b))"
    using ring_list_wrap [OF len lt size] by (simp add: ring_bytes_def tail(2) ring_list_mod)
  have diff: "unat (head - tail) = ?k" if "tail < head"
    using that h lt size by (subst unat_minus_ge) (auto simp: word_less_nat_alt split: if_splits)
  have zero: "head = 0 \<longleftrightarrow> unat head = 0"
    by (simp add: unat_eq_0)
  have get: "ring_buffer_get_iov b = Ret (if tail < head then [(tail, head - tail)]
      else if head = 0 then [(tail, 2 ^ unat (rg_size_bits b) - tail)]
      else [(tail, 2 ^ unat (rg_size_bits b) - tail), (0, head)])"
    using head(1) tail(1) bits by (simp add: ring_buffer_get_iov_def ring_capacity_simp)
  show "\<exists>iov. ring_buffer_get_iov b = Ret iov \<and> iov_bytes (rg_data b) iov = ring_bytes b"
    unfolding get
  proof (intro exI conjI, rule refl)
    consider (flat) "unat tail + ?k < ?n" | (to_end) "unat tail + ?k = ?n" | (wrap) "?n < unat tail + ?k"
      by linarith
    then show "iov_bytes (rg_data b) (if tail < head then [(tail, head - tail)]
        else if head = 0 then [(tail, 2 ^ unat (rg_size_bits b) - tail)]
        else [(tail, 2 ^ unat (rg_size_bits b) - tail), (0, head)]) = ring_bytes b"
    proof cases
      case flat
      then have "tail < head"
        using h k by (simp add: word_less_nat_alt)
      then show ?thesis
        using flat diff bytes by (simp add: iov_bytes_def)
    next
      case to_end
      then have "head = 0" "?k = ?n - unat tail"
        using h zero by simp_all
      then show ?thesis
        using to_end bytes rest by (simp add: iov_bytes_def)
    next
      case wrap
      then have "\<not> tail < head" "head \<noteq> 0" "unat head = unat tail + ?k - ?n"
        using h zero size by (simp_all add: word_less_nat_alt)
      then show ?thesis
        using wrap bytes rest len by (simp add: iov_bytes_def)
    qed
  qed
  have "take 1 (ring_bytes b) = take 1 (drop (unat tail) (rg_data b))"
    using bytes k lt len by (auto simp: min_def)
  then show "\<exists>tail. ring_buffer_mask b (rg_tail b) = Ret tail \<and> iov_bytes (rg_data b) [(tail, 1)] = take 1 (ring_bytes b)"
    using tail(1) by (auto simp: iov_bytes_def)
qed

section \<open>Connections as streams\<close>

definition wc_ok :: "wl_connection \<Rightarrow> bool" where
  "wc_ok c \<longleftrightarrow> ring_ok (wc_in c) \<and> rg_max_size_bits (wc_in c) = 0 \<and> ring_ok (wc_out c) \<and> rg_max_size_bits (wc_out c) = 0"

text \<open>Everything that has been or will be sent: what is on the wire and what waits in the connection.\<close>

definition out_stream :: "wl_connection \<Rightarrow> wire_out \<Rightarrow> byte list" where
  "out_stream c w = fst w @ ring_bytes (wc_out c)"

definition fd_stream :: "wl_connection \<Rightarrow> wire_out \<Rightarrow> int list" where
  "fd_stream c w = snd w @ wc_fds_out c"

text \<open>Writing to the socket moves bytes and descriptors to the wire, in order, and loses none.\<close>

definition moved :: "wl_connection \<Rightarrow> wire_out \<Rightarrow> wl_connection \<Rightarrow> wire_out \<Rightarrow> bool" where
  "moved c w c' w' \<longleftrightarrow> wc_ok c' \<and> out_stream c' w' = out_stream c w \<and> fd_stream c' w' = fd_stream c w \<and>
     unat (ring_buffer_size (wc_out c')) \<le> unat (ring_buffer_size (wc_out c)) \<and>
     wc_in c' = wc_in c \<and> wc_fds_in c' = wc_fds_in c"

lemma moved_refl [simp]: "wc_ok c \<Longrightarrow> moved c w c w"
  by (simp add: moved_def)

lemma moved_want_flush [simp]: "moved c w (c'\<lparr>wc_want_flush := b\<rparr>) w' = moved c w c' w'" "moved (c\<lparr>wc_want_flush := b\<rparr>) w c' w' = moved c w c' w'"
  "wc_ok (c\<lparr>wc_want_flush := b\<rparr>) = wc_ok c"
  by (simp_all add: moved_def wc_ok_def out_stream_def fd_stream_def)

lemma moved_trans: "moved c w c1 w1 \<Longrightarrow> moved c1 w1 c2 w2 \<Longrightarrow> moved c w c2 w2"
  by (simp add: moved_def)

lemma take_drop_length: "take m xs @ drop (length (take m xs)) xs = xs"
  by (cases "m \<le> length xs") simp_all

lemma flush_step_ok:
  assumes c: "wc_ok c" and some: "0 < ring_buffer_size (wc_out c)"
  shows "\<exists>c' bytes fds. flush_step len c = Ret (c', bytes, fds) \<and> moved c w c' (fst w @ bytes, snd w @ fds) \<and>
    (0 < unat len \<longrightarrow> unat (ring_buffer_size (wc_out c')) < unat (ring_buffer_size (wc_out c)))"
proof -
  let ?b = "wc_out c" and ?fds = "take MAX_FDS_OUT (wc_fds_out c)"
  have ok: "ring_ok ?b"
    using c by (simp add: wc_ok_def)
  obtain iov k where iov: "(if length ?fds = MAX_FDS_OUT
      then bindo (ring_buffer_mask ?b (rg_tail ?b)) (\<lambda>tail. Ret [(tail, 1)]) else ring_buffer_get_iov ?b) = Ret iov"
    "iov_bytes (rg_data ?b) iov = take k (ring_bytes ?b)" "0 < k"
  proof (cases "length ?fds = MAX_FDS_OUT")
    case True
    obtain tail where "ring_buffer_mask ?b (rg_tail ?b) = Ret tail" "iov_bytes (rg_data ?b) [(tail, 1)] = take 1 (ring_bytes ?b)"
      using ring_get_iov_ok(2) [OF ok some] by blast
    then show ?thesis
      using True by (intro that [of "[(tail, 1)]" 1]) simp_all
  next
    case False
    obtain iov where "ring_buffer_get_iov ?b = Ret iov" "iov_bytes (rg_data ?b) iov = ring_bytes ?b"
      using ring_get_iov_ok(1) [OF ok some] by blast
    then show ?thesis
      using False by (intro that [of iov "Suc (length (ring_bytes ?b))"]) (auto simp del: length_take)
  qed
  let ?bytes = "take (min (unat len) k) (ring_bytes ?b)"
  let ?n = "of_nat (length ?bytes) :: u64"
  have size: "length (ring_bytes x) = unat (ring_buffer_size x)" for x
    by (simp add: ring_bytes_def)
  have "length ?bytes \<le> unat (ring_buffer_size ?b)"
    by (simp add: size)
  then have n: "unat ?n = length ?bytes" "unat ?n \<le> unat (ring_buffer_size ?b)"
    using unat_lt_64 [of "ring_buffer_size ?b"] by (simp_all add: unat_of_nat_small)
  let ?c = "c\<lparr>wc_out := ?b\<lparr>rg_tail := rg_tail ?b + ?n\<rparr>, wc_fds_out := drop MAX_FDS_OUT (wc_fds_out c)\<rparr>"
  have tail: "ring_ok (wc_out ?c)" "ring_bytes (wc_out ?c) = drop (unat ?n) (ring_bytes ?b)"
    using ring_consume [OF ok n(2)] by simp_all
  have split: "?bytes @ ring_bytes (wc_out ?c) = ring_bytes ?b"
    unfolding tail(2) n(1) by (rule take_drop_length)
  have left: "unat (ring_buffer_size (wc_out ?c)) = unat (ring_buffer_size ?b) - length ?bytes"
    using arg_cong [OF split, of length] by (simp add: size)
  have "0 < length ?bytes" if "0 < unat len"
    using that iov(3) some by (simp add: size unat_gt_0)
  then have "0 < unat len \<longrightarrow> unat (ring_buffer_size (wc_out ?c)) < unat (ring_buffer_size ?b)"
    using left n by linarith
  moreover have "moved c w ?c (fst w @ ?bytes, snd w @ ?fds)"
    using c tail(1) split left by (simp add: moved_def wc_ok_def out_stream_def fd_stream_def)
  moreover have "flush_step len c = Ret (?c, ?bytes, ?fds)"
    using iov(1,2) by (simp add: flush_step_def Let_def min.assoc min.commute [of k])
  ultimately show ?thesis
    by (intro exI [of _ ?c] exI [of _ ?bytes] exI [of _ ?fds]) (intro conjI)
qed

lemma flush_loop_ok:
  "wc_ok c \<Longrightarrow> (case flush_loop answers c w of
      Ret (r, c', w', _) \<Rightarrow> moved c w c' w' \<and> (r \<noteq> Send_Again \<longrightarrow> r \<noteq> Send_Failed \<longrightarrow> ring_buffer_size (wc_out c') = 0)
    | Block \<Rightarrow> True | Fault _ \<Rightarrow> False)"
proof (induction answers arbitrary: c w)
  case Nil
  then show ?case
    by (simp add: flush_loop.simps word_gt_0)
next
  case (Cons a answers)
  show ?case
  proof (cases "0 < ring_buffer_size (wc_out c)")
    case True
    show ?thesis
    proof (cases a)
      case (Sent len)
      obtain c' bytes fds where s: "flush_step len c = Ret (c', bytes, fds)" "moved c w c' (fst w @ bytes, snd w @ fds)"
        using flush_step_ok [OF Cons.prems True, of len w] by blast
      then show ?thesis
        using Cons.IH [of c' "(fst w @ bytes, snd w @ fds)"] True Sent
        by (subst flush_loop.simps) (auto simp: moved_def split: outcome.splits)
    qed (use Cons.prems True in \<open>simp_all add: flush_loop.simps\<close>)
  next
    case False
    then show ?thesis
      using Cons.prems by (simp add: flush_loop.simps word_gt_0)
  qed
qed

text \<open>As long as \<^verbatim>\<open>sendmsg\<close> takes something, a flush returns with nothing left to send.\<close>

lemma flush_loop_returns:
  assumes "wc_ok c" "list_all (\<lambda>a. \<exists>len. a = Sent len \<and> 0 < len) answers" "unat (ring_buffer_size (wc_out c)) \<le> length answers"
  shows "\<exists>c' w' answers'. flush_loop answers c w = Ret (Sent 0, c', w', answers') \<and> ring_buffer_size (wc_out c') = 0 \<and> moved c w c' w'"
  using assms
proof (induction answers arbitrary: c w)
  case Nil
  then show ?case
    by (simp add: flush_loop.simps unat_eq_0)
next
  case (Cons a answers)
  show ?case
  proof (cases "0 < ring_buffer_size (wc_out c)")
    case True
    obtain len where a: "a = Sent len" "0 < unat len"
      using Cons.prems(2) by (auto simp: unat_gt_0)
    obtain c' bytes fds where s: "flush_step len c = Ret (c', bytes, fds)" "moved c w c' (fst w @ bytes, snd w @ fds)"
      "unat (ring_buffer_size (wc_out c')) < unat (ring_buffer_size (wc_out c))"
      using flush_step_ok [OF Cons.prems(1) True, of len w] a(2) by blast
    have "flush_loop (a # answers) c w = flush_loop answers c' (fst w @ bytes, snd w @ fds)"
      using True s(1) a(1) by (subst flush_loop.simps) simp
    then show ?thesis
      using Cons.IH [of c' "(fst w @ bytes, snd w @ fds)"] Cons.prems(2,3) s by (auto simp: moved_def)
  next
    case False
    then show ?thesis
      using Cons.prems by (simp add: flush_loop.simps word_gt_0)
  qed
qed

lemma wl_connection_flush_ok:
  "wc_ok c \<Longrightarrow> (case wl_connection_flush answers c w of
      Ret (r, c', w', _) \<Rightarrow> moved c w c' w' | Block \<Rightarrow> True | Fault _ \<Rightarrow> False)"
  using flush_loop_ok [of c w answers] by (auto simp: wl_connection_flush_def split: outcome.splits)

text \<open>What a call that adds to the streams may do: \<open>bs\<close> and \<open>fds\<close> are added when it returns 0, nothing is otherwise.\<close>

definition adds :: "byte list \<Rightarrow> int list \<Rightarrow> wl_connection \<Rightarrow> wire_out \<Rightarrow> (int \<times> wl_connection \<times> wire_out \<times> send_answer list) outcome \<Rightarrow> bool" where
  "adds bs fds c w out \<longleftrightarrow>
     (case out of
        Ret (r, c', w', _) \<Rightarrow> wc_ok c' \<and> (r = 0 \<or> r = - 1) \<and> wc_in c' = wc_in c \<and> wc_fds_in c' = wc_fds_in c \<and>
          out_stream c' w' = out_stream c w @ (if r = 0 then bs else []) \<and>
          fd_stream c' w' = fd_stream c w @ (if r = 0 then fds else []) \<and>
          unat (ring_buffer_size (wc_out c')) \<le> unat (ring_buffer_size (wc_out c)) + length bs
      | Block \<Rightarrow> True
      | Fault _ \<Rightarrow> False)"

lemma adds_moved:
  assumes "moved c w c1 w1" "adds bs fds c1 w1 out"
  shows "adds bs fds c w out"
  using assms unfolding adds_def moved_def by (auto split: outcome.splits)

lemma ring_size_bytes: "unat (ring_buffer_size b) = length (ring_bytes b)"
  by (simp add: ring_bytes_def)

lemma queue_tail_ok:
  assumes c: "wc_ok c" and small: "unat (ring_buffer_size (wc_out c)) + length data \<le> 2 ^ 63"
  shows "adds data [] c w
    (bindo (ring_buffer_ensure_space calloc_ok (wc_out c) (of_nat (length data))) (\<lambda>(r, out).
     if r < 0 then Ret (- 1, c\<lparr>wc_out := out\<rparr>, w, answers)
     else bindo (ring_buffer_put out data) (\<lambda>out. Ret (0, c\<lparr>wc_out := out\<rparr>, w, answers))))"
proof -
  let ?n = "of_nat (length data) :: u64"
  have n: "unat ?n = length data"
    using small by (intro unat_of_nat_small) simp
  have ok: "ring_ok (wc_out c)" "rg_max_size_bits (wc_out c) = 0"
    using c by (simp_all add: wc_ok_def)
  consider (room) b' where "ring_buffer_ensure_space calloc_ok (wc_out c) ?n = Ret (0, b')" "ring_ok b'" "ring_bytes b' = ring_bytes (wc_out c)"
      "rg_data b' \<noteq> []" "unat (ring_buffer_size b') + unat ?n \<le> ring_cap b'" "rg_max_size_bits b' = 0"
    | (none) "ring_buffer_ensure_space calloc_ok (wc_out c) ?n = Ret (- 1, wc_out c)"
    using ring_ensure_space_ok [OF ok, of ?n calloc_ok] small n by auto
  then show ?thesis
  proof cases
    case room
    obtain b'' where put: "ring_buffer_put b' data = Ret b''" "ring_ok b''" "ring_bytes b'' = ring_bytes b' @ data"
      "rg_max_size_bits b'' = rg_max_size_bits b'"
      using ring_buffer_put_ok [OF room(2,4), of data] room(5) n by auto
    then show ?thesis
      using room c by (simp add: adds_def wc_ok_def out_stream_def fd_stream_def ring_size_bytes)
  next
    case none
    then show ?thesis
      using c by (simp add: adds_def wc_ok_def out_stream_def fd_stream_def)
  qed
qed

lemma wl_connection_write_ok:
  assumes c: "wc_ok c" and small: "unat (ring_buffer_size (wc_out c)) + length data \<le> 2 ^ 63"
  shows "adds data [] c w (wl_connection_write calloc_ok data answers c w)"
proof -
  let ?tail = "\<lambda>(c :: wl_connection) w (answers :: send_answer list).
    bindo (ring_buffer_ensure_space calloc_ok (wc_out c) (of_nat (length data))) (\<lambda>(r, out).
     if r < 0 then Ret (- 1, c\<lparr>wc_out := out\<rparr>, w, answers)
     else bindo (ring_buffer_put out data) (\<lambda>out. Ret (0, c\<lparr>wc_out := out\<rparr>, w, answers)))"
  have "adds data [] c w (wl_connection_queue calloc_ok data answers c w)"
  proof (cases "ring_buffer_size (wc_out c) + of_nat (length data) > WL_BUFFER_DEFAULT_MAX_SIZE")
    case True
    show ?thesis
    proof (cases "wl_connection_flush answers (c\<lparr>wc_want_flush := True\<rparr>) w")
      case (Ret x)
      obtain r c1 w1 ans1 where x: "x = (r, c1, w1, ans1)"
        by (cases x)
      have m: "moved c w c1 w1"
        using wl_connection_flush_ok [of "c\<lparr>wc_want_flush := True\<rparr>" w answers] c Ret x by simp
      then have "adds data [] c1 w1 (?tail c1 w1 ans1)"
        using small by (intro queue_tail_ok) (simp_all add: moved_def)
      then have "adds data [] c w (?tail c1 w1 ans1)"
        by (rule adds_moved [OF m])
      moreover have "adds data [] c w (Ret (- 1, c1, w1, ans1))"
        using m by (auto simp: adds_def moved_def)
      ultimately show ?thesis
        using True Ret x by (simp add: wl_connection_queue_def)
    qed (use True wl_connection_flush_ok [of "c\<lparr>wc_want_flush := True\<rparr>" w answers] c in \<open>auto simp: wl_connection_queue_def adds_def\<close>)
  next
    case False
    then show ?thesis
      using queue_tail_ok [OF c small] by (simp add: wl_connection_queue_def)
  qed
  then show ?thesis
    unfolding wl_connection_write_def
    by (cases "wl_connection_queue calloc_ok data answers c w") (auto simp: adds_def wc_ok_def out_stream_def fd_stream_def)
qed

text \<open>A write that fits the default size is not flushed.\<close>

lemma wl_connection_write_direct:
  assumes c: "wc_ok c" and small: "unat (ring_buffer_size (wc_out c)) + length data \<le> 4096"
  shows "\<exists>c'. wl_connection_write True data answers c w = Ret (0, c', w, answers)"
proof -
  let ?n = "of_nat (length data) :: u64"
  have n: "unat ?n = length data"
    using small by (intro unat_of_nat_small) simp
  then have "unat (ring_buffer_size (wc_out c) + ?n) = unat (ring_buffer_size (wc_out c)) + length data"
    using small by (subst unat_plus_small) simp_all
  then have direct: "\<not> ring_buffer_size (wc_out c) + ?n > WL_BUFFER_DEFAULT_MAX_SIZE"
    using small by (simp add: word_less_nat_alt)
  obtain b' where b': "ring_buffer_ensure_space True (wc_out c) ?n = Ret (0, b')" "ring_ok b'" "rg_data b' \<noteq> []"
    "unat (ring_buffer_size b') + unat ?n \<le> ring_cap b'"
    using ring_ensure_space_ok [of "wc_out c" ?n True] c small n by (auto simp: wc_ok_def)
  then obtain b'' where "ring_buffer_put b' data = Ret b''"
    using ring_buffer_put_ok [of b' data] n by auto
  then show ?thesis
    using direct b'(1) by (simp add: wl_connection_write_def wl_connection_queue_def)
qed

lemma wl_connection_put_fd_ok:
  assumes c: "wc_ok c"
  shows "adds [] [fd] c w (wl_connection_put_fd calloc_ok fd answers c w)"
proof (cases "length (wc_fds_out c) \<ge> MAX_FDS_OUT")
  case True
  show ?thesis
  proof (cases "wl_connection_flush answers (c\<lparr>wc_want_flush := True\<rparr>) w")
    case (Ret x)
    obtain r c1 w1 ans1 where x: "x = (r, c1, w1, ans1)"
      by (cases x)
    have m: "moved c w c1 w1"
      using wl_connection_flush_ok [of "c\<lparr>wc_want_flush := True\<rparr>" w answers] c Ret x by simp
    then show ?thesis
      using True Ret x by (auto simp: wl_connection_put_fd_def adds_def moved_def wc_ok_def out_stream_def fd_stream_def)
  qed (use True wl_connection_flush_ok [of "c\<lparr>wc_want_flush := True\<rparr>" w answers] c in \<open>auto simp: wl_connection_put_fd_def adds_def\<close>)
next
  case False
  then show ?thesis
    using c by (auto simp: wl_connection_put_fd_def adds_def wc_ok_def out_stream_def fd_stream_def)
qed

section \<open>Receiving\<close>

text \<open>The segments handed to \<^verbatim>\<open>recvmsg\<close> are the free part of the ring, in order.\<close>

lemma ring_put_iov_ok:
  assumes ok: "ring_ok b" "rg_data b \<noteq> []" and room: "unat (ring_buffer_size b) < ring_cap b"
  shows "\<exists>iov. ring_buffer_put_iov b = Ret iov \<and> sum_list (map (\<lambda>(p, n). unat n) iov) = ring_cap b - unat (ring_buffer_size b) \<and>
    (\<forall>bs. length bs \<le> ring_cap b - unat (ring_buffer_size b) \<longrightarrow>
      fill_iov iov bs (rg_data b) = ring_store (ring_cap b) (rg_data b) (unat (rg_head b) mod ring_cap b) bs)"
proof -
  let ?k = "unat (ring_buffer_size b)" and ?n = "ring_cap b"
  have bits: "rg_size_bits b < 64" and len: "length (rg_data b) = ?n"
    using ok by (simp_all add: ring_ok_def)
  obtain tail where tail: "ring_buffer_mask b (rg_tail b) = Ret tail" "unat tail = unat (rg_tail b) mod ?n"
    using ring_mask_simp [OF bits] by blast
  obtain head where head: "ring_buffer_mask b (rg_head b) = Ret head" "unat head = unat (rg_head b) mod ?n"
    using ring_mask_simp [OF bits] by blast
  have lt: "unat tail < ?n" "unat head < ?n"
    using tail(2) head(2) ring_cap_bound(2) [of b] by simp_all
  have h: "unat head = (if unat tail + ?k < ?n then unat tail + ?k else unat tail + ?k - ?n)"
    using mod_add_wrap [OF lt(1), of ?k] room head(2) tail(2) ring_head_mod [OF bits] by (simp add: mod_add_left_eq)
  have cap: "unat (2 ^ unat (rg_size_bits b) :: u64) = ?n"
    using unat_pot [OF bits_less [OF bits]] by (simp add: ring_cap_def)
  have rest: "unat (2 ^ unat (rg_size_bits b) - head) = ?n - unat head"
    using lt(2) by (subst unat_minus_ge) (simp_all only: cap)
  have diff: "unat (tail - head) = unat tail - unat head" if "head < tail"
    using that by (intro unat_minus_ge) (simp add: word_less_nat_alt)
  have get: "ring_buffer_put_iov b = Ret (if head < tail then [(head, tail - head)]
      else if tail = 0 then [(head, 2 ^ unat (rg_size_bits b) - head)]
      else [(head, 2 ^ unat (rg_size_bits b) - head), (0, tail)])"
    using head(1) tail(1) bits by (simp add: ring_buffer_put_iov_def ring_capacity_simp)
  consider (below) "head < tail" "?n - ?k = unat tail - unat head"
    | (to_end) "\<not> head < tail" "tail = 0" "?n - ?k = ?n - unat head"
    | (wrap) "\<not> head < tail" "tail \<noteq> 0" "?n - ?k = ?n - unat head + unat tail"
    using h lt room by (cases "tail = 0") (auto simp: word_less_nat_alt split: if_splits)
  then show ?thesis
  proof cases
    case below
    then show ?thesis
      unfolding get using diff lt len by (auto simp: ring_store_def head(2) [symmetric])
  next
    case to_end
    then show ?thesis
      unfolding get using rest lt len by (auto simp: ring_store_def head(2) [symmetric])
  next
    case wrap
    have "fill_iov [(head, 2 ^ unat (rg_size_bits b) - head), (0, tail)] bs (rg_data b) = ring_store ?n (rg_data b) (unat head) bs"
      if bs: "length bs \<le> ?n - ?k" for bs
    proof (cases "length bs \<le> ?n - unat head")
      case True
      then have "unat head + length bs \<le> ?n"
        using lt(2) by simp
      then show ?thesis
        using True rest by (simp add: ring_store_def)
    next
      case False
      have m: "length bs - (?n - unat head) \<le> unat tail" "unat tail \<le> unat head" "\<not> unat head + length bs \<le> ?n"
        "unat head + length bs - ?n = length bs - (?n - unat head)"
        using False bs wrap lt(2) by (simp_all add: word_less_nat_alt)
      have "drop (unat head + (?n - unat head)) (rg_data b) = []"
        using len lt(2) by simp
      then have "fill_iov [(head, 2 ^ unat (rg_size_bits b) - head), (0, tail)] bs (rg_data b) =
        drop (?n - unat head) bs @ drop (length bs - (?n - unat head)) (take (unat head) (rg_data b) @ take (?n - unat head) bs)"
        using False m(1) rest by (simp add: min_absorb1 min_absorb2)
      then show ?thesis
        using m len lt(2) by (simp add: ring_store_def)
    qed
    then show ?thesis
      unfolding get using wrap rest by (auto simp: head(2) [symmetric])
  qed
qed

text \<open>What can still arrive.\<close>

primrec recv_length :: "recv_answer \<Rightarrow> nat" where
  "recv_length (Received bs fds) = length bs"
| "recv_length Recv_Eof = 0"
| "recv_length Recv_Again = 0"
| "recv_length Recv_Failed = 0"

definition read_ok :: "wl_connection \<Rightarrow> (int \<times> wl_connection \<times> recv_answer list) outcome \<Rightarrow> bool" where
  "read_ok c out \<longleftrightarrow>
     (case out of
        Ret (r, c', _) \<Rightarrow> wc_ok c' \<and> wc_out c' = wc_out c \<and> wc_fds_out c' = wc_fds_out c \<and>
          (\<exists>bs fds. ring_bytes (wc_in c') = ring_bytes (wc_in c) @ bs \<and> wc_fds_in c' = wc_fds_in c @ fds) \<and>
          (r = - 1 \<or> r = int (length (ring_bytes (wc_in c'))))
      | Block \<Rightarrow> True
      | Fault _ \<Rightarrow> False)"

lemma read_okI:
  "wc_ok c' \<Longrightarrow> wc_out c' = wc_out c \<Longrightarrow> wc_fds_out c' = wc_fds_out c \<Longrightarrow> ring_bytes (wc_in c') = ring_bytes (wc_in c) @ bs \<Longrightarrow>
    wc_fds_in c' = wc_fds_in c @ fds \<Longrightarrow> r = - 1 \<or> r = int (length (ring_bytes (wc_in c'))) \<Longrightarrow> read_ok c (Ret (r, c', answers))"
  by (auto simp: read_ok_def)

lemma read_ok_later:
  assumes "read_ok c1 out" "wc_out c1 = wc_out c" "wc_fds_out c1 = wc_fds_out c" "ring_bytes (wc_in c1) = ring_bytes (wc_in c) @ bs"
    "wc_fds_in c1 = wc_fds_in c @ fds"
  shows "read_ok c out"
  using assms by (auto simp: read_ok_def split: outcome.splits)

lemma read_step:
  assumes c: "wc_ok c" and small: "unat (ring_buffer_size (wc_in c)) < 2 ^ 31"
  shows "wl_connection_read calloc_ok fds_ok answers c = Ret (int (length (ring_bytes (wc_in c))), c, answers) \<or>
    wl_connection_read calloc_ok fds_ok answers c = Ret (- 1, c, answers) \<or>
    (\<exists>ring iov. ring_ok ring \<and> rg_max_size_bits ring = 0 \<and> ring_bytes ring = ring_bytes (wc_in c) \<and> rg_data ring \<noteq> [] \<and>
      unat (ring_buffer_size ring) < ring_cap ring \<and> ring_buffer_put_iov ring = Ret iov \<and>
      (answers = [] \<longrightarrow> wl_connection_read calloc_ok fds_ok answers c = Block) \<and>
      (\<forall>as. answers = Recv_Eof # as \<longrightarrow>
        wl_connection_read calloc_ok fds_ok answers c = Ret (int (length (ring_bytes (wc_in c))), c\<lparr>wc_in := ring\<rparr>, as)) \<and>
      (\<forall>as. answers = Recv_Again # as \<longrightarrow>
        (\<exists>r. wl_connection_read calloc_ok fds_ok answers c = Ret (r, c\<lparr>wc_in := ring\<rparr>, as) \<and> (r = - 1 \<or> r = int (length (ring_bytes (wc_in c)))))) \<and>
      (\<forall>as. answers = Recv_Failed # as \<longrightarrow> wl_connection_read calloc_ok fds_ok answers c = Ret (- 1, c\<lparr>wc_in := ring\<rparr>, as)) \<and>
      (\<forall>bs fds as. answers = Received bs fds # as \<longrightarrow>
        wl_connection_read calloc_ok fds_ok answers c =
          (let bs = take (sum_list (map (\<lambda>(p, n). unat n) iov)) bs; ring' = ring\<lparr>rg_data := fill_iov iov bs (rg_data ring)\<rparr> in
           if bs = [] then Ret (int (length (ring_bytes (wc_in c))), c\<lparr>wc_in := ring\<rparr>, as)
           else if fds \<noteq> [] \<and> \<not> fds_ok then Ret (- 1, c\<lparr>wc_in := ring'\<rparr>, as)
           else wl_connection_read calloc_ok fds_ok as
                  (c\<lparr>wc_in := ring'\<lparr>rg_head := rg_head ring' + of_nat (length bs)\<rparr>, wc_fds_in := wc_fds_in c @ fds\<rparr>))))"
proof -
  let ?b = "wc_in c"
  have ok: "ring_ok ?b" "rg_max_size_bits ?b = 0"
    using c by (simp_all add: wc_ok_def)
  have "unat (ucast (ring_buffer_size ?b) :: u32) = unat (ring_buffer_size ?b)"
    using small by (simp add: unsigned_ucast_eq take_bit_nat_eq_self_iff)
  then have u: "uint (ucast (ring_buffer_size ?b) :: u32) = int (length (ring_bytes ?b))"
    unfolding ring_size_bytes [symmetric] by (metis uint_nat)
  have "int (length (ring_bytes ?b)) < 2 ^ 31"
    using small unfolding ring_size_bytes by simp
  then have size: "sint (ucast (ring_buffer_size ?b) :: u32) = int (length (ring_bytes ?b))"
    unfolding sint_uint u by (intro signed_take_bit_int_eq_self) simp_all
  have "unat (ring_buffer_size ?b + 1) \<le> 2 ^ 63"
    using small by (subst unat_plus_small) simp_all
  then obtain full where full: "ring_buffer_is_max_size_reached ?b = Ret full"
    using bits_for_size(2) [OF ok(2)] by (simp add: ring_buffer_is_max_size_reached_def size_pot_simp Let_def)
  consider (space) ring where "ring_buffer_ensure_space calloc_ok ?b 1 = Ret (0, ring)" "ring_ok ring" "ring_bytes ring = ring_bytes ?b"
      "rg_data ring \<noteq> []" "unat (ring_buffer_size ring) + 1 \<le> ring_cap ring" "rg_max_size_bits ring = 0"
    | (none) "ring_buffer_ensure_space calloc_ok ?b 1 = Ret (- 1, ?b)"
    using ring_ensure_space_ok [OF ok, of 1 calloc_ok] small by auto
  then show ?thesis
  proof cases
    case space
    obtain iov where iov: "ring_buffer_put_iov ring = Ret iov"
      using ring_put_iov_ok [OF space(2,4)] space(5) by auto
    show ?thesis
    proof (cases full)
      case True
      then show ?thesis
        by (subst wl_connection_read.simps) (simp add: full size)
    next
      case False
      then show ?thesis
        using space iov full size
        by (intro disjI2 exI [of _ ring] exI [of _ iov] conjI allI impI) (simp_all add: wl_connection_read.simps [of _ _ _ c] Let_def)
    qed
  next
    case none
    then show ?thesis
      by (cases full) (simp_all add: wl_connection_read.simps [of _ _ _ c] full size)
  qed
qed

lemma wl_connection_read_ok:
  assumes "wc_ok c" "unat (ring_buffer_size (wc_in c)) + sum_list (map recv_length answers) < 2 ^ 31"
  shows "read_ok c (wl_connection_read calloc_ok fds_ok answers c)"
  using assms
proof (induction answers arbitrary: c)
  case Nil
  then have "unat (ring_buffer_size (wc_in c)) < 2 ^ 31"
    by simp
  from read_step [OF Nil.prems(1) this, of calloc_ok fds_ok "[]"] show ?case
    using Nil.prems(1) by (auto simp: read_ok_def)
next
  case (Cons a answers)
  let ?r = "wl_connection_read calloc_ok fds_ok (a # answers) c"
  have "unat (ring_buffer_size (wc_in c)) < 2 ^ 31"
    using Cons.prems(2) by simp
  from read_step [OF Cons.prems(1) this, of calloc_ok fds_ok "a # answers"]
  consider "?r = Ret (int (length (ring_bytes (wc_in c))), c, a # answers) \<or> ?r = Ret (- 1, c, a # answers)"
    | ring iov where "ring_ok ring" "rg_max_size_bits ring = 0" "ring_bytes ring = ring_bytes (wc_in c)" "rg_data ring \<noteq> []"
      "unat (ring_buffer_size ring) < ring_cap ring" "ring_buffer_put_iov ring = Ret iov"
      "\<And>as. a # answers = Recv_Eof # as \<Longrightarrow> ?r = Ret (int (length (ring_bytes (wc_in c))), c\<lparr>wc_in := ring\<rparr>, as)"
      "\<And>as. a # answers = Recv_Again # as \<Longrightarrow>
        \<exists>r. ?r = Ret (r, c\<lparr>wc_in := ring\<rparr>, as) \<and> (r = - 1 \<or> r = int (length (ring_bytes (wc_in c))))"
      "\<And>as. a # answers = Recv_Failed # as \<Longrightarrow> ?r = Ret (- 1, c\<lparr>wc_in := ring\<rparr>, as)"
      "\<And>bs fds as. a # answers = Received bs fds # as \<Longrightarrow> ?r =
          (let bs = take (sum_list (map (\<lambda>(p, n). unat n) iov)) bs; ring' = ring\<lparr>rg_data := fill_iov iov bs (rg_data ring)\<rparr> in
           if bs = [] then Ret (int (length (ring_bytes (wc_in c))), c\<lparr>wc_in := ring\<rparr>, as)
           else if fds \<noteq> [] \<and> \<not> fds_ok then Ret (- 1, c\<lparr>wc_in := ring'\<rparr>, as)
           else wl_connection_read calloc_ok fds_ok as
                  (c\<lparr>wc_in := ring'\<lparr>rg_head := rg_head ring' + of_nat (length bs)\<rparr>, wc_fds_in := wc_fds_in c @ fds\<rparr>))"
    by (elim disjE exE conjE) (simp, simp, blast)
  then show ?case
  proof cases
    case 1
    then show ?thesis
      using Cons.prems(1) by (auto simp: read_ok_def)
  next
    case (2 ring iov)
    have ring: "wc_ok (c\<lparr>wc_in := ring\<rparr>)"
      using Cons.prems(1) 2(1,2) by (simp add: wc_ok_def)
    have stop: "read_ok c (Ret (r, c\<lparr>wc_in := ring\<rparr>, answers))" if "r = - 1 \<or> r = int (length (ring_bytes (wc_in c)))" for r
      by (rule read_okI [OF ring, where bs = "[]" and fds = "[]"]) (use that 2(3) in auto)
    show ?thesis
    proof (cases a)
      case (Received bs0 fds)
      let ?free = "ring_cap ring - unat (ring_buffer_size ring)"
      let ?bs = "take ?free bs0"
      let ?d = "ring_store (ring_cap ring) (rg_data ring) (unat (rg_head ring) mod ring_cap ring) ?bs"
      have iov: "sum_list (map (\<lambda>(p, n). unat n) iov) = ?free" "fill_iov iov ?bs (rg_data ring) = ?d"
        using ring_put_iov_ok [OF 2(1,4,5)] 2(6) by auto
      have room: "unat (ring_buffer_size ring) + length ?bs \<le> ring_cap ring"
        using 2(5) by simp
      let ?ring = "ring\<lparr>rg_data := ?d, rg_head := rg_head ring + of_nat (length ?bs)\<rparr>"
      let ?c = "c\<lparr>wc_in := ?ring, wc_fds_in := wc_fds_in c @ fds\<rparr>"
      have full: "ring_ok ?ring" "ring_bytes ?ring = ring_bytes ring @ ?bs"
        using ring_received [OF 2(1,4) room] by simp_all
      have kept: "ring_ok (ring\<lparr>rg_data := ?d\<rparr>)" "ring_bytes (ring\<lparr>rg_data := ?d\<rparr>) = ring_bytes ring"
        using ring_received_uncounted [OF 2(1,4) room] by simp_all
      have "length (ring_bytes ?ring) \<le> length (ring_bytes (wc_in c)) + length bs0"
        unfolding full(2) 2(3) by simp
      then have "unat (ring_buffer_size (wc_in ?c)) + sum_list (map recv_length answers) < 2 ^ 31"
        using Cons.prems(2) Received ring_size_bytes [of ?ring] ring_size_bytes [of "wc_in c"] by simp
      then have "read_ok ?c (wl_connection_read calloc_ok fds_ok answers ?c)"
        using Cons.prems(1) full(1) 2(2) by (intro Cons.IH) (simp_all add: wc_ok_def)
      then have more: "read_ok c (wl_connection_read calloc_ok fds_ok answers ?c)"
        by (rule read_ok_later [where bs = ?bs and fds = fds]) (use full(2) 2(3) in simp_all)
      have lost: "read_ok c (Ret (- 1, c\<lparr>wc_in := ring\<lparr>rg_data := ?d\<rparr>\<rparr>, answers))"
        by (rule read_okI [where bs = "[]" and fds = "[]"]) (use kept 2(2,3) Cons.prems(1) in \<open>simp_all add: wc_ok_def\<close>)
      have "?r = (if ?bs = [] then Ret (int (length (ring_bytes (wc_in c))), c\<lparr>wc_in := ring\<rparr>, answers)
        else if fds \<noteq> [] \<and> \<not> fds_ok then Ret (- 1, c\<lparr>wc_in := ring\<lparr>rg_data := ?d\<rparr>\<rparr>, answers)
        else wl_connection_read calloc_ok fds_ok answers ?c)"
        using 2(10) [of bs0 fds answers] Received unfolding iov(1) Let_def iov(2) by simp
      then show ?thesis
        using stop [of "int (length (ring_bytes (wc_in c)))"] more lost by (simp split: if_splits)
    next
      case Recv_Again
      then show ?thesis
        using 2(8) [of answers] stop by auto
    qed (use 2(7) [of answers] 2(9) [of answers] stop in simp_all)
  qed
qed

section \<open>Sending closures\<close>

text \<open>The descriptors of a closure that has been sent are no longer in it; nothing else of it changes, and
  neither do its bytes.\<close>

primrec clear_fd :: "wl_argument \<Rightarrow> wl_argument" where
  "clear_fd (Word w) = Word w"
| "clear_fd (Fd fd) = Fd (- 1)"
| "clear_fd (Str s) = Str s"
| "clear_fd (Arr s) = Arr s"

lemma serialize_clear: "serialize_args (map clear_fd args) room = serialize_args args room"
proof (induction args arbitrary: room)
  case (Cons a args)
  have "serialize_arg (clear_fd a) room = serialize_arg a room"
    by (cases a) (simp_all add: serialize_arg_def)
  then show ?case
    using Cons by (simp split: option.split)
qed simp

lemma buffer_size_clear: "sum_list (map arg_words (map clear_fd args)) = sum_list (map arg_words args)"
proof (induction args)
  case (Cons a args)
  have "arg_words (clear_fd a) = arg_words a"
    by (cases a) (simp_all add: arg_words_def)
  then show ?case
    using Cons by simp
qed simp

lemma serialize_closure_clear:
  "serialize_closure (closure\<lparr>cl_args := map clear_fd (cl_args closure)\<rparr>)
     (unat (buffer_size_for_closure (closure\<lparr>cl_args := map clear_fd (cl_args closure)\<rparr>))) =
   serialize_closure closure (unat (buffer_size_for_closure closure))"
proof -
  have "buffer_size_for_closure (closure\<lparr>cl_args := map clear_fd (cl_args closure)\<rparr>) = buffer_size_for_closure closure"
    unfolding buffer_size_for_closure_def using buffer_size_clear by simp
  then show ?thesis
    by (simp add: serialize_closure_def serialize_clear)
qed

lemma copy_fds_ok:
  assumes "wc_ok c"
  shows "case copy_fds_to_connection calloc_ok args answers c w of
      Ret (r, args', c', w', _) \<Rightarrow> wc_ok c' \<and> (r = 0 \<or> r = - 1) \<and> wc_in c' = wc_in c \<and> wc_fds_in c' = wc_fds_in c \<and>
        out_stream c' w' = out_stream c w \<and> unat (ring_buffer_size (wc_out c')) \<le> unat (ring_buffer_size (wc_out c)) \<and>
        (r = 0 \<longrightarrow> args' = map clear_fd args \<and> fd_stream c' w' = fd_stream c w @ concat (map arg_fd args))
    | Block \<Rightarrow> True | Fault _ \<Rightarrow> False"
  using assms
proof (induction args arbitrary: c w answers)
  case (Cons a args)
  show ?case
  proof (cases a)
    case (Fd fd)
    note put = wl_connection_put_fd_ok [OF Cons.prems, of fd w calloc_ok answers]
    show ?thesis
    proof (cases "wl_connection_put_fd calloc_ok fd answers c w")
      case (Ret x)
      obtain r c1 w1 ans1 where x: "x = (r, c1, w1, ans1)"
        by (cases x)
      have c1: "wc_ok c1" "r = 0 \<or> r = - 1" "wc_in c1 = wc_in c" "wc_fds_in c1 = wc_fds_in c" "out_stream c1 w1 = out_stream c w"
        "fd_stream c1 w1 = fd_stream c w @ (if r = 0 then [fd] else [])"
        "unat (ring_buffer_size (wc_out c1)) \<le> unat (ring_buffer_size (wc_out c))"
        using put Ret x by (simp_all add: adds_def)
      then show ?thesis
        using Cons.IH [OF c1(1), of w1 ans1] Ret x Fd by (cases "copy_fds_to_connection calloc_ok args ans1 c1 w1") auto
    qed (use put Fd in \<open>simp_all add: adds_def\<close>)
  qed (use Cons.IH [OF Cons.prems, of w answers] in \<open>cases "copy_fds_to_connection calloc_ok args answers c w"; auto\<close>)+
qed simp

lemma wl_closure_send_ok:
  assumes c: "wc_ok c" and cl: "serialize_closure closure (unat (buffer_size_for_closure closure)) = Some bs"
    and small: "unat (ring_buffer_size (wc_out c)) + length bs \<le> 2 ^ 63"
  shows "case wl_closure_send fds_ok zalloc_ok calloc_ok closure answers c w of
      Ret (r, closure', c', w', _) \<Rightarrow> wc_ok c' \<and> (r = 0 \<or> r = - 1) \<and>
        (r = 0 \<longrightarrow> out_stream c' w' = out_stream c w @ bs \<and> fd_stream c' w' = fd_stream c w @ concat (map arg_fd (cl_args closure)) \<and>
          closure' = closure\<lparr>cl_args := map clear_fd (cl_args closure)\<rparr>) \<and>
        (r \<noteq> 0 \<longrightarrow> out_stream c' w' = out_stream c w)
    | Block \<Rightarrow> True | Fault _ \<Rightarrow> False"
proof -
  note copy = copy_fds_ok [OF c, of w "cl_args closure" fds_ok answers]
  show ?thesis
  proof (cases "copy_fds_to_connection fds_ok (cl_args closure) answers c w")
    case (Ret x)
    obtain r args c1 w1 ans1 where x: "x = (r, args, c1, w1, ans1)"
      by (cases x)
    have c1: "wc_ok c1" "r = 0 \<or> r = - 1" "out_stream c1 w1 = out_stream c w"
      "unat (ring_buffer_size (wc_out c1)) \<le> unat (ring_buffer_size (wc_out c))"
      "r = 0 \<Longrightarrow> args = map clear_fd (cl_args closure)" "r = 0 \<Longrightarrow> fd_stream c1 w1 = fd_stream c w @ concat (map arg_fd (cl_args closure))"
      using copy Ret x by simp_all
    show ?thesis
    proof (cases "r = 0 \<and> zalloc_ok")
      case True
      let ?cl = "closure\<lparr>cl_args := map clear_fd (cl_args closure)\<rparr>"
      have "serialize_closure ?cl (unat (buffer_size_for_closure ?cl)) = Some bs"
        using cl serialize_closure_clear by simp
      then have send: "wl_closure_send fds_ok zalloc_ok calloc_ok closure answers c w =
        bindo (wl_connection_write calloc_ok bs ans1 c1 w1) (\<lambda>(r, c, w, answers). Ret (r, ?cl, c, w, answers))"
        using True Ret x c1(5) by (simp add: wl_closure_send_def)
      have "adds bs [] c1 w1 (wl_connection_write calloc_ok bs ans1 c1 w1)"
        using wl_connection_write_ok [OF c1(1)] small c1(4) by simp
      then show ?thesis
        unfolding send using c1(3,6) True by (auto simp: adds_def split: outcome.splits prod.splits)
    next
      case False
      then show ?thesis
        using Ret x c1 by (auto simp: wl_closure_send_def)
    qed
  qed (use copy in \<open>simp_all add: wl_closure_send_def\<close>)
qed

section \<open>Messages pass through\<close>

text \<open>A whole message at the front of a connection is read from its bytes.\<close>

lemma wl_connection_demarshal_ok:
  assumes c: "wc_ok c" and n: "8 \<le> n" "unat n \<le> unat (ring_buffer_size (wc_in c))" and init: "wl_closure_init init_ok message \<noteq> None"
    and d: "demarshal_bytes init_ok malloc_ok message (take (unat n) (ring_bytes (wc_in c))) (wc_fds_in c) objects = (Inr closure, fds, objects')"
  shows "\<exists>c'. wl_connection_demarshal init_ok malloc_ok c n objects message = Ret (Some closure, [], c', objects') \<and> wc_ok c' \<and>
    ring_bytes (wc_in c') = drop (unat n) (ring_bytes (wc_in c)) \<and> wc_fds_in c' = fds"
proof -
  have ok: "ring_ok (wc_in c)"
    using c by (simp add: wc_ok_def)
  have size: "unat (ucast n :: u64) \<le> unat (ring_buffer_size (wc_in c))"
    using n(2) by simp
  have copy: "wl_connection_copy c (ucast n) = Ret (take (unat n) (ring_bytes (wc_in c)))"
    using ring_copy_ok [OF ok size] by (simp add: wl_connection_copy_def)
  have "\<not> n < 8"
    using n(1) by simp
  then have "wl_connection_demarshal init_ok malloc_ok c n objects message =
    Ret (Some closure, [], wl_connection_consume (c\<lparr>wc_fds_in := fds\<rparr>) (ucast n), objects')"
    using init copy d by (simp add: wl_connection_demarshal_def)
  then show ?thesis
    using ring_consume [OF ok size] c by (auto simp: wl_connection_consume_def wc_ok_def)
qed

lemma wl_connection_demarshal_read:
  assumes c: "wc_ok c" and n: "unat n \<le> unat (ring_buffer_size (wc_in c))"
    and d: "wl_connection_demarshal init_ok malloc_ok c n objects message = Ret (Some closure, cfds, c', objects')"
  shows "demarshal_bytes init_ok malloc_ok message (take (unat n) (ring_bytes (wc_in c))) (wc_fds_in c) objects = (Inr closure, wc_fds_in c', objects')"
    "8 \<le> n"
proof -
  have ok: "ring_ok (wc_in c)"
    using c by (simp add: wc_ok_def)
  have n8: "\<not> n < 8" and init: "wl_closure_init init_ok message \<noteq> None"
    using d by (auto simp: wl_connection_demarshal_def split: if_splits)
  have "wl_connection_copy c (ucast n) = Ret (take (unat n) (ring_bytes (wc_in c)))"
    using ring_copy_ok [OF ok, of "ucast n"] n by (simp add: wl_connection_copy_def)
  then show "demarshal_bytes init_ok malloc_ok message (take (unat n) (ring_bytes (wc_in c))) (wc_fds_in c) objects = (Inr closure, wc_fds_in c', objects')"
    using d n8 init by (auto simp: wl_connection_demarshal_def wl_connection_consume_def Let_def split: prod.splits sum.splits)
  show "8 \<le> n"
    using n8 by simp
qed

lemma arg_fds_clear: "arg_fds (map clear_fd args) = []"
proof (induction args)
  case (Cons a args)
  then show ?case
    by (cases a) (simp_all add: arg_fds_def)
qed (simp add: arg_fds_def)

text \<open>
  C3. A message passes through the proxy unchanged. Whatever message of less than 64 KiB was read whole from
  one connection, sending its closure on another one appends one message to what that connection sends, of at
  most the same size, and its descriptors to the descriptors it sends; and the peer, reading a message of the
  size the header states, gets the same closure and leaves what came after it. The closure that is destroyed
  afterwards holds no descriptor any more.
\<close>

theorem message_passes_through:
  assumes src: "wc_ok src" "unat n \<le> unat (ring_buffer_size (wc_in src))" "n < 65536"
    and read: "wl_connection_demarshal init_ok malloc_ok src n objects message = Ret (Some closure, cfds, src', objects')"
    and dst: "wc_ok dst" "unat (ring_buffer_size (wc_out dst)) \<le> 2 ^ 62"
    and send: "wl_closure_send fds_ok zalloc_ok calloc_ok closure answers dst w = Ret (0, closure', dst', w', answers')"
  shows "\<exists>bs. out_stream dst' w' = out_stream dst w @ bs \<and> length bs \<le> unat n \<and> unat (drop_bit 16 (load32 (drop 4 bs))) = length bs \<and>
    fd_stream dst' w' = fd_stream dst w @ concat (map arg_fd (cl_args closure)) \<and> wl_closure_destroy closure' = [] \<and>
    (\<forall>peer rest fds (tbl :: 'a wl_map). wc_ok peer \<longrightarrow> ring_bytes (wc_in peer) = bs @ rest \<longrightarrow>
      wc_fds_in peer = concat (map arg_fd (cl_args closure)) @ fds \<longrightarrow>
      (\<exists>peer' tbl'. wl_connection_demarshal True True peer (of_nat (length bs)) tbl message = Ret (Some closure, [], peer', tbl') \<and>
        ring_bytes (wc_in peer') = rest \<and> wc_fds_in peer' = fds))"
proof -
  note r = wl_connection_demarshal_read [OF src(1,2) read]
  have len: "length (take (unat n) (ring_bytes (wc_in src))) = unat n" "unat n < 65536"
    using src(2,3) by (simp_all add: ring_size_bytes word_less_nat_alt)
  then have cl: "closure_ok closure" "wire_size closure \<le> unat n" "cl_message closure = message"
    using demarshal_bytes_ok [OF r(1)] by simp_all
  obtain bs where bs: "serialize_closure closure (unat (buffer_size_for_closure closure)) = Some bs" "length bs = wire_size closure"
    "unat (drop_bit 16 (load32 (drop 4 bs))) = length bs"
    "\<And>fds (tbl :: 'a wl_map). \<exists>tbl'. demarshal_bytes True True (cl_message closure) bs (concat (map arg_fd (cl_args closure)) @ fds) tbl = (Inr closure, fds, tbl')"
    using closure_roundtrip [OF cl(1), of True] by blast
  have small: "unat (ring_buffer_size (wc_out dst)) + length bs \<le> 2 ^ 63"
    using dst(2) bs(2) cl(2) len(2) by simp
  note s = wl_closure_send_ok [OF dst(1) bs(1) small, of w fds_ok zalloc_ok calloc_ok answers, unfolded send outcome.case prod.case, simplified]
  have "\<exists>peer' tbl'. wl_connection_demarshal True True peer (of_nat (length bs)) tbl message = Ret (Some closure, [], peer', tbl') \<and>
      ring_bytes (wc_in peer') = rest \<and> wc_fds_in peer' = fds"
    if peer: "wc_ok peer" "ring_bytes (wc_in peer) = bs @ rest" "wc_fds_in peer = concat (map arg_fd (cl_args closure)) @ fds"
    for peer rest fds and tbl :: "'a wl_map"
  proof -
    let ?n = "of_nat (length bs) :: u32"
    have n: "unat ?n = length bs"
      using bs(2) cl(2) len(2) by (intro unat_of_nat_small) simp
    obtain tbl' where "demarshal_bytes True True message (take (unat ?n) (ring_bytes (wc_in peer))) (wc_fds_in peer) tbl = (Inr closure, fds, tbl')"
      using bs(4) [of fds tbl] peer(2,3) n cl(3) by auto
    moreover have "8 \<le> ?n" "unat ?n \<le> unat (ring_buffer_size (wc_in peer))"
      using n bs(2) peer(2) by (simp_all add: word_le_nat_alt wire_size_def ring_size_bytes)
    moreover have "wl_closure_init True message \<noteq> None"
      using cl(1,3) by (auto simp: closure_ok_def wl_closure_init_def list_all2_lengthD)
    ultimately show ?thesis
      using wl_connection_demarshal_ok [OF peer(1)] peer(2) n by (metis append_eq_conv_conj)
  qed
  then show ?thesis
    using s bs(2,3) cl(2) by (intro exI [of _ bs]) (simp add: wl_closure_destroy_def arg_fds_clear)
qed

definition attach_message :: wl_message where
  "attach_message = \<lparr>wg_name = ''attach'', wg_signature = ''?oii'', wg_types = [Some ''wl_buffer'', None, None]\<rparr>"

definition attach_bytes :: "byte list" where
  "attach_bytes = store32 5 @ store32 0x140001 @ store32 7 @ store32 0 @ store32 0"

definition attach_closure :: wl_closure where
  "attach_closure = \<lparr>cl_message = attach_message, cl_opcode = 1, cl_sender_id = 5, cl_args = [Word 7, Word 0, Word 0]\<rparr>"

definition ring_of :: "byte list \<Rightarrow> wl_ring_buffer" where
  "ring_of bs = \<lparr>rg_data = bs @ replicate (4096 - length bs) 0, rg_head = of_nat (length bs), rg_tail = 0,
     rg_size_bits = 12, rg_max_size_bits = 0\<rparr>"

definition conn_of :: "byte list \<Rightarrow> wl_connection" where
  "conn_of bs = \<lparr>wc_in = ring_of bs, wc_out = ring_of [], wc_fds_in = [], wc_fds_out = [], wc_fd = 3, wc_want_flush = False\<rparr>"

lemma ring_of_ok:
  assumes "length bs \<le> 4096"
  shows "ring_ok (ring_of bs)" "ring_bytes (ring_of bs) = bs"
proof -
  have n: "unat (of_nat (length bs) :: u64) = length bs"
    using assms by (intro unat_of_nat_small) simp
  show "ring_ok (ring_of bs)"
    using assms n by (auto simp: ring_ok_def ring_of_def ring_cap_def ring_buffer_size_def)
  show "ring_bytes (ring_of bs) = bs"
    using ring_list_whole [of bs 4096] assms n by (simp add: ring_bytes_def ring_of_def ring_cap_def ring_buffer_size_def)
qed

lemma conn_of_ok: "length bs \<le> 4096 \<Longrightarrow> wc_ok (conn_of bs)" "length bs \<le> 4096 \<Longrightarrow> ring_bytes (wc_in (conn_of bs)) = bs"
  using ring_of_ok [of bs] ring_of_ok [of "[]"] by (simp_all add: wc_ok_def conn_of_def, simp_all add: ring_of_def)

theorem message_passes_through_witness:
  "\<exists>src' closure' dst' w' bs.
     wl_connection_demarshal True True (conn_of attach_bytes) 20 (wl_map_init WL_MAP_CLIENT_SIDE :: nat wl_map) attach_message =
       Ret (Some attach_closure, [], src', wl_map_init WL_MAP_CLIENT_SIDE) \<and>
     wl_closure_send True True True attach_closure [] (conn_of []) ([], []) = Ret (0, closure', dst', w', []) \<and>
     out_stream dst' w' = bs \<and> length bs \<le> 20 \<and>
     (\<exists>peer' tbl'. wl_connection_demarshal True True (conn_of bs) (of_nat (length bs))
        (wl_map_init WL_MAP_CLIENT_SIDE :: nat wl_map) attach_message = Ret (Some attach_closure, [], peer', tbl'))"
proof -
  let ?tbl = "wl_map_init WL_MAP_CLIENT_SIDE :: nat wl_map"
  have len: "length attach_bytes = 20"
    by (simp add: attach_bytes_def)
  have bytes: "demarshal_bytes True True attach_message attach_bytes [] ?tbl = (Inr attach_closure, [], ?tbl)"
    by code_simp
  have size: "unat (ring_buffer_size (wc_in (conn_of attach_bytes))) = 20"
    using conn_of_ok(2) [of attach_bytes] len by (simp add: ring_size_bytes)
  have fds: "wc_fds_in (conn_of attach_bytes) = []"
    by (simp add: conn_of_def)
  have init: "wl_closure_init True attach_message \<noteq> None"
    by code_simp
  obtain src' where src': "wl_connection_demarshal True True (conn_of attach_bytes) 20 ?tbl attach_message = Ret (Some attach_closure, [], src', ?tbl)"
    using wl_connection_demarshal_ok [OF conn_of_ok(1) [of attach_bytes], of 20 True attach_message True ?tbl attach_closure "[]" ?tbl]
      conn_of_ok(2) [of attach_bytes] len bytes size fds init by auto
  have cl: "serialize_closure attach_closure (unat (buffer_size_for_closure attach_closure)) = Some attach_bytes"
    by code_simp
  have small: "unat (ring_buffer_size (wc_out (conn_of []))) + length attach_bytes \<le> 4096"
    using ring_of_ok(2) [of "[]"] len by (simp add: conn_of_def ring_size_bytes)
  obtain dst' where "wl_connection_write True attach_bytes [] (conn_of []) ([], []) = Ret (0, dst', ([], []), [])"
    using wl_connection_write_direct [OF conn_of_ok(1) small, of "[]" "([], [])"] by auto
  moreover have "map clear_fd (cl_args attach_closure) = cl_args attach_closure"
    "copy_fds_to_connection True (cl_args attach_closure) [] (conn_of []) ([], []) = Ret (0, cl_args attach_closure, conn_of [], ([], []), [])"
    by (simp_all add: attach_closure_def)
  ultimately have send: "wl_closure_send True True True attach_closure [] (conn_of []) ([], []) = Ret (0, attach_closure, dst', ([], []), [])"
    using cl by (simp add: wl_closure_send_def)
  have out: "out_stream (conn_of []) ([], []) = []" "unat (ring_buffer_size (wc_out (conn_of []))) \<le> 2 ^ 62"
    "concat (map arg_fd (cl_args attach_closure)) = []"
    using ring_of_ok(2) [of "[]"] small by (simp_all add: out_stream_def conn_of_def attach_closure_def)
  obtain bs where bs: "out_stream dst' ([], []) = bs" "length bs \<le> 20"
    "\<forall>peer rest fds (tbl :: nat wl_map). wc_ok peer \<longrightarrow> ring_bytes (wc_in peer) = bs @ rest \<longrightarrow> wc_fds_in peer = [] @ fds \<longrightarrow>
      (\<exists>peer' tbl'. wl_connection_demarshal True True peer (of_nat (length bs)) tbl attach_message = Ret (Some attach_closure, [], peer', tbl') \<and>
        ring_bytes (wc_in peer') = rest \<and> wc_fds_in peer' = fds)"
    using message_passes_through [OF conn_of_ok(1) _ _ src' conn_of_ok(1) out(2) send] size len unfolding out by auto
  have "wc_ok (conn_of bs)" "ring_bytes (wc_in (conn_of bs)) = bs @ []" "wc_fds_in (conn_of bs) = [] @ []"
    using conn_of_ok [of bs] bs(2) by (simp_all add: conn_of_def)
  then show ?thesis
    using bs src' send by blast
qed

end
