(* ===== verification/Proxy.thy ===== *)
theory Proxy
  imports Capture_Session Wl_Connection C_Strings
begin

text \<open>
  The Wayland proxy, \<^verbatim>\<open>stratusd/Capture/src/proxy.c\<close>: sessions between a client and the compositor, each with
  two connections and two object maps, and the path of a message through them: read, objects it creates
  registered, shown to the capture module, forwarded or dropped.

  A session is named by a number, the address of its struct. Its maps and the connection its client can be
  reached on are part of the state of the capture module, the \<^verbatim>\<open>userdata\<close> of the proxy. Blocks, open
  descriptors and watched descriptors are multisets; closing a descriptor that is not open is a fault. The
  interfaces of the protocols are generated code, and so are the tables \<open>protocols\<close>, an argument of the model.
\<close>

section \<open>State\<close>

datatype proxy_sides = PROXY_SIDE_CLIENT | PROXY_SIDE_SERVER

abbreviation MAX_SESSIONS :: nat where
  "MAX_SESSIONS \<equiv> 8"

abbreviation MAX_SESSION_NAME :: nat where
  "MAX_SESSION_NAME \<equiv> 16"

datatype proxy_block =
    Proxy_Block | Sessions_Block | Session_Block nat | Name_Block nat | Conn_Block nat proxy_sides
  | Wl_Conn_Block nat proxy_sides | Types_Block nat | Data_Block nat

record proxy =
  px_name :: string
  px_epoll_fd :: int
  px_socket_fd :: int
  px_next_session_id :: int
  px_sessions :: "nat option list"
  px_names :: "nat \<rightharpoonup> string"
  px_conns :: "nat \<times> proxy_sides \<rightharpoonup> wl_connection"
  px_wire :: "nat \<times> proxy_sides \<Rightarrow> wire_out"
  px_blocks :: "proxy_block heap"
  px_fds :: "int heap"
  px_epoll :: "int heap"
  px_closed :: "int list"
  px_capture :: capture

text \<open>The interface of \<^verbatim>\<open>wl_display\<close> and the tables \<^verbatim>\<open>proxy_protocols\<close>.\<close>

record protocols =
  pr_display :: wl_interface
  pr_tables :: "wl_interface list list"

definition proxy_free :: "proxy_block \<Rightarrow> proxy \<Rightarrow> proxy outcome" where
  "proxy_free b p = bindo (hfree b (px_blocks p)) (\<lambda>h. Ret (p\<lparr>px_blocks := h\<rparr>))"

definition proxy_close :: "int \<Rightarrow> proxy \<Rightarrow> proxy outcome" where
  "proxy_close fd p = bindo (hfree fd (px_fds p)) (\<lambda>h. Ret (p\<lparr>px_fds := h\<rparr>))"

section \<open>Connections of a session\<close>

definition proxy_epoll_add_fd :: "bool \<Rightarrow> int \<Rightarrow> proxy \<Rightarrow> int \<times> proxy" where
  "proxy_epoll_add_fd ok fd p = (if ok then (0, p\<lparr>px_epoll := hmalloc fd (px_epoll p)\<rparr>) else (- 1, p))"

text \<open>Whether the calls of \<^verbatim>\<open>proxy_add_connection\<close> succeed: \<^verbatim>\<open>malloc\<close>, the allocations of \<^verbatim>\<open>wl_connection_create\<close>
  and \<^verbatim>\<open>epoll_ctl\<close>.\<close>

record conn_env =
  co_malloc :: bool
  co_create :: bool
  co_in :: bool
  co_out :: bool
  co_epoll :: bool

definition proxy_add_connection :: "conn_env \<Rightarrow> nat \<Rightarrow> int \<Rightarrow> proxy_sides \<Rightarrow> proxy \<Rightarrow> (int \<times> proxy) outcome" where
  "proxy_add_connection env k fd side p =
     bindo (asserto (px_conns p (k, side) = None)) (\<lambda>_.
     if \<not> co_malloc env then Ret (- 1, p)
     else
       let p = p\<lparr>px_blocks := hmalloc (Conn_Block k side) (px_blocks p)\<rparr> in
       bindo (wl_connection_create (co_create env) (co_in env) (co_out env) fd 0) (\<lambda>c.
       case c of
         None \<Rightarrow> bindo (proxy_free (Conn_Block k side) p) (\<lambda>p. Ret (- 1, p))
       | Some c \<Rightarrow>
           let p = p\<lparr>px_blocks := hmalloc (Wl_Conn_Block k side) (px_blocks p), px_conns := (px_conns p)((k, side) \<mapsto> c),
                     px_wire := (px_wire p)((k, side) := ([], []))\<rparr> in
           (case proxy_epoll_add_fd (co_epoll env) fd p of (r, p) \<Rightarrow>
              if r < 0
              then bindo (proxy_free (Wl_Conn_Block k side) p) (\<lambda>p.
                   bindo (proxy_free (Conn_Block k side) p) (\<lambda>p.
                   Ret (- 1, p\<lparr>px_conns := (px_conns p)((k, side) := None)\<rparr>)))
              else Ret (0, p))))"

text \<open>The descriptors that wait in the connection are closed with it. \<^verbatim>\<open>EPOLL_CTL_DEL\<close> may fail, unnoticed.\<close>

definition proxy_destroy_connection :: "nat \<Rightarrow> proxy_sides \<Rightarrow> proxy \<Rightarrow> proxy outcome" where
  "proxy_destroy_connection k side p =
     bindo (nonnull (px_conns p (k, side))) (\<lambda>c.
     case wl_connection_destroy c of (closed, fd) \<Rightarrow>
       bindo (proxy_free (Wl_Conn_Block k side) p) (\<lambda>p.
       bindo (proxy_close fd (p\<lparr>px_epoll := px_epoll p - {#fd#}, px_closed := px_closed p @ closed\<rparr>)) (\<lambda>p.
       bindo (proxy_free (Conn_Block k side) p) (\<lambda>p.
       Ret (p\<lparr>px_conns := (px_conns p)((k, side) := None)\<rparr>)))))"

section \<open>Sessions\<close>

text \<open>What the calls of \<^verbatim>\<open>proxy_create_session\<close> answer; \<open>se_t0\<close> to \<open>se_d1\<close> are the allocations of the four
  insertions, whose results are not checked.\<close>

record session_env =
  se_zalloc :: bool
  se_name :: bool
  se_client :: conn_env
  se_server_fd :: int
  se_server :: conn_env
  se_types :: bool
  se_t0 :: bool
  se_t1 :: bool
  se_data :: bool
  se_d0 :: bool
  se_d1 :: bool

text \<open>The first empty place of \<^verbatim>\<open>proxy->sessions\<close>, or \<^verbatim>\<open>MAX_SESSIONS\<close>.\<close>

primrec free_slot :: "nat option list \<Rightarrow> nat" where
  "free_slot [] = 0"
| "free_slot (x # xs) = (if x = None then 0 else Suc (free_slot xs))"

text \<open>A new map with two entries.\<close>

definition session_map :: "bool \<Rightarrow> bool \<Rightarrow> 'a option \<Rightarrow> 'a wl_map outcome" where
  "session_map ok0 ok1 x =
     bindo (wl_map_insert_new ok0 False None (wl_map_init WL_MAP_CLIENT_SIDE)) (\<lambda>(_, m).
     bindo (wl_map_insert_new ok1 False x m) (\<lambda>(_, m). Ret m))"

text \<open>The labels \<^verbatim>\<open>err_client\<close>, \<^verbatim>\<open>err_server_socket\<close> and \<^verbatim>\<open>err_server_conn\<close>, each falling through to the one before.\<close>

definition err_client :: "nat \<Rightarrow> proxy \<Rightarrow> (int \<times> proxy) outcome" where
  "err_client k p =
     bindo (proxy_free (Name_Block k) p) (\<lambda>p.
     bindo (proxy_free (Session_Block k) p) (\<lambda>p. Ret (- 1, p\<lparr>px_names := (px_names p)(k := None)\<rparr>)))"

definition err_server_socket :: "nat \<Rightarrow> proxy \<Rightarrow> (int \<times> proxy) outcome" where
  "err_server_socket k p = bindo (proxy_destroy_connection k PROXY_SIDE_CLIENT p) (err_client k)"

definition err_server_conn :: "nat \<Rightarrow> int \<Rightarrow> proxy \<Rightarrow> (int \<times> proxy) outcome" where
  "err_server_conn k server_fd p = bindo (proxy_close server_fd p) (err_server_socket k)"

definition err_obj_types :: "nat \<Rightarrow> int \<Rightarrow> proxy \<Rightarrow> (int \<times> proxy) outcome" where
  "err_obj_types k server_fd p = bindo (proxy_destroy_connection k PROXY_SIDE_SERVER p) (err_server_conn k server_fd)"

definition err_obj_data :: "nat \<Rightarrow> int \<Rightarrow> proxy \<Rightarrow> (int \<times> proxy) outcome" where
  "err_obj_data k server_fd p = bindo (proxy_free (Types_Block k) p) (err_obj_types k server_fd)"

text \<open>
  \<^verbatim>\<open>session->name < 0\<close> is never true: without memory for the name \<^verbatim>\<open>snprintf\<close> writes through NULL. The handler
  for new sessions only prints and returns 0.
\<close>

definition proxy_create_session :: "protocols \<Rightarrow> session_env \<Rightarrow> nat \<Rightarrow> int \<Rightarrow> proxy \<Rightarrow> (int \<times> proxy) outcome" where
  "proxy_create_session protocols env k client_fd p =
     (if \<not> se_zalloc env then Ret (- 1, p)
      else
        let p = p\<lparr>px_blocks := hmalloc (Session_Block k) (px_blocks p)\<rparr> in
        if \<not> se_name env then Fault Null_Deref
        else
          let name = fst (snprintf MAX_SESSION_NAME (px_name p @ ''/'' @ show_int (px_next_session_id p)));
              p = p\<lparr>px_blocks := hmalloc (Name_Block k) (px_blocks p), px_names := (px_names p)(k \<mapsto> name)\<rparr>;
              idx = free_slot (px_sessions p) in
          bindo (asserto (idx \<noteq> MAX_SESSIONS)) (\<lambda>_.
          bindo (proxy_add_connection (se_client env) k client_fd PROXY_SIDE_CLIENT p) (\<lambda>(r, p).
          if r < 0 then err_client k p
          else
            let server_fd = se_server_fd env in
            if server_fd < 0 then err_server_socket k p
            else
              let p = p\<lparr>px_fds := hmalloc server_fd (px_fds p)\<rparr> in
              bindo (proxy_add_connection (se_server env) k server_fd PROXY_SIDE_SERVER p) (\<lambda>(r, p).
              if r < 0 then err_server_conn k server_fd p
              else if \<not> se_types env then err_obj_types k server_fd p
              else
                let p = p\<lparr>px_blocks := hmalloc (Types_Block k) (px_blocks p)\<rparr> in
                bindo (session_map (se_t0 env) (se_t1 env) (Some (pr_display protocols))) (\<lambda>types.
                if \<not> se_data env then err_obj_data k server_fd p
                else
                  let p = p\<lparr>px_blocks := hmalloc (Data_Block k) (px_blocks p)\<rparr> in
                  bindo (session_map (se_d0 env) (se_d1 env) None) (\<lambda>data.
                  case handle_session_create k (px_capture p) of (_, s) \<Rightarrow>
                    let s = s\<lparr>ca_sessions := (ca_sessions s)(k \<mapsto> \<lparr>ps_types = types, ps_data = data\<rparr>),
                              ca_heap := (ca_heap s)\<lparr>ch_conns := insert k (ch_conns (ca_heap s))\<rparr>\<rparr> in
                    Ret (0, p\<lparr>px_sessions := (px_sessions p)[idx := Some k],
                             px_next_session_id := px_next_session_id p + 1, px_capture := s\<rparr>)))))))"

text \<open>\<open>env\<close> is the environment of the handler that destroys the objects of the session.\<close>

definition proxy_destroy_session :: "env \<Rightarrow> nat \<Rightarrow> proxy \<Rightarrow> proxy outcome" where
  "proxy_destroy_session env k p =
     bindo (handle_session_destroy env k (px_capture p)) (\<lambda>s.
     let p = p\<lparr>px_capture := s, px_sessions := map (\<lambda>x. if x = Some k then None else x) (px_sessions p)\<rparr> in
     bindo (proxy_destroy_connection k PROXY_SIDE_CLIENT p) (\<lambda>p.
     bindo (proxy_destroy_connection k PROXY_SIDE_SERVER p) (\<lambda>p.
     bindo (proxy_free (Types_Block k) p) (\<lambda>p.
     bindo (proxy_free (Data_Block k) p) (\<lambda>p.
     bindo (proxy_free (Name_Block k) p) (\<lambda>p.
     bindo (proxy_free (Session_Block k) p) (\<lambda>p.
     let s = px_capture p;
         s = s\<lparr>ca_sessions := (ca_sessions s)(k := None), ca_heap := (ca_heap s)\<lparr>ch_conns := ch_conns (ca_heap s) - {k}\<rparr>\<rparr> in
     Ret (p\<lparr>px_names := (px_names p)(k := None), px_capture := s\<rparr>))))))))"

section \<open>Objects\<close>

definition proxy_lookup_interface :: "protocols \<Rightarrow> string \<Rightarrow> wl_interface option" where
  "proxy_lookup_interface protocols name = find (\<lambda>i. if_name i = name) (concat (pr_tables protocols))"

definition proxy_create_object ::
    "bool \<Rightarrow> bool \<Rightarrow> nat \<Rightarrow> u32 \<Rightarrow> wl_interface option \<Rightarrow> capture \<Rightarrow> (int \<times> capture) outcome" where
  "proxy_create_object ty_ok dt_ok k i interface s =
     bindo (session_of k s) (\<lambda>m.
     case wl_map_insert_at ty_ok False i interface (ps_types m) of (r, types) \<Rightarrow>
       if r < 0 then Ret (- 1, s)
       else
         (case wl_map_insert_at dt_ok False i None (ps_data m) of (r', data) \<Rightarrow>
            Ret (if r' < 0 then - 1 else 0,
                 s\<lparr>ca_sessions := (ca_sessions s)(k \<mapsto> m\<lparr>ps_types := types, ps_data := data\<rparr>)\<rparr>)))"

section \<open>Messages\<close>

record message_env =
  me_init :: bool
  me_reserve :: bool
  me_types :: bool
  me_data :: bool
  me_handler :: env
  me_fds :: bool
  me_zalloc :: bool
  me_calloc :: bool
  me_send :: "send_answer list"

definition c_string :: "byte list \<Rightarrow> string" where
  "c_string s = map (\<lambda>b. char_of (unat b)) s"

text \<open>The string of argument \<open>i\<close>, for \<^verbatim>\<open>strcmp\<close>.\<close>

definition string_arg :: "nat \<Rightarrow> wl_closure \<Rightarrow> string outcome" where
  "string_arg i closure =
     (if i < length (cl_args closure)
      then (case cl_args closure ! i of Str (Some s) \<Rightarrow> Ret (c_string s) | Str None \<Rightarrow> Fault Null_Deref | _ \<Rightarrow> Fault Bad_Cast)
      else Fault Indeterminate)"

text \<open>The word of an argument; the capture module reads no string or array of a message.\<close>

primrec arg_word :: "wl_argument \<Rightarrow> u32" where
  "arg_word (Word w) = w"
| "arg_word (Fd fd) = of_int fd"
| "arg_word (Str s) = 0"
| "arg_word (Arr s) = 0"

definition word_arg :: "nat \<Rightarrow> wl_closure \<Rightarrow> u32 outcome" where
  "word_arg i closure =
     (if i < length (cl_args closure)
      then (case cl_args closure ! i of Word w \<Rightarrow> Ret w | _ \<Rightarrow> Fault Bad_Cast)
      else Fault Indeterminate)"

definition set_word :: "wl_argument \<Rightarrow> u32 \<Rightarrow> wl_argument" where
  "set_word a w = (case a of Word _ \<Rightarrow> Word w | _ \<Rightarrow> a)"

text \<open>Registering the objects a message creates: for every argument that is a new number, with the type of the
  first argument of the message.\<close>

fun create_new_objects ::
    "bool \<Rightarrow> bool \<Rightarrow> protocols \<Rightarrow> nat \<Rightarrow> wl_message \<Rightarrow> ((char \<times> bool) \<times> wl_argument) list \<Rightarrow> capture \<Rightarrow>
     (int \<times> bool \<times> capture) outcome" where
  "create_new_objects ty_ok dt_ok protocols k message [] s = Ret (0, False, s)"
| "create_new_objects ty_ok dt_ok protocols k message (((type, nullable), a) # args) s =
     (if type = CHR ''n''
      then (case wg_types message of
              [] \<Rightarrow> Fault Out_Of_Bounds
            | ty # _ \<Rightarrow>
                bindo (proxy_create_object ty_ok dt_ok k (arg_word a) (Option.bind ty (proxy_lookup_interface protocols)) s) (\<lambda>(r, s).
                if r < 0 then Ret (- 1, True, s)
                else bindo (create_new_objects ty_ok dt_ok protocols k message args s) (\<lambda>(r, _, s). Ret (r, True, s))))
      else create_new_objects ty_ok dt_ok protocols k message args s)"

text \<open>The objects a message creates; the interface of a bound global is the one it names.\<close>

definition register_objects ::
    "message_env \<Rightarrow> protocols \<Rightarrow> nat \<Rightarrow> wl_interface \<Rightarrow> wl_closure \<Rightarrow> capture \<Rightarrow> (int \<times> bool \<times> capture) outcome" where
  "register_objects env protocols k interface closure s =
     (let message = cl_message closure in
      if if_name interface = ''wl_registry'' \<and> wg_name message = ''bind''
      then
        bindo (string_arg 1 closure) (\<lambda>name.
        bindo (nonnull (proxy_lookup_interface protocols name)) (\<lambda>bind_interface.
        bindo (word_arg 3 closure) (\<lambda>n.
        bindo (proxy_create_object (me_types env) (me_data env) k n (Some bind_interface) s) (\<lambda>(r, s). Ret (r, True, s)))))
      else create_new_objects (me_types env) (me_data env) protocols k message (zip (arguments message) (cl_args closure)) s)"

definition other_side :: "proxy_sides \<Rightarrow> proxy_sides" where
  "other_side side = (if side = PROXY_SIDE_CLIENT then PROXY_SIDE_SERVER else PROXY_SIDE_CLIENT)"

text \<open>Sending the closure on the other connection and destroying it.\<close>

definition forward_message ::
    "message_env \<Rightarrow> nat \<Rightarrow> proxy_sides \<Rightarrow> wl_closure \<Rightarrow> proxy \<Rightarrow> (int \<times> proxy) outcome" where
  "forward_message env k side closure p =
     bindo (nonnull (px_conns p (k, other_side side))) (\<lambda>dst.
     bindo (wl_closure_send (me_fds env) (me_zalloc env) (me_calloc env) closure (me_send env) dst (px_wire p (k, other_side side)))
       (\<lambda>(r, closure, dst, w, _).
     Ret (if r < 0 then - 1 else 0,
          p\<lparr>px_conns := (px_conns p)((k, other_side side) \<mapsto> dst), px_wire := (px_wire p)((k, other_side side) := w),
            px_closed := px_closed p @ wl_closure_destroy closure\<rparr>)))"

definition drop_closure :: "int \<Rightarrow> wl_closure \<Rightarrow> proxy \<Rightarrow> int \<times> proxy" where
  "drop_closure r closure p = (r, p\<lparr>px_closed := px_closed p @ wl_closure_destroy closure\<rparr>)"

text \<open>The message as the handlers see it.\<close>

definition handler_message :: "wl_interface \<Rightarrow> wl_closure \<Rightarrow> proxy_message" where
  "handler_message interface closure =
     \<lparr>ms_interface = if_name interface, ms_name = wg_name (cl_message closure), ms_sender = cl_sender_id closure,
      ms_args = map arg_word (cl_args closure)\<rparr>"

text \<open>From the closure on: \<^verbatim>\<open>wl_registry.global\<close> events for unknown interfaces are dropped, new objects are registered, the
  capture module handles the message and says what becomes of it.\<close>

definition process_closure ::
    "message_env \<Rightarrow> protocols \<Rightarrow> nat \<Rightarrow> proxy_sides \<Rightarrow> wl_interface \<Rightarrow> wl_closure \<Rightarrow> proxy \<Rightarrow> (int \<times> proxy) outcome" where
  "process_closure env protocols k side interface closure p =
     bindo (if if_name interface = ''wl_registry'' \<and> wg_name (cl_message closure) = ''global''
            then bindo (string_arg 1 closure) (\<lambda>name. Ret (proxy_lookup_interface protocols name = None))
            else Ret False) (\<lambda>unknown.
     if unknown then Ret (drop_closure 0 closure p)
     else
       bindo (register_objects env protocols k interface closure (px_capture p)) (\<lambda>(r, new_objects, s).
       let p = p\<lparr>px_capture := s\<rparr> in
       if r < 0 then Ret (drop_closure (- 1) closure p)
       else
         bindo (handle_message (me_handler env) k (handler_message interface closure) s) (\<lambda>(act, msg, s).
         let p = p\<lparr>px_capture := s\<rparr>; closure = closure\<lparr>cl_args := map2 set_word (cl_args closure) (ms_args msg)\<rparr> in
         case act of
           PROXY_ACTION_ERR \<Rightarrow> Ret (drop_closure (- 1) closure p)
         | PROXY_ACTION_DROP \<Rightarrow> bindo (asserto (\<not> new_objects)) (\<lambda>_. Ret (drop_closure 0 closure p))
         | PROXY_ACTION_FWD \<Rightarrow> forward_message env k side closure p)))"

definition proxy_handle_message ::
    "message_env \<Rightarrow> protocols \<Rightarrow> nat \<Rightarrow> proxy_sides \<Rightarrow> u32 \<Rightarrow> u32 \<Rightarrow> u32 \<Rightarrow> proxy \<Rightarrow> (int \<times> proxy) outcome" where
  "proxy_handle_message env protocols k side i n opcode p =
     bindo (session_of k (px_capture p)) (\<lambda>m.
     bindo (nonnull (wl_map_lookup (ps_types m) i)) (\<lambda>interface.
     let messages = (if side = PROXY_SIDE_CLIENT then if_methods interface else if_events interface) in
     if unat opcode < length messages
     then
       let message = messages ! unat opcode in
       bindo (nonnull (px_conns p (k, side))) (\<lambda>src.
       bindo (wl_connection_demarshal (me_init env) (me_reserve env) src n (ps_types m) message) (\<lambda>(closure, closed, src, types).
       let s = px_capture p;
           s = s\<lparr>ca_sessions := (ca_sessions s)(k \<mapsto> m\<lparr>ps_types := types\<rparr>)\<rparr>;
           p = p\<lparr>px_capture := s, px_conns := (px_conns p)((k, side) \<mapsto> src), px_closed := px_closed p @ closed\<rparr> in
       case closure of
         None \<Rightarrow> Ret (- 1, p)
       | Some closure \<Rightarrow> process_closure env protocols k side interface closure p))
     else Fault Out_Of_Bounds))"

lemma proxy_handle_message_size:
  "proxy_handle_message env protocols k side i n opcode p = Ret (r, p') \<Longrightarrow> \<not> r < 0 \<Longrightarrow> 8 \<le> n"
  by (cases "n < 8")
    (auto simp: proxy_handle_message_def wl_connection_demarshal_def bindo_Ret_iff nonnull_def Let_def split: if_splits option.splits)

section \<open>Data on a connection\<close>

record data_env =
  da_calloc :: bool
  da_fds :: bool
  da_recv :: "recv_answer list"
  da_message :: "nat \<Rightarrow> message_env"
  da_flush :: "send_answer list"

text \<open>
  The loop of \<^verbatim>\<open>proxy_handle_data\<close>; \<open>j\<close> counts the messages. The comparison converts \<^verbatim>\<open>len\<close> to \<^verbatim>\<open>size_t\<close>, so that a
  negative length also continues; whether the message has arrived completely is not checked. An \<^verbatim>\<open>int\<close>
  below its range is a fault.
\<close>

function data_loop ::
    "(nat \<Rightarrow> message_env) \<Rightarrow> protocols \<Rightarrow> nat \<Rightarrow> proxy_sides \<Rightarrow> nat \<Rightarrow> int \<Rightarrow> proxy \<Rightarrow> (int \<times> proxy) outcome" where
  "data_loop env protocols k side j len p =
     (if len \<ge> 8 \<or> len < 0
      then
        bindo (nonnull (px_conns p (k, side))) (\<lambda>src.
        bindo (wl_connection_copy src 8) (\<lambda>buf.
        let w = load32 (drop 4 buf); n = drop_bit 16 w in
        bindo (proxy_handle_message (env j) protocols k side (load32 buf) n (w AND 65535) p) (\<lambda>(r, p).
        if r < 0 then Ret (- 1, p)
        else if len - int (unat n) < - (2 ^ 31) then Fault Out_Of_Bounds
        else data_loop env protocols k side (Suc j) (len - int (unat n)) p)))
      else Ret (0, p))"
  by pat_completeness auto
termination
proof (relation "measure (\<lambda>(env, protocols, k, side, j, len, p). nat (len + 2 ^ 31))")
  fix env :: "nat \<Rightarrow> message_env" and protocols k side j len p src buf w n x r p'
  assume a: "w = load32 (drop 4 buf)" "n = drop_bit 16 w" "(r, p') = x" "\<not> r < 0"
    "\<not> len - int (unat n) < - (2 ^ 31)"
    "proxy_handle_message (env j) protocols k side (load32 buf) n (w AND 65535) p = Ret x"
  have less: "8 \<le> d \<Longrightarrow> \<not> len - d < - (2 ^ 31) \<Longrightarrow> nat (len - d + 2 ^ 31) < nat (len + 2 ^ 31)" for d :: int
    by (simp add: nat_less_eq_zless)
  have "8 \<le> n"
    using proxy_handle_message_size a by blast
  then show "((env, protocols, k, side, Suc j, len - int (unat n), p'), env, protocols, k, side, j, len, p)
    \<in> measure (\<lambda>(env, protocols, k, side, j, len, p). nat (len + 2 ^ 31))"
    using less [of "int (unat n)"] a(5) by (simp add: word_le_nat_alt del: of_nat_unat)
qed simp

declare data_loop.simps [simp del]

definition proxy_handle_data :: "data_env \<Rightarrow> protocols \<Rightarrow> nat \<Rightarrow> proxy_sides \<Rightarrow> proxy \<Rightarrow> (int \<times> proxy) outcome" where
  "proxy_handle_data env protocols k side p =
     bindo (nonnull (px_conns p (k, side))) (\<lambda>src.
     bindo (wl_connection_read (da_calloc env) (da_fds env) (da_recv env) src) (\<lambda>(len, src, _).
     bindo (data_loop (da_message env) protocols k side 0 len (p\<lparr>px_conns := (px_conns p)((k, side) \<mapsto> src)\<rparr>)) (\<lambda>(r, p).
     if r < 0 then Ret (- 1, p)
     else
       bindo (nonnull (px_conns p (k, other_side side))) (\<lambda>dst.
       bindo (wl_connection_flush (da_flush env) dst (px_wire p (k, other_side side))) (\<lambda>(a, dst, w, _).
       Ret (if a = Send_Again \<or> a = Send_Failed then - 1 else 0,
            p\<lparr>px_conns := (px_conns p)((k, other_side side) \<mapsto> dst), px_wire := (px_wire p)((k, other_side side) := w)\<rparr>))))))"

section \<open>The proxy\<close>

record init_env =
  in_zalloc :: bool
  in_sessions :: bool
  in_epoll_fd :: int
  in_socket :: "int option"
  in_epoll :: bool

text \<open>
  The new proxy, or NULL, and the blocks and descriptors that are allocated afterwards. The error labels free
  the memory and leave the descriptors of \<^verbatim>\<open>epoll\<close> and of the socket open.
\<close>

definition proxy_init ::
    "init_env \<Rightarrow> string \<Rightarrow> capture \<Rightarrow> (proxy option \<times> proxy_block heap \<times> int heap) outcome" where
  "proxy_init env name s =
     (if \<not> in_zalloc env then Ret (None, {#}, {#})
      else
        let h = hmalloc Proxy_Block {#} in
        if \<not> in_sessions env then bindo (hfree Proxy_Block h) (\<lambda>h. Ret (None, h, {#}))
        else
          let h = hmalloc Sessions_Block h;
              err = (\<lambda>fds. bindo (hfree Sessions_Block h) (\<lambda>h. bindo (hfree Proxy_Block h) (\<lambda>h. Ret (None, h, fds)))) in
          if in_epoll_fd env < 0 then err {#}
          else
            let fds = hmalloc (in_epoll_fd env) {#} in
            (case in_socket env of
               None \<Rightarrow> err fds
             | Some socket_fd \<Rightarrow>
                 let fds = hmalloc socket_fd fds in
                 if \<not> in_epoll env then err fds
                 else Ret (Some \<lparr>px_name = name, px_epoll_fd = in_epoll_fd env, px_socket_fd = socket_fd, px_next_session_id = 1,
                        px_sessions = replicate MAX_SESSIONS None, px_names = Map.empty, px_conns = Map.empty,
                        px_wire = (\<lambda>_. ([], [])), px_blocks = h, px_fds = fds, px_epoll = hmalloc socket_fd {#}, px_closed = [],
                        px_capture = s\<rparr>, h, fds)))"

definition destroy_slot :: "env \<Rightarrow> nat \<Rightarrow> proxy \<Rightarrow> proxy outcome" where
  "destroy_slot env i p =
     (if i < length (px_sessions p)
      then (case px_sessions p ! i of None \<Rightarrow> Ret p | Some k \<Rightarrow> proxy_destroy_session env k p)
      else Fault Out_Of_Bounds)"

definition proxy_destroy :: "env \<Rightarrow> proxy \<Rightarrow> proxy outcome" where
  "proxy_destroy env p =
     bindo (foldo (destroy_slot env) [0..<MAX_SESSIONS] p) (\<lambda>p.
     bindo (proxy_close (px_socket_fd p) p) (\<lambda>p.
     bindo (proxy_close (px_epoll_fd p) p) (\<lambda>p.
     bindo (proxy_free Sessions_Block p) (proxy_free Proxy_Block))))"

text \<open>What \<^verbatim>\<open>epoll_wait\<close> answers; a hangup of a client or of the compositor comes before its data.\<close>

datatype epoll_answer =
    Epoll_Failed
  | Epoll_Interrupted
  | Hangup nat env
  | Connected nat int session_env
  | Readable nat proxy_sides data_env

text \<open>One round of the loop of \<^verbatim>\<open>proxy_run\<close>: whether to go on. The descriptor \<^verbatim>\<open>socket_data\<close> accepted is negative when it
  failed.\<close>

definition run_round :: "protocols \<Rightarrow> epoll_answer \<Rightarrow> proxy \<Rightarrow> (bool \<times> proxy) outcome" where
  "run_round protocols a p =
     (case a of
        Epoll_Failed \<Rightarrow> Ret (False, p)
      | Epoll_Interrupted \<Rightarrow> Ret (True, p)
      | Hangup k env \<Rightarrow> bindo (proxy_destroy_session env k p) (\<lambda>p. Ret (True, p))
      | Connected k client_fd env \<Rightarrow>
          if client_fd < 0 then Ret (False, p)
          else
            let p = p\<lparr>px_fds := hmalloc client_fd (px_fds p)\<rparr> in
            bindo (proxy_create_session protocols env k client_fd p) (\<lambda>(r, p).
            if r < 0 then bindo (proxy_close client_fd p) (\<lambda>p. Ret (False, p)) else Ret (True, p))
      | Readable k side env \<Rightarrow> bindo (proxy_handle_data env protocols k side p) (\<lambda>(r, p). Ret (r \<ge> 0, p)))"

text \<open>The loop ends with -1, or waits when the answers end.\<close>

primrec proxy_run :: "protocols \<Rightarrow> epoll_answer list \<Rightarrow> proxy \<Rightarrow> (int \<times> proxy) outcome" where
  "proxy_run protocols [] p = Block"
| "proxy_run protocols (a # as) p =
     bindo (run_round protocols a p) (\<lambda>(continue, p). if continue then proxy_run protocols as p else Ret (- 1, p))"

section \<open>The capture thread\<close>

text \<open>
  \<^verbatim>\<open>capture_main\<close> up to the proxy: the session of the capture module, with nothing in its store yet.
\<close>

definition capture_setup :: "u32 \<Rightarrow> u32 \<Rightarrow> (video_encode_queue_frame, cheap) rbuf \<Rightarrow> capture outcome" where
  "capture_setup width height encode_queue =
     bindo (asserto (width > 0)) (\<lambda>_.
     bindo (asserto (height > 0)) (\<lambda>_.
     bindo (rbuf_set_free encode_queue (Some free_frame)) (\<lambda>encode_queue.
     Ret \<lparr>ca_width = width, ca_height = height, ca_queue = encode_queue, ca_frame_count = 0,
          ca_heap = \<lparr>ch_next = 0, ch_pools = Map.empty, ch_bufs = Map.empty, ch_surfs = Map.empty, ch_params = Map.empty,
            ch_frames = {#}, ch_fds = {#}, ch_mmaps = {#}, ch_conns = {}, ch_sent = []\<rparr>,
          ca_sessions = Map.empty\<rparr>)))"

text \<open>The cleanup handler, which frees the struct of the session last; \<open>allocated\<close> says whether it still can.\<close>

definition capture_destroy :: "env \<Rightarrow> bool \<Rightarrow> proxy option \<Rightarrow> proxy outcome" where
  "capture_destroy env allocated p = (if allocated then bindo (derefo p) (proxy_destroy env) else Fault Use_After_Free)"

text \<open>Without a proxy the struct is freed before the cleanup handler runs. The thread blocks in \<^verbatim>\<open>epoll_wait\<close> until it is cancelled.\<close>

definition capture_main ::
    "bool \<Rightarrow> init_env \<Rightarrow> protocols \<Rightarrow> env \<Rightarrow> u32 \<Rightarrow> u32 \<Rightarrow> (video_encode_queue_frame, cheap) rbuf \<Rightarrow> epoll_answer list \<Rightarrow>
     (int \<times> proxy option) outcome" where
  "capture_main malloc_ok init_env protocols env width height encode_queue answers =
     (if \<not> malloc_ok then Ret (- 1, None)
      else
        bindo (capture_setup width height encode_queue) (\<lambda>s.
        bindo (proxy_init init_env ''stratus'' s) (\<lambda>(p, _, _).
        case p of
          None \<Rightarrow> bindo (capture_destroy env False p) (\<lambda>p. Ret (- 1, Some p))
        | Some p \<Rightarrow>
            bindo (proxy_run protocols answers p) (\<lambda>(r, p).
            bindo (capture_destroy env True (Some p)) (\<lambda>p. Ret (if r < 0 then - 1 else 0, Some p))))))"

end
