(* ===== verification/Proxy_Inv.thy ===== *)
theory Proxy_Inv
  imports Proxy
begin

text \<open>
  A message through the proxy keeps the invariant of the capture module. Connections are tame: their faults are never
  uses of freed memory, and they keep their sockets. The handlers never touch the map of types. Registering new
  numbers changes no object. The main lemma, \<open>proxy_handle_message_ok\<close>, is about every message whose numbers are new,
  whatever else it contains and whatever the calls of the environment answer.
\<close>

section \<open>Faults of connections\<close>

text \<open>Reading from and writing to a connection frees nothing: whatever its state, its only faults are the benign ones.
  It never changes the descriptor of its socket.\<close>

definition tame :: "('a \<Rightarrow> bool) \<Rightarrow> 'a outcome \<Rightarrow> bool" where
  "tame P out \<longleftrightarrow> (case out of Ret x \<Rightarrow> P x | Fault f \<Rightarrow> benign f | Block \<Rightarrow> True)"

lemma tame_simps [simp]: "tame P (Ret x) \<longleftrightarrow> P x" "tame P (Fault f) \<longleftrightarrow> benign f" "tame P Block"
  by (simp_all add: tame_def)

lemma tame_bindo: "tame Q m \<Longrightarrow> (\<And>x. Q x \<Longrightarrow> tame P (f x)) \<Longrightarrow> tame P (bindo m f)"
  by (cases m) simp_all

lemma tame_mono: "tame Q m \<Longrightarrow> (\<And>x. Q x \<Longrightarrow> P x) \<Longrightarrow> tame P m"
  by (cases m) simp_all

lemma tame_True: "tame (\<lambda>_. True) (memcpy a b c d e)" "tame (\<lambda>_. True) (size_pot k)" "tame (\<lambda>_. True) (asserto t)"
  "tame (\<lambda>_. True) (nonnull x)" "tame (\<lambda>_. True) (session_of kk s)"
  by (simp_all add: memcpy_def size_pot_def asserto_def nonnull_def session_of_def derefo_def split: option.split)

lemma tame_mask: "tame (\<lambda>_. True) (ring_buffer_capacity b)" "tame (\<lambda>_. True) (ring_buffer_mask b i)"
  by (auto simp: ring_buffer_capacity_def ring_buffer_mask_def tame_True intro!: tame_bindo [OF tame_True(2)])

lemma tame_ring:
  "tame (\<lambda>_. True) (ring_buffer_put b bs)" "tame (\<lambda>_. True) (ring_buffer_copy b n)" "tame (\<lambda>_. True) (ring_buffer_put_iov b)"
  "tame (\<lambda>_. True) (ring_buffer_get_iov b)" "tame (\<lambda>_. True) (ring_buffer_is_max_size_reached b)"
  unfolding ring_buffer_put_def ring_buffer_copy_def ring_buffer_put_iov_def ring_buffer_get_iov_def ring_buffer_is_max_size_reached_def Let_def
  by (auto intro!: tame_bindo [OF tame_True(1)] tame_bindo [OF tame_True(2)] tame_bindo [OF tame_mask(1)] tame_bindo [OF tame_mask(2)]
      tame_True simp: bindo_assoc split: if_splits)

lemma tame_ensure_space: "tame (\<lambda>_. True) (ring_buffer_ensure_space ok b n)"
  unfolding ring_buffer_ensure_space_def ring_buffer_allocate_def Let_def
  by (auto intro!: tame_bindo [OF tame_True(2)] tame_bindo [OF tame_ring(2)] tame_bindo [OF tame_True(1)])

text \<open>Every operation keeps the descriptor; \<open>P\<close> picks the connection from the result.\<close>

lemma tame_flush_step: "tame (\<lambda>(c', _). wc_fd c' = wc_fd c) (flush_step len c)"
  unfolding flush_step_def Let_def
  by (rule tame_bindo [where Q = "\<lambda>_. True"]) (auto intro!: tame_bindo [OF tame_mask(2)] tame_ring)

lemma tame_flush_loop: "wc_fd c = fd \<Longrightarrow> tame (\<lambda>(_, c', _). wc_fd c' = fd) (flush_loop answers c w)"
proof (induction answers arbitrary: c w)
  case (Cons a answers)
  show ?case
    using Cons by (subst flush_loop.simps) (auto intro!: tame_bindo [OF tame_flush_step] split: send_answer.split)
qed (simp add: flush_loop.simps)

lemma tame_flush: "wc_fd c = fd \<Longrightarrow> tame (\<lambda>(_, c', _). wc_fd c' = fd) (wl_connection_flush answers c w)"
  by (simp add: wl_connection_flush_def tame_flush_loop)

lemma tame_write: "tame (\<lambda>(_, c', _). wc_fd c' = wc_fd c) (wl_connection_write ok bs answers c w)"
proof -
  have "tame (\<lambda>(_, c', _). wc_fd c' = wc_fd c) (wl_connection_queue ok bs answers c w)"
    unfolding wl_connection_queue_def Let_def
    by (rule tame_bindo [where Q = "\<lambda>(_, c', _). wc_fd c' = wc_fd c"])
      (auto intro!: tame_flush tame_bindo [OF tame_ensure_space] tame_bindo [OF tame_ring(1)])
  then show ?thesis
    unfolding wl_connection_write_def by (rule tame_bindo) auto
qed

lemma tame_put_fd: "wc_fd c = n \<Longrightarrow> tame (\<lambda>(_, c', _). wc_fd c' = n) (wl_connection_put_fd ok fd answers c w)"
  unfolding wl_connection_put_fd_def
  by (rule tame_bindo [where Q = "\<lambda>(_, c', _). wc_fd c' = n"]) (auto intro!: tame_flush)

lemma tame_copy_fds: "wc_fd c = n \<Longrightarrow> tame (\<lambda>(_, _, c', _). wc_fd c' = n) (copy_fds_to_connection ok args answers c w)"
proof (induction args arbitrary: c w answers)
  case (Cons a args)
  show ?case
    using Cons by (cases a) (auto intro!: tame_bindo [OF Cons.IH] tame_bindo [OF tame_put_fd])
qed simp

lemma tame_closure_send: "tame (\<lambda>(_, _, c', _). wc_fd c' = wc_fd c) (wl_closure_send fo zo co closure answers c w)"
  unfolding wl_closure_send_def Let_def
  by (rule tame_bindo [OF tame_copy_fds [OF refl]]) (auto intro!: tame_mono [OF tame_write] tame_bindo [OF tame_write] split: option.split)

lemma tame_read: "wc_fd c = n \<Longrightarrow> tame (\<lambda>(_, c', _). wc_fd c' = n) (wl_connection_read co fo answers c)"
proof (induction answers arbitrary: c)
  case Nil
  then show ?case
    by (subst wl_connection_read.simps)
      (auto simp: Let_def intro!: tame_bindo [OF tame_ring(5)] tame_bindo [OF tame_ensure_space] tame_bindo [OF tame_ring(3)])
next
  case (Cons a answers)
  then show ?case
    by (subst wl_connection_read.simps)
      (auto simp: Let_def intro!: tame_bindo [OF tame_ring(5)] tame_bindo [OF tame_ensure_space] tame_bindo [OF tame_ring(3)] split: recv_answer.split)
qed

text \<open>Reading a message changes no entry of the map that is in use.\<close>

lemma reserve_lookup: "wl_map_lookup (snd (wl_map_reserve_new ok i m)) = wl_map_lookup m \<and> wm_side (snd (wl_map_reserve_new ok i m)) = wm_side m"
proof -
  have "wl_map_lookup (set_map_entries i a m) = wl_map_lookup m" if "wl_array_add ok k (Null False) (map_entries i m) = Some a" for k a
  proof -
    have "entry_data (wa_items a) = (entry_data (wa_items (map_entries i m)))(unat (map_index i) := wl_map_lookup m i)"
      using wl_array_add_items [OF that] by (simp add: entry_data_append wl_map_lookup_entry)
    from lookup_change [OF this] show ?thesis
      by simp
  qed
  then show ?thesis
    by (auto simp: wl_map_reserve_new_def Let_def set_map_entries_def split: option.split map_entry.split bool.split)
qed

lemma demarshal_arg_objects:
  "demarshal_arg mo d bs fds tbl = Some (a, bs', fds', tbl') \<Longrightarrow>
    wl_map_lookup tbl' = wl_map_lookup tbl \<and> wm_side tbl' = wm_side tbl"
  by (cases d) (auto simp: demarshal_arg_def reserve_lookup split: if_splits list.splits option.splits)

lemma demarshal_args_objects:
  "demarshal_args mo ds args bs fds tbl = (r, fds', tbl') \<Longrightarrow>
    wl_map_lookup tbl' = wl_map_lookup tbl \<and> wm_side tbl' = wm_side tbl"
proof (induction ds arbitrary: args bs fds tbl)
  case (Cons d ds)
  then show ?case
    by (auto split: option.splits dest!: demarshal_arg_objects)
qed simp

lemma demarshal_bytes_objects:
  "demarshal_bytes io mo message msg fds tbl = (r, fds', tbl') \<Longrightarrow>
    wl_map_lookup tbl' = wl_map_lookup tbl \<and> wm_side tbl' = wm_side tbl"
  by (auto simp: demarshal_bytes_def split: if_splits option.splits prod.splits dest: demarshal_args_objects)

lemma tame_demarshal:
  "tame (\<lambda>(_, _, c', types). wc_fd c' = wc_fd c \<and> wl_map_lookup types = wl_map_lookup tbl \<and> wm_side types = wm_side tbl)
    (wl_connection_demarshal io mo c n tbl message)"
  unfolding wl_connection_demarshal_def wl_connection_copy_def wl_connection_consume_def Let_def
  by (auto intro!: tame_bindo [OF tame_ring(2)] split: prod.split sum.split dest: demarshal_bytes_objects)

section \<open>Types of objects\<close>

text \<open>The handlers of the capture module never touch the map of types.\<close>

definition types_of :: "capture \<Rightarrow> nat \<Rightarrow> wl_interface wl_map option" where
  "types_of s k = map_option ps_types (ca_sessions s k)"

lemma types_of_updates [simp]:
  "types_of (s\<lparr>ca_heap := h\<rparr>) = types_of s" "types_of (s\<lparr>ca_queue := b\<rparr>) = types_of s" "types_of (s\<lparr>ca_frame_count := c\<rparr>) = types_of s"
  "types_of (set_data k d s) = types_of s"
  by (auto simp: types_of_def set_data_def option.map_comp comp_def intro!: ext)

lemma types_of_store: "store_object env k i x s = Ret (b, s') \<Longrightarrow> types_of s' = types_of s"
  by (auto simp: store_object_def bindo_Ret_iff case_prod_beta split: if_splits)

lemma types_of_remove: "remove_object k i s = Ret s' \<Longrightarrow> types_of s' = types_of s"
  by (auto simp: remove_object_def bindo_Ret_iff)

definition keeps_types :: "capture \<Rightarrow> (proxy_action \<times> capture) outcome \<Rightarrow> bool" where
  "keeps_types s r \<longleftrightarrow> (\<forall>act s'. r = Ret (act, s') \<longrightarrow> types_of s' = types_of s)"

lemma keeps_types_bindo: "(\<And>x. m = Ret x \<Longrightarrow> keeps_types s (f x)) \<Longrightarrow> keeps_types s (bindo m f)"
  by (auto simp: keeps_types_def bindo_Ret_iff)

lemma keeps_types_Ret [simp]: "keeps_types s (Ret (act, s')) \<longleftrightarrow> types_of s' = types_of s" "keeps_types s (Fault f)" "keeps_types s Block"
  by (auto simp: keeps_types_def)

lemma handler_types:
  "keeps_types s (wl_shm_format env k msg s)" "keeps_types s (wl_shm_create_pool env k msg s)" "keeps_types s (wl_shm_pool_destroy env k msg s)"
  "keeps_types s (wl_shm_pool_create_buffer env k msg s)" "keeps_types s (zwp_linux_dmabuf_create_params env k msg s)"
  "keeps_types s (zwp_linux_buffer_params_add env k msg s)" "keeps_types s (zwp_linux_buffer_params_create_immed env k msg s)"
  "keeps_types s (zwp_linux_buffer_params_destroy env k msg s)" "keeps_types s (wl_buffer_release env k msg s)"
  "keeps_types s (wl_buffer_destroy env k msg s)" "keeps_types s (wl_compositor_create_surface env k msg s)"
  "keeps_types s (wl_surface_attach env k msg s)" "keeps_types s (wl_surface_destroy env k msg s)"
  "keeps_types s (xdg_surface_get_toplevel env k msg s)" "keeps_types s (xdg_toplevel_configure env k msg s)"
  "keeps_types s (xdg_toplevel_set_fullscreen env k msg s)"
  unfolding wl_shm_format_def wl_shm_create_pool_def wl_shm_pool_destroy_def wl_shm_pool_create_buffer_def zwp_linux_dmabuf_create_params_def
    zwp_linux_buffer_params_add_def zwp_linux_buffer_params_create_immed_def zwp_linux_buffer_params_destroy_def wl_buffer_release_def
    wl_buffer_destroy_def wl_compositor_create_surface_def wl_surface_attach_def wl_surface_destroy_def
    xdg_surface_get_toplevel_def xdg_toplevel_configure_def xdg_toplevel_set_fullscreen_def Let_def
  by (auto intro!: keeps_types_bindo simp: types_of_remove dest!: types_of_store types_of_remove split: option.split)

lemma commit_push_types: "commit_push env k b buf s = Ret (r, s') \<Longrightarrow> types_of s' = types_of s"
  by (auto simp: commit_push_def bindo_Ret_iff Let_def split: if_splits prod.splits)

lemma wl_surface_commit_types: "keeps_types s (wl_surface_commit env k msg s)"
  unfolding wl_surface_commit_def
  by (auto intro!: keeps_types_bindo simp: bindo_Ret_iff dest!: commit_push_types split: option.split if_splits)

lemma handle_message_types:
  assumes "handle_message env k msg s = Ret (act, msg', s')"
  shows "types_of s' = types_of s"
proof -
  obtain q h where fe: "rbuf_free_expired (ca_queue s) (ca_heap s) = Ret (q, h)"
    using assms by (auto simp: handle_message_def bindo_Ret_iff)
  let ?s = "s\<lparr>ca_queue := q, ca_heap := h\<rparr>"
  show ?thesis
  proof (cases "find_handler (ms_interface msg) (ms_name msg)")
    case None
    then show ?thesis
      using assms fe by (auto simp: handle_message_def)
  next
    case (Some f)
    have f: "f env k msg ?s = Ret (act, msg', s')"
      using assms fe Some by (simp add: handle_message_def)
    have "f = wl_output_mode \<or> (\<exists>g. f = same_message g \<and> (\<forall>env k msg s. keeps_types s (g env k msg s)))"
      using find_handler_in [OF Some] handler_types wl_surface_commit_types
      by (auto simp: message_handlers_def resize_message_handlers_def shm_buffers_message_handlers_def dma_buffers_message_handlers_def
          video_output_message_handlers_def)
    then have "types_of s' = types_of ?s"
      using f by (auto simp: wl_output_mode_def same_message_def bindo_Ret_iff keeps_types_def)
    then show ?thesis
      by simp
  qed
qed

section \<open>Sessions and numbers\<close>

text \<open>A change of the sessions that changes no object.\<close>

lemma hinv_conns [simp]: "hinv lk lf fs (h\<lparr>ch_conns := C\<rparr>) = hinv lk lf fs h"
  by (simp add: hinv_def heap_defs)

lemma view_conns [simp]: "view (h\<lparr>ch_conns := C\<rparr>) = view h" "attached (h\<lparr>ch_conns := C\<rparr>) = attached h"
  by (rule view_eqI) (simp_all add: attached_def fun_eq_iff)

lemma cinv_sessions:
  assumes inv: "cinv lk lf n e q s" and s': "objects s' = objects s" "ca_queue s' = ca_queue s"
      "ca_heap s' = (ca_heap s)\<lparr>ch_conns := dom (ca_sessions s')\<rparr>"
    and ok: "\<And>k m. ca_sessions s' k = Some m \<Longrightarrow> sess_ok m"
  shows "cinv lk lf n e q s'"
  unfolding cinv_def using cinvD [OF inv] s' ok by (simp del: view.simps)

text \<open>The interfaces of the objects of all sessions are those of the protocols.\<close>

definition interfaces :: "protocols \<Rightarrow> wl_interface list" where
  "interfaces protocols = pr_display protocols # concat (pr_tables protocols)"

definition types_ok :: "protocols \<Rightarrow> capture \<Rightarrow> bool" where
  "types_ok protocols s \<longleftrightarrow>
     (\<forall>k m i f. ca_sessions s k = Some m \<longrightarrow> wl_map_lookup (ps_types m) i = Some f \<longrightarrow> f \<in> set (interfaces protocols))"

lemma types_ok_types_of: "types_of s' = types_of s \<Longrightarrow> types_ok protocols s' = types_ok protocols s"
proof -
  have "types_ok protocols s' \<longleftrightarrow> (\<forall>k t i f. types_of s' k = Some t \<longrightarrow> wl_map_lookup t i = Some f \<longrightarrow> f \<in> set (interfaces protocols))" for s'
    by (auto simp: types_ok_def types_of_def)
  then show "types_of s' = types_of s \<Longrightarrow> types_ok protocols s' = types_ok protocols s"
    by simp
qed

lemma types_of_dom: "types_of s' = types_of s \<Longrightarrow> dom (ca_sessions s') = dom (ca_sessions s)"
proof -
  assume "types_of s' = types_of s"
  then have "types_of s' k = types_of s k" for k
    by simp
  then show "dom (ca_sessions s') = dom (ca_sessions s)"
    by (auto simp: types_of_def dom_def) (metis not_None_eq option.map_disc_iff)+
qed

text \<open>Number \<open>i\<close> of session \<open>k\<close> is registered.\<close>

definition registered :: "nat \<Rightarrow> wl_interface option \<Rightarrow> capture \<Rightarrow> u32 \<Rightarrow> bool" where
  "registered k interface s i \<longleftrightarrow>
     (\<exists>m. ca_sessions s k = Some m \<and> wl_map_lookup (ps_types m) i = interface \<and> known (ps_data m) i \<and> map_index i \<le> WL_MAP_MAX_OBJECTS)"

definition keeps_objects ::
    "protocols \<Rightarrow> (obj \<Rightarrow> nat) \<Rightarrow> int heap \<Rightarrow> nat \<Rightarrow> video_encode_queue_frame list \<Rightarrow> video_encode_queue_frame list \<Rightarrow> capture \<Rightarrow> capture \<Rightarrow> bool" where
  "keeps_objects protocols lk lf n e q s s' \<longleftrightarrow> cinv lk lf n e q s' \<and> types_ok protocols s' \<and> objects s' = objects s \<and> ca_heap s' = ca_heap s \<and>
     dom (ca_sessions s') = dom (ca_sessions s)"

lemma proxy_lookup_interface_in:
  "proxy_lookup_interface protocols name = Some f \<Longrightarrow> f \<in> set (interfaces protocols) \<and> if_name f = name"
  by (auto simp: proxy_lookup_interface_def interfaces_def find_Some_iff) (metis nth_mem set_concat UN_iff)

lemma proxy_create_object_ok:
  assumes inv: "cinv lk lf n e q s" and ty: "types_ok protocols s" and f: "\<And>f. interface = Some f \<Longrightarrow> f \<in> set (interfaces protocols)"
    and k: "ca_sessions s k \<noteq> None" and i: "objects s k i = None"
  shows "\<exists>r s'. proxy_create_object ty_ok dt_ok k i interface s = Ret (r, s') \<and> keeps_objects protocols lk lf n e q s s' \<and>
    (\<not> r < 0 \<longrightarrow> registered k interface s' i \<and> (\<forall>j. registered k interface s j \<longrightarrow> registered k interface s' j))"
proof -
  obtain m where m: "ca_sessions s k = Some m"
    using k by blast
  note ok = cinvD(5) [OF inv m, unfolded sess_ok_def]
  have none: "wl_map_lookup (ps_data m) i = None"
    using session_objects [OF m] i by simp
  have keeps: "keeps_objects protocols lk lf n e q s (s\<lparr>ca_sessions := (ca_sessions s)(k \<mapsto> m\<lparr>ps_types := t, ps_data := d\<rparr>)\<rparr>)"
    if t: "wl_map_lookup t = (wl_map_lookup (ps_types m))(i := interface)" and d: "data_ok d" "wl_map_lookup d = wl_map_lookup (ps_data m)" for t d
  proof -
    let ?s = "s\<lparr>ca_sessions := (ca_sessions s)(k \<mapsto> m\<lparr>ps_types := t, ps_data := d\<rparr>)\<rparr>"
    have objs: "objects ?s = objects s"
      using m d(2) by (intro ext) (simp add: objects_def)
    have dom: "dom (ca_sessions ?s) = dom (ca_sessions s)"
      using m by auto
    have "sess_ok m'" if "ca_sessions ?s k' = Some m'" for k' m'
      using that cinvD(5) [OF inv, of k' m'] ok none t d by (auto simp: sess_ok_def has_type_def split: if_splits)
    then have "cinv lk lf n e q ?s"
      by (intro cinv_sessions [OF inv objs]) (use cinvD(4) [OF inv] m dom in \<open>auto simp: insert_absorb\<close>)
    moreover have "types_ok protocols ?s"
      using ty m t f unfolding types_ok_def by (auto split: if_splits)
    ultimately show ?thesis
      using objs dom by (simp add: keeps_objects_def)
  qed
  obtain rt t where rt: "wl_map_insert_at ty_ok False i interface (ps_types m) = (rt, t)"
    by fastforce
  obtain rd d where rd: "wl_map_insert_at dt_ok False i None (ps_data m) = (rd, d)"
    by fastforce
  show ?thesis
  proof (cases "rt = 0")
    case False
    then have "rt = - 1"
      using wl_map_insert_at_result [of ty_ok False i interface "ps_types m"] rt by simp
    then show ?thesis
      using m rt inv ty by (simp add: proxy_create_object_def session_of_def keeps_objects_def)
  next
    case True
    note t = wl_map_insert_at_lookup [OF rt [unfolded True]]
    show ?thesis
    proof (cases "rd = 0")
      case False
      then have d: "rd = - 1" "d = ps_data m"
        using wl_map_insert_at_result [of dt_ok False i None "ps_data m"] rd by simp_all
      show ?thesis
        using m rt rd True d keeps [OF t(1), of d] ok by (simp add: proxy_create_object_def session_of_def)
    next
      case rd0: True
      note d = wl_map_insert_at_lookup [OF rd [unfolded rd0]]
      have "data_ok d"
        using data_ok_insert [OF rd [unfolded rd0]] ok by simp
      moreover have "wl_map_lookup d = wl_map_lookup (ps_data m)"
        using d(1) none by auto
      ultimately show ?thesis
        using m rt rd True rd0 keeps [OF t(1), of d] t d
        by (auto simp: proxy_create_object_def session_of_def registered_def)
    qed
  qed
qed

lemma keeps_objects_trans:
  "keeps_objects protocols lk lf n e q s s' \<Longrightarrow> keeps_objects protocols lk lf n e q s' s'' \<Longrightarrow> keeps_objects protocols lk lf n e q s s''"
  by (simp add: keeps_objects_def)

text \<open>The numbers of new objects in a message.\<close>

definition new_numbers :: "((char \<times> bool) \<times> wl_argument) list \<Rightarrow> u32 list" where
  "new_numbers args = map (arg_word \<circ> snd) (filter (\<lambda>a. fst (fst a) = CHR ''n'') args)"

lemma create_new_objects_ok:
  assumes "cinv lk lf n e q s" "types_ok protocols s" "ca_sessions s k \<noteq> None" "list_all (\<lambda>i. objects s k i = None) (new_numbers args)"
  shows "tame (\<lambda>(r, b, s'). keeps_objects protocols lk lf n e q s s' \<and>
      (\<not> r < 0 \<longrightarrow> (\<forall>i \<in> set (new_numbers args). registered k (Option.bind (hd (wg_types message)) (proxy_lookup_interface protocols)) s' i) \<and>
        (\<forall>i. registered k (Option.bind (hd (wg_types message)) (proxy_lookup_interface protocols)) s i \<longrightarrow>
          registered k (Option.bind (hd (wg_types message)) (proxy_lookup_interface protocols)) s' i)))
    (create_new_objects ty_ok dt_ok protocols k message args s)"
  using assms
proof (induction args arbitrary: s)
  case Nil
  then show ?case
    by (simp add: keeps_objects_def new_numbers_def)
next
  case (Cons a args)
  obtain ty nl x where a: "a = ((ty, nl), x)"
    by (metis surj_pair)
  show ?case
  proof (cases "ty = CHR ''n''")
    case False
    then show ?thesis
      using Cons a by (simp add: new_numbers_def)
  next
    case True
    show ?thesis
    proof (cases "wg_types message")
      case Nil
      then show ?thesis
        using a True by simp
    next
      case (Cons t ts)
      let ?f = "Option.bind t (proxy_lookup_interface protocols)"
      have f: "f \<in> set (interfaces protocols)" if "?f = Some f" for f
        using that proxy_lookup_interface_in by (auto simp: bind_eq_Some_conv)
      have i: "objects s k (arg_word x) = None"
        using Cons.prems(4) a True by (simp add: new_numbers_def)
      obtain r s1 where s1: "proxy_create_object ty_ok dt_ok k (arg_word x) ?f s = Ret (r, s1)" "keeps_objects protocols lk lf n e q s s1"
        "\<not> r < 0 \<Longrightarrow> registered k ?f s1 (arg_word x)" "\<And>j. \<not> r < 0 \<Longrightarrow> registered k ?f s j \<Longrightarrow> registered k ?f s1 j"
        using proxy_create_object_ok [OF Cons.prems(1,2) _ Cons.prems(3) i, where interface = ?f and ty_ok = ty_ok and dt_ok = dt_ok] f by blast
      show ?thesis
      proof (cases "r < 0")
        case True
        then show ?thesis
          using a \<open>ty = CHR ''n''\<close> Cons s1(1,2) by simp
      next
        case False
        have "cinv lk lf n e q s1" "types_ok protocols s1" "ca_sessions s1 k \<noteq> None" "list_all (\<lambda>i. objects s1 k i = None) (new_numbers args)"
          using s1(2) Cons.prems(3,4) a unfolding keeps_objects_def new_numbers_def by (auto simp: domIff [symmetric] split: if_splits)
        then have "tame (\<lambda>(r, b, s'). keeps_objects protocols lk lf n e q s1 s' \<and>
            (\<not> r < 0 \<longrightarrow> (\<forall>i \<in> set (new_numbers args). registered k ?f s' i) \<and> (\<forall>i. registered k ?f s1 i \<longrightarrow> registered k ?f s' i)))
          (create_new_objects ty_ok dt_ok protocols k message args s1)"
          using Cons.IH [of s1] Cons by simp
        then show ?thesis
          using a \<open>ty = CHR ''n''\<close> Cons s1 False
          by (auto intro!: tame_bindo simp: new_numbers_def intro: keeps_objects_trans)
      qed
    qed
  qed
qed

section \<open>Protocols\<close>

text \<open>
  What the capture module relies on in the tables of the protocols: a request that creates an object the module keeps a
  struct for has its number as the first argument, and the type of that argument is an interface of the tables that
  can be destroyed; no event creates one.
\<close>

definition message_of :: "wl_interface \<Rightarrow> wl_message \<Rightarrow> proxy_message" where
  "message_of interface message = \<lparr>ms_interface = if_name interface, ms_name = wg_name message, ms_sender = 0, ms_args = []\<rparr>"

definition creating_ok :: "protocols \<Rightarrow> wl_message \<Rightarrow> string \<Rightarrow> bool" where
  "creating_ok protocols message nm \<longleftrightarrow>
     (case (arguments message, wg_types message) of
        ((ty, nl) # ds, Some t # ts) \<Rightarrow>
          ty = CHR ''n'' \<and> t = nm \<and>
          (case proxy_lookup_interface protocols t of
             None \<Rightarrow> False
           | Some f \<Rightarrow> list_ex (\<lambda>g. wg_name g = ''destroy'') (if_methods f))
      | _ \<Rightarrow> False)"

definition protocols_ok :: "protocols \<Rightarrow> bool" where
  "protocols_ok protocols \<longleftrightarrow>
     list_all (\<lambda>f.
       list_all (\<lambda>g. case creates (message_of f g) of None \<Rightarrow> True | Some nm \<Rightarrow> creating_ok protocols g nm) (if_methods f) \<and>
       list_all (\<lambda>g. creates (message_of f g) = None) (if_events f))
     (interfaces protocols)"

lemma creating_okE:
  assumes "creating_ok protocols message nm"
  obtains nl ds ts f where "arguments message = (CHR ''n'', nl) # ds" "wg_types message = Some nm # ts"
    "proxy_lookup_interface protocols nm = Some f" "if_name f = nm" "list_ex (\<lambda>g. wg_name g = ''destroy'') (if_methods f)"
proof -
  obtain ty nl ds t ts where a: "arguments message = (ty, nl) # ds" "wg_types message = Some t # ts"
    using assms unfolding creating_ok_def by (auto split: list.splits option.splits)
  then obtain f where "ty = CHR ''n''" "t = nm" "proxy_lookup_interface protocols nm = Some f" "list_ex (\<lambda>g. wg_name g = ''destroy'') (if_methods f)"
    using assms by (cases "proxy_lookup_interface protocols t") (auto simp: creating_ok_def)
  then show thesis
    using that a proxy_lookup_interface_in by blast
qed

section \<open>Messages\<close>

definition side_messages :: "proxy_sides \<Rightarrow> wl_interface \<Rightarrow> wl_message list" where
  "side_messages side interface = (if side = PROXY_SIDE_CLIENT then if_methods interface else if_events interface)"

text \<open>
  What is asked of a message. Its new numbers are not in use, and those of a client are in the range of clients. The
  one event the module sends itself is sent (its error path is defective). With \<open>strict\<close> the client also sets a plane of
  a dma-buf once and numbers the planes from 0.
\<close>

definition numbers_of :: "wl_interface \<Rightarrow> wl_closure \<Rightarrow> u32 list" where
  "numbers_of interface closure =
     (if if_name interface = ''wl_registry'' \<and> wg_name (cl_message closure) = ''bind''
      then (if 3 < length (cl_args closure) then [arg_word (cl_args closure ! 3)] else [])
      else new_numbers (zip (arguments (cl_message closure)) (cl_args closure)))"

definition closure_guard :: "bool \<Rightarrow> env \<Rightarrow> nat \<Rightarrow> proxy_sides \<Rightarrow> wl_interface \<Rightarrow> wl_closure \<Rightarrow> capture \<Rightarrow> bool" where
  "closure_guard strict env k side interface closure s \<longleftrightarrow>
     list_all (\<lambda>i. objects s k i = None \<and> (side = PROXY_SIDE_CLIENT \<longrightarrow> i < WL_SERVER_ID_START)) (numbers_of interface closure) \<and>
     (if_name interface = ''xdg_surface'' \<and> wg_name (cl_message closure) = ''get_toplevel'' \<longrightarrow> en_send env) \<and>
     (strict \<longrightarrow> if_name interface = ''zwp_linux_buffer_params_v1'' \<longrightarrow>
       (wg_name (cl_message closure) = ''add'' \<longrightarrow> plane_unset k (handler_message interface closure) s) \<and>
       (wg_name (cl_message closure) = ''create_immed'' \<longrightarrow> planes_dense k (handler_message interface closure) s))"

lemma register_objects_ok:
  assumes inv: "cinv lk lf n e q s" "types_ok protocols s" "ca_sessions s k \<noteq> None"
    and new: "list_all (\<lambda>i. objects s k i = None) (numbers_of interface closure)"
  shows "tame (\<lambda>(r, b, s'). keeps_objects protocols lk lf n e q s s' \<and>
      (\<not> r < 0 \<longrightarrow> if_name interface \<noteq> ''wl_registry'' \<longrightarrow> (\<forall>i \<in> set (numbers_of interface closure).
        registered k (Option.bind (hd (wg_types (cl_message closure))) (proxy_lookup_interface protocols)) s' i)))
    (register_objects env protocols k interface closure s)"
proof (cases "if_name interface = ''wl_registry'' \<and> wg_name (cl_message closure) = ''bind''")
  case False
  then have num: "numbers_of interface closure = new_numbers (zip (arguments (cl_message closure)) (cl_args closure))"
    by (auto simp: numbers_of_def)
  have "register_objects env protocols k interface closure s =
    create_new_objects (me_types env) (me_data env) protocols k (cl_message closure) (zip (arguments (cl_message closure)) (cl_args closure)) s"
    using False unfolding register_objects_def Let_def by (simp only: if_False)
  then show ?thesis
    using tame_mono [OF create_new_objects_ok [OF inv, of "zip (arguments (cl_message closure)) (cl_args closure)"]] new num by fastforce
next
  case True
  have word: "tame (\<lambda>w. objects s k w = None) (word_arg 3 closure)"
    using new True by (auto simp: word_arg_def numbers_of_def split: wl_argument.split)
  have look: "tame (\<lambda>f. f \<in> set (interfaces protocols)) (nonnull (proxy_lookup_interface protocols name))" for name
    using proxy_lookup_interface_in by (auto simp: nonnull_def split: option.split)
  have str: "tame (\<lambda>_. True) (string_arg i closure)" for i
    by (simp add: string_arg_def split: wl_argument.split option.split)
  have create: "tame (\<lambda>(r, s'). keeps_objects protocols lk lf n e q s s') (proxy_create_object (me_types env) (me_data env) k w (Some f) s)"
    if "objects s k w = None" "f \<in> set (interfaces protocols)" for w f
    using proxy_create_object_ok [OF inv(1,2) _ inv(3) that(1), where interface = "Some f" and ty_ok = "me_types env" and dt_ok = "me_data env"] that(2)
    by (auto simp: tame_def)
  show ?thesis
    using True unfolding register_objects_def Let_def
    by (auto intro!: tame_bindo [OF str] tame_bindo [OF look] tame_bindo [OF word] tame_bindo [OF create])
qed

text \<open>The handling of a message in the state where its numbers are registered.\<close>

lemma closure_message_ok:
  assumes prot: "protocols_ok protocols" and f: "interface \<in> set (interfaces protocols)"
    and msg: "cl_message closure \<in> set (side_messages side interface)" and args: "list_all2 arg_ok (arguments (cl_message closure)) (cl_args closure)"
    and guard: "closure_guard strict env k side interface closure s"
    and keeps: "keeps_objects protocols lk lf n e q s s'" and k: "ca_sessions s k \<noteq> None"
    and reg: "if_name interface \<noteq> ''wl_registry'' \<Longrightarrow> \<forall>i \<in> set (numbers_of interface closure).
        registered k (Option.bind (hd (wg_types (cl_message closure))) (proxy_lookup_interface protocols)) s' i"
  shows "message_ok env k (handler_message interface closure) s'" "strict \<Longrightarrow> conforming k (handler_message interface closure) s'"
proof -
  let ?msg = "handler_message interface closure" and ?g = "cl_message closure"
  have cr: "creates ?msg = creates (message_of interface ?g)"
    by (simp add: creates_def handler_message_def message_of_def)
  have objs: "objects s' = objects s" "ca_heap s' = ca_heap s" "ca_sessions s' k \<noteq> None"
    using keeps k by (auto simp: keeps_objects_def domIff [symmetric])
  have new: "client_id (ms_args ?msg ! 0) \<and> typed_at s' k (ms_args ?msg ! 0) nm \<and>
      known (data_map k s') (ms_args ?msg ! 0) \<and> map_index (ms_args ?msg ! 0) \<le> WL_MAP_MAX_OBJECTS" if nm: "creates ?msg = Some nm" for nm
  proof -
    have ok: "creating_ok protocols ?g nm" and client: "side = PROXY_SIDE_CLIENT"
      using prot f msg nm cr unfolding protocols_ok_def list_all_iff side_messages_def by (fastforce split: if_splits)+
    have notreg: "if_name interface \<noteq> ''wl_registry''"
      using nm by (auto simp: creates_def handler_message_def)
    obtain nl ds ts f where g: "arguments ?g = (CHR ''n'', nl) # ds" "wg_types ?g = Some nm # ts" "proxy_lookup_interface protocols nm = Some f"
      "if_name f = nm" "list_ex (\<lambda>g. wg_name g = ''destroy'') (if_methods f)"
      by (rule creating_okE [OF ok])
    obtain a as where a: "cl_args closure = a # as" "arg_ok (CHR ''n'', nl) a"
      using args g(1) by (auto simp: list_all2_Cons1)
    then obtain w where w: "a = Word w" "w \<noteq> 0"
      by (cases a) (auto simp: arg_ok_def split: option.splits)
    have num: "w \<in> set (numbers_of interface closure)"
      using notreg g(1) a(1) w(1) by (simp add: numbers_of_def new_numbers_def)
    have "w < WL_SERVER_ID_START"
      using guard client num by (simp add: closure_guard_def list_all_iff)
    moreover have "registered k (Some f) s' w"
      using reg [OF notreg] num g(2,3) by simp
    moreover have "ms_args ?msg ! 0 = w"
      using a(1) w(1) by (simp add: handler_message_def)
    ultimately show ?thesis
      using w(2) g(4,5) by (auto simp: client_id_def typed_at_def registered_def has_type_def data_map_def word_neq_0_conv)
  qed
  show "message_ok env k ?msg s'"
    using objs(3) new guard by (auto simp: message_ok_def closure_guard_def handler_message_def)
  show "conforming k ?msg s'" if strict
    using new guard that objs(1,2) by (auto simp: conforming_def closure_guard_def plane_unset_def planes_dense_def handler_message_def)
qed

lemma handle_closure_ok:
  assumes prot: "protocols_ok protocols" and f: "interface \<in> set (interfaces protocols)"
    and msg: "cl_message closure \<in> set (side_messages side interface)" and args: "list_all2 arg_ok (arguments (cl_message closure)) (cl_args closure)"
    and guard: "closure_guard strict env k side interface closure s"
    and keeps: "keeps_objects protocols lk lf n e q s s'" and k: "ca_sessions s k \<noteq> None" and room: "Suc (ch_next (ca_heap s)) < 2147483648"
    and reg: "if_name interface \<noteq> ''wl_registry'' \<Longrightarrow> \<forall>i \<in> set (numbers_of interface closure).
        registered k (Option.bind (hd (wg_types (cl_message closure))) (proxy_lookup_interface protocols)) s' i"
  shows "tame (\<lambda>(act, msg, s'). \<exists>lk' lf' e' q'. cinv lk' lf' n e' q' s' \<and> (strict \<longrightarrow> lossless lk lf lk' lf') \<and> types_ok protocols s' \<and>
      dom (ca_sessions s') = dom (ca_sessions s))
    (handle_message env k (handler_message interface closure) s')"
proof -
  let ?msg = "handler_message interface closure"
  note ok = closure_message_ok [OF prot f msg args guard keeps k reg]
  have inv: "cinv lk lf n e q s'" "types_ok protocols s'" "dom (ca_sessions s') = dom (ca_sessions s)" "ca_heap s' = ca_heap s"
    using keeps by (simp_all add: keeps_objects_def)
  have "handled (\<lambda>lk' lf'. conforming k ?msg s' \<longrightarrow> lossless lk lf lk' lf') n (Suc (ch_next (ca_heap s'))) (drop_message (handle_message env k ?msg s'))"
    by (rule handle_message_ok [OF inv(1) _ ok(1)]) (use room inv(4) in simp)
  then have "tame (\<lambda>(act, msg, s''). \<exists>lk' lf' e' q'. cinv lk' lf' n e' q' s'' \<and> (strict \<longrightarrow> lossless lk lf lk' lf') \<and> types_of s'' = types_of s')
    (handle_message env k ?msg s')"
    using ok(2) handle_message_types [of env k ?msg s']
    by (cases "handle_message env k ?msg s'") (auto simp: handled_def drop_message_def, blast+)
  then show ?thesis
    using types_of_dom [of _ s'] types_ok_types_of [of _ s' protocols] inv(2,3) by (elim tame_mono) (simp, blast)
qed

section \<open>Resources of sessions\<close>

definition session_blocks :: "nat \<Rightarrow> proxy_block heap" where
  "session_blocks k = {#Session_Block k, Name_Block k, Conn_Block k PROXY_SIDE_CLIENT, Wl_Conn_Block k PROXY_SIDE_CLIENT,
     Conn_Block k PROXY_SIDE_SERVER, Wl_Conn_Block k PROXY_SIDE_SERVER, Types_Block k, Data_Block k#}"

definition conn_fds :: "proxy \<Rightarrow> nat \<times> proxy_sides \<Rightarrow> int option" where
  "conn_fds p c = map_option wc_fd (px_conns p c)"

definition session_fds :: "(nat \<times> proxy_sides \<Rightarrow> int option) \<Rightarrow> nat \<Rightarrow> int heap" where
  "session_fds fds k = {#the (fds (k, PROXY_SIDE_CLIENT)), the (fds (k, PROXY_SIDE_SERVER))#}"

definition live :: "proxy \<Rightarrow> nat set" where
  "live p = dom (ca_sessions (px_capture p))"

text \<open>Exactly the sessions of the table have maps and connections, and exactly their blocks and sockets are held.\<close>

definition resources_ok :: "proxy \<Rightarrow> bool" where
  "resources_ok p \<longleftrightarrow> length (px_sessions p) = MAX_SESSIONS \<and> live p = {k. Some k \<in> set (px_sessions p)} \<and>
     (\<forall>k side. conn_fds p (k, side) \<noteq> None \<longleftrightarrow> k \<in> live p) \<and>
     px_blocks p = {#Proxy_Block, Sessions_Block#} + (\<Sum>k \<in> live p. session_blocks k) \<and>
     px_fds p = {#px_epoll_fd p, px_socket_fd p#} + (\<Sum>k \<in> live p. session_fds (conn_fds p) k)"

text \<open>What a message leaves as it is.\<close>

definition same_resources :: "proxy \<Rightarrow> proxy \<Rightarrow> bool" where
  "same_resources p p' \<longleftrightarrow> px_sessions p' = px_sessions p \<and> px_epoll_fd p' = px_epoll_fd p \<and> px_socket_fd p' = px_socket_fd p \<and>
     px_blocks p' = px_blocks p \<and> px_fds p' = px_fds p \<and> conn_fds p' = conn_fds p \<and> live p' = live p"

lemma resources_ok_same: "same_resources p p' \<Longrightarrow> resources_ok p \<Longrightarrow> resources_ok p'"
  by (simp add: resources_ok_def same_resources_def)

lemma same_resources_trans [trans]: "same_resources p p' \<Longrightarrow> same_resources p' p'' \<Longrightarrow> same_resources p p''"
  by (simp add: same_resources_def)

lemma live_updates [simp]:
  "live (p\<lparr>px_conns := a\<rparr>) = live p" "live (p\<lparr>px_wire := b\<rparr>) = live p" "live (p\<lparr>px_closed := c\<rparr>) = live p"
  "live (p\<lparr>px_blocks := d\<rparr>) = live p" "live (p\<lparr>px_fds := e\<rparr>) = live p" "live (p\<lparr>px_epoll := f\<rparr>) = live p"
  "live (p\<lparr>px_sessions := g\<rparr>) = live p" "live (p\<lparr>px_names := h\<rparr>) = live p" "live (p\<lparr>px_capture := s\<rparr>) = dom (ca_sessions s)"
  by (simp_all add: live_def)

lemma conn_fds_updates [simp]:
  "conn_fds (p\<lparr>px_wire := b\<rparr>) = conn_fds p" "conn_fds (p\<lparr>px_closed := c\<rparr>) = conn_fds p"
  "conn_fds (p\<lparr>px_blocks := d\<rparr>) = conn_fds p" "conn_fds (p\<lparr>px_fds := e\<rparr>) = conn_fds p" "conn_fds (p\<lparr>px_epoll := f\<rparr>) = conn_fds p"
  "conn_fds (p\<lparr>px_sessions := g\<rparr>) = conn_fds p" "conn_fds (p\<lparr>px_names := h\<rparr>) = conn_fds p" "conn_fds (p\<lparr>px_capture := s\<rparr>) = conn_fds p"
  by (simp_all add: conn_fds_def fun_eq_iff)

lemma conn_fds_conn [simp]: "conn_fds (p\<lparr>px_conns := (px_conns p)(x \<mapsto> c)\<rparr>) = (conn_fds p)(x \<mapsto> wc_fd c)"
  "conn_fds (p\<lparr>px_conns := (px_conns p)(x := None)\<rparr>) = (conn_fds p)(x := None)"
  by (simp_all add: conn_fds_def fun_eq_iff)

lemma conn_fds_Some: "px_conns p x = Some c \<Longrightarrow> conn_fds p x = Some (wc_fd c)"
  by (simp add: conn_fds_def)

lemma conn_fds_same: "px_conns p x = Some c \<Longrightarrow> wc_fd c' = wc_fd c \<Longrightarrow> (conn_fds p)(x \<mapsto> wc_fd c') = conn_fds p"
  by (auto simp: conn_fds_def fun_eq_iff)

section \<open>A message through the proxy\<close>

lemma tame_nonnull: "(\<And>x. v = Some x \<Longrightarrow> tame P (f x)) \<Longrightarrow> tame P (bindo (nonnull v) f)"
  by (cases v) (simp_all add: nonnull_def)

lemma forward_message_ok:
  "tame (\<lambda>(r, p'). same_resources p p' \<and> px_capture p' = px_capture p) (forward_message env k side closure p)"
  unfolding forward_message_def
  by (rule tame_nonnull, rule tame_bindo [OF tame_closure_send])
    (auto simp: same_resources_def conn_fds_same simp del: fun_upd_apply)

text \<open>The invariant of a proxy. Nothing more is lost by a conforming client.\<close>

definition pinv ::
    "protocols \<Rightarrow> (obj \<Rightarrow> nat) \<Rightarrow> int heap \<Rightarrow> nat \<Rightarrow> proxy \<Rightarrow> bool" where
  "pinv protocols lk lf n p \<longleftrightarrow> (\<exists>e q. cinv lk lf n e q (px_capture p)) \<and> types_ok protocols (px_capture p) \<and> resources_ok p"

definition pinv_step :: "protocols \<Rightarrow> bool \<Rightarrow> (obj \<Rightarrow> nat) \<Rightarrow> int heap \<Rightarrow> nat \<Rightarrow> proxy \<Rightarrow> bool" where
  "pinv_step protocols strict lk lf n p \<longleftrightarrow> (\<exists>lk' lf'. pinv protocols lk' lf' n p \<and> (strict \<longrightarrow> lossless lk lf lk' lf'))"

lemma pinv_same:
  assumes "resources_ok p" "same_resources p p'" "cinv lk' lf' n e q (px_capture p')" "strict \<longrightarrow> lossless lk lf lk' lf'" "types_ok protocols (px_capture p')"
  shows "pinv_step protocols strict lk lf n p'"
  using assms resources_ok_same unfolding pinv_step_def pinv_def by blast

lemma process_closure_ok:
  assumes prot: "protocols_ok protocols" and f: "interface \<in> set (interfaces protocols)"
    and msg: "cl_message closure \<in> set (side_messages side interface)" and args: "list_all2 arg_ok (arguments (cl_message closure)) (cl_args closure)"
    and guard: "closure_guard strict (me_handler env) k side interface closure (px_capture p)"
    and inv: "pinv protocols lk lf n p" and k: "k \<in> live p" and room: "Suc (ch_next (ca_heap (px_capture p))) < 2147483648"
  shows "tame (\<lambda>(r, p'). pinv_step protocols strict lk lf n p') (process_closure env protocols k side interface closure p)"
proof -
  obtain e q where c: "cinv lk lf n e q (px_capture p)" and ty: "types_ok protocols (px_capture p)" and res: "resources_ok p"
    using inv by (auto simp: pinv_def)
  have k': "ca_sessions (px_capture p) k \<noteq> None"
    using k by (auto simp: live_def)
  let ?P = "\<lambda>(r, p'). pinv_step protocols strict lk lf n p'"
  have drop: "tame ?P (Ret (drop_closure r cl (p\<lparr>px_capture := s\<rparr>)))" if "pinv_step protocols strict lk lf n (p\<lparr>px_capture := s\<rparr>)" for r cl s
    using that by (simp add: drop_closure_def pinv_step_def pinv_def resources_ok_def)
  have st: "pinv_step protocols strict lk lf n (p\<lparr>px_capture := s\<rparr>)"
    if "cinv lk' lf' n e q s" "strict \<longrightarrow> lossless lk lf lk' lf'" "types_ok protocols s" "dom (ca_sessions s) = live p" for s lk' lf' e q
    by (rule pinv_same [OF res, where lk' = lk' and lf' = lf']) (use that in \<open>auto simp: same_resources_def\<close>)
  have unknown: "tame (\<lambda>_. True) (if if_name interface = ''wl_registry'' \<and> wg_name (cl_message closure) = ''global''
            then bindo (string_arg 1 closure) (\<lambda>name. Ret (proxy_lookup_interface protocols name = None)) else Ret False)"
    by (simp add: string_arg_def split: wl_argument.split option.split)
  have new: "list_all (\<lambda>i. objects (px_capture p) k i = None) (numbers_of interface closure)"
    using guard by (simp add: closure_guard_def list_all_iff)
  show ?thesis
    unfolding process_closure_def
  proof (rule tame_bindo [OF unknown], goal_cases)
    case (1 u)
    have fwd: "tame ?P (forward_message env k side cl (p\<lparr>px_capture := s\<rparr>))" if "pinv_step protocols strict lk lf n (p\<lparr>px_capture := s\<rparr>)" for cl s
      by (rule tame_mono [OF forward_message_ok]) (use that resources_ok_same in \<open>auto simp: pinv_step_def pinv_def\<close>)
    have handle: "tame (\<lambda>(act, msg, s'). pinv_step protocols strict lk lf n (p\<lparr>px_capture := s'\<rparr>))
        (handle_message (me_handler env) k (handler_message interface closure) s)"
      if "keeps_objects protocols lk lf n e q (px_capture p) s" "if_name interface \<noteq> ''wl_registry'' \<longrightarrow> (\<forall>i \<in> set (numbers_of interface closure).
        registered k (Option.bind (hd (wg_types (cl_message closure))) (proxy_lookup_interface protocols)) s i)" for s
      by (rule tame_mono [OF handle_closure_ok [OF prot f msg args guard that(1) k' room]]) (use that st in \<open>auto simp: live_def\<close>)
    have reg: "pinv_step protocols strict lk lf n (p\<lparr>px_capture := s\<rparr>)" if "keeps_objects protocols lk lf n e q (px_capture p) s" for s
      using st [of lk lf e q s] that by (simp add: keeps_objects_def live_def)
    have self: "pinv_step protocols strict lk lf n (p\<lparr>px_capture := px_capture p\<rparr>)"
      by (rule st [OF c]) (use ty in \<open>auto simp: live_def\<close>)
    have act: "tame ?P (case act of
           PROXY_ACTION_ERR \<Rightarrow> Ret (drop_closure (- 1) cl (p\<lparr>px_capture := s0, px_capture := s\<rparr>))
         | PROXY_ACTION_DROP \<Rightarrow> bindo (asserto x) (\<lambda>_. Ret (drop_closure 0 cl (p\<lparr>px_capture := s0, px_capture := s\<rparr>)))
         | PROXY_ACTION_FWD \<Rightarrow> forward_message env k side cl (p\<lparr>px_capture := s0, px_capture := s\<rparr>))"
      if "pinv_step protocols strict lk lf n (p\<lparr>px_capture := s\<rparr>)" for act cl s s0 x
      using drop [OF that] fwd [OF that] by (cases act) (simp_all add: asserto_def del: tame_simps(1))
    show ?case
    proof (cases u)
      case True
      then show ?thesis
        using drop [OF self] by simp
    next
      case False
      show ?thesis
        unfolding if_not_P [OF False]
      proof (rule tame_bindo [OF register_objects_ok [OF c ty k' new]], goal_cases)
        case (1 x)
        obtain r b s where x: "x = (r, b, s)"
          by (cases x)
        show ?case
        proof (cases "r < 0")
          case True
          then show ?thesis
            using drop [OF reg, of s] 1 by (simp add: x)
        next
          case False
          then have "tame (\<lambda>(act, msg, s'). pinv_step protocols strict lk lf n (p\<lparr>px_capture := s'\<rparr>))
              (handle_message (me_handler env) k (handler_message interface closure) s)"
            using 1 x by (intro handle) auto
          then show ?thesis
            using False act unfolding x prod.case Let_def by (auto intro!: tame_bindo simp del: tame_simps(1))
        qed
      qed
    qed
  qed
qed

text \<open>What is asked of the message that waits on a connection.\<close>

definition message_guard :: "bool \<Rightarrow> message_env \<Rightarrow> nat \<Rightarrow> proxy_sides \<Rightarrow> u32 \<Rightarrow> u32 \<Rightarrow> u32 \<Rightarrow> proxy \<Rightarrow> bool" where
  "message_guard strict env k side i n opcode p \<longleftrightarrow> Suc (ch_next (ca_heap (px_capture p))) < 2147483648 \<and>
     (case (ca_sessions (px_capture p) k, px_conns p (k, side)) of
        (Some m, Some src) \<Rightarrow>
          (case wl_map_lookup (ps_types m) i of
             None \<Rightarrow> True
           | Some interface \<Rightarrow>
               unat opcode < length (side_messages side interface) \<longrightarrow>
               (case wl_connection_demarshal (me_init env) (me_reserve env) src n (ps_types m) (side_messages side interface ! unat opcode) of
                  Ret (Some closure, _) \<Rightarrow> closure_guard strict (me_handler env) k side interface closure (px_capture p)
                | _ \<Rightarrow> True))
      | _ \<Rightarrow> True)"

lemma demarshal_args_typed:
  assumes "wl_connection_demarshal init_ok malloc_ok c n tbl message = Ret (Some closure, rest)"
  shows "cl_message closure = message \<and> list_all2 arg_ok (arguments message) (cl_args closure)"
proof -
  obtain msg where copy: "wl_connection_copy c (ucast n) = Ret msg"
    using assms by (auto simp: wl_connection_demarshal_def bindo_Ret_iff split: if_splits)
  obtain x fds tbl' where x: "demarshal_bytes init_ok malloc_ok message msg (wc_fds_in c) tbl = (x, fds, tbl')"
    by (metis surj_pair)
  then have d: "demarshal_bytes init_ok malloc_ok message msg (wc_fds_in c) tbl = (Inr closure, fds, tbl')"
    using assms copy by (auto simp: wl_connection_demarshal_def Let_def split: if_splits sum.splits)
  then obtain cl where cl: "wl_closure_init init_ok message = Some cl"
    by (auto simp: demarshal_bytes_def split: if_splits option.splits)
  obtain r fds1 o1 where r: "demarshal_args malloc_ok (arguments message) [] (drop 8 (take (4 * (length msg div 4)) msg)) (wc_fds_in c) tbl = (r, fds1, o1)"
    by (metis surj_pair)
  obtain args where args: "r = Inr args" "closure = cl\<lparr>cl_sender_id := load32 msg, cl_opcode := load32 (drop 4 msg) AND 65535, cl_args := args\<rparr>"
    using d cl r by (cases r) (auto simp: demarshal_bytes_def split: if_splits)
  show ?thesis
    using demarshal_args_ok [OF r [unfolded args(1)]] argument_type [of _ message] cl args(2) by (auto simp: wl_closure_init_def split: if_splits)
qed

lemma closure_guard_state:
  "objects s' = objects s \<Longrightarrow> ca_heap s' = ca_heap s \<Longrightarrow>
    closure_guard strict env k side interface closure s' = closure_guard strict env k side interface closure s"
  by (simp add: closure_guard_def plane_unset_def planes_dense_def)

text \<open>A map of types with the same entries, and a connection to the same socket.\<close>

lemma pinv_retype:
  assumes inv: "pinv protocols lk lf n p" and m: "ca_sessions (px_capture p) k = Some m" and src: "px_conns p x = Some src"
    and new: "wl_map_lookup types = wl_map_lookup (ps_types m)" "wc_fd src' = wc_fd src"
  shows "pinv protocols lk lf n (p\<lparr>px_capture := (px_capture p)\<lparr>ca_sessions := (ca_sessions (px_capture p))(k \<mapsto> m\<lparr>ps_types := types\<rparr>)\<rparr>,
      px_conns := (px_conns p)(x \<mapsto> src'), px_closed := closed\<rparr>)" (is "pinv _ _ _ _ ?p")
    and "objects ((px_capture p)\<lparr>ca_sessions := (ca_sessions (px_capture p))(k \<mapsto> m\<lparr>ps_types := types\<rparr>)\<rparr>) = objects (px_capture p)"
      (is "objects ?s = _")
proof -
  obtain e q where c: "cinv lk lf n e q (px_capture p)" and ty: "types_ok protocols (px_capture p)" and res: "resources_ok p"
    using inv by (auto simp: pinv_def)
  have dom: "dom (ca_sessions ?s) = dom (ca_sessions (px_capture p))"
    using m by auto
  show objs: "objects ?s = objects (px_capture p)"
    using m by (intro ext) (simp add: objects_def)
  have "sess_ok m'" if "ca_sessions ?s k' = Some m'" for k' m'
    using that cinvD(5) [OF c, of k' m'] cinvD(5) [OF c m] new(1) by (auto simp: sess_ok_def has_type_def split: if_splits)
  then have "cinv lk lf n e q ?s"
    by (intro cinv_sessions [OF c objs]) (use dom cinvD(4) [OF c] m in \<open>auto simp: insert_absorb\<close>)
  moreover have "types_ok protocols ?s"
    using ty m new(1) unfolding types_ok_def by (auto split: if_splits)
  moreover have "same_resources p ?p"
    using dom src new(2) by (auto simp: same_resources_def live_def conn_fds_def fun_eq_iff)
  ultimately show "pinv protocols lk lf n ?p"
    using resources_ok_same [OF _ res, of ?p] unfolding pinv_def by auto
qed

text \<open>A message either ends in a benign fault or is read and processed.\<close>

lemma proxy_handle_message_cases:
  obtains (fault) f where "proxy_handle_message env protocols k side i sz opcode p = Fault f" "benign f"
  | (run) m f src where "ca_sessions (px_capture p) k = Some m" "wl_map_lookup (ps_types m) i = Some f" "px_conns p (k, side) = Some src"
      "unat opcode < length (side_messages side f)"
      "proxy_handle_message env protocols k side i sz opcode p =
        bindo (wl_connection_demarshal (me_init env) (me_reserve env) src sz (ps_types m) (side_messages side f ! unat opcode))
          (\<lambda>(closure, closed, src, types).
            let p = p\<lparr>px_capture := (px_capture p)\<lparr>ca_sessions := (ca_sessions (px_capture p))(k \<mapsto> m\<lparr>ps_types := types\<rparr>)\<rparr>,
                      px_conns := (px_conns p)((k, side) \<mapsto> src), px_closed := px_closed p @ closed\<rparr> in
            case closure of None \<Rightarrow> Ret (- 1, p) | Some closure \<Rightarrow> process_closure env protocols k side f closure p)"
proof (cases "ca_sessions (px_capture p) k")
  case None
  then show ?thesis
    using fault by (simp add: proxy_handle_message_def session_of_def)
next
  case m: (Some m)
  show ?thesis
  proof (cases "wl_map_lookup (ps_types m) i")
    case None
    then show ?thesis
      using fault m by (simp add: proxy_handle_message_def session_of_def nonnull_def)
  next
    case f: (Some f)
    show ?thesis
    proof (cases "unat opcode < length (side_messages side f)")
      case False
      then show ?thesis
        using fault m f by (simp add: proxy_handle_message_def session_of_def nonnull_def side_messages_def Let_def split: if_splits)
    next
      case True
      then show ?thesis
        using fault run [OF m f _ True] m f
        by (cases "px_conns p (k, side)") (auto simp: proxy_handle_message_def session_of_def nonnull_def side_messages_def Let_def)
    qed
  qed
qed

lemma proxy_handle_message_ok:
  assumes prot: "protocols_ok protocols" and inv: "pinv protocols lk lf n p" and guard: "message_guard strict env k side i sz opcode p"
  shows "tame (\<lambda>(r, p'). pinv_step protocols strict lk lf n p') (proxy_handle_message env protocols k side i sz opcode p)"
proof (cases rule: proxy_handle_message_cases [of env protocols k side i sz opcode p])
  case (run m f src)
  let ?g = "side_messages side f ! unat opcode"
  let ?dem = "wl_connection_demarshal (me_init env) (me_reserve env) src sz (ps_types m) ?g"
  have f: "f \<in> set (interfaces protocols)"
    using inv run(1,2) by (auto simp: types_ok_def pinv_def)
  have gen: "tame (\<lambda>(closure, closed, src', types). ?dem = Ret (closure, closed, src', types) \<and> wc_fd src' = wc_fd src \<and>
      wl_map_lookup types = wl_map_lookup (ps_types m)) ?dem"
    using tame_demarshal [of src "ps_types m" "me_init env" "me_reserve env" sz ?g] by (cases ?dem) auto
  show ?thesis
    unfolding run(5)
  proof (rule tame_bindo [OF gen], goal_cases)
    case (1 x)
    then obtain cl closed src' types where x: "x = (cl, closed, src', types)" and d: "?dem = Ret (cl, closed, src', types)"
      "wc_fd src' = wc_fd src" "wl_map_lookup types = wl_map_lookup (ps_types m)"
      by auto
    let ?p = "p\<lparr>px_capture := (px_capture p)\<lparr>ca_sessions := (ca_sessions (px_capture p))(k \<mapsto> m\<lparr>ps_types := types\<rparr>)\<rparr>,
      px_conns := (px_conns p)((k, side) \<mapsto> src'), px_closed := px_closed p @ closed\<rparr>"
    note new = pinv_retype [OF inv run(1,3) d(3,2)]
    show ?case
    proof (cases cl)
      case None
      then show ?thesis
        using new(1) by (auto simp: x pinv_step_def Let_def)
    next
      case cl: (Some closure)
      have typed: "cl_message closure = ?g" "list_all2 arg_ok (arguments (cl_message closure)) (cl_args closure)"
        using demarshal_args_typed [OF d(1) [unfolded cl]] by auto
      have g: "closure_guard strict (me_handler env) k side f closure (px_capture ?p)" "Suc (ch_next (ca_heap (px_capture ?p))) < 2147483648"
        using guard run(1-4) d(1) cl closure_guard_state [OF new(2)] by (simp_all add: message_guard_def)
      have "tame (\<lambda>(r, p'). pinv_step protocols strict lk lf n p') (process_closure env protocols k side f closure ?p)"
        by (rule process_closure_ok [OF prot f _ typed(2) g(1) new(1) _ g(2)]) (use typed(1) run(4) in \<open>auto simp: live_def\<close>)
      then show ?thesis
        by (simp add: x cl Let_def)
    qed
  qed
qed simp

end
