(* ===== verification/Proxy_Session.thy ===== *)
theory Proxy_Session
  imports Proxy_Inv
begin

text \<open>
  Sessions of the proxy: creating one adds exactly its blocks and sockets, destroying one destroys all objects of its
  client and releases exactly these, and destroying the proxy releases everything.
\<close>

section \<open>New sessions\<close>

lemma insert_new_fresh:
  assumes m: "wm_free_list m = 0" "wm_side m = WL_MAP_CLIENT_SIDE" "length (wa_items (wm_client m)) < 2"
    and ins: "wl_map_insert_new ok False d m = Ret (r, m')"
  shows "wm_free_list m' = 0 \<and> wm_side m' = WL_MAP_CLIENT_SIDE \<and> wm_server m' = wm_server m \<and>
    (wa_items (wm_client m') = wa_items (wm_client m) \<or> wa_items (wm_client m') = wa_items (wm_client m) @ [entry_of False d])"
proof (cases "wl_array_add ok entry_size (Null False) (wm_client m)")
  case None
  then show ?thesis
    using m ins by (simp add: wl_map_insert_new_def map_new_entry_def map_entries_def)
next
  case (Some a)
  let ?n = "length (wa_items (wm_client m))"
  have "\<not> (of_nat ?n :: u32) > WL_MAP_MAX_OBJECTS"
    using m(3) by (cases ?n) (auto simp: word_less_nat_alt less_Suc_eq)
  moreover have "(wa_items a)[?n := entry_of False d] = wa_items (wm_client m) @ [entry_of False d]"
    by (simp add: wl_array_add_items [OF Some] list_update_append)
  ultimately show ?thesis
    using m ins Some by (auto simp: wl_map_insert_new_def map_new_entry_def map_entries_def set_map_entries_def Let_def)
qed

lemma session_map_items:
  assumes "session_map ok0 ok1 x = Ret m"
  shows "wm_side m = WL_MAP_CLIENT_SIDE \<and> wa_items (wm_server m) = [] \<and>
    wa_items (wm_client m) \<in> {[], [Null False], [entry_of False x], [Null False, entry_of False x]}"
proof -
  obtain r1 m1 r2 where m1: "wl_map_insert_new ok0 False None (wl_map_init WL_MAP_CLIENT_SIDE) = Ret (r1, m1)"
    "wl_map_insert_new ok1 False x m1 = Ret (r2, m)"
    using assms by (auto simp: session_map_def bindo_Ret_iff)
  have one: "wm_free_list m1 = 0 \<and> wm_side m1 = WL_MAP_CLIENT_SIDE \<and> wa_items (wm_server m1) = [] \<and> wa_items (wm_client m1) \<in> {[], [Null False]}"
    using insert_new_fresh [OF _ _ _ m1(1)] by (auto simp: wl_map_init_def entry_of_def)
  show ?thesis
    using insert_new_fresh [OF _ _ _ m1(2)] one by auto
qed

lemma session_map_lookup: "session_map ok0 ok1 x = Ret m \<Longrightarrow> wl_map_lookup m i = None \<or> wl_map_lookup m i = x"
  using session_map_items [of ok0 ok1 x m]
  by (cases x) (auto simp: wl_map_lookup_entry entry_data_def map_entries_def nth_Cons entry_of_def split: nat.splits if_splits)

lemma session_map_data: "session_map ok0 ok1 None = Ret m \<Longrightarrow> data_ok m"
  using session_map_items [of ok0 ok1 None m] by (auto simp: data_ok_def entry_of_def)

lemma proxy_add_connection_inv:
  assumes "proxy_add_connection env k fd side p = Ret (r, p')" "\<not> r < 0"
  obtains c x y where "wc_fd c = fd"
    "p' = p\<lparr>px_blocks := add_mset (Wl_Conn_Block k side) (add_mset (Conn_Block k side) (px_blocks p)), px_conns := (px_conns p)((k, side) \<mapsto> c),
       px_wire := x, px_epoll := y\<rparr>"
proof -
  obtain c where c: "wl_connection_create (co_create env) (co_in env) (co_out env) fd 0 = Ret (Some c)"
    using assms by (auto simp: proxy_add_connection_def bindo_Ret_iff asserto_def Let_def split: if_splits option.splits)
  moreover have "wc_fd c = fd"
    using c by (auto simp: wl_connection_create_def bindo_Ret_iff split: if_splits)
  ultimately show thesis
    using assms that [of c]
    by (auto simp: proxy_add_connection_def bindo_Ret_iff asserto_def Let_def hmalloc_def proxy_epoll_add_fd_def split: if_splits)
qed

lemma err_labels:
  "err_client k p = Ret (r, p') \<Longrightarrow> r = - 1" "err_server_socket k p = Ret (r, p') \<Longrightarrow> r = - 1"
  "err_server_conn k fd p = Ret (r, p') \<Longrightarrow> r = - 1" "err_obj_types k fd p = Ret (r, p') \<Longrightarrow> r = - 1"
  "err_obj_data k fd p = Ret (r, p') \<Longrightarrow> r = - 1"
  by (auto simp: err_client_def err_server_socket_def err_server_conn_def err_obj_types_def err_obj_data_def bindo_Ret_iff)

text \<open>The state of the capture module with a new session.\<close>

definition with_session :: "nat \<Rightarrow> session_maps \<Rightarrow> capture \<Rightarrow> capture" where
  "with_session k m s = s\<lparr>ca_sessions := (ca_sessions s)(k \<mapsto> m), ca_heap := (ca_heap s)\<lparr>ch_conns := insert k (ch_conns (ca_heap s))\<rparr>\<rparr>"

lemma proxy_create_session_inv:
  assumes "proxy_create_session protocols env k fd p = Ret (r, p')" "\<not> r < 0"
  obtains cc cs types data t0 t1 d0 d1 sid names wire ep where
    "free_slot (px_sessions p) \<noteq> MAX_SESSIONS" "wc_fd cc = fd" "wc_fd cs = se_server_fd env"
    "session_map t0 t1 (Some (pr_display protocols)) = Ret types" "session_map d0 d1 None = Ret data"
    "p' = p\<lparr>px_next_session_id := sid, px_sessions := (px_sessions p)[free_slot (px_sessions p) := Some k], px_names := names,
       px_conns := (px_conns p)((k, PROXY_SIDE_CLIENT) \<mapsto> cc, (k, PROXY_SIDE_SERVER) \<mapsto> cs), px_wire := wire,
       px_blocks := session_blocks k + px_blocks p, px_fds := add_mset (wc_fd cs) (px_fds p), px_epoll := ep,
       px_capture := with_session k \<lparr>ps_types = types, ps_data = data\<rparr> (px_capture p)\<rparr>"
proof -
  let ?names = "(px_names p)(k \<mapsto> fst (snprintf MAX_SESSION_NAME (px_name p @ ''/'' @ show_int (px_next_session_id p))))"
  let ?p0 = "p\<lparr>px_blocks := hmalloc (Name_Block k) (hmalloc (Session_Block k) (px_blocks p)), px_names := ?names\<rparr>"
  obtain r1 p1 r2 p2 types data where p1: "proxy_add_connection (se_client env) k fd PROXY_SIDE_CLIENT ?p0 = Ret (r1, p1)" "\<not> r1 < 0"
      "free_slot (px_sessions p) \<noteq> MAX_SESSIONS"
    and p2: "proxy_add_connection (se_server env) k (se_server_fd env) PROXY_SIDE_SERVER (p1\<lparr>px_fds := hmalloc (se_server_fd env) (px_fds p1)\<rparr>) = Ret (r2, p2)" "\<not> r2 < 0"
    and maps: "session_map (se_t0 env) (se_t1 env) (Some (pr_display protocols)) = Ret types" "session_map (se_d0 env) (se_d1 env) None = Ret data"
    and p': "p' = p2\<lparr>px_blocks := hmalloc (Data_Block k) (hmalloc (Types_Block k) (px_blocks p2)),
        px_sessions := (px_sessions p2)[free_slot (px_sessions p) := Some k], px_next_session_id := px_next_session_id p2 + 1,
        px_capture := with_session k \<lparr>ps_types = types, ps_data = data\<rparr> (px_capture p2)\<rparr>"
    using assms unfolding proxy_create_session_def Let_def
    by (auto simp: bindo_Ret_iff asserto_def handle_session_create_def with_session_def split: if_splits dest: err_labels)
  obtain cc x y where cc: "wc_fd cc = fd" "p1 = ?p0\<lparr>px_blocks := add_mset (Wl_Conn_Block k PROXY_SIDE_CLIENT)
      (add_mset (Conn_Block k PROXY_SIDE_CLIENT) (px_blocks ?p0)), px_conns := (px_conns ?p0)((k, PROXY_SIDE_CLIENT) \<mapsto> cc), px_wire := x, px_epoll := y\<rparr>"
    by (rule proxy_add_connection_inv [OF p1(1,2)])
  let ?p1 = "p1\<lparr>px_fds := hmalloc (se_server_fd env) (px_fds p1)\<rparr>"
  obtain cs x' y' where cs: "wc_fd cs = se_server_fd env" "p2 = ?p1\<lparr>px_blocks := add_mset (Wl_Conn_Block k PROXY_SIDE_SERVER)
      (add_mset (Conn_Block k PROXY_SIDE_SERVER) (px_blocks ?p1)), px_conns := (px_conns ?p1)((k, PROXY_SIDE_SERVER) \<mapsto> cs), px_wire := x', px_epoll := y'\<rparr>"
    by (rule proxy_add_connection_inv [OF p2])
  show thesis
    by (rule that [OF p1(3) cc(1) cs(1) maps, where sid = "px_next_session_id p + 1" and names = ?names and wire = x' and ep = y'])
      (simp add: p' cs(2) cc(2) cs(1) hmalloc_def session_blocks_def)
qed

lemma free_slot_less: "free_slot xs \<le> length xs \<and> (free_slot xs < length xs \<longrightarrow> xs ! free_slot xs = None)"
  by (induction xs) auto

lemma cinv_with_session:
  assumes inv: "cinv lk lf n e q s" and k: "ca_sessions s k = None" and ok: "data_ok (ps_data m)" "\<And>i. wl_map_lookup (ps_data m) i = None"
  shows "cinv lk lf n e q (with_session k m s)"
proof (rule cinv_sessions [OF inv])
  show "objects (with_session k m s) = objects s"
    using k ok(2) by (intro ext) (simp add: objects_def with_session_def)
  show "ca_heap (with_session k m s) = (ca_heap s)\<lparr>ch_conns := dom (ca_sessions (with_session k m s))\<rparr>"
    using cinvD(4) [OF inv] by (simp add: with_session_def)
  show "sess_ok m'" if "ca_sessions (with_session k m s) k' = Some m'" for k' m'
    using that cinvD(5) [OF inv, of k' m'] ok by (auto simp: with_session_def sess_ok_def split: if_splits)
qed (simp add: with_session_def)

lemma set_slot: "i < length xs \<Longrightarrow> xs ! i = None \<Longrightarrow> {k. Some k \<in> set (xs[i := Some x])} = insert x {k. Some k \<in> set xs}"
  by (auto simp: set_conv_nth nth_list_update) (metis option.distinct(1))+

lemma live_finite: "resources_ok p \<Longrightarrow> finite (live p)"
proof -
  have "{k. Some k \<in> set xs} = (\<Union>x \<in> set xs. set_option x)" for xs :: "nat option list"
    by auto
  then show "resources_ok p \<Longrightarrow> finite (live p)"
    by (simp add: resources_ok_def)
qed

lemma proxy_create_session_ok:
  assumes inv: "pinv protocols lk lf n p" and k: "k \<notin> live p"
    and run: "proxy_create_session protocols env k fd (p\<lparr>px_fds := hmalloc fd (px_fds p)\<rparr>) = Ret (r, p')" "\<not> r < 0"
  shows "pinv protocols lk lf n p'"
proof (rule proxy_create_session_inv [OF run], goal_cases)
  case (1 cc cs types data t0 t1 d0 d1 sid names wire ep)
  obtain e q where c: "cinv lk lf n e q (px_capture p)" and ty: "types_ok protocols (px_capture p)" and res: "resources_ok p"
    using inv by (auto simp: pinv_def)
  have none: "ca_sessions (px_capture p) k = None"
    using k by (auto simp: live_def)
  have data: "data_ok data" "wl_map_lookup data i = None" for i
    using session_map_data [OF 1(5)] session_map_lookup [OF 1(5), of i] by auto
  have "cinv lk lf n e q (px_capture p')"
    using cinv_with_session [OF c none, of "\<lparr>ps_types = types, ps_data = data\<rparr>"] data 1(6) by simp
  moreover have "types_ok protocols (px_capture p')"
    using ty none session_map_lookup [OF 1(4)] unfolding 1(6) types_ok_def
    by (auto simp: with_session_def interfaces_def split: if_splits) (metis option.distinct(1) option.inject)
  moreover have "resources_ok p'"
  proof -
    let ?xs = "px_sessions p"
    have live: "live p' = insert k (live p)"
      using 1(6) by (simp add: live_def with_session_def)
    have "free_slot ?xs < length ?xs" "?xs ! free_slot ?xs = None"
      using 1(1) free_slot_less [of ?xs] res by (auto simp: resources_ok_def)
    note slot = set_slot [OF this, of k]
    have fds: "conn_fds p' = (conn_fds p)((k, PROXY_SIDE_CLIENT) \<mapsto> fd, (k, PROXY_SIDE_SERVER) \<mapsto> wc_fd cs)"
      using 1(2,6) by (simp add: conn_fds_def fun_eq_iff)
    have side: "side = PROXY_SIDE_CLIENT \<or> side = PROXY_SIDE_SERVER" for side
      by (cases side) auto
    have mine: "session_fds (conn_fds p') k = {#fd, wc_fd cs#}"
      by (simp add: fds session_fds_def)
    have held: "px_fds p' = {#fd, wc_fd cs#} + px_fds p" "px_epoll_fd p' = px_epoll_fd p" "px_socket_fd p' = px_socket_fd p"
      using 1(6) by (simp_all add: hmalloc_def)
    have other: "(\<Sum>j \<in> live p. session_fds (conn_fds p') j) = (\<Sum>j \<in> live p. session_fds (conn_fds p) j)"
      by (rule sum.cong) (use k in \<open>auto simp: fds session_fds_def\<close>)
    show ?thesis
      unfolding resources_ok_def live
    proof (intro conjI allI)
      show "conn_fds p' (j, side) \<noteq> None \<longleftrightarrow> j \<in> insert k (live p)" for j side
        using res side [of side] by (auto simp: fds resources_ok_def)
      show "px_blocks p' = {#Proxy_Block, Sessions_Block#} + (\<Sum>j \<in> insert k (live p). session_blocks j)"
        using res k live_finite [OF res] 1(6) by (simp add: resources_ok_def)
      show "px_fds p' = {#px_epoll_fd p', px_socket_fd p'#} + (\<Sum>j \<in> insert k (live p). session_fds (conn_fds p') j)"
        using res k live_finite [OF res] other by (simp add: resources_ok_def held mine)
    qed (use res 1(6) slot in \<open>auto simp: resources_ok_def\<close>)
  qed
  ultimately show ?case
    unfolding pinv_def by blast
qed

section \<open>The end of a session\<close>

lemma proxy_destroy_connection_run:
  assumes "px_conns p (k, side) = Some c" "px_blocks p = {#Conn_Block k side, Wl_Conn_Block k side#} + b" "px_fds p = add_mset (wc_fd c) fds"
  shows "proxy_destroy_connection k side p = Ret (p\<lparr>px_blocks := b, px_epoll := px_epoll p - {#wc_fd c#},
    px_closed := px_closed p @ wc_fds_out c @ wc_fds_in c, px_fds := fds, px_conns := (px_conns p)((k, side) := None)\<rparr>)"
  using assms by (simp add: proxy_destroy_connection_def nonnull_def wl_connection_destroy_def proxy_free_def proxy_close_def)

definition without_session :: "nat \<Rightarrow> capture \<Rightarrow> capture" where
  "without_session k s = s\<lparr>ca_sessions := (ca_sessions s)(k := None), ca_heap := (ca_heap s)\<lparr>ch_conns := ch_conns (ca_heap s) - {k}\<rparr>\<rparr>"

lemma cinv_without_session:
  assumes inv: "cinv lk lf n e q s" and k: "\<And>i. objects s k i = None"
  shows "cinv lk lf n e q (without_session k s)"
proof (rule cinv_sessions [OF inv])
  show "objects (without_session k s) = objects s"
    using k by (intro ext) (simp add: objects_def without_session_def)
  show "ca_heap (without_session k s) = (ca_heap s)\<lparr>ch_conns := dom (ca_sessions (without_session k s))\<rparr>"
    using cinvD(4) [OF inv] by (simp add: without_session_def)
  show "sess_ok m'" if "ca_sessions (without_session k s) k' = Some m'" for k' m'
    using that cinvD(5) [OF inv, of k' m'] by (auto simp: without_session_def split: if_splits)
qed (simp add: without_session_def)

lemma handle_session_destroy_types:
  assumes "handle_session_destroy env k s = Ret s'"
  shows "types_of s' = types_of s"
proof -
  have obj: "destroy_object env k x fl idx s = Ret (b, s') \<Longrightarrow> types_of s' = types_of s" for x fl idx b s s'
    by (auto simp: destroy_object_def bindo_Ret_iff dest: handle_message_types)
  have each: "for_each_helper get (destroy_object env k) m idx s = Ret (b, s') \<Longrightarrow> types_of s' = types_of s" for get m idx b s s'
  proof (induction get "destroy_object env k" m idx s rule: for_each_helper.induct)
    case (1 get m idx s)
    show ?case
    proof (cases "idx < m \<and> idx < length (get s) \<and> \<not> (map_entry_is_free (get s ! idx) \<or> get s ! idx = Null False)")
      case True
      then obtain c s1 where s1: "destroy_object env k (map_entry_get_data (get s ! idx)) (map_entry_get_flags (get s ! idx)) idx s = Ret (c, s1)"
        "(if c then for_each_helper get (destroy_object env k) m (Suc idx) s1 else Ret (False, s1)) = Ret (b, s')"
        using 1(3) for_each_helper.simps [of get _ m idx s] by (auto simp: bindo_Ret_iff)
      then show ?thesis
        using 1(2) [OF _ _ _ s1(1) refl] obj [OF s1(1)] True by (auto split: if_splits)
    next
      case False
      then show ?thesis
        using 1(1,3) for_each_helper.simps [of get _ m idx s] by (auto split: if_splits)
    qed
  qed
  show ?thesis
    using assms by (auto simp: handle_session_destroy_def wl_map_for_each_def bindo_Ret_iff split: if_splits dest!: each)
qed

lemma proxy_destroy_session_run:
  assumes s: "handle_session_destroy env k (px_capture p) = Ret s"
    and c: "px_conns p (k, PROXY_SIDE_CLIENT) = Some cc" "px_conns p (k, PROXY_SIDE_SERVER) = Some cs"
    and held: "px_blocks p = session_blocks k + b" "px_fds p = {#wc_fd cc, wc_fd cs#} + fds"
  shows "\<exists>names ep closed. proxy_destroy_session env k p = Ret (p\<lparr>px_sessions := map (\<lambda>x. if x = Some k then None else x) (px_sessions p), px_names := names,
    px_conns := (px_conns p)((k, PROXY_SIDE_CLIENT) := None, (k, PROXY_SIDE_SERVER) := None), px_blocks := b, px_fds := fds, px_epoll := ep,
    px_closed := closed, px_capture := without_session k s\<rparr>)"
proof -
  let ?xs = "map (\<lambda>x. if x = Some k then None else x) (px_sessions p)"
  let ?p0 = "p\<lparr>px_capture := s, px_sessions := ?xs\<rparr>"
  let ?b1 = "{#Session_Block k, Name_Block k, Conn_Block k PROXY_SIDE_SERVER, Wl_Conn_Block k PROXY_SIDE_SERVER, Types_Block k, Data_Block k#} + b"
  have "\<exists>ep closed. proxy_destroy_connection k PROXY_SIDE_CLIENT ?p0 = Ret (?p0\<lparr>px_blocks := ?b1, px_epoll := ep, px_closed := closed,
    px_fds := add_mset (wc_fd cs) fds, px_conns := (px_conns p)((k, PROXY_SIDE_CLIENT) := None)\<rparr>)"
    using proxy_destroy_connection_run [of ?p0 k PROXY_SIDE_CLIENT cc ?b1 "add_mset (wc_fd cs) fds"] c held by (auto simp: session_blocks_def)
  then obtain ep closed where one: "proxy_destroy_connection k PROXY_SIDE_CLIENT ?p0 = Ret (?p0\<lparr>px_blocks := ?b1, px_epoll := ep, px_closed := closed,
    px_fds := add_mset (wc_fd cs) fds, px_conns := (px_conns p)((k, PROXY_SIDE_CLIENT) := None)\<rparr>)" (is "_ = Ret ?p1")
    by blast
  let ?b2 = "{#Session_Block k, Name_Block k, Types_Block k, Data_Block k#} + b"
  have "\<exists>ep closed. proxy_destroy_connection k PROXY_SIDE_SERVER ?p1 = Ret (?p1\<lparr>px_blocks := ?b2, px_epoll := ep, px_closed := closed, px_fds := fds,
    px_conns := (px_conns p)((k, PROXY_SIDE_CLIENT) := None, (k, PROXY_SIDE_SERVER) := None)\<rparr>)"
    using proxy_destroy_connection_run [of ?p1 k PROXY_SIDE_SERVER cs ?b2 fds] c by auto
  then obtain ep' closed' where two: "proxy_destroy_connection k PROXY_SIDE_SERVER ?p1 = Ret (?p1\<lparr>px_blocks := ?b2, px_epoll := ep', px_closed := closed',
    px_fds := fds, px_conns := (px_conns p)((k, PROXY_SIDE_CLIENT) := None, (k, PROXY_SIDE_SERVER) := None)\<rparr>)"
    by blast
  show ?thesis
    unfolding proxy_destroy_session_def s bindo.simps Let_def one two
    by (intro exI [of _ "(px_names p)(k := None)"] exI [of _ ep'] exI [of _ closed']) (simp add: proxy_free_def without_session_def)
qed

lemma proxy_destroy_session_ok:
  assumes inv: "pinv protocols lk lf n p" and k: "k \<in> live p"
  shows "(\<exists>p'. proxy_destroy_session env k p = Ret p' \<and> pinv protocols lk lf n p' \<and> live p' = live p - {k} \<and>
      px_sessions p' = map (\<lambda>x. if x = Some k then None else x) (px_sessions p) \<and> px_socket_fd p' = px_socket_fd p \<and> px_epoll_fd p' = px_epoll_fd p) \<or>
    ((\<exists>i. \<not> en_closure env i) \<and> proxy_destroy_session env k p = Fault Assert_Failed)"
proof -
  obtain e q where c: "cinv lk lf n e q (px_capture p)" and ty: "types_ok protocols (px_capture p)" and res: "resources_ok p"
    using inv by (auto simp: pinv_def)
  consider "\<exists>i. \<not> en_closure env i" "handle_session_destroy env k (px_capture p) = Fault Assert_Failed"
    | s e' where "handle_session_destroy env k (px_capture p) = Ret s" "cinv lk lf n e' q s" "objects s = (objects (px_capture p))(k := (\<lambda>_. None))"
    using handle_session_destroy_ok [OF c, of k env] k by (auto simp: live_def)
  then show ?thesis
  proof cases
    case 1
    then show ?thesis
      by (simp add: proxy_destroy_session_def)
  next
    case s: (2 s e')
    have "px_conns p (k, side) \<noteq> None" for side
      using res k by (auto simp: resources_ok_def conn_fds_def)
    then obtain cc cs where conns: "px_conns p (k, PROXY_SIDE_CLIENT) = Some cc" "px_conns p (k, PROXY_SIDE_SERVER) = Some cs"
      by blast
    note fin = live_finite [OF res]
    let ?fds = "{#px_epoll_fd p, px_socket_fd p#} + (\<Sum>j \<in> live p - {k}. session_fds (conn_fds p) j)"
    have "px_blocks p = session_blocks k + ({#Proxy_Block, Sessions_Block#} + (\<Sum>j \<in> live p - {k}. session_blocks j))"
      using res k fin by (simp add: resources_ok_def sum.remove [of _ k])
    moreover have "px_fds p = {#wc_fd cc, wc_fd cs#} + ?fds"
      using res k fin conns by (simp add: resources_ok_def sum.remove [of _ k]) (simp add: session_fds_def conn_fds_def)
    ultimately obtain names ep closed where run: "proxy_destroy_session env k p = Ret (p\<lparr>px_sessions := map (\<lambda>x. if x = Some k then None else x) (px_sessions p),
      px_names := names, px_conns := (px_conns p)((k, PROXY_SIDE_CLIENT) := None, (k, PROXY_SIDE_SERVER) := None),
      px_blocks := {#Proxy_Block, Sessions_Block#} + (\<Sum>j \<in> live p - {k}. session_blocks j), px_fds := ?fds, px_epoll := ep,
      px_closed := closed, px_capture := without_session k s\<rparr>)" (is "_ = Ret ?p")
      using proxy_destroy_session_run [OF s(1) conns] by blast
    define p' where "p' = ?p"
    have p': "px_sessions p' = map (\<lambda>x. if x = Some k then None else x) (px_sessions p)" "px_capture p' = without_session k s" "px_fds p' = ?fds"
      "px_blocks p' = {#Proxy_Block, Sessions_Block#} + (\<Sum>j \<in> live p - {k}. session_blocks j)"
      "px_socket_fd p' = px_socket_fd p" "px_epoll_fd p' = px_epoll_fd p" "proxy_destroy_session env k p = Ret p'"
      and fds: "conn_fds p' = (conn_fds p)((k, PROXY_SIDE_CLIENT) := None, (k, PROXY_SIDE_SERVER) := None)"
      using run by (simp_all add: p'_def conn_fds_def fun_eq_iff)
    have types: "types_of s = types_of (px_capture p)"
      by (rule handle_session_destroy_types [OF s(1)])
    have live: "live p' = live p - {k}"
      using types_of_dom [OF types] by (simp add: p' without_session_def live_def)
    have "cinv lk lf n e' q (px_capture p')"
      using cinv_without_session [OF s(2)] s(3) p'(2) by simp
    moreover have "types_ok protocols s"
      using types_ok_types_of [OF types] ty by simp
    then have "types_ok protocols (px_capture p')"
      by (auto simp: p' types_ok_def without_session_def split: if_splits)
    moreover have "resources_ok p'"
    proof -
      have side: "side = PROXY_SIDE_CLIENT \<or> side = PROXY_SIDE_SERVER" for side
        by (cases side) auto
      have "(\<Sum>j \<in> live p - {k}. session_fds (conn_fds p') j) = (\<Sum>j \<in> live p - {k}. session_fds (conn_fds p) j)"
        by (rule sum.cong) (auto simp: fds session_fds_def)
      moreover have "conn_fds p' (j, x) \<noteq> None \<longleftrightarrow> j \<in> live p - {k}" for j x
        using res side [of x] by (auto simp: fds resources_ok_def)
      moreover have "live p - {k} = {j. Some j \<in> set (px_sessions p')}"
        using res by (auto simp: p' resources_ok_def)
      ultimately show ?thesis
        unfolding resources_ok_def live using res by (simp add: p' resources_ok_def)
    qed
    ultimately show ?thesis
      using p' live unfolding pinv_def by blast
  qed
qed

section \<open>The end of the proxy\<close>

lemma destroy_slots_ok:
  assumes "pinv protocols lk lf n p" "i \<le> MAX_SESSIONS" "\<forall>j < i. px_sessions p ! j = None"
  shows "(\<exists>p'. foldo (destroy_slot env) [i..<MAX_SESSIONS] p = Ret p' \<and> pinv protocols lk lf n p' \<and> live p' = {}) \<or>
    ((\<exists>i. \<not> en_closure env i) \<and> foldo (destroy_slot env) [i..<MAX_SESSIONS] p = Fault Assert_Failed)"
  using assms
proof (induction "MAX_SESSIONS - i" arbitrary: i p)
  case 0
  then have "\<forall>x \<in> set (px_sessions p). x = None"
    by (auto simp: pinv_def resources_ok_def in_set_conv_nth)
  then show ?case
    using 0 by (auto simp: pinv_def resources_ok_def)
next
  case (Suc d)
  then have i: "i < MAX_SESSIONS" "[i..<MAX_SESSIONS] = i # [Suc i..<MAX_SESSIONS]" and len: "length (px_sessions p) = MAX_SESSIONS"
    by (auto simp: upt_conv_Cons pinv_def resources_ok_def)
  have slot: "(\<exists>p1. destroy_slot env i p = Ret p1 \<and> pinv protocols lk lf n p1 \<and> (\<forall>j < Suc i. px_sessions p1 ! j = None)) \<or>
      ((\<exists>i. \<not> en_closure env i) \<and> destroy_slot env i p = Fault Assert_Failed)"
  proof (cases "px_sessions p ! i")
    case None
    then show ?thesis
      using i len Suc.prems by (auto simp: destroy_slot_def less_Suc_eq)
  next
    case (Some k)
    then have "k \<in> live p"
      using Suc.prems(1) i(1) len by (auto simp: pinv_def resources_ok_def) (metis nth_mem)
    from proxy_destroy_session_ok [OF Suc.prems(1) this, of env] show ?thesis
      using i len Some Suc.prems(3) by (fastforce simp: destroy_slot_def less_Suc_eq)
  qed
  then consider p1 where "destroy_slot env i p = Ret p1" "pinv protocols lk lf n p1" "\<forall>j < Suc i. px_sessions p1 ! j = None"
    | "\<exists>i. \<not> en_closure env i" "destroy_slot env i p = Fault Assert_Failed"
    by blast
  then show ?case
  proof cases
    case (1 p1)
    have "d = MAX_SESSIONS - Suc i" "Suc i \<le> MAX_SESSIONS"
      using Suc.hyps(2) i(1) by auto
    then show ?thesis
      using Suc.hyps(1) [OF _ 1(2) _ 1(3)] 1(1) by (simp add: i(2))
  qed (simp add: i(2))
qed

lemma proxy_destroy_ok:
  assumes inv: "pinv protocols lk lf n p"
  shows "(\<exists>p'. proxy_destroy env p = Ret p' \<and> px_blocks p' = {#} \<and> px_fds p' = {#} \<and> ca_sessions (px_capture p') = Map.empty \<and>
      (\<exists>e q. cinv lk lf n e q (px_capture p'))) \<or>
    ((\<exists>i. \<not> en_closure env i) \<and> proxy_destroy env p = Fault Assert_Failed)"
proof -
  consider p1 where "foldo (destroy_slot env) [0..<MAX_SESSIONS] p = Ret p1" "pinv protocols lk lf n p1" "live p1 = {}"
    | "\<exists>i. \<not> en_closure env i" "foldo (destroy_slot env) [0..<MAX_SESSIONS] p = Fault Assert_Failed"
    using destroy_slots_ok [OF inv, of 0 env] by auto
  then show ?thesis
  proof cases
    case p1: (1 p1)
    then have "px_blocks p1 = {#Sessions_Block, Proxy_Block#}" "px_fds p1 = {#px_socket_fd p1, px_epoll_fd p1#}" "ca_sessions (px_capture p1) = Map.empty"
      by (auto simp: pinv_def resources_ok_def live_def)
    then show ?thesis
      using p1(1,2) by (auto simp: proxy_destroy_def proxy_close_def proxy_free_def pinv_def)
  qed (simp add: proxy_destroy_def)
qed

end
