(* ===== verification/Capture_Safety.thy ===== *)
theory Capture_Safety
  imports Proxy_Session
begin

text \<open>
  The capture thread as a state machine: every state it can reach satisfies the invariant, so that no message, no
  hangup and no end of the thread uses memory that was freed, and a thread with conforming clients leaves nothing
  behind.
\<close>

section \<open>Reachable states\<close>

text \<open>
  All states of the proxy of a capture thread: after its start, clients connect, bytes arrive and are sent, messages are
  handled, clients hang up, and the encoder takes frames, in any order. \<open>n\<close> is the capacity of the encode queue. A message
  has to satisfy \<open>message_guard strict\<close>.
\<close>

inductive reach :: "protocols \<Rightarrow> bool \<Rightarrow> nat \<Rightarrow> proxy \<Rightarrow> bool" for protocols :: protocols and strict :: bool and n :: nat where
  start: "rbuf_init True True (int n) = Ret (Some queue) \<Longrightarrow> capture_setup width height queue = Ret s \<Longrightarrow>
    proxy_init env name s = Ret (Some p, blocks, fds) \<Longrightarrow> reach protocols strict n p"
| connect: "reach protocols strict n p \<Longrightarrow> k \<notin> live p \<Longrightarrow>
    proxy_create_session protocols env k fd (p\<lparr>px_fds := hmalloc fd (px_fds p)\<rparr>) = Ret (0, p') \<Longrightarrow> reach protocols strict n p'"
| receive: "reach protocols strict n p \<Longrightarrow> px_conns p (k, side) = Some c \<Longrightarrow>
    wl_connection_read calloc_ok fds_ok answers c = Ret (len, c', rest) \<Longrightarrow>
    reach protocols strict n (p\<lparr>px_conns := (px_conns p)((k, side) \<mapsto> c')\<rparr>)"
| message: "reach protocols strict n p \<Longrightarrow> message_guard strict env k side i sz opcode p \<Longrightarrow>
    proxy_handle_message env protocols k side i sz opcode p = Ret (r, p') \<Longrightarrow> reach protocols strict n p'"
| flush: "reach protocols strict n p \<Longrightarrow> px_conns p (k, side) = Some c \<Longrightarrow>
    wl_connection_flush answers c (px_wire p (k, side)) = Ret (a, c', w, rest) \<Longrightarrow>
    reach protocols strict n (p\<lparr>px_conns := (px_conns p)((k, side) \<mapsto> c'), px_wire := (px_wire p)((k, side) := w)\<rparr>)"
| hangup: "reach protocols strict n p \<Longrightarrow> k \<in> live p \<Longrightarrow> proxy_destroy_session env k p = Ret p' \<Longrightarrow> reach protocols strict n p'"
| take: "reach protocols strict n p \<Longrightarrow> rbuf_wait_peak_latest (ca_queue (px_capture p)) = Ret (queue, frame) \<Longrightarrow>
    reach protocols strict n (p\<lparr>px_capture := (px_capture p)\<lparr>ca_queue := queue\<rparr>\<rparr>)"
| pop: "reach protocols strict n p \<Longrightarrow> rbuf_pop (ca_queue (px_capture p)) = Ret queue \<Longrightarrow>
    reach protocols strict n (p\<lparr>px_capture := (px_capture p)\<lparr>ca_queue := queue\<rparr>\<rparr>)"

text \<open>The start.\<close>

lemma start_ok:
  assumes "rbuf_init True True (int n) = Ret (Some queue)" "capture_setup width height queue = Ret s" "proxy_init env name s = Ret (Some p, blocks, fds)"
  shows "pinv protocols (\<lambda>_. 0) {#} n p"
proof -
  have n: "0 < int n"
    using assms(1) by (auto simp: rbuf_init_def bindo_Ret_iff asserto_def split: if_splits)
  let ?queue = "queue\<lparr>rf_free := Some free_frame\<rparr>"
  have "rbuf_own free_frame ?queue n [] []"
    using rbuf_new_own [OF n, of free_frame] assms(1) by (auto simp: rbuf_new_def rbuf_set_free_def asserto_def)
  moreover have s: "ca_queue s = ?queue" "ca_sessions s = Map.empty" "ca_heap s = \<lparr>ch_next = 0, ch_pools = Map.empty, ch_bufs = Map.empty,
      ch_surfs = Map.empty, ch_params = Map.empty, ch_frames = {#}, ch_fds = {#}, ch_mmaps = {#}, ch_conns = {}, ch_sent = []\<rparr>"
    using assms(2) by (auto simp: capture_setup_def rbuf_set_free_def bindo_Ret_iff asserto_def split: if_splits)
  moreover have "objects s = (\<lambda>_ _. None)" "view (ca_heap s) = (\<lambda>_. None)"
    using s by (auto simp: objects_def fun_eq_iff) (case_tac x; simp)
  ultimately have "cinv (\<lambda>_. 0) {#} n [] [] s"
    by (simp add: cinv_def hinv_def heap_defs hsum_def tabs_ok_def)
  moreover have "px_capture p = s" "resources_ok p"
    using assms(3) s by (auto simp: proxy_init_def hmalloc_def hfree_def Let_def resources_ok_def live_def conn_fds_def bindo_Ret_iff
        add_mset_commute split: if_splits option.splits)
  ultimately show ?thesis
    using s by (auto simp: pinv_def types_ok_def)
qed

text \<open>The encoder moves frames from the waiting to the expired ones.\<close>

lemma pinv_queue:
  assumes inv: "pinv protocols lk lf n p"
    and step: "\<And>e q. rbuf_own free_frame (ca_queue (px_capture p)) n e q \<Longrightarrow> \<exists>e' q'. rbuf_own free_frame queue n e' q' \<and> e' @ q' = e @ q"
  shows "pinv protocols lk lf n (p\<lparr>px_capture := (px_capture p)\<lparr>ca_queue := queue\<rparr>\<rparr>)"
proof -
  obtain e q where c: "cinv lk lf n e q (px_capture p)" and ty: "types_ok protocols (px_capture p)" and res: "resources_ok p"
    using inv by (auto simp: pinv_def)
  obtain e' q' where q': "rbuf_own free_frame queue n e' q'" "e' @ q' = e @ q"
    using step [OF cinvD(2) [OF c]] by blast
  have "cinv lk lf n e' q' ((px_capture p)\<lparr>ca_queue := queue\<rparr>)"
    unfolding cinv_def using cinvD [OF c] q' by (simp del: view.simps)
  then show ?thesis
    using ty resources_ok_same [OF _ res] unfolding pinv_def by (auto simp: same_resources_def types_ok_def live_def)
qed

lemma take_own:
  assumes "rbuf_own free_frame buf n e q" "rbuf_wait_peak_latest buf = Ret (buf', x)"
  shows "\<exists>e' q'. rbuf_own free_frame buf' n e' q' \<and> e' @ q' = e @ q"
proof (cases q rule: rev_cases)
  case Nil
  then show ?thesis
    using assms rbuf_own_wait(1) [OF assms(1)] by (simp add: rbuf_wait_peak_latest_def)
next
  case (snoc q0 y)
  then show ?thesis
    using rb.latest_last [of free_frame buf n e q0 y] assms by fastforce
qed

lemma pop_own:
  assumes "rbuf_own free_frame buf n e q" "rbuf_pop buf = Ret buf'"
  shows "\<exists>e' q'. rbuf_own free_frame buf' n e' q' \<and> e' @ q' = e @ q"
proof (cases q)
  case Nil
  then have "rf_sem buf = 0"
    using assms(1) by (elim rbuf_ownE) (auto elim!: rbuf_repE)
  then show ?thesis
    using assms(2) by (simp add: rbuf_pop_def sem_wait_def)
next
  case (Cons x q0)
  then show ?thesis
    using rb.pop_first [of free_frame buf n e x q0] assms by fastforce
qed

text \<open>Every reachable state satisfies the invariant; with \<open>strict\<close> nothing is lost.\<close>

lemma pinv_conn:
  assumes inv: "pinv protocols lk lf n p" and c: "px_conns p x = Some c" "wc_fd c' = wc_fd c"
  shows "pinv protocols lk lf n (p\<lparr>px_conns := (px_conns p)(x \<mapsto> c'), px_wire := w\<rparr>)" (is "pinv _ _ _ _ ?p")
proof -
  have "same_resources p ?p"
    using c by (auto simp: same_resources_def conn_fds_def fun_eq_iff)
  then show ?thesis
    using inv resources_ok_same [of p ?p] by (simp add: pinv_def)
qed

lemma reach_pinv:
  assumes prot: "protocols_ok protocols" and "reach protocols strict n p"
  shows "pinv_step protocols strict (\<lambda>_. 0) {#} n p"
  using assms(2)
proof induction
  case (start queue width height s env name p blocks fds)
  then show ?case
    using start_ok unfolding pinv_step_def by blast
next
  case (connect p k env fd p')
  then show ?case
    using proxy_create_session_ok unfolding pinv_step_def by (metis less_irrefl)
next
  case (receive p k side c calloc_ok fds_ok answers len c' rest)
  have "wc_fd c' = wc_fd c"
    using tame_read [OF refl, of c calloc_ok fds_ok answers] receive(3) by simp
  then show ?case
    using receive(2,4) pinv_conn [where w = "px_wire p"] unfolding pinv_step_def by fastforce
next
  case (message p env k side i sz opcode r p')
  then obtain lk lf where inv: "pinv protocols lk lf n p" "strict \<longrightarrow> lossless (\<lambda>_. 0) {#} lk lf"
    by (auto simp: pinv_step_def)
  have "pinv_step protocols strict lk lf n p'"
    using proxy_handle_message_ok [OF prot inv(1) message(2)] message(3) by simp
  then show ?case
    using inv(2) by (auto simp: pinv_step_def)
next
  case (flush p k side c answers a c' w rest)
  have "wc_fd c' = wc_fd c"
    using tame_flush [OF refl, of c answers "px_wire p (k, side)"] flush(3) by simp
  then show ?case
    using flush(2,4) pinv_conn unfolding pinv_step_def by blast
next
  case (hangup p k env p')
  then show ?case
    using proxy_destroy_session_ok unfolding pinv_step_def by (metis outcome.inject(1) outcome.distinct(1))
next
  case (take p queue frame)
  then show ?case
    using pinv_queue take_own unfolding pinv_step_def by metis
next
  case (pop p queue)
  then show ?case
    using pinv_queue pop_own unfolding pinv_step_def by metis
qed

section \<open>Nothing is left\<close>

lemma frame_refs_perm: "mset fs = mset fs' \<Longrightarrow> frame_refs fs a = frame_refs fs' a"
  by (simp add: frame_refs_def mset_map)

lemma hinv_perm: "mset fs = mset fs' \<Longrightarrow> hinv lk lf fs h \<Longrightarrow> hinv lk lf fs' h"
  using frame_refs_perm [of fs fs'] mset_eq_setD [of fs fs'] mset_eq_imp_distinct_iff [of "map vf_block fs" "map vf_block fs'"]
  by (simp add: hinv_def frames_ok_def buf_ok_def mset_map)

lemma nothing_left:
  assumes inv: "hinv (\<lambda>_. 0) {#} [] h" and none: "view h = (\<lambda>_. None)" "ch_surfs h = Map.empty" "ch_params h = Map.empty"
  shows "ch_bufs h = Map.empty" "ch_pools h = Map.empty" "ch_frames h = {#}" "ch_fds h = {#}" "ch_mmaps h = {#}"
proof -
  show bufs: "ch_bufs h = Map.empty"
  proof (rule ext, rule ccontr)
    fix a
    assume "ch_bufs h a \<noteq> None"
    then obtain b where b: "ch_bufs h a = Some b"
      by blast
    have "wb_id b = 0"
      using fun_cong [OF none(1), of "Buffer_Obj a"] b by (simp split: if_splits)
    then show False
      using hinvD(4) [OF inv b] none(2) by (auto simp add: buf_ok_def surf_refs_def frame_refs_def hsum_def unat_eq_0)
  qed
  show pools: "ch_pools h = Map.empty"
  proof (rule ext, rule ccontr)
    fix a
    assume "ch_pools h a \<noteq> None"
    then obtain b where b: "ch_pools h a = Some b"
      by blast
    have "sp_id b = 0"
      using fun_cong [OF none(1), of "Pool_Obj a"] b by (simp split: if_splits)
    then show False
      using hinvD(3) [OF inv b] bufs by (simp add: pool_ok_def pool_refs_def hsum_def unat_eq_0)
  qed
  show "ch_frames h = {#}" "ch_fds h = {#}" "ch_mmaps h = {#}"
    using hinvD(2,7,8) [OF inv] bufs pools none by (simp_all add: frames_ok_def hsum_def)
qed

lemma shutdown_clean:
  assumes inv: "cinv (\<lambda>_. 0) {#} n e q s" and none: "ca_sessions s = Map.empty"
  shows "\<exists>h. rbuf_destroy (ca_queue s) (ca_heap s) = Ret h \<and> ch_pools h = Map.empty \<and> ch_bufs h = Map.empty \<and> ch_surfs h = Map.empty \<and>
    ch_params h = Map.empty \<and> ch_frames h = {#} \<and> ch_fds h = {#} \<and> ch_mmaps h = {#}"
proof -
  have "objects s k i = None" for k i
    using none by (simp add: objects_def)
  then have view: "view (ca_heap s) ob = None" for ob
    using tabs_okD(5) [OF cinvD(3) [OF inv], of ob] by (cases "view (ca_heap s) ob") auto
  have empty: "ch_surfs (ca_heap s) = Map.empty" "ch_params (ca_heap s) = Map.empty"
    using cinvD(8,9) [OF inv] view by blast+
  obtain xs where xs: "mset xs = mset (e @ q)" "rbuf_destroy (ca_queue s) (ca_heap s) = foldo free_frame xs (ca_heap s)"
    using rb.destroy_all [OF cinvD(2) [OF inv]] by blast
  have "hinv (\<lambda>_. 0) {#} (xs @ []) (ca_heap s)"
    using hinv_perm [OF xs(1) [symmetric] cinvD(1) [OF inv]] by simp
  then obtain h where h: "foldo free_frame xs (ca_heap s) = Ret h" "hinv (\<lambda>_. 0) {#} [] h" "gives_up (ca_heap s) h" "ch_surfs h = ch_surfs (ca_heap s)"
    using frames_given_up [of "\<lambda>_. 0" "{#}" xs "[]" "ca_heap s"] view by (auto simp: conn_ok_def simp del: view.simps)
  moreover have "view h = (\<lambda>_. None)" "ch_surfs h = Map.empty" "ch_params h = Map.empty"
    using h(3,4) view empty by (auto simp: gives_up_def fun_eq_iff simp del: view.simps)
  ultimately show ?thesis
    using nothing_left [of h] xs(2) by simp
qed

section \<open>A session is created\<close>

lemma wl_connection_create_ok: "\<exists>c. wl_connection_create True in_ok out_ok fd 0 = Ret (Some c)"
proof -
  have "\<exists>b. set_max_size ok 0 zeroed_ring = Ret b" for ok
    by (cases ok) (simp_all add: set_max_size_def ring_buffer_ensure_space_def ring_buffer_get_bits_for_size_def get_max_size_bits_for_size_def
        ring_buffer_size_def zeroed_ring_def size_pot_def ring_buffer_allocate_def ring_buffer_copy_def memcpy_def asserto_def ring_buffer_mask_def ring_buffer_capacity_def Let_def)
  then obtain i j where "set_max_size in_ok 0 zeroed_ring = Ret i" "set_max_size out_ok 0 zeroed_ring = Ret j"
    by blast
  then show ?thesis
    by (simp add: wl_connection_create_def wl_connection_set_max_buffer_size_def)
qed

lemma proxy_add_connection_runs:
  assumes "px_conns p (k, side) = None" "co_malloc env" "co_create env" "co_epoll env"
  shows "\<exists>c x y. wc_fd c = fd \<and> proxy_add_connection env k fd side p = Ret (0, p\<lparr>px_blocks := add_mset (Wl_Conn_Block k side) (add_mset (Conn_Block k side) (px_blocks p)),
    px_conns := (px_conns p)((k, side) \<mapsto> c), px_wire := x, px_epoll := y\<rparr>)"
proof -
  obtain c where c: "wl_connection_create (co_create env) (co_in env) (co_out env) fd 0 = Ret (Some c)"
    using wl_connection_create_ok [of "co_in env" "co_out env" fd] assms(3) by auto
  then have "wc_fd c = fd"
    by (auto simp: wl_connection_create_def bindo_Ret_iff split: if_splits)
  then show ?thesis
    using assms c by (auto simp: proxy_add_connection_def hmalloc_def proxy_epoll_add_fd_def asserto_def Let_def)
qed

lemma map_new_runs:
  "wm_free_list m = 0 \<Longrightarrow> \<exists>r m'. wl_map_insert_new ok flag d m = Ret (r, m')"
  by (auto simp: wl_map_insert_new_def map_new_entry_def Let_def split: option.split)

lemma session_map_runs:
  fixes x :: "'a option"
  shows "\<exists>m. session_map ok0 ok1 x = Ret m"
proof -
  obtain r m where m: "wl_map_insert_new ok0 False None (wl_map_init WL_MAP_CLIENT_SIDE) = Ret (r, m :: 'a wl_map)"
    using map_new_runs [of "wl_map_init WL_MAP_CLIENT_SIDE :: 'a wl_map" ok0 False None] by (auto simp: wl_map_init_def)
  then have "wm_free_list m = 0"
    using insert_new_fresh [OF _ _ _ m] by (simp add: wl_map_init_def)
  then show ?thesis
    using map_new_runs [of m ok1 False x] m by (auto simp: session_map_def)
qed

text \<open>The calls of \<^verbatim>\<open>proxy_create_session\<close> up to the connection to the compositor, and all of them, succeed.\<close>

definition conn_up :: "conn_env \<Rightarrow> bool" where
  "conn_up env \<longleftrightarrow> co_malloc env \<and> co_create env \<and> co_epoll env"

definition client_up :: "session_env \<Rightarrow> bool" where
  "client_up env \<longleftrightarrow> se_zalloc env \<and> se_name env \<and> conn_up (se_client env)"

lemma proxy_create_session_runs:
  assumes k: "\<And>side. px_conns p (k, side) = None" and slot: "free_slot (px_sessions p) \<noteq> MAX_SESSIONS"
    and env: "client_up env" "0 \<le> se_server_fd env" "conn_up (se_server env)" "se_types env" "se_data env"
  shows "\<exists>p'. proxy_create_session protocols env k fd p = Ret (0, p')"
proof -
  obtain types where types: "session_map (se_t0 env) (se_t1 env) (Some (pr_display protocols)) = Ret types"
    using session_map_runs by blast
  obtain data :: "obj wl_map" where data: "session_map (se_d0 env) (se_d1 env) None = Ret data"
    using session_map_runs by blast
  let ?names = "(px_names p)(k \<mapsto> fst (snprintf MAX_SESSION_NAME (px_name p @ ''/'' @ show_int (px_next_session_id p))))"
  let ?p0 = "p\<lparr>px_blocks := hmalloc (Name_Block k) (hmalloc (Session_Block k) (px_blocks p)), px_names := ?names\<rparr>"
  obtain p1 where p1: "proxy_add_connection (se_client env) k fd PROXY_SIDE_CLIENT ?p0 = Ret (0, p1)" "px_conns p1 (k, PROXY_SIDE_SERVER) = None"
    using proxy_add_connection_runs [of ?p0 k PROXY_SIDE_CLIENT "se_client env" fd] k env(1) by (auto simp: client_up_def conn_up_def)
  obtain p2 where p2: "proxy_add_connection (se_server env) k (se_server_fd env) PROXY_SIDE_SERVER (p1\<lparr>px_fds := hmalloc (se_server_fd env) (px_fds p1)\<rparr>) = Ret (0, p2)"
    using proxy_add_connection_runs [of "p1\<lparr>px_fds := hmalloc (se_server_fd env) (px_fds p1)\<rparr>" k PROXY_SIDE_SERVER "se_server env" "se_server_fd env"]
      p1(2) env(3) by (auto simp: conn_up_def)
  show ?thesis
    unfolding proxy_create_session_def Let_def
    using env slot p1(1) p2 by (simp add: client_up_def asserto_def types data handle_session_create_def)
qed

section \<open>Properties\<close>

text \<open>
  C39. A client that cannot be connected. When the compositor cannot be reached, or memory for the map of types runs out,
  the round of the proxy closes a descriptor that it has closed before: the one of the client, closed with its
  connection and again by \<^verbatim>\<open>proxy_run\<close>, or the one of the compositor, closed with its connection and again by the label
  the cleanup falls through to. The descriptors are assumed to be new, as the kernel hands them out, the session
  to be new and a place for it to be free.
\<close>

theorem failed_session_closes_twice:
  assumes fd: "0 \<le> client_fd" "client_fd \<notin># px_fds p" and k: "\<And>side. px_conns p (k, side) = None" and slot: "free_slot (px_sessions p) \<noteq> MAX_SESSIONS"
    and env: "client_up env" and fail: "se_server_fd env < 0 \<or> (se_server_fd env \<notin># px_fds p \<and> se_server_fd env \<noteq> client_fd \<and> conn_up (se_server env) \<and> \<not> se_types env)"
  shows "run_round protocols (Connected k client_fd env) p = Fault Double_Free"
proof -
  let ?p = "p\<lparr>px_fds := hmalloc client_fd (px_fds p)\<rparr>"
  let ?names = "(px_names p)(k \<mapsto> fst (snprintf MAX_SESSION_NAME (px_name p @ ''/'' @ show_int (px_next_session_id p))))"
  let ?p0 = "?p\<lparr>px_blocks := hmalloc (Name_Block k) (hmalloc (Session_Block k) (px_blocks p)), px_names := ?names\<rparr>"
  obtain c x y where c: "wc_fd c = client_fd" and p1: "proxy_add_connection (se_client env) k client_fd PROXY_SIDE_CLIENT ?p0 =
      Ret (0, ?p0\<lparr>px_blocks := add_mset (Wl_Conn_Block k PROXY_SIDE_CLIENT) (add_mset (Conn_Block k PROXY_SIDE_CLIENT) (px_blocks ?p0)),
        px_conns := (px_conns ?p0)((k, PROXY_SIDE_CLIENT) \<mapsto> c), px_wire := x, px_epoll := y\<rparr>)" (is "_ = Ret (0, ?p1)")
    using proxy_add_connection_runs [of ?p0 k PROXY_SIDE_CLIENT "se_client env" client_fd] k env by (auto simp: client_up_def conn_up_def)
  show ?thesis
  proof (cases "se_server_fd env < 0")
    case True
    have "\<exists>p2. err_server_socket k ?p1 = Ret (- 1, p2) \<and> px_fds p2 = px_fds p"
      using c by (simp add: err_server_socket_def err_client_def proxy_destroy_connection_def nonnull_def wl_connection_destroy_def
          proxy_free_def proxy_close_def hmalloc_def)
    then show ?thesis
      using True fd slot env p1 by (auto simp: run_round_def proxy_create_session_def client_up_def asserto_def proxy_close_def hfree_def Let_def)
  next
    case False
    let ?fd = "se_server_fd env"
    let ?p2 = "?p1\<lparr>px_fds := hmalloc ?fd (px_fds ?p1)\<rparr>"
    obtain cs x' y' where cs: "wc_fd cs = ?fd" and p3: "proxy_add_connection (se_server env) k ?fd PROXY_SIDE_SERVER ?p2 =
      Ret (0, ?p2\<lparr>px_blocks := add_mset (Wl_Conn_Block k PROXY_SIDE_SERVER) (add_mset (Conn_Block k PROXY_SIDE_SERVER) (px_blocks ?p2)),
        px_conns := (px_conns ?p2)((k, PROXY_SIDE_SERVER) \<mapsto> cs), px_wire := x', px_epoll := y'\<rparr>)" (is "_ = Ret (0, ?p3)")
      using proxy_add_connection_runs [of ?p2 k PROXY_SIDE_SERVER "se_server env" ?fd] k fail False by (auto simp: conn_up_def)
    have "err_obj_types k ?fd ?p3 = Fault Double_Free"
      using cs fail False by (simp add: err_obj_types_def err_server_conn_def proxy_destroy_connection_def nonnull_def wl_connection_destroy_def
          proxy_free_def proxy_close_def hmalloc_def) (simp add: hfree_def)
    then show ?thesis
      using False fail fd slot env p1 p3 by (auto simp: run_round_def proxy_create_session_def client_up_def asserto_def Let_def)
  qed
qed

text \<open>The frame the encoder takes is allocated, and so are the buffer it shows and the pool the buffer is in.\<close>

lemma cinv_latest:
  assumes inv: "cinv lk lf n e q s" and f: "rbuf_wait_peak_latest (ca_queue s) = Ret (queue, Some f)"
  shows "vf_block f \<in># ch_frames (ca_heap s)"
    and "\<exists>b. ch_bufs (ca_heap s) (vf_buf f) = Some b \<and> (\<forall>sb. wb_shm_buf b = Some sb \<longrightarrow> ch_pools (ca_heap s) (sb_pool sb) \<noteq> None)"
proof -
  note own = cinvD(2) [OF inv] and hi = cinvD(1) [OF inv]
  have q: "f \<in> set q"
    using own f rb.wait_empty [of free_frame "ca_queue s" n e] rb.latest_last [of free_frame "ca_queue s" n e "butlast q" "last q"]
    by (cases q rule: rev_cases) auto
  show "vf_block f \<in># ch_frames (ca_heap s)"
    using hinvD(2) [OF hi] q by (auto simp: frames_ok_def)
  have "ch_bufs (ca_heap s) (vf_buf f) \<noteq> None"
    using hinvD(2) [OF hi] q unfolding frames_ok_def by simp
  then obtain b where b: "ch_bufs (ca_heap s) (vf_buf f) = Some b"
    by blast
  then show "\<exists>b. ch_bufs (ca_heap s) (vf_buf f) = Some b \<and> (\<forall>sb. wb_shm_buf b = Some sb \<longrightarrow> ch_pools (ca_heap s) (sb_pool sb) \<noteq> None)"
    using hinvD(4) [OF hi b] by (auto simp: buf_ok_def)
qed

text \<open>
  C1. Memory safety of video capture. In every state that a capture thread can reach, whatever clients connect, send
  and hang up, whatever the compositor answers, whichever calls fail, and whenever the encoder takes frames: no message
  makes a handler use or free something that has been freed; a hangup and the end of the thread run to their end
  without any fault, or, only if the closure of a message that destroys an object cannot be allocated, abort with the assertion on
  it; the end releases all memory and all sockets of the proxy; taking a frame does not fault, and the
  frame the encoder gets is allocated, as are the buffer it shows and the mapped pool of a buffer in shared memory. What
  is asked of the messages is that new numbers are not those of living objects and, from a client, lie in the range of
  clients, and that the configure event of \<^verbatim>\<open>xdg_surface_get_toplevel\<close> is sent (when that fails the code frees an array twice);
  of the thread, fewer than \<open>2\<^sup>3\<^sup>1\<close> allocations, memory for the release events of the free callback,
  and that it is cancelled only where it waits.
\<close>

theorem capture_memory_safe:
  assumes prot: "protocols_ok protocols" and p: "reach protocols False n p"
  shows "(\<forall>env k side i sz opcode f. message_guard False env k side i sz opcode p \<longrightarrow>
      proxy_handle_message env protocols k side i sz opcode p = Fault f \<longrightarrow> f \<notin> {Use_After_Free, Double_Free, Stack_Escape}) \<and>
    (\<forall>env k. k \<in> live p \<longrightarrow> (\<exists>p'. proxy_destroy_session env k p = Ret p') \<or>
      ((\<exists>i. \<not> en_closure env i) \<and> proxy_destroy_session env k p = Fault Assert_Failed)) \<and>
    (\<forall>env. (\<exists>p'. capture_destroy env True (Some p) = Ret p' \<and> px_blocks p' = {#} \<and> px_fds p' = {#}) \<or>
      ((\<exists>i. \<not> en_closure env i) \<and> capture_destroy env True (Some p) = Fault Assert_Failed)) \<and>
    (\<forall>f. rbuf_wait_peak_latest (ca_queue (px_capture p)) \<noteq> Fault f) \<and>
    (\<forall>queue f. rbuf_wait_peak_latest (ca_queue (px_capture p)) = Ret (queue, Some f) \<longrightarrow>
      vf_block f \<in># ch_frames (ca_heap (px_capture p)) \<and>
      (\<exists>b. ch_bufs (ca_heap (px_capture p)) (vf_buf f) = Some b \<and>
        (\<forall>sb. wb_shm_buf b = Some sb \<longrightarrow> ch_pools (ca_heap (px_capture p)) (sb_pool sb) \<noteq> None)))"
proof (intro conjI allI impI)
  obtain lk lf where inv: "pinv protocols lk lf n p"
    using reach_pinv [OF prot p] by (auto simp: pinv_step_def)
  show "f \<notin> {Use_After_Free, Double_Free, Stack_Escape}"
    if "message_guard False env k side i sz opcode p" "proxy_handle_message env protocols k side i sz opcode p = Fault f" for env k side i sz opcode f
    using proxy_handle_message_ok [OF prot inv that(1)] that(2) by (auto simp: benign_def)
  show "(\<exists>p'. proxy_destroy_session env k p = Ret p') \<or>
      ((\<exists>i. \<not> en_closure env i) \<and> proxy_destroy_session env k p = Fault Assert_Failed)" if "k \<in> live p" for env k
    using proxy_destroy_session_ok [OF inv that] by blast
  show "(\<exists>p'. capture_destroy env True (Some p) = Ret p' \<and> px_blocks p' = {#} \<and> px_fds p' = {#}) \<or>
      ((\<exists>i. \<not> en_closure env i) \<and> capture_destroy env True (Some p) = Fault Assert_Failed)" for env
    using proxy_destroy_ok [OF inv, of env] by (auto simp: capture_destroy_def)
  obtain e q where cinv: "cinv lk lf n e q (px_capture p)"
    using inv unfolding pinv_def by blast
  then have own: "rbuf_own free_frame (ca_queue (px_capture p)) n e q"
    by (rule cinvD(2))
  show "vf_block f \<in># ch_frames (ca_heap (px_capture p))"
    and "\<exists>b. ch_bufs (ca_heap (px_capture p)) (vf_buf f) = Some b \<and>
        (\<forall>sb. wb_shm_buf b = Some sb \<longrightarrow> ch_pools (ca_heap (px_capture p)) (sb_pool sb) \<noteq> None)"
    if "rbuf_wait_peak_latest (ca_queue (px_capture p)) = Ret (queue, Some f)" for queue f
    by (rule cinv_latest [OF cinv that])+
  show "rbuf_wait_peak_latest (ca_queue (px_capture p)) \<noteq> Fault f" for f
    using own rb.wait_empty rb.latest_last by (cases q rule: rev_cases) fastforce+
qed

text \<open>
  C2. Nothing is left behind. When the clients also keep to the protocol of dma-buf parameters (a plane is set once, the
  planes are numbered from 0), then the end of the capture thread in any reachable state, followed by the destruction
  of the encode queue, releases every pool and its mapping, every buffer, surface and parameter object, every frame and
  every duplicated descriptor, although frames may outlive the objects and the connections of their clients. The one
  exception is the assertion that ends the process when the closure of a message that destroys an object cannot be allocated.
\<close>

theorem capture_shutdown_clean:
  assumes prot: "protocols_ok protocols" and p: "reach protocols True n p"
  shows "(\<exists>p' h. capture_destroy env True (Some p) = Ret p' \<and> px_blocks p' = {#} \<and> px_fds p' = {#} \<and>
      rbuf_destroy (ca_queue (px_capture p')) (ca_heap (px_capture p')) = Ret h \<and>
      ch_pools h = Map.empty \<and> ch_bufs h = Map.empty \<and> ch_surfs h = Map.empty \<and> ch_params h = Map.empty \<and>
      ch_frames h = {#} \<and> ch_fds h = {#} \<and> ch_mmaps h = {#}) \<or>
    ((\<exists>i. \<not> en_closure env i) \<and> capture_destroy env True (Some p) = Fault Assert_Failed)"
proof -
  have "pinv protocols (\<lambda>_. 0) {#} n p"
    using reach_pinv [OF prot p] by (auto simp: pinv_step_def)
  from proxy_destroy_ok [OF this, of env] consider p' e q where "proxy_destroy env p = Ret p'" "px_blocks p' = {#}" "px_fds p' = {#}"
    "ca_sessions (px_capture p') = Map.empty" "cinv (\<lambda>_. 0) {#} n e q (px_capture p')"
    | "\<exists>i. \<not> en_closure env i" "proxy_destroy env p = Fault Assert_Failed"
    by blast
  then show ?thesis
  proof cases
    case (1 p' e q)
    then show ?thesis
      using shutdown_clean [OF 1(5,4)] by (simp add: capture_destroy_def)
  qed (simp add: capture_destroy_def)
qed

text \<open>The part of the core protocols that the capture module handles, with the signatures of the protocol files.\<close>

definition demo_protocols :: protocols where
  "demo_protocols =
    \<lparr>pr_display = \<lparr>if_name = ''wl_display'',
       if_methods = [\<lparr>wg_name = ''sync'', wg_signature = ''n'', wg_types = [Some ''wl_callback'']\<rparr>,
         \<lparr>wg_name = ''get_registry'', wg_signature = ''n'', wg_types = [Some ''wl_registry'']\<rparr>],
       if_events = [\<lparr>wg_name = ''error'', wg_signature = ''ous'', wg_types = [None, None, None]\<rparr>,
         \<lparr>wg_name = ''delete_id'', wg_signature = ''u'', wg_types = [None]\<rparr>]\<rparr>,
     pr_tables = [
       [\<lparr>if_name = ''wl_compositor'',
          if_methods = [\<lparr>wg_name = ''create_surface'', wg_signature = ''n'', wg_types = [Some ''wl_surface'']\<rparr>], if_events = []\<rparr>,
        \<lparr>if_name = ''wl_shm'',
          if_methods = [\<lparr>wg_name = ''create_pool'', wg_signature = ''nhi'', wg_types = [Some ''wl_shm_pool'', None, None]\<rparr>],
          if_events = [\<lparr>wg_name = ''format'', wg_signature = ''u'', wg_types = [None]\<rparr>]\<rparr>,
        \<lparr>if_name = ''wl_shm_pool'',
          if_methods = [\<lparr>wg_name = ''create_buffer'', wg_signature = ''niiiiu'', wg_types = [Some ''wl_buffer'', None, None, None, None, None]\<rparr>,
            \<lparr>wg_name = ''destroy'', wg_signature = '''', wg_types = []\<rparr>], if_events = []\<rparr>,
        \<lparr>if_name = ''wl_buffer'', if_methods = [\<lparr>wg_name = ''destroy'', wg_signature = '''', wg_types = []\<rparr>],
          if_events = [\<lparr>wg_name = ''release'', wg_signature = '''', wg_types = []\<rparr>]\<rparr>,
        \<lparr>if_name = ''wl_surface'',
          if_methods = [\<lparr>wg_name = ''destroy'', wg_signature = '''', wg_types = []\<rparr>,
            \<lparr>wg_name = ''attach'', wg_signature = ''?oii'', wg_types = [Some ''wl_buffer'', None, None]\<rparr>],
          if_events = []\<rparr>],
       [\<lparr>if_name = ''zwp_linux_dmabuf_v1'',
          if_methods = [\<lparr>wg_name = ''destroy'', wg_signature = '''', wg_types = []\<rparr>,
            \<lparr>wg_name = ''create_params'', wg_signature = ''n'', wg_types = [Some ''zwp_linux_buffer_params_v1'']\<rparr>], if_events = []\<rparr>,
        \<lparr>if_name = ''zwp_linux_buffer_params_v1'',
          if_methods = [\<lparr>wg_name = ''destroy'', wg_signature = '''', wg_types = []\<rparr>,
            \<lparr>wg_name = ''add'', wg_signature = ''huuuuu'', wg_types = [None, None, None, None, None, None]\<rparr>,
            \<lparr>wg_name = ''create'', wg_signature = ''iiuu'', wg_types = [None, None, None, None]\<rparr>,
            \<lparr>wg_name = ''create_immed'', wg_signature = ''2niiuu'', wg_types = [Some ''wl_buffer'', None, None, None, None]\<rparr>],
          if_events = []\<rparr>]]\<rparr>"

lemma demo_protocols_ok: "protocols_ok demo_protocols"
  by code_simp

definition demo_conn :: conn_env where
  "demo_conn = \<lparr>co_malloc = True, co_create = True, co_in = True, co_out = True, co_epoll = True\<rparr>"

definition demo_session :: session_env where
  "demo_session = \<lparr>se_zalloc = True, se_name = True, se_client = demo_conn, se_server_fd = 6, se_server = demo_conn, se_types = True,
     se_t0 = True, se_t1 = True, se_data = True, se_d0 = True, se_d1 = True\<rparr>"

lemma demo_start: "\<exists>p. reach demo_protocols strict 8 p \<and> live p = {} \<and> px_conns p = Map.empty \<and> px_sessions p = replicate 8 None \<and> px_fds p = {#3, 4#}"
proof -
  obtain queue :: "(video_encode_queue_frame, cheap) rbuf" where queue: "rbuf_init True True (int 8) = Ret (Some queue)"
    by (simp add: rbuf_init_def asserto_def)
  obtain s where s: "capture_setup 1920 1080 queue = Ret s" "ca_sessions s = Map.empty"
    by (simp add: capture_setup_def rbuf_set_free_def asserto_def)
  let ?env = "\<lparr>in_zalloc = True, in_sessions = True, in_epoll_fd = 3, in_socket = Some 4, in_epoll = True\<rparr>"
  obtain p b fds where p: "proxy_init ?env ''stratus'' s = Ret (Some p, b, fds)" "px_capture p = s" "px_conns p = Map.empty"
      "px_sessions p = replicate 8 None" "px_fds p = {#3, 4#}"
    by (auto simp: proxy_init_def hmalloc_def Let_def)
  then show ?thesis
    using reach.start [OF queue s(1) p(1), of demo_protocols strict] s(2) by (auto simp: live_def)
qed

lemma demo_connected: "\<exists>p. reach demo_protocols strict 8 p \<and> live p = {7}"
proof -
  obtain p where p: "reach demo_protocols strict 8 p" "live p = {}" "px_conns p = Map.empty" "px_sessions p = replicate 8 None"
    using demo_start by blast
  let ?p = "p\<lparr>px_fds := hmalloc 5 (px_fds p)\<rparr>"
  have "free_slot (px_sessions ?p) \<noteq> MAX_SESSIONS"
    using p(4) by (simp add: numeral_eq_Suc)
  then obtain p' where p': "proxy_create_session demo_protocols demo_session 7 5 ?p = Ret (0, p')"
    using proxy_create_session_runs [of ?p 7 demo_session demo_protocols 5] p(3)
    by (auto simp: demo_session_def demo_conn_def client_up_def conn_up_def)
  have "live p' = {7}"
    by (rule proxy_create_session_inv [OF p']) (use p(2) in \<open>simp_all add: live_def with_session_def\<close>)
  then show ?thesis
    using reach.connect [OF p(1) _ p'] p(2) by auto
qed

definition demo_env :: env where
  "demo_env = \<lparr>en_malloc1 = True, en_malloc2 = True, en_mmap = None, en_insert = True, en_dup = 0, en_send = True,
     en_closure = (\<lambda>_. True)\<rparr>"

theorem capture_memory_safe_witness:
  "\<exists>p. protocols_ok demo_protocols \<and> reach demo_protocols False 8 p \<and> live p = {7} \<and>
    (\<exists>p'. proxy_destroy_session demo_env 7 p = Ret p') \<and>
    (\<exists>p'. capture_destroy demo_env True (Some p) = Ret p' \<and> px_blocks p' = {#} \<and> px_fds p' = {#})"
proof -
  obtain p where p: "reach demo_protocols False 8 p" "live p = {7}"
    using demo_connected by blast
  have env: "\<not> (\<exists>i. \<not> en_closure demo_env i)"
    by (simp add: demo_env_def)
  note safe = capture_memory_safe [OF demo_protocols_ok p(1), THEN conjunct2]
  have "\<exists>p'. proxy_destroy_session demo_env 7 p = Ret p'"
    using safe [THEN conjunct1, rule_format, of 7 demo_env] env p(2) by blast
  moreover have "\<exists>p'. capture_destroy demo_env True (Some p) = Ret p' \<and> px_blocks p' = {#} \<and> px_fds p' = {#}"
    using safe [THEN conjunct2, THEN conjunct1, rule_format, of demo_env] env by blast
  ultimately show ?thesis
    using p demo_protocols_ok by blast
qed

theorem capture_shutdown_clean_witness:
  "\<exists>p p' h. reach demo_protocols True 8 p \<and> live p = {7} \<and> capture_destroy demo_env True (Some p) = Ret p' \<and>
    px_blocks p' = {#} \<and> px_fds p' = {#} \<and> rbuf_destroy (ca_queue (px_capture p')) (ca_heap (px_capture p')) = Ret h \<and> ch_bufs h = Map.empty"
proof -
  obtain p where p: "reach demo_protocols True 8 p" "live p = {7}"
    using demo_connected by blast
  show ?thesis
    using capture_shutdown_clean [OF demo_protocols_ok p(1), of demo_env] p by (auto simp: demo_env_def)
qed

theorem failed_session_closes_twice_witness:
  "\<exists>p. reach demo_protocols True 8 p \<and>
    run_round demo_protocols (Connected 7 5 (demo_session\<lparr>se_server_fd := - 1\<rparr>)) p = Fault Double_Free \<and>
    run_round demo_protocols (Connected 7 5 (demo_session\<lparr>se_types := False\<rparr>)) p = Fault Double_Free"
proof -
  obtain p where p: "reach demo_protocols True 8 p" "px_conns p = Map.empty" "px_sessions p = replicate 8 None" "px_fds p = {#3, 4#}"
    using demo_start by blast
  have slot: "free_slot (px_sessions p) \<noteq> MAX_SESSIONS"
    using p(3) by (simp add: numeral_eq_Suc)
  show ?thesis
    using failed_session_closes_twice [of 5 p 7 "demo_session\<lparr>se_server_fd := - 1\<rparr>" demo_protocols]
      failed_session_closes_twice [of 5 p 7 "demo_session\<lparr>se_types := False\<rparr>" demo_protocols] p slot
    by (auto simp: demo_session_def demo_conn_def client_up_def conn_up_def)
qed

end
