(* ===== verification/Spec2Isabelle.thy ===== *)
theory Spec2Isabelle
  imports Ring_Memory Rbuf_Concurrent Input Side_Car Audio_Encode Video_Encode Capture_Safety
begin

text \<open>
  Verification of the Stratus streaming daemon, \<^verbatim>\<open>src/stratusd\<close>.

  \<^bold>\<open>The program.\<close> The daemon runs on the machine that runs a game. The SideCar (\<^verbatim>\<open>SideCar\<close>) talks to a backend over a
  WebSocket and starts one stream session at a time: six threads and the game. The video capture thread (\<^verbatim>\<open>Capture\<close>) is a
  Wayland proxy between the game and the compositor: it reads every message, keeps structs for the buffers and surfaces
  of its clients, and pushes a frame to the encode queue whenever a surface is committed. The video encoder
  (\<^verbatim>\<open>Encode/src/Encode.c\<close>) takes the latest frame, encodes it and pushes packets to the transport queue. Audio goes from
  PipeWire (\<^verbatim>\<open>CapturePw\<close>) through a ring of samples to the audio encoder (\<^verbatim>\<open>Encode/src/AudioEncode.c\<close>) and another
  transport queue. The transport thread sends the packets to the browser and receives its input, which the Input module
  (\<^verbatim>\<open>Input\<close>) turns into events of virtual gamepads. The threads meet in two kinds of queues (\<^verbatim>\<open>Common\<close>): a ring of
  samples with a mutex, and lock-free rings of pointers.

  \<^bold>\<open>Conventions.\<close> A C function is a HOL function on explicit state whose result is an \<open>outcome\<close>: the returned value, a
  fault with its reason (a failed assertion, a NULL or dangling pointer, an access outside an object, indeterminate
  memory, undefined behaviour), or that it waits for another thread. Error codes and early returns are values. Integers
  keep their width as words where the arithmetic can wrap. Blocks, descriptors and other handles are multisets, so that
  leaks and double frees can be seen; the structs of the capture module are in a store of addresses, because they point
  to each other. What code outside the sources answers (libc, the kernel, cJSON, curl, libevdev, PipeWire, Opus,
  FFmpeg, EGL, the compositor) is an argument: a record of results, a list of answers with one entry per call, or a
  function with documented laws as hypotheses. All interleavings of threads are covered by quantifying over
  sequences of steps, or by step relations. Definitions carry the names of the source.

  \<^bold>\<open>Theories.\<close>

  \<^item> \<open>Prelude\<close> has outcomes, machine types and shared lemmas; \<open>C_Strings\<close> bounded copies and \<^verbatim>\<open>snprintf\<close>; \<open>C_Heap\<close> heaps of
    labelled blocks; \<open>Float32\<close> binary32 arithmetic; \<open>Framing\<close> the contract \<open>packet_stream\<close> of a module that cuts a stream into
    packets, which \<open>Input\<close> and \<open>Audio_Encode\<close> provide.

  \<^item> \<open>Ring_Buffer\<close> (\<^verbatim>\<open>Common/src/ringBuffer.c\<close>): the ring of samples on bytes and words. It implements the locale
    \<open>lossy_queue\<close>; a reader gets a subsequence of what was written, and no wakeup is lost. \<open>Ring_Memory\<close> has the memory of its
    creation and destruction.

  \<^item> \<open>Rbuf\<close>, \<open>Rbuf_Concurrent\<close> (\<^verbatim>\<open>Common/src/rbuf2.c\<close>): the ring of pointers as atomic calls, which implement the locale
    \<open>owned_queue\<close>, and as the interleaved accesses of two threads to sequentially consistent memory. Entries come out in
    order, each is freed once and none while the consumer holds it; neither a push nor a call of \<^verbatim>\<open>rbuf_free_expired\<close> on
    its own ever waits.

  \<^item> \<open>Gamepad\<close>, \<open>Input\<close> (\<^verbatim>\<open>Input/src\<close>): parsing and applying packets. However the stream is cut, its packets are applied in
    order, as long as every message is handed on (the main loop skips to the latest one); axes and buttons are those of
    the packet; the kernel device shows the state of the gamepad; failed initialisations release what they made.

  \<^item> \<open>Steam_Launcher\<close>, \<open>Api\<close>, \<open>Session\<close>, \<open>Side_Car\<close> (\<^verbatim>\<open>SideCar/src\<close>, \<^verbatim>\<open>main.c\<close>): the catalog of games, the messages to and from the
    backend with their memory, the life of a session with the order of its teardown, and the main loop. Resources of
    sessions are destroyed exactly once; several theorems show what error paths really do, each with the exact
    conditions. In \<open>Side_Car\<close>, \<^verbatim>\<open>errno\<close> and the open directory streams are part of the state.

  \<^item> \<open>Capture_Pw\<close>, \<open>Audio_Encode\<close> (\<^verbatim>\<open>CapturePw/src/CapturePw.c\<close>, \<^verbatim>\<open>Encode/src/AudioEncode.c\<close>): the conversion of samples is exact,
    the captured stream reaches the ring, the encoder gets its consecutive packets of 20 ms, and both threads
    release what they hold on every path.

  \<^item> \<open>Wl_Map\<close>, \<open>Wl_Closure\<close>, \<open>Wl_Connection\<close> (\<^verbatim>\<open>wayland-util.c\<close> and \<^verbatim>\<open>connection.c\<close> of \<^verbatim>\<open>libs/wayland/src\<close>, which the repository
    patches): object maps refine a partial function (locale \<open>object_map\<close>); what is read from one connection and sent on
    another arrives there as the same message.

  \<^item> \<open>Capture_Model\<close> (\<^verbatim>\<open>shm-buffers.c\<close>, \<^verbatim>\<open>dma-buffers.c\<close>, \<^verbatim>\<open>video-output.c\<close>, \<^verbatim>\<open>resize.c\<close>, \<^verbatim>\<open>Capture.c\<close> of \<^verbatim>\<open>Capture/src\<close>): the structs
    and all handlers. \<open>Capture_Refs\<close> has the reference counts as the invariant \<open>hinv\<close> of the store, \<open>Capture_Inv\<close> the
    invariant \<open>cinv\<close> of the module; \<open>Capture_Handlers\<close>, \<open>Capture_Destroy\<close>, \<open>Capture_Commit\<close> and \<open>Capture_Session\<close> show that each
    operation keeps it.

  \<^item> \<open>Proxy\<close> (\<^verbatim>\<open>Capture/src/proxy.c\<close> and the thread of \<^verbatim>\<open>Capture.c\<close>): sessions, the path of a message, the event loop and its
    end. \<open>Proxy_Inv\<close> and \<open>Proxy_Session\<close> lift the invariant to the proxy; \<open>Capture_Safety\<close> has the reachable states of the
    thread, its memory safety and its clean end.

  \<^item> \<open>Video_Encode\<close> (\<^verbatim>\<open>Encode.c\<close>, \<^verbatim>\<open>EncodeUtils.c\<close>, \<^verbatim>\<open>EGLUtils.c\<close> of \<^verbatim>\<open>Encode/src\<close>): the thread from its startup to its cleanup
    handler. On pictures that lie in their memory it faults nowhere and accounts for every block and every frame. The
    functions that \<^verbatim>\<open>eglGetProcAddress\<close> finds are part of the context, and calling a missing one is a fault; so is a read
    of \<^verbatim>\<open>sws_scale\<close> past the memory of a picture.

  \<^bold>\<open>Composition.\<close> The clients of a queue use the facts of the interpretation \<open>rb\<close> of \<open>owned_queue\<close>: \<open>Input\<close>, both encoders and
  the capture module, whose free callback gives back the reference of a frame to its buffer. \<open>Capture_Safety\<close> lets the
  encoder take frames at any moment and shows that what it gets is still allocated. \<open>Side_Car\<close> uses the locale
  \<open>session_manager\<close>, which \<open>Session\<close> provides. The proxy reads and sends through \<open>Wl_Connection\<close>, finds objects in \<open>Wl_Map\<close> and
  calls the handlers of \<open>Capture_Model\<close> with the arguments of the closure.

  \<^bold>\<open>Bounds.\<close> Loops over data are total functions with a measure or structural recursion. Loops that end when another
  party stops answering recurse over the list of its answers, of any length: the reads and writes of a connection, the
  rounds of the event loop and of the encoders, the callbacks of PipeWire. The main loop of the SideCar has a bound on
  its iterations as an argument, and its theorems hold for all bounds. \<open>consume_loop\<close> of the audio encoder has as fuel
  the number of frames read, enough because each step consumes at least one. Reference counts and map indexes are
  32-bit words; the theorems about the capture thread are for fewer than \<open>2\<^sup>3\<^sup>1\<close> allocations. The ring of pointers is for
  sizes up to \<open>2\<^sup>3\<^sup>0\<close>, the ring of samples for sizes that fit into its 32-bit positions.

  \<^bold>\<open>Simplifications.\<close> The descriptors of a connection are lists, not rings of 4-byte items. The events the capture module
  sends itself are a list beside the bytes of the connections. The tables of the Wayland protocols are generated code
  and an argument; \<open>protocols_ok\<close> is what their files say. Memory is sequentially consistent. The
  capture thread is cancelled where it waits in \<^verbatim>\<open>epoll_wait\<close>; that \<^verbatim>\<open>pthread_cancel\<close> may also take effect at a \<^verbatim>\<open>close\<close> or
  \<^verbatim>\<open>sendmsg\<close> inside a handler is left out. The field \<open>en_closure\<close> of its environment says which closures of messages that the
  module makes itself can be allocated: without memory \<^verbatim>\<open>destroy_object\<close> fails its assertion and the other
  senders dereference NULL; only the free callback of the encode queue, which has no environment, always has
  memory for its release event. The values of pixels and the bits inside of codecs are left out. Output of \<^verbatim>\<open>printf\<close> and \<^verbatim>\<open>perror\<close> is left out.

  \<^bold>\<open>Not modelled.\<close> The transport module is C++ on the classes of libquiche, and little of it is not a call of that library.
  libquiche and what it brings along, and the parts of libwayland the proxy does not run (the scanner, the client and server
  libraries, linked lists, cursors, \<^verbatim>\<open>wl_closure_print\<close>), are third-party code.
  \<^verbatim>\<open>generate_argb_frame\<close> is a test pattern that nothing calls. The backend and the frontend are TypeScript; the rest of
  the repository is configuration and documents.
\<close>

end
